(* ===== verification/Prelude.thy ===== *)
theory Prelude
  imports
    Main
    "HOL-Library.Char_ord"
    "HOL-Library.List_Lexorder"
    "HOL-Library.Product_Lexorder"
    "HOL-Library.Sublist"
    "HOL-Library.Monad_Syntax"
begin

text \<open>
  Shared vocabulary of the development: Go byte strings, the functions of the Go packages
  \<^verbatim>\<open>bytes\<close>, \<^verbatim>\<open>strings\<close> and \<^verbatim>\<open>strconv\<close> that the modelled sources call, and the generic
  lemmas on lists, options and maps that the component proofs use.

  A Go \<^verbatim>\<open>byte\<close> is an Isabelle \<^typ>\<open>char\<close> (both have exactly 256 values), so a Go
  \<^verbatim>\<open>string\<close> and a Go \<^verbatim>\<open>[]byte\<close> are both \<^typ>\<open>char list\<close>, the conversions between
  them are the identity, and string literals are Isabelle string literals.
\<close>

type_synonym byte = char
type_synonym bytes = "char list"

named_theorems go_bytes \<open>characterisations of the byte-string library functions\<close>
named_theorems inv_intros \<open>preservation of component invariants\<close>

section \<open>Generic list lemmas\<close>

lemma prefix_take_iff: "prefix xs ys \<longleftrightarrow> take (length xs) ys = xs"
  by (metis append_take_drop_id prefixE prefixI append_eq_conv_conj)

lemma suffix_snoc_iff [simp]:
  "suffix (xs @ [x]) (ys @ [y]) \<longleftrightarrow> x = y \<and> suffix xs ys"
  by auto

lemma suffix_same_length: "suffix xs zs \<Longrightarrow> suffix ys zs \<Longrightarrow> length xs = length ys \<Longrightarrow> xs = ys"
  by (metis suffix_length_suffix suffix_order.dual_order.antisym order_refl)

lemma suffix_tl_of_proper: "suffix xs ys \<Longrightarrow> xs \<noteq> ys \<Longrightarrow> suffix xs (tl ys)"
  by (cases ys) (auto simp: suffix_Cons)

lemma upt_0_Suc: "[0..<Suc n] = 0 # map Suc [0..<n]"
  by (simp add: map_Suc_upt upt_conv_Cons del: upt_Suc)

lemma prefix_upt:
  assumes "prefix (ys @ [k]) [0..<n]"
  shows "ys = [0..<k] \<and> k < n"
proof -
  from assms have len: "length ys < n" by (auto dest: prefix_length_le)
  have "take (Suc (length ys)) [0..<n] = ys @ [k]" using assms by (simp add: prefix_take_iff)
  with len have "[0..<Suc (length ys)] = ys @ [k]" by (simp add: take_upt del: upt_Suc)
  then have "[0..<length ys] @ [length ys] = ys @ [k]" unfolding upt_Suc_append [OF le0] .
  then have ys: "[0..<length ys] = ys" and k: "length ys = k" unfolding append1_eq_conv by blast+
  from ys len show ?thesis unfolding k by simp
qed

section \<open>Slices with run-time bounds checks, loops that may panic\<close>

text \<open>
  An index expression of Go panics when the index is out of range: \<open>geti\<close> and \<open>seti\<close> return
  \<^const>\<open>None\<close> there, \<open>slicei\<close> is the checked slice expression \<^verbatim>\<open>xs[lo:hi]\<close>, and \<open>foldM\<close> is a
  \<^verbatim>\<open>for ... range\<close> loop whose body may panic or return early.
\<close>

definition geti :: "'a list \<Rightarrow> nat \<Rightarrow> 'a option" where
  "geti xs i = (if i < length xs then Some (xs ! i) else None)"

definition seti :: "'a list \<Rightarrow> nat \<Rightarrow> 'a \<Rightarrow> 'a list option" where
  "seti xs i v = (if i < length xs then Some (xs[i := v]) else None)"

definition slicei :: "'a list \<Rightarrow> nat \<Rightarrow> nat \<Rightarrow> 'a list option" where
  "slicei xs lo hi = (if lo \<le> hi \<and> hi \<le> length xs then Some (take (hi - lo) (drop lo xs)) else None)"

fun foldM :: "('a \<Rightarrow> 's \<Rightarrow> 's option) \<Rightarrow> 'a list \<Rightarrow> 's \<Rightarrow> 's option" where
  "foldM f [] s = Some s"
| "foldM f (x # xs) s = (case f x s of None \<Rightarrow> None | Some s' \<Rightarrow> foldM f xs s')"

lemma geti_in [simp]: "i < length xs \<Longrightarrow> geti xs i = Some (xs ! i)"
  by (simp add: geti_def)

lemma seti_in [simp]: "i < length xs \<Longrightarrow> seti xs i v = Some (xs[i := v])"
  by (simp add: seti_def)

text \<open>The loop rule: an invariant over the elements already consumed.\<close>

lemma foldM_rule:
  assumes "I [] s"
    and "\<And>ys x t. prefix (ys @ [x]) xs \<Longrightarrow> I ys t \<Longrightarrow> \<exists>t'. f x t = Some t' \<and> I (ys @ [x]) t'"
  shows "\<exists>s'. foldM f xs s = Some s' \<and> I xs s'"
proof -
  have "\<exists>s'. foldM f zs t = Some s' \<and> I xs s'" if "xs = ys @ zs" "I ys t" for ys zs t
    using that
  proof (induction zs arbitrary: ys t)
    case (Cons z zs)
    then obtain t' where "f z t = Some t'" "I (ys @ [z]) t'"
      using assms(2) [of ys z t] by auto
    then show ?case using Cons.IH [of "ys @ [z]" t'] Cons.prems by simp
  qed simp
  from this [of "[]" xs s] assms(1) show ?thesis by simp
qed

lemma foldM_preserves:
  assumes "\<And>x s s'. f x s = Some s' \<Longrightarrow> g s' = g s"
  shows "foldM f xs s = Some s' \<Longrightarrow> g s' = g s"
proof (induction xs arbitrary: s)
  case (Cons x xs)
  then obtain t where "f x s = Some t" "foldM f xs t = Some s'" by (auto split: option.splits)
  then show ?case using Cons.IH assms by metis
qed simp

section \<open>\<^verbatim>\<open>bytes.Index\<close>, \<^verbatim>\<open>bytes.Contains\<close>, \<^verbatim>\<open>bytes.Count\<close>\<close>

text \<open>The offset of the first occurrence of a needle; \<^const>\<open>None\<close> for Go's \<^verbatim>\<open>-1\<close>.\<close>

fun bytes_index :: "'a list \<Rightarrow> 'a list \<Rightarrow> nat option" where
  "bytes_index [] needle = (if needle = [] then Some 0 else None)"
| "bytes_index (x # xs) needle =
     (if prefix needle (x # xs) then Some 0 else map_option Suc (bytes_index xs needle))"

definition bytes_contains :: "'a list \<Rightarrow> 'a list \<Rightarrow> bool" where
  "bytes_contains hay needle \<longleftrightarrow> bytes_index hay needle \<noteq> None"

definition occurs_at :: "'a list \<Rightarrow> 'a list \<Rightarrow> nat \<Rightarrow> bool" where
  "occurs_at hay needle i \<longleftrightarrow> i + length needle \<le> length hay \<and> take (length needle) (drop i hay) = needle"

lemma occurs_at_0: "occurs_at hay needle 0 \<longleftrightarrow> prefix needle hay"
proof -
  have "length needle \<le> length hay" if "take (length needle) hay = needle"
    using that by (metis length_take min.absorb_iff2 min.commute)
  then show ?thesis by (auto simp: occurs_at_def prefix_take_iff)
qed

lemma occurs_at_Suc [simp]: "occurs_at (x # xs) needle (Suc i) \<longleftrightarrow> occurs_at xs needle i"
  by (simp add: occurs_at_def)

lemma occurs_at_prefix_drop: "occurs_at hay needle i \<longleftrightarrow> i \<le> length hay \<and> prefix needle (drop i hay)"
proof
  assume "occurs_at hay needle i"
  then show "i \<le> length hay \<and> prefix needle (drop i hay)"
    by (auto simp: occurs_at_def prefix_take_iff)
next
  assume r: "i \<le> length hay \<and> prefix needle (drop i hay)"
  then have "length needle \<le> length hay - i" using prefix_length_le by fastforce
  with r show "occurs_at hay needle i" by (auto simp: occurs_at_def prefix_take_iff)
qed

lemma bytes_index_Some:
  "bytes_index hay needle = Some i \<longleftrightarrow> occurs_at hay needle i \<and> (\<forall>j<i. \<not> occurs_at hay needle j)"
proof (induction hay arbitrary: i)
  case Nil
  show ?case by (auto simp: occurs_at_def)
next
  case (Cons x xs)
  show ?case
  proof (cases "prefix needle (x # xs)")
    case True
    then have "occurs_at (x # xs) needle 0" by (simp add: occurs_at_0)
    with True show ?thesis by (cases i) auto
  next
    case False
    then have "\<not> occurs_at (x # xs) needle 0" by (simp add: occurs_at_0)
    with False show ?thesis
      by (cases i) (auto simp: Cons.IH less_Suc_eq_0_disj)
  qed
qed

lemma bytes_index_None: "bytes_index hay needle = None \<longleftrightarrow> (\<forall>i. \<not> occurs_at hay needle i)"
proof (induction hay)
  case Nil
  show ?case by (auto simp: occurs_at_def)
next
  case (Cons x xs)
  have split: "(\<forall>i. \<not> occurs_at (x # xs) needle i) \<longleftrightarrow>
      \<not> occurs_at (x # xs) needle 0 \<and> (\<forall>i. \<not> occurs_at xs needle i)"
    by (metis not0_implies_Suc occurs_at_Suc)
  show ?case unfolding split by (simp add: Cons.IH occurs_at_0)
qed

lemma bytes_contains_iff [go_bytes]: "bytes_contains hay needle \<longleftrightarrow> (\<exists>i. occurs_at hay needle i)"
  by (simp add: bytes_contains_def bytes_index_None)

lemma bytes_contains_sublist: "bytes_contains hay needle \<longleftrightarrow> sublist needle hay"
proof
  assume "bytes_contains hay needle"
  then obtain i where "prefix needle (drop i hay)"
    by (auto simp: bytes_contains_iff occurs_at_prefix_drop)
  then obtain zs where "hay = take i hay @ needle @ zs"
    by (metis append_take_drop_id prefixE)
  then show "sublist needle hay" by (metis sublist_appendI)
next
  assume "sublist needle hay"
  then obtain ps ss where "hay = ps @ needle @ ss" by (auto simp: sublist_def)
  then have "occurs_at hay needle (length ps)" by (simp add: occurs_at_def)
  then show "bytes_contains hay needle" by (auto simp: bytes_contains_iff)
qed

lemma not_contains_longer: "length hay < length needle \<Longrightarrow> \<not> bytes_contains hay needle"
  by (auto simp: bytes_contains_iff occurs_at_def)

lemma bytes_contains_refl [simp]: "bytes_contains hay hay"
  by (auto simp: bytes_contains_iff occurs_at_def intro!: exI [where x = 0])

definition bytes_count_newlines :: "bytes \<Rightarrow> nat" where
  "bytes_count_newlines b = length (filter (\<lambda>c. c = CHR 0x0A) b)"

lemma newlines_append [simp]:
  "bytes_count_newlines (a @ b) = bytes_count_newlines a + bytes_count_newlines b"
  by (simp add: bytes_count_newlines_def)

lemma newlines_Nil [simp]: "bytes_count_newlines [] = 0"
  by (simp add: bytes_count_newlines_def)

lemma newlines_take_add:
  "bytes_count_newlines (take (i + j) xs) =
   bytes_count_newlines (take i xs) + bytes_count_newlines (take j (drop i xs))"
  by (simp add: take_add)

section \<open>Go slices of byte strings\<close>

text \<open>\<^verbatim>\<open>b[lo:hi]\<close>; the callers below keep \<^verbatim>\<open>lo <= hi <= len(b)\<close>.\<close>

definition slice :: "nat \<Rightarrow> nat \<Rightarrow> 'a list \<Rightarrow> 'a list" where
  "slice lo hi xs = take (hi - lo) (drop lo xs)"

lemma length_slice [simp]: "lo \<le> hi \<Longrightarrow> hi \<le> length xs \<Longrightarrow> length (slice lo hi xs) = hi - lo"
  by (simp add: slice_def)

lemma nth_slice: "i < hi - lo \<Longrightarrow> hi \<le> length xs \<Longrightarrow> slice lo hi xs ! i = xs ! (lo + i)"
  by (simp add: slice_def)

lemma slice_full [simp]: "slice 0 (length xs) xs = xs"
  by (simp add: slice_def)

lemma occurs_at_slice:
  assumes "lo \<le> i" "i + length needle \<le> hi" "hi \<le> length xs"
  shows "occurs_at (slice lo hi xs) needle (i - lo) \<longleftrightarrow> occurs_at xs needle i"
proof -
  have len: "i - lo + length needle \<le> length (slice lo hi xs) \<and> i + length needle \<le> length xs"
    using assms by (auto simp: slice_def)
  have "take (length needle) (drop (i - lo) (slice lo hi xs)) = take (length needle) (drop i xs)"
    using assms by (simp add: slice_def drop_take)
  with len show ?thesis by (simp add: occurs_at_def)
qed

section \<open>ASCII case folding\<close>

text \<open>
  The byte loop of \<^verbatim>\<open>lowerCaseInto\<close> and of the ASCII part of \<^verbatim>\<open>bytes.ToLower\<close>: the codes 65..90
  move up by 32, every other byte stays.
\<close>

definition ascii_lower :: "byte \<Rightarrow> byte" where
  "ascii_lower b = (if CHR ''A'' \<le> b \<and> b \<le> CHR ''Z'' then char_of (of_char b + 32 :: nat) else b)"

lemma of_char_less_256: "(of_char c :: nat) < 256"
  by simp

lemma char_eq_of_char: "c = d \<longleftrightarrow> (of_char c :: nat) = of_char d"
  by simp

lemma char_le_of_char: "c \<le> d \<longleftrightarrow> (of_char c :: nat) \<le> of_char d"
  by (simp add: less_eq_char_def)

lemma char_less_of_char: "c < d \<longleftrightarrow> (of_char c :: nat) < of_char d"
  by (simp add: less_char_def)

lemma ascii_lower_idem [simp]: "ascii_lower (ascii_lower b) = ascii_lower b"
  by (auto simp: ascii_lower_def char_le_of_char)

lemma ascii_lower_not_upper: "\<not> (CHR ''A'' \<le> ascii_lower b \<and> ascii_lower b \<le> CHR ''Z'')"
  by (auto simp: ascii_lower_def char_le_of_char)

section \<open>\<^verbatim>\<open>strconv.Itoa\<close>\<close>

definition digit_char :: "nat \<Rightarrow> char" where
  "digit_char d = char_of (48 + d)"

fun itoa_nat :: "nat \<Rightarrow> string" where
  "itoa_nat n = (if n < 10 then [digit_char n] else itoa_nat (n div 10) @ [digit_char (n mod 10)])"

declare itoa_nat.simps [simp del]

definition itoa :: "int \<Rightarrow> string" where
  "itoa i = (if i < 0 then CHR ''-'' # itoa_nat (nat (- i)) else itoa_nat (nat i))"

lemma of_char_digit: "d < 10 \<Longrightarrow> (of_char (digit_char d) :: nat) = 48 + d"
  by (simp add: digit_char_def)

lemma digit_char_inj: "d < 10 \<Longrightarrow> e < 10 \<Longrightarrow> digit_char d = digit_char e \<longleftrightarrow> d = e"
  by (metis add_left_cancel of_char_digit)

lemma itoa_nat_digits: "set (itoa_nat n) \<subseteq> digit_char ` {..<10}"
proof (induction n rule: itoa_nat.induct)
  case (1 n)
  then show ?case by (subst itoa_nat.simps) auto
qed

lemma itoa_nat_nonempty [simp]: "itoa_nat n \<noteq> []"
  by (subst itoa_nat.simps) auto

lemma itoa_nat_inj: "itoa_nat m = itoa_nat n \<Longrightarrow> m = n"
proof (induction m arbitrary: n rule: itoa_nat.induct)
  case (1 m)
  have rec: "itoa_nat k = (if k < 10 then [] else itoa_nat (k div 10)) @ [digit_char (k mod 10)]" for k
    by (subst itoa_nat.simps) simp
  from "1.prems" have last: "m mod 10 = n mod 10"
    and front: "(if m < 10 then [] else itoa_nat (m div 10)) = (if n < 10 then [] else itoa_nat (n div 10))"
    by (subst (asm) (1 2) rec, simp add: digit_char_inj)+
  show ?case
  proof (cases "m < 10")
    case True
    with front have "n < 10" by (metis itoa_nat_nonempty)
    with True last show ?thesis by simp
  next
    case False
    with front have "\<not> n < 10" and "itoa_nat (m div 10) = itoa_nat (n div 10)"
      by (auto split: if_splits)
    with False "1.IH" have "m div 10 = n div 10" by blast
    with last show ?thesis by (metis div_mult_mod_eq)
  qed
qed

lemma minus_not_digit: "CHR ''-'' \<notin> set (itoa_nat n)"
proof
  assume "CHR ''-'' \<in> set (itoa_nat n)"
  then obtain d where "d < 10" and "CHR ''-'' = digit_char d" using itoa_nat_digits by blast
  then have "(of_char CHR ''-'' :: nat) = 48 + d" by (metis of_char_digit)
  then show False by simp
qed

lemma itoa_inj [simp]: "itoa i = itoa j \<longleftrightarrow> i = j"
proof
  assume eq: "itoa i = itoa j"
  have "hd (itoa_nat n) \<noteq> CHR ''-''" for n
    using minus_not_digit [of n] hd_in_set itoa_nat_nonempty by metis
  with eq have "i < 0 \<longleftrightarrow> j < 0"
    by (metis itoa_def list.sel(1))
  with eq show "i = j"
    by (auto simp: itoa_def dest!: itoa_nat_inj split: if_splits)
qed simp

lemma itoa_no_nul: "CHR 0x00 \<notin> set (itoa i)"
proof -
  have "CHR 0x00 \<notin> set (itoa_nat n)" for n
  proof
    assume "CHR 0x00 \<in> set (itoa_nat n)"
    then obtain d where "d < 10" and "CHR 0x00 = digit_char d" using itoa_nat_digits by blast
    then have "(of_char CHR 0x00 :: nat) = 48 + d" by (metis of_char_digit)
    then show False by simp
  qed
  then show ?thesis by (simp add: itoa_def)
qed

section \<open>\<^verbatim>\<open>strings.Split\<close>, \<^verbatim>\<open>strings.HasPrefix\<close>, \<^verbatim>\<open>strings.HasSuffix\<close>\<close>

text \<open>Splitting at a one-byte separator: always at least one field.\<close>

fun split_byte :: "byte \<Rightarrow> bytes \<Rightarrow> bytes list" where
  "split_byte sep [] = [[]]"
| "split_byte sep (c # cs) =
     (if c = sep then [] # split_byte sep cs
      else case split_byte sep cs of [] \<Rightarrow> [[c]] | f # fs \<Rightarrow> (c # f) # fs)"

lemma split_byte_nonempty [simp]: "split_byte sep s \<noteq> []"
  by (induction s) (auto split: list.splits)

fun join_byte :: "byte \<Rightarrow> bytes list \<Rightarrow> bytes" where
  "join_byte sep [] = []"
| "join_byte sep [f] = f"
| "join_byte sep (f # g # fs) = f @ sep # join_byte sep (g # fs)"

lemma join_split_byte: "join_byte sep (split_byte sep s) = s"
proof (induction s)
  case Nil
  then show ?case by simp
next
  case (Cons c s)
  obtain f fs where "split_byte sep s = f # fs" by (metis list.exhaust split_byte_nonempty)
  with Cons show ?case by (cases fs) auto
qed

lemma split_byte_no_sep: "f \<in> set (split_byte sep s) \<Longrightarrow> sep \<notin> set f"
proof (induction s arbitrary: f)
  case Nil
  then show ?case by simp
next
  case (Cons c s)
  obtain g gs where "split_byte sep s = g # gs" by (metis list.exhaust split_byte_nonempty)
  with Cons show ?case by (auto split: if_splits)
qed

abbreviation has_prefix :: "bytes \<Rightarrow> bytes \<Rightarrow> bool" where
  "has_prefix s p \<equiv> prefix p s"

abbreviation has_suffix :: "bytes \<Rightarrow> bytes \<Rightarrow> bool" where
  "has_suffix s p \<equiv> suffix p s"

end
