(* ===== verification/AhoCorasickSpec.thy ===== *)
theory AhoCorasickSpec
  imports Prelude
begin

text \<open>
  The mathematics behind the keyword matcher of \<^verbatim>\<open>src/pkg/ahocorasick\<close>, independent of its
  tables: the state reached after reading a text is the longest suffix of the text that is a
  prefix of some pattern (\<open>lss\<close>), the dictionary link of a state is the longest proper suffix
  that is a whole pattern (\<open>lps\<close>), and the identifiers reported at a position are those of all
  the suffixes, longest first (\<open>suffix_ids\<close>).
\<close>

section \<open>The longest suffix in a prefix-closed set\<close>

fun lss :: "'a list set \<Rightarrow> 'a list \<Rightarrow> 'a list" where
  "lss P [] = []"
| "lss P (x # xs) = (if x # xs \<in> P then x # xs else lss P xs)"

lemma lss_suffix: "suffix (lss P w) w"
  by (induction w) (auto intro: suffix_ConsI)

lemma lss_length: "length (lss P w) \<le> length w"
  using lss_suffix suffix_length_le by blast

lemma lss_in: "[] \<in> P \<Longrightarrow> lss P w \<in> P"
  by (induction w) auto

lemma lss_id: "w \<in> P \<Longrightarrow> lss P w = w"
  by (cases w) auto

lemma lss_longest: "v \<in> P \<Longrightarrow> suffix v w \<Longrightarrow> suffix v (lss P w)"
  by (induction w) (auto simp: suffix_Cons)

lemma lss_eqI:
  assumes "u \<in> P" "suffix u w" "\<And>v. v \<in> P \<Longrightarrow> suffix v w \<Longrightarrow> suffix v u" "[] \<in> P"
  shows "lss P w = u"
proof -
  have "suffix u (lss P w)" using assms(1,2) by (rule lss_longest)
  moreover have "suffix (lss P w) u" using assms(3,4) lss_in lss_suffix by blast
  ultimately show ?thesis by (simp add: suffix_order.antisym)
qed

definition prefix_closed :: "'a list set \<Rightarrow> bool" where
  "prefix_closed P \<longleftrightarrow> [] \<in> P \<and> (\<forall>w c. w @ [c] \<in> P \<longrightarrow> w \<in> P)"

lemma prefix_closedD: "prefix_closed P \<Longrightarrow> w @ [c] \<in> P \<Longrightarrow> w \<in> P"
  unfolding prefix_closed_def by blast

lemma prefix_closed_Nil: "prefix_closed P \<Longrightarrow> [] \<in> P"
  by (simp add: prefix_closed_def)

text \<open>Reading one more byte only needs the current state, not the text.\<close>

lemma lss_snoc:
  assumes "prefix_closed P"
  shows "lss P (w @ [c]) = lss P (lss P w @ [c])"
proof (rule lss_eqI)
  show "[] \<in> P" using assms by (rule prefix_closed_Nil)
  then show "lss P (lss P w @ [c]) \<in> P" by (rule lss_in)
  have "suffix (lss P w @ [c]) (w @ [c])" by (simp add: lss_suffix)
  then show "suffix (lss P (lss P w @ [c])) (w @ [c])"
    by (rule suffix_order.trans [OF lss_suffix])
next
  fix v assume v: "v \<in> P" "suffix v (w @ [c])"
  have "suffix v (lss P w @ [c])"
  proof (cases v rule: rev_cases)
    case (snoc v' d)
    with v have "d = c" "suffix v' w" by simp_all
    moreover have "v' \<in> P" using v(1) unfolding snoc by (rule prefix_closedD [OF assms])
    ultimately show ?thesis by (simp add: snoc lss_longest)
  qed simp
  with v(1) show "suffix v (lss P (lss P w @ [c]))" by (rule lss_longest)
qed

text \<open>The failure link of a non-empty state and the two equations the breadth-first
  construction of the table uses.\<close>

definition fail_of :: "'a list set \<Rightarrow> 'a list \<Rightarrow> 'a list" where
  "fail_of P u = lss P (tl u)"

lemma fail_of_length: "u \<noteq> [] \<Longrightarrow> length (fail_of P u) < length u"
  using lss_length [of P "tl u"] by (cases u) (auto simp: fail_of_def)

lemma lss_step_fail:
  assumes "prefix_closed P" "u \<noteq> []" "u @ [c] \<notin> P"
  shows "lss P (u @ [c]) = lss P (fail_of P u @ [c])"
  using assms lss_snoc [OF assms(1), of "tl u" c] by (cases u) (auto simp: fail_of_def)

lemma fail_of_snoc:
  assumes "prefix_closed P" "u \<noteq> []"
  shows "fail_of P (u @ [c]) = lss P (fail_of P u @ [c])"
  using assms lss_snoc [OF assms(1), of "tl u" c] by (simp add: fail_of_def)

lemma lss_outside:
  assumes "\<And>w. w @ [c] \<notin> P"
  shows "lss P (u @ [c]) = []"
proof (induction u)
  case Nil
  show ?case using assms [of "[]"] by simp
next
  case (Cons x u)
  then show ?case using assms [of "x # u"] by simp
qed

section \<open>Dictionary links\<close>

fun lps :: "'a list set \<Rightarrow> 'a list \<Rightarrow> 'a list option" where
  "lps S [] = None"
| "lps S (x # xs) = (if x # xs \<in> S then Some (x # xs) else lps S xs)"

lemma lps_Some: "lps S w = Some v \<Longrightarrow> v \<in> S \<and> suffix v w \<and> v \<noteq> []"
  by (induction w) (auto split: if_splits intro: suffix_ConsI)

lemma lps_via_lss:
  assumes "S \<subseteq> P"
  shows "lps S w = lps S (lss P w)"
  using assms by (induction w) auto

definition dict_of :: "'a list set \<Rightarrow> 'a list \<Rightarrow> 'a list option" where
  "dict_of S u = lps S (tl u)"

lemma dict_of_step:
  assumes "S \<subseteq> P" "f = lss P (tl v)"
  shows "dict_of S v = (if f \<in> S \<and> f \<noteq> [] then Some f else dict_of S f)"
proof -
  have "dict_of S v = lps S f" using assms lps_via_lss [of S P "tl v"] by (simp add: dict_of_def)
  then show ?thesis by (cases f) (auto simp: dict_of_def)
qed

lemma dict_of_shorter: "dict_of S u = Some v \<Longrightarrow> u \<noteq> [] \<Longrightarrow> length v < length u"
  by (cases u) (auto simp: dict_of_def dest!: lps_Some dest: suffix_length_le)

section \<open>The identifiers reported at one position\<close>

text \<open>\<open>ids w\<close> is the list of identifiers whose pattern is exactly \<open>w\<close>.\<close>

fun suffix_ids :: "('a list \<Rightarrow> 'i list) \<Rightarrow> 'a list \<Rightarrow> 'i list" where
  "suffix_ids ids [] = []"
| "suffix_ids ids (x # xs) = ids (x # xs) @ suffix_ids ids xs"

lemma suffix_ids_set: "set (suffix_ids ids w) = (\<Union>v \<in> {v. suffix v w \<and> v \<noteq> []}. set (ids v))"
proof (induction w)
  case (Cons x w)
  have "{v. suffix v (x # w) \<and> v \<noteq> []} = insert (x # w) {v. suffix v w \<and> v \<noteq> []}"
    by (auto simp: suffix_Cons)
  with Cons show ?case by simp
qed simp

lemma suffix_ids_lss:
  assumes "\<And>v. v \<noteq> [] \<Longrightarrow> ids v \<noteq> [] \<Longrightarrow> v \<in> P"
  shows "suffix_ids ids w = suffix_ids ids (lss P w)"
  using assms by (induction w) auto

lemma suffix_ids_lps:
  assumes "\<And>v. v \<noteq> [] \<Longrightarrow> (v \<in> S \<longleftrightarrow> ids v \<noteq> [])"
  shows "suffix_ids ids w = (case lps S w of None \<Rightarrow> [] | Some v \<Rightarrow> suffix_ids ids v)"
proof (induction w)
  case (Cons x w)
  then show ?case using assms [of "x # w"] by auto
qed simp

lemma suffix_ids_dict:
  assumes "\<And>v. v \<noteq> [] \<Longrightarrow> (v \<in> S \<longleftrightarrow> ids v \<noteq> [])" "u \<noteq> []"
  shows "suffix_ids ids u = ids u @ (case dict_of S u of None \<Rightarrow> [] | Some v \<Rightarrow> suffix_ids ids v)"
  using assms suffix_ids_lps [of S ids "tl u", OF assms(1)] by (cases u) (simp_all add: dict_of_def)

lemma suffix_ids_distinct:
  assumes "\<And>v. distinct (ids v)" "\<And>v w. v \<noteq> w \<Longrightarrow> set (ids v) \<inter> set (ids w) = {}"
  shows "distinct (suffix_ids ids w)"
proof (induction w)
  case (Cons x w)
  have "set (ids (x # w)) \<inter> set (ids v) = {}" if "suffix v w" for v
  proof (rule assms(2))
    show "x # w \<noteq> v" using suffix_length_le [OF that] by auto
  qed
  then have "set (ids (x # w)) \<inter> set (suffix_ids ids w) = {}" by (auto simp: suffix_ids_set)
  with Cons assms(1) show ?case by simp
qed simp

end
