(* ===== verification/AhoCorasick.thy ===== *)
theory AhoCorasick
  imports AhoCorasickSpec
begin

text \<open>
  The model of \<^verbatim>\<open>src/pkg/ahocorasick/direct.go\<close> and \<^verbatim>\<open>ahocorasick.go\<close>: the direct builder
  (pattern order, trie, compact alphabet, breadth-first table construction) and the queries.
  A run-time panic (an index out of range, the builder's own consistency check) is \<^const>\<open>None\<close>;
  \<open>AhoCorasickCorrect\<close> shows that it never happens. Node numbers and pattern identifiers,
  \<^verbatim>\<open>int32\<close> in Go, are \<^typ>\<open>nat\<close> (a catalog of \<open>2 ^ 31\<close> trie nodes is out of reach of memory);
  the narrow table's truncation to 16 bits and the 16-bit edge counters are written out.
\<close>

record trieEdge =
  parent :: nat
  edge_byte :: byte
  child :: nat

record Matcher =
  failure :: "nat list"
  dictLink :: "int list"
  patternsAt :: "nat list list"
  numPatterns :: nat
  symbols :: "nat list"
  next_wide :: "nat list option"
  next16 :: "nat list option"
  stride :: nat

definition maxNarrowStates :: nat where
  "maxNarrowStates = 65536"

section \<open>Transition table access\<close>

definition transition :: "Matcher \<Rightarrow> nat \<Rightarrow> nat \<Rightarrow> nat option" where
  "transition m state symbol =
     (let index = state * stride m + symbol in
      case next16 m of
        Some t \<Rightarrow> geti t index
      | None \<Rightarrow> (case next_wide m of None \<Rightarrow> None | Some t \<Rightarrow> geti t index))"

definition setTransition :: "Matcher \<Rightarrow> nat \<Rightarrow> nat \<Rightarrow> Matcher option" where
  "setTransition m index state =
     (case next16 m of
        Some t \<Rightarrow> map_option (\<lambda>t'. m\<lparr>next16 := Some t'\<rparr>) (seti t index (state mod 65536))
      | None \<Rightarrow>
         (case next_wide m of
            None \<Rightarrow> None
          | Some t \<Rightarrow> map_option (\<lambda>t'. m\<lparr>next_wide := Some t'\<rparr>) (seti t index state)))"

section \<open>The builder\<close>

fun commonPrefix :: "bytes \<Rightarrow> bytes \<Rightarrow> nat" where
  "commonPrefix (x # xs) (y # ys) = (if x = y then Suc (commonPrefix xs ys) else 0)"
| "commonPrefix _ _ = 0"

text \<open>The non-empty patterns' identifiers, sorted by \<^verbatim>\<open>bytes.Compare\<close> and then by identifier.\<close>

definition pattern_order :: "bytes list \<Rightarrow> nat list" where
  "pattern_order patterns =
     sort_key (\<lambda>pid. (patterns ! pid, pid)) (filter (\<lambda>pid. patterns ! pid \<noteq> []) [0..<length patterns])"

definition common_with :: "bytes list \<Rightarrow> nat option \<Rightarrow> nat \<Rightarrow> nat" where
  "common_with patterns previous pid =
     (case previous of None \<Rightarrow> 0 | Some q \<Rightarrow> commonPrefix (patterns ! q) (patterns ! pid))"

fun count_states :: "bytes list \<Rightarrow> nat option \<Rightarrow> nat list \<Rightarrow> nat \<Rightarrow> nat" where
  "count_states patterns previous [] n = n"
| "count_states patterns previous (pid # pids) n =
     count_states patterns (Some pid) pids
       (n + (length (patterns ! pid) - common_with patterns previous pid))"

text \<open>The alphabet in use, ascending, and the byte-to-symbol table with its stride.\<close>

definition alphabet_of :: "bytes list \<Rightarrow> nat list" where
  "alphabet_of patterns = filter (\<lambda>i. char_of i \<in> set (concat patterns)) [0..<256]"

definition symbol_table :: "nat list \<Rightarrow> nat list \<times> nat" where
  "symbol_table alphabet =
     (if length alphabet = 256 then ([0..<256], 256)
      else (foldl (\<lambda>syms i. syms[alphabet ! i := i]) (replicate 256 (length alphabet))
              [0..<length alphabet],
            length alphabet + 1))"

record trie_build =
  edges :: "trieEdge list"
  edgeCount :: "nat list"
  path :: "nat list"
  terminals :: "nat list list"
  nextNode :: nat
  previous :: "nat option"

text \<open>The inner loop body: one new child below the last node of the path.\<close>

definition add_child :: "byte \<Rightarrow> nat \<times> trie_build \<Rightarrow> (nat \<times> trie_build) option" where
  "add_child b ps =
     (let (p, st) = ps; c = nextNode st in do {
        cnt \<leftarrow> geti (edgeCount st) p;
        counts \<leftarrow> seti (edgeCount st) p ((cnt + 1) mod 65536);
        Some (c, st\<lparr>edges := edges st @ [\<lparr>parent = p, edge_byte = b, child = c\<rparr>],
                    edgeCount := counts, path := path st @ [c], nextNode := Suc c\<rparr>)
      })"

definition insert_pattern :: "bytes list \<Rightarrow> nat \<Rightarrow> trie_build \<Rightarrow> trie_build option" where
  "insert_pattern patterns pid st =
     (let pattern = patterns ! pid; common = common_with patterns (previous st) pid in do {
        path1 \<leftarrow> slicei (path st) 0 (common + 1);
        p \<leftarrow> geti path1 common;
        (q, st1) \<leftarrow> foldM add_child (drop common pattern) (p, st\<lparr>path := path1\<rparr>);
        node \<leftarrow> geti (path st1) (length pattern);
        ids \<leftarrow> geti (terminals st1) node;
        terms \<leftarrow> seti (terminals st1) node (ids @ [pid]);
        Some (st1\<lparr>terminals := terms, previous := Some pid\<rparr>)
      })"

text \<open>The first index of every parent in the sorted edge list.\<close>

definition edge_starts :: "nat \<Rightarrow> trieEdge list \<Rightarrow> nat list option" where
  "edge_starts stateCount es =
     foldM (\<lambda>i starts.
        if i = 0 \<or> parent (es ! i) \<noteq> parent (es ! (i - 1)) then seti starts (parent (es ! i)) i
        else Some starts)
       [0..<length es] (replicate stateCount 0)"

definition visit_edge :: "nat \<Rightarrow> nat \<Rightarrow> trieEdge \<Rightarrow> Matcher \<times> nat list \<Rightarrow> (Matcher \<times> nat list) option" where
  "visit_edge f row e mq =
     (let (m, queue) = mq in do {
        symbol \<leftarrow> geti (symbols m) (of_char (edge_byte e));
        m1 \<leftarrow> setTransition m (row + symbol) (child e);
        childFailure \<leftarrow> transition m1 f symbol;
        fs \<leftarrow> seti (failure m1) (child e) childFailure;
        ids \<leftarrow> geti (patternsAt m1) childFailure;
        link \<leftarrow> (if ids \<noteq> [] then Some (int childFailure) else geti (dictLink m1) childFailure);
        links \<leftarrow> seti (dictLink m1) (child e) link;
        Some (m1\<lparr>failure := fs, dictLink := links\<rparr>, queue @ [child e])
      })"

definition copy_row :: "nat \<Rightarrow> nat \<Rightarrow> Matcher \<Rightarrow> Matcher option" where
  "copy_row f row m =
     foldM (\<lambda>symbol m. do { t \<leftarrow> transition m f symbol; setTransition m (row + symbol) t })
       [0..<stride m] m"

definition visit_node ::
  "trieEdge list \<Rightarrow> nat list \<Rightarrow> nat list \<Rightarrow> nat \<Rightarrow> Matcher \<times> nat list \<Rightarrow> (Matcher \<times> nat list) option" where
  "visit_node es starts counts node mq =
     (let (m, queue) = mq; row = node * stride m in do {
        f \<leftarrow> geti (failure m) node;
        m1 \<leftarrow> copy_row f row m;
        start \<leftarrow> geti starts node;
        cnt \<leftarrow> geti counts node;
        out \<leftarrow> slicei es start (start + cnt);
        foldM (visit_edge f row) out (m1, queue)
      })"

text \<open>The loop \<^verbatim>\<open>for head := 0; head < len(queue); head++\<close>, with fuel: every node enters the queue
  at most once, so \<open>stateCount\<close> turns are enough.\<close>

fun bfs ::
  "nat \<Rightarrow> trieEdge list \<Rightarrow> nat list \<Rightarrow> nat list \<Rightarrow> nat \<Rightarrow> Matcher \<times> nat list \<Rightarrow> Matcher option" where
  "bfs 0 es starts counts head mq = None"
| "bfs (Suc fuel) es starts counts head mq =
     (if head < length (snd mq) then
        (case visit_node es starts counts (snd mq ! head) mq of
           None \<Rightarrow> None
         | Some mq' \<Rightarrow> bfs fuel es starts counts (Suc head) mq')
      else Some (fst mq))"

definition visit_root_edge :: "trieEdge \<Rightarrow> Matcher \<times> nat list \<Rightarrow> (Matcher \<times> nat list) option" where
  "visit_root_edge e mq =
     (let (m, queue) = mq in do {
        symbol \<leftarrow> geti (symbols m) (of_char (edge_byte e));
        m1 \<leftarrow> setTransition m symbol (child e);
        Some (m1, queue @ [child e])
      })"

definition buildDirect :: "trieEdge list \<Rightarrow> nat list \<Rightarrow> nat list \<Rightarrow> Matcher \<Rightarrow> Matcher option" where
  "buildDirect es starts counts m =
     (let stateCount = length (patternsAt m);
          table = replicate (stateCount * stride m) 0;
          m0 = (if stateCount \<le> maxNarrowStates then m\<lparr>next16 := Some table\<rparr>
                else m\<lparr>next_wide := Some table\<rparr>)
      in do {
        rootCount \<leftarrow> geti counts 0;
        rootEdges \<leftarrow> slicei es 0 rootCount;
        mq \<leftarrow> foldM visit_root_edge rootEdges (m0, []);
        m1 \<leftarrow> bfs stateCount es starts counts 0 mq;
        Some (m1\<lparr>failure := []\<rparr>)
      })"

definition newDirect :: "bytes list \<Rightarrow> Matcher option" where
  "newDirect patterns =
     (let order = pattern_order patterns;
          stateCount = count_states patterns None order 1;
          (syms, width) = symbol_table (alphabet_of patterns)
      in do {
        st \<leftarrow> foldM (insert_pattern patterns) order
               \<lparr>edges = [], edgeCount = replicate stateCount 0, path = [0],
                terminals = replicate stateCount [], nextNode = 1, previous = None\<rparr>;
        (if nextNode st \<noteq> stateCount then None
         else do {
           let es = sort_key (\<lambda>e. (parent e, edge_byte e)) (edges st);
           starts \<leftarrow> edge_starts stateCount es;
           buildDirect es starts (edgeCount st)
             \<lparr>failure = replicate stateCount 0, dictLink = replicate stateCount (- 1),
              patternsAt = terminals st, numPatterns = length patterns, symbols = syms,
              next_wide = None, next16 = None, stride = width\<rparr>
         })
      })"

definition New :: "bytes list \<Rightarrow> Matcher option" where
  "New patterns = newDirect patterns"

section \<open>Queries\<close>

text \<open>
  The inner loop of \<^verbatim>\<open>walk\<close> and \<^verbatim>\<open>VisitHits\<close>: the identifiers at a state, then those along its
  dictionary links. The links lead to ever shorter states, so as many turns as there are
  states are enough.
\<close>

fun link_ids :: "nat \<Rightarrow> Matcher \<Rightarrow> int \<Rightarrow> nat list option" where
  "link_ids 0 m s = None"
| "link_ids (Suc fuel) m s =
     (if 0 < s then do {
        ids \<leftarrow> geti (patternsAt m) (nat s);
        d \<leftarrow> geti (dictLink m) (nat s);
        (if d < 0 then Some ids
         else do { rest \<leftarrow> link_ids fuel m d; Some (ids @ rest) })
      } else Some [])"

datatype Hit = Hit (PatternID: nat) (End: nat)

definition step_byte :: "Matcher \<Rightarrow> nat \<Rightarrow> byte \<Rightarrow> nat option" where
  "step_byte m state b = do { symbol \<leftarrow> geti (symbols m) (of_char b); transition m state symbol }"

fun visit_from :: "Matcher \<Rightarrow> nat \<Rightarrow> nat \<Rightarrow> bytes \<Rightarrow> Hit list option" where
  "visit_from m i state [] = Some []"
| "visit_from m i state (b # bs) = do {
     s \<leftarrow> step_byte m state b;
     ids \<leftarrow> link_ids (length (patternsAt m)) m (int s);
     rest \<leftarrow> visit_from m (Suc i) s bs;
     Some (map (\<lambda>pid. Hit pid i) ids @ rest)
   }"

definition VisitHits :: "Matcher \<Rightarrow> bytes \<Rightarrow> Hit list option" where
  "VisitHits m data = visit_from m 0 0 data"

definition MatchHitsInto :: "Matcher \<Rightarrow> bytes \<Rightarrow> Hit list \<Rightarrow> Hit list option" where
  "MatchHitsInto m data out = map_option (\<lambda>hits. out @ hits) (VisitHits m data)"

definition mark_id :: "bool list \<times> nat list \<Rightarrow> nat \<Rightarrow> bool list \<times> nat list" where
  "mark_id so pid =
     (if pid < length (fst so) \<and> \<not> fst so ! pid then ((fst so)[pid := True], snd so @ [pid]) else so)"

fun matcher_walk :: "Matcher \<Rightarrow> nat \<Rightarrow> bytes \<Rightarrow> bool list \<times> nat list \<Rightarrow> (bool list \<times> nat list) option" where
  "matcher_walk m state [] so = Some so"
| "matcher_walk m state (b # bs) so = do {
     s \<leftarrow> step_byte m state b;
     ids \<leftarrow> link_ids (length (patternsAt m)) m (int s);
     matcher_walk m s bs (foldl mark_id so ids)
   }"

text \<open>The caller's \<^verbatim>\<open>seen\<close> slice is updated in place, so it is part of the result.\<close>

definition MatchInto :: "Matcher \<Rightarrow> bytes \<Rightarrow> bool list \<Rightarrow> nat list \<Rightarrow> (bool list \<times> nat list) option" where
  "MatchInto m data seen out =
     (if data = [] then Some (seen, out) else matcher_walk m 0 data (seen, out))"

definition Match :: "Matcher \<Rightarrow> bytes \<Rightarrow> nat list option" where
  "Match m data =
     (if data = [] then Some []
      else map_option snd (matcher_walk m 0 data (replicate (numPatterns m) False, [])))"

definition NumPatterns :: "Matcher \<Rightarrow> nat" where
  "NumPatterns m = numPatterns m"

end
