(* ===== verification/AhoCorasickTrie.thy ===== *)
theory AhoCorasickTrie
  imports AhoCorasick
begin

text \<open>
  First half of the matcher's correctness: inserting the patterns in sorted order, sharing only
  the prefix common with the previous pattern, builds a trie whose nodes are in bijection with
  the prefixes of the patterns; the predicted number of states is exact, no 16-bit edge counter
  overflows and no index is out of range.
\<close>

section \<open>Sorted patterns share prefixes with their predecessor\<close>

lemma lex_between_prefix:
  fixes p q r w :: "'a::linorder list"
  shows "p \<le> r \<Longrightarrow> r \<le> q \<Longrightarrow> prefix w p \<Longrightarrow> prefix w q \<Longrightarrow> prefix w r"
proof (induction w arbitrary: p q r)
  case (Cons x w)
  from Cons.prems(3,4) obtain p' q' where "p = x # p'" "q = x # q'" "prefix w p'" "prefix w q'"
    by (metis Cons_prefix_Cons list.exhaust prefix_code(2))
  moreover from this Cons.prems obtain r' where "r = x # r'" "p' \<le> r'" "r' \<le> q'"
    by (cases r) auto
  ultimately show ?case using Cons.IH by auto
qed simp

lemma commonPrefix_le: "commonPrefix a b \<le> length a" "commonPrefix a b \<le> length b"
  by (induction a b rule: commonPrefix.induct) auto

lemma commonPrefix_take: "take (commonPrefix a b) a = take (commonPrefix a b) b"
  by (induction a b rule: commonPrefix.induct) auto

lemma prefix_common: "prefix w a \<Longrightarrow> prefix w b \<Longrightarrow> length w \<le> commonPrefix a b"
  by (induction a b arbitrary: w rule: commonPrefix.induct) (auto simp: prefix_Cons)

lemma common_with_le: "common_with patterns prev pid \<le> length (patterns ! pid)"
  by (auto simp: common_with_def commonPrefix_le split: option.split)

section \<open>The prefixes of a list of patterns\<close>

definition prefs :: "bytes list \<Rightarrow> nat list \<Rightarrow> bytes set" where
  "prefs patterns ids = insert [] {w. \<exists>i \<in> set ids. prefix w (patterns ! i)}"

lemma prefs_closed: "prefix_closed (prefs patterns ids)"
  by (auto simp: prefix_closed_def prefs_def dest: append_prefixD)

lemma prefs_Nil [simp]: "[] \<in> prefs patterns ids" "prefs patterns [] = {[]}"
  by (auto simp: prefs_def)

lemma prefs_snoc: "prefs patterns (ids @ [i]) = prefs patterns ids \<union> {w. prefix w (patterns ! i)}"
  by (auto simp: prefs_def)

lemma prefs_member: "i \<in> set ids \<Longrightarrow> patterns ! i \<in> prefs patterns ids"
  by (auto simp: prefs_def)

section \<open>The invariant of the trie under construction\<close>

text \<open>
  \<open>L\<close> lists the label of every node; \<open>s\<close> is the string spelled by the current path; \<open>T\<close> gives the
  terminals of a label.
\<close>

definition path_ok :: "bytes list \<Rightarrow> nat list \<Rightarrow> bytes \<Rightarrow> bool" where
  "path_ok L ps s \<longleftrightarrow> length ps = Suc (length s) \<and>
     (\<forall>k \<le> length s. ps ! k < length L \<and> L ! (ps ! k) = take k s)"

definition edges_ok :: "bytes list \<Rightarrow> trieEdge list \<Rightarrow> bool" where
  "edges_ok L es \<longleftrightarrow> length L = Suc (length es) \<and> L ! 0 = [] \<and>
     (\<forall>k < length es. child (es ! k) = Suc k \<and> parent (es ! k) \<le> k \<and>
        L ! Suc k = L ! parent (es ! k) @ [edge_byte (es ! k)])"

definition out_degree :: "trieEdge list \<Rightarrow> nat \<Rightarrow> nat" where
  "out_degree es n = length (filter (\<lambda>e. parent e = n) es)"

definition trie_ok ::
  "nat \<Rightarrow> bytes list \<Rightarrow> bytes set \<Rightarrow> (bytes \<Rightarrow> nat list) \<Rightarrow> bytes \<Rightarrow> trie_build \<Rightarrow> bool" where
  "trie_ok N L W T s st \<longleftrightarrow>
     distinct L \<and> set L = W \<and> nextNode st = length L \<and> length L \<le> N \<and>
     edges_ok L (edges st) \<and> path_ok L (path st) s \<and>
     length (edgeCount st) = N \<and> (\<forall>n < N. edgeCount st ! n = out_degree (edges st) n) \<and>
     length (terminals st) = N \<and>
     (\<forall>n < N. terminals st ! n = (if n < length L then T (L ! n) else []))"

lemma edges_ok_snoc:
  assumes "edges_ok L es" "p < length L" "w = L ! p @ [b]"
  shows "edges_ok (L @ [w]) (es @ [\<lparr>parent = p, edge_byte = b, child = length L\<rparr>])"
proof -
  have "parent (es ! k) < length es" if "k < length es" for k
    using that assms(1) by (fastforce simp: edges_ok_def)
  with assms show ?thesis
    unfolding edges_ok_def by (auto simp: nth_append less_Suc_eq split: if_splits)
qed

lemma out_degree_snoc:
  "out_degree (es @ [e]) n = (if parent e = n then Suc (out_degree es n) else out_degree es n)"
  by (simp add: out_degree_def)

text \<open>Distinct labels: edges leaving one node carry distinct bytes, so there are at most 256.\<close>

lemma edges_distinct_bytes:
  assumes "edges_ok L es" "distinct L"
  shows "distinct (map edge_byte (filter (\<lambda>e. parent e = n) es))"
proof -
  have "map (\<lambda>e. L ! child e) es = tl L"
    using assms(1) by (intro nth_equalityI) (auto simp: edges_ok_def nth_tl simp del: nth_map_upt)
  with assms(2) have "distinct (map (\<lambda>e. L ! child e) es)" by (simp add: distinct_tl)
  then have d: "distinct (map (\<lambda>e. L ! child e) (filter (\<lambda>e. parent e = n) es))"
    by (rule distinct_map_filter)
  have "L ! child e = L ! n @ [edge_byte e]" if "e \<in> set (filter (\<lambda>e. parent e = n) es)" for e
    using that assms(1) by (fastforce simp: edges_ok_def in_set_conv_nth)
  then have "map (\<lambda>e. L ! child e) (filter (\<lambda>e. parent e = n) es)
      = map (\<lambda>c. L ! n @ [c]) (map edge_byte (filter (\<lambda>e. parent e = n) es))" by simp
  with d show ?thesis by (metis distinct_map)
qed

lemma out_degree_bound:
  assumes "edges_ok L es" "distinct L"
  shows "out_degree es n \<le> 256"
proof -
  have "out_degree es n = card (set (map edge_byte (filter (\<lambda>e. parent e = n) es)))"
    using distinct_card [OF edges_distinct_bytes [OF assms, of n]] by (simp add: out_degree_def)
  also have "\<dots> \<le> card (UNIV :: char set)" by (intro card_mono) auto
  finally show ?thesis by (simp add: card_UNIV_char)
qed

lemma path_ok_snoc:
  assumes "path_ok L ps s"
  shows "path_ok (L @ [s @ [b]]) (ps @ [length L]) (s @ [b])"
  using assms by (auto simp: path_ok_def nth_append le_Suc_eq)

lemma add_child_ok:
  assumes ok: "trie_ok N L W T s st" and fresh: "s @ [b] \<notin> W" "T (s @ [b]) = []"
    and room: "nextNode st < N"
  shows "\<exists>st'. add_child b (path st ! length s, st) = Some (nextNode st, st') \<and>
     trie_ok N (L @ [s @ [b]]) (insert (s @ [b]) W) T (s @ [b]) st' \<and>
     nextNode st' = Suc (nextNode st) \<and> path st' ! length (s @ [b]) = nextNode st"
proof -
  let ?p = "path st ! length s"
  let ?e = "\<lparr>parent = ?p, edge_byte = b, child = nextNode st\<rparr>"
  have n: "nextNode st = length L" and p: "?p < length L" "L ! ?p = s"
    and len: "length (edgeCount st) = N" "length (terminals st) = N"
      "length (path st) = Suc (length s)"
    using ok by (auto simp: trie_ok_def path_ok_def)
  have pN: "?p < N" using p room n by simp
  have deg: "edgeCount st ! ?p = out_degree (edges st) ?p" using ok pN by (simp add: trie_ok_def)
  define st' where "st' = st\<lparr>edges := edges st @ [?e],
      edgeCount := (edgeCount st)[?p := Suc (edgeCount st ! ?p)],
      path := path st @ [nextNode st], nextNode := Suc (nextNode st)\<rparr>"
  have "out_degree (edges st) ?p \<le> 256" using ok out_degree_bound by (auto simp: trie_ok_def)
  then have run: "add_child b (?p, st) = Some (nextNode st, st')"
    using pN len deg by (simp add: add_child_def st'_def Let_def)
  have "edges_ok (L @ [s @ [b]]) (edges st')"
    using edges_ok_snoc [of L "edges st" ?p "s @ [b]" b] ok p n by (simp add: trie_ok_def st'_def)
  moreover have "path_ok (L @ [s @ [b]]) (path st') (s @ [b])"
    using path_ok_snoc ok n by (simp add: trie_ok_def st'_def)
  moreover have "\<forall>k < N. edgeCount st' ! k = out_degree (edges st') k"
    using ok len pN by (auto simp: trie_ok_def st'_def out_degree_snoc nth_list_update)
  moreover have "\<forall>k < N. terminals st' ! k = (if k < length (L @ [s @ [b]]) then T ((L @ [s @ [b]]) ! k) else [])"
    using ok fresh(2) by (auto simp: trie_ok_def st'_def nth_append less_Suc_eq)
  ultimately have "trie_ok N (L @ [s @ [b]]) (insert (s @ [b]) W) T (s @ [b]) st'"
    using ok fresh(1) room n unfolding trie_ok_def by (auto simp: st'_def)
  moreover have "nextNode st' = Suc (nextNode st)" "path st' ! length (s @ [b]) = nextNode st"
    using len by (simp_all add: st'_def nth_append)
  ultimately show ?thesis using run by blast
qed

lemma add_child_previous: "add_child b ps = Some qs \<Longrightarrow> previous (snd qs) = previous (snd ps)"
  by (auto simp: add_child_def Let_def geti_def seti_def split: prod.splits if_splits)

lemma add_children_previous: "foldM add_child bs ps = Some qs \<Longrightarrow> previous (snd qs) = previous (snd ps)"
  by (induction bs arbitrary: ps) (auto split: option.splits dest: add_child_previous)

lemma add_children_ok:
  assumes "trie_ok N L W T s st" "\<And>v. v \<noteq> [] \<Longrightarrow> prefix v bs \<Longrightarrow> s @ v \<notin> W \<and> T (s @ v) = []"
    "nextNode st + length bs \<le> N"
  shows "\<exists>q st' L'. foldM add_child bs (path st ! length s, st) = Some (q, st') \<and>
     trie_ok N L' (W \<union> {s @ v | v. prefix v bs \<and> v \<noteq> []}) T (s @ bs) st' \<and>
     nextNode st' = nextNode st + length bs"
  using assms
proof (induction bs arbitrary: s L W st)
  case (Cons b bs)
  from Cons.prems(2) [of "[b]"] Cons.prems(1,3) obtain st1 where st1:
    "add_child b (path st ! length s, st) = Some (nextNode st, st1)"
    "trie_ok N (L @ [s @ [b]]) (insert (s @ [b]) W) T (s @ [b]) st1"
    "nextNode st1 = Suc (nextNode st)" "path st1 ! length (s @ [b]) = nextNode st"
    using add_child_ok [of N L W T s st b] by auto
  have fresh: "(s @ [b]) @ v \<notin> insert (s @ [b]) W \<and> T ((s @ [b]) @ v) = []"
    if "v \<noteq> []" "prefix v bs" for v
    using Cons.prems(2) [of "b # v"] that by simp
  have sets: "insert (s @ [b]) W \<union> {(s @ [b]) @ v | v. prefix v bs \<and> v \<noteq> []}
      = W \<union> {s @ v | v. prefix v (b # bs) \<and> v \<noteq> []}"
    by (auto simp: prefix_Cons)
  have room: "nextNode st1 + length bs \<le> N" using Cons.prems(3) st1(3) by simp
  from Cons.IH [OF st1(2) fresh room] obtain q st' L' where
    "foldM add_child bs (path st1 ! length (s @ [b]), st1) = Some (q, st')"
    "trie_ok N L' (insert (s @ [b]) W \<union> {(s @ [b]) @ v | v. prefix v bs \<and> v \<noteq> []}) T ((s @ [b]) @ bs) st'"
    "nextNode st' = nextNode st1 + length bs" by blast
  then show ?case
    using st1 unfolding sets by auto
qed auto

section \<open>Inserting one pattern, inserting all of them\<close>

abbreviation ids_of :: "bytes list \<Rightarrow> nat list \<Rightarrow> bytes \<Rightarrow> nat list" where
  "ids_of patterns ids w \<equiv> filter (\<lambda>i. patterns ! i = w) ids"

definition prev_string :: "bytes list \<Rightarrow> nat option \<Rightarrow> bytes" where
  "prev_string patterns prev = (case prev of None \<Rightarrow> [] | Some q \<Rightarrow> patterns ! q)"

lemma common_with_prev: "common_with patterns prev pid = commonPrefix (prev_string patterns prev) (patterns ! pid)"
  by (simp add: common_with_def prev_string_def split: option.split)

lemma new_prefix_fresh:
  assumes sorted: "\<And>i. i \<in> set ids \<Longrightarrow> patterns ! i \<le> s \<and> s \<le> patterns ! pid"
    and "w \<in> prefs patterns ids" "prefix w (patterns ! pid)"
  shows "length w \<le> commonPrefix s (patterns ! pid)"
proof (cases "w = []")
  case False
  with assms(2) obtain i where "i \<in> set ids" "prefix w (patterns ! i)" by (auto simp: prefs_def)
  with sorted assms(3) have "prefix w s" using lex_between_prefix by blast
  with assms(3) show ?thesis by (simp add: prefix_common)
qed simp

lemma path_ok_take:
  assumes "path_ok L ps s" "c \<le> length s"
  shows "path_ok L (take (Suc c) ps) (take c s)"
  using assms by (auto simp: path_ok_def)

lemma trie_ok_path: "trie_ok N L W T s st \<Longrightarrow> path_ok L ps t \<Longrightarrow> trie_ok N L W T t (st\<lparr>path := ps\<rparr>)"
  by (simp add: trie_ok_def)

text \<open>Recording a terminal at the node of the last label.\<close>

lemma trie_ok_terminal:
  assumes "trie_ok N L W T s st"
  shows "\<exists>terms. geti (path st) (length s) = Some (path st ! length s) \<and>
     geti (terminals st) (path st ! length s) = Some (T s) \<and>
     seti (terminals st) (path st ! length s) (T s @ [pid]) = Some terms \<and>
     trie_ok N L W (T(s := T s @ [pid])) s (st\<lparr>terminals := terms, previous := q\<rparr>)"
proof -
  let ?n = "path st ! length s"
  have n: "length (path st) = Suc (length s)" "?n < length L" "L ! ?n = s" "?n < N"
    "length (terminals st) = N" "terminals st ! ?n = T s" and d: "distinct L"
    using assms by (auto simp: trie_ok_def path_ok_def)
  have label: "L ! k = s \<longleftrightarrow> k = ?n" if "k < length L" for k
    using that n(2,3) d by (metis nth_eq_iff_index_eq)
  have "trie_ok N L W (T(s := T s @ [pid])) s
     (st\<lparr>terminals := (terminals st)[?n := T s @ [pid]], previous := q\<rparr>)"
    using assms n label unfolding trie_ok_def by (auto simp: nth_list_update)
  then show ?thesis using n by simp
qed

lemma trie_ok_cong:
  assumes "trie_ok N L W T s st" "W = W'" "\<And>w. w \<in> W \<Longrightarrow> T w = T' w"
  shows "trie_ok N L W' T' s st"
proof -
  have "L ! n \<in> W" if "n < length L" for n using assms(1) that by (auto simp: trie_ok_def)
  with assms show ?thesis by (simp add: trie_ok_def)
qed

lemma trie_ok_labels: "trie_ok N L W T s st \<Longrightarrow> prefix w s \<Longrightarrow> w \<in> W"
  by (auto simp: trie_ok_def path_ok_def prefix_take_iff)
    (metis nth_mem prefix_length_le prefix_take_iff)

lemma prefixes_split:
  assumes "\<And>w. prefix w (take c pat) \<Longrightarrow> w \<in> W"
  shows "W \<union> {take c pat @ v | v. prefix v (drop c pat) \<and> v \<noteq> []} = W \<union> {w. prefix w pat}"
proof (intro equalityI subsetI)
  fix w assume "w \<in> W \<union> {take c pat @ v | v. prefix v (drop c pat) \<and> v \<noteq> []}"
  then show "w \<in> W \<union> {w. prefix w pat}"
    using same_prefix_prefix [of "take c pat" _ "drop c pat"] by auto
next
  fix w assume "w \<in> W \<union> {w. prefix w pat}"
  moreover have "w \<in> W \<or> (\<exists>v. w = take c pat @ v \<and> prefix v (drop c pat) \<and> v \<noteq> [])" if "prefix w pat"
  proof -
    have "prefix w (take c pat @ drop c pat)" using that by simp
    then consider "prefix w (take c pat)" | v where "w = take c pat @ v" "prefix v (drop c pat)"
      unfolding prefix_append by blast
    then show ?thesis
    proof cases
      case 2
      then show ?thesis using assms [of w] by (cases "v = []") auto
    qed (simp add: assms)
  qed
  ultimately show "w \<in> W \<union> {take c pat @ v | v. prefix v (drop c pat) \<and> v \<noteq> []}" by blast
qed

lemma insert_pattern_ok:
  assumes ok: "trie_ok N L (prefs patterns ids) (ids_of patterns ids) s st"
    and s: "s = prev_string patterns (previous st)"
    and sorted: "\<And>i. i \<in> set ids \<Longrightarrow> patterns ! i \<le> s \<and> s \<le> patterns ! pid"
    and room: "nextNode st + (length (patterns ! pid) - common_with patterns (previous st) pid) \<le> N"
  shows "\<exists>st' L'. insert_pattern patterns pid st = Some st' \<and>
     trie_ok N L' (prefs patterns (ids @ [pid])) (ids_of patterns (ids @ [pid])) (patterns ! pid) st' \<and>
     previous st' = Some pid \<and>
     nextNode st' = nextNode st + (length (patterns ! pid) - common_with patterns (previous st) pid)"
proof -
  let ?pat = "patterns ! pid" and ?c = "common_with patterns (previous st) pid"
  have c: "?c = commonPrefix s ?pat" by (simp add: common_with_prev s)
  then have cs: "?c \<le> length s" "?c \<le> length ?pat" and tk: "take ?c s = take ?c ?pat"
    using commonPrefix_le [of s ?pat] commonPrefix_take [of s ?pat] by simp_all
  let ?path1 = "take (Suc ?c) (path st)" and ?t = "take ?c ?pat"
  let ?st1 = "st\<lparr>path := ?path1\<rparr>"
  have p1: "path_ok L ?path1 ?t"
    using ok path_ok_take cs(1) unfolding trie_ok_def tk [symmetric] by blast
  have ok1: "trie_ok N L (prefs patterns ids) (ids_of patterns ids) ?t ?st1"
    using ok p1 by (rule trie_ok_path)
  have fresh: "?t @ v \<notin> prefs patterns ids \<and> ids_of patterns ids (?t @ v) = []"
    if v: "v \<noteq> []" "prefix v (drop ?c ?pat)" for v
  proof -
    from v(2) have "prefix (?t @ v) ?pat" by (metis append_take_drop_id same_prefix_prefix)
    moreover have "length (?t @ v) > ?c" using v(1) cs(2) by simp
    ultimately have "?t @ v \<notin> prefs patterns ids"
      using new_prefix_fresh [OF sorted, of ids] c by fastforce
    moreover have "ids_of patterns ids w = []" if "w \<notin> prefs patterns ids" for w
      using that prefs_member by (auto simp: filter_empty_conv)
    ultimately show ?thesis by blast
  qed
  have lt: "length ?t = ?c" using cs(2) by simp
  from add_children_ok [OF ok1 fresh, of "drop ?c ?pat"] room cs(2) lt obtain q st2 L' where st2:
    "foldM add_child (drop ?c ?pat) (?path1 ! ?c, ?st1) = Some (q, st2)"
    "trie_ok N L' (prefs patterns ids \<union> {?t @ v | v. prefix v (drop ?c ?pat) \<and> v \<noteq> []})
        (ids_of patterns ids) ?pat st2"
    "nextNode st2 = nextNode st + (length ?pat - ?c)" by auto
  have "prefs patterns ids \<union> {?t @ v | v. prefix v (drop ?c ?pat) \<and> v \<noteq> []}
      = prefs patterns (ids @ [pid])"
    unfolding prefs_snoc using trie_ok_labels [OF ok1] by (rule prefixes_split)
  with st2(2) have ok2: "trie_ok N L' (prefs patterns (ids @ [pid])) (ids_of patterns ids) ?pat st2" by simp
  from trie_ok_terminal [OF this, of pid "Some pid"] obtain terms where terms:
    "geti (path st2) (length ?pat) = Some (path st2 ! length ?pat)"
    "geti (terminals st2) (path st2 ! length ?pat) = Some (ids_of patterns ids ?pat)"
    "seti (terminals st2) (path st2 ! length ?pat) (ids_of patterns ids ?pat @ [pid]) = Some terms"
    "trie_ok N L' (prefs patterns (ids @ [pid])) ((ids_of patterns ids)(?pat := ids_of patterns ids ?pat @ [pid]))
       ?pat (st2\<lparr>terminals := terms, previous := Some pid\<rparr>)" by blast
  have "slicei (path st) 0 (?c + 1) = Some ?path1" "?c < length ?path1"
    using ok cs by (simp_all add: slicei_def trie_ok_def path_ok_def)
  then have "insert_pattern patterns pid st = Some (st2\<lparr>terminals := terms, previous := Some pid\<rparr>)"
    using st2(1) terms(1-3) by (simp add: insert_pattern_def Let_def)
  moreover have "trie_ok N L' (prefs patterns (ids @ [pid])) (ids_of patterns (ids @ [pid])) ?pat
      (st2\<lparr>terminals := terms, previous := Some pid\<rparr>)"
    using terms(4) by (rule trie_ok_cong) auto
  ultimately show ?thesis using st2(3) by auto
qed

lemma pattern_order_set: "set (pattern_order patterns) = {i. i < length patterns \<and> patterns ! i \<noteq> []}"
  by (auto simp: pattern_order_def)

lemma pattern_order_distinct: "distinct (pattern_order patterns)"
  by (simp add: pattern_order_def)

lemma pattern_order_sorted: "sorted_wrt (\<lambda>i j. (patterns ! i, i) \<le> (patterns ! j, j)) (pattern_order patterns)"
proof -
  have "sorted (map (\<lambda>i. (patterns ! i, i)) (pattern_order patterns))"
    by (simp add: pattern_order_def)
  then show ?thesis by (simp add: sorted_map)
qed

lemma count_states_ge: "n \<le> count_states patterns prev pids n"
  by (induction patterns prev pids n rule: count_states.induct) auto

definition init_build :: "nat \<Rightarrow> trie_build" where
  "init_build N = \<lparr>edges = [], edgeCount = replicate N 0, path = [0],
     terminals = replicate N [], nextNode = 1, previous = None\<rparr>"

lemma init_build_ok: "0 < N \<Longrightarrow> trie_ok N [[]] (prefs patterns []) (ids_of patterns []) [] (init_build N)"
  by (auto simp: trie_ok_def init_build_def edges_ok_def path_ok_def out_degree_def)

lemma build_trie_ok:
  fixes patterns
  defines "N \<equiv> count_states patterns None (pattern_order patterns) 1"
  shows "\<exists>st L s. foldM (insert_pattern patterns) (pattern_order patterns) (init_build N) = Some st \<and>
     length L = N \<and> nextNode st = N \<and>
     trie_ok N L (prefs patterns (pattern_order patterns)) (ids_of patterns (pattern_order patterns)) s st"
proof -
  let ?order = "pattern_order patterns"
  define I where "I ys st \<longleftrightarrow> previous st = (if ys = [] then None else Some (last ys)) \<and>
     count_states patterns (previous st) (drop (length ys) ?order) (nextNode st) = N \<and>
     (\<exists>L. trie_ok N L (prefs patterns ys) (ids_of patterns ys) (prev_string patterns (previous st)) st)"
    for ys st
  have "\<exists>st. foldM (insert_pattern patterns) ?order (init_build N) = Some st \<and> I ?order st"
  proof (rule foldM_rule)
    have "0 < N" using count_states_ge [of 1] unfolding N_def by (metis less_le_trans zero_less_one)
    from init_build_ok [OF this] show "I [] (init_build N)"
      unfolding I_def by (auto simp: init_build_def prev_string_def N_def)
  next
    fix ys pid st assume pre: "prefix (ys @ [pid]) ?order" and I: "I ys st"
    from pre obtain zs where order: "?order = ys @ pid # zs" by (auto simp: prefix_def)
    let ?s = "prev_string patterns (previous st)"
    have rest: "drop (length ys) ?order = pid # zs" by (simp add: order)
    have le: "patterns ! i \<le> patterns ! last ys \<and> patterns ! last ys \<le> patterns ! pid" if "i \<in> set ys" for i
    proof -
      from that obtain us l where us: "ys = us @ [l]" by (cases ys rule: rev_cases) auto
      have "sorted_wrt (\<lambda>i j. (patterns ! i, i) \<le> (patterns ! j, j)) (us @ l # pid # zs)"
        using pattern_order_sorted [of patterns] unfolding order us by simp
      with that us show ?thesis by (auto simp: sorted_wrt_append less_eq_prod_def)
    qed
    have sorted: "patterns ! i \<le> ?s \<and> ?s \<le> patterns ! pid" if "i \<in> set ys" for i
      using le [OF that] that I by (auto simp: I_def prev_string_def)
    let ?k = "length (patterns ! pid) - common_with patterns (previous st) pid"
    have count: "count_states patterns (Some pid) zs (nextNode st + ?k) = N"
      using I unfolding I_def rest count_states.simps(2) by blast
    then have room: "nextNode st + ?k \<le> N" using count_states_ge by metis
    from I obtain L where "trie_ok N L (prefs patterns ys) (ids_of patterns ys) ?s st"
      unfolding I_def by blast
    from insert_pattern_ok [OF this refl sorted room] obtain st' L' where
      "insert_pattern patterns pid st = Some st'"
      "trie_ok N L' (prefs patterns (ys @ [pid])) (ids_of patterns (ys @ [pid])) (patterns ! pid) st'"
      "previous st' = Some pid" "nextNode st' = nextNode st + ?k" by blast
    moreover from this count have "I (ys @ [pid]) st'"
      unfolding I_def by (auto simp: order prev_string_def)
    ultimately show "\<exists>st'. insert_pattern patterns pid st = Some st' \<and> I (ys @ [pid]) st'" by blast
  qed
  then obtain st L where st: "foldM (insert_pattern patterns) ?order (init_build N) = Some st"
    "nextNode st = N" and ok: "trie_ok N L (prefs patterns ?order) (ids_of patterns ?order)
      (prev_string patterns (previous st)) st"
    unfolding I_def by auto
  moreover from ok st(2) have "length L = N" by (simp add: trie_ok_def)
  ultimately show ?thesis by blast
qed

section \<open>The sorted edge list\<close>

lemma sorted_partition:
  fixes f :: "'a \<Rightarrow> 'b::linorder"
  shows "sorted (map f xs) \<Longrightarrow> xs = filter (\<lambda>x. f x < p) xs @ filter (\<lambda>x. f x = p) xs @ filter (\<lambda>x. p < f x) xs"
proof (induction xs)
  case (Cons x xs)
  then have IH: "filter (\<lambda>x. f x < p) xs @ filter (\<lambda>x. f x = p) xs @ filter (\<lambda>x. p < f x) xs = xs"
    and le: "\<forall>y \<in> set xs. f x \<le> f y" by auto
  consider "f x < p" | "f x = p" | "p < f x" by fastforce
  then show ?case
  proof cases
    case 2
    with le have "filter (\<lambda>x. f x < p) xs = []" by (auto simp: filter_empty_conv)
    with 2 IH show ?thesis by simp
  next
    case 3
    with le have "filter (\<lambda>x. f x < p) xs = []" "filter (\<lambda>x. f x = p) xs = []" by (auto simp: filter_empty_conv)
    with 3 IH show ?thesis by auto
  qed (use IH in auto)
qed simp

lemma sorted_slice:
  fixes f :: "'a \<Rightarrow> 'b::linorder"
  assumes "sorted (map f xs)"
  shows "slicei xs (length (filter (\<lambda>x. f x < p) xs))
      (length (filter (\<lambda>x. f x < p) xs) + length (filter (\<lambda>x. f x = p) xs))
    = Some (filter (\<lambda>x. f x = p) xs)"
proof -
  let ?a = "filter (\<lambda>x. f x < p) xs" and ?b = "filter (\<lambda>x. f x = p) xs" and ?c = "filter (\<lambda>x. p < f x) xs"
  have eq: "xs = ?a @ ?b @ ?c" using assms by (rule sorted_partition)
  have "length xs = length ?a + length ?b + length ?c" by (subst eq) simp
  moreover have "take (length ?b) (drop (length ?a) xs) = ?b"
    using arg_cong [OF eq, of "\<lambda>ys. take (length ?b) (drop (length ?a) ys)"] by simp
  ultimately show ?thesis by (simp add: slicei_def)
qed

lemma sorted_group_start:
  fixes f :: "'a \<Rightarrow> 'b::linorder"
  assumes "sorted (map f xs)" "k < length xs" "k = 0 \<or> f (xs ! (k - 1)) \<noteq> f (xs ! k)"
  shows "length (filter (\<lambda>x. f x < f (xs ! k)) xs) = k"
proof -
  have le: "f (xs ! i) \<le> f (xs ! j)" if "i \<le> j" "j < length xs" for i j
    using sorted_nth_mono [OF assms(1), of i j] that by simp
  have "f (xs ! i) < f (xs ! k)" if "i < k" for i
  proof -
    have "i \<le> k - 1" "k - 1 < length xs" using that assms(2) by auto
    then have "f (xs ! i) \<le> f (xs ! (k - 1))" by (rule le)
    also have "\<dots> < f (xs ! k)" using assms(2,3) that le [of "k - 1" k] by fastforce
    finally show ?thesis .
  qed
  then have iff: "f (xs ! i) < f (xs ! k) \<longleftrightarrow> i < k" if "i < length xs" for i
    using le [of k i] that by (meson linorder_not_less)
  have "{i. i < length xs \<and> f (xs ! i) < f (xs ! k)} = {..<k}" using iff assms(2) by auto
  then show ?thesis by (simp add: length_filter_conv_card)
qed

lemma edge_starts_ok:
  assumes "sorted (map parent es)" "\<forall>e \<in> set es. parent e < N"
  shows "\<exists>starts. edge_starts N es = Some starts \<and> length starts = N \<and>
    (\<forall>n < N. starts ! n = (if \<exists>e \<in> set es. parent e = n then length (filter (\<lambda>e. parent e < n) es) else 0))"
proof -
  define I where "I ys starts \<longleftrightarrow> length starts = N \<and> (\<forall>n < N. starts ! n =
      (if \<exists>i \<in> set ys. parent (es ! i) = n then length (filter (\<lambda>e. parent e < n) es) else 0))"
    for ys :: "nat list" and starts :: "nat list"
  have "\<exists>starts. edge_starts N es = Some starts \<and> I [0..<length es] starts"
    unfolding edge_starts_def
  proof (rule foldM_rule)
    show "I [] (replicate N 0)" by (simp add: I_def)
  next
    fix ys k starts assume pre: "prefix (ys @ [k]) [0..<length es]" and I: "I ys starts"
    have k: "ys = [0..<k]" "k < length es" using prefix_upt [OF pre] by auto
    have pN: "parent (es ! k) < N" using assms(2) k(2) by simp
    show "\<exists>t. (if k = 0 \<or> parent (es ! k) \<noteq> parent (es ! (k - 1)) then seti starts (parent (es ! k)) k
        else Some starts) = Some t \<and> I (ys @ [k]) t"
    proof (cases "k = 0 \<or> parent (es ! k) \<noteq> parent (es ! (k - 1))")
      case True
      then have "length (filter (\<lambda>e. parent e < parent (es ! k)) es) = k"
        using sorted_group_start [OF assms(1) k(2)] by auto
      with True I pN show ?thesis by (auto simp: I_def nth_list_update)
    next
      case False
      then have "k - 1 \<in> set ys" "parent (es ! (k - 1)) = parent (es ! k)" using k by auto
      with False I show ?thesis by (auto simp: I_def)
    qed
  qed
  moreover have "(\<exists>i \<in> set [0..<length es]. parent (es ! i) = n) \<longleftrightarrow> (\<exists>e \<in> set es. parent e = n)" for n
    by (metis atLeastLessThan_iff atLeastLessThan_upt in_set_conv_nth zero_le)
  ultimately show ?thesis unfolding I_def by simp
qed

end
