(* ===== verification/AhoCorasickTable.thy ===== *)
theory AhoCorasickTable
  imports AhoCorasickTrie
begin

text \<open>
  Second half of the matcher's correctness: the breadth-first construction fills the dense
  transition table with the transitions of the abstract automaton of \<open>AhoCorasickSpec\<close>. What the
  construction needs of the trie is the interface \<open>labelled_trie\<close>; the trie built by
  \<open>insert_pattern\<close> is shown to satisfy it in \<open>AhoCorasickCorrect\<close>.
\<close>

section \<open>Table access\<close>

definition table_ok :: "nat \<Rightarrow> Matcher \<Rightarrow> bool" where
  "table_ok N m \<longleftrightarrow> (case next16 m of
      Some t \<Rightarrow> N \<le> 65536 \<and> length t = N * stride m
    | None \<Rightarrow> (case next_wide m of None \<Rightarrow> False | Some t \<Rightarrow> length t = N * stride m))"

definition delta :: "Matcher \<Rightarrow> nat \<Rightarrow> nat \<Rightarrow> nat" where
  "delta m s y = the (transition m s y)"

definition same_frame :: "Matcher \<Rightarrow> Matcher \<Rightarrow> bool" where
  "same_frame m m' \<longleftrightarrow> failure m' = failure m \<and> dictLink m' = dictLink m \<and> patternsAt m' = patternsAt m \<and>
     numPatterns m' = numPatterns m \<and> symbols m' = symbols m \<and> stride m' = stride m"

lemma row_index_less: "s < N \<Longrightarrow> y < w \<Longrightarrow> s * w + y < N * (w::nat)"
proof -
  assume "s < N" "y < w"
  then have "s * w + y < Suc s * w" by simp
  also have "\<dots> \<le> N * w" using \<open>s < N\<close> by (intro mult_le_mono1) simp
  finally show ?thesis .
qed

lemma row_index_eq: "y < w \<Longrightarrow> y' < w \<Longrightarrow> s * w + y = s' * w + (y'::nat) \<longleftrightarrow> s = s' \<and> y = y'"
proof -
  assume y: "y < w" "y' < w"
  then have "(s * w + y) div w = s" "(s' * w + y') div w = s'" by auto
  then show ?thesis by auto
qed

lemma transition_ok:
  assumes "table_ok N m" "s < N" "y < stride m"
  shows "transition m s y = Some (delta m s y)"
  using assms row_index_less [of s N y "stride m"]
  by (auto simp: table_ok_def transition_def delta_def Let_def split: option.splits)

lemma setTransition_ok:
  assumes ok: "table_ok N m" and idx: "n < N" "y < stride m" "v < N"
  shows "\<exists>m'. setTransition m (n * stride m + y) v = Some m' \<and> table_ok N m' \<and> same_frame m m' \<and>
    (\<forall>s z. s < N \<longrightarrow> z < stride m \<longrightarrow> delta m' s z = (if s = n \<and> z = y then v else delta m s z))"
proof (cases "next16 m")
  case (Some t)
  let ?i = "n * stride m + y"
  have N: "N \<le> 65536" and len: "length t = N * stride m" using ok Some by (auto simp: table_ok_def)
  have i: "?i < length t" using row_index_less idx len by simp
  have v: "v mod 65536 = v" using idx(3) N by simp
  let ?m = "m\<lparr>next16 := Some (t[?i := v])\<rparr>"
  have "delta ?m s z = (if s = n \<and> z = y then v else delta m s z)" if "s < N" "z < stride m" for s z
    using that row_index_eq [of z "stride m" y s n] idx(2) row_index_less [of s N z "stride m"] len Some
    by (auto simp: delta_def transition_def nth_list_update)
  moreover have "setTransition m ?i v = Some ?m" using Some i v by (simp add: setTransition_def)
  moreover have "table_ok N ?m" using N len by (simp add: table_ok_def)
  ultimately show ?thesis by (auto simp: same_frame_def)
next
  case None
  then obtain t where t: "next_wide m = Some t" "length t = N * stride m"
    using ok by (auto simp: table_ok_def split: option.splits)
  let ?i = "n * stride m + y"
  have i: "?i < length t" using row_index_less idx t(2) by simp
  let ?m = "m\<lparr>next_wide := Some (t[?i := v])\<rparr>"
  have "delta ?m s z = (if s = n \<and> z = y then v else delta m s z)" if "s < N" "z < stride m" for s z
    using that row_index_eq [of z "stride m" y s n] idx(2) row_index_less [of s N z "stride m"] t None
    by (auto simp: delta_def transition_def nth_list_update)
  moreover have "setTransition m ?i v = Some ?m" using t None i by (simp add: setTransition_def)
  moreover have "table_ok N ?m" using t None by (simp add: table_ok_def)
  ultimately show ?thesis by (auto simp: same_frame_def)
qed

lemma table_ok_links [simp]: "table_ok N (m\<lparr>failure := a, dictLink := b\<rparr>) = table_ok N m"
  by (simp add: table_ok_def split: option.split)

lemma delta_links [simp]: "delta (m\<lparr>failure := a, dictLink := b\<rparr>) = delta m"
  by (intro ext) (simp add: delta_def transition_def Let_def split: option.split)

lemma same_frame_trans: "same_frame a b \<Longrightarrow> same_frame b c \<Longrightarrow> same_frame a c"
  by (simp add: same_frame_def)

lemma same_frame_refl [simp]: "same_frame m m"
  by (simp add: same_frame_def)

lemma copy_row_ok:
  assumes ok: "table_ok N m" and f: "f < N" and n: "n < N" "f \<noteq> n"
    and vals: "\<And>y. y < stride m \<Longrightarrow> delta m f y < N"
  shows "\<exists>m'. copy_row f (n * stride m) m = Some m' \<and> table_ok N m' \<and> same_frame m m' \<and>
    (\<forall>s y. s < N \<longrightarrow> y < stride m \<longrightarrow> delta m' s y = (if s = n then delta m f y else delta m s y))"
proof -
  define I where "I ys m' \<longleftrightarrow> table_ok N m' \<and> same_frame m m' \<and>
    (\<forall>s y. s < N \<longrightarrow> y < stride m \<longrightarrow>
       delta m' s y = (if s = n \<and> y \<in> set ys then delta m f y else delta m s y))" for ys m'
  have "\<exists>m'. copy_row f (n * stride m) m = Some m' \<and> I [0..<stride m] m'"
    unfolding copy_row_def
  proof (rule foldM_rule)
    show "I [] m" using ok by (simp add: I_def)
  next
    fix ys y m1 assume pre: "prefix (ys @ [y]) [0..<stride m]" and I: "I ys m1"
    have ys: "y \<notin> set ys" "y < stride m" using prefix_upt [OF pre] by auto
    have fr: "same_frame m m1" "stride m1 = stride m" and t1: "table_ok N m1" using I by (auto simp: I_def same_frame_def)
    have tr: "transition m1 f y = Some (delta m f y)"
      using transition_ok [OF t1 f] ys(2) fr(2) I f n(2) by (simp add: I_def)
    obtain m2 where m2: "setTransition m1 (n * stride m1 + y) (delta m f y) = Some m2" "table_ok N m2"
      "same_frame m1 m2" and d2: "\<And>s z. s < N \<Longrightarrow> z < stride m1 \<Longrightarrow> delta m2 s z = (if s = n \<and> z = y then delta m f y else delta m1 s z)"
      using setTransition_ok [OF t1 n(1), of y "delta m f y"] ys(2) fr(2) vals by auto
    have "I (ys @ [y]) m2"
      using I m2 d2 fr same_frame_trans [OF fr(1) m2(3)] by (auto simp: I_def)
    with tr m2(1) fr(2) show "\<exists>m'. Option.bind (transition m1 f y) (\<lambda>t. setTransition m1 (n * stride m + y) t) = Some m' \<and> I (ys @ [y]) m'"
      by simp
  qed
  then show ?thesis by (auto simp: I_def)
qed

section \<open>The interface between the trie and the table construction\<close>

locale labelled_trie =
  fixes L :: "bytes list" and S :: "bytes set" and es :: "trieEdge list"
    and starts counts syms :: "nat list" and width :: nat and terms :: "nat list list"
  assumes labels_distinct: "distinct L"
    and root_label: "L \<noteq> [] \<and> L ! 0 = []"
    and labels_closed: "prefix_closed (set L)"
    and words_labels: "S \<subseteq> set L"
    and Nil_no_word: "[] \<notin> S"
    and array_lengths: "length terms = length L \<and> length starts = length L \<and> length counts = length L"
    and terminal_iff: "n < length L \<Longrightarrow> terms ! n \<noteq> [] \<longleftrightarrow> L ! n \<in> S"
    and out_edges: "n < length L \<Longrightarrow>
      slicei es (starts ! n) (starts ! n + counts ! n) = Some (filter (\<lambda>e. parent e = n) es)"
    and root_start: "starts ! 0 = 0"
    and edge_label: "e \<in> set es \<Longrightarrow> child e < length L \<and> parent e < length L \<and>
      L ! child e = L ! parent e @ [edge_byte e]"
    and edge_exists: "w @ [b] \<in> set L \<Longrightarrow> \<exists>e \<in> set es. L ! parent e = w \<and> edge_byte e = b"
    and edge_children: "distinct (map child es)"
    and symbol_count: "length syms = 256"
    and symbol_bound: "syms ! of_char b < width"
    and symbol_surj: "y < width \<Longrightarrow> \<exists>b. syms ! of_char b = y"
    and symbol_inj: "syms ! of_char b = syms ! of_char c \<Longrightarrow> b = c \<or> (\<forall>w. w @ [b] \<notin> set L \<and> w @ [c] \<notin> set L)"
begin

definition node :: "bytes \<Rightarrow> nat" where
  "node w = (THE n. n < length L \<and> L ! n = w)"

lemma node_label: "n < length L \<Longrightarrow> node (L ! n) = n"
  unfolding node_def using labels_distinct by (auto simp: nth_eq_iff_index_eq)

lemma label_node: "w \<in> set L \<Longrightarrow> node w < length L \<and> L ! node w = w"
  by (metis in_set_conv_nth node_label)

lemma node_inj: "v \<in> set L \<Longrightarrow> w \<in> set L \<Longrightarrow> node v = node w \<longleftrightarrow> v = w"
  by (metis label_node)

lemma Nil_label: "[] \<in> set L" and node_Nil: "node [] = 0"
  using root_label node_label [of 0] prefix_closed_Nil [OF labels_closed] by auto

lemma state_label: "lss (set L) w \<in> set L"
  using Nil_label by (rule lss_in)

lemma fail_label: "fail_of (set L) u \<in> set L"
  by (simp add: fail_of_def state_label)

definition link_code :: "bytes option \<Rightarrow> int" where
  "link_code v = (case v of None \<Rightarrow> - 1 | Some w \<Rightarrow> int (node w))"

definition row_ok :: "Matcher \<Rightarrow> nat \<Rightarrow> bool" where
  "row_ok m n \<longleftrightarrow> (\<forall>b. delta m n (syms ! of_char b) = node (lss (set L) (L ! n @ [b])))"

definition link_ok :: "Matcher \<Rightarrow> nat \<Rightarrow> bool" where
  "link_ok m n \<longleftrightarrow> failure m ! n = node (fail_of (set L) (L ! n)) \<and>
     dictLink m ! n = link_code (dict_of S (L ! n))"

definition frame_ok :: "Matcher \<Rightarrow> bool" where
  "frame_ok m \<longleftrightarrow> table_ok (length L) m \<and> symbols m = syms \<and> stride m = width \<and> patternsAt m = terms \<and>
     length (failure m) = length L \<and> length (dictLink m) = length L \<and> dictLink m ! 0 = - 1"

lemma delta_row: "row_ok m n \<Longrightarrow> y < width \<Longrightarrow> delta m n y < length L"
  using symbol_surj [of y] label_node [OF state_label] by (auto simp: row_ok_def)

text \<open>The dictionary link of a new child, from its failure state.\<close>

lemma child_link:
  assumes "v \<in> set L" "cf = node (fail_of (set L) v)"
    and "cf = 0 \<or> link_ok m cf" "frame_ok m"
  shows "(if terms ! cf \<noteq> [] then int cf else dictLink m ! cf) = link_code (dict_of S v)"
proof -
  let ?f = "fail_of (set L) v"
  have f: "?f \<in> set L" "L ! cf = ?f" "cf < length L"
    using fail_label [of v] label_node [of ?f] assms(2) by auto
  have step: "dict_of S v = (if ?f \<in> S \<and> ?f \<noteq> [] then Some ?f else dict_of S ?f)"
    using words_labels by (rule dict_of_step) (simp add: fail_of_def)
  show ?thesis
  proof (cases "?f \<in> S")
    case True
    moreover from this have "?f \<noteq> []" using Nil_no_word by auto
    ultimately show ?thesis using step f terminal_iff assms(2) by (simp add: link_code_def)
  next
    case False
    then have d: "dict_of S v = dict_of S ?f" "terms ! cf = []"
      using step terminal_iff [OF f(3)] f(2) by auto
    show ?thesis
    proof (cases "cf = 0")
      case True
      then have "?f = []" using f root_label by simp
      then have "dict_of S ?f = None" by (simp add: dict_of_def)
      with d True assms(4) show ?thesis by (simp add: link_code_def frame_ok_def)
    next
      case False
      with assms(3) f d show ?thesis by (simp add: link_ok_def)
    qed
  qed
qed

section \<open>One outgoing edge\<close>

lemma visit_edge_ok:
  assumes fr: "frame_ok m" and e: "e \<in> set es" "parent e = n" and n: "L ! n \<noteq> []"
    and f: "f = node (fail_of (set L) (L ! n))" and row: "row_ok m f"
    and cf: "node (fail_of (set L) (L ! child e)) = 0 \<or> link_ok m (node (fail_of (set L) (L ! child e)))"
  shows "\<exists>m'. visit_edge f (n * width) e (m, queue) = Some (m', queue @ [child e]) \<and> frame_ok m' \<and>
    (\<forall>s y. s < length L \<longrightarrow> y < width \<longrightarrow>
       delta m' s y = (if s = n \<and> y = syms ! of_char (edge_byte e) then child e else delta m s y)) \<and>
    link_ok m' (child e) \<and> (\<forall>k. k \<noteq> child e \<longrightarrow> failure m' ! k = failure m ! k \<and> dictLink m' ! k = dictLink m ! k)"
proof -
  let ?N = "length L" and ?y = "syms ! of_char (edge_byte e)" and ?c = "child e"
  have lab: "?c < ?N" "n < ?N" "L ! ?c = L ! n @ [edge_byte e]" using edge_label [OF e(1)] e(2) by auto
  have inv: "table_ok ?N m" "symbols m = syms" "stride m = width" "patternsAt m = terms"
    "length (failure m) = ?N" "length (dictLink m) = ?N" using fr by (auto simp: frame_ok_def)
  have fN: "f < ?N" "L ! f = fail_of (set L) (L ! n)" using f label_node [OF fail_label] by auto
  then have fn: "f \<noteq> n" using fail_of_length [OF n, of "set L"] by auto
  obtain m1 where m1: "setTransition m (n * stride m + ?y) ?c = Some m1" "table_ok ?N m1" "same_frame m m1"
    and d1: "\<And>s z. s < ?N \<Longrightarrow> z < width \<Longrightarrow> delta m1 s z = (if s = n \<and> z = ?y then ?c else delta m s z)"
    using setTransition_ok [OF inv(1) lab(2), of ?y ?c] symbol_bound lab(1) inv(3) by auto
  have eq1: "failure m1 = failure m" "dictLink m1 = dictLink m" "patternsAt m1 = terms"
    "symbols m1 = syms" "stride m1 = width" using m1(3) inv by (auto simp: same_frame_def)
  let ?cf = "node (fail_of (set L) (L ! ?c))"
  have "delta m f ?y = node (lss (set L) (L ! f @ [edge_byte e]))" using row by (simp add: row_ok_def)
  also have "\<dots> = ?cf" using fail_of_snoc [OF labels_closed n] fN(2) lab(3) by simp
  finally have tr: "transition m1 f ?y = Some ?cf"
    using transition_ok [OF m1(2) fN(1), of ?y] d1 [OF fN(1), of ?y] fn symbol_bound eq1(5) by simp
  have cfN: "?cf < ?N" using label_node [OF fail_label] by auto
  have link: "(if terms ! ?cf \<noteq> [] then int ?cf else dictLink m ! ?cf) = link_code (dict_of S (L ! ?c))"
    using child_link [of "L ! ?c" ?cf m] cf fr lab(1) by simp
  let ?m' = "m1\<lparr>failure := (failure m)[?c := ?cf], dictLink := (dictLink m)[?c := link_code (dict_of S (L ! ?c))]\<rparr>"
  have run: "visit_edge f (n * width) e (m, queue) = Some (?m', queue @ [?c])"
    using m1(1) tr cfN lab(1) inv eq1 array_lengths symbol_count link
    by (cases "terms ! ?cf = []") (simp_all add: visit_edge_def)
  have "L ! 0 \<noteq> L ! ?c" using root_label lab(3) by simp
  then have c0: "?c \<noteq> 0" by metis
  have "frame_ok ?m'" using m1(2) inv eq1 fr c0
    by (auto simp: frame_ok_def)
  moreover have "link_ok ?m' ?c" using inv lab(1) by (simp add: link_ok_def)
  ultimately show ?thesis using run d1 by auto
qed

section \<open>One node of the breadth-first search\<close>

definition bfs_inv :: "nat \<Rightarrow> Matcher \<Rightarrow> nat list \<Rightarrow> bool" where
  "bfs_inv head m queue \<longleftrightarrow> frame_ok m \<and> distinct queue \<and> head \<le> length queue \<and>
     (\<forall>n \<in> set queue. n < length L \<and> L ! n \<noteq> [] \<and> link_ok m n) \<and>
     (\<forall>w b. w @ [b] \<in> set L \<longrightarrow>
        (node (w @ [b]) \<in> set queue \<longleftrightarrow> w = [] \<or> node w \<in> set (take head queue))) \<and>
     sorted (map (\<lambda>n. length (L ! n)) queue) \<and>
     (head < length queue \<longrightarrow> (\<forall>n \<in> set queue. length (L ! n) \<le> Suc (length (L ! (queue ! head))))) \<and>
     (\<forall>n \<in> insert 0 (set (take head queue)). row_ok m n)"

lemma shallow_done:
  assumes inv: "bfs_inv head m queue" "head < length queue"
  shows "w \<in> set L \<Longrightarrow> w \<noteq> [] \<Longrightarrow> length w < length (L ! (queue ! head)) \<Longrightarrow> node w \<in> set (take head queue)"
proof (induction w rule: rev_induct)
  case (snoc b w)
  have "w \<in> set L" using snoc.prems(1) prefix_closedD [OF labels_closed] by blast
  then have "w = [] \<or> node w \<in> set (take head queue)" using snoc.IH snoc.prems(3) by fastforce
  then have "node (w @ [b]) \<in> set queue" using inv(1) snoc.prems(1) by (simp add: bfs_inv_def)
  then obtain j where j: "j < length queue" "queue ! j = node (w @ [b])" by (auto simp: in_set_conv_nth)
  have "j < head"
  proof (rule ccontr)
    assume "\<not> j < head"
    then have "length (L ! (queue ! head)) \<le> length (L ! (queue ! j))"
      using sorted_nth_mono [of "map (\<lambda>n. length (L ! n)) queue" head j] inv j(1) by (simp add: bfs_inv_def)
    then show False using snoc.prems(1,3) j(2) label_node by fastforce
  qed
  then show ?case using j by (auto simp: in_set_conv_nth)
qed simp

lemma shallow_queued:
  assumes inv: "bfs_inv head m queue" "head < length queue"
    and w: "w \<in> set L" "w \<noteq> []" "length w \<le> length (L ! (queue ! head))"
  shows "node w \<in> set queue"
proof (cases w rule: rev_cases)
  case (snoc v b)
  have "v \<in> set L" using w(1) snoc prefix_closedD [OF labels_closed] by blast
  then have "v = [] \<or> node v \<in> set (take head queue)" using shallow_done [OF inv, of v] w(3) snoc by fastforce
  then show ?thesis using inv(1) w(1) snoc by (simp add: bfs_inv_def)
qed (use w in simp)

text \<open>The loop over the outgoing edges of a node whose row holds its failure state's row.\<close>

definition edge_inv :: "nat \<Rightarrow> Matcher \<Rightarrow> nat list \<Rightarrow> trieEdge list \<Rightarrow> Matcher \<times> nat list \<Rightarrow> bool" where
  "edge_inv n m queue ys mq \<longleftrightarrow> snd mq = queue @ map child ys \<and> frame_ok (fst mq) \<and>
     (\<forall>s y. s < length L \<longrightarrow> s \<noteq> n \<longrightarrow> y < width \<longrightarrow> delta (fst mq) s y = delta m s y) \<and>
     (\<forall>b. delta (fst mq) n (syms ! of_char b) =
        (if b \<in> edge_byte ` set ys then node (L ! n @ [b])
         else node (lss (set L) (fail_of (set L) (L ! n) @ [b])))) \<and>
     (\<forall>k \<in> set queue \<union> child ` set ys. link_ok (fst mq) k)"

lemma edge_symbol:
  assumes "e \<in> set es" "syms ! of_char b = syms ! of_char (edge_byte e)"
  shows "b = edge_byte e"
proof -
  have "L ! parent e @ [edge_byte e] \<in> set L" using edge_label [OF assms(1)] by (metis nth_mem)
  then show ?thesis using symbol_inj [OF assms(2)] by blast
qed

lemma visit_edges_ok:
  assumes J: "edge_inv n m queue [] (m, queue)" and n: "n < length L" "L ! n \<noteq> []"
    and f: "f = node (fail_of (set L) (L ! n))" and row: "row_ok m f"
    and cf: "\<And>e. e \<in> set es \<Longrightarrow> parent e = n \<Longrightarrow> fail_of (set L) (L ! child e) = [] \<or>
       node (fail_of (set L) (L ! child e)) \<in> set queue"
    and new: "\<And>e. e \<in> set es \<Longrightarrow> parent e = n \<Longrightarrow> child e \<notin> set queue"
  shows "\<exists>mq. foldM (visit_edge f (n * width)) (filter (\<lambda>e. parent e = n) es) (m, queue) = Some mq \<and>
    edge_inv n m queue (filter (\<lambda>e. parent e = n) es) mq"
proof (rule foldM_rule)
  show "edge_inv n m queue [] (m, queue)" by (rule J)
next
  fix ys e mq assume pre: "prefix (ys @ [e]) (filter (\<lambda>e. parent e = n) es)" and I: "edge_inv n m queue ys mq"
  obtain m1 q1 where mq: "mq = (m1, q1)" by (cases mq)
  have sub: "set (ys @ [e]) \<subseteq> set (filter (\<lambda>e. parent e = n) es)" using pre by (rule set_mono_prefix)
  then have e: "e \<in> set es" "parent e = n" by auto
  have "distinct (map child (filter (\<lambda>e. parent e = n) es))" using edge_children by (rule distinct_map_filter)
  then have "distinct (map child (ys @ [e]))" using pre by (metis map_mono_prefix distinct_append prefixE)
  then have fresh: "child e \<notin> set queue \<union> child ` set ys" using new [OF e] by auto
  have fN: "f < length L" "L ! f = fail_of (set L) (L ! n)" using f label_node [OF fail_label] by auto
  then have fn: "f \<noteq> n" using fail_of_length [OF n(2), of "set L"] by auto
  have row1: "row_ok m1 f" using row I fN(1) fn symbol_bound by (simp add: row_ok_def edge_inv_def mq)
  have cf1: "node (fail_of (set L) (L ! child e)) = 0 \<or> link_ok m1 (node (fail_of (set L) (L ! child e)))"
    using cf [OF e] I node_Nil by (auto simp: edge_inv_def mq)
  have fr1: "frame_ok m1" using I by (simp add: edge_inv_def mq)
  obtain m2 where m2: "visit_edge f (n * width) e (m1, q1) = Some (m2, q1 @ [child e])" "frame_ok m2"
    "link_ok m2 (child e)"
    and d2: "\<And>s y. s < length L \<Longrightarrow> y < width \<Longrightarrow>
       delta m2 s y = (if s = n \<and> y = syms ! of_char (edge_byte e) then child e else delta m1 s y)"
    and l2: "\<And>k. k \<noteq> child e \<Longrightarrow> failure m2 ! k = failure m1 ! k \<and> dictLink m2 ! k = dictLink m1 ! k"
    using visit_edge_ok [OF fr1 e n(2) f row1 cf1, of q1] by blast
  have c: "child e = node (L ! n @ [edge_byte e])" using edge_label [OF e(1)] e(2) node_label by metis
  have "delta m2 n (syms ! of_char b) = (if b \<in> edge_byte ` set (ys @ [e]) then node (L ! n @ [b])
         else node (lss (set L) (fail_of (set L) (L ! n) @ [b])))" for b
  proof (cases "b = edge_byte e")
    case True
    then show ?thesis using d2 [OF n(1) symbol_bound, of b] c by simp
  next
    case False
    then have "syms ! of_char b \<noteq> syms ! of_char (edge_byte e)" using edge_symbol [OF e(1)] by blast
    with False show ?thesis using d2 [OF n(1) symbol_bound, of b] I by (simp add: edge_inv_def mq)
  qed
  moreover have "link_ok m2 k" if "k \<in> set queue \<union> child ` set (ys @ [e])" for k
  proof (cases "k = child e")
    case False
    with that have "link_ok m1 k" using I by (simp add: edge_inv_def mq)
    with l2 [OF False] show ?thesis by (simp add: link_ok_def)
  qed (simp add: m2(3))
  ultimately have "edge_inv n m queue (ys @ [e]) (m2, q1 @ [child e])"
    using I m2(2) d2 by (simp add: edge_inv_def mq)
  with m2(1) show "\<exists>t'. visit_edge f (n * width) e mq = Some t' \<and> edge_inv n m queue (ys @ [e]) t'"
    by (auto simp: mq)
qed

lemma out_edge_iff:
  assumes "n < length L" "w @ [b] \<in> set L"
  shows "node (w @ [b]) \<in> child ` set (filter (\<lambda>e. parent e = n) es) \<longleftrightarrow> w = L ! n"
proof
  assume "node (w @ [b]) \<in> child ` set (filter (\<lambda>e. parent e = n) es)"
  then obtain e where e: "e \<in> set es" "parent e = n" "child e = node (w @ [b])" by auto
  then have "w @ [b] = L ! n @ [edge_byte e]" using edge_label [OF e(1)] label_node [OF assms(2)] by simp
  then show "w = L ! n" by simp
next
  assume w: "w = L ! n"
  from edge_exists [OF assms(2)] obtain e where e: "e \<in> set es" "L ! parent e = w" "edge_byte e = b" by blast
  then have "parent e = n" using w edge_label [OF e(1)] assms(1) node_label by metis
  moreover have "child e = node (w @ [b])" using edge_label [OF e(1)] e node_label by metis
  ultimately show "node (w @ [b]) \<in> child ` set (filter (\<lambda>e. parent e = n) es)" using e(1) by force
qed

lemma node_row_final:
  assumes "n < length L" "L ! n \<noteq> []"
    and "\<And>b. delta m n (syms ! of_char b) =
      (if b \<in> edge_byte ` set (filter (\<lambda>e. parent e = n) es) then node (L ! n @ [b])
       else node (lss (set L) (fail_of (set L) (L ! n) @ [b])))"
  shows "row_ok m n"
  unfolding row_ok_def
proof
  fix b
  show "delta m n (syms ! of_char b) = node (lss (set L) (L ! n @ [b]))"
  proof (cases "L ! n @ [b] \<in> set L")
    case True
    then obtain e where e: "e \<in> set es" "L ! parent e = L ! n" "edge_byte e = b" using edge_exists by blast
    then have "parent e = n" using edge_label [OF e(1)] assms(1) node_label by metis
    with e have "b \<in> edge_byte ` set (filter (\<lambda>e. parent e = n) es)" by auto
    with assms(3) lss_id [OF True] show ?thesis by simp
  next
    case False
    then have "b \<notin> edge_byte ` set (filter (\<lambda>e. parent e = n) es)"
      using edge_label nth_mem by fastforce
    with assms(3) lss_step_fail [OF labels_closed assms(2) False] show ?thesis by simp
  qed
qed

lemma bfs_inv_step:
  assumes inv: "bfs_inv head m queue" and h: "head < length queue"
    and fr2: "frame_ok m2"
    and lk2: "\<forall>k \<in> set (queue @ map child (filter (\<lambda>e. parent e = queue ! head) es)). link_ok m2 k"
    and rows: "\<And>k. k \<in> insert 0 (set (take (Suc head) (queue @ map child (filter (\<lambda>e. parent e = queue ! head) es))))
       \<Longrightarrow> row_ok m2 k"
    and new: "\<And>e. e \<in> set es \<Longrightarrow> parent e = queue ! head \<Longrightarrow> child e \<notin> set queue"
  shows "bfs_inv (Suc head) m2 (queue @ map child (filter (\<lambda>e. parent e = queue ! head) es))"
proof -
  let ?n = "queue ! head" and ?out = "filter (\<lambda>e. parent e = queue ! head) es"
  let ?q = "queue @ map child ?out"
  have n: "?n < length L" "L ! ?n \<noteq> []" using inv h by (auto simp: bfs_inv_def)
  have tk: "take (Suc head) ?q = take head queue @ [?n]" using h by (simp add: take_Suc_conv_app_nth)
  have lab: "child e < length L \<and> L ! child e = L ! ?n @ [edge_byte e]" if "e \<in> set ?out" for e
    using edge_label that by auto
  have "distinct (map child ?out)" using edge_children by (rule distinct_map_filter)
  then have dist: "distinct ?q" using inv new by (auto simp: bfs_inv_def)
  have members: "\<forall>k \<in> set ?q. k < length L \<and> L ! k \<noteq> []"
    using inv lab by (auto simp: bfs_inv_def)
  have iff: "node (w @ [b]) \<in> set ?q \<longleftrightarrow> w = [] \<or> node w \<in> set (take (Suc head) ?q)" if "w @ [b] \<in> set L" for w b
  proof -
    have "w \<in> set L" using that prefix_closedD [OF labels_closed] by blast
    then have "node w = ?n \<longleftrightarrow> w = L ! ?n" using node_label [OF n(1)] label_node by metis
    moreover have "node (w @ [b]) \<in> set queue \<longleftrightarrow> w = [] \<or> node w \<in> set (take head queue)"
      using inv that by (simp add: bfs_inv_def)
    ultimately show ?thesis using out_edge_iff [OF n(1) that] unfolding tk by auto
  qed
  have depth: "length (L ! child e) = Suc (length (L ! ?n))" if "e \<in> set ?out" for e
    using lab [OF that] by simp
  have bound: "\<forall>k \<in> set queue. length (L ! k) \<le> Suc (length (L ! ?n))" and so: "sorted (map (\<lambda>n. length (L ! n)) queue)"
    using inv h by (auto simp: bfs_inv_def)
  have "map (\<lambda>n. length (L ! n)) (map child ?out) = replicate (length ?out) (Suc (length (L ! ?n)))"
    using depth by (simp add: map_replicate_const [symmetric])
  then have sorted: "sorted (map (\<lambda>n. length (L ! n)) ?q)" using so bound by (auto simp: sorted_append)
  have all: "\<forall>k \<in> set ?q. length (L ! k) \<le> Suc (length (L ! ?n))" using bound depth by auto
  have next_le: "length (L ! ?n) \<le> length (L ! (?q ! Suc head))" if "Suc head < length ?q"
    using sorted_nth_mono [OF sorted, of head "Suc head"] that h
    by (simp add: nth_append_left del: map_append map_map)
  have bnd: "length (L ! k) \<le> Suc (length (L ! (?q ! Suc head)))" if "Suc head < length ?q" "k \<in> set ?q" for k
    using all that(2) next_le [OF that(1)] by fastforce
  have len: "Suc head \<le> length ?q" using h by simp
  show ?thesis
    unfolding bfs_inv_def using fr2 dist len members lk2 iff sorted rows bnd by blast
qed

lemma visit_node_ok:
  assumes inv: "bfs_inv head m queue" and h: "head < length queue"
  shows "\<exists>m' queue'. visit_node es starts counts (queue ! head) (m, queue) = Some (m', queue') \<and>
    bfs_inv (Suc head) m' queue'"
proof -
  let ?n = "queue ! head" and ?N = "length L"
  let ?u = "L ! ?n" and ?out = "filter (\<lambda>e. parent e = ?n) es"
  have fr: "frame_ok m" and n: "?n < ?N" "?u \<noteq> []" "link_ok m ?n" and nq: "?n \<in> set queue"
    using inv h by (auto simp: bfs_inv_def)
  define f where "f = node (fail_of (set L) ?u)"
  have fN: "f < ?N" "L ! f = fail_of (set L) ?u" using label_node [OF fail_label] by (auto simp: f_def)
  have fl: "length (L ! f) < length ?u" using fail_of_length [OF n(2)] fN(2) by simp
  then have fn: "f \<noteq> ?n" by auto
  have rowf: "row_ok m f"
  proof (cases "L ! f = []")
    case True
    then have "f = 0" using node_label [OF fN(1)] node_Nil by simp
    then show ?thesis using inv by (simp add: bfs_inv_def)
  next
    case False
    then have "f \<in> set (take head queue)"
      using shallow_done [OF inv h nth_mem [OF fN(1)]] fl node_label [OF fN(1)] by simp
    then show ?thesis using inv by (simp add: bfs_inv_def)
  qed
  have w: "stride m = width" "length (failure m) = ?N" using fr by (auto simp: frame_ok_def)
  have "\<exists>m1. copy_row f (?n * stride m) m = Some m1 \<and> table_ok ?N m1 \<and> same_frame m m1 \<and>
    (\<forall>s y. s < ?N \<longrightarrow> y < stride m \<longrightarrow> delta m1 s y = (if s = ?n then delta m f y else delta m s y))"
    using fr delta_row [OF rowf] w by (intro copy_row_ok fN(1) n(1) fn) (auto simp: frame_ok_def)
  then obtain m1 where m1: "copy_row f (?n * width) m = Some m1" "table_ok ?N m1" "same_frame m m1"
    and d1: "\<And>s y. s < ?N \<Longrightarrow> y < width \<Longrightarrow> delta m1 s y = (if s = ?n then delta m f y else delta m s y)"
    unfolding w by blast
  have fr1: "frame_ok m1" and lk1: "link_ok m1 k = link_ok m k" for k
    using fr m1(2,3) by (auto simp: frame_ok_def same_frame_def link_ok_def)
  have J: "edge_inv ?n m1 queue [] (m1, queue)"
    using fr1 lk1 inv d1 [OF n(1) symbol_bound] rowf fN(2) by (simp add: edge_inv_def row_ok_def bfs_inv_def)
  have rowf1: "row_ok m1 f" using rowf d1 [OF fN(1) symbol_bound] fn by (simp add: row_ok_def)
  have lab: "child e < ?N" "L ! child e = ?u @ [edge_byte e]" if "e \<in> set es" "parent e = ?n" for e
    using edge_label [OF that(1)] that(2) by auto
  have cfq: "fail_of (set L) (L ! child e) = [] \<or> node (fail_of (set L) (L ! child e)) \<in> set queue"
    if "e \<in> set es" "parent e = ?n" for e
  proof -
    have "length (fail_of (set L) (L ! child e)) \<le> length ?u"
      using fail_of_length [of "L ! child e" "set L"] lab [OF that] by simp
    then show ?thesis using shallow_queued [OF inv h] fail_label by blast
  qed
  have nh: "node ?u \<notin> set (take head queue)"
    using inv h node_label [OF n(1)] by (auto simp: bfs_inv_def distinct_conv_nth in_set_conv_nth)
  have iff: "node (w @ [b]) \<in> set queue \<longleftrightarrow> w = [] \<or> node w \<in> set (take head queue)" if "w @ [b] \<in> set L" for w b
    using inv that by (simp add: bfs_inv_def)
  have new: "child e \<notin> set queue" if "e \<in> set es" "parent e = ?n" for e
  proof -
    have "node (?u @ [edge_byte e]) = child e" "?u @ [edge_byte e] \<in> set L"
      using lab [OF that] node_label nth_mem by metis+
    with iff [of ?u "edge_byte e"] nh n(2) show ?thesis by simp
  qed
  obtain mq where run0: "foldM (visit_edge f (?n * width)) ?out (m1, queue) = Some mq"
    and J0: "edge_inv ?n m1 queue ?out mq"
    using visit_edges_ok [OF J n(1,2) f_def rowf1 cfq new] by blast
  define m2 where "m2 = fst mq"
  from J0 have mq: "mq = (m2, queue @ map child ?out)" by (simp add: edge_inv_def m2_def prod_eq_iff)
  note run = run0 [unfolded mq] and J2 = J0 [unfolded mq]
  let ?q = "queue @ map child ?out"
  have vis: "visit_node es starts counts ?n (m, queue) = Some (m2, ?q)"
    using n(1,3) w m1(1) run out_edges [OF n(1)] array_lengths
    by (simp add: visit_node_def Let_def link_ok_def f_def [symmetric])
  have tk: "take (Suc head) ?q = take head queue @ [?n]" using h by (simp add: take_Suc_conv_app_nth)
  have fr2: "frame_ok m2" and lk2: "\<forall>k \<in> set ?q. link_ok m2 k"
    and d2: "\<And>s y. s < ?N \<Longrightarrow> s \<noteq> ?n \<Longrightarrow> y < width \<Longrightarrow> delta m2 s y = delta m1 s y"
    and r2: "\<And>b. delta m2 ?n (syms ! of_char b) = (if b \<in> edge_byte ` set ?out then node (?u @ [b])
         else node (lss (set L) (fail_of (set L) ?u @ [b])))"
    using J2 by (auto simp: edge_inv_def)
  have rows: "row_ok m2 k" if "k \<in> insert 0 (set (take (Suc head) ?q))" for k
  proof (cases "k = ?n")
    case True
    then show ?thesis using node_row_final [OF n(1,2) r2] by simp
  next
    case False
    then have k: "k \<in> insert 0 (set (take head queue))" using that unfolding tk by auto
    then have "k < ?N" using inv root_label by (auto simp: bfs_inv_def dest: in_set_takeD)
    moreover have "row_ok m k" using k inv unfolding bfs_inv_def by blast
    ultimately show ?thesis using False d1 d2 symbol_bound by (simp add: row_ok_def)
  qed
  have "bfs_inv (Suc head) m2 ?q" using inv h fr2 lk2 rows new by (rule bfs_inv_step)
  with vis show ?thesis by blast
qed

section \<open>The whole search\<close>

lemma queue_bound:
  assumes "bfs_inv head m queue"
  shows "length queue < length L"
proof -
  have "x \<noteq> 0 \<and> x < length L" if "x \<in> set queue" for x
    using assms that root_label by (cases x) (auto simp: bfs_inv_def)
  then have "set queue \<subseteq> {1..<length L}" by (auto simp: Suc_le_eq)
  then have "card (set queue) \<le> card {1..<length L}" by (intro card_mono) auto
  moreover have "card (set queue) = length queue" using assms by (simp add: bfs_inv_def distinct_card)
  moreover have "length L \<noteq> 0" using root_label by simp
  ultimately show ?thesis unfolding card_atLeastLessThan by linarith
qed

lemma bfs_ok:
  assumes "bfs_inv head m queue" "length L \<le> fuel + head"
  shows "\<exists>m' queue'. bfs fuel es starts counts head (m, queue) = Some m' \<and>
    bfs_inv (length queue') m' queue'"
  using assms
proof (induction fuel arbitrary: head m queue)
  case 0
  then show ?case using queue_bound [OF 0(1)] by (auto simp: bfs_inv_def)
next
  case (Suc fuel)
  show ?case
  proof (cases "head < length queue")
    case True
    then obtain m1 q1 where "visit_node es starts counts (queue ! head) (m, queue) = Some (m1, q1)"
      "bfs_inv (Suc head) m1 q1" using visit_node_ok [OF Suc.prems(1)] by blast
    then show ?thesis using Suc.IH [of "Suc head" m1 q1] Suc.prems(2) True by simp
  next
    case False
    then have "head = length queue" using Suc.prems(1) by (simp add: bfs_inv_def)
    then show ?thesis using Suc.prems(1) by auto
  qed
qed

lemma bfs_complete:
  assumes "bfs_inv (length queue) m queue"
  shows "w \<in> set L \<Longrightarrow> w \<noteq> [] \<Longrightarrow> node w \<in> set queue"
proof (induction w rule: rev_induct)
  case (snoc b w)
  have "w \<in> set L" using snoc.prems(1) prefix_closedD [OF labels_closed] by blast
  then show ?case using snoc assms by (auto simp: bfs_inv_def)
qed simp

definition tables_ok :: "Matcher \<Rightarrow> bool" where
  "tables_ok m \<longleftrightarrow> table_ok (length L) m \<and> symbols m = syms \<and> stride m = width \<and> patternsAt m = terms \<and>
     length (dictLink m) = length L \<and> (\<forall>w \<in> set L. row_ok m (node w)) \<and>
     (\<forall>w \<in> set L. dictLink m ! node w = link_code (dict_of S w))"

lemma bfs_result:
  assumes "bfs_inv (length queue) m queue"
  shows "tables_ok (m\<lparr>failure := []\<rparr>)"
proof -
  have 1: "row_ok m (node w) \<and> dictLink m ! node w = link_code (dict_of S w)" if "w \<in> set L" for w
  proof (cases "w = []")
    case True
    then show ?thesis using assms node_Nil by (auto simp: bfs_inv_def frame_ok_def dict_of_def link_code_def)
  next
    case False
    then have "node w \<in> set queue" using bfs_complete [OF assms] that by blast
    then show ?thesis using assms label_node [OF that] by (auto simp: bfs_inv_def link_ok_def)
  qed
  have d: "delta (m\<lparr>failure := []\<rparr>) = delta m"
    by (intro ext) (simp add: delta_def transition_def Let_def split: option.split)
  have t: "table_ok (length L) (m\<lparr>failure := []\<rparr>) = table_ok (length L) m"
    by (simp add: table_ok_def split: option.split)
  show ?thesis using 1 assms unfolding tables_ok_def row_ok_def d t
    by (simp add: bfs_inv_def frame_ok_def)
qed

section \<open>The root and the initial queue\<close>

definition root_inv :: "trieEdge list \<Rightarrow> Matcher \<times> nat list \<Rightarrow> bool" where
  "root_inv ys mq \<longleftrightarrow> snd mq = map child ys \<and> frame_ok (fst mq) \<and>
     failure (fst mq) = replicate (length L) 0 \<and> dictLink (fst mq) = replicate (length L) (- 1) \<and>
     (\<forall>b. delta (fst mq) 0 (syms ! of_char b) = (if b \<in> edge_byte ` set ys then node [b] else 0))"

lemma root_edges_ok:
  assumes "root_inv [] (m, [])"
  shows "\<exists>mq. foldM visit_root_edge (filter (\<lambda>e. parent e = 0) es) (m, []) = Some mq \<and>
    root_inv (filter (\<lambda>e. parent e = 0) es) mq"
proof (rule foldM_rule)
  show "root_inv [] (m, [])" by (rule assms)
next
  fix ys e mq assume pre: "prefix (ys @ [e]) (filter (\<lambda>e. parent e = 0) es)" and I: "root_inv ys mq"
  obtain m1 q1 where mq: "mq = (m1, q1)" by (cases mq)
  have e: "e \<in> set es" "parent e = 0" using set_mono_prefix [OF pre] by auto
  have lab: "child e < length L" "L ! child e = [edge_byte e]" using edge_label [OF e(1)] e(2) root_label by auto
  have fr: "frame_ok m1" using I by (simp add: root_inv_def mq)
  then have f: "table_ok (length L) m1" "symbols m1 = syms" "stride m1 = width" by (auto simp: frame_ok_def)
  have "0 < length L" using root_label by simp
  with f obtain m2 where m2: "setTransition m1 (0 * stride m1 + syms ! of_char (edge_byte e)) (child e) = Some m2"
    "table_ok (length L) m2" "same_frame m1 m2"
    and d2: "\<And>s z. s < length L \<Longrightarrow> z < width \<Longrightarrow>
      delta m2 s z = (if s = 0 \<and> z = syms ! of_char (edge_byte e) then child e else delta m1 s z)"
    using setTransition_ok [OF f(1), of 0 "syms ! of_char (edge_byte e)" "child e"] symbol_bound lab(1) by auto
  have run: "visit_root_edge e mq = Some (m2, q1 @ [child e])"
    using m2(1) f(2) symbol_count by (simp add: visit_root_edge_def mq)
  have c: "child e = node [edge_byte e]" using lab node_label by metis
  have "delta m2 0 (syms ! of_char b) = (if b \<in> edge_byte ` set (ys @ [e]) then node [b] else 0)" for b
    using d2 [OF \<open>0 < length L\<close> symbol_bound, of b] c edge_symbol [OF e(1), of b] I
    by (cases "b = edge_byte e") (auto simp: root_inv_def mq)
  then have "root_inv (ys @ [e]) (m2, q1 @ [child e])"
    using I m2(2,3) fr by (auto simp: root_inv_def mq frame_ok_def same_frame_def)
  with run show "\<exists>t'. visit_root_edge e mq = Some t' \<and> root_inv (ys @ [e]) t'" by blast
qed

lemma root_inv_bfs:
  assumes "root_inv (filter (\<lambda>e. parent e = 0) es) (m, queue)"
  shows "bfs_inv 0 m queue"
proof -
  let ?out = "filter (\<lambda>e. parent e = 0) es"
  have q: "queue = map child ?out" and fr: "frame_ok m" using assms by (auto simp: root_inv_def)
  have N: "0 < length L" using root_label by simp
  have lab: "child e < length L \<and> L ! child e = [edge_byte e]" if "e \<in> set ?out" for e
    using edge_label that root_label by auto
  have one: "length (L ! n) = 1" "n < length L" "tl (L ! n) = []" "L ! n \<noteq> []" if "n \<in> set queue" for n
    using that lab by (auto simp: q)
  have fl: "failure m = replicate (length L) 0" "dictLink m = replicate (length L) (- 1)"
    using assms by (auto simp: root_inv_def)
  have links: "link_ok m n" if "n \<in> set queue" for n
    using one [OF that] fl node_Nil
    by (simp add: link_ok_def fail_of_def dict_of_def link_code_def)
  have iff: "node (w @ [b]) \<in> set queue \<longleftrightarrow> w = []" if "w @ [b] \<in> set L" for w b
    using out_edge_iff [OF N that] root_label by (simp add: q)
  have row0: "row_ok m 0"
    unfolding row_ok_def
  proof
    fix b
    have d: "delta m 0 (syms ! of_char b) = (if b \<in> edge_byte ` set ?out then node [b] else 0)"
      using assms by (simp add: root_inv_def)
    have "b \<in> edge_byte ` set ?out \<longleftrightarrow> [b] \<in> set L"
    proof
      assume "[b] \<in> set L"
      then obtain e where e: "e \<in> set es" "L ! parent e = []" "edge_byte e = b" using edge_exists [of "[]" b] by auto
      then have "parent e = 0" using edge_label [OF e(1)] node_label node_Nil by metis
      with e show "b \<in> edge_byte ` set ?out" by auto
    next
      assume "b \<in> edge_byte ` set ?out"
      then show "[b] \<in> set L" using lab nth_mem by fastforce
    qed
    with d node_Nil root_label show "delta m 0 (syms ! of_char b) = node (lss (set L) (L ! 0 @ [b]))" by simp
  qed
  have "map (\<lambda>n. length (L ! n)) queue = replicate (length queue) 1"
    using one(1) by (simp add: map_replicate_const [symmetric])
  then have "sorted (map (\<lambda>n. length (L ! n)) queue)" by simp
  moreover have "distinct queue" unfolding q using edge_children by (rule distinct_map_filter)
  ultimately show ?thesis using fr one links iff row0 by (auto simp: bfs_inv_def)
qed

lemma buildDirect_ok:
  assumes "symbols m = syms" "stride m = width" "patternsAt m = terms"
    "failure m = replicate (length L) 0" "dictLink m = replicate (length L) (- 1)"
    "next_wide m = None" "next16 m = None"
  shows "\<exists>m'. buildDirect es starts counts m = Some m' \<and> tables_ok m'"
proof -
  let ?N = "length L" and ?t = "replicate (length L * width) (0::nat)"
  define m0 where "m0 = (if ?N \<le> maxNarrowStates then m\<lparr>next16 := Some ?t\<rparr> else m\<lparr>next_wide := Some ?t\<rparr>)"
  have N: "0 < ?N" using root_label by simp
  have m0: "symbols m0 = syms" "stride m0 = width" "patternsAt m0 = terms"
    "failure m0 = replicate ?N 0" "dictLink m0 = replicate ?N (- 1)" "table_ok ?N m0"
    using assms by (auto simp: m0_def table_ok_def maxNarrowStates_def)
  have "delta m0 0 y = 0" if "y < width" for y
    using that N assms row_index_less [OF N that] by (auto simp: delta_def m0_def transition_def)
  then have "root_inv [] (m0, [])"
    using m0 N symbol_bound by (simp add: root_inv_def frame_ok_def)
  then obtain mq where root: "foldM visit_root_edge (filter (\<lambda>e. parent e = 0) es) (m0, []) = Some mq"
    "root_inv (filter (\<lambda>e. parent e = 0) es) mq" using root_edges_ok by blast
  then have "bfs_inv 0 (fst mq) (snd mq)" using root_inv_bfs by simp
  from bfs_ok [OF this, of ?N] obtain m1 queue where
    m1: "bfs ?N es starts counts 0 mq = Some m1" "bfs_inv (length queue) m1 queue" by auto
  have "slicei es 0 (counts ! 0) = Some (filter (\<lambda>e. parent e = 0) es)"
    using out_edges [OF N] root_start by simp
  then have "buildDirect es starts counts m = Some (m1\<lparr>failure := []\<rparr>)"
    using root(1) m1(1) array_lengths N assms(2,3)
    by (simp add: buildDirect_def Let_def m0_def [symmetric])
  with bfs_result [OF m1(2)] show ?thesis by blast
qed

end

end
