(* ===== verification/AhoCorasickCorrect.thy ===== *)
theory AhoCorasickCorrect
  imports AhoCorasickTable "HOL-Library.Multiset"
begin

text \<open>
  Correctness of the keyword matcher: \<open>New\<close> never panics, and the queries of the automaton it
  returns agree with naive search. The trie construction provides the interface
  \<open>labelled_trie\<close> (interpretation \<open>built\<close>); the table construction and the queries rest on it.
\<close>

section \<open>Naive search, the reference\<close>

definition reference_hits :: "bytes list \<Rightarrow> bytes \<Rightarrow> Hit list" where
  "reference_hits patterns data =
     concat (map (\<lambda>i. map (\<lambda>pid. Hit pid i)
               (suffix_ids (ids_of patterns [0..<length patterns]) (take (Suc i) data)))
       [0..<length data])"

section \<open>Queries over a labelled trie\<close>

locale indexed_trie = labelled_trie +
  fixes ids :: "bytes \<Rightarrow> nat list"
  assumes terminals: "n < length L \<Longrightarrow> terms ! n = ids (L ! n)"
    and word_iff: "v \<noteq> [] \<Longrightarrow> v \<in> S \<longleftrightarrow> ids v \<noteq> []"
begin

lemma prefix_label: "w \<in> set L \<Longrightarrow> prefix v w \<Longrightarrow> v \<in> set L"
proof (induction w rule: rev_induct)
  case (snoc b w)
  then show ?case using prefix_closedD [OF labels_closed, of w b] by auto
qed simp

lemma label_depth: "u \<in> set L \<Longrightarrow> length u < length L"
proof -
  assume u: "u \<in> set L"
  have "card (set (prefixes u)) \<le> card (set L)"
    using prefix_label [OF u] by (intro card_mono) auto
  then show ?thesis
    using distinct_card [OF distinct_prefixes, of u] card_length [of L] by simp
qed

lemma step_byte_ok:
  assumes "tables_ok m"
  shows "step_byte m (node (lss (set L) w)) b = Some (node (lss (set L) (w @ [b])))"
proof -
  let ?s = "node (lss (set L) w)"
  have s: "?s < length L" "L ! ?s = lss (set L) w" using label_node [OF state_label] by auto
  have m: "table_ok (length L) m" "symbols m = syms" "stride m = width" "row_ok m ?s"
    using assms state_label by (auto simp: tables_ok_def)
  have "transition m ?s (syms ! of_char b) = Some (node (lss (set L) (lss (set L) w @ [b])))"
    using transition_ok [OF m(1) s(1)] m(3,4) symbol_bound s(2) by (simp add: row_ok_def)
  then show ?thesis
    using lss_snoc [OF labels_closed, of w b] m(2) symbol_count by (simp add: step_byte_def)
qed

lemma link_ids_ok:
  assumes "tables_ok m"
  shows "u \<in> set L \<Longrightarrow> length u < fuel \<Longrightarrow> link_ids fuel m (int (node u)) = Some (suffix_ids ids u)"
proof (induction fuel arbitrary: u)
  case (Suc fuel)
  have n: "node u < length L" "L ! node u = u" using label_node [OF Suc.prems(1)] by auto
  have m: "patternsAt m = terms" "length (dictLink m) = length L"
    "dictLink m ! node u = link_code (dict_of S u)" using assms Suc.prems(1) by (auto simp: tables_ok_def)
  show ?case
  proof (cases "u = []")
    case True
    then show ?thesis using node_Nil by simp
  next
    case False
    then have "node u \<noteq> 0" using n(2) root_label by metis
    moreover have "ids u = terms ! node u" using terminals [OF n(1)] n(2) by simp
    moreover have "link_ids fuel m (int (node v)) = Some (suffix_ids ids v)" if "dict_of S u = Some v" for v
    proof (rule Suc.IH)
      show "v \<in> set L" using that words_labels by (auto simp: dict_of_def dest: lps_Some)
      show "length v < fuel" using dict_of_shorter [OF that False] Suc.prems(2) by simp
    qed
    ultimately show ?thesis
      using m n(1) array_lengths suffix_ids_dict [OF word_iff False]
      by (auto simp: link_code_def split: option.splits)
  qed
qed simp

lemma state_ids_ok:
  assumes "tables_ok m"
  shows "link_ids (length (patternsAt m)) m (int (node (lss (set L) w))) = Some (suffix_ids ids w)"
proof -
  have "length (patternsAt m) = length L" using assms array_lengths by (simp add: tables_ok_def)
  moreover have "suffix_ids ids w = suffix_ids ids (lss (set L) w)"
    using word_iff words_labels by (intro suffix_ids_lss) auto
  ultimately show ?thesis
    using link_ids_ok [OF assms state_label] label_depth [OF state_label] by simp
qed

lemma visit_from_ok:
  assumes "tables_ok m"
  shows "visit_from m i (node (lss (set L) w)) bs =
    Some (concat (map (\<lambda>k. map (\<lambda>pid. Hit pid (i + k)) (suffix_ids ids (w @ take (Suc k) bs))) [0..<length bs]))"
proof (induction bs arbitrary: i w)
  case (Cons b bs)
  show ?case
    using step_byte_ok [OF assms] state_ids_ok [OF assms] Cons [of "Suc i" "w @ [b]"]
    by (simp add: comp_def upt_0_Suc del: upt_Suc)
qed simp

lemma walk_ok:
  assumes "tables_ok m"
  shows "matcher_walk m (node (lss (set L) w)) bs so =
    Some (foldl mark_id so (concat (map (\<lambda>k. suffix_ids ids (w @ take (Suc k) bs)) [0..<length bs])))"
proof (induction bs arbitrary: w so)
  case (Cons b bs)
  show ?case
    using step_byte_ok [OF assms] state_ids_ok [OF assms] Cons [of "w @ [b]"]
    by (simp add: comp_def upt_0_Suc del: upt_Suc)
qed simp

end

section \<open>The symbol table\<close>

lemma fold_symbols:
  assumes "distinct al" "\<forall>a \<in> set al. a < length init" "k \<le> length al"
  shows "length (foldl (\<lambda>syms i. syms[al ! i := i]) init [0..<k]) = length init \<and>
    (\<forall>i < k. foldl (\<lambda>syms i. syms[al ! i := i]) init [0..<k] ! (al ! i) = i) \<and>
    (\<forall>n < length init. n \<notin> set (take k al) \<longrightarrow>
       foldl (\<lambda>syms i. syms[al ! i := i]) init [0..<k] ! n = init ! n)"
  using assms(3)
proof (induction k)
  case (Suc k)
  have k: "al ! k < length init" using Suc.prems assms(2) by simp
  have ne: "al ! i \<noteq> al ! k" if "i < k" for i
    using Suc.prems that assms(1) by (simp add: nth_eq_iff_index_eq)
  show ?case using Suc k ne ne [symmetric] by (auto simp: nth_list_update less_Suc_eq take_Suc_conv_app_nth)
qed simp

lemma symbol_table_ok:
  assumes "distinct al" "\<forall>a \<in> set al. a < 256" "symbol_table al = (syms, w)"
  shows "length syms = 256 \<and> (\<forall>n < 256. syms ! n < w) \<and> (\<forall>y < w. \<exists>n < 256. syms ! n = y) \<and>
    (\<forall>a < 256. \<forall>b < 256. syms ! a = syms ! b \<longrightarrow> a = b \<or> a \<notin> set al \<and> b \<notin> set al)"
proof (cases "length al = 256")
  case True
  then show ?thesis using assms(3) by (auto simp: symbol_table_def)
next
  case False
  let ?k = "length al"
  have w: "w = ?k + 1" and syms: "syms = foldl (\<lambda>syms i. syms[al ! i := i]) (replicate 256 ?k) [0..<?k]"
    using assms(3) False by (auto simp: symbol_table_def)
  have len: "length syms = 256" and known: "\<And>i. i < ?k \<Longrightarrow> syms ! (al ! i) = i"
    and other: "\<And>n. n < 256 \<Longrightarrow> n \<notin> set al \<Longrightarrow> syms ! n = ?k"
    using fold_symbols [OF assms(1), of "replicate 256 ?k" ?k] assms(2) unfolding syms by auto
  have "card (set al) \<noteq> card {..<256::nat}" using distinct_card [OF assms(1)] False by simp
  then have "set al \<noteq> {..<256}" by metis
  then obtain u where u: "u < 256" "u \<notin> set al" using assms(2) by blast
  have "\<exists>n < 256. syms ! n = y" if "y < w" for y
  proof (cases "y < ?k")
    case True
    then show ?thesis using known assms(2) by (metis nth_mem)
  next
    case False
    then show ?thesis using that w other [OF u] u(1) by (metis add.commute less_Suc_eq plus_1_eq_Suc)
  qed
  moreover have bound: "syms ! n < w \<and> (n \<in> set al \<longrightarrow> syms ! n < ?k \<and> al ! (syms ! n) = n)" if "n < 256" for n
    using known other [OF that] w by (cases "n \<in> set al") (auto simp: in_set_conv_nth)
  moreover have "a = b \<or> a \<notin> set al \<and> b \<notin> set al" if "a < 256" "b < 256" "syms ! a = syms ! b" for a b
    using bound [OF that(1)] bound [OF that(2)] that other by (metis less_irrefl)
  ultimately show ?thesis using len by blast
qed

section \<open>The trie of a pattern list provides the interface\<close>

definition state_count :: "bytes list \<Rightarrow> nat" where
  "state_count patterns = count_states patterns None (pattern_order patterns) 1"

definition built_trie :: "bytes list \<Rightarrow> trie_build" where
  "built_trie patterns =
     the (foldM (insert_pattern patterns) (pattern_order patterns) (init_build (state_count patterns)))"

definition trie_labels :: "bytes list \<Rightarrow> bytes list" where
  "trie_labels patterns = (SOME L. length L = state_count patterns \<and>
     (\<exists>s. trie_ok (state_count patterns) L (prefs patterns (pattern_order patterns))
        (ids_of patterns (pattern_order patterns)) s (built_trie patterns)))"

definition sorted_edges :: "bytes list \<Rightarrow> trieEdge list" where
  "sorted_edges patterns = sort_key (\<lambda>e. (parent e, edge_byte e)) (edges (built_trie patterns))"

definition edge_start_table :: "bytes list \<Rightarrow> nat list" where
  "edge_start_table patterns = the (edge_starts (state_count patterns) (sorted_edges patterns))"

lemma built_trie_ok:
  "foldM (insert_pattern patterns) (pattern_order patterns) (init_build (state_count patterns))
     = Some (built_trie patterns)"
  "nextNode (built_trie patterns) = state_count patterns"
  "length (trie_labels patterns) = state_count patterns"
  "\<exists>s. trie_ok (state_count patterns) (trie_labels patterns) (prefs patterns (pattern_order patterns))
     (ids_of patterns (pattern_order patterns)) s (built_trie patterns)"
proof -
  obtain st L s where st:
    "foldM (insert_pattern patterns) (pattern_order patterns) (init_build (state_count patterns)) = Some st"
    "length L = state_count patterns" "nextNode st = state_count patterns"
    "trie_ok (state_count patterns) L (prefs patterns (pattern_order patterns)) (ids_of patterns (pattern_order patterns)) s st"
    using build_trie_ok [of patterns] unfolding state_count_def by blast
  then have eq: "built_trie patterns = st" by (simp add: built_trie_def)
  with st show "foldM (insert_pattern patterns) (pattern_order patterns) (init_build (state_count patterns))
     = Some (built_trie patterns)" "nextNode (built_trie patterns) = state_count patterns" by auto
  have "\<exists>L. length L = state_count patterns \<and> (\<exists>s. trie_ok (state_count patterns) L
      (prefs patterns (pattern_order patterns)) (ids_of patterns (pattern_order patterns)) s (built_trie patterns))"
    using st eq by blast
  from someI_ex [OF this]
  show "length (trie_labels patterns) = state_count patterns"
    "\<exists>s. trie_ok (state_count patterns) (trie_labels patterns) (prefs patterns (pattern_order patterns))
       (ids_of patterns (pattern_order patterns)) s (built_trie patterns)"
    unfolding trie_labels_def by auto
qed

lemma sorted_edges_parents: "sorted (map parent (sorted_edges patterns))"
proof -
  have "sorted (map (\<lambda>e. (parent e, edge_byte e)) (sorted_edges patterns))" by (simp add: sorted_edges_def)
  then show ?thesis
    unfolding sorted_map by (rule sorted_wrt_mono_rel [rotated]) (auto simp: less_eq_prod_def)
qed

lemma sorted_edges_filter:
  "length (filter P (sorted_edges patterns)) = length (filter P (edges (built_trie patterns)))"
proof -
  have "mset (filter P (sorted_edges patterns)) = mset (filter P (edges (built_trie patterns)))"
    by (simp add: sorted_edges_def)
  then show ?thesis by (rule mset_eq_length)
qed

definition pattern_words :: "bytes list \<Rightarrow> bytes set" where
  "pattern_words patterns = {w. ids_of patterns (pattern_order patterns) w \<noteq> []}"

lemma pattern_ids: "w \<noteq> [] \<Longrightarrow> ids_of patterns (pattern_order patterns) w = ids_of patterns [0..<length patterns] w"
proof (rule sorted_distinct_set_unique)
  have "sorted_wrt (\<lambda>i j. (patterns ! i, i) \<le> (patterns ! j, j)) (ids_of patterns (pattern_order patterns) w)"
    by (intro sorted_wrt_filter pattern_order_sorted)
  then show "sorted (ids_of patterns (pattern_order patterns) w)"
    by (rule sorted_wrt_mono_rel [rotated]) (auto simp: less_eq_prod_def)
qed (auto simp: pattern_order_distinct pattern_order_set sorted_wrt_filter)

lemma alphabet_ok:
  "distinct (alphabet_of patterns)" "\<forall>a \<in> set (alphabet_of patterns). a < 256"
  "of_char b \<in> set (alphabet_of patterns) \<longleftrightarrow> b \<in> set (concat patterns)"
  by (auto simp: alphabet_of_def)

lemma label_bytes: "w @ [b] \<in> prefs patterns (pattern_order patterns) \<Longrightarrow> b \<in> set (concat patterns)"
  by (auto simp: prefs_def pattern_order_set dest!: set_mono_prefix)

lemma built_trie_interface:
  "indexed_trie (trie_labels patterns) (pattern_words patterns) (sorted_edges patterns)
     (edge_start_table patterns) (edgeCount (built_trie patterns)) (fst (symbol_table (alphabet_of patterns)))
     (snd (symbol_table (alphabet_of patterns))) (terminals (built_trie patterns))
     (ids_of patterns (pattern_order patterns))"
proof -
  let ?L = "trie_labels patterns" and ?N = "state_count patterns" and ?es = "edges (built_trie patterns)"
  let ?P = "prefs patterns (pattern_order patterns)" and ?ses = "sorted_edges patterns"
  obtain s where ok: "trie_ok ?N ?L ?P (ids_of patterns (pattern_order patterns)) s (built_trie patterns)"
    using built_trie_ok(4) by blast
  have N: "length ?L = ?N" by (rule built_trie_ok(3))
  have L: "distinct ?L" "set ?L = ?P" "edges_ok ?L ?es" using ok by (auto simp: trie_ok_def)
  have set_es: "set ?ses = set ?es" by (simp add: sorted_edges_def)
  have edge: "child e < length ?L \<and> parent e < length ?L \<and> ?L ! child e = ?L ! parent e @ [edge_byte e]"
    if "e \<in> set ?ses" for e
    using that L(3) unfolding set_es by (fastforce simp: edges_ok_def in_set_conv_nth)
  have "map child ?es = [1..<length ?L]"
    using L(3) by (intro nth_equalityI) (auto simp: edges_ok_def simp del: upt_Suc)
  then have dc: "distinct (map child ?es)" by simp
  have "mset (map child ?ses) = mset (map child ?es)" by (simp add: sorted_edges_def)
  then have dcs: "distinct (map child ?ses)" using dc mset_eq_imp_distinct_iff by blast
  have ex: "\<exists>e \<in> set ?ses. ?L ! parent e = w \<and> edge_byte e = b" if "w @ [b] \<in> set ?L" for w b
  proof -
    obtain n where n: "n < length ?L" "?L ! n = w @ [b]" using \<open>w @ [b] \<in> set ?L\<close> by (auto simp: in_set_conv_nth)
    then obtain k where k: "n = Suc k" using L(3) by (cases n) (auto simp: edges_ok_def)
    then have "?es ! k \<in> set ?ses" "?L ! parent (?es ! k) @ [edge_byte (?es ! k)] = w @ [b]"
      using n L(3) unfolding set_es by (auto simp: edges_ok_def)
    then show ?thesis by auto
  qed
  have "\<forall>e \<in> set ?ses. parent e < ?N" using edge N by auto
  then obtain starts where starts: "edge_starts ?N ?ses = Some starts" "length starts = ?N"
    "\<And>n. n < ?N \<Longrightarrow> starts ! n = (if \<exists>e \<in> set ?ses. parent e = n then length (filter (\<lambda>e. parent e < n) ?ses) else 0)"
    using edge_starts_ok [OF sorted_edges_parents] by blast
  then have st: "edge_start_table patterns = starts" by (simp add: edge_start_table_def)
  have cnt: "edgeCount (built_trie patterns) ! n = length (filter (\<lambda>e. parent e = n) ?ses)" if "n < ?N" for n
    using ok that by (simp add: trie_ok_def out_degree_def sorted_edges_filter)
  have slice: "slicei ?ses (starts ! n) (starts ! n + edgeCount (built_trie patterns) ! n)
      = Some (filter (\<lambda>e. parent e = n) ?ses)" if "n < length ?L" for n
  proof (cases "\<exists>e \<in> set ?ses. parent e = n")
    case True
    then show ?thesis
      using that sorted_slice [OF sorted_edges_parents, of patterns n] starts(3) [of n] cnt [of n] N by simp
  next
    case False
    then have "filter (\<lambda>e. parent e = n) ?ses = []" by (auto simp: filter_empty_conv)
    then show ?thesis using that starts(3) [of n] cnt [of n] N False by (simp add: slicei_def)
  qed
  have N0: "0 < ?N" using N L(3) by (auto simp: edges_ok_def)
  obtain syms w where sw: "symbol_table (alphabet_of patterns) = (syms, w)" by (cases "symbol_table (alphabet_of patterns)")
  note sym = symbol_table_ok [OF alphabet_ok(1,2) sw]
  have surj: "\<exists>b. syms ! of_char b = y" if "y < w" for y
  proof -
    obtain n where n: "n < 256" "syms ! n = y" using sym \<open>y < w\<close> by blast
    then have "syms ! of_char (char_of n :: char) = y" by (simp add: of_char_of)
    then show ?thesis by blast
  qed
  have inj: "b = c \<or> (\<forall>v. v @ [b] \<notin> set ?L \<and> v @ [c] \<notin> set ?L)" if "syms ! of_char b = syms ! of_char c" for b c
  proof -
    have "(of_char b :: nat) = of_char c \<or> of_char b \<notin> set (alphabet_of patterns) \<and> of_char c \<notin> set (alphabet_of patterns)"
      using sym that of_char_less_256 by blast
    then show ?thesis using label_bytes [of _ b patterns] label_bytes [of _ c patterns]
      unfolding alphabet_ok(3) L(2) by auto
  qed
  have words: "pattern_words patterns \<subseteq> ?P" "[] \<notin> pattern_words patterns"
    by (auto simp: pattern_words_def filter_empty_conv prefs_member pattern_order_set)
  have terms: "terminals (built_trie patterns) ! n = ids_of patterns (pattern_order patterns) (?L ! n)"
    if "n < length ?L" for n using ok that N by (simp add: trie_ok_def)
  have lens: "length (terminals (built_trie patterns)) = length ?L" "length (edgeCount (built_trie patterns)) = length ?L"
    using ok N by (simp_all add: trie_ok_def)
  have start0: "starts ! 0 = 0" using starts(3) [OF N0] by auto
  have root: "?L \<noteq> [] \<and> ?L ! 0 = []" using L(3) by (auto simp: edges_ok_def)
  show ?thesis
  proof (unfold_locales, goal_cases)
    case (14 b) then show ?case using sym sw by simp
  next
    case (15 y) then show ?case using surj sw by simp
  next
    case (16 b c) then show ?case using inj sw by simp
  qed (use N L prefs_closed words terms lens starts(2) start0 root st slice edge ex dcs sym sw in
        \<open>auto simp: pattern_words_def\<close>)
qed

interpretation built: indexed_trie "trie_labels patterns" "pattern_words patterns" "sorted_edges patterns"
  "edge_start_table patterns" "edgeCount (built_trie patterns)" "fst (symbol_table (alphabet_of patterns))"
  "snd (symbol_table (alphabet_of patterns))" "terminals (built_trie patterns)"
  "ids_of patterns (pattern_order patterns)" for patterns
  by (rule built_trie_interface)

section \<open>The number of patterns is recorded\<close>

lemma setTransition_numPatterns: "setTransition m i v = Some m' \<Longrightarrow> numPatterns m' = numPatterns m"
  by (auto simp: setTransition_def split: option.splits)

lemma visit_edge_numPatterns: "visit_edge f row e mq = Some mq' \<Longrightarrow> numPatterns (fst mq') = numPatterns (fst mq)"
  by (auto simp: visit_edge_def bind_eq_Some_conv split: prod.splits if_splits dest: setTransition_numPatterns)

lemma visit_root_edge_numPatterns:
  "visit_root_edge e mq = Some mq' \<Longrightarrow> numPatterns (fst mq') = numPatterns (fst mq)"
  by (auto simp: visit_root_edge_def bind_eq_Some_conv split: prod.splits dest: setTransition_numPatterns)

lemma copy_row_numPatterns: "copy_row f row m = Some m' \<Longrightarrow> numPatterns m' = numPatterns m"
  unfolding copy_row_def
  by (rule foldM_preserves [where g = numPatterns])
    (auto simp: bind_eq_Some_conv dest: setTransition_numPatterns)

lemma visit_edges_numPatterns:
  "foldM (visit_edge f row) out mq = Some mq' \<Longrightarrow> numPatterns (fst mq') = numPatterns (fst mq)"
  by (rule foldM_preserves [where g = "\<lambda>mq. numPatterns (fst mq)"]) (rule visit_edge_numPatterns)

lemma visit_root_edges_numPatterns:
  "foldM visit_root_edge out mq = Some mq' \<Longrightarrow> numPatterns (fst mq') = numPatterns (fst mq)"
  by (rule foldM_preserves [where g = "\<lambda>mq. numPatterns (fst mq)"]) (rule visit_root_edge_numPatterns)

lemma visit_node_numPatterns:
  assumes "visit_node es starts counts n mq = Some mq'"
  shows "numPatterns (fst mq') = numPatterns (fst mq)"
proof -
  obtain f m1 out where step: "copy_row f (n * stride (fst mq)) (fst mq) = Some m1"
    "foldM (visit_edge f (n * stride (fst mq))) out (m1, snd mq) = Some mq'"
    using assms by (cases mq) (auto simp: visit_node_def bind_eq_Some_conv Let_def)
  show ?thesis using visit_edges_numPatterns [OF step(2)] copy_row_numPatterns [OF step(1)] by simp
qed

lemma bfs_numPatterns: "bfs fuel es starts counts h mq = Some m \<Longrightarrow> numPatterns m = numPatterns (fst mq)"
proof (induction fuel arbitrary: h mq)
  case (Suc fuel)
  show ?case
  proof (cases "h < length (snd mq)")
    case True
    then obtain mq' where step: "visit_node es starts counts (snd mq ! h) mq = Some mq'"
      "bfs fuel es starts counts (Suc h) mq' = Some m" using Suc.prems by (auto split: option.splits)
    show ?thesis using Suc.IH [OF step(2)] visit_node_numPatterns [OF step(1)] by simp
  next
    case False
    then show ?thesis using Suc.prems by simp
  qed
qed simp

lemma buildDirect_numPatterns:
  assumes "buildDirect es starts counts m = Some m'"
  shows "numPatterns m' = numPatterns m"
proof -
  let ?table = "replicate (length (patternsAt m) * stride m) 0"
  let ?m0 = "if length (patternsAt m) \<le> maxNarrowStates then m\<lparr>next16 := Some ?table\<rparr> else m\<lparr>next_wide := Some ?table\<rparr>"
  obtain rootEdges mq m1 where step: "foldM visit_root_edge rootEdges (?m0, []) = Some mq"
    "bfs (length (patternsAt m)) es starts counts 0 mq = Some m1" "m' = m1\<lparr>failure := []\<rparr>"
    using assms by (auto simp only: buildDirect_def bind_eq_Some_conv Let_def option.inject)
  show ?thesis
    using visit_root_edges_numPatterns [OF step(1)] bfs_numPatterns [OF step(2)] step(3) by simp
qed

section \<open>Construction and queries\<close>

lemma New_ok: "\<exists>m. New patterns = Some m \<and> built.tables_ok patterns m \<and> numPatterns m = length patterns"
proof -
  obtain syms w where sw: "symbol_table (alphabet_of patterns) = (syms, w)" by (cases "symbol_table (alphabet_of patterns)")
  let ?m = "\<lparr>failure = replicate (state_count patterns) 0, dictLink = replicate (state_count patterns) (- 1),
      patternsAt = terminals (built_trie patterns), numPatterns = length patterns, symbols = syms,
      next_wide = None, next16 = None, stride = w\<rparr>"
  have "\<exists>m'. buildDirect (sorted_edges patterns) (edge_start_table patterns) (edgeCount (built_trie patterns)) ?m = Some m'
      \<and> built.tables_ok patterns m'"
    using sw built_trie_ok(3) by (intro built.buildDirect_ok) simp_all
  then obtain m' where m': "buildDirect (sorted_edges patterns) (edge_start_table patterns)
      (edgeCount (built_trie patterns)) ?m = Some m'" "built.tables_ok patterns m'" by blast
  have "parent e < state_count patterns" if "e \<in> set (sorted_edges patterns)" for e
    using built.edge_label [OF that] built_trie_ok(3) by simp
  then have "edge_starts (state_count patterns) (sorted_edges patterns) = Some (edge_start_table patterns)"
    using edge_starts_ok [OF sorted_edges_parents, of patterns "state_count patterns"]
    by (auto simp: edge_start_table_def)
  then have "New patterns = Some m'"
    using built_trie_ok(1,2) [of patterns] m'(1) sw
    unfolding New_def newDirect_def Let_def state_count_def [symmetric]
    by (simp add: init_build_def sorted_edges_def)
  then show ?thesis using m'(2) buildDirect_numPatterns [OF m'(1)] by simp
qed

lemma start_state: "built.node patterns (lss (set (trie_labels patterns)) []) = 0"
  by (simp add: built.node_Nil)

lemma suffix_ids_cong: "(\<And>v. v \<noteq> [] \<Longrightarrow> f v = g v) \<Longrightarrow> suffix_ids f w = suffix_ids g w"
  by (induction w) auto

lemma reported_ids:
  "suffix_ids (ids_of patterns (pattern_order patterns)) w = suffix_ids (ids_of patterns [0..<length patterns]) w"
  by (rule suffix_ids_cong) (rule pattern_ids)

lemma VisitHits_of_tables:
  assumes "built.tables_ok patterns m"
  shows "VisitHits m data = Some (reference_hits patterns data)"
  using built.visit_from_ok [OF assms, of 0 "[]" data]
  by (simp add: VisitHits_def reference_hits_def start_state [simplified] reported_ids)

lemma suffix_ids_member:
  "pid \<in> set (suffix_ids (ids_of patterns [0..<length patterns]) w) \<longleftrightarrow>
     pid < length patterns \<and> patterns ! pid \<noteq> [] \<and> suffix (patterns ! pid) w"
  by (auto simp: suffix_ids_set)

lemma reference_hits_set:
  "set (reference_hits patterns data) =
     {Hit pid e | pid e. pid < length patterns \<and> patterns ! pid \<noteq> [] \<and> e < length data \<and>
       suffix (patterns ! pid) (take (Suc e) data)}"
  by (auto simp: reference_hits_def suffix_ids_member simp del: upt_Suc)

lemma sorted_concat_blocks:
  "sorted (map f (concat (map (\<lambda>i. map (\<lambda>x. g x i) (h i)) [0..<n])))" if "\<And>x i. f (g x i) = (i :: nat)"
proof (induction n)
  case (Suc n)
  have "sorted (map f (map (\<lambda>x. g x n) (h n)))" using that by (simp add: comp_def map_replicate_const)
  with Suc show ?case using that by (auto simp: sorted_append simp del: map_map)
qed simp

lemma reference_hits_sorted: "sorted (map End (reference_hits patterns data))"
  unfolding reference_hits_def by (rule sorted_concat_blocks) simp

text \<open>C4. The automaton reports exactly the hits of naive search, in the same order: \<open>New\<close> does not
  panic, \<open>VisitHits\<close> does not panic or run out of turns, and for every input position in order it
  reports the identifiers of the patterns that end there, longest pattern first and equal patterns
  in caller order.\<close>

theorem VisitHits_reference:
  "\<exists>m. New patterns = Some m \<and> (\<forall>data. VisitHits m data = Some (reference_hits patterns data))"
  using New_ok [of patterns] VisitHits_of_tables by metis

text \<open>Soundness and completeness of the reported hits: a hit \<open>(pid, e)\<close> is reported exactly when
  the non-empty pattern number \<open>pid\<close> ends at byte \<open>e\<close> of the input, and hits are reported in
  ascending order of their end offsets.\<close>

theorem VisitHits_exact:
  "\<exists>m. New patterns = Some m \<and> (\<forall>data. \<exists>hits. VisitHits m data = Some hits \<and> sorted (map End hits) \<and>
     set hits = {Hit pid e | pid e. pid < length patterns \<and> patterns ! pid \<noteq> [] \<and> e < length data \<and>
       suffix (patterns ! pid) (take (Suc e) data)})"
proof -
  obtain m where m: "New patterns = Some m" "built.tables_ok patterns m" using New_ok by blast
  have "VisitHits m data = Some (reference_hits patterns data)" for data
    by (rule VisitHits_of_tables [OF m(2)])
  with m(1) show ?thesis using reference_hits_sorted reference_hits_set by blast
qed

section \<open>The de-duplicated match\<close>

lemma mark_id_length: "length (fst (foldl mark_id so ids)) = length (fst so)"
  by (induction ids arbitrary: so) (auto simp: mark_id_def)

lemma foldl_mark_id:
  assumes "\<forall>p < length seen. seen ! p \<longleftrightarrow> p \<in> set out" "distinct out"
  shows "distinct (snd (foldl mark_id (seen, out) ids)) \<and>
    set (snd (foldl mark_id (seen, out) ids)) = set out \<union> {p \<in> set ids. p < length seen}"
  using assms
proof (induction ids arbitrary: seen out)
  case (Cons p ids)
  show ?case
  proof (cases "p < length seen \<and> \<not> seen ! p")
    case True
    then have "mark_id (seen, out) p = (seen[p := True], out @ [p])" by (simp add: mark_id_def)
    moreover have "\<forall>q < length (seen[p := True]). seen[p := True] ! q \<longleftrightarrow> q \<in> set (out @ [p])"
      using Cons.prems(1) True by (auto simp: nth_list_update)
    moreover have "distinct (out @ [p])" using Cons.prems True by auto
    ultimately show ?thesis using Cons.IH [of "seen[p := True]" "out @ [p]"] True by auto
  next
    case False
    then have "mark_id (seen, out) p = (seen, out)" by (auto simp: mark_id_def)
    moreover have "p < length seen \<Longrightarrow> p \<in> set out" using False Cons.prems(1) by auto
    ultimately show ?thesis using Cons.IH [OF Cons.prems] by auto
  qed
qed simp

lemma sublist_ends:
  assumes "p \<noteq> []"
  shows "(\<exists>k < length data. suffix p (take (Suc k) data)) \<longleftrightarrow> sublist p data"
proof
  assume "\<exists>k < length data. suffix p (take (Suc k) data)"
  then show "sublist p data" using suffix_imp_sublist sublist_take sublist_order.order.trans by blast
next
  assume "sublist p data"
  then obtain u v where d: "data = u @ p @ v" by (auto simp: sublist_def)
  obtain k where k: "length (u @ p) = Suc k" using assms by (cases "length (u @ p)") auto
  then have "take (Suc k) data = u @ p" "k < length data" using d by (auto simp flip: k) (use k in simp)
  then show "\<exists>k < length data. suffix p (take (Suc k) data)" by (metis suffixI)
qed

lemma Match_of_tables:
  assumes "built.tables_ok patterns m" "numPatterns m = length patterns"
  shows "\<exists>ids. Match m data = Some ids \<and> distinct ids \<and>
    set ids = {pid. pid < length patterns \<and> patterns ! pid \<noteq> [] \<and> sublist (patterns ! pid) data}"
proof (cases "data = []")
  case True
  then show ?thesis by (auto simp: Match_def)
next
  case False
  let ?ids = "concat (map (\<lambda>k. suffix_ids (ids_of patterns [0..<length patterns]) (take (Suc k) data)) [0..<length data])"
  have "Match m data = Some (snd (foldl mark_id (replicate (length patterns) False, []) ?ids))"
    using built.walk_ok [OF assms(1), of "[]" data] False assms(2)
    by (simp add: Match_def start_state [simplified] reported_ids)
  moreover have "pid \<in> set ?ids \<longleftrightarrow> pid < length patterns \<and> patterns ! pid \<noteq> [] \<and> sublist (patterns ! pid) data" for pid
    using sublist_ends [of "patterns ! pid" data]
    by (simp add: suffix_ids_member del: upt_Suc) (meson atLeastLessThan_iff le0)
  ultimately show ?thesis
    using foldl_mark_id [of "replicate (length patterns) False" "[]" ?ids] by auto
qed

text \<open>\<open>Match\<close> returns every pattern that occurs in the input, and only those, once each: no
  panic, no duplicates, and an identifier is in the answer exactly when its pattern is non-empty
  and is a contiguous part of the input.\<close>

theorem Match_exact:
  "\<exists>m. New patterns = Some m \<and> (\<forall>data. \<exists>ids. Match m data = Some ids \<and> distinct ids \<and>
     set ids = {pid. pid < length patterns \<and> patterns ! pid \<noteq> [] \<and> sublist (patterns ! pid) data})"
  using New_ok [of patterns] Match_of_tables [of patterns] by blast

end
