(* ===== verification/Utf8.thy ===== *)
theory Utf8
  imports Prelude
begin

text \<open>
  UTF-8 as the Go language and its package \<^verbatim>\<open>unicode/utf8\<close> define it: decoding one rune from the
  front of a byte string (an ill-formed sequence gives U+FFFD with width 1), encoding one rune
  (a surrogate or out-of-range value gives U+FFFD), and the conversions \<^verbatim>\<open>[]rune(s)\<close> and
  \<^verbatim>\<open>string(runes)\<close> built from them. The redaction, terminal-safety and decoder components use it.
\<close>

type_synonym rune = nat

definition RuneError :: rune where
  "RuneError = 0xFFFD"

definition valid_rune :: "rune \<Rightarrow> bool" where
  "valid_rune r \<longleftrightarrow> r < 0xD800 \<or> 0xE000 \<le> r \<and> r \<le> 0x10FFFF"

abbreviation code :: "byte \<Rightarrow> nat" where
  "code b \<equiv> of_char b"

definition continuation :: "byte \<Rightarrow> bool" where
  "continuation b \<longleftrightarrow> 0x80 \<le> code b \<and> code b \<le> 0xBF"

text \<open>The range of the second byte, by the first byte: it rules out over-long forms, surrogates and
  values beyond U+10FFFF.\<close>

definition second_ok :: "nat \<Rightarrow> byte \<Rightarrow> bool" where
  "second_ok c0 b \<longleftrightarrow>
     (if c0 = 0xE0 then 0xA0 \<le> code b \<and> code b \<le> 0xBF
      else if c0 = 0xED then 0x80 \<le> code b \<and> code b \<le> 0x9F
      else if c0 = 0xF0 then 0x90 \<le> code b \<and> code b \<le> 0xBF
      else if c0 = 0xF4 then 0x80 \<le> code b \<and> code b \<le> 0x8F
      else continuation b)"

definition decode_rune :: "bytes \<Rightarrow> rune \<times> nat" where
  "decode_rune s =
     (case s of
        [] \<Rightarrow> (RuneError, 0)
      | b0 # s1 \<Rightarrow>
        (let c0 = code b0 in
         if c0 < 0x80 then (c0, 1)
         else if 0xC2 \<le> c0 \<and> c0 \<le> 0xDF then
           (case s1 of
              b1 # _ \<Rightarrow> if continuation b1 then ((c0 - 0xC0) * 64 + (code b1 - 0x80), 2) else (RuneError, 1)
            | _ \<Rightarrow> (RuneError, 1))
         else if 0xE0 \<le> c0 \<and> c0 \<le> 0xEF then
           (case s1 of
              b1 # b2 # _ \<Rightarrow>
                if second_ok c0 b1 \<and> continuation b2
                then ((c0 - 0xE0) * 4096 + (code b1 - 0x80) * 64 + (code b2 - 0x80), 3) else (RuneError, 1)
            | _ \<Rightarrow> (RuneError, 1))
         else if 0xF0 \<le> c0 \<and> c0 \<le> 0xF4 then
           (case s1 of
              b1 # b2 # b3 # _ \<Rightarrow>
                if second_ok c0 b1 \<and> continuation b2 \<and> continuation b3
                then ((c0 - 0xF0) * 262144 + (code b1 - 0x80) * 4096 + (code b2 - 0x80) * 64 + (code b3 - 0x80), 4)
                else (RuneError, 1)
            | _ \<Rightarrow> (RuneError, 1))
         else (RuneError, 1)))"

definition encode_valid :: "rune \<Rightarrow> bytes" where
  "encode_valid r =
     (if r < 0x80 then [char_of r]
      else if r < 0x800 then [char_of (0xC0 + r div 64), char_of (0x80 + r mod 64)]
      else if r < 0x10000 then
        [char_of (0xE0 + r div 4096), char_of (0x80 + r div 64 mod 64), char_of (0x80 + r mod 64)]
      else
        [char_of (0xF0 + r div 262144), char_of (0x80 + r div 4096 mod 64),
         char_of (0x80 + r div 64 mod 64), char_of (0x80 + r mod 64)])"

definition encode_rune :: "rune \<Rightarrow> bytes" where
  "encode_rune r = encode_valid (if valid_rune r then r else RuneError)"

lemma decode_width: "s \<noteq> [] \<Longrightarrow> 0 < snd (decode_rune s) \<and> snd (decode_rune s) \<le> length s"
  by (auto simp: decode_rune_def Let_def split: list.splits)

lemma decode_width_le_4: "snd (decode_rune s) \<le> 4"
  by (auto simp: decode_rune_def Let_def split: list.splits)

lemma encode_nonempty [simp]: "encode_rune r \<noteq> []"
  by (simp add: encode_rune_def encode_valid_def)

lemma encode_length_le_4: "length (encode_rune r) \<le> 4"
  by (simp add: encode_rune_def encode_valid_def)

lemma decode_ascii [simp]: "code b < 0x80 \<Longrightarrow> decode_rune (b # s) = (code b, 1)"
  by (simp add: decode_rune_def)

lemma valid_RuneError [simp]: "valid_rune RuneError"
  by (simp add: valid_rune_def RuneError_def)

text \<open>Bytes built from codes below 256.\<close>

lemma code_char_of: "n < 256 \<Longrightarrow> code (char_of n :: byte) = n"
  by (simp add: of_char_of)

lemma decode_2:
  assumes "0x80 \<le> r" "r < 0x800"
  shows "decode_rune (encode_valid r @ s) = (r, 2)"
proof -
  have "r div 64 < 32" "2 \<le> r div 64" using assms by (simp_all add: less_mult_imp_div_less div_le_mono [of 128 r 64, simplified])
  then show ?thesis
    using assms by (auto simp: encode_valid_def decode_rune_def Let_def code_char_of continuation_def)
qed

lemma base64_digits:
  fixes r :: nat
  obtains p c b where "r = p * 4096 + c * 64 + b" "c < 64" "b < 64"
    "r div 4096 = p" "r div 64 mod 64 = c" "r mod 64 = b"
proof (rule that)
  have "r div 64 = r div 4096 * 64 + r div 64 mod 64"
    using div_mult_mod_eq [of "r div 64" 64] by (simp add: div_mult2_eq [of r 64 64, simplified])
  then have "r div 64 * 64 = r div 4096 * 4096 + r div 64 mod 64 * 64" by simp
  moreover have "r = r div 64 * 64 + r mod 64" by simp
  ultimately show "r = r div 4096 * 4096 + r div 64 mod 64 * 64 + r mod 64" by simp
qed simp_all

lemma decode_bytes_3:
  assumes "p < 16" "c < 64" "b < 64" "p = 0 \<Longrightarrow> 32 \<le> c" "p = 13 \<Longrightarrow> c < 32"
  shows "decode_rune (char_of (0xE0 + p) # char_of (0x80 + c) # char_of (0x80 + b) # s) = (p * 4096 + c * 64 + b, 3)"
proof -
  have "second_ok (0xE0 + p) (char_of (0x80 + c))"
    using assms by (auto simp: second_ok_def continuation_def code_char_of)
  moreover have "continuation (char_of (0x80 + b))" using assms by (simp add: continuation_def code_char_of)
  ultimately show ?thesis using assms(1-3) by (simp add: decode_rune_def Let_def code_char_of)
qed

lemma decode_bytes_4:
  assumes "q < 5" "c < 64" "d < 64" "b < 64" "q = 0 \<Longrightarrow> 16 \<le> c" "q = 4 \<Longrightarrow> c < 16"
  shows "decode_rune (char_of (0xF0 + q) # char_of (0x80 + c) # char_of (0x80 + d) # char_of (0x80 + b) # s)
    = (q * 262144 + c * 4096 + d * 64 + b, 4)"
proof -
  have "second_ok (0xF0 + q) (char_of (0x80 + c))"
    using assms by (auto simp: second_ok_def continuation_def code_char_of)
  moreover have "continuation (char_of (0x80 + d))" "continuation (char_of (0x80 + b))"
    using assms by (simp_all add: continuation_def code_char_of)
  ultimately show ?thesis using assms(1-4) by (simp add: decode_rune_def Let_def code_char_of)
qed

lemma decode_3:
  assumes "0x800 \<le> r" "r < 0x10000" "valid_rune r"
  shows "decode_rune (encode_valid r @ s) = (r, 3)"
proof -
  obtain p c b where r: "r = p * 4096 + c * 64 + b" "c < 64" "b < 64"
    and q: "r div 4096 = p" "r div 64 mod 64 = c" "r mod 64 = b" by (rule base64_digits)
  have "p < 16" "p = 0 \<Longrightarrow> 32 \<le> c" using assms(1,2) r by linarith+
  moreover have "p = 13 \<Longrightarrow> c < 32" using assms(3) r unfolding valid_rune_def by linarith
  moreover have "encode_valid r = [char_of (0xE0 + p), char_of (0x80 + c), char_of (0x80 + b)]"
    using assms(1,2) unfolding encode_valid_def q by simp
  ultimately show ?thesis using decode_bytes_3 [of p c b s] r by simp
qed

lemma decode_4:
  assumes "0x10000 \<le> r" "valid_rune r"
  shows "decode_rune (encode_valid r @ s) = (r, 4)"
proof -
  obtain p d b where r: "r = p * 4096 + d * 64 + b" "d < 64" "b < 64"
    and q: "r div 4096 = p" "r div 64 mod 64 = d" "r mod 64 = b" by (rule base64_digits)
  have p: "p = p div 64 * 64 + p mod 64" "p mod 64 < 64" "r div 262144 = p div 64" "r div 4096 mod 64 = p mod 64"
    using div_mult2_eq [of r 4096 64] q(1) by simp_all
  have "r < 0x110000" using assms by (auto simp: valid_rune_def)
  then have "p div 64 < 5" "p div 64 = 4 \<Longrightarrow> p mod 64 < 16" "p div 64 = 0 \<Longrightarrow> 16 \<le> p mod 64"
    using assms(1) r p(1,2) by linarith+
  moreover have "encode_valid r = [char_of (0xF0 + p div 64), char_of (0x80 + p mod 64), char_of (0x80 + d), char_of (0x80 + b)]"
    using assms(1) unfolding encode_valid_def q p(3) by simp
  moreover have "p div 64 * 262144 + p mod 64 * 4096 + d * 64 + b = r" using r(1) p(1) by linarith
  ultimately show ?thesis using decode_bytes_4 [of "p div 64" "p mod 64" d b s] r(2,3) p(2) by simp
qed

lemma decode_encode: "valid_rune r \<Longrightarrow> decode_rune (encode_rune r @ s) = (r, length (encode_rune r))"
proof -
  assume v: "valid_rune r"
  consider "r < 0x80" | "0x80 \<le> r" "r < 0x800" | "0x800 \<le> r" "r < 0x10000" | "0x10000 \<le> r" by linarith
  then show ?thesis
  proof cases
    case 1
    then show ?thesis using v by (simp add: encode_rune_def encode_valid_def code_char_of)
  qed (use v decode_2 decode_3 decode_4 in \<open>simp_all add: encode_rune_def, simp_all add: encode_valid_def\<close>)
qed

section \<open>Whole strings\<close>

function runes_of :: "bytes \<Rightarrow> rune list" where
  "runes_of s = (if s = [] then [] else fst (decode_rune s) # runes_of (drop (snd (decode_rune s)) s))"
  by auto
termination
  by (relation "measure length") (use decode_width in fastforce)+

declare runes_of.simps [simp del]

definition string_of_runes :: "rune list \<Rightarrow> bytes" where
  "string_of_runes rs = concat (map encode_rune rs)"

lemma runes_of_Nil [simp]: "runes_of [] = []"
  by (subst runes_of.simps) simp

lemma string_of_runes_Nil [simp]: "string_of_runes [] = []"
  by (simp add: string_of_runes_def)

lemma string_of_runes_Cons [simp]: "string_of_runes (r # rs) = encode_rune r @ string_of_runes rs"
  by (simp add: string_of_runes_def)

lemma string_of_runes_append [simp]: "string_of_runes (rs @ qs) = string_of_runes rs @ string_of_runes qs"
  by (simp add: string_of_runes_def)

lemma string_of_runes_length: "length (string_of_runes rs) \<le> 4 * length rs"
proof (induction rs)
  case (Cons r rs)
  then show ?case using encode_length_le_4 [of r] by simp
qed simp

lemma runes_of_encode: "valid_rune r \<Longrightarrow> runes_of (encode_rune r @ s) = r # runes_of s"
  using decode_encode [of r s] by (subst runes_of.simps) simp

lemma runes_of_string: "\<forall>r \<in> set rs. valid_rune r \<Longrightarrow> runes_of (string_of_runes rs) = rs"
  by (induction rs) (simp_all add: runes_of_encode)

end
