(* ===== verification/Detectors.thy ===== *)
theory Detectors
  imports Utf8
begin

text \<open>
  The shared detector layer of \<^verbatim>\<open>src/pkg/detectors\<close>: the result record with its verdict, severity
  and assurance (\<^verbatim>\<open>detectors.go\<close>), the registry (\<^verbatim>\<open>registry.go\<close>), the display masking that keeps
  raw secrets out of every output (\<^verbatim>\<open>redaction.go\<close>), the word-boundary prefilters (\<^verbatim>\<open>boundary.go\<close>),
  the keyword vicinity test (\<^verbatim>\<open>proximity.go\<close>) and the classification of verification responses
  (\<^verbatim>\<open>http.go\<close>). Regular expressions are parameters. A Go \<^verbatim>\<open>error\<close> is an optional message.
\<close>

section \<open>Detector types, severities, verdicts, assurance\<close>

text \<open>A detector type is its ordinal in the \<^verbatim>\<open>iota\<close> list; these are the ones the shared layer names.\<close>

type_synonym DetectorType = nat

definition JWT :: DetectorType where "JWT = 11"
definition PrivateKeyPEM :: DetectorType where "PrivateKeyPEM = 12"
definition GenericHighEntropy :: DetectorType where "GenericHighEntropy = 13"
definition PIIEmail :: DetectorType where "PIIEmail = 76"
definition PIIUSSSN :: DetectorType where "PIIUSSSN = 77"
definition PIICreditCard :: DetectorType where "PIICreditCard = 78"
definition PIIIBAN :: DetectorType where "PIIIBAN = 79"
definition PIIAnonymize :: DetectorType where "PIIAnonymize = 605"
definition PIIOpenAIPF :: DetectorType where "PIIOpenAIPF = 606"

datatype Severity =
  SeverityUnknown | SeverityInfo | SeverityLow | SeverityMedium | SeverityHigh | SeverityCritical

fun Severity_String :: "Severity \<Rightarrow> string" where
  "Severity_String SeverityCritical = ''critical''"
| "Severity_String SeverityHigh = ''high''"
| "Severity_String SeverityMedium = ''medium''"
| "Severity_String SeverityLow = ''low''"
| "Severity_String _ = ''info''"

fun severity_rank :: "Severity \<Rightarrow> nat" where
  "severity_rank SeverityUnknown = 0"
| "severity_rank SeverityInfo = 1"
| "severity_rank SeverityLow = 2"
| "severity_rank SeverityMedium = 3"
| "severity_rank SeverityHigh = 4"
| "severity_rank SeverityCritical = 5"

datatype VerificationAssurance =
  AssuranceUnknown | AssuranceHeuristic | AssuranceResponseConfirmed | AssuranceProviderConfirmed

fun assurance_rank :: "VerificationAssurance \<Rightarrow> nat" where
  "assurance_rank AssuranceUnknown = 0"
| "assurance_rank AssuranceHeuristic = 1"
| "assurance_rank AssuranceResponseConfirmed = 2"
| "assurance_rank AssuranceProviderConfirmed = 3"

fun Assurance_String :: "VerificationAssurance \<Rightarrow> string" where
  "Assurance_String AssuranceHeuristic = ''heuristic''"
| "Assurance_String AssuranceResponseConfirmed = ''response-confirmed''"
| "Assurance_String AssuranceProviderConfirmed = ''provider-confirmed''"
| "Assurance_String AssuranceUnknown = ''unknown''"

datatype Verdict = VerdictUnverified | VerdictVerified | VerdictIndeterminate

fun Verdict_String :: "Verdict \<Rightarrow> string" where
  "Verdict_String VerdictVerified = ''verified''"
| "Verdict_String VerdictIndeterminate = ''indeterminate''"
| "Verdict_String VerdictUnverified = ''unverified''"

instantiation Severity :: linorder
begin

definition less_eq_Severity :: "Severity \<Rightarrow> Severity \<Rightarrow> bool" where
  "s \<le> t \<longleftrightarrow> severity_rank s \<le> severity_rank t"

definition less_Severity :: "Severity \<Rightarrow> Severity \<Rightarrow> bool" where
  "s < t \<longleftrightarrow> severity_rank s < severity_rank t"

instance
proof
  fix s t :: Severity
  show "s \<le> t \<Longrightarrow> t \<le> s \<Longrightarrow> s = t"
    unfolding less_eq_Severity_def by (cases s; cases t; simp)
qed (auto simp: less_eq_Severity_def less_Severity_def)

end

instantiation VerificationAssurance :: linorder
begin

definition less_eq_VerificationAssurance :: "VerificationAssurance \<Rightarrow> VerificationAssurance \<Rightarrow> bool" where
  "a \<le> b \<longleftrightarrow> assurance_rank a \<le> assurance_rank b"

definition less_VerificationAssurance :: "VerificationAssurance \<Rightarrow> VerificationAssurance \<Rightarrow> bool" where
  "a < b \<longleftrightarrow> assurance_rank a < assurance_rank b"

instance
proof
  fix a b :: VerificationAssurance
  show "a \<le> b \<Longrightarrow> b \<le> a \<Longrightarrow> a = b"
    unfolding less_eq_VerificationAssurance_def by (cases a; cases b; simp)
qed (auto simp: less_eq_VerificationAssurance_def less_VerificationAssurance_def)

end

record Result =
  DetectorType :: DetectorType
  Verified :: bool
  VerificationErr :: "string option"
  VerificationAssurance :: VerificationAssurance
  Severity :: Severity
  Raw :: bytes
  RawV2 :: bytes
  Redacted :: string
  ExtraData :: "string \<rightharpoonup> string"

definition Verdict_of :: "Result \<Rightarrow> Verdict" where
  "Verdict_of r =
     (if Verified r then VerdictVerified
      else if VerificationErr r \<noteq> None then VerdictIndeterminate
      else VerdictUnverified)"

definition DefaultSeverity :: "DetectorType \<Rightarrow> bool \<Rightarrow> Severity" where
  "DefaultSeverity t verified =
     (if verified then SeverityCritical
      else if t = GenericHighEntropy then SeverityMedium
      else if t \<in> {JWT, PrivateKeyPEM} then SeverityMedium
      else if t \<in> {PIIEmail, PIIUSSSN, PIICreditCard, PIIIBAN, PIIAnonymize, PIIOpenAIPF} then SeverityMedium
      else SeverityHigh)"

definition DefaultSeverityForVerdict :: "DetectorType \<Rightarrow> Verdict \<Rightarrow> Severity" where
  "DefaultSeverityForVerdict t v =
     (if v = VerdictUnverified then DefaultSeverity t False else SeverityCritical)"

section \<open>The registry\<close>

text \<open>A detector is known to the registry by its type; \<^const>\<open>None\<close> is the panic on a duplicate.\<close>

definition Register :: "('d \<Rightarrow> DetectorType) \<Rightarrow> 'd \<Rightarrow> (DetectorType \<rightharpoonup> 'd) \<Rightarrow> (DetectorType \<rightharpoonup> 'd) option" where
  "Register type_of d registry =
     (if registry (type_of d) \<noteq> None then None else Some (registry(type_of d \<mapsto> d)))"

section \<open>Masking of raw secrets\<close>

definition containsSecret :: "string \<Rightarrow> bytes \<Rightarrow> bool" where
  "containsSecret candidate secret \<longleftrightarrow> secret \<noteq> [] \<and> bytes_contains candidate secret"

fun first_safe :: "bytes \<Rightarrow> bytes \<Rightarrow> string list \<Rightarrow> string" where
  "first_safe raw rawV2 [] = []"
| "first_safe raw rawV2 (marker # markers) =
     (if \<not> containsSecret marker raw \<and> \<not> containsSecret marker rawV2 then marker
      else first_safe raw rawV2 markers)"

definition safeMarker :: "bytes \<Rightarrow> bytes \<Rightarrow> string" where
  "safeMarker raw rawV2 = first_safe raw rawV2 [''***'', ''...'', ''(redacted)'', ''[hidden]'']"

definition Redact :: "bytes \<Rightarrow> bytes \<Rightarrow> string" where
  "Redact raw rawV2 =
     (let primary = (if raw = [] then rawV2 else raw) in
      if primary = [] then []
      else
        let runes = runes_of primary;
            candidate = (if 6 < length runes then string_of_runes (take 6 runes) @ ''...''
                         else safeMarker raw rawV2)
        in if containsSecret candidate raw \<or> containsSecret candidate rawV2
           then safeMarker raw rawV2 else candidate)"

definition SafeRedacted :: "string \<Rightarrow> bytes \<Rightarrow> bytes \<Rightarrow> string" where
  "SafeRedacted candidate raw rawV2 =
     (if candidate \<noteq> [] \<and> \<not> containsSecret candidate raw \<and> \<not> containsSecret candidate rawV2
      then candidate else Redact raw rawV2)"

definition Result_SafeRedacted :: "Result \<Rightarrow> string" where
  "Result_SafeRedacted r = SafeRedacted (Redacted r) (Raw r) (RawV2 r)"

definition SafeResults :: "Result list \<Rightarrow> Result list" where
  "SafeResults results = map (\<lambda>r. r\<lparr>Redacted := Result_SafeRedacted r\<rparr>) results"

section \<open>Word boundaries\<close>

definition isRE2WordByte :: "byte \<Rightarrow> bool" where
  "isRE2WordByte c \<longleftrightarrow>
     (CHR ''A'' \<le> c \<and> c \<le> CHR ''Z'') \<or> (CHR ''a'' \<le> c \<and> c \<le> CHR ''z'') \<or>
     (CHR ''0'' \<le> c \<and> c \<le> CHR ''9'') \<or> c = CHR ''_''"

text \<open>
  The compaction loop of \<^verbatim>\<open>FindAllLeftWordBoundary\<close>: the slice of match offsets the regular
  expression returned is rewritten in place while it is being read (\<open>rd\<close> is the loop
  position, \<open>wr\<close> the next free slot).
\<close>

definition left_free :: "bytes \<Rightarrow> nat \<times> nat \<Rightarrow> bool" where
  "left_free data index \<longleftrightarrow> \<not> (0 < fst index \<and> isRE2WordByte (data ! (fst index - 1)))"

fun compact_left :: "bytes \<Rightarrow> nat \<Rightarrow> nat \<Rightarrow> nat \<Rightarrow> (nat \<times> nat) list \<Rightarrow> (nat \<times> nat) list" where
  "compact_left data 0 rd wr indices = take wr indices"
| "compact_left data (Suc left) rd wr indices =
     (let index = indices ! rd in
      if \<not> left_free data index then compact_left data left (Suc rd) wr indices
      else compact_left data left (Suc rd) (Suc wr) (indices[wr := index]))"

definition FindAllLeftWordBoundary :: "(bytes \<Rightarrow> (nat \<times> nat) list) \<Rightarrow> bytes \<Rightarrow> (nat \<times> nat) list" where
  "FindAllLeftWordBoundary FindAllIndex data =
     (let indices = FindAllIndex data in compact_left data (length indices) 0 0 indices)"

function word_run_loop :: "bytes \<Rightarrow> bytes \<Rightarrow> nat \<Rightarrow> nat \<Rightarrow> bool" where
  "word_run_loop data pre totalLen offset =
     (if offset + length pre \<le> length data then
        (case bytes_index (drop offset data) pre of
           None \<Rightarrow> False
         | Some relative \<Rightarrow>
            (let start = offset + relative; fin = start + totalLen in
             if 0 < start \<and> isRE2WordByte (data ! (start - 1)) then word_run_loop data pre totalLen (start + 1)
             else if length data < fin then word_run_loop data pre totalLen (start + 1)
             else if list_all isRE2WordByte (slice (start + length pre) fin data) then True
             else word_run_loop data pre totalLen (start + 1)))
      else False)"
  by auto
termination
  by (relation "measure (\<lambda>(data, pre, totalLen, offset). Suc (length data) - offset)") auto

declare word_run_loop.simps [simp del]

definition HasWordRunCandidate :: "bytes \<Rightarrow> string \<Rightarrow> nat \<Rightarrow> bool" where
  "HasWordRunCandidate data pre totalLen =
     (if pre = [] \<or> totalLen < length pre \<or> length data < totalLen then False
      else word_run_loop data pre totalLen 0)"

section \<open>Keyword vicinity\<close>

text \<open>Offsets and the radius are non-negative in every call, so the lower clamp of
  \<^verbatim>\<open>start - radius\<close> is subtraction on \<^typ>\<open>nat\<close>.\<close>

definition near_window :: "string \<Rightarrow> nat \<Rightarrow> nat \<Rightarrow> nat \<Rightarrow> string" where
  "near_window lower start fin radius =
     slice (start - radius) (if length lower < fin + radius then length lower else fin + radius) lower"

definition NearKeywords :: "string \<Rightarrow> nat \<Rightarrow> nat \<Rightarrow> nat \<Rightarrow> string list \<Rightarrow> bool" where
  "NearKeywords lower start fin radius keywords =
     list_ex (\<lambda>kw. bytes_contains (near_window lower start fin radius) kw) keywords"

definition NearPattern :: "string \<Rightarrow> nat \<Rightarrow> nat \<Rightarrow> nat \<Rightarrow> (string \<Rightarrow> bool) \<Rightarrow> bool" where
  "NearPattern lower start fin radius MatchString = MatchString (near_window lower start fin radius)"

section \<open>Verification responses\<close>

definition isTransient :: "int \<Rightarrow> bool" where
  "isTransient status \<longleftrightarrow> status = 429 \<or> 500 \<le> status"

text \<open>The response is the status code, when there is one; the transport error comes first.\<close>

definition ClassifyVerifyHTTP ::
  "int option \<Rightarrow> string option \<Rightarrow> int list \<Rightarrow> int list \<Rightarrow> bool \<times> string option" where
  "ClassifyVerifyHTTP resp transportErr acceptCodes rejectCodes =
     (case transportErr of
        Some err \<Rightarrow> (False, Some err)
      | None \<Rightarrow>
        (case resp of
           None \<Rightarrow> (False, Some ''verify: missing HTTP response'')
         | Some status \<Rightarrow>
            if status \<in> set acceptCodes then (True, None)
            else if isTransient status then (False, Some (''verify: transient HTTP '' @ itoa status))
            else if status \<in> set rejectCodes then (False, None)
            else (False, Some (''verify: ambiguous HTTP '' @ itoa status))))"

text \<open>
  \<^verbatim>\<open>DecodeVerifyJSON\<close>: at most \<open>maxBytes + 1\<close> bytes of the body are read (\<open>body\<close> is the whole body and
  the error its reader would report before the end, if any); \<open>unmarshal\<close> is \<^verbatim>\<open>json.Unmarshal\<close>.
\<close>

definition DecodeVerifyJSON ::
  "(bytes \<times> string option) option \<Rightarrow> int \<Rightarrow> (bytes \<Rightarrow> string + 'v) \<Rightarrow> string + 'v" where
  "DecodeVerifyJSON body maxBytes unmarshal =
     (case body of
        None \<Rightarrow> Inl ''verify: missing response body''
      | Some (content, readErr) \<Rightarrow>
        if maxBytes \<le> 0 then Inl (''verify: invalid JSON response limit '' @ itoa maxBytes)
        else
          let payload = take (nat maxBytes + 1) content in
          case (if length content \<le> nat maxBytes then readErr else None) of
            Some err \<Rightarrow> Inl (''verify: read JSON response: '' @ err)
          | None \<Rightarrow>
            if nat maxBytes < length payload
            then Inl (''verify: JSON response exceeds '' @ itoa maxBytes @ '' bytes'')
            else (case unmarshal payload of
                    Inl err \<Rightarrow> Inl (''verify: decode JSON response: '' @ err)
                  | Inr v \<Rightarrow> Inr v))"

section \<open>Correctness: verdicts and severities\<close>

text \<open>No possibly-live credential is under-called: the severity the engine derives from a result's
  verdict is critical unless the provider (or the absence of verification) left the secret plainly
  unverified, it is never below medium, and an unverified result is never above high. In
  particular an indeterminate verification (an error and no confirmation) ranks with a verified one.\<close>

theorem severity_fails_closed:
  "(DefaultSeverityForVerdict t (Verdict_of r) = SeverityCritical
     \<longleftrightarrow> Verified r \<or> (\<exists>err. VerificationErr r = Some err)) \<and>
   SeverityMedium \<le> DefaultSeverityForVerdict t (Verdict_of r) \<and>
   (DefaultSeverityForVerdict t (Verdict_of r) \<le> SeverityHigh \<longleftrightarrow> Verdict_of r = VerdictUnverified)"
  by (auto simp: DefaultSeverityForVerdict_def DefaultSeverity_def Verdict_of_def less_eq_Severity_def)

section \<open>Correctness: masking\<close>

lemma first_safe_safe:
  "\<not> containsSecret (first_safe raw rawV2 ms) raw \<and> \<not> containsSecret (first_safe raw rawV2 ms) rawV2"
  by (induction ms) (auto simp: containsSecret_def go_bytes occurs_at_def)

lemma safeMarker_safe:
  "\<not> containsSecret (safeMarker raw rawV2) raw" "\<not> containsSecret (safeMarker raw rawV2) rawV2"
  using first_safe_safe unfolding safeMarker_def by blast+

lemma not_containsSecret_Nil [simp]: "\<not> containsSecret [] secret"
  by (auto simp: containsSecret_def go_bytes occurs_at_def)

lemma containsSecret_set: "containsSecret m s \<Longrightarrow> s \<noteq> [] \<and> set s \<subseteq> set m"
  by (auto simp: containsSecret_def bytes_contains_sublist dest: set_mono_sublist)

text \<open>Two secrets cannot spoil all four markers: the first two markers have no byte in common with
  each other or with the third.\<close>

lemma disjoint_markers:
  assumes "containsSecret m s" "set m \<inter> set m' = {}"
  shows "\<not> containsSecret m' s"
proof
  assume "containsSecret m' s"
  then show False using assms containsSecret_set [of m s] containsSecret_set [of m' s] by (cases s) auto
qed

lemma safeMarker_nonempty: "safeMarker raw rawV2 \<noteq> []"
proof
  assume empty: "safeMarker raw rawV2 = []"
  have spoiled: "containsSecret ''***'' raw \<or> containsSecret ''***'' rawV2"
    "containsSecret ''...'' raw \<or> containsSecret ''...'' rawV2"
    "containsSecret ''(redacted)'' raw \<or> containsSecret ''(redacted)'' rawV2"
    using empty by (auto simp: safeMarker_def split: if_splits)
  have "\<not> containsSecret ''...'' s" "\<not> containsSecret ''(redacted)'' s" if "containsSecret ''***'' s" for s
    by (rule disjoint_markers [OF that], simp)+
  moreover have "\<not> containsSecret ''(redacted)'' s" if "containsSecret ''...'' s" for s
    by (rule disjoint_markers [OF that], simp)
  ultimately show False using spoiled by blast
qed

lemma Redact_safe: "\<not> containsSecret (Redact raw rawV2) raw" "\<not> containsSecret (Redact raw rawV2) rawV2"
  using safeMarker_safe by (simp_all add: Redact_def Let_def not_containsSecret_Nil)

lemma Redact_nonempty: "raw \<noteq> [] \<or> rawV2 \<noteq> [] \<Longrightarrow> Redact raw rawV2 \<noteq> []"
  using safeMarker_nonempty by (auto simp: Redact_def Let_def)

text \<open>C7. A raw secret never reaches a display: the redacted form of a result contains neither its
  complete \<open>Raw\<close> nor its complete \<open>RawV2\<close>, whatever the detector supplied as its display, and a
  result that carries a secret still has a non-empty display.\<close>

theorem SafeRedacted_safe:
  "\<not> containsSecret (SafeRedacted candidate raw rawV2) raw \<and>
   \<not> containsSecret (SafeRedacted candidate raw rawV2) rawV2 \<and>
   (SafeRedacted candidate raw rawV2 = [] \<longleftrightarrow> candidate = [] \<and> raw = [] \<and> rawV2 = [])"
proof (intro conjI)
  show "\<not> containsSecret (SafeRedacted candidate raw rawV2) raw"
    "\<not> containsSecret (SafeRedacted candidate raw rawV2) rawV2"
    using Redact_safe by (auto simp: SafeRedacted_def)
  have "Redact [] [] = []" by (simp add: Redact_def)
  moreover have "\<not> containsSecret candidate []" by (simp add: containsSecret_def)
  ultimately show "SafeRedacted candidate raw rawV2 = [] \<longleftrightarrow> candidate = [] \<and> raw = [] \<and> rawV2 = []"
    using Redact_nonempty [of raw rawV2] by (auto simp: SafeRedacted_def)
qed

lemma safeMarker_length: "length (safeMarker raw rawV2) \<le> 10"
  by (simp add: safeMarker_def)

text \<open>Normalising a batch of results is a projection that only touches the display: a second pass
  changes nothing, every field but \<open>Redacted\<close> is kept, a display that was already safe and
  non-empty is kept, and a replaced display is at most 27 bytes long.\<close>

theorem SafeResults_projection:
  "SafeResults (SafeResults results) = SafeResults results \<and>
   map (\<lambda>r. r\<lparr>Redacted := []\<rparr>) (SafeResults results) = map (\<lambda>r. r\<lparr>Redacted := []\<rparr>) results \<and>
   length (Redact raw rawV2) \<le> 27"
proof (intro conjI)
  have "SafeRedacted (SafeRedacted c raw rawV2) raw rawV2 = SafeRedacted c raw rawV2" for c raw rawV2
    using Redact_safe [of raw rawV2] by (auto simp: SafeRedacted_def)
  then show "SafeResults (SafeResults results) = SafeResults results"
    by (simp add: SafeResults_def Result_SafeRedacted_def)
  show "map (\<lambda>r. r\<lparr>Redacted := []\<rparr>) (SafeResults results) = map (\<lambda>r. r\<lparr>Redacted := []\<rparr>) results"
    by (simp add: SafeResults_def)
  have "length (string_of_runes (take 6 rs)) \<le> 24" for rs
    using string_of_runes_length [of "take 6 rs"] by (simp add: min_def split: if_splits)
  then show "length (Redact raw rawV2) \<le> 27"
    using safeMarker_length [of raw rawV2] by (auto simp: Redact_def Let_def)
qed

section \<open>Correctness: word boundaries\<close>

lemma compact_left_filter:
  assumes "rd + left = length indices" "wr \<le> rd"
  shows "compact_left data left rd wr indices =
    take wr indices @ filter (left_free data) (drop rd indices)"
  using assms
proof (induction left arbitrary: rd wr indices)
  case (Suc left)
  have d: "drop rd indices = indices ! rd # drop (Suc rd) indices"
    using Suc.prems by (simp add: Cons_nth_drop_Suc)
  show ?case
  proof (cases "left_free data (indices ! rd)")
    case True
    let ?ix = "indices[wr := indices ! rd]"
    have "compact_left data left (Suc rd) (Suc wr) ?ix =
        take (Suc wr) ?ix @ filter (left_free data) (drop (Suc rd) ?ix)"
      using Suc.prems by (intro Suc.IH) auto
    moreover have "take (Suc wr) ?ix = take wr indices @ [indices ! rd]"
      using Suc.prems by (simp add: take_Suc_conv_app_nth)
    ultimately show ?thesis using True d Suc.prems by (simp add: drop_update_cancel)
  next
    case False
    then show ?thesis using Suc.IH [of "Suc rd" indices wr] d Suc.prems by (simp add: Let_def)
  qed
qed simp

text \<open>The in-place compaction of the match offsets is the plain filter: nothing is lost, repeated or
  reordered by writing into the slice that is being read.\<close>

theorem FindAllLeftWordBoundary_filter:
  "FindAllLeftWordBoundary FindAllIndex data =
     filter (\<lambda>(s, e). \<not> (0 < s \<and> isRE2WordByte (data ! (s - 1)))) (FindAllIndex data)"
proof -
  have "left_free data = (\<lambda>(s, e). \<not> (0 < s \<and> isRE2WordByte (data ! (s - 1))))"
    by (auto simp: left_free_def)
  then show ?thesis
    using compact_left_filter [of 0 "length (FindAllIndex data)" "FindAllIndex data" 0]
    by (simp add: FindAllLeftWordBoundary_def)
qed

text \<open>What the prefilter looks for: an occurrence of the prefix at a left word boundary that opens a run
  of word bytes of the whole length.\<close>

definition word_run_at :: "bytes \<Rightarrow> bytes \<Rightarrow> nat \<Rightarrow> nat \<Rightarrow> bool" where
  "word_run_at data pre totalLen start \<longleftrightarrow>
     occurs_at data pre start \<and> (start = 0 \<or> \<not> isRE2WordByte (data ! (start - 1))) \<and>
     start + totalLen \<le> length data \<and>
     list_all isRE2WordByte (slice (start + length pre) (start + totalLen) data)"

lemma occurs_at_drop: "offset \<le> length data \<Longrightarrow> occurs_at (drop offset data) pre i \<longleftrightarrow> occurs_at data pre (offset + i)"
  by (auto simp: occurs_at_def add.commute add.left_commute)

lemma word_run_loop_spec:
  "word_run_loop data pre totalLen offset \<longleftrightarrow> (\<exists>start \<ge> offset. word_run_at data pre totalLen start)"
proof (induction data pre totalLen offset rule: word_run_loop.induct)
  case (1 data pre totalLen offset)
  show ?case
  proof (cases "offset + length pre \<le> length data")
    case False
    then have "\<not> word_run_at data pre totalLen start" if "offset \<le> start" for start
      using that by (auto simp: word_run_at_def occurs_at_def)
    with False show ?thesis by (subst word_run_loop.simps) auto
  next
    case in_range: True
    show ?thesis
    proof (cases "bytes_index (drop offset data) pre")
      case None
      then have "\<not> occurs_at data pre start" if "offset \<le> start" for start
        using that in_range occurs_at_drop [of offset data pre "start - offset"] by (simp add: bytes_index_None)
      then show ?thesis using in_range None by (subst word_run_loop.simps) (auto simp: word_run_at_def)
    next
      case (Some relative)
      let ?s = "offset + relative"
      have at: "occurs_at data pre ?s" and before: "\<And>j. j < relative \<Longrightarrow> \<not> occurs_at data pre (offset + j)"
        using Some in_range by (auto simp: bytes_index_Some occurs_at_drop)
      have skip: "(\<exists>start \<ge> offset. word_run_at data pre totalLen start) \<longleftrightarrow>
          word_run_at data pre totalLen ?s \<or> (\<exists>start \<ge> ?s + 1. word_run_at data pre totalLen start)"
      proof -
        have "?s \<le> start" if "offset \<le> start" "word_run_at data pre totalLen start" for start
          using that before [of "start - offset"] by (fastforce simp: word_run_at_def)
        then have first: "start = ?s \<or> ?s + 1 \<le> start" if "offset \<le> start" "word_run_at data pre totalLen start" for start
          using that by fastforce
        show ?thesis
        proof
          assume "\<exists>start \<ge> offset. word_run_at data pre totalLen start"
          then show "word_run_at data pre totalLen ?s \<or> (\<exists>start \<ge> ?s + 1. word_run_at data pre totalLen start)"
            using first by blast
        next
          assume "word_run_at data pre totalLen ?s \<or> (\<exists>start \<ge> ?s + 1. word_run_at data pre totalLen start)"
          moreover have "offset \<le> start" if "?s + 1 \<le> start" for start using that by simp
          ultimately show "\<exists>start \<ge> offset. word_run_at data pre totalLen start" using le_add1 by blast
        qed
      qed
      note IH = "1.IH" [OF in_range Some refl refl]
      show ?thesis
        using IH at Some in_range unfolding skip
        by (subst word_run_loop.simps) (auto simp: word_run_at_def Let_def)
    qed
  qed
qed

text \<open>The word-run prefilter answers exactly whether the input has a candidate: for a non-empty prefix
  not longer than the run, some occurrence of the prefix stands at a left word boundary and is
  continued by word bytes to the full length. The overlapping rescan from the byte after each
  occurrence misses nothing, and the loop ends.\<close>

theorem HasWordRunCandidate_iff:
  "HasWordRunCandidate data pre totalLen \<longleftrightarrow>
     pre \<noteq> [] \<and> length pre \<le> totalLen \<and> (\<exists>start. word_run_at data pre totalLen start)"
  by (auto simp: HasWordRunCandidate_def word_run_loop_spec word_run_at_def)

section \<open>Correctness: verification responses\<close>

text \<open>A verification response is a confirmation only when the provider answered with an accepted status,
  and a clean rejection only for a declared, non-transient status; everything else (no response,
  transport failure, rate limit, server error, undeclared status) carries an error and so yields
  the indeterminate verdict.\<close>

theorem ClassifyVerifyHTTP_cases:
  "(ClassifyVerifyHTTP resp err accept reject = (True, None) \<longleftrightarrow>
     err = None \<and> (\<exists>c. resp = Some c \<and> c \<in> set accept)) \<and>
   (ClassifyVerifyHTTP resp err accept reject = (False, None) \<longleftrightarrow>
     err = None \<and> (\<exists>c. resp = Some c \<and> c \<notin> set accept \<and> c \<in> set reject \<and> c \<noteq> 429 \<and> c < 500)) \<and>
   (\<forall>m. ClassifyVerifyHTTP resp err accept reject \<noteq> (True, Some m))"
  by (auto simp: ClassifyVerifyHTTP_def isTransient_def split: option.splits)

end
