(* ===== verification/Sources.thy ===== *)
theory Sources
  imports Detectors
begin

text \<open>
  The data that flows through a scan: chunks with their provenance (\<^verbatim>\<open>src/pkg/sources/sources.go\<close>),
  the source registry (\<^verbatim>\<open>registry.go\<close>) and the findings of \<^verbatim>\<open>src/pkg/engine/engine.go\<close>. A pointer to
  a metadata struct is an option; the fields of each struct carry a prefix naming the struct. The
  lazy opener of a chunk (file I/O) is not part of the record: a model of an operation that uses it
  takes the opened body as an argument.
\<close>

datatype SourceType =
  SourceUnknown | SourceFilesystem | SourceGit | SourceGitHub | SourceGitLab | SourceS3 | SourceGCS
| SourceSlack | SourceJira | SourceConfluence | SourceAzureBlob | SourceBitbucket | SourceNotion
| SourceStdin | SourceForgejo | SourceGitea | SourceGogs | SourceGitbucket | SourceCodeberg
| SourceOneDev | SourceCodebase | SourcePagure | SourceDatadog | SourceSplunk | SourceBigQuery
| SourceRedash | SourceSQLDump | SourceDockerImage | SourceElasticsearch | SourceJenkins
| SourcePostman | SourceHuggingFace | SourceCircleCI

fun SourceType_String :: "SourceType \<Rightarrow> string" where
  "SourceType_String SourceFilesystem = ''filesystem''"
| "SourceType_String SourceGit = ''git''"
| "SourceType_String SourceGitHub = ''github''"
| "SourceType_String SourceGitLab = ''gitlab''"
| "SourceType_String SourceS3 = ''s3''"
| "SourceType_String SourceGCS = ''gcs''"
| "SourceType_String SourceSlack = ''slack''"
| "SourceType_String SourceJira = ''jira''"
| "SourceType_String SourceConfluence = ''confluence''"
| "SourceType_String SourceAzureBlob = ''azure-blob''"
| "SourceType_String SourceBitbucket = ''bitbucket''"
| "SourceType_String SourceNotion = ''notion''"
| "SourceType_String SourceStdin = ''stdin''"
| "SourceType_String SourceForgejo = ''forgejo''"
| "SourceType_String SourceGitea = ''gitea''"
| "SourceType_String SourceGogs = ''gogs''"
| "SourceType_String SourceGitbucket = ''gitbucket''"
| "SourceType_String SourceCodeberg = ''codeberg''"
| "SourceType_String SourceOneDev = ''onedev''"
| "SourceType_String SourceCodebase = ''codebase''"
| "SourceType_String SourcePagure = ''pagure''"
| "SourceType_String SourceDatadog = ''datadog''"
| "SourceType_String SourceSplunk = ''splunk''"
| "SourceType_String SourceBigQuery = ''bigquery''"
| "SourceType_String SourceRedash = ''redash''"
| "SourceType_String SourceSQLDump = ''sqldump''"
| "SourceType_String SourceDockerImage = ''docker-image''"
| "SourceType_String SourceElasticsearch = ''elasticsearch''"
| "SourceType_String SourceJenkins = ''jenkins''"
| "SourceType_String SourcePostman = ''postman''"
| "SourceType_String SourceHuggingFace = ''huggingface''"
| "SourceType_String SourceCircleCI = ''circleci''"
| "SourceType_String SourceUnknown = ''unknown''"

section \<open>Provenance\<close>

record FilesystemMeta =
  fs_Path :: string
  fs_Line :: int

record GitMeta =
  git_Repository :: string
  git_Commit :: string
  git_File :: string
  git_Line :: int
  git_Email :: string
  git_Author :: string
  git_AuthoredDate :: string
  git_Message :: string

record GitHubMeta =
  gh_Repository :: string
  gh_Link :: string
  gh_Commit :: string
  gh_File :: string
  gh_Line :: int
  gh_Visibility :: string
  gh_Owner :: string
  gh_Repo :: string
  gh_Path :: string
  gh_Sha :: string
  gh_Branch :: string
  gh_Entity :: string
  gh_Number :: int
  gh_Part :: string

record GitLabMeta =
  gl_ProjectID :: int
  gl_Path :: string
  gl_Sha :: string
  gl_Branch :: string
  gl_Group :: string
  gl_Project :: string

record S3Meta =
  s3_Bucket :: string
  s3_Key :: string
  s3_VersionID :: string
  s3_ETag :: string

record GCSMeta =
  gcs_Bucket :: string
  gcs_Object :: string
  gcs_Generation :: int

record SlackMeta =
  slack_Channel :: string
  slack_Timestamp :: string
  slack_Permalink :: string

record ConfluenceMeta =
  cf_SpaceKey :: string
  cf_SpaceName :: string
  cf_PageID :: string
  cf_Title :: string
  cf_URL :: string
  cf_Type :: string

record JiraMeta =
  jira_Project :: string
  jira_IssueKey :: string
  jira_Part :: string

record NotionMeta =
  notion_PageID :: string
  notion_Database :: string
  notion_Title :: string
  notion_URL :: string
  notion_Part :: string

record BitbucketMeta =
  bb_Workspace :: string
  bb_Repo :: string
  bb_Path :: string
  bb_Commit :: string
  bb_Branch :: string

record LineLocation =
  loc_Path :: string
  loc_Line :: int

record StdinMeta =
  stdin_Label :: string
  stdin_Locations :: "int \<rightharpoonup> LineLocation"

record ForgeMeta =
  forge_Provider :: string
  forge_Repository :: string
  forge_Branch :: string
  forge_Commit :: string
  forge_File :: string
  forge_Line :: int

record SIEMMeta =
  siem_Provider :: string
  siem_Host :: string
  siem_Index :: string
  siem_EventID :: string
  siem_Timestamp :: string
  siem_Link :: string

record SQLDumpMeta =
  sql_File :: string
  sql_Database :: string
  sql_Table :: string
  sql_Line :: int
  sql_Format :: string

record DockerImageMeta =
  docker_Image :: string
  docker_Digest :: string
  docker_Layer :: string
  docker_File :: string
  docker_Line :: int

record HuggingFaceMeta =
  hf_Organization :: string
  hf_Repository :: string
  hf_RepoType :: string
  hf_Path :: string
  hf_Commit :: string

record Metadata =
  md_Filesystem :: "FilesystemMeta option"
  md_Git :: "GitMeta option"
  md_GitHub :: "GitHubMeta option"
  md_GitLab :: "GitLabMeta option"
  md_S3 :: "S3Meta option"
  md_GCS :: "GCSMeta option"
  md_Slack :: "SlackMeta option"
  md_Confluence :: "ConfluenceMeta option"
  md_Jira :: "JiraMeta option"
  md_Notion :: "NotionMeta option"
  md_Bitbucket :: "BitbucketMeta option"
  md_Stdin :: "StdinMeta option"
  md_Forge :: "ForgeMeta option"
  md_SIEM :: "SIEMMeta option"
  md_SQLDump :: "SQLDumpMeta option"
  md_DockerImage :: "DockerImageMeta option"
  md_HuggingFace :: "HuggingFaceMeta option"

definition no_metadata :: Metadata where
  "no_metadata = \<lparr>md_Filesystem = None, md_Git = None, md_GitHub = None, md_GitLab = None,
     md_S3 = None, md_GCS = None, md_Slack = None, md_Confluence = None, md_Jira = None,
     md_Notion = None, md_Bitbucket = None, md_Stdin = None, md_Forge = None, md_SIEM = None,
     md_SQLDump = None, md_DockerImage = None, md_HuggingFace = None\<rparr>"

record Chunk =
  SourceID :: int
  SourceType :: SourceType
  SourceName :: string
  Data :: bytes
  SourceMetadata :: Metadata

section \<open>The source registry\<close>

definition Register_source :: "SourceType \<Rightarrow> 'f \<Rightarrow> (SourceType \<rightharpoonup> 'f) \<Rightarrow> (SourceType \<rightharpoonup> 'f) option" where
  "Register_source t f registry = (if registry t \<noteq> None then None else Some (registry(t \<mapsto> f)))"

definition New_source :: "(SourceType \<rightharpoonup> (unit \<Rightarrow> 's)) \<Rightarrow> SourceType \<Rightarrow> 's option" where
  "New_source registry t = (case registry t of None \<Rightarrow> None | Some f \<Rightarrow> Some (f ()))"

section \<open>Findings\<close>

record streamRawHint =
  hint_offset :: int
  hint_newlines :: int
  hint_ok :: bool

record Finding =
  Result_of :: Result
  Chunk_of :: "Chunk option"
  Detector :: DetectorType
  VerifierBacked :: bool
  RawSpan :: "(int \<times> int) option"
  SuppressedBy :: string
  rawHint :: streamRawHint

end
