(* ===== verification/Sinks.thy ===== *)
theory Sinks
  imports Sources
begin

text \<open>
  The sink chain of \<^verbatim>\<open>src/pkg/engine\<close>: the placeholder filter (\<^verbatim>\<open>placeholder.go\<close>), the per-location and
  the git cross-commit deduplication (\<^verbatim>\<open>dedup.go\<close>) and the chain's lifecycle (\<^verbatim>\<open>chain.go\<close>). A sink is a
  transducer: \<open>emit\<close> takes its state and a finding and returns the new state, the findings
  forwarded to the inner sink and those forwarded to the audit sink. The mutexes of the code make
  each \<open>emit\<close> one atomic step, so a run is a sequence of steps in the order the lock is taken.
\<close>

section \<open>The contract of a filtering sink\<close>

fun run_emits :: "('s \<Rightarrow> 'f \<Rightarrow> 's \<times> 'f list \<times> 'f list) \<Rightarrow> 's \<Rightarrow> 'f list \<Rightarrow> 's \<times> 'f list \<times> 'f list" where
  "run_emits emit s [] = (s, [], [])"
| "run_emits emit s (f # fs) =
     (let (s1, inn, aud) = emit s f; (s2, inn2, aud2) = run_emits emit s1 fs in (s2, inn @ inn2, aud @ aud2))"

definition forwarded :: "'s \<times> 'f list \<times> 'f list \<Rightarrow> 'f list" where
  "forwarded r = fst (snd r)"

definition audited :: "'s \<times> 'f list \<times> 'f list \<Rightarrow> 'f list" where
  "audited r = snd (snd r)"

lemma step_parts [simp]: "forwarded (s, inn, aud) = inn" "audited (s, inn, aud) = aud"
  by (simp_all add: forwarded_def audited_def)

lemma run_Nil [simp]:
  "fst (run_emits emit s []) = s" "forwarded (run_emits emit s []) = []" "audited (run_emits emit s []) = []"
  by (simp_all add: run_emits.simps)

lemma run_Cons [simp]:
  "fst (run_emits emit s (f # fs)) = fst (run_emits emit (fst (emit s f)) fs)"
  "forwarded (run_emits emit s (f # fs)) = forwarded (emit s f) @ forwarded (run_emits emit (fst (emit s f)) fs)"
  "audited (run_emits emit s (f # fs)) = audited (emit s f) @ audited (run_emits emit (fst (emit s f)) fs)"
  by (simp_all split: prod.splits)

declare run_emits.simps [simp del]

lemma run_append:
  "fst (run_emits emit s (fs @ gs)) = fst (run_emits emit (fst (run_emits emit s fs)) gs)"
  "forwarded (run_emits emit s (fs @ gs)) =
     forwarded (run_emits emit s fs) @ forwarded (run_emits emit (fst (run_emits emit s fs)) gs)"
  by (induction fs arbitrary: s) auto

text \<open>A sink that forwards the finding itself or nothing; \<open>pass\<close> decides from its state.\<close>

locale filter_sink =
  fixes emit :: "'s \<Rightarrow> 'f \<Rightarrow> 's \<times> 'f list \<times> 'f list"
    and pass :: "'s \<Rightarrow> 'f \<Rightarrow> bool"
  assumes forwards: "forwarded (emit s f) = (if pass s f then [f] else [])"
begin

lemma run_subseq: "subseq (forwarded (run_emits emit s fs)) fs"
  by (induction fs arbitrary: s) (auto simp: forwards intro: subseq_Cons')

lemma run_no_invention: "set (forwarded (run_emits emit s fs)) \<subseteq> set fs"
  using run_subseq [of s fs] set_nths_subset by (metis subseq_conv_nths)

end

text \<open>A filter whose decision does not depend on what came before.\<close>

locale stateless_filter_sink = filter_sink +
  fixes keep :: "'b \<Rightarrow> bool"
  assumes stateless: "pass s f = keep f"
begin

lemma run_is_filter: "forwarded (run_emits emit s fs) = filter keep fs"
  by (induction fs arbitrary: s) (auto simp: forwards stateless)

end

section \<open>Placeholders\<close>

text \<open>\<^verbatim>\<open>bytes.ToLower\<close>: byte-wise on ASCII input, rune-wise otherwise, with \<open>unicode_lower\<close> the case
  table of package \<^verbatim>\<open>unicode\<close>.\<close>

definition bytes_ToLower :: "(rune \<Rightarrow> rune) \<Rightarrow> bytes \<Rightarrow> bytes" where
  "bytes_ToLower unicode_lower s =
     (if list_all (\<lambda>b. code b < 0x80) s then map ascii_lower s
      else concat (map (\<lambda>r. encode_rune (unicode_lower r)) (runes_of s)))"

definition templateSubstrings :: "bytes list" where
  "templateSubstrings = [''your_token'', ''your_key'', ''your_secret'', ''<token>'', ''<secret>'', ''<key>'']"

definition wordMarkers :: "bytes list" where
  "wordMarkers = [''example'', ''placeholder'', ''redacted'']"

definition placeholderExactMatches :: "bytes list" where
  "placeholderExactMatches =
     [''dummy'', ''test'', ''foo'', ''bar'', ''password'', ''changeme'',
      ''akiaiosfodnn7example'', ''wjalrxutnfemi/k7mdeng/bpxrficyexamplekey'']"

definition isAlnumASCII :: "byte \<Rightarrow> bool" where
  "isAlnumASCII b \<longleftrightarrow> (CHR ''a'' \<le> b \<and> b \<le> CHR ''z'') \<or> (CHR ''0'' \<le> b \<and> b \<le> CHR ''9'')"

record word_scan =
  ws_total :: nat
  ws_matched :: nat
  ws_tokenStart :: "nat option"

definition flush_token :: "bytes \<Rightarrow> nat \<Rightarrow> word_scan \<Rightarrow> word_scan" where
  "flush_token lower fin w =
     (case ws_tokenStart w of
        None \<Rightarrow> w
      | Some start \<Rightarrow>
        (let tok = slice start fin lower in
         w\<lparr>ws_total := ws_total w + length tok,
           ws_matched := (if tok \<in> set wordMarkers then ws_matched w + length tok else ws_matched w),
           ws_tokenStart := None\<rparr>))"

definition word_step :: "bytes \<Rightarrow> nat \<Rightarrow> word_scan \<Rightarrow> word_scan" where
  "word_step lower i w =
     (if isAlnumASCII (lower ! i) then
        (if ws_tokenStart w = None then w\<lparr>ws_tokenStart := Some i\<rparr> else w)
      else flush_token lower i w)"

definition word_scan_of :: "bytes \<Rightarrow> word_scan" where
  "word_scan_of lower =
     flush_token lower (length lower)
       (foldl (\<lambda>w i. word_step lower i w) \<lparr>ws_total = 0, ws_matched = 0, ws_tokenStart = None\<rparr> [0..<length lower])"

definition wordMarkerDominates :: "bytes \<Rightarrow> bool" where
  "wordMarkerDominates lower =
     (let w = word_scan_of lower in if ws_total w = 0 then False else ws_total w < ws_matched w * 2)"

text \<open>The regular expression \<^verbatim>\<open>(?i)X{8,}|0{10,}\<close> matches somewhere in the value.\<close>

definition has_run :: "(byte \<Rightarrow> bool) \<Rightarrow> nat \<Rightarrow> bytes \<Rightarrow> bool" where
  "has_run p n s = list_ex (\<lambda>i. i + n \<le> length s \<and> list_all p (take n (drop i s))) [0..<Suc (length s)]"

definition placeholderRuns :: "bytes \<Rightarrow> bool" where
  "placeholderRuns s =
     (has_run (\<lambda>b. b = CHR ''X'' \<or> b = CHR ''x'') 8 s \<or> has_run (\<lambda>b. b = CHR ''0'') 10 s)"

definition IsPlaceholder :: "(rune \<Rightarrow> rune) \<Rightarrow> bytes \<Rightarrow> bool" where
  "IsPlaceholder unicode_lower raw =
     (if raw = [] then False
      else
        let lower = bytes_ToLower unicode_lower raw in
        if list_ex (bytes_contains lower) templateSubstrings then True
        else if wordMarkerDominates lower then True
        else if placeholderRuns raw then True
        else list_ex (\<lambda>exact. lower = exact) placeholderExactMatches)"

record placeholderSink =
  ph_audit :: bool
  ph_suppCount :: nat

definition placeholder_Emit ::
  "(rune \<Rightarrow> rune) \<Rightarrow> placeholderSink \<Rightarrow> Finding \<Rightarrow> placeholderSink \<times> Finding list \<times> Finding list" where
  "placeholder_Emit unicode_lower p f =
     (if IsPlaceholder unicode_lower (Raw (Result_of f)) then
        (p\<lparr>ph_suppCount := ph_suppCount p + 1\<rparr>, [],
         if ph_audit p then [f\<lparr>SuppressedBy := ''placeholder''\<rparr>] else [])
      else (p, [f], []))"

definition placeholder_SuppressedCount :: "placeholderSink \<Rightarrow> nat" where
  "placeholder_SuppressedCount p = ph_suppCount p"

section \<open>Per-location deduplication\<close>

text \<open>The first present value: the \<^verbatim>\<open>switch\<close> over the pointers that are not nil.\<close>

fun first_some :: "'a option list \<Rightarrow> 'a option" where
  "first_some [] = None"
| "first_some (None # xs) = first_some xs"
| "first_some (Some x # xs) = Some x"

definition metadata_location :: "Metadata \<Rightarrow> (string \<times> int) option" where
  "metadata_location md = first_some [
     map_option (\<lambda>m. (fs_Path m, fs_Line m)) (md_Filesystem md),
     map_option (\<lambda>m. (git_Repository m @ ''@'' @ git_Commit m @ '':'' @ git_File m, git_Line m)) (md_Git md),
     map_option (\<lambda>m. (gh_Repository m @ ''@'' @ gh_Commit m @ '':'' @ gh_File m, gh_Line m)) (md_GitHub md),
     map_option (\<lambda>m. (''s3://'' @ s3_Bucket m @ ''/'' @ s3_Key m, 0)) (md_S3 md),
     map_option (\<lambda>m. (''gs://'' @ gcs_Bucket m @ ''/'' @ gcs_Object m, 0)) (md_GCS md),
     map_option (\<lambda>m. (slack_Channel m @ ''@'' @ slack_Timestamp m, 0)) (md_Slack md),
     map_option (\<lambda>m. (gl_Group m @ ''/'' @ gl_Project m @ ''@'' @ gl_Sha m @ '':'' @ gl_Path m, 0)) (md_GitLab md),
     map_option (\<lambda>m. (cf_SpaceKey m @ ''/'' @ cf_PageID m @ '':'' @ cf_Type m, 0)) (md_Confluence md),
     map_option (\<lambda>m. (jira_Project m @ ''/'' @ jira_IssueKey m @ '':'' @ jira_Part m, 0)) (md_Jira md),
     map_option (\<lambda>m. (notion_PageID m @ '':'' @ notion_Part m, 0)) (md_Notion md),
     map_option (\<lambda>m. (bb_Workspace m @ ''/'' @ bb_Repo m @ ''@'' @ bb_Commit m @ '':'' @ bb_Path m, 0)) (md_Bitbucket md),
     map_option (\<lambda>m. (''stdin:'' @ stdin_Label m, 0)) (md_Stdin md)]"

definition locationOf :: "Finding \<Rightarrow> string \<times> int" where
  "locationOf f =
     (case Chunk_of f of
        None \<Rightarrow> ([], 0)
      | Some ch \<Rightarrow>
        (case metadata_location (SourceMetadata ch) of
           Some loc \<Rightarrow> loc
         | None \<Rightarrow> (SourceType_String (SourceType ch), 0)))"

abbreviation nul :: string where
  "nul \<equiv> [CHR 0x00]"

definition collisionKey :: "Finding \<Rightarrow> string" where
  "collisionKey f =
     (let (path, line) = locationOf f in Raw (Result_of f) @ nul @ path @ nul @ itoa line)"

definition dedupKey :: "Finding \<Rightarrow> string" where
  "dedupKey f =
     (let (path, line) = locationOf f in
      itoa (int (Detector f)) @ nul @ Raw (Result_of f) @ nul @ path @ nul @ itoa line)"

record dedupSink =
  seen :: "string set"
  emittedByCollision :: "string set"

definition NewDedup :: dedupSink where
  "NewDedup = \<lparr>seen = {}, emittedByCollision = {}\<rparr>"

definition dedup_pass :: "dedupSink \<Rightarrow> Finding \<Rightarrow> bool" where
  "dedup_pass d f \<longleftrightarrow>
     dedupKey f \<notin> seen d \<and> \<not> (collisionKey f \<in> emittedByCollision d \<and> \<not> VerifierBacked f)"

definition dedup_Emit :: "dedupSink \<Rightarrow> Finding \<Rightarrow> dedupSink \<times> Finding list \<times> Finding list" where
  "dedup_Emit d f =
     (let key = dedupKey f; collision = collisionKey f in
      if key \<in> seen d then (d, [], [])
      else if collision \<in> emittedByCollision d \<and> \<not> VerifierBacked f then (d, [], [])
      else (d\<lparr>seen := insert key (seen d),
              emittedByCollision := (if VerifierBacked f then insert collision (emittedByCollision d)
                                     else emittedByCollision d)\<rparr>, [f], []))"

section \<open>Cross-commit deduplication\<close>

text \<open>\<open>sha256_hex\<close> is the lower-case hexadecimal SHA-256 digest of the secret.\<close>

definition gitHashFileKey :: "(bytes \<Rightarrow> string) \<Rightarrow> Finding \<Rightarrow> GitMeta \<Rightarrow> string" where
  "gitHashFileKey sha256_hex f g = sha256_hex (Raw (Result_of f)) @ nul @ git_File g"

record gitCrossCommitSink =
  counts :: "string \<rightharpoonup> nat"
  first :: "string \<rightharpoonup> Finding"
  insertOrder :: "string list"

definition NewGitCrossCommitDedup :: gitCrossCommitSink where
  "NewGitCrossCommitDedup = \<lparr>counts = Map.empty, first = Map.empty, insertOrder = []\<rparr>"

definition git_meta_of :: "Finding \<Rightarrow> GitMeta option" where
  "git_meta_of f = (case Chunk_of f of None \<Rightarrow> None | Some ch \<Rightarrow> md_Git (SourceMetadata ch))"

definition crossCommit_Emit ::
  "(bytes \<Rightarrow> string) \<Rightarrow> gitCrossCommitSink \<Rightarrow> Finding \<Rightarrow> gitCrossCommitSink \<times> Finding list \<times> Finding list" where
  "crossCommit_Emit sha256_hex g f =
     (case git_meta_of f of
        None \<Rightarrow> (g, [f], [])
      | Some m \<Rightarrow>
        (let key = gitHashFileKey sha256_hex f m;
             g1 = g\<lparr>counts := (counts g)(key \<mapsto> (case counts g key of None \<Rightarrow> 0 | Some n \<Rightarrow> n) + 1)\<rparr>
         in (if first g key = None
             then g1\<lparr>first := (first g)(key \<mapsto> f), insertOrder := insertOrder g @ [key]\<rparr>
             else g1, [], [])))"

definition annotate_count :: "nat \<Rightarrow> Finding \<Rightarrow> Finding" where
  "annotate_count n f =
     (if 1 < n then
        f\<lparr>Result_of := (Result_of f)\<lparr>ExtraData :=
           (ExtraData (Result_of f))(''occurrence_count'' \<mapsto> itoa (int n))\<rparr>\<rparr>
      else f)"

text \<open>Every key of \<open>insertOrder\<close> is bound in both maps (the invariant below); the code's map reads
  return the bound values.\<close>

definition crossCommit_Flush :: "gitCrossCommitSink \<Rightarrow> gitCrossCommitSink \<times> Finding list" where
  "crossCommit_Flush g =
     (\<lparr>counts = Map.empty, first = Map.empty, insertOrder = []\<rparr>,
      map (\<lambda>key. annotate_count (case counts g key of None \<Rightarrow> 0 | Some n \<Rightarrow> n) (the (first g key))) (insertOrder g))"

section \<open>The chain's lifecycle\<close>

text \<open>
  A link of the chain acts on the state \<open>'w\<close> of all the sinks: \<open>flush_of\<close> is its \<^verbatim>\<open>Flush\<close> when it
  implements \<^verbatim>\<open>Flushable\<close>, \<open>close_of\<close> its \<^verbatim>\<open>Close\<close> (which cascades to the links it wraps). Both
  return the error, if any.
\<close>

record 'w link =
  flush_of :: "('w \<Rightarrow> 'w \<times> string option) option"
  close_of :: "'w \<Rightarrow> 'w \<times> string option"

record 'w SinkChain =
  flushables :: "('w \<Rightarrow> 'w \<times> string option) list"
  outer :: "'w link option"
  closeDone :: bool
  closeErr :: "string option"

definition NewSinkChain :: "'w SinkChain" where
  "NewSinkChain = \<lparr>flushables = [], outer = None, closeDone = False, closeErr = None\<rparr>"

definition Track :: "'w SinkChain \<Rightarrow> 'w link \<Rightarrow> 'w SinkChain" where
  "Track c s =
     c\<lparr>flushables := (case flush_of s of None \<Rightarrow> flushables c | Some f \<Rightarrow> flushables c @ [f]), outer := Some s\<rparr>"

fun flush_links :: "('w \<Rightarrow> 'w \<times> string option) list \<Rightarrow> 'w \<Rightarrow> 'w \<times> string option" where
  "flush_links [] w = (w, None)"
| "flush_links (f # fs) w =
     (case f w of (w1, Some err) \<Rightarrow> (w1, Some err) | (w1, None) \<Rightarrow> flush_links fs w1)"

definition chain_Flush :: "'w SinkChain \<Rightarrow> 'w \<Rightarrow> 'w \<times> string option" where
  "chain_Flush c w = flush_links (flushables c) w"

definition chain_Close :: "'w SinkChain \<Rightarrow> 'w \<Rightarrow> ('w SinkChain \<times> 'w) \<times> string option" where
  "chain_Close c w =
     (if closeDone c then ((c, w), closeErr c)
      else case outer c of
             None \<Rightarrow> ((c\<lparr>closeDone := True\<rparr>, w), closeErr c)
           | Some s \<Rightarrow> (let (w1, err) = close_of s w in ((c\<lparr>closeDone := True, closeErr := err\<rparr>, w1), err)))"

end
