(* ===== verification/SinksCorrect.thy ===== *)
theory SinksCorrect
  imports Sinks
begin

text \<open>
  Correctness of the sink chain: the filters provide the contract \<open>filter_sink\<close>, deduplication
  loses no secret and repeats none, cross-commit collapsing keeps the introducing commit and counts
  exactly, the placeholder filter is a pure filter with an exact tally, and closing is idempotent.
\<close>

section \<open>Placeholder filter\<close>

interpretation placeholder: stateless_filter_sink "placeholder_Emit unicode_lower"
  "\<lambda>p f. \<not> IsPlaceholder unicode_lower (Raw (Result_of f))"
  "\<lambda>f. \<not> IsPlaceholder unicode_lower (Raw (Result_of f))" for unicode_lower
  by unfold_locales (simp_all add: placeholder_Emit_def)

lemma placeholder_run_state:
  "fst (run_emits (placeholder_Emit ul) p fs) =
     p\<lparr>ph_suppCount := ph_suppCount p + length (filter (\<lambda>f. IsPlaceholder ul (Raw (Result_of f))) fs)\<rparr> \<and>
   audited (run_emits (placeholder_Emit ul) p fs) =
     (if ph_audit p then map (\<lambda>f. f\<lparr>SuppressedBy := ''placeholder''\<rparr>) (filter (\<lambda>f. IsPlaceholder ul (Raw (Result_of f))) fs)
      else [])"
  by (induction fs arbitrary: p) (simp_all add: placeholder_Emit_def)

text \<open>The placeholder filter forwards exactly the findings whose secret is not a placeholder, in order;
  with auditing on, every suppressed finding reaches the audit sink tagged with the filter's
  name; and the tally is exact, so forwarded and suppressed findings add up to the input.\<close>

theorem placeholder_sink_exact:
  "forwarded (run_emits (placeholder_Emit ul) p fs) = filter (\<lambda>f. \<not> IsPlaceholder ul (Raw (Result_of f))) fs \<and>
   (ph_audit p \<and> audited (run_emits (placeholder_Emit ul) p fs)
      = map (\<lambda>f. f\<lparr>SuppressedBy := ''placeholder''\<rparr>) (filter (\<lambda>f. IsPlaceholder ul (Raw (Result_of f))) fs)
    \<or> \<not> ph_audit p \<and> audited (run_emits (placeholder_Emit ul) p fs) = []) \<and>
   length (forwarded (run_emits (placeholder_Emit ul) p fs))
     + placeholder_SuppressedCount (fst (run_emits (placeholder_Emit ul) p fs))
     = length fs + placeholder_SuppressedCount p"
  using placeholder_run_state [of ul p fs] placeholder.run_is_filter [of ul p fs]
    sum_length_filter_compl [of "\<lambda>f. IsPlaceholder ul (Raw (Result_of f))" fs]
  by (auto simp: placeholder_SuppressedCount_def)

section \<open>Word shape of a placeholder\<close>

text \<open>The maximal runs of alphanumeric bytes.\<close>

fun alnum_words :: "bytes \<Rightarrow> bytes \<Rightarrow> bytes list" where
  "alnum_words cur [] = (if cur = [] then [] else [cur])"
| "alnum_words cur (b # bs) =
     (if isAlnumASCII b then alnum_words (cur @ [b]) bs
      else (if cur = [] then [] else [cur]) @ alnum_words [] bs)"

definition words_length :: "bytes list \<Rightarrow> nat" where
  "words_length ws = sum_list (map length ws)"

lemma words_length_simps [simp]:
  "words_length [] = 0" "words_length (w # ws) = length w + words_length ws"
  "words_length (ws @ vs) = words_length ws + words_length vs"
  by (simp_all add: words_length_def)

lemma alnum_words_length: "words_length (alnum_words cur s) = length cur + length (filter isAlnumASCII s)"
  by (induction cur s rule: alnum_words.induct) auto

definition word_scan_ok :: "bytes \<Rightarrow> nat \<Rightarrow> word_scan \<Rightarrow> bytes list \<Rightarrow> bytes \<Rightarrow> bool" where
  "word_scan_ok lower i w ws cur \<longleftrightarrow>
     ws_total w = words_length ws \<and> ws_matched w = words_length (filter (\<lambda>t. t \<in> set wordMarkers) ws) \<and>
     (case ws_tokenStart w of None \<Rightarrow> cur = [] | Some st \<Rightarrow> st < i \<and> cur = slice st i lower \<and> i \<le> length lower)"

lemma flush_token_ok:
  assumes "word_scan_ok lower i w ws cur" "i \<le> length lower"
  shows "word_scan_ok lower j (flush_token lower i w) (ws @ (if cur = [] then [] else [cur])) []"
proof (cases "ws_tokenStart w")
  case None
  then show ?thesis using assms by (simp add: word_scan_ok_def flush_token_def)
next
  case (Some st)
  then have "cur \<noteq> []" using assms by (auto simp: word_scan_ok_def slice_def)
  then show ?thesis using Some assms by (auto simp: word_scan_ok_def flush_token_def Let_def)
qed

lemma word_scan_loop:
  assumes "word_scan_ok lower i w ws cur" "i \<le> length lower"
  shows "\<exists>w'. flush_token lower (length lower) (foldl (\<lambda>w i. word_step lower i w) w [i..<length lower]) = w' \<and>
    word_scan_ok lower (length lower) w' (ws @ alnum_words cur (drop i lower)) []"
  using assms
proof (induction "length lower - i" arbitrary: i w ws cur)
  case 0
  then show ?case using flush_token_ok [OF 0(2,3)] by simp
next
  case (Suc n)
  have i: "i < length lower" using Suc.hyps(2) by simp
  have d: "drop i lower = lower ! i # drop (Suc i) lower" using i by (simp add: Cons_nth_drop_Suc)
  show ?case
  proof (cases "isAlnumASCII (lower ! i)")
    case True
    have "word_scan_ok lower (Suc i) (word_step lower i w) ws (cur @ [lower ! i])"
    proof (cases "ws_tokenStart w")
      case None
      then show ?thesis using Suc.prems True i
        by (auto simp: word_scan_ok_def word_step_def slice_def take_Suc_conv_app_nth)
    next
      case (Some st)
      then have "slice st (Suc i) lower = slice st i lower @ [lower ! i]"
        using Suc.prems i by (auto simp: word_scan_ok_def slice_def Suc_diff_le take_Suc_conv_app_nth)
      then show ?thesis using Some Suc.prems True i by (auto simp: word_scan_ok_def word_step_def)
    qed
    from Suc.hyps(1) [OF _ this] show ?thesis using Suc.hyps(2) i d True
      by (simp add: upt_conv_Cons)
  next
    case False
    have "word_scan_ok lower (Suc i) (word_step lower i w) (ws @ (if cur = [] then [] else [cur])) []"
      using flush_token_ok [OF Suc.prems] False by (simp add: word_step_def)
    from Suc.hyps(1) [OF _ this] show ?thesis using Suc.hyps(2) i d False
      by (simp add: upt_conv_Cons)
  qed
qed

text \<open>The one-pass word scan decides exactly the documented rule: the marker words make up strictly more
  than half of the alphanumeric bytes, where words are the maximal alphanumeric runs. No slice
  expression in the pass is out of range.\<close>

theorem wordMarkerDominates_iff:
  "wordMarkerDominates lower \<longleftrightarrow>
     length (filter isAlnumASCII lower)
       < 2 * words_length (filter (\<lambda>t. t \<in> set wordMarkers) (alnum_words [] lower))"
proof -
  have "word_scan_ok lower 0 \<lparr>ws_total = 0, ws_matched = 0, ws_tokenStart = None\<rparr> [] []"
    by (simp add: word_scan_ok_def)
  from word_scan_loop [OF this]
  have "word_scan_ok lower (length lower) (word_scan_of lower) (alnum_words [] lower) []"
    by (simp add: word_scan_of_def)
  then have eqs: "ws_total (word_scan_of lower) = length (filter isAlnumASCII lower)"
    "ws_matched (word_scan_of lower) = words_length (filter (\<lambda>t. t \<in> set wordMarkers) (alnum_words [] lower))"
    by (simp_all add: word_scan_ok_def alnum_words_length)
  have "words_length (filter P ws) \<le> words_length ws" for P ws by (induction ws) auto
  from this [of "\<lambda>t. t \<in> set wordMarkers" "alnum_words [] lower"] eqs alnum_words_length [of "[]" lower]
  show ?thesis by (auto simp: wordMarkerDominates_def Let_def)
qed

section \<open>Per-location deduplication\<close>

interpretation dedup: filter_sink dedup_Emit dedup_pass
  by unfold_locales (simp add: dedup_Emit_def dedup_pass_def Let_def)

text \<open>What the sink's two sets record about the findings already forwarded.\<close>

definition dedup_inv :: "dedupSink \<Rightarrow> Finding list \<Rightarrow> bool" where
  "dedup_inv d out \<longleftrightarrow>
     seen d = dedupKey ` set out \<and>
     emittedByCollision d = collisionKey ` {f \<in> set out. VerifierBacked f} \<and>
     distinct (map dedupKey out) \<and>
     sorted_wrt (\<lambda>f g. VerifierBacked f \<and> collisionKey f = collisionKey g \<longrightarrow> VerifierBacked g) out"

definition dedup_covers :: "Finding list \<Rightarrow> Finding \<Rightarrow> bool" where
  "dedup_covers out f \<longleftrightarrow>
     (\<exists>g \<in> set out. dedupKey g = dedupKey f \<or> VerifierBacked g \<and> \<not> VerifierBacked f \<and> collisionKey g = collisionKey f)"

lemma dedup_Emit_inv [inv_intros]:
  assumes "dedup_inv d out"
  shows "dedup_inv (fst (dedup_Emit d f)) (out @ forwarded (dedup_Emit d f)) \<and>
    dedup_covers (out @ forwarded (dedup_Emit d f)) f"
proof (cases "dedup_pass d f")
  case True
  then have "dedup_Emit d f = (d\<lparr>seen := insert (dedupKey f) (seen d),
      emittedByCollision := (if VerifierBacked f then insert (collisionKey f) (emittedByCollision d)
        else emittedByCollision d)\<rparr>, [f], [])"
    by (auto simp: dedup_pass_def dedup_Emit_def Let_def)
  then show ?thesis
    using assms True
    by (auto simp: dedup_inv_def dedup_covers_def dedup_pass_def sorted_wrt_append)
      (metis (mono_tags, lifting) image_eqI mem_Collect_eq)
next
  case False
  then have "dedup_Emit d f = (d, [], [])" by (auto simp: dedup_pass_def dedup_Emit_def Let_def)
  then show ?thesis using assms False by (auto simp: dedup_inv_def dedup_covers_def dedup_pass_def)
qed

lemma dedup_covers_mono: "dedup_covers out f \<Longrightarrow> dedup_covers (out @ out') f"
  by (auto simp: dedup_covers_def)

lemma dedup_run_inv:
  assumes "dedup_inv d out"
  shows "dedup_inv (fst (run_emits dedup_Emit d fs)) (out @ forwarded (run_emits dedup_Emit d fs)) \<and>
    (\<forall>f \<in> set fs. dedup_covers (out @ forwarded (run_emits dedup_Emit d fs)) f)"
  using assms
proof (induction fs arbitrary: d out)
  case (Cons f fs)
  let ?d1 = "fst (dedup_Emit d f)" and ?o1 = "out @ forwarded (dedup_Emit d f)"
  have "dedup_inv ?d1 ?o1" "dedup_covers ?o1 f" using dedup_Emit_inv [OF Cons.prems] by blast+
  with Cons.IH [of ?d1 ?o1] show ?case using dedup_covers_mono [of ?o1 f] by simp
qed simp

text \<open>C26. Deduplication loses no secret and repeats none: over any sequence of findings, the forwarded ones
  are a subsequence with pairwise different (detector, secret, location) keys; every input finding
  is represented by a forwarded one with its own key, or (when it is not verifier-backed) by a
  verifier-backed one with the same secret at the same location; and no shadow of an already
  forwarded verifier-backed finding is forwarded after it.\<close>

theorem dedup_sound_complete:
  "let out = forwarded (run_emits dedup_Emit NewDedup fs) in
     subseq out fs \<and> distinct (map dedupKey out) \<and> list_all (dedup_covers out) fs \<and>
     sorted_wrt (\<lambda>f g. VerifierBacked g \<or> \<not> (VerifierBacked f \<and> collisionKey f = collisionKey g)) out"
proof -
  have "dedup_inv NewDedup []" by (simp add: dedup_inv_def NewDedup_def)
  from dedup_run_inv [OF this, of fs] show ?thesis
    using dedup.run_subseq [of NewDedup fs]
    by (auto simp: Let_def dedup_inv_def list_all_iff elim!: sorted_wrt_mono_rel [rotated])
qed

lemma split_at_nul:
  assumes "a @ nul @ b = a' @ nul @ b'" "CHR 0x00 \<notin> set a" "CHR 0x00 \<notin> set a'"
  shows "a = a' \<and> b = b'"
  using assms
proof (induction a arbitrary: a')
  case Nil
  then show ?case by (cases a') auto
next
  case (Cons c a)
  then show ?case by (cases a') auto
qed

lemma split_at_last_nul:
  assumes "a @ nul @ b = a' @ nul @ b'" "CHR 0x00 \<notin> set b" "CHR 0x00 \<notin> set b'"
  shows "a = a' \<and> b = b'"
proof -
  have "rev b @ nul @ rev a = rev b' @ nul @ rev a'"
    using arg_cong [OF assms(1), of rev] by simp
  then show ?thesis using split_at_nul [of "rev b" "rev a" "rev b'" "rev a'"] assms(2,3) by simp
qed


definition sample_result :: "bytes \<Rightarrow> Result" where
  "sample_result raw = \<lparr>DetectorType = 1, Verified = False, VerificationErr = None,
     VerificationAssurance = AssuranceUnknown, Severity = SeverityUnknown, Raw = raw, RawV2 = [],
     Redacted = [], ExtraData = Map.empty\<rparr>"

definition sample_finding :: "bytes \<Rightarrow> Metadata \<Rightarrow> Finding" where
  "sample_finding raw md = \<lparr>Result_of = sample_result raw,
     Chunk_of = Some \<lparr>SourceID = 1, SourceType = SourceFilesystem, SourceName = ''fs'', Data = raw, SourceMetadata = md\<rparr>,
     Detector = 1, VerifierBacked = False, RawSpan = None, SuppressedBy = [],
     rawHint = \<lparr>hint_offset = 0, hint_newlines = 0, hint_ok = False\<rparr>\<rparr>"

definition sample_file :: "string \<Rightarrow> int \<Rightarrow> Metadata" where
  "sample_file p l = no_metadata\<lparr>md_Filesystem := Some \<lparr>fs_Path = p, fs_Line = l\<rparr>\<rparr>"

lemmas sample_defs = sample_result_def sample_finding_def sample_file_def no_metadata_def


theorem dedup_sound_complete_witness:
  "let f = sample_finding ''k'' (sample_file ''a.env'' 3); g = sample_finding ''k'' (sample_file ''b.env'' 3);
       out = forwarded (run_emits dedup_Emit NewDedup [f, g, f]) in
     distinct (map dedupKey out) \<and> list_all (dedup_covers out) [f, g, f] \<and> subseq out [f, g, f]"
  using dedup_sound_complete [of "[sample_finding ''k'' (sample_file ''a.env'' 3), sample_finding ''k'' (sample_file ''b.env'' 3),
      sample_finding ''k'' (sample_file ''a.env'' 3)]"]
  unfolding Let_def by blast

section \<open>Cross-commit deduplication\<close>

text \<open>The specification: the buffered key of a git finding, and the distinct elements of a list in order of
  first occurrence.\<close>

definition git_key :: "(bytes \<Rightarrow> string) \<Rightarrow> Finding \<Rightarrow> string option" where
  "git_key h f = map_option (gitHashFileKey h f) (git_meta_of f)"

definition firsts :: "'a list \<Rightarrow> 'a list" where
  "firsts xs = rev (remdups (rev xs))"

lemma firsts_snoc: "firsts (xs @ [x]) = (if x \<in> set xs then firsts xs else firsts xs @ [x])"
  by (simp add: firsts_def)

lemma firsts_Nil [simp]: "firsts [] = []"
  by (simp add: firsts_def)

lemma set_firsts [simp]: "set (firsts xs) = set xs"
  by (simp add: firsts_def)

lemma distinct_firsts [simp]: "distinct (firsts xs)"
  by (simp add: firsts_def)

definition with_key :: "(bytes \<Rightarrow> string) \<Rightarrow> string \<Rightarrow> Finding list \<Rightarrow> Finding list" where
  "with_key h k fs = filter (\<lambda>f. git_key h f = Some k) fs"

definition keys_of :: "(bytes \<Rightarrow> string) \<Rightarrow> Finding list \<Rightarrow> string list" where
  "keys_of h fs = map the (filter (\<lambda>k. k \<noteq> None) (map (git_key h) fs))"

lemma keys_of_member: "k \<in> set (keys_of h fs) \<longleftrightarrow> with_key h k fs \<noteq> []"
  by (force simp: keys_of_def with_key_def filter_empty_conv)

definition crossCommit_inv :: "(bytes \<Rightarrow> string) \<Rightarrow> gitCrossCommitSink \<Rightarrow> Finding list \<Rightarrow> bool" where
  "crossCommit_inv h g fs \<longleftrightarrow>
     insertOrder g = firsts (keys_of h fs) \<and>
     (\<forall>k. first g k = (if with_key h k fs = [] then None else Some (hd (with_key h k fs)))) \<and>
     (\<forall>k. counts g k = (if with_key h k fs = [] then None else Some (length (with_key h k fs))))"

lemma crossCommit_Emit_inv [inv_intros]:
  assumes "crossCommit_inv h g fs"
  shows "crossCommit_inv h (fst (crossCommit_Emit h g f)) (fs @ [f])"
proof (cases "git_meta_of f")
  case None
  then have "git_key h f = None" by (simp add: git_key_def)
  then show ?thesis using assms None
    by (simp add: crossCommit_inv_def crossCommit_Emit_def keys_of_def with_key_def)
next
  case (Some m)
  let ?k = "gitHashFileKey h f m"
  have key: "git_key h f = Some ?k" using Some by (simp add: git_key_def)
  have keys: "keys_of h (fs @ [f]) = keys_of h fs @ [?k]" using key by (simp add: keys_of_def)
  have wk: "with_key h k (fs @ [f]) = (if k = ?k then with_key h k fs @ [f] else with_key h k fs)" for k
    using key by (simp add: with_key_def)
  show ?thesis
    using assms Some unfolding crossCommit_inv_def keys wk
    by (auto simp: crossCommit_Emit_def Let_def firsts_snoc keys_of_member)
qed

lemma crossCommit_run_inv:
  assumes "crossCommit_inv h g gs"
  shows "crossCommit_inv h (fst (run_emits (crossCommit_Emit h) g fs)) (gs @ fs)"
  using assms
proof (induction fs arbitrary: g gs)
  case (Cons f fs)
  from Cons.IH [OF crossCommit_Emit_inv [OF Cons.prems, of f]] show ?case by simp
qed simp

lemma crossCommit_forwards:
  "forwarded (run_emits (crossCommit_Emit h) g fs) = filter (\<lambda>f. git_meta_of f = None) fs"
  by (induction fs arbitrary: g) (auto simp: crossCommit_Emit_def Let_def split: option.splits)

text \<open>C35. Cross-commit deduplication reports every secret-and-file pair of the history once, from its
  introducing commit and with its exact number of occurrences: findings without git provenance
  pass at once and in order; flushing yields, for each distinct key in order of first appearance,
  the first finding with that key annotated with how many findings had it; and the flushed sink
  is empty again.\<close>

theorem crossCommit_exact:
  "let r = run_emits (crossCommit_Emit h) NewGitCrossCommitDedup fs in
     forwarded r = filter (\<lambda>f. git_meta_of f = None) fs \<and>
     crossCommit_Flush (fst r) =
       (NewGitCrossCommitDedup,
        map (\<lambda>k. annotate_count (length (with_key h k fs)) (hd (with_key h k fs))) (firsts (keys_of h fs)))"
proof -
  have "crossCommit_inv h NewGitCrossCommitDedup []"
    by (simp add: crossCommit_inv_def NewGitCrossCommitDedup_def keys_of_def with_key_def)
  from crossCommit_run_inv [OF this, of fs] show ?thesis
    by (auto simp: Let_def crossCommit_forwards crossCommit_inv_def crossCommit_Flush_def
        NewGitCrossCommitDedup_def keys_of_member)
qed

section \<open>The chain's lifecycle\<close>

text \<open>Closing the chain is exactly-once: the second and every later \<open>Close\<close> returns the first call's
  result and leaves every sink as it is, whether the first close succeeded, failed or had nothing
  to close.\<close>

theorem chain_Close_once:
  "\<exists>c1 w1. chain_Close c w = ((c1, w1), closeErr c1) \<and> (\<forall>w'. chain_Close c1 w' = ((c1, w'), closeErr c1))"
  by (cases "closeDone c"; cases "outer c") (auto simp: chain_Close_def split: prod.splits)

end
