(* ===== verification/DetectorNames.thy ===== *)
theory DetectorNames
  imports Prelude
begin

text \<open>
  The names of the detector types: \<^verbatim>\<open>DetectorType.String\<close> of \<^verbatim>\<open>src/pkg/detectors/registry.go\<close>. The
  switch lists the constants of \<^verbatim>\<open>detectors.go\<close> in their \<^verbatim>\<open>iota\<close> order, so the name of ordinal \<open>t\<close> is entry
  \<open>t\<close> of the table; ordinal 0 and every ordinal outside the enumeration is \<^verbatim>\<open>Unknown\<close>. Allowlist rules
  select detectors by these names, so two types must never share one.
\<close>

definition names_0 :: "string list" where
  "names_0 = [
    ''AWS'', ''GCPServiceAccount'', ''AzureStorageKey'', ''GitHub'', ''GitLab'', ''SlackBotToken'',
    ''SlackWebhook'', ''OpenAI'', ''Anthropic'', ''Stripe'', ''JWT'', ''PrivateKeyPEM'',
    ''GenericHighEntropy'', ''Datadog'', ''NPM'', ''PyPI'', ''HuggingFace'', ''Cloudflare'', ''SendGrid'',
    ''Twilio'', ''DigitalOcean'', ''Sentry'', ''MongoDBAtlas'', ''HubSpot'', ''SalesforceRefresh'',
    ''NewRelic'', ''PagerDuty'', ''Postman'', ''Mailgun'', ''TerraformCloud'', ''Vercel'', ''Netlify'',
    ''Heroku'', ''Render'', ''FlyIO'', ''Atlassian'', ''Notion'', ''Linear'', ''Asana'', ''Mixpanel'',
    ''Segment'', ''Brevo'', ''Mailchimp'', ''Postmark'', ''Okta'', ''Jira'', ''Confluence'',
    ''BitbucketCloud'', ''Square'', ''PayPal'', ''Plaid'', ''Discord'', ''Cohere'', ''Replicate'',
    ''Mistral'', ''Groq'', ''Intercom'', ''OpenRouter'', ''Together'', ''Dropbox'', ''AzureAD'',
    ''Telegram'', ''Shodan'', ''VirusTotal'', ''Doppler'', ''Vault'', ''Algolia'', ''Airtable'', ''Grafana'',
    ''LaunchDarkly'']"

definition names_1 :: "string list" where
  "names_1 = [
    ''Auth0'', ''Buildkite'', ''CircleCI'', ''Snyk'', ''Spotify'', ''PIIEmail'', ''PIIUSSSN'',
    ''PIICreditCard'', ''PIIIBAN'', ''AWSSession'', ''AzureSAS'', ''GCPOAuth'', ''GCPAPIKey'',
    ''BitbucketServer'', ''GitLabDeploy'', ''Codecov'', ''Rollbar'', ''Bugsnag'', ''SumoLogic'',
    ''Honeycomb'', ''Tailscale'', ''Figma'', ''Zoom'', ''Klaviyo'', ''AlibabaCloud'', ''AzureApp'',
    ''Databricks'', ''DatadogAppKey'', ''DopplerCLI'', ''Freshdesk'', ''GCPIDToken'', ''HashiCorpCloud'',
    ''LaunchDarklyRelay'', ''Ngrok'', ''Opsgenie'', ''Snowflake'', ''TencentCloud'', ''TerraformCloudTeam'',
    ''Zendesk'', ''Redis'', ''Postgres'', ''MySQL'', ''MongoDB'', ''RabbitMQ'', ''Kafka'', ''BasicAuth'',
    ''SMTP'', ''AdobeIO'', ''DockerHub'', ''GHCR'', ''AWSS3PresignedURL'', ''GCSSignedURL'',
    ''AzureSQLConnString'', ''Kubeconfig'', ''ClickUp'', ''Monday'', ''Trello'', ''Gitter'', ''LaunchNotes'',
    ''Paperspace'', ''RunPod'', ''Modal'', ''Linode'', ''Vultr'', ''Scaleway'', ''UpstashRedis'',
    ''PlanetScale'', ''Clerk'', ''Supabase'', ''OneLogin'']"

definition names_2 :: "string list" where
  "names_2 = [
    ''JumpCloud'', ''Twitch'', ''Lacework'', ''DroneCI'', ''Harness'', ''Sysdig'', ''Lokalise'', ''Pulumi'',
    ''Coda'', ''LoopsSo'', ''AppCenter'', ''Bitwarden'', ''Resend'', ''Helcim'', ''AnthropicAdmin'',
    ''Pinecone'', ''Weaviate'', ''VoyageAI'', ''Fireworks'', ''Cerebras'', ''GitHubApp'', ''JFrog'',
    ''Pendo'', ''PostHog'', ''SentryUser'', ''CloudflareR2'', ''Mapbox'', ''Railway'', ''Telnyx'',
    ''SplunkHEC'', ''ElasticCloud'', ''LogzIO'', ''Coralogix'', ''Loggly'', ''UptimeRobot'', ''Pingdom'',
    ''Honeybadger'', ''Raygun'', ''Statuspage'', ''VictorOps'', ''PagerTree'', ''AWX'', ''ConcourseCI'',
    ''TeamCity'', ''Aiven'', ''YugabyteCloud'', ''CockroachCloud'', ''Fauna'', ''Tinybird'',
    ''ClickHouseCloud'', ''Neon'', ''GitLabPipeline'', ''ArgoCD'', ''TektonHub'', ''Spinnaker'',
    ''ConstantContact'', ''Vonage'', ''Workato'', ''AikidoSecurity'', ''Akamai'', ''Fastly'', ''Quip'',
    ''Box'', ''Zoho'', ''Adyen'', ''Wise'', ''Razorpay'', ''Mollie'', ''MessageBird'', ''Sinch'']"

definition names_3 :: "string list" where
  "names_3 = [
    ''BackblazeB2'', ''Wasabi'', ''Stytch'', ''Cloud66'', ''AzureDevOps'', ''Jenkins'', ''GoCD'', ''Bamboo'',
    ''Smartsheet'', ''Wrike'', ''Productboard'', ''Miro'', ''Lucidchart'', ''SonatypeNexus'',
    ''AppStoreConnect'', ''Bitrise'', ''Browserstack'', ''StabilityAI'', ''CiscoMeraki'', ''Webex'',
    ''Tenable'', ''Rapid7'', ''CrowdStrike'', ''Wiz'', ''SonarQube'', ''MailerLite'', ''ActiveCampaign'',
    ''Drip'', ''BunnyCDN'', ''Vimeo'', ''Cloudinary'', ''PingIdentity'', ''Mux'', ''Hookdeck'', ''WorkOS'',
    ''FrontEgg'', ''Kinde'', ''Hanko'', ''GitHubFineGrained'', ''AzureContainerRegistry'', ''Quay'',
    ''Replit'', ''PostmarkAccount'', ''Beehiiv'', ''NS1'', ''Perplexity'', ''DeepInfra'', ''XAI'',
    ''GoCardless'', ''MercuryBank'', ''LemonSqueezy'', ''Schematic'', ''Hyperline'', ''Fattureincloud'',
    ''VercelAIGateway'', ''Gandi'', ''Codefresh'', ''Earthly'', ''Spacelift'', ''CouchbaseCapella'',
    ''SlackUserToken'', ''PusherChannels'', ''Hetzner'', ''Pumble'', ''OVHCloud'', ''EquinixMetal'',
    ''Civo'', ''Exoscale'', ''BuddyCI'', ''SemaphoreCI'']"

definition names_4 :: "string list" where
  "names_4 = [
    ''JenkinsX'', ''AssemblyAI'', ''ElevenLabs'', ''Deepgram'', ''Front'', ''CrispChat'', ''Drift'',
    ''Vanta'', ''OneSignal'', ''FirebaseCloudMessaging'', ''APNs'', ''Pushover'', ''BranchIO'',
    ''PusherBeams'', ''Drata'', ''Secureframe'', ''OneTrust'', ''Pipedrive'', ''Close'', ''DNSimple'',
    ''NvidiaNGC'', ''Airbrake'', ''Materialize'', ''BeyondIdentity'', ''KeyCDN'', ''Mailtrap'',
    ''GetResponse'', ''Amplitude'', ''FullStory'', ''Heap'', ''Hotjar'', ''Optimizely'', ''Transifex'',
    ''Crowdin'', ''DocuSign'', ''Qdrant'', ''SurrealDB'', ''Leaseweb'', ''PostageApp'', ''Nomic'', ''Jina'',
    ''Runway'', ''MotherDuck'', ''DoltHub'', ''BetterStack'', ''Dynatrace'', ''AppSignal'', ''ScoutAPM'',
    ''Descope'', ''Mandrill'', ''CustomerIO'', ''Iterable'', ''Plivo'', ''Paddle'', ''Shopify'', ''Recurly'',
    ''Chargebee'', ''FastSpring'', ''Gumroad'', ''Snipcart'', ''Gitea'', ''Woodpecker'', ''OctopusDeploy'',
    ''Squadcast'', ''Instana'', ''Courier'', ''Bandwidth'', ''GetStream'', ''Lark'', ''Braintree'']"

definition names_5 :: "string list" where
  "names_5 = [
    ''Dwolla'', ''Klarna'', ''Lever'', ''Greenhouse'', ''Gusto'', ''Deel'', ''Rippling'', ''PropelAuth'',
    ''LambdaLabs'', ''Anyscale'', ''SambaNova'', ''Baseten'', ''Turso'', ''Knock'', ''Shippo'', ''EasyPost'',
    ''TaxJar'', ''Avalara'', ''BambooHR'', ''Paylocity'', ''DeepSeek'', ''MonsterAPI'', ''FriendliAI'',
    ''AppDynamics'', ''ElasticAPM'', ''Lightstep'', ''EmailJS'', ''Mailjet'', ''Hasura'', ''AI21Labs'',
    ''OctoAI'', ''PingOne'', ''ForgeRock'', ''KeyCloak'', ''Marketo'', ''Eloqua'', ''Pardot'', ''Kustomer'',
    ''Freshchat'', ''OracleCloud'', ''IBMCloud'', ''RingCentral'', ''DialPad'', ''SignalWire'', ''Writer'',
    ''Filebase'', ''Storj'', ''MongoDBRealm'', ''CloudBees'', ''Codeship'', ''Okteto'', ''Freshsales'',
    ''Copper'', ''Trustpilot'', ''SentinelOne'', ''Gladly'', ''HelpScout'', ''Mailboxlayer'', ''Hunter'',
    ''AlephAlpha'', ''Inflection'', ''CharacterAI'', ''Hyperbolic'', ''LeptonAI'', ''NovitaAI'', ''Kickbox'',
    ''AbstractAPI'', ''NeverBounce'', ''Snov'', ''Apollo'']"

definition names_6 :: "string list" where
  "names_6 = [
    ''Lemlist'', ''Authentik'', ''Etherscan'', ''Alchemy'', ''Infura'', ''QuickNode'', ''Moralis'',
    ''Blockfrost'', ''Helius'', ''TheGraph'', ''OpenSea'', ''Milvus'', ''Beeceptor'', ''Smee'', ''Ory'',
    ''Supertokens'', ''Statsig'', ''GrowthBook'', ''DevCycle'', ''PubNub'', ''LiveKit'', ''AgoraIO'',
    ''DailyCo'', ''Meilisearch'', ''Typesense'', ''Marqo'', ''Kong'', ''WebhookRelay'', ''RequestBin'',
    ''Ahrefs'', ''Semrush'', ''June'', ''Workday'', ''Qualys'', ''Nebius'', ''DashScope'', ''ModelScope'',
    ''Dify'', ''LobeHub'', ''FusionAuth'', ''Casdoor'', ''EdgeDBCloud'', ''PrismaData'', ''OpenSearchCloud'',
    ''ChromaCloud'', ''Biconomy'', ''SAPAriba'', ''OracleNetSuite'', ''TravisCI'', ''Watsonx'', ''Harbor'',
    ''Fivetran'', ''Airbyte'', ''Coinbase'', ''Bitfinex'', ''Kraken'', ''Outreach'', ''SalesLoft'',
    ''ZoomInfo'', ''Gigya'', ''MoonPay'', ''NearRPC'', ''PolygonRPC'', ''Sproutsocial'', ''Buffer'',
    ''Hootsuite'', ''MagicLabs'', ''Pipedream'', ''Make'', ''N8N'']"

definition names_7 :: "string list" where
  "names_7 = [
    ''SageIntacct'', ''MicrosoftDynamics'', ''Freshmarketer'', ''VespaCloud'', ''SimilarWeb'', ''Vectra'',
    ''Expel'', ''BeyondTrust'', ''GainSight'', ''VertexAI'', ''RekaAI'', ''AIHorde'', ''OllamaCloud'',
    ''RunwayML'', ''Planhat'', ''Vitally'', ''ChurnZero'', ''Totango'', ''Sendoso'', ''Paystack'',
    ''Flutterwave'', ''Mandiant'', ''AbnormalSec'', ''Ortto'', ''Persona'', ''Sumsub'', ''Onfido'',
    ''Jumio'', ''Trulioo'', ''ZeroBounce'', ''MailerSend'', ''OpsLevel'', ''Codemagic'', ''LambdaTest'',
    ''SauceLabs'', ''Browserless'', ''Helicone'', ''Portkey'', ''Langfuse'', ''LangSmith'', ''Wandb'',
    ''CometML'', ''NeptuneAI'', ''PromptLayer'', ''ArizeAI'', ''Hyperproof'', ''Etsy'', ''Walmart'',
    ''WooCommerce'', ''Missiveapp'', ''LiveChat'', ''HelpCrunch'', ''DenoDeploy'', ''Twingate'',
    ''DBTCloud'', ''Tray'', ''Retool'', ''Expo'', ''Alloy'', ''AuditBoard'', ''FireHydrant'', ''IncidentIO'',
    ''Rootly'', ''Sleuth'', ''Sparkpost'', ''SendPulse'', ''Veriff'', ''IDnow'', ''Squarespace'',
    ''Traceloop'']"

definition names_8 :: "string list" where
  "names_8 = [
    ''Klu'', ''Langflow'', ''OpenPipe'', ''Lakera'', ''Footprint'', ''Vouched'', ''Magento'',
    ''BigCommerce'', ''Faire'', ''Tidio'', ''Looker'', ''DeepL'', ''HackerOne'', ''ZeroTier'', ''Fiddler'',
    ''Evidently'', ''Sift'', ''Signifyd'', ''Kount'', ''Intigriti'', ''Bugcrowd'', ''Semgrep'',
    ''TemporalCloud'', ''PrefectCloud'', ''DagsterCloud'', ''FlyMachines'', ''VercelBlob'',
    ''ModeAnalytics'', ''PDFShift'', ''Riskified'', ''Forter'', ''Socure'', ''Agenta'', ''Kayako'',
    ''Customerly'', ''Jellyfish'', ''Swimlane'', ''Parabola'', ''Mailmodo'', ''Neo4jAura'', ''PortSwigger'',
    ''Kagi'', ''ArduinoCloud'', ''ParticleIO'', ''PIIAnonymize'', ''PIIOpenAIPF'', ''HardcodedPassword'',
    ''Pgpass'', ''Netrc'', ''GitCredentialsURL'', ''UnixCryptHash'', ''PHPConfigSecret'',
    ''JSONConfigSecret'', ''FileZillaXML'', ''JetBrainsWebServers'', ''Esmtprc'', ''APIKeyAssignment'',
    ''NpmrcAuth'', ''DjangoConfigSecret'', ''RailsMasterKey'', ''RailsSecretKeyBase'', ''JSLoginCallSecret'',
    ''PuTTYPrivateKey'']"

definition detector_names :: "string list" where
  "detector_names = ''Unknown'' # names_0 @ names_1 @ names_2 @ names_3 @ names_4 @ names_5 @ names_6 @ names_7 @ names_8"

definition DetectorType_String :: "nat \<Rightarrow> string" where
  "DetectorType_String t = (if t < length detector_names then detector_names ! t else ''Unknown'')"

lemmas names_defs = names_0_def names_1_def names_2_def names_3_def names_4_def names_5_def names_6_def names_7_def names_8_def

end
