(* ===== verification/Allowlist.thy ===== *)
theory Allowlist
  imports Sinks DetectorNames
begin

text \<open>
  The allowlist of \<^verbatim>\<open>src/pkg/engine/allowlist.go\<close>: loading and validating rules, matching a finding,
  the segment-wise \<^verbatim>\<open>**\<close> globbing of paths, and the suppressing sink. Parameters: \<open>EqualFold\<close>
  (\<^verbatim>\<open>strings.EqualFold\<close>), \<open>glob\<close> (\<^verbatim>\<open>filepath.Match\<close>; \<^const>\<open>None\<close> is its bad-pattern error), and a rule's
  compiled regular expression as the predicate it decides.
\<close>

section \<open>Rules\<close>

record AllowlistEntry =
  al_Reason :: string
  al_Detector :: string
  al_Raw :: string
  al_RawRegex :: string
  al_Path :: string
  rawRegexCompiled :: "(string \<Rightarrow> bool) option"

type_synonym Allowlist = "AllowlistEntry list"

text \<open>The errors of loading, one per \<^verbatim>\<open>fmt.Errorf\<close> with the values it formats.\<close>

datatype AllowlistError =
  AllowlistRead string
| AllowlistInvalidJSON string
| AllowlistEmptyEntry nat
| AllowlistInvalidRegex nat string string

text \<open>Validation and compilation of one parsed entry; \<open>compile\<close> is \<^verbatim>\<open>regexp.Compile\<close>.\<close>

definition load_entry ::
  "(string \<Rightarrow> string + (string \<Rightarrow> bool)) \<Rightarrow> nat \<Rightarrow> AllowlistEntry \<Rightarrow> AllowlistError + AllowlistEntry" where
  "load_entry compile i e =
     (if al_Detector e = [] \<and> al_Raw e = [] \<and> al_RawRegex e = [] \<and> al_Path e = [] then
        Inl (AllowlistEmptyEntry i)
      else if al_RawRegex e \<noteq> [] then
        (case compile (al_RawRegex e) of
           Inl err \<Rightarrow> Inl (AllowlistInvalidRegex i (al_RawRegex e) err)
         | Inr rx \<Rightarrow> Inr (e\<lparr>rawRegexCompiled := Some rx\<rparr>))
      else Inr e)"

fun load_entries ::
  "(string \<Rightarrow> string + (string \<Rightarrow> bool)) \<Rightarrow> nat \<Rightarrow> AllowlistEntry list \<Rightarrow> AllowlistError + AllowlistEntry list" where
  "load_entries compile i [] = Inr []"
| "load_entries compile i (e # es) =
     (case load_entry compile i e of
        Inl err \<Rightarrow> Inl err
      | Inr e' \<Rightarrow>
        (case load_entries compile (Suc i) es of Inl err \<Rightarrow> Inl err | Inr es' \<Rightarrow> Inr (e' # es')))"

text \<open>\<open>input\<close> is what reading the whole input gives, \<open>parse\<close> is \<^verbatim>\<open>json.Unmarshal\<close> into the rules with no
  compiled expression. An empty input is the nil allowlist.\<close>

definition LoadAllowlist ::
  "(string \<Rightarrow> string + (string \<Rightarrow> bool)) \<Rightarrow> (bytes \<Rightarrow> string + AllowlistEntry list) \<Rightarrow>
   string + bytes \<Rightarrow> AllowlistError + Allowlist option" where
  "LoadAllowlist compile parse input =
     (case input of
        Inl err \<Rightarrow> Inl (AllowlistRead err)
      | Inr data \<Rightarrow>
        if data = [] then Inr None
        else (case parse data of
                Inl err \<Rightarrow> Inl (AllowlistInvalidJSON err)
              | Inr entries \<Rightarrow>
                (case load_entries compile 0 entries of Inl err \<Rightarrow> Inl err | Inr es \<Rightarrow> Inr (Some es))))"

section \<open>Paths\<close>

function matchSegments :: "(string \<Rightarrow> string \<Rightarrow> bool option) \<Rightarrow> string list \<Rightarrow> string list \<Rightarrow> bool" where
  "matchSegments glob [] name = (name = [])"
| "matchSegments glob (p # pattern) name =
     (if p = ''**'' then
        (let rest = dropWhile (\<lambda>q. q = ''**'') pattern in
         if rest = [] then True
         else list_ex (\<lambda>i. matchSegments glob rest (drop i name)) [0..<Suc (length name)])
      else
        (case name of
           [] \<Rightarrow> False
         | n # name' \<Rightarrow> (if glob p n = Some True then matchSegments glob pattern name' else False)))"
  by pat_completeness auto
termination
  by (relation "measure (\<lambda>(glob, pattern, name). length pattern)")
    (auto simp: less_Suc_eq_le length_dropWhile_le)

text \<open>\<^verbatim>\<open>strings.Trim(s, "/")\<close>; \<^verbatim>\<open>filepath.ToSlash\<close> is the identity on the platforms whose separator is
  the slash.\<close>

definition trim_slashes :: "string \<Rightarrow> string" where
  "trim_slashes s = rev (dropWhile (\<lambda>c. c = CHR ''/'') (rev (dropWhile (\<lambda>c. c = CHR ''/'') s)))"

definition globContainsMatch :: "(string \<Rightarrow> string \<Rightarrow> bool option) \<Rightarrow> string \<Rightarrow> string \<Rightarrow> bool" where
  "globContainsMatch glob pattern path =
     (let pattern' = trim_slashes pattern; path' = trim_slashes path in
      if pattern' = [] then path' = []
      else
        let pSegs = split_byte (CHR ''/'') pattern'; pathSegs = split_byte (CHR ''/'') path' in
        list_ex (\<lambda>i. matchSegments glob pSegs (drop i pathSegs)) [0..<Suc (length pathSegs)])"

text \<open>\<^verbatim>\<open>filepath.Base\<close>: the last element after dropping trailing slashes; a dot for the empty path, a slash
  for a path of slashes only.\<close>

definition filepath_Base :: "string \<Rightarrow> string" where
  "filepath_Base path =
     (if path = [] then ''.''
      else
        let p = rev (dropWhile (\<lambda>c. c = CHR ''/'') (rev path)) in
        if p = [] then ''/'' else last (split_byte (CHR ''/'') p))"

definition pathMatch :: "(string \<Rightarrow> string \<Rightarrow> bool option) \<Rightarrow> string \<Rightarrow> string \<Rightarrow> bool" where
  "pathMatch glob pattern path =
     (if pattern = [] then False
      else if bytes_contains pattern ''**'' then globContainsMatch glob pattern path
      else if glob pattern path = Some True then True
      else glob pattern (filepath_Base path) = Some True)"

definition findingPath :: "Finding \<Rightarrow> string" where
  "findingPath f =
     (case Chunk_of f of
        None \<Rightarrow> []
      | Some ch \<Rightarrow>
        (let md = SourceMetadata ch in
         case first_some [
           map_option fs_Path (md_Filesystem md),
           map_option git_File (md_Git md),
           map_option gh_File (md_GitHub md),
           map_option s3_Key (md_S3 md),
           map_option gcs_Object (md_GCS md),
           map_option slack_Channel (md_Slack md),
           map_option gl_Path (md_GitLab md),
           map_option (\<lambda>m. cf_SpaceKey m @ ''/'' @ cf_Title m) (md_Confluence md),
           map_option (\<lambda>m. jira_Project m @ ''/'' @ jira_IssueKey m) (md_Jira md),
           map_option notion_Title (md_Notion md),
           map_option (\<lambda>m. bb_Workspace m @ ''/'' @ bb_Repo m @ ''/'' @ bb_Path m) (md_Bitbucket md),
           map_option stdin_Label (md_Stdin md)]
         of Some p \<Rightarrow> p | None \<Rightarrow> []))"

section \<open>Matching and the sink\<close>

definition entry_matches ::
  "(string \<Rightarrow> string \<Rightarrow> bool) \<Rightarrow> (string \<Rightarrow> string \<Rightarrow> bool option) \<Rightarrow> string \<Rightarrow> string \<Rightarrow> string \<Rightarrow> AllowlistEntry \<Rightarrow> bool" where
  "entry_matches EqualFold glob det raw path e =
     (if al_Detector e \<noteq> [] \<and> \<not> EqualFold (al_Detector e) det then False
      else if al_Raw e \<noteq> [] \<and> al_Raw e \<noteq> raw then False
      else if (case rawRegexCompiled e of None \<Rightarrow> False | Some rx \<Rightarrow> \<not> rx raw) then False
      else if al_Path e \<noteq> [] \<and> \<not> pathMatch glob (al_Path e) path then False
      else True)"

definition Allowlist_Match ::
  "(string \<Rightarrow> string \<Rightarrow> bool) \<Rightarrow> (string \<Rightarrow> string \<Rightarrow> bool option) \<Rightarrow> Allowlist option \<Rightarrow> Finding \<Rightarrow> bool" where
  "Allowlist_Match EqualFold glob a f =
     (case a of
        None \<Rightarrow> False
      | Some entries \<Rightarrow>
        list_ex (entry_matches EqualFold glob (DetectorType_String (Detector f)) (Raw (Result_of f)) (findingPath f)) entries)"

record allowlistSink =
  al_rules :: Allowlist
  al_audit :: bool
  al_suppCount :: nat

text \<open>\<^const>\<open>None\<close> when there are no rules: the constructor then returns the inner sink itself.\<close>

definition NewAllowlistWithAudit :: "Allowlist option \<Rightarrow> bool \<Rightarrow> allowlistSink option" where
  "NewAllowlistWithAudit a audit =
     (case a of None \<Rightarrow> None
      | Some es \<Rightarrow> if es = [] then None else Some \<lparr>al_rules = es, al_audit = audit, al_suppCount = 0\<rparr>)"

definition NewAllowlist :: "Allowlist option \<Rightarrow> allowlistSink option" where
  "NewAllowlist a = NewAllowlistWithAudit a False"

definition allowlist_Emit ::
  "(string \<Rightarrow> string \<Rightarrow> bool) \<Rightarrow> (string \<Rightarrow> string \<Rightarrow> bool option) \<Rightarrow> allowlistSink \<Rightarrow> Finding \<Rightarrow>
   allowlistSink \<times> Finding list \<times> Finding list" where
  "allowlist_Emit EqualFold glob a f =
     (if Allowlist_Match EqualFold glob (Some (al_rules a)) f then
        (a\<lparr>al_suppCount := al_suppCount a + 1\<rparr>, [],
         if al_audit a then [f\<lparr>SuppressedBy := ''allowlist''\<rparr>] else [])
      else (a, [f], []))"

definition allowlist_SuppressedCount :: "allowlistSink \<Rightarrow> nat" where
  "allowlist_SuppressedCount a = al_suppCount a"

section \<open>Correctness of the segment matcher\<close>

text \<open>The declarative meaning of a pattern: \<^verbatim>\<open>**\<close> stands for any number of whole segments, every other
  pattern segment for exactly one segment that \<^verbatim>\<open>filepath.Match\<close> accepts.\<close>

inductive segments_match :: "(string \<Rightarrow> string \<Rightarrow> bool option) \<Rightarrow> string list \<Rightarrow> string list \<Rightarrow> bool"
  for glob where
  Done: "segments_match glob [] []"
| Star: "segments_match glob ps ns \<Longrightarrow> segments_match glob (''**'' # ps) (ms @ ns)"
| Seg: "p \<noteq> ''**'' \<Longrightarrow> glob p n = Some True \<Longrightarrow> segments_match glob ps ns \<Longrightarrow> segments_match glob (p # ps) (n # ns)"

inductive_cases segments_NilE: "segments_match glob [] ns"
inductive_cases segments_ConsE: "segments_match glob (p # ps) ns"

lemma segments_stars_all: "list_all (\<lambda>q. q = ''**'') ps \<Longrightarrow> ps \<noteq> [] \<Longrightarrow> segments_match glob ps ns"
proof (induction ps)
  case (Cons p ps)
  show ?case
  proof (cases "ps = []")
    case True
    then show ?thesis using Cons.prems Star [OF Done, of glob ns] by simp
  next
    case False
    then show ?thesis using Cons Star [of glob ps ns "[]"] by simp
  qed
qed simp

lemma segments_star_absorb:
  "segments_match glob (''**'' # dropWhile (\<lambda>q. q = ''**'') ps) ns \<longleftrightarrow> segments_match glob (''**'' # ps) ns"
proof (induction ps)
  case (Cons p ps)
  have "segments_match glob (''**'' # ps) ns \<longleftrightarrow> segments_match glob (''**'' # ''**'' # ps) ns"
  proof
    assume "segments_match glob (''**'' # ps) ns"
    then show "segments_match glob (''**'' # ''**'' # ps) ns" using Star [of glob "''**'' # ps" ns "[]"] by simp
  next
    assume "segments_match glob (''**'' # ''**'' # ps) ns"
    then obtain a b where "ns = a @ b" "segments_match glob (''**'' # ps) b" by (auto elim: segments_ConsE)
    then obtain c d where "ns = (a @ c) @ d" "segments_match glob ps d" by (auto elim: segments_ConsE)
    then show "segments_match glob (''**'' # ps) ns" using Star [of glob ps d "a @ c"] by simp
  qed
  with Cons show ?case by simp
qed simp

lemma segments_star_iff:
  "segments_match glob (''**'' # ps) ns \<longleftrightarrow> (\<exists>i \<le> length ns. segments_match glob ps (drop i ns))"
proof
  assume "segments_match glob (''**'' # ps) ns"
  then obtain a b where "ns = a @ b" "segments_match glob ps b" by (auto elim: segments_ConsE)
  then show "\<exists>i \<le> length ns. segments_match glob ps (drop i ns)" by (intro exI [of _ "length a"]) simp
next
  assume "\<exists>i \<le> length ns. segments_match glob ps (drop i ns)"
  then show "segments_match glob (''**'' # ps) ns" using Star append_take_drop_id by metis
qed

lemma matchSegments_iff: "matchSegments glob ps ns \<longleftrightarrow> segments_match glob ps ns"
proof (induction glob ps ns rule: matchSegments.induct)
  case (1 glob name)
  show ?case by (auto intro: Done elim: segments_NilE)
next
  case (2 glob p pattern name)
  let ?rest = "dropWhile (\<lambda>q. q = ''**'') pattern"
  show ?case
  proof (cases "p = ''**''")
    case star: True
    show ?thesis
    proof (cases "?rest = []")
      case True
      then have "list_all (\<lambda>q. q = ''**'') (p # pattern)"
        using star by (simp add: dropWhile_eq_Nil_conv list_all_iff)
      then show ?thesis using star True segments_stars_all [of "p # pattern" glob name] by simp
    next
      case False
      have "matchSegments glob (p # pattern) name \<longleftrightarrow> (\<exists>i \<le> length name. matchSegments glob ?rest (drop i name))"
        using star False by (auto simp: list_ex_iff less_Suc_eq_le Bex_def simp del: upt_Suc)
      also have "\<dots> \<longleftrightarrow> (\<exists>i \<le> length name. segments_match glob ?rest (drop i name))"
        using "2.IH"(1) [OF star refl False] by (auto simp: less_Suc_eq_le simp del: upt_Suc)
      finally show ?thesis
        using star segments_star_absorb [of glob pattern name] segments_star_iff [of glob ?rest name] by simp
    qed
  next
    case False
    show ?thesis
    proof (cases name)
      case Nil
      then show ?thesis using False by (auto elim: segments_ConsE)
    next
      case (Cons n name')
      then show ?thesis using False "2.IH"(2) [OF False Cons] by (auto intro: Seg elim: segments_ConsE)
    qed
  qed
qed

text \<open>C36. The recursive glob matcher decides the declarative meaning of a pattern for any segment matcher:
  a double star stands for zero or more whole segments, every other segment matches exactly one,
  adjacent double stars collapse, and a segment with a malformed pattern never matches. The
  unanchored search therefore accepts a path exactly when some suffix of its segments matches.\<close>

theorem globContainsMatch_iff:
  "globContainsMatch glob pattern path \<longleftrightarrow>
     (if trim_slashes pattern = [] then trim_slashes path = []
      else \<exists>skipped rest. split_byte (CHR ''/'') (trim_slashes path) = skipped @ rest \<and>
             segments_match glob (split_byte (CHR ''/'') (trim_slashes pattern)) rest)"
proof -
  have "(\<exists>i < Suc (length xs). P (drop i xs)) \<longleftrightarrow> (\<exists>a b. xs = a @ b \<and> P b)" for P and xs :: "string list"
    by (metis append_eq_conv_conj append_take_drop_id length_append le_add1 less_Suc_eq_le)
  then show ?thesis
    by (simp add: globContainsMatch_def Let_def list_ex_iff Bex_def matchSegments_iff del: upt_Suc)
qed

section \<open>Correctness of the sink\<close>

interpretation allowlist: filter_sink "allowlist_Emit EqualFold glob"
  "\<lambda>a f. \<not> Allowlist_Match EqualFold glob (Some (al_rules a)) f" for EqualFold glob
  by unfold_locales (simp add: allowlist_Emit_def)

lemma entry_matches_iff:
  "entry_matches ef glob det raw path e \<longleftrightarrow>
     (al_Detector e = [] \<or> ef (al_Detector e) det) \<and> (al_Raw e = [] \<or> al_Raw e = raw) \<and>
     (rawRegexCompiled e = None \<or> the (rawRegexCompiled e) raw) \<and> (al_Path e = [] \<or> pathMatch glob (al_Path e) path)"
  by (cases "rawRegexCompiled e") (simp_all add: entry_matches_def)

lemma allowlist_run:
  "fst (run_emits (allowlist_Emit ef glob) a fs) =
     a\<lparr>al_suppCount := al_suppCount a + length (filter (Allowlist_Match ef glob (Some (al_rules a))) fs)\<rparr> \<and>
   forwarded (run_emits (allowlist_Emit ef glob) a fs) =
     filter (\<lambda>f. \<not> Allowlist_Match ef glob (Some (al_rules a)) f) fs"
  by (induction fs arbitrary: a) (simp_all add: allowlist_Emit_def)

text \<open>C37. A suppressed finding is always accounted for: the allowlist sink forwards exactly the findings that no
  rule matches, in order, its rules never change, and the suppression count grows by exactly the
  number of findings it held back. A rule matches only if every criterion it states holds.\<close>

theorem allowlist_sink_exact:
  "forwarded (run_emits (allowlist_Emit ef glob) a fs) =
     filter (\<lambda>f. \<not> Allowlist_Match ef glob (Some (al_rules a)) f) fs \<and>
   al_rules (fst (run_emits (allowlist_Emit ef glob) a fs)) = al_rules a \<and>
   allowlist_SuppressedCount (fst (run_emits (allowlist_Emit ef glob) a fs)) + length (forwarded (run_emits (allowlist_Emit ef glob) a fs))
     = allowlist_SuppressedCount a + length fs \<and>
   (Allowlist_Match ef glob (Some (al_rules a)) f \<longleftrightarrow>
     (\<exists>e \<in> set (al_rules a).
        (al_Detector e = [] \<or> ef (al_Detector e) (DetectorType_String (Detector f))) \<and>
        (al_Raw e = [] \<or> al_Raw e = Raw (Result_of f)) \<and>
        (rawRegexCompiled e = None \<or> the (rawRegexCompiled e) (Raw (Result_of f))) \<and>
        (al_Path e = [] \<or> pathMatch glob (al_Path e) (findingPath f))))"
proof (intro conjI)
  let ?P = "Allowlist_Match ef glob (Some (al_rules a))"
  note run = allowlist_run [of ef glob a fs]
  show "forwarded (run_emits (allowlist_Emit ef glob) a fs) = filter (\<lambda>f. \<not> ?P f) fs"
    "al_rules (fst (run_emits (allowlist_Emit ef glob) a fs)) = al_rules a" using run by simp_all
  show "allowlist_SuppressedCount (fst (run_emits (allowlist_Emit ef glob) a fs)) + length (forwarded (run_emits (allowlist_Emit ef glob) a fs))
     = allowlist_SuppressedCount a + length fs"
    using run sum_length_filter_compl [of ?P fs] by (simp add: allowlist_SuppressedCount_def)
  show "?P f \<longleftrightarrow> (\<exists>e \<in> set (al_rules a).
        (al_Detector e = [] \<or> ef (al_Detector e) (DetectorType_String (Detector f))) \<and>
        (al_Raw e = [] \<or> al_Raw e = Raw (Result_of f)) \<and>
        (rawRegexCompiled e = None \<or> the (rawRegexCompiled e) (Raw (Result_of f))) \<and>
        (al_Path e = [] \<or> pathMatch glob (al_Path e) (findingPath f)))"
    by (simp add: Allowlist_Match_def list_ex_iff entry_matches_iff)
qed

text \<open>Loading keeps only rules that state a criterion.\<close>

lemma load_entries_valid:
  "load_entries compile i es = Inr es' \<Longrightarrow>
     length es' = length es \<and>
     list_all (\<lambda>e. (al_Detector e \<noteq> [] \<or> al_Raw e \<noteq> [] \<or> al_RawRegex e \<noteq> [] \<or> al_Path e \<noteq> []) \<and>
       (al_RawRegex e = [] \<or> rawRegexCompiled e \<noteq> None)) es'"
proof (induction es arbitrary: i es')
  case (Cons e es)
  then obtain e' es2 where "load_entry compile i e = Inr e'" "load_entries compile (Suc i) es = Inr es2" "es' = e' # es2"
    by (auto split: sum.splits)
  with Cons.IH [of "Suc i" es2] show ?case
    by (auto simp: load_entry_def split: if_splits sum.splits)
qed simp

text \<open>No rule without a criterion is ever loaded (it would suppress every finding): a loaded allowlist has
  as many rules as the file, each states a detector, a raw value, a regular expression or a path,
  and each stated regular expression has been compiled.\<close>

theorem LoadAllowlist_valid:
  assumes "LoadAllowlist compile parse input = Inr (Some es)"
  shows "(\<exists>data entries. input = Inr data \<and> data \<noteq> [] \<and> parse data = Inr entries \<and> length es = length entries) \<and>
    list_all (\<lambda>e. (al_Detector e \<noteq> [] \<or> al_Raw e \<noteq> [] \<or> al_RawRegex e \<noteq> [] \<or> al_Path e \<noteq> []) \<and>
      (al_RawRegex e = [] \<or> rawRegexCompiled e \<noteq> None)) es"
proof -
  obtain data entries where "input = Inr data" "data \<noteq> []" "parse data = Inr entries"
    and load: "load_entries compile 0 entries = Inr es"
    using assms by (auto simp: LoadAllowlist_def split: sum.splits if_splits)
  then show ?thesis using load_entries_valid [OF load] by auto
qed

definition sample_entry :: AllowlistEntry where
  "sample_entry = \<lparr>al_Reason = [], al_Detector = ''AWS'', al_Raw = [], al_RawRegex = [], al_Path = ''test/**'', rawRegexCompiled = None\<rparr>"

theorem LoadAllowlist_valid_witness:
  "LoadAllowlist (\<lambda>s. Inl s) (\<lambda>d. Inr [sample_entry]) (Inr ''x'') = Inr (Some [sample_entry]) \<and>
   list_all (\<lambda>e. (al_Detector e \<noteq> [] \<or> al_Raw e \<noteq> [] \<or> al_RawRegex e \<noteq> [] \<or> al_Path e \<noteq> []) \<and>
      (al_RawRegex e = [] \<or> rawRegexCompiled e \<noteq> None)) [sample_entry]"
proof -
  have "LoadAllowlist (\<lambda>s. Inl s) (\<lambda>d. Inr [sample_entry]) (Inr ''x'') = Inr (Some [sample_entry])"
    by (simp add: LoadAllowlist_def load_entry_def sample_entry_def)
  with LoadAllowlist_valid [OF this] show ?thesis by blast
qed

end
