(* ===== verification/VerificationCache.thy ===== *)
theory VerificationCache
  imports Detectors
begin

text \<open>
  The verification cache of \<^verbatim>\<open>src/pkg/engine/verification_cache.go\<close>: a bounded map from candidate digests
  to verdict bits with first-in-first-out replacement in a ring, the digests, and the cache-aware
  detector call \<open>fromData\<close>. \<open>sha\<close> stands for SHA-256. A key is the digest's byte string.
  Go's nil and empty slices are one value here, as are nil and empty maps; the code does not tell them apart.
\<close>

section \<open>The ring\<close>

type_synonym verificationCacheKey = bytes

record verificationCacheEntry =
  ce_key :: verificationCacheKey
  ce_verified :: bool

record verificationCache =
  capacity :: nat
  vals :: "verificationCacheKey \<rightharpoonup> bool"
  order :: "verificationCacheKey list"
  next_slot :: nat

definition defaultVerificationCacheCapacity :: int where
  "defaultVerificationCacheCapacity = 100000"

definition newVerificationCache :: "int \<Rightarrow> verificationCache" where
  "newVerificationCache cap =
     \<lparr>capacity = nat (if cap < 0 then 0 else cap), vals = Map.empty, order = [], next_slot = 0\<rparr>"

definition cache_get :: "verificationCache \<Rightarrow> verificationCacheKey \<Rightarrow> bool option" where
  "cache_get c key = (if capacity c = 0 then None else vals c key)"

definition cache_has :: "verificationCache \<Rightarrow> verificationCacheKey \<Rightarrow> bool" where
  "cache_has c key \<longleftrightarrow> cache_get c key \<noteq> None"

text \<open>One turn of the loop of \<^verbatim>\<open>setAll\<close>; \<^const>\<open>None\<close> is an index out of range.\<close>

definition set_entry ::
  "verificationCacheEntry \<Rightarrow> verificationCache \<times> nat \<Rightarrow> (verificationCache \<times> nat) option" where
  "set_entry entry cn =
     (let (c, evictions) = cn in
      if vals c (ce_key entry) \<noteq> None then
        Some (c\<lparr>vals := (vals c)(ce_key entry \<mapsto> ce_verified entry)\<rparr>, evictions)
      else if length (order c) < capacity c then
        Some (c\<lparr>order := order c @ [ce_key entry], vals := (vals c)(ce_key entry \<mapsto> ce_verified entry)\<rparr>, evictions)
      else do {
        old \<leftarrow> geti (order c) (next_slot c);
        keys \<leftarrow> seti (order c) (next_slot c) (ce_key entry);
        Some (c\<lparr>vals := ((vals c)(old := None))(ce_key entry \<mapsto> ce_verified entry), order := keys,
                next_slot := (next_slot c + 1) mod capacity c\<rparr>, evictions + 1)
      })"

definition setAll :: "verificationCache \<Rightarrow> verificationCacheEntry list \<Rightarrow> (verificationCache \<times> nat) option" where
  "setAll c entries = (if capacity c = 0 then Some (c, 0) else foldM set_entry entries (c, 0))"

definition cache_set :: "verificationCache \<Rightarrow> verificationCacheKey \<Rightarrow> (verificationCache \<times> nat) option" where
  "cache_set c key = setAll c [\<lparr>ce_key = key, ce_verified = False\<rparr>]"

definition cache_clear :: "verificationCache \<Rightarrow> verificationCache" where
  "cache_clear c = c\<lparr>vals := Map.empty, order := [], next_slot := 0\<rparr>"

section \<open>Keys\<close>

text \<open>\<^verbatim>\<open>binary.BigEndian.PutUint32/64\<close>: \<open>k\<close> bytes, most significant first.\<close>

fun be_bytes :: "nat \<Rightarrow> nat \<Rightarrow> bytes" where
  "be_bytes 0 n = []"
| "be_bytes (Suc k) n = char_of (n div 256 ^ k mod 256) # be_bytes k n"

definition key_preimage :: "nat \<Rightarrow> DetectorType \<Rightarrow> bytes \<Rightarrow> bytes \<Rightarrow> bytes \<Rightarrow> bytes" where
  "key_preimage detectorIndex detectorType raw rawV2 inputDigest =
     be_bytes 4 detectorType @ be_bytes 8 detectorIndex @ be_bytes 8 (length raw) @ be_bytes 8 (length rawV2)
     @ raw @ rawV2 @ inputDigest"

definition verificationKey ::
  "(bytes \<Rightarrow> bytes) \<Rightarrow> nat \<Rightarrow> DetectorType \<Rightarrow> Result \<Rightarrow> bytes \<Rightarrow> verificationCacheKey option" where
  "verificationKey sha detectorIndex detectorType result inputDigest =
     (if Raw result = [] \<and> RawV2 result = [] then None
      else Some (sha (key_preimage detectorIndex detectorType (Raw result) (RawV2 result) inputDigest)))"

definition verificationFlightKey :: "(bytes \<Rightarrow> bytes) \<Rightarrow> verificationCacheKey list \<Rightarrow> bytes" where
  "verificationFlightKey sha keys =
     (case keys of
        [key] \<Rightarrow> key
      | _ \<Rightarrow> sha (be_bytes 8 (length keys) @ concat (sort keys)))"

fun candidateVerificationKeys ::
  "(bytes \<Rightarrow> bytes) \<Rightarrow> nat \<Rightarrow> DetectorType \<Rightarrow> bytes \<Rightarrow> Result list \<Rightarrow> verificationCacheKey list option" where
  "candidateVerificationKeys sha idx t digest [] = Some []"
| "candidateVerificationKeys sha idx t digest (r # rs) =
     (case verificationKey sha idx t r digest of
        None \<Rightarrow> None
      | Some key \<Rightarrow>
        if Verified r \<or> VerificationErr r \<noteq> None then None
        else map_option ((#) key) (candidateVerificationKeys sha idx t digest rs))"

section \<open>Using and filling the cache\<close>

record cacheStats =
  verificationCacheHits :: int
  verificationCacheMisses :: int
  verificationCacheHitsWasted :: int
  verificationCacheBypasses :: int
  verificationCacheEvictions :: int
  verifiedPassesSaved :: int
  verifiedDetectorCalls :: int

text \<open>The verdicts of all keys, or the number of hits before the first miss.\<close>

fun lookup_all :: "verificationCache \<Rightarrow> verificationCacheKey list \<Rightarrow> nat \<Rightarrow> nat + bool list" where
  "lookup_all c [] hits = Inr []"
| "lookup_all c (key # keys) hits =
     (case cache_get c key of
        None \<Rightarrow> Inl hits
      | Some v \<Rightarrow> (case lookup_all c keys (Suc hits) of Inl n \<Rightarrow> Inl n | Inr vs \<Rightarrow> Inr (v # vs)))"

definition applyCachedVerification ::
  "verificationCache \<Rightarrow> verificationCacheKey list \<Rightarrow> Result list \<Rightarrow> bool \<Rightarrow> cacheStats \<Rightarrow>
   Result list option \<times> cacheStats" where
  "applyCachedVerification c keys results recordStats st =
     (case lookup_all c keys 0 of
        Inl hits \<Rightarrow>
          (None, if recordStats
                 then st\<lparr>verificationCacheMisses := verificationCacheMisses st + 1,
                         verificationCacheHitsWasted := verificationCacheHitsWasted st + int hits\<rparr>
                 else st)
      | Inr verdicts \<Rightarrow>
          (Some (map2 (\<lambda>r v. r\<lparr>Verified := v\<rparr>) results verdicts),
           if recordStats then st\<lparr>verificationCacheHits := verificationCacheHits st + int (length verdicts)\<rparr>
           else st))"

text \<open>\<^verbatim>\<open>reflect.DeepEqual\<close> on results is equality of every field.\<close>

definition equalExceptVerification :: "Result \<Rightarrow> Result \<Rightarrow> bool" where
  "equalExceptVerification a b \<longleftrightarrow>
     DetectorType a = DetectorType b \<and> VerificationAssurance a = VerificationAssurance b \<and>
     Severity a = Severity b \<and> Raw a = Raw b \<and> RawV2 a = RawV2 b \<and> Redacted a = Redacted b \<and>
     ExtraData a = ExtraData b"

definition entry_match ::
  "(bytes \<Rightarrow> bytes) \<Rightarrow> nat \<Rightarrow> DetectorType \<Rightarrow> bytes \<Rightarrow> Result list \<Rightarrow> bool list \<Rightarrow> Result \<Rightarrow> nat \<Rightarrow> bool" where
  "entry_match sha idx t digest verified used before i \<longleftrightarrow>
     \<not> (used ! i \<or> VerificationErr (verified ! i) \<noteq> None) \<and>
     verificationKey sha idx t before digest \<noteq> None \<and>
     verificationKey sha idx t (verified ! i) digest = verificationKey sha idx t before digest \<and>
     equalExceptVerification before (verified ! i)"

fun cacheable_loop ::
  "(bytes \<Rightarrow> bytes) \<Rightarrow> nat \<Rightarrow> DetectorType \<Rightarrow> bytes \<Rightarrow> Result list \<Rightarrow> Result list \<Rightarrow>
   bool list \<Rightarrow> verificationCacheEntry list \<Rightarrow> (verificationCacheKey \<rightharpoonup> bool) \<Rightarrow> verificationCacheEntry list" where
  "cacheable_loop sha idx t digest verified [] used entries verdicts = entries"
| "cacheable_loop sha idx t digest verified (before # rest) used entries verdicts =
     (case verificationKey sha idx t before digest of
        None \<Rightarrow> []
      | Some key \<Rightarrow>
        if Verified before \<or> VerificationErr before \<noteq> None then []
        else
          (case find (entry_match sha idx t digest verified used before) [0..<length verified] of
             None \<Rightarrow> []
           | Some i \<Rightarrow>
             (let used' = used[i := True]; verdict = Verified (verified ! i) in
              case verdicts key of
                Some cached \<Rightarrow>
                  if cached \<noteq> verdict then []
                  else cacheable_loop sha idx t digest verified rest used' entries verdicts
              | None \<Rightarrow>
                  cacheable_loop sha idx t digest verified rest used'
                    (entries @ [\<lparr>ce_key = key, ce_verified = verdict\<rparr>]) (verdicts(key \<mapsto> verdict)))))"

definition cacheableVerificationEntries ::
  "(bytes \<Rightarrow> bytes) \<Rightarrow> nat \<Rightarrow> DetectorType \<Rightarrow> bytes \<Rightarrow> Result list \<Rightarrow> Result list \<Rightarrow> verificationCacheEntry list" where
  "cacheableVerificationEntries sha idx t digest unverified verified =
     (if unverified = [] \<or> length unverified \<noteq> length verified then []
      else cacheable_loop sha idx t digest verified unverified (replicate (length verified) False) [] Map.empty)"

section \<open>The cache-aware detector call\<close>

text \<open>
  A detector as the engine sees it, with the engine's per-detector tables: \<open>FromData\<close> returns the
  candidates and an error. A verified call may reach the network, so its outcome is also indexed
  by the number of verified calls made so far: two calls may differ.
\<close>

type_synonym outcome = "Result list \<times> string option"

record detector_slot =
  ds_Type :: DetectorType
  ds_index :: nat
  ds_isVerifier :: bool
  ds_cacheable :: bool
  ds_usesData :: bool
  ds_assurance :: VerificationAssurance
  ds_unverified :: "bytes \<Rightarrow> outcome"
  ds_verified :: "int \<Rightarrow> bytes \<Rightarrow> outcome"

record verify_opts =
  NoVerify :: bool
  MinimumVerificationAssurance :: VerificationAssurance

definition wants_verify :: "verify_opts \<Rightarrow> detector_slot \<Rightarrow> bool" where
  "wants_verify opts d =
     (let verify = \<not> NoVerify opts in
      if verify \<and> MinimumVerificationAssurance opts \<noteq> AssuranceUnknown
      then MinimumVerificationAssurance opts \<le> ds_assurance d else verify)"

definition detector_FromData :: "detector_slot \<Rightarrow> bool \<Rightarrow> int \<Rightarrow> bytes \<Rightarrow> outcome" where
  "detector_FromData d verify turn data = (if verify then ds_verified d turn data else ds_unverified d data)"

definition callVerifiedDetector :: "detector_slot \<Rightarrow> bytes \<Rightarrow> cacheStats \<Rightarrow> outcome \<times> cacheStats" where
  "callVerifiedDetector d data st =
     (ds_verified d (verifiedDetectorCalls st) data,
      st\<lparr>verifiedDetectorCalls := verifiedDetectorCalls st + 1\<rparr>)"

definition input_digest :: "(bytes \<Rightarrow> bytes) \<Rightarrow> detector_slot \<Rightarrow> bytes \<Rightarrow> bytes" where
  "input_digest sha d data = (if ds_usesData d then sha data else replicate 32 (CHR 0x00))"

text \<open>
  The function run by \<^verbatim>\<open>singleflight.Group.Do\<close> when this caller leads the flight. The results are
  \<^const>\<open>None\<close> when another flight filled the cache in between.
\<close>

definition lead_flight ::
  "(bytes \<Rightarrow> bytes) \<Rightarrow> detector_slot \<Rightarrow> bytes \<Rightarrow> verificationCacheKey list \<Rightarrow> Result list \<Rightarrow>
   verificationCache \<Rightarrow> cacheStats \<Rightarrow> (outcome option \<times> verificationCache \<times> cacheStats) option" where
  "lead_flight sha d data keys unverified c st =
     (case applyCachedVerification c keys unverified False st of
        (Some _, st1) \<Rightarrow> Some (None, c, st1)
      | (None, st1) \<Rightarrow>
        (let ((verified, verifyErr), st2) = callVerifiedDetector d data st1 in
         if verifyErr = None then do {
           (c', n) \<leftarrow> setAll c (cacheableVerificationEntries sha (ds_index d) (ds_Type d)
                      (input_digest sha d data) unverified verified);
           Some (Some (verified, None), c', st2\<lparr>verificationCacheEvictions := verificationCacheEvictions st2 + int n\<rparr>)
         } else Some (Some (verified, verifyErr), c, st2)))"

text \<open>
  \<^verbatim>\<open>fromData\<close>. \<open>joined\<close> is \<^const>\<open>None\<close> when this caller runs the flight itself; when it waits for
  another caller's flight it is the cache that flight left behind. The cache may also have changed
  between the first lookup and the flight: \<open>c1\<close> is the cache the leader sees.
\<close>

definition fromData ::
  "(bytes \<Rightarrow> bytes) \<Rightarrow> verify_opts \<Rightarrow> detector_slot \<Rightarrow> bytes \<Rightarrow> verificationCache \<Rightarrow> verificationCache \<Rightarrow>
   verificationCache option \<Rightarrow> cacheStats \<Rightarrow> (outcome \<times> verificationCache \<times> cacheStats) option" where
  "fromData sha opts d data c c1 joined st =
     (let verify = wants_verify opts d in
      if \<not> verify \<or> \<not> ds_isVerifier d then
        Some (detector_FromData d verify (verifiedDetectorCalls st) data, c, st)
      else if \<not> ds_cacheable d then
        (let st1 = st\<lparr>verificationCacheBypasses := verificationCacheBypasses st + 1\<rparr>;
             (out, st2) = callVerifiedDetector d data st1 in Some (out, c, st2))
      else
        let (unverified, err) = ds_unverified d data in
        if err \<noteq> None then Some (([], err), c, st)
        else
          (case candidateVerificationKeys sha (ds_index d) (ds_Type d) (input_digest sha d data) unverified of
             None \<Rightarrow> (let (out, st1) = callVerifiedDetector d data st in Some (out, c, st1))
           | Some keys \<Rightarrow>
             (case applyCachedVerification c keys unverified True st of
                (Some results, st1) \<Rightarrow>
                  Some ((results, None), c,
                    if unverified \<noteq> [] then st1\<lparr>verifiedPassesSaved := verifiedPassesSaved st1 + 1\<rparr> else st1)
              | (None, st1) \<Rightarrow> do {
                  (led, c2, st2) \<leftarrow>
                    (case joined of
                       None \<Rightarrow> lead_flight sha d data keys unverified c1 st1
                     | Some cj \<Rightarrow> Some (None, cj, st1));
                  (case led of
                     Some out \<Rightarrow> Some (out, c2, st2)
                   | None \<Rightarrow>
                     (case applyCachedVerification c2 keys unverified True st2 of
                        (Some results, st3) \<Rightarrow>
                          Some ((results, None), c2, st3\<lparr>verifiedPassesSaved := verifiedPassesSaved st3 + 1\<rparr>)
                      | (None, st3) \<Rightarrow>
                          (let (out, st4) = callVerifiedDetector d data st3 in Some (out, c2, st4))))
                })))"

end
