(* ===== verification/VerificationCacheCorrect.thy ===== *)
theory VerificationCacheCorrect
  imports VerificationCache
begin

text \<open>
  Correctness of the verification cache: the ring implements a bounded first-in-first-out map
  (interface \<open>bounded_cache\<close>), keys identify a candidate, only clean verdicts are stored, and a
  verdict served from the cache is the verdict of that very candidate.
\<close>

section \<open>The ring invariant\<close>

definition cache_inv :: "verificationCache \<Rightarrow> bool" where
  "cache_inv c \<longleftrightarrow>
     distinct (order c) \<and> set (order c) = dom (vals c) \<and> length (order c) \<le> capacity c \<and>
     next_slot c < max 1 (capacity c) \<and> (length (order c) = capacity c \<or> next_slot c = 0)"

text \<open>The keys from oldest to newest, and the specification of an insertion into a bounded queue.\<close>

definition fifo :: "verificationCache \<Rightarrow> verificationCacheKey list" where
  "fifo c = drop (next_slot c) (order c) @ take (next_slot c) (order c)"

definition fifo_insert :: "nat \<Rightarrow> 'k list \<Rightarrow> 'k \<Rightarrow> 'k list" where
  "fifo_insert cap q k = (if k \<in> set q then q else if length q < cap then q @ [k] else tl q @ [k])"

lemma set_fifo [simp]: "set (fifo c) = set (order c)"
  by (metis append_take_drop_id fifo_def set_append sup_commute)

lemma length_fifo [simp]: "next_slot c \<le> length (order c) \<Longrightarrow> length (fifo c) = length (order c)"
  by (simp add: fifo_def)

lemma distinct_fifo: "distinct (order c) \<Longrightarrow> distinct (fifo c)"
  by (metis append_take_drop_id distinct_append fifo_def inf_commute)

lemma replace_oldest:
  assumes "n < length xs"
  shows "drop ((n + 1) mod length xs) (xs[n := k]) @ take ((n + 1) mod length xs) (xs[n := k])
    = tl (drop n xs @ take n xs) @ [k]"
proof (cases "n + 1 = length xs")
  case True
  then have "drop n xs = [xs ! n]" using assms by (simp add: Cons_nth_drop_Suc [symmetric])
  moreover have "xs[n := k] = take n xs @ [k]"
    using True by (simp add: upd_conv_take_nth_drop assms)
  ultimately show ?thesis using True by simp
next
  case False
  then have n: "n + 1 < length xs" using assms by simp
  then have "drop n xs = xs ! n # drop (Suc n) xs" by (simp add: Cons_nth_drop_Suc)
  moreover have "take (Suc n) (xs[n := k]) = take n xs @ [k]" using n by (simp add: take_Suc_conv_app_nth)
  ultimately show ?thesis using n by simp
qed

lemma set_entry_new:
  assumes "cache_inv c" "capacity c \<noteq> 0" "vals c (ce_key e) = None"
  shows "\<exists>c' n'. set_entry e (c, n) = Some (c', n') \<and> cache_inv c' \<and> capacity c' = capacity c \<and>
    fifo c' = fifo_insert (capacity c) (fifo c) (ce_key e) \<and>
    vals c' = (vals c |` set (fifo c'))(ce_key e \<mapsto> ce_verified e) \<and>
    n' = (if length (order c) < capacity c then n else Suc n)"
proof -
  have inv: "distinct (order c)" "set (order c) = dom (vals c)" "length (order c) \<le> capacity c"
    "next_slot c < capacity c" "length (order c) = capacity c \<or> next_slot c = 0"
    using assms by (auto simp: cache_inv_def)
  have fresh: "ce_key e \<notin> set (order c)" using inv(2) assms(3) by auto
  show ?thesis
  proof (cases "length (order c) < capacity c")
    case True
    then have "next_slot c = 0" using inv by auto
    moreover have "vals c |` (insert k (set (order c))) = vals c" if "vals c k = None" for k
      using inv(2) that by (auto simp: restrict_map_def fun_eq_iff dom_def)
    ultimately show ?thesis
      using True inv fresh assms(3)
      by (auto simp: set_entry_def cache_inv_def fifo_def fifo_insert_def)
  next
    case False
    then have len: "length (order c) = capacity c" using inv by simp
    then have i: "next_slot c < length (order c)" using inv by simp
    let ?n = "next_slot c" and ?o = "order c"
    let ?o' = "?o[?n := ce_key e]"
    define c' where "c' = c\<lparr>vals := ((vals c)(?o ! ?n := None))(ce_key e \<mapsto> ce_verified e), order := ?o', next_slot := (?n + 1) mod capacity c\<rparr>"
    have so: "set ?o' = insert (ce_key e) (set ?o - {?o ! ?n})"
      using inv(1) i by (simp add: set_update_distinct)
    have "distinct ?o'" using inv(1) fresh i by (simp add: distinct_list_update)
    moreover have "dom (((vals c)(?o ! ?n := None))(ce_key e \<mapsto> ce_verified e)) = set ?o'"
      using inv(2) so by auto
    moreover have "((vals c)(?o ! ?n := None))(ce_key e \<mapsto> ce_verified e)
        = (vals c |` set ?o')(ce_key e \<mapsto> ce_verified e)"
      using inv(2) so by (auto simp: restrict_map_def fun_eq_iff dom_def)
    moreover have "(?n + 1) mod capacity c < max 1 (capacity c)" using assms(2) by (simp add: max_def)
    ultimately have inv': "cache_inv c'" and vals': "vals c' = (vals c |` set (fifo c'))(ce_key e \<mapsto> ce_verified e)"
      using len unfolding set_fifo by (simp_all add: cache_inv_def c'_def)
    have "fifo c' = tl (fifo c) @ [ce_key e]"
      using replace_oldest [OF i, of "ce_key e"] len by (simp add: fifo_def c'_def)
    also have "\<dots> = fifo_insert (capacity c) (fifo c) (ce_key e)" using fresh len i by (simp add: fifo_insert_def)
    finally have "fifo c' = fifo_insert (capacity c) (fifo c) (ce_key e)" .
    moreover have "set_entry e (c, n) = Some (c', Suc n)" "capacity c' = capacity c"
      using False i assms(3) by (simp_all add: set_entry_def c'_def)
    ultimately show ?thesis using inv' vals' False by metis
  qed
qed

lemma set_entry_old:
  assumes "cache_inv c" "vals c (ce_key e) \<noteq> None"
  shows "\<exists>c'. set_entry e (c, n) = Some (c', n) \<and> cache_inv c' \<and> capacity c' = capacity c \<and> fifo c' = fifo c \<and>
    vals c' = (vals c)(ce_key e \<mapsto> ce_verified e)"
  using assms by (auto simp: set_entry_def cache_inv_def fifo_def)

lemma fifo_restrict: "cache_inv c \<Longrightarrow> vals c |` set (fifo c) = vals c"
  by (auto simp: cache_inv_def restrict_map_def fun_eq_iff dom_def)

lemma set_entry_ok:
  assumes "cache_inv c" "capacity c \<noteq> 0"
  shows "\<exists>c' n'. set_entry e (c, n) = Some (c', n') \<and> cache_inv c' \<and> capacity c' = capacity c \<and>
    fifo c' = fifo_insert (capacity c) (fifo c) (ce_key e) \<and>
    vals c' = (vals c |` set (fifo c'))(ce_key e \<mapsto> ce_verified e) \<and>
    n' + card (dom (vals c')) = n + card (dom (vals c)) + (if ce_key e \<in> set (fifo c) then 0 else 1)"
proof -
  have card: "card (dom (vals k)) = length (order k)" if "cache_inv k" for k
    using that by (metis cache_inv_def distinct_card)
  show ?thesis
  proof (cases "vals c (ce_key e)")
    case None
    then have new: "ce_key e \<notin> set (fifo c)" using assms(1) by (auto simp: cache_inv_def)
    obtain c' n' where c': "set_entry e (c, n) = Some (c', n')" "cache_inv c'" "capacity c' = capacity c"
      "fifo c' = fifo_insert (capacity c) (fifo c) (ce_key e)"
      "vals c' = (vals c |` set (fifo c'))(ce_key e \<mapsto> ce_verified e)"
      "n' = (if length (order c) < capacity c then n else Suc n)"
      using set_entry_new [OF assms None, of n] by blast
    have "next_slot k \<le> length (order k)" if "cache_inv k" for k using that by (auto simp: cache_inv_def)
    then have "length (order c') = length (fifo_insert (capacity c) (fifo c) (ce_key e))" "length (fifo c) = length (order c)"
      using c'(2,4) length_fifo assms(1) by metis+
    then have "n' + length (order c') = n + length (order c) + 1"
      using c'(6) new assms by (auto simp: fifo_insert_def cache_inv_def)
    then have "n' + card (dom (vals c')) = n + card (dom (vals c)) + (if ce_key e \<in> set (fifo c) then 0 else 1)"
      using card [OF c'(2)] card [OF assms(1)] new by simp
    with c'(1-5) show ?thesis by blast
  next
    case (Some v)
    then have old: "ce_key e \<in> set (fifo c)" using assms(1) by (auto simp: cache_inv_def)
    from set_entry_old [OF assms(1), of e n] Some obtain c' where
      c': "set_entry e (c, n) = Some (c', n)" "cache_inv c'" "capacity c' = capacity c" "fifo c' = fifo c"
      "vals c' = (vals c)(ce_key e \<mapsto> ce_verified e)" by auto
    then have "dom (vals c') = dom (vals c)" using Some by auto
    then have "card (dom (vals c')) = card (dom (vals c))" by simp
    moreover have "fifo c' = fifo_insert (capacity c) (fifo c) (ce_key e)"
      "vals c' = (vals c |` set (fifo c'))(ce_key e \<mapsto> ce_verified e)"
      using c'(4,5) old fifo_restrict [OF assms(1)] by (simp_all add: fifo_insert_def)
    ultimately show ?thesis using c'(1-3) old by (intro exI [of _ c'] exI [of _ n]) simp
  qed
qed

section \<open>A batch of entries\<close>

definition entry_map :: "verificationCacheEntry list \<Rightarrow> verificationCacheKey \<rightharpoonup> bool" where
  "entry_map es = map_of (rev (map (\<lambda>e. (ce_key e, ce_verified e)) es))"

lemma entry_map_Nil [simp]: "entry_map [] = Map.empty"
  by (simp add: entry_map_def)

lemma entry_map_Cons: "entry_map (e # es) = [ce_key e \<mapsto> ce_verified e] ++ entry_map es"
  by (simp add: entry_map_def map_of_append)

lemma dom_entry_map: "dom (entry_map es) = ce_key ` set es"
  by (auto simp: entry_map_def dom_map_of_conv_image_fst image_image)

lemma entry_map_Some: "entry_map es k = Some v \<Longrightarrow> \<exists>e \<in> set es. ce_key e = k \<and> ce_verified e = v"
  by (force simp: entry_map_def dest: map_of_SomeD)

lemma fifo_insert_set: "set (fifo_insert cap q k) \<subseteq> insert k (set q)"
  by (cases q) (auto simp: fifo_insert_def)

lemma fifo_inserts_set: "set (foldl (fifo_insert cap) q ks) \<subseteq> set q \<union> set ks"
proof (induction ks arbitrary: q)
  case (Cons k ks)
  then show ?case using Cons [of "fifo_insert cap q k"] fifo_insert_set [of cap q k] by auto
qed simp

lemma set_entries_ok:
  assumes "cache_inv c" "capacity c \<noteq> 0"
  shows "\<exists>c' n'. foldM set_entry es (c, n) = Some (c', n') \<and> cache_inv c' \<and> capacity c' = capacity c \<and>
    fifo c' = foldl (fifo_insert (capacity c)) (fifo c) (map ce_key es) \<and>
    vals c' = (vals c ++ entry_map es) |` set (fifo c')"
  using assms
proof (induction es arbitrary: c n)
  case Nil
  then show ?case using fifo_restrict by simp
next
  case (Cons e es)
  obtain c1 n1 where c1: "set_entry e (c, n) = Some (c1, n1)" "cache_inv c1" "capacity c1 = capacity c"
    "fifo c1 = fifo_insert (capacity c) (fifo c) (ce_key e)"
    "vals c1 = (vals c |` set (fifo c1))(ce_key e \<mapsto> ce_verified e)"
    using set_entry_ok [OF Cons.prems, of e n] by blast
  have "capacity c1 \<noteq> 0" using c1(3) Cons.prems(2) by simp
  from Cons.IH [OF c1(2) this, of n1] obtain c2 n2 where c2: "foldM set_entry es (c1, n1) = Some (c2, n2)" "cache_inv c2" "capacity c2 = capacity c1"
    "fifo c2 = foldl (fifo_insert (capacity c1)) (fifo c1) (map ce_key es)"
    "vals c2 = (vals c1 ++ entry_map es) |` set (fifo c2)"
    by blast
  have "set (fifo c2) \<subseteq> set (fifo c1) \<union> dom (entry_map es)"
    using fifo_inserts_set [of "capacity c1" "fifo c1" "map ce_key es"] c2(4) by (simp add: dom_entry_map)
  moreover have "k \<in> set (fifo c2) \<Longrightarrow> k \<notin> dom (entry_map es) \<Longrightarrow> k \<in> set (fifo c1)" for k
    using calculation by auto
  ultimately have "vals c2 = (vals c ++ entry_map (e # es)) |` set (fifo c2)"
    unfolding c2(5) c1(5) by (auto simp: fun_eq_iff restrict_map_def entry_map_Cons map_add_def split: option.splits)
  moreover have "foldM set_entry (e # es) (c, n) = Some (c2, n2)" "capacity c2 = capacity c"
    "fifo c2 = foldl (fifo_insert (capacity c)) (fifo c) (map ce_key (e # es))"
    using c1(1,3,4) c2(1,3,4) by simp_all
  ultimately show ?case using c2(2) by blast
qed

text \<open>C23. The ring is a bounded first-in-first-out map: storing a batch of verdicts never panics, keeps the ring's
  invariant (distinct keys, exactly the keys of the map, at most the capacity), inserts each new
  key at the end of the queue and evicts from its front, and afterwards the map holds for every
  surviving key its most recent verdict.\<close>

theorem setAll_fifo:
  assumes "cache_inv c"
  shows "\<exists>c' n. setAll c es = Some (c', n) \<and> cache_inv c' \<and> capacity c' = capacity c \<and>
    card (dom (vals c')) \<le> capacity c \<and>
    (if capacity c = 0 then c' = c
     else fifo c' = foldl (fifo_insert (capacity c)) (fifo c) (map ce_key es) \<and>
       vals c' = (vals c ++ entry_map es) |` set (fifo c'))"
proof -
  have card: "card (dom (vals k)) \<le> capacity k" if "cache_inv k" for k
    using that distinct_card [of "order k"] by (simp add: cache_inv_def)
  show ?thesis
  proof (cases "capacity c = 0")
    case True
    then show ?thesis using assms card [of c] by (simp add: setAll_def)
  next
    case False
    obtain c' n where "foldM set_entry es (c, 0) = Some (c', n)" "cache_inv c'" "capacity c' = capacity c"
      "fifo c' = foldl (fifo_insert (capacity c)) (fifo c) (map ce_key es)"
      "vals c' = (vals c ++ entry_map es) |` set (fifo c')" using set_entries_ok [OF assms False, of es 0] by blast
    then show ?thesis using False card [of c'] by (intro exI [of _ c'] exI [of _ n]) (simp add: setAll_def del: set_fifo)
  qed
qed

theorem setAll_fifo_witness:
  "cache_inv (newVerificationCache 1) \<and>
   (\<exists>c' n. setAll (newVerificationCache 1) [\<lparr>ce_key = ''a'', ce_verified = True\<rparr>, \<lparr>ce_key = ''b'', ce_verified = False\<rparr>]
       = Some (c', n) \<and> fifo c' = [''b''])"
proof -
  have inv: "cache_inv (newVerificationCache 1)" by (simp add: cache_inv_def newVerificationCache_def)
  have "fifo (newVerificationCache 1) = []" "capacity (newVerificationCache 1) = 1"
    by (simp_all add: fifo_def newVerificationCache_def)
  with inv setAll_fifo [OF inv, of "[\<lparr>ce_key = ''a'', ce_verified = True\<rparr>, \<lparr>ce_key = ''b'', ce_verified = False\<rparr>]"]
  show ?thesis by (auto simp: fifo_insert_def)
qed

lemma setAll_ok: "cache_inv c \<Longrightarrow> \<exists>c' n. setAll c es = Some (c', n) \<and> cache_inv c'"
  using set_entries_ok [of c es 0] by (cases "capacity c = 0") (auto simp: setAll_def)

lemma setAll_provenance:
  assumes "cache_inv c" "setAll c es = Some (c', n)" "cache_get c' k = Some v"
  shows "(\<exists>e \<in> set es. ce_key e = k \<and> ce_verified e = v) \<or> cache_get c k = Some v"
proof (cases "capacity c = 0")
  case True
  then show ?thesis using assms by (simp add: setAll_def)
next
  case False
  then have "vals c' = (vals c ++ entry_map es) |` set (fifo c')"
    using set_entries_ok [OF assms(1) False, of es 0] assms(2) by (auto simp: setAll_def simp del: set_fifo)
  then have "(vals c ++ entry_map es) k = Some v"
    using assms(3) by (auto simp: cache_get_def restrict_map_def split: if_splits)
  then show ?thesis using False by (auto simp: map_add_Some_iff cache_get_def dest: entry_map_Some)
qed

section \<open>The interface the detector call relies on\<close>

text \<open>A store of verdicts: storing succeeds and keeps the invariant, and whatever is served was stored.\<close>

locale verdict_store =
  fixes get :: "'s \<Rightarrow> 'k \<Rightarrow> 'v option"
    and put :: "'s \<Rightarrow> 'e list \<Rightarrow> ('s \<times> 'n) option"
    and inv :: "'s \<Rightarrow> bool"
    and key_of :: "'e \<Rightarrow> 'k"
    and value_of :: "'e \<Rightarrow> 'v"
  assumes put_ok: "inv s \<Longrightarrow> \<exists>s' n. put s es = Some (s', n) \<and> inv s'"
    and put_provenance: "inv s \<Longrightarrow> put s es = Some (s', n) \<Longrightarrow> get s' k = Some v \<Longrightarrow>
      (\<exists>e \<in> set es. key_of e = k \<and> value_of e = v) \<or> get s k = Some v"
begin

definition holds :: "('k \<Rightarrow> 'v \<Rightarrow> bool) \<Rightarrow> 's \<Rightarrow> bool" where
  "holds P s \<longleftrightarrow> inv s \<and> (\<forall>k v. get s k = Some v \<longrightarrow> P k v)"

lemma put_holds:
  assumes "holds P s" "\<And>e. e \<in> set es \<Longrightarrow> P (key_of e) (value_of e)"
  shows "\<exists>s' n. put s es = Some (s', n) \<and> holds P s'"
proof -
  have inv: "inv s" using assms(1) by (simp add: holds_def)
  obtain s' n where put: "put s es = Some (s', n)" "inv s'" using put_ok [OF inv] by blast
  have "P k v" if "get s' k = Some v" for k v
    using put_provenance [OF inv put(1) that] assms by (auto simp: holds_def)
  then show ?thesis using put by (auto simp: holds_def)
qed

lemma get_holds: "holds P s \<Longrightarrow> get s k = Some v \<Longrightarrow> P k v"
  by (simp add: holds_def)

end

interpretation cache: verdict_store cache_get setAll cache_inv ce_key ce_verified
  by unfold_locales (rule setAll_ok, simp, rule setAll_provenance)

section \<open>Keys identify a candidate\<close>

lemma length_be_bytes [simp]: "length (be_bytes k n) = k"
  by (induction k) simp_all

lemma be_bytes_eq_iff: "be_bytes k m = be_bytes k n \<longleftrightarrow> m mod 256 ^ k = n mod 256 ^ k"
proof (induction k)
  case (Suc k)
  have digit: "(char_of (x mod 256) :: byte) = char_of (y mod 256) \<longleftrightarrow> x mod 256 = y mod 256" for x y :: nat
    using code_char_of [of "x mod 256"] code_char_of [of "y mod 256"] by (metis mod_less_divisor zero_less_numeral)
  have split: "x mod 256 ^ Suc k = 256 ^ k * (x div 256 ^ k mod 256) + x mod 256 ^ k" for x :: nat
    using mod_mult2_eq [of x "256 ^ k" 256] by (simp add: mult.commute)
  have "x mod 256 ^ Suc k = y mod 256 ^ Suc k \<longleftrightarrow>
      x div 256 ^ k mod 256 = y div 256 ^ k mod 256 \<and> x mod 256 ^ k = y mod 256 ^ k" for x y :: nat
  proof
    assume eq: "x mod 256 ^ Suc k = y mod 256 ^ Suc k"
    have "x mod 256 ^ Suc k div 256 ^ k = x div 256 ^ k mod 256" "x mod 256 ^ Suc k mod 256 ^ k = x mod 256 ^ k" for x :: nat
      unfolding split by simp_all
    with eq show "x div 256 ^ k mod 256 = y div 256 ^ k mod 256 \<and> x mod 256 ^ k = y mod 256 ^ k" by metis
  qed (simp only: split)
  then show ?case using Suc digit by simp
qed simp

lemma be_bytes_inj: "m < 256 ^ k \<Longrightarrow> n < 256 ^ k \<Longrightarrow> be_bytes k m = be_bytes k n \<longleftrightarrow> m = n"
  by (simp add: be_bytes_eq_iff)

text \<open>The machine ranges of the header's fields.\<close>

definition key_fits :: "nat \<Rightarrow> DetectorType \<Rightarrow> bytes \<Rightarrow> bytes \<Rightarrow> bool" where
  "key_fits idx t raw rawV2 \<longleftrightarrow> t < 2 ^ 32 \<and> idx < 2 ^ 64 \<and> length raw < 2 ^ 64 \<and> length rawV2 < 2 ^ 64"

lemma key_preimage_inj:
  assumes "key_preimage idx t raw rawV2 dg = key_preimage idx' t' raw' rawV2' dg'"
    and "key_fits idx t raw rawV2" "key_fits idx' t' raw' rawV2'"
  shows "idx = idx' \<and> t = t' \<and> raw = raw' \<and> rawV2 = rawV2' \<and> dg = dg'"
proof -
  have "be_bytes 4 t = be_bytes 4 t'" "be_bytes 8 idx = be_bytes 8 idx'"
    "be_bytes 8 (length raw) = be_bytes 8 (length raw')" "be_bytes 8 (length rawV2) = be_bytes 8 (length rawV2')"
    and rest: "raw @ rawV2 @ dg = raw' @ rawV2' @ dg'"
    using assms(1) by (simp_all add: key_preimage_def)
  then have "t = t'" "idx = idx'" "length raw = length raw'" "length rawV2 = length rawV2'"
    using assms(2,3) be_bytes_inj by (simp_all add: key_fits_def)
  then show ?thesis using rest by simp
qed

text \<open>C24. A cache key identifies detector instance, detector type, both secrets and the input digest: with the
  lengths in the header no two different candidates are hashed from the same bytes, in particular
  no boundary between the two secrets can be shifted.\<close>

theorem verificationKey_preimage_inj:
  assumes "key_fits idx t (Raw r) (RawV2 r)" "key_fits idx' t' (Raw r') (RawV2 r')" "inj sha"
    and "verificationKey sha idx t r dg \<noteq> None"
  shows "verificationKey sha idx t r dg = verificationKey sha idx' t' r' dg' \<longleftrightarrow>
    idx = idx' \<and> t = t' \<and> Raw r = Raw r' \<and> RawV2 r = RawV2 r' \<and> dg = dg'"
proof
  assume eq: "verificationKey sha idx t r dg = verificationKey sha idx' t' r' dg'"
  then have "sha (key_preimage idx t (Raw r) (RawV2 r) dg) = sha (key_preimage idx' t' (Raw r') (RawV2 r') dg')"
    using assms(4) by (auto simp: verificationKey_def split: if_splits)
  then have "key_preimage idx t (Raw r) (RawV2 r) dg = key_preimage idx' t' (Raw r') (RawV2 r') dg'"
    using assms(3) by (simp add: inj_eq)
  from key_preimage_inj [OF this assms(1,2)]
  show "idx = idx' \<and> t = t' \<and> Raw r = Raw r' \<and> RawV2 r = RawV2 r' \<and> dg = dg'" .
qed (auto simp: verificationKey_def)

definition sample_candidate :: "bytes \<Rightarrow> bytes \<Rightarrow> Result" where
  "sample_candidate raw rawV2 = \<lparr>DetectorType = 1, Verified = False, VerificationErr = None,
     VerificationAssurance = AssuranceUnknown, Severity = SeverityUnknown, Raw = raw, RawV2 = rawV2,
     Redacted = [], ExtraData = Map.empty\<rparr>"

theorem verificationKey_preimage_inj_witness:
  "verificationKey (\<lambda>x. x) 0 1 (sample_candidate ''ab'' ''c'') [] \<noteq> verificationKey (\<lambda>x. x) 0 1 (sample_candidate ''a'' ''bc'') []"
  using verificationKey_preimage_inj [of 0 1 "sample_candidate ''ab'' ''c''" 0 1 "sample_candidate ''a'' ''bc''" "\<lambda>x. x" "[]" "[]"]
  by (simp add: sample_candidate_def key_fits_def verificationKey_def)

section \<open>Served verdicts are true\<close>

text \<open>
  \<open>truth\<close> is the provider's verdict of a candidate: a function of the detector instance, the secrets
  and the digest of the input (the zero digest unless the detector declares that verification uses
  the whole input). A detector that may use the cache keeps its documented contract when every
  verified result without an error carries that verdict.
\<close>

type_synonym truth = "nat \<Rightarrow> DetectorType \<Rightarrow> bytes \<Rightarrow> bytes \<Rightarrow> bytes \<Rightarrow> bool"

definition clean_verdict :: "(bytes \<Rightarrow> bytes) \<Rightarrow> truth \<Rightarrow> detector_slot \<Rightarrow> bytes \<Rightarrow> Result \<Rightarrow> bool" where
  "clean_verdict sha truth d data r \<longleftrightarrow>
     VerificationErr r \<noteq> None \<or> Verified r = truth (ds_index d) (ds_Type d) (Raw r) (RawV2 r) (input_digest sha d data)"

definition honest_slot :: "(bytes \<Rightarrow> bytes) \<Rightarrow> truth \<Rightarrow> detector_slot \<Rightarrow> bool" where
  "honest_slot sha truth d \<longleftrightarrow>
     (\<forall>turn data. \<forall>r \<in> set (fst (ds_verified d turn data)).
        clean_verdict sha truth d data r \<and> key_fits (ds_index d) (ds_Type d) (Raw r) (RawV2 r)) \<and>
     (\<forall>data. \<forall>r \<in> set (fst (ds_unverified d data)). key_fits (ds_index d) (ds_Type d) (Raw r) (RawV2 r))"

definition true_entry :: "(bytes \<Rightarrow> bytes) \<Rightarrow> truth \<Rightarrow> verificationCacheKey \<Rightarrow> bool \<Rightarrow> bool" where
  "true_entry sha truth k v \<longleftrightarrow>
     (\<forall>idx t raw rawV2 dg. key_fits idx t raw rawV2 \<and> k = sha (key_preimage idx t raw rawV2 dg)
        \<longrightarrow> v = truth idx t raw rawV2 dg)"

definition true_cache :: "(bytes \<Rightarrow> bytes) \<Rightarrow> truth \<Rightarrow> verificationCache \<Rightarrow> bool" where
  "true_cache sha truth c \<longleftrightarrow> cache.holds (true_entry sha truth) c"

lemma candidate_keys_ok:
  "candidateVerificationKeys sha idx t dg rs = Some keys \<Longrightarrow>
     length keys = length rs \<and>
     (\<forall>i < length rs. keys ! i = sha (key_preimage idx t (Raw (rs ! i)) (RawV2 (rs ! i)) dg) \<and> VerificationErr (rs ! i) = None)"
proof (induction rs arbitrary: keys)
  case (Cons r rs)
  then obtain key ks where k: "verificationKey sha idx t r dg = Some key" "VerificationErr r = None"
    "candidateVerificationKeys sha idx t dg rs = Some ks" "keys = key # ks"
    by (auto split: option.splits if_splits)
  then show ?case using Cons.IH [OF k(3)]
    by (auto simp: verificationKey_def less_Suc_eq_0_disj split: if_splits)
qed simp

lemma lookup_all_ok:
  "lookup_all c keys h = Inr vs \<Longrightarrow> length vs = length keys \<and> (\<forall>i < length keys. cache_get c (keys ! i) = Some (vs ! i))"
proof (induction keys arbitrary: h vs)
  case (Cons k keys)
  then obtain v vs' where "cache_get c k = Some v" "lookup_all c keys (Suc h) = Inr vs'" "vs = v # vs'"
    by (auto split: option.splits sum.splits)
  with Cons.IH [of "Suc h" vs'] show ?case by (auto simp: less_Suc_eq_0_disj)
qed simp

lemma applied_clean:
  assumes "true_cache sha truth c" "honest_slot sha truth d"
    and "candidateVerificationKeys sha (ds_index d) (ds_Type d) (input_digest sha d data) (fst (ds_unverified d data)) = Some keys"
    and "applyCachedVerification c keys (fst (ds_unverified d data)) rec st = (Some results, st')"
  shows "list_all (clean_verdict sha truth d data) results"
proof -
  let ?rs = "fst (ds_unverified d data)"
  note keys = candidate_keys_ok [OF assms(3)]
  obtain vs where vs: "lookup_all c keys 0 = Inr vs" "results = map2 (\<lambda>r v. r\<lparr>Verified := v\<rparr>) ?rs vs"
    using assms(4) by (auto simp: applyCachedVerification_def split: sum.splits)
  note look = lookup_all_ok [OF vs(1)]
  have "clean_verdict sha truth d data ((?rs ! i)\<lparr>Verified := vs ! i\<rparr>)" if i: "i < length ?rs" for i
  proof -
    have fits: "key_fits (ds_index d) (ds_Type d) (Raw (?rs ! i)) (RawV2 (?rs ! i))"
      using assms(2) i nth_mem by (fastforce simp: honest_slot_def)
    have "cache_get c (keys ! i) = Some (vs ! i)" using look keys i by simp
    then have "true_entry sha truth (keys ! i) (vs ! i)"
      using assms(1) cache.get_holds by (auto simp: true_cache_def)
    then show ?thesis using keys i fits by (auto simp: true_entry_def clean_verdict_def)
  qed
  then show ?thesis using vs(2) look keys by (auto simp: list_all_length)
qed

lemma cacheable_loop_sound:
  assumes "e \<in> set (cacheable_loop sha idx t dg verified rest used entries verdicts)"
  shows "e \<in> set entries \<or> (\<exists>r \<in> set verified. VerificationErr r = None \<and>
    verificationKey sha idx t r dg = Some (ce_key e) \<and> ce_verified e = Verified r)"
  using assms
proof (induction sha idx t dg verified rest used entries verdicts rule: cacheable_loop.induct)
  case (2 sha idx t dg verified before rest used entries verdicts)
  from "2.prems" obtain key i where key: "verificationKey sha idx t before dg = Some key"
    "\<not> (Verified before \<or> VerificationErr before \<noteq> None)"
    "find (entry_match sha idx t dg verified used before) [0..<length verified] = Some i"
    by (cases "verificationKey sha idx t before dg"; cases "Verified before \<or> VerificationErr before \<noteq> None";
      cases "find (entry_match sha idx t dg verified used before) [0..<length verified]") auto
  then have i: "i < length verified" "VerificationErr (verified ! i) = None"
    "verificationKey sha idx t (verified ! i) dg = Some key"
    by (auto simp: find_Some_iff entry_match_def)
  show ?case
  proof (cases "verdicts key")
    case None
    from "2.IH"(1) [OF key(1,2,3) refl refl None] show ?thesis
      using "2.prems" key None i nth_mem [OF i(1)] by (auto simp: Let_def fun_upd_def)
  next
    case (Some v)
    then show ?thesis using "2.IH"(2) [OF key(1,2,3) refl refl Some] "2.prems" key by (auto simp: Let_def split: if_splits)
  qed
qed simp

lemma stored_entries_true:
  assumes "inj sha" "honest_slot sha truth d"
    and "e \<in> set (cacheableVerificationEntries sha (ds_index d) (ds_Type d) (input_digest sha d data) unverified
           (fst (ds_verified d turn data)))"
  shows "true_entry sha truth (ce_key e) (ce_verified e)"
proof -
  obtain r where r: "r \<in> set (fst (ds_verified d turn data))" "VerificationErr r = None"
    "verificationKey sha (ds_index d) (ds_Type d) r (input_digest sha d data) = Some (ce_key e)" "ce_verified e = Verified r"
    using assms(3) cacheable_loop_sound by (fastforce simp: cacheableVerificationEntries_def split: if_splits)
  have fits: "key_fits (ds_index d) (ds_Type d) (Raw r) (RawV2 r)"
    and true: "Verified r = truth (ds_index d) (ds_Type d) (Raw r) (RawV2 r) (input_digest sha d data)"
    using assms(2) r(1,2) by (fastforce simp: honest_slot_def clean_verdict_def)+
  have k: "ce_key e = sha (key_preimage (ds_index d) (ds_Type d) (Raw r) (RawV2 r) (input_digest sha d data))"
    using r(3) by (auto simp: verificationKey_def split: if_splits)
  have "ce_verified e = truth idx t raw rawV2 dg"
    if "key_fits idx t raw rawV2" "ce_key e = sha (key_preimage idx t raw rawV2 dg)" for idx t raw rawV2 dg
  proof -
    have "key_preimage (ds_index d) (ds_Type d) (Raw r) (RawV2 r) (input_digest sha d data) = key_preimage idx t raw rawV2 dg"
      using that(2) k assms(1) by (simp add: inj_eq)
    from key_preimage_inj [OF this fits that(1)] show ?thesis using true r(4) by simp
  qed
  then show ?thesis by (simp add: true_entry_def)
qed

lemma verified_call_clean:
  assumes "honest_slot sha truth d" "callVerifiedDetector d data st = (out, st')"
  shows "list_all (clean_verdict sha truth d data) (fst out)"
  using assms by (auto simp: callVerifiedDetector_def honest_slot_def list_all_iff)

lemma lead_flight_ok:
  assumes "inj sha" "honest_slot sha truth d" "true_cache sha truth c"
  shows "\<exists>led c' st'. lead_flight sha d data keys unverified c st = Some (led, c', st') \<and> true_cache sha truth c' \<and>
    (case led of None \<Rightarrow> True | Some out \<Rightarrow> list_all (clean_verdict sha truth d data) (fst out))"
proof (cases "applyCachedVerification c keys unverified False st")
  case (Pair res st1)
  show ?thesis
  proof (cases res)
    case (Some rs)
    then show ?thesis using Pair assms(3) by (simp add: lead_flight_def)
  next
    case None
    obtain vs err where v: "ds_verified d (verifiedDetectorCalls st1) data = (vs, err)" by fastforce
    have clean: "list_all (clean_verdict sha truth d data) vs"
      using verified_call_clean [OF assms(2), of data st1] v by (simp add: callVerifiedDetector_def)
    let ?es = "cacheableVerificationEntries sha (ds_index d) (ds_Type d) (input_digest sha d data) unverified vs"
    have "\<exists>c' n. setAll c ?es = Some (c', n) \<and> cache.holds (true_entry sha truth) c'"
      using stored_entries_true [OF assms(1,2), of _ data unverified "verifiedDetectorCalls st1"] assms(3) v
      by (intro cache.put_holds) (auto simp: true_cache_def)
    then show ?thesis
      using Pair None v clean assms(3)
      by (cases err) (auto simp: lead_flight_def callVerifiedDetector_def true_cache_def)
  qed
qed

text \<open>C22. The cache never changes a verdict: for a detector that keeps its documented contract, and a
  collision-free digest, every result of the cache-aware call that carries no verification error
  has the provider's verdict of exactly that candidate, whether it was served from the cache, by
  this caller's flight, after waiting for another caller's flight or by a direct call; the call
  does not panic, and the cache it leaves behind holds true verdicts only.\<close>

theorem fromData_verdicts_true:
  assumes "inj sha" "honest_slot sha truth d"
    and "true_cache sha truth c" "true_cache sha truth c1" "case joined of None \<Rightarrow> True | Some cj \<Rightarrow> true_cache sha truth cj"
    and "wants_verify opts d" "ds_isVerifier d"
  shows "\<exists>out c' st'. fromData sha opts d data c c1 joined st = Some (out, c', st') \<and> true_cache sha truth c' \<and>
    list_all (clean_verdict sha truth d data) (fst out)"
proof -
  have call: "list_all (clean_verdict sha truth d data) (fst (ds_verified d turn data))" for turn
    using assms(2) by (auto simp: honest_slot_def list_all_iff)
  show ?thesis
  proof (cases "ds_cacheable d")
    case False
    then show ?thesis using assms(3,6,7) call by (simp add: fromData_def callVerifiedDetector_def)
  next
    case cacheable: True
    obtain us err where u: "ds_unverified d data = (us, err)" by fastforce
    let ?keys = "candidateVerificationKeys sha (ds_index d) (ds_Type d) (input_digest sha d data) us"
    show ?thesis
    proof (cases "err \<noteq> None \<or> ?keys = None")
      case True
      obtain vs e where "ds_verified d (verifiedDetectorCalls st) data = (vs, e)" by fastforce
      with True show ?thesis using cacheable assms(3,6,7) u call [of "verifiedDetectorCalls st"]
        by (auto simp: fromData_def callVerifiedDetector_def)
    next
      case False
      then obtain keys where keys: "err = None" "?keys = Some keys" by auto
      note served = applied_clean [OF _ assms(2), of _ data keys, unfolded u, simplified, OF _ keys(2)]
      obtain res st1 where first: "applyCachedVerification c keys us True st = (res, st1)" by fastforce
      show ?thesis
      proof (cases res)
        case (Some rs)
        then show ?thesis using cacheable assms(3,6,7) u keys first served by (auto simp: fromData_def)
      next
        case None
        obtain led c2 st2 where led:
          "(case joined of None \<Rightarrow> lead_flight sha d data keys us c1 st1 | Some cj \<Rightarrow> Some (None, cj, st1)) = Some (led, c2, st2)"
          "true_cache sha truth c2" "case led of None \<Rightarrow> True | Some out \<Rightarrow> list_all (clean_verdict sha truth d data) (fst out)"
          using lead_flight_ok [OF assms(1,2,4), of data keys us st1] assms(5) by (cases joined) auto
        obtain res2 st3 where second: "applyCachedVerification c2 keys us True st2 = (res2, st3)" by fastforce
        show ?thesis
          using cacheable assms(6,7) u keys first None led second served [OF led(2)] call
          by (cases led; cases res2) (auto simp: fromData_def callVerifiedDetector_def)
      qed
    qed
  qed
qed

text \<open>A detector that accepts exactly one secret, with a cache that already knows it.\<close>

definition sample_slot :: detector_slot where
  "sample_slot = \<lparr>ds_Type = 1, ds_index = 0, ds_isVerifier = True, ds_cacheable = True, ds_usesData = False,
     ds_assurance = AssuranceProviderConfirmed,
     ds_unverified = (\<lambda>data. ([sample_candidate ''live'' []], None)),
     ds_verified = (\<lambda>turn data. ([(sample_candidate ''live'' [])\<lparr>Verified := True\<rparr>], None))\<rparr>"

definition sample_truth :: truth where
  "sample_truth idx t raw rawV2 dg \<longleftrightarrow> raw = ''live''"

definition zero_stats :: cacheStats where
  "zero_stats = \<lparr>verificationCacheHits = 0, verificationCacheMisses = 0, verificationCacheHitsWasted = 0,
     verificationCacheBypasses = 0, verificationCacheEvictions = 0, verifiedPassesSaved = 0, verifiedDetectorCalls = 0\<rparr>"

theorem fromData_verdicts_true_witness:
  "\<exists>out c' st'. fromData (\<lambda>x. x) \<lparr>NoVerify = False, MinimumVerificationAssurance = AssuranceUnknown\<rparr> sample_slot ''key=live''
      (newVerificationCache 10) (newVerificationCache 10) None zero_stats = Some (out, c', st') \<and>
    true_cache (\<lambda>x. x) sample_truth c' \<and> list_all (clean_verdict (\<lambda>x. x) sample_truth sample_slot ''key=live'') (fst out)"
proof (rule fromData_verdicts_true)
  show "honest_slot (\<lambda>x. x) sample_truth sample_slot"
    by (simp add: honest_slot_def sample_slot_def sample_truth_def clean_verdict_def sample_candidate_def key_fits_def)
  show "true_cache (\<lambda>x. x) sample_truth (newVerificationCache 10)"
    "true_cache (\<lambda>x. x) sample_truth (newVerificationCache 10)"
    by (simp_all add: true_cache_def cache.holds_def cache_inv_def newVerificationCache_def cache_get_def)
qed (simp_all add: wants_verify_def sample_slot_def)

end
