(* ===== verification/EngineLines.thy ===== *)
theory EngineLines
  imports Sources
begin

text \<open>
  Where a finding is and how serious it is: the per-result finalisation of \<^verbatim>\<open>src/pkg/engine/engine.go\<close>.
  Line attribution (\<^verbatim>\<open>computeLineFromMatch\<close>, \<^verbatim>\<open>sourceLine\<close>, \<^verbatim>\<open>setChunkLine\<close>, \<^verbatim>\<open>chunkForFinding\<close>,
  \<^verbatim>\<open>chunkWithMatchLine\<close>), the verification-assurance policy, the blast-radius tag, and the names used
  for archives and failures.
\<close>

section \<open>Lines\<close>

definition computeLineFromMatch :: "bytes \<Rightarrow> bytes \<Rightarrow> int \<Rightarrow> int" where
  "computeLineFromMatch data raw base =
     (if raw = [] then 0
      else case bytes_index data raw of
             None \<Rightarrow> 0
           | Some idx \<Rightarrow> (if base \<le> 0 then 1 else base) + int (bytes_count_newlines (take idx data)))"

definition hasSourceLine :: "Chunk option \<Rightarrow> bool" where
  "hasSourceLine c =
     (case c of
        None \<Rightarrow> False
      | Some ch \<Rightarrow>
        (let md = SourceMetadata ch in
         md_Filesystem md \<noteq> None \<or> md_Git md \<noteq> None \<or> md_GitHub md \<noteq> None \<or> md_Forge md \<noteq> None \<or>
         md_SQLDump md \<noteq> None \<or> md_DockerImage md \<noteq> None))"

definition metadata_line :: "Metadata \<Rightarrow> int" where
  "metadata_line md =
     (if md_Filesystem md \<noteq> None then fs_Line (the (md_Filesystem md))
      else if md_Git md \<noteq> None then git_Line (the (md_Git md))
      else if md_GitHub md \<noteq> None then gh_Line (the (md_GitHub md))
      else if md_Forge md \<noteq> None then forge_Line (the (md_Forge md))
      else if md_SQLDump md \<noteq> None then sql_Line (the (md_SQLDump md))
      else if md_DockerImage md \<noteq> None then docker_Line (the (md_DockerImage md))
      else 0)"

definition sourceLine :: "Chunk option \<Rightarrow> int" where
  "sourceLine c = (case c of None \<Rightarrow> 0 | Some ch \<Rightarrow> metadata_line (SourceMetadata ch))"

definition metadata_with_line :: "int \<Rightarrow> Metadata \<Rightarrow> Metadata" where
  "metadata_with_line line md =
     (if md_Filesystem md \<noteq> None then md\<lparr>md_Filesystem := Some ((the (md_Filesystem md))\<lparr>fs_Line := line\<rparr>)\<rparr>
      else if md_Git md \<noteq> None then md\<lparr>md_Git := Some ((the (md_Git md))\<lparr>git_Line := line\<rparr>)\<rparr>
      else if md_GitHub md \<noteq> None then md\<lparr>md_GitHub := Some ((the (md_GitHub md))\<lparr>gh_Line := line\<rparr>)\<rparr>
      else if md_Forge md \<noteq> None then md\<lparr>md_Forge := Some ((the (md_Forge md))\<lparr>forge_Line := line\<rparr>)\<rparr>
      else if md_SQLDump md \<noteq> None then md\<lparr>md_SQLDump := Some ((the (md_SQLDump md))\<lparr>sql_Line := line\<rparr>)\<rparr>
      else if md_DockerImage md \<noteq> None then md\<lparr>md_DockerImage := Some ((the (md_DockerImage md))\<lparr>docker_Line := line\<rparr>)\<rparr>
      else md)"

definition setChunkLine :: "Chunk \<Rightarrow> int \<Rightarrow> Chunk" where
  "setChunkLine c line = (if line \<le> 0 then c else c\<lparr>SourceMetadata := metadata_with_line line (SourceMetadata c)\<rparr>)"

definition chunkForFinding :: "Chunk option \<Rightarrow> int \<Rightarrow> bool \<Rightarrow> Chunk option" where
  "chunkForFinding c line stream =
     (case c of None \<Rightarrow> None
      | Some ch \<Rightarrow> if \<not> stream then Some ch else Some (setChunkLine (ch\<lparr>Data := []\<rparr>) line))"

text \<open>The six line-bearing cases recompute the line from their own base; a diff-backed stdin chunk is
  resolved to the file and line its text came from.\<close>

definition chunkWithMatchLine :: "Chunk option \<Rightarrow> bytes \<Rightarrow> Chunk option" where
  "chunkWithMatchLine c raw =
     (case c of
        None \<Rightarrow> None
      | Some ch \<Rightarrow>
        (let md = SourceMetadata ch in
         if hasSourceLine (Some ch) then
           (let line = computeLineFromMatch (Data ch) raw (metadata_line md) in
            if 0 < line then Some (ch\<lparr>SourceMetadata := metadata_with_line line md\<rparr>) else Some ch)
         else
           (case md_Stdin md of
              None \<Rightarrow> Some ch
            | Some s \<Rightarrow>
              if stdin_Locations s = Map.empty then Some ch
              else
                (let line = computeLineFromMatch (Data ch) raw 1 in
                 if 0 < line then
                   (case stdin_Locations s line of
                      None \<Rightarrow> Some ch
                    | Some loc \<Rightarrow>
                      if loc_Path loc \<noteq> [] then
                        Some (ch\<lparr>SourceMetadata := md\<lparr>md_Stdin := None,
                          md_Filesystem := Some \<lparr>fs_Path = loc_Path loc, fs_Line = loc_Line loc\<rparr>\<rparr>\<rparr>)
                      else Some ch)
                 else Some ch))))"

section \<open>Assurance policy\<close>

text \<open>The assurance a detector's policy declares is an unsigned byte; \<^const>\<open>None\<close> when it has no policy.\<close>

definition assurance_of :: "nat \<Rightarrow> VerificationAssurance" where
  "assurance_of n =
     (if n = 1 then AssuranceHeuristic else if n = 2 then AssuranceResponseConfirmed
      else if n = 3 then AssuranceProviderConfirmed else AssuranceUnknown)"

definition maxVerificationAssurance :: "nat option \<Rightarrow> VerificationAssurance" where
  "maxVerificationAssurance policy =
     (case policy of
        None \<Rightarrow> AssuranceUnknown
      | Some n \<Rightarrow> if assurance_rank AssuranceProviderConfirmed < n then AssuranceUnknown else assurance_of n)"

text \<open>\<^verbatim>\<open>errors.Join\<close> of an optional error with another: the messages on separate lines.\<close>

definition join_message :: "string option \<Rightarrow> string \<Rightarrow> string" where
  "join_message old new = (case old of None \<Rightarrow> new | Some m \<Rightarrow> m @ [CHR 0x0A] @ new)"

definition applyVerificationPolicy :: "nat option \<Rightarrow> Result \<Rightarrow> Result" where
  "applyVerificationPolicy policy r =
     (if \<not> Verified r then r
      else
        let maxAssurance = maxVerificationAssurance policy in
        if VerificationAssurance r = AssuranceUnknown \<and> maxAssurance \<noteq> AssuranceUnknown then
          r\<lparr>VerificationAssurance := maxAssurance\<rparr>
        else if VerificationAssurance r \<le> maxAssurance then r
        else
          r\<lparr>Verified := False, VerificationAssurance := maxAssurance,
            VerificationErr := Some (join_message (VerificationErr r)
              (''verification assurance '' @ Assurance_String (VerificationAssurance r)
               @ '' exceeds detector policy '' @ Assurance_String maxAssurance))\<rparr>)"

section \<open>Blast radius\<close>

definition blastRadiusSuffixes :: "string list" where
  "blastRadiusSuffixes = [''_privileged'', ''_high_value'', ''_high_risk'']"

definition blast_key :: "string \<Rightarrow> bool" where
  "blast_key k = list_ex (\<lambda>suf. has_suffix k suf) blastRadiusSuffixes"

definition tagBlastRadius :: "Result \<Rightarrow> Result" where
  "tagBlastRadius r =
     (if \<exists>k. ExtraData r k = Some ''true'' \<and> blast_key k
      then r\<lparr>ExtraData := (ExtraData r)(''blast_radius'' \<mapsto> ''true'')\<rparr> else r)"

section \<open>Finalisation of one result\<close>

text \<open>The sequence of updates \<^verbatim>\<open>emitDetectorResult\<close> makes to a result before publishing it; the type and
  policy are the detector's, \<open>source\<close> names the decoded variant (empty for the raw one).\<close>

definition finalize_result :: "DetectorType \<Rightarrow> nat option \<Rightarrow> string \<Rightarrow> string \<Rightarrow> Result \<Rightarrow> Result" where
  "finalize_result dtype policy source archivePath r =
     (let r1 = r\<lparr>Redacted := Result_SafeRedacted r\<rparr>;
          r2 = (if source \<noteq> [] then r1\<lparr>ExtraData := (ExtraData r1)(''decoded_from'' \<mapsto> source)\<rparr> else r1);
          r3 = applyVerificationPolicy policy r2;
          r4 = (if Severity r3 = SeverityUnknown
                then r3\<lparr>Severity := DefaultSeverityForVerdict dtype (Verdict_of r3)\<rparr> else r3);
          r5 = (if archivePath \<noteq> [] then r4\<lparr>ExtraData := (ExtraData r4)(''archive_path'' \<mapsto> archivePath)\<rparr> else r4)
      in tagBlastRadius r5)"

section \<open>Names\<close>

definition archiveRootName :: "Chunk option \<Rightarrow> string" where
  "archiveRootName c =
     (case c of
        None \<Rightarrow> []
      | Some ch \<Rightarrow>
        (let md = SourceMetadata ch in
         if md_Filesystem md \<noteq> None then fs_Path (the (md_Filesystem md))
         else if md_Git md \<noteq> None then git_File (the (md_Git md))
         else if md_GitHub md \<noteq> None then gh_File (the (md_GitHub md))
         else if md_S3 md \<noteq> None then s3_Key (the (md_S3 md))
         else SourceName ch))"

definition archiveFailureSource :: "(bytes \<Rightarrow> string) \<Rightarrow> Chunk option \<Rightarrow> string" where
  "archiveFailureSource sha256_hex c =
     (case c of
        None \<Rightarrow> archiveRootName c
      | Some ch \<Rightarrow>
        if md_S3 (SourceMetadata ch) \<noteq> None
        then ''s3-object-sha256:'' @ sha256_hex (s3_Key (the (md_S3 (SourceMetadata ch))))
        else archiveRootName c)"

definition sourceName :: "string \<Rightarrow> string" where
  "sourceName source = (if source = [] then ''raw'' else source)"

section \<open>Correctness\<close>

lemma computeLine_range:
  "computeLineFromMatch data raw base = 0 \<or>
   (\<exists>idx. raw \<noteq> [] \<and> occurs_at data raw idx \<and> (\<forall>j < idx. \<not> occurs_at data raw j) \<and>
     computeLineFromMatch data raw base = (if base \<le> 0 then 1 else base) + int (bytes_count_newlines (take idx data)))"
  by (auto simp: computeLineFromMatch_def bytes_index_Some split: option.splits)

lemma computeLine_zero: "computeLineFromMatch data raw base = 0 \<longleftrightarrow> raw = [] \<or> \<not> bytes_contains data raw"
  by (auto simp: computeLineFromMatch_def bytes_contains_def split: option.splits)

text \<open>The text of a file around a chunk: the chunk starts at the given line of the file.\<close>

lemma metadata_line_update:
  "hasSourceLine (Some ch) \<Longrightarrow> metadata_line (metadata_with_line l (SourceMetadata ch)) = l"
  by (auto simp: hasSourceLine_def metadata_line_def metadata_with_line_def Let_def)

text \<open>C38. A finding points at the line its secret is on: for a chunk cut from a file right after \<open>before\<close>, whose
  source line is set as the line contract demands (the 1-based line of the chunk's first byte),
  the published line is the 1-based line, in the whole file, of the first occurrence of the secret
  in the chunk, and nothing but the line changes.\<close>

theorem chunkWithMatchLine_absolute:
  assumes "hasSourceLine (Some ch)" "raw \<noteq> []"
    and "metadata_line (SourceMetadata ch) = 1 + int (bytes_count_newlines before)"
    and "Data ch = pre @ raw @ post" "\<forall>j < length pre. \<not> occurs_at (Data ch) raw j"
  shows "\<exists>ch'. chunkWithMatchLine (Some ch) raw = Some ch' \<and>
    sourceLine (Some ch') = 1 + int (bytes_count_newlines (before @ pre)) \<and>
    ch' = setChunkLine ch (sourceLine (Some ch')) \<and> Data ch' = Data ch"
proof -
  have "occurs_at (Data ch) raw (length pre)" using assms(4) by (simp add: occurs_at_def)
  then have "bytes_index (Data ch) raw = Some (length pre)" using assms(5) by (simp add: bytes_index_Some)
  then have "computeLineFromMatch (Data ch) raw (metadata_line (SourceMetadata ch)) = 1 + int (bytes_count_newlines (before @ pre))"
    using assms(2-4) by (simp add: computeLineFromMatch_def)
  then have "chunkWithMatchLine (Some ch) raw =
      Some (ch\<lparr>SourceMetadata := metadata_with_line (1 + int (bytes_count_newlines (before @ pre))) (SourceMetadata ch)\<rparr>)"
    using assms(1) by (simp add: chunkWithMatchLine_def Let_def del: newlines_append)
  then show ?thesis
    using metadata_line_update [OF assms(1)] by (simp add: sourceLine_def setChunkLine_def del: newlines_append)
qed

theorem chunkWithMatchLine_absolute_witness:
  "let ch = \<lparr>SourceID = 1, SourceType = SourceFilesystem, SourceName = [], Data = [CHR ''x'', CHR 0x0A, CHR ''k''],
        SourceMetadata = no_metadata\<lparr>md_Filesystem := Some \<lparr>fs_Path = ''a'', fs_Line = 1\<rparr>\<rparr>\<rparr> in
   \<exists>ch'. chunkWithMatchLine (Some ch) ''k'' = Some ch' \<and> sourceLine (Some ch') = 2"
  using chunkWithMatchLine_absolute [of "\<lparr>SourceID = 1, SourceType = SourceFilesystem, SourceName = [],
      Data = [CHR ''x'', CHR 0x0A, CHR ''k''],
      SourceMetadata = no_metadata\<lparr>md_Filesystem := Some \<lparr>fs_Path = ''a'', fs_Line = 1\<rparr>\<rparr>\<rparr>" "''k''" "[]" "[CHR ''x'', CHR 0x0A]" "[]"]
  by (auto simp: hasSourceLine_def metadata_line_def no_metadata_def occurs_at_def less_Suc_eq bytes_count_newlines_def Let_def)

lemma policy_assurance:
  "Verified (applyVerificationPolicy p r) \<Longrightarrow> VerificationAssurance (applyVerificationPolicy p r) \<le> maxVerificationAssurance p"
  by (auto simp: applyVerificationPolicy_def Let_def split: if_splits)

lemma policy_verdict: "Verdict_of (applyVerificationPolicy p r) \<noteq> Verdict_of r \<Longrightarrow>
    Verdict_of r = VerdictVerified \<and> Verdict_of (applyVerificationPolicy p r) = VerdictIndeterminate"
  by (auto simp: applyVerificationPolicy_def Verdict_of_def Let_def split: if_splits)

lemma tagBlastRadius_fields:
  "Verified (tagBlastRadius r) = Verified r" "VerificationErr (tagBlastRadius r) = VerificationErr r"
  "VerificationAssurance (tagBlastRadius r) = VerificationAssurance r" "Severity (tagBlastRadius r) = Severity r"
  "Raw (tagBlastRadius r) = Raw r" "RawV2 (tagBlastRadius r) = RawV2 r" "Redacted (tagBlastRadius r) = Redacted r"
  "DetectorType (tagBlastRadius r) = DetectorType r"
  by (simp_all add: tagBlastRadius_def)

lemma applyVerificationPolicy_fields:
  "Severity (applyVerificationPolicy p r) = Severity r" "Raw (applyVerificationPolicy p r) = Raw r"
  "RawV2 (applyVerificationPolicy p r) = RawV2 r" "Redacted (applyVerificationPolicy p r) = Redacted r"
  "ExtraData (applyVerificationPolicy p r) = ExtraData r"
  by (simp_all add: applyVerificationPolicy_def Let_def)

lemma finalize_safe:
  "let out = finalize_result t p source archivePath r in
     (Verified out \<longrightarrow> VerificationAssurance out \<le> maxVerificationAssurance p) \<and>
     (Verified r \<and> \<not> Verified out \<longrightarrow> Verdict_of out = VerdictIndeterminate) \<and>
     Raw out = Raw r \<and> RawV2 out = RawV2 r \<and>
     \<not> containsSecret (Redacted out) (Raw out) \<and> \<not> containsSecret (Redacted out) (RawV2 out) \<and>
     Severity out \<noteq> SeverityUnknown \<and>
     (Severity r = SeverityUnknown \<longrightarrow> Severity out = DefaultSeverityForVerdict t (Verdict_of out))"
proof -
  let ?r1 = "r\<lparr>Redacted := Result_SafeRedacted r\<rparr>"
  let ?r2 = "if source \<noteq> [] then ?r1\<lparr>ExtraData := (ExtraData ?r1)(''decoded_from'' \<mapsto> source)\<rparr> else ?r1"
  let ?r3 = "applyVerificationPolicy p ?r2"
  have safe: "\<not> containsSecret (Result_SafeRedacted r) (Raw r)" "\<not> containsSecret (Result_SafeRedacted r) (RawV2 r)"
    using Redact_safe [of "Raw r" "RawV2 r"] by (auto simp: Result_SafeRedacted_def SafeRedacted_def)
  have sev: "DefaultSeverityForVerdict t v \<noteq> SeverityUnknown" for v
    by (simp add: DefaultSeverityForVerdict_def DefaultSeverity_def)
  have "Verified ?r3 \<longrightarrow> VerificationAssurance ?r3 \<le> maxVerificationAssurance p" using policy_assurance by blast
  moreover have "Verified r \<and> \<not> Verified ?r3 \<longrightarrow> VerificationErr ?r3 \<noteq> None"
    by (auto simp: applyVerificationPolicy_def Let_def)
  ultimately show ?thesis
    using safe sev
    by (simp add: finalize_result_def Let_def tagBlastRadius_fields applyVerificationPolicy_fields Verdict_of_def)
qed

lemma finalize_extra:
  "source \<noteq> [] \<Longrightarrow> ExtraData (finalize_result t p source archivePath r) ''decoded_from'' = Some source"
  "archivePath \<noteq> [] \<Longrightarrow> ExtraData (finalize_result t p source archivePath r) ''archive_path'' = Some archivePath"
  by (simp_all add: finalize_result_def Let_def tagBlastRadius_def applyVerificationPolicy_fields)

text \<open>Publishing a result fails closed: its assurance never exceeds what the detector's audited policy allows
  while it is verified; a claim beyond the policy is withdrawn and becomes indeterminate, never a
  clean negative; the secrets are unchanged and neither complete secret is in the display; the
  severity is always set, and a default severity of an unverified-but-withdrawn claim stays
  critical.\<close>

theorem finalize_result_safe:
  "let out = finalize_result t p source archivePath r in
     (Verified out \<longrightarrow> VerificationAssurance out \<le> maxVerificationAssurance p) \<and>
     (Verified r \<and> \<not> Verified out \<longrightarrow> Verdict_of out = VerdictIndeterminate) \<and>
     Raw out = Raw r \<and> RawV2 out = RawV2 r \<and>
     \<not> containsSecret (Redacted out) (Raw out) \<and> \<not> containsSecret (Redacted out) (RawV2 out) \<and>
     Severity out \<noteq> SeverityUnknown \<and>
     (Severity r = SeverityUnknown \<longrightarrow> Severity out = DefaultSeverityForVerdict t (Verdict_of out))"
  by (rule finalize_safe)

definition sample_claim :: Result where
  "sample_claim = \<lparr>DetectorType = 1, Verified = True, VerificationErr = None,
     VerificationAssurance = AssuranceProviderConfirmed, Severity = SeverityUnknown, Raw = ''secret'', RawV2 = [],
     Redacted = ''secret'', ExtraData = Map.empty\<rparr>"

theorem finalize_result_safe_witness:
  "Verdict_of (finalize_result 1 (Some 1) [] [] sample_claim) = VerdictIndeterminate \<and>
   Severity (finalize_result 1 (Some 1) [] [] sample_claim) = SeverityCritical"
proof -
  have "\<not> Verified (finalize_result 1 (Some 1) [] [] sample_claim)"
    by (simp add: finalize_result_def Let_def tagBlastRadius_fields applyVerificationPolicy_def sample_claim_def
        maxVerificationAssurance_def assurance_of_def less_eq_VerificationAssurance_def)
  moreover have "Verified sample_claim" "Severity sample_claim = SeverityUnknown" by (simp_all add: sample_claim_def)
  ultimately show ?thesis
    using finalize_result_safe [of 1 "Some 1" "[]" "[]" sample_claim]
    by (simp add: Let_def DefaultSeverityForVerdict_def)
qed

end
