(* ===== verification/EngineDispatch.thy ===== *)
theory EngineDispatch
  imports AhoCorasickCorrect Sinks EngineLines VerificationCache
begin

text \<open>
  How the engine decides which bytes a detector sees (\<^verbatim>\<open>src/pkg/engine/engine.go\<close>): construction with
  verifier-backed detectors first, the keyword prefilter, the overlapping windows of a variant, and
  the merged vicinity spans around keyword hits. \<^const>\<open>None\<close> is a run-time panic.
\<close>

section \<open>Detectors and the engine\<close>

text \<open>A detector with the optional interfaces it implements (\<^const>\<open>None\<close> when it does not). \<open>det_builtIn\<close> is
  whether its package path is inside the detectors tree.\<close>

record Det =
  det_Type :: DetectorType
  det_Keywords :: "string list"
  det_Verifier :: bool
  det_FullChunk :: "bool option"
  det_Policy :: "nat option"
  det_CacheSafe :: "bool option"
  det_InputDependent :: "bool option"
  det_builtIn :: bool
  det_unverified :: "bytes \<Rightarrow> outcome"
  det_verified :: "int \<Rightarrow> bytes \<Rightarrow> outcome"

record Engine =
  eng_opts :: verify_opts
  eng_Concurrency :: int
  eng_dets :: "Det list"
  eng_isVerifier :: "bool list"
  eng_cacheable :: "bool list"
  eng_usesData :: "bool list"
  eng_assurance :: "VerificationAssurance list"
  eng_wantsFull :: "bool list"
  eng_prefilter :: "Matcher option"
  eng_idxByPattern :: "nat list list"

definition builtInVerificationCacheSafe :: "DetectorType \<Rightarrow> bool" where
  "builtInVerificationCacheSafe t \<longleftrightarrow> t \<in> {193, 84, 119, 153, 7, 91}"

definition cacheable_of :: "Det \<Rightarrow> bool" where
  "cacheable_of d =
     (case det_CacheSafe d of
        Some allowed \<Rightarrow> allowed
      | None \<Rightarrow> det_builtIn d \<and> builtInVerificationCacheSafe (det_Type d))"

definition usesData_of :: "Det \<Rightarrow> bool" where
  "usesData_of d = (case det_InputDependent d of Some full \<Rightarrow> full | None \<Rightarrow> \<not> det_builtIn d)"

definition wantsFull_of :: "Det \<Rightarrow> bool" where
  "wantsFull_of d = (case det_FullChunk d of Some w \<Rightarrow> w | None \<Rightarrow> False)"

text \<open>The stable sort by \<^verbatim>\<open>vi && !vj\<close>.\<close>

definition order_detectors :: "Det list \<Rightarrow> Det list" where
  "order_detectors dets = sort_key (\<lambda>d. if det_Verifier d then 0 else 1 :: nat) dets"

section \<open>The prefilter\<close>

record prefilter_build =
  pb_ids :: "string \<rightharpoonup> nat"
  pb_patterns :: "bytes list"
  pb_index :: "nat list list"

definition add_keyword :: "(rune \<Rightarrow> rune) \<Rightarrow> nat \<Rightarrow> string \<Rightarrow> prefilter_build \<Rightarrow> prefilter_build option" where
  "add_keyword unicode_lower di kw b =
     (if kw = [] then Some b
      else
        let lk = bytes_ToLower unicode_lower kw;
            (pid, b1) =
              (case pb_ids b lk of
                 Some pid \<Rightarrow> (pid, b)
               | None \<Rightarrow>
                 (length (pb_patterns b),
                  b\<lparr>pb_ids := (pb_ids b)(lk \<mapsto> length (pb_patterns b)), pb_patterns := pb_patterns b @ [lk],
                    pb_index := pb_index b @ [[]]\<rparr>))
        in do {
          ids \<leftarrow> geti (pb_index b1) pid;
          index \<leftarrow> seti (pb_index b1) pid (ids @ [di]);
          Some (b1\<lparr>pb_index := index\<rparr>)
        })"

definition keyword_list :: "Det list \<Rightarrow> (nat \<times> string) list" where
  "keyword_list dets = concat (map (\<lambda>(di, d). map (Pair di) (det_Keywords d)) (enumerate 0 dets))"

definition collect_keywords :: "(rune \<Rightarrow> rune) \<Rightarrow> Det list \<Rightarrow> prefilter_build option" where
  "collect_keywords unicode_lower dets =
     foldM (\<lambda>(di, kw) b. add_keyword unicode_lower di kw b) (keyword_list dets)
       \<lparr>pb_ids = Map.empty, pb_patterns = [], pb_index = []\<rparr>"

definition buildPrefilter :: "(rune \<Rightarrow> rune) \<Rightarrow> Engine \<Rightarrow> Engine option" where
  "buildPrefilter unicode_lower e =
     (if eng_dets e = [] then Some e
      else do {
        b \<leftarrow> collect_keywords unicode_lower (eng_dets e);
        (if pb_patterns b = [] then Some e
         else do {
           m \<leftarrow> New (pb_patterns b);
           Some (e\<lparr>eng_prefilter := Some m, eng_idxByPattern := pb_index b\<rparr>)
         })
      })"

definition NewWithDetectors :: "(rune \<Rightarrow> rune) \<Rightarrow> Det list \<Rightarrow> verify_opts \<Rightarrow> int \<Rightarrow> Engine option" where
  "NewWithDetectors unicode_lower dets opts concurrency =
     (let ordered = order_detectors dets in
      buildPrefilter unicode_lower
        \<lparr>eng_opts = opts, eng_Concurrency = (if concurrency \<le> 0 then 8 else concurrency), eng_dets = ordered,
         eng_isVerifier = map det_Verifier ordered, eng_cacheable = map cacheable_of ordered,
         eng_usesData = map usesData_of ordered,
         eng_assurance = map (\<lambda>d. maxVerificationAssurance (det_Policy d)) ordered,
         eng_wantsFull = map wantsFull_of ordered, eng_prefilter = None, eng_idxByPattern = []\<rparr>)"

section \<open>Lower-casing\<close>

text \<open>\<^verbatim>\<open>lowerCaseInto\<close>: the destination is resized to the source's length and overwritten byte by byte.\<close>

definition lowerCaseInto :: "bytes \<Rightarrow> bytes \<Rightarrow> bytes" where
  "lowerCaseInto dst src =
     foldl (\<lambda>d i. d[i := ascii_lower (src ! i)]) (take (length src) (dst @ replicate (length src) (CHR 0x00)))
       [0..<length src]"

section \<open>Windows\<close>

definition maxWindowSize :: nat where "maxWindowSize = 32 * 1024"
definition windowOverlap :: nat where "windowOverlap = 1024"
definition windowStepSize :: nat where "windowStepSize = maxWindowSize - windowOverlap"

function window_loop :: "nat \<Rightarrow> nat \<Rightarrow> (nat \<times> nat) list" where
  "window_loop len start =
     (if start < len then
        (let fin = (if len < start + maxWindowSize then len else start + maxWindowSize) in
         (start, fin) # (if fin = len then [] else window_loop len (start + windowStepSize)))
      else [])"
  by auto
termination
  by (relation "measure (\<lambda>(len, start). len - start)") (auto simp: windowStepSize_def maxWindowSize_def windowOverlap_def)

declare window_loop.simps [simp del]

definition variant_windows :: "nat \<Rightarrow> (nat \<times> nat) list" where
  "variant_windows len = (if len \<le> maxWindowSize then [(0, len)] else window_loop len 0)"

text \<open>The windows of \<^verbatim>\<open>scanVariantWindowsReader\<close> with the newlines counted before each: the loop over a
  replayable body of the given content.\<close>

function stream_window_loop :: "bytes \<Rightarrow> nat \<Rightarrow> nat \<Rightarrow> (nat \<times> nat \<times> nat) list" where
  "stream_window_loop body linesBefore start =
     (if start < length body then
        (let windowSize = min maxWindowSize (length body - start);
             window = slice start (start + windowSize) body in
         (start, start + windowSize, linesBefore) #
         (if start + windowSize = length body then []
          else stream_window_loop body
                 (linesBefore + bytes_count_newlines (take (min windowStepSize (length window)) window))
                 (start + windowStepSize)))
      else [])"
  by auto
termination
  by (relation "measure (\<lambda>(body, linesBefore, start). length body - start)")
    (auto simp: windowStepSize_def maxWindowSize_def windowOverlap_def)

declare stream_window_loop.simps [simp del]

definition stream_windows :: "bytes \<Rightarrow> (nat \<times> nat \<times> nat) list" where
  "stream_windows body = (if body = [] then [] else stream_window_loop body 0 0)"

section \<open>Vicinity spans\<close>

definition vicinityRadius :: nat where "vicinityRadius = 2048"

type_synonym vicinitySpan = "nat \<times> nat"

definition merge_span :: "vicinitySpan list \<Rightarrow> nat \<Rightarrow> nat \<Rightarrow> vicinitySpan list" where
  "merge_span spans start fin =
     (if spans \<noteq> [] \<and> start \<le> snd (last spans) then
        (if snd (last spans) < fin then butlast spans @ [(fst (last spans), fin)] else spans)
      else spans @ [(start, fin)])"

record dispatch_state =
  ds_dets :: "nat \<rightharpoonup> vicinitySpan list"
  ds_order :: "nat list"

definition hit_span :: "nat \<Rightarrow> nat \<Rightarrow> vicinitySpan" where
  "hit_span len e =
     (e - vicinityRadius, if len < e + 1 + vicinityRadius then len else e + 1 + vicinityRadius)"

definition visit_detector :: "bool list \<Rightarrow> nat \<Rightarrow> nat \<Rightarrow> nat \<Rightarrow> dispatch_state \<Rightarrow> dispatch_state option" where
  "visit_detector wantsFull len e di st = do {
     full \<leftarrow> geti wantsFull di;
     (if full then Some st
      else
        let (start, fin) = hit_span len e;
            spans = (case ds_dets st di of None \<Rightarrow> [] | Some s \<Rightarrow> s)
        in Some (st\<lparr>ds_order := (if ds_dets st di = None then ds_order st @ [di] else ds_order st),
                    ds_dets := (ds_dets st)(di \<mapsto> merge_span spans start fin)\<rparr>))
   }"

definition visit_hit :: "nat list list \<Rightarrow> bool list \<Rightarrow> nat \<Rightarrow> Hit \<Rightarrow> dispatch_state \<Rightarrow> dispatch_state option" where
  "visit_hit index wantsFull len h st = do {
     dis \<leftarrow> geti index (PatternID h);
     foldM (visit_detector wantsFull len (End h)) dis st
   }"

text \<open>The detectors that one dispatch runs, in order, each with its merged spans of the window.\<close>

definition dispatch_groups :: "Engine \<Rightarrow> bytes \<Rightarrow> (nat \<times> vicinitySpan list) list option" where
  "dispatch_groups e data = do {
     m \<leftarrow> eng_prefilter e;
     hits \<leftarrow> VisitHits m (lowerCaseInto [] data);
     st \<leftarrow> foldM (visit_hit (eng_idxByPattern e) (eng_wantsFull e) (length data)) hits
            \<lparr>ds_dets = Map.empty, ds_order = []\<rparr>;
     Some (map (\<lambda>di. (di, the (ds_dets st di))) (sort (ds_order st)))
   }"

text \<open>The same as a flat list of calls: detector index and span.\<close>

definition dispatch_calls :: "Engine \<Rightarrow> bytes \<Rightarrow> (nat \<times> vicinitySpan) list option" where
  "dispatch_calls e data = map_option (\<lambda>gs. concat (map (\<lambda>(di, spans). map (Pair di) spans) gs)) (dispatch_groups e data)"

text \<open>All detector calls of a variant: per window, with the span's absolute position in the variant.\<close>

definition variant_calls :: "Engine \<Rightarrow> bytes \<Rightarrow> (nat \<times> nat \<times> nat) list option" where
  "variant_calls e data =
     foldM (\<lambda>(s, f) acc. do {
         calls \<leftarrow> dispatch_calls e (slice s f data);
         Some (acc @ map (\<lambda>(di, a, b). (di, s + a, s + b)) calls)
       }) (variant_windows (length data)) []"

end
