(* ===== verification/EngineDispatchCorrect.thy ===== *)
theory EngineDispatchCorrect
  imports EngineDispatch
begin

text \<open>
  Completeness of the dispatch: the prefilter indexes every keyword of every detector, the windows
  cover every short stretch of a variant, the merged spans cover the vicinity of every hit without
  overlapping, and together no stretch of up to one kilobyte that holds a keyword is kept from its
  detector.
\<close>

section \<open>Lower-casing\<close>

lemma fold_lower:
  assumes "length d = length src" "k \<le> length src"
  shows "foldl (\<lambda>d i. d[i := ascii_lower (src ! i)]) d [0..<k] = map ascii_lower (take k src) @ drop k d"
  using assms(2)
proof (induction k)
  case (Suc k)
  then have "drop k d = d ! k # drop (Suc k) d" using assms(1) by (simp add: Cons_nth_drop_Suc)
  with Suc assms(1) show ?case by (simp add: list_update_append take_Suc_conv_app_nth)
qed simp

lemma lowerCaseInto_map: "lowerCaseInto dst src = map ascii_lower src"
  using fold_lower [of "take (length src) (dst @ replicate (length src) (CHR 0x00))" src "length src"]
  by (simp add: lowerCaseInto_def)

section \<open>Windows\<close>

lemma step_facts: "0 < windowStepSize" "windowStepSize < maxWindowSize" "windowStepSize + windowOverlap = maxWindowSize"
  by (simp_all add: windowStepSize_def maxWindowSize_def windowOverlap_def)

lemma window_loop_cover:
  "start \<le> i \<Longrightarrow> i + n \<le> len \<Longrightarrow> n \<le> windowOverlap \<Longrightarrow> start < len \<Longrightarrow>
   \<exists>(s, f) \<in> set (window_loop len start). s \<le> i \<and> i + n \<le> f"
proof (induction len start rule: window_loop.induct)
  case (1 len start)
  let ?f = "if len < start + maxWindowSize then len else start + maxWindowSize"
  show ?case
  proof (cases "i + n \<le> ?f")
    case True
    then show ?thesis using "1.prems" by (subst window_loop.simps) (auto simp: Let_def)
  next
    case False
    then have f: "?f \<noteq> len" "start + windowStepSize \<le> i" "start + windowStepSize < len"
      using "1.prems" step_facts by (auto split: if_splits)
    with "1.IH" [OF "1.prems"(4) refl f(1)] "1.prems" show ?thesis
      by (subst window_loop.simps) (auto simp: Let_def)
  qed
qed

lemma window_loop_bounds:
  "(s, f) \<in> set (window_loop len start) \<Longrightarrow> s < f \<and> f \<le> len \<and> f - s \<le> maxWindowSize"
proof (induction len start rule: window_loop.induct)
  case (1 len start)
  from "1.prems" have lt: "start < len" by (subst (asm) window_loop.simps) (auto split: if_splits)
  let ?f = "if len < start + maxWindowSize then len else start + maxWindowSize"
  have "(s, f) = (start, ?f) \<or> ?f \<noteq> len \<and> (s, f) \<in> set (window_loop len (start + windowStepSize))"
    using "1.prems" lt by (subst (asm) window_loop.simps) (auto simp: Let_def split: if_splits)
  then show ?case using "1.IH" [OF lt refl] lt step_facts by auto
qed

text \<open>The windows of a variant lose nothing at their borders: every stretch of at most \<open>windowOverlap\<close>
  bytes lies completely inside one window, every window is inside the variant, and no window is
  longer than \<open>maxWindowSize\<close>.\<close>

theorem windows_cover:
  assumes "i + n \<le> len" "n \<le> windowOverlap"
  shows "(\<exists>(s, f) \<in> set (variant_windows len). s \<le> i \<and> i + n \<le> f) \<and>
    list_all (\<lambda>(s, f). s \<le> f \<and> f \<le> len \<and> f - s \<le> maxWindowSize) (variant_windows len)"
proof (cases "len \<le> maxWindowSize")
  case True
  then show ?thesis using assms by (simp add: variant_windows_def)
next
  case False
  then show ?thesis
    using window_loop_cover [of 0 i n len] window_loop_bounds [of _ _ len 0] assms
    by (fastforce simp: variant_windows_def list_all_iff)
qed

theorem windows_cover_witness:
  "\<exists>(s, f) \<in> set (variant_windows 40000). s \<le> 32000 \<and> 33000 \<le> f"
  using windows_cover [of 32000 1000 40000] by (auto simp: windowOverlap_def)

lemma stream_window_loop_eq:
  "linesBefore = bytes_count_newlines (take start body) \<Longrightarrow>
   stream_window_loop body linesBefore start =
     map (\<lambda>(s, f). (s, f, bytes_count_newlines (take s body))) (window_loop (length body) start)"
proof (induction body linesBefore start rule: stream_window_loop.induct)
  case (1 body linesBefore start)
  show ?case
  proof (cases "start < length body")
    case False
    then show ?thesis by (subst stream_window_loop.simps, subst window_loop.simps) simp
  next
    case lt: True
    let ?w = "min maxWindowSize (length body - start)"
    let ?win = "slice start (start + ?w) body"
    have f: "(if length body < start + maxWindowSize then length body else start + maxWindowSize) = start + ?w"
      using lt by auto
    show ?thesis
    proof (cases "start + ?w = length body")
      case True
      then show ?thesis using lt f "1.prems"
        by (subst stream_window_loop.simps, subst window_loop.simps) (simp add: Let_def)
    next
      case False
      then have w: "?w = maxWindowSize" "start + maxWindowSize < length body" using lt by (auto simp: min_def split: if_splits)
      have "length ?win = maxWindowSize" using w by (simp add: slice_def)
      then have "take (min windowStepSize (length ?win)) ?win = take windowStepSize (drop start body)"
        using w step_facts by (simp add: slice_def min_def)
      then have "linesBefore + bytes_count_newlines (take (min windowStepSize (length ?win)) ?win)
          = bytes_count_newlines (take (start + windowStepSize) body)"
        using "1.prems" by (simp add: newlines_take_add)
      from "1.IH" [OF lt refl refl False this] show ?thesis
        using lt f False "1.prems"
        by (subst stream_window_loop.simps, subst window_loop.simps) (simp add: Let_def)
    qed
  qed
qed

text \<open>A replayable body is scanned exactly like a buffered one: for every non-empty body the streaming loop
  visits the same windows in the same order, and the line base it hands to each dispatch is the
  number of newlines before that window.\<close>

theorem stream_windows_agree:
  assumes "body \<noteq> []"
  shows "stream_windows body = map (\<lambda>(s, f). (s, f, bytes_count_newlines (take s body))) (variant_windows (length body))"
proof -
  have "variant_windows (length body) = window_loop (length body) 0"
  proof (cases "length body \<le> maxWindowSize")
    case True
    then show ?thesis using assms by (subst window_loop.simps) (auto simp: variant_windows_def)
  qed (simp add: variant_windows_def)
  then show ?thesis using assms stream_window_loop_eq [of 0 0 body] by (simp add: stream_windows_def)
qed

theorem stream_windows_agree_witness: "stream_windows ''ab'' = [(0, 2, 0)]"
  using stream_windows_agree [of "''ab''"] by (simp add: variant_windows_def maxWindowSize_def)

section \<open>Merged spans\<close>

definition spans_of :: "nat \<Rightarrow> nat list \<Rightarrow> vicinitySpan list" where
  "spans_of len es = foldl (\<lambda>sp e. merge_span sp (fst (hit_span len e)) (snd (hit_span len e))) [] es"

definition spans_ok :: "nat \<Rightarrow> nat list \<Rightarrow> vicinitySpan list \<Rightarrow> bool" where
  "spans_ok len es spans \<longleftrightarrow>
     sorted_wrt (\<lambda>a b. snd a < fst b) spans \<and>
     (\<forall>sp \<in> set spans. fst sp < snd sp \<and> snd sp \<le> len) \<and>
     (\<forall>e \<in> set es. \<exists>sp \<in> set spans. fst sp \<le> fst (hit_span len e) \<and> snd (hit_span len e) \<le> snd sp) \<and>
     (\<forall>sp \<in> set spans. \<exists>e \<in> set es. fst sp = fst (hit_span len e))"

lemma hit_span_bounds: "e < len \<Longrightarrow> fst (hit_span len e) < snd (hit_span len e) \<and> snd (hit_span len e) \<le> len"
  by (auto simp: hit_span_def)

lemma merge_span_ok:
  assumes "spans_ok len es spans" "\<forall>e' \<in> set es. e' \<le> e" "e < len"
  shows "spans_ok len (es @ [e]) (merge_span spans (fst (hit_span len e)) (snd (hit_span len e)))"
proof -
  let ?s = "fst (hit_span len e)" and ?f = "snd (hit_span len e)"
  have b: "?s < ?f" "?f \<le> len" using hit_span_bounds [OF assms(3)] by auto
  have mono: "fst sp \<le> ?s" if "sp \<in> set spans" for sp
    using that assms(1,2) by (fastforce simp: spans_ok_def hit_span_def intro: diff_le_mono)
  show ?thesis
  proof (cases spans rule: rev_cases)
    case Nil
    then show ?thesis using assms(1) b by (auto simp: merge_span_def spans_ok_def)
  next
    case (snoc init l)
    have ok: "sorted_wrt (\<lambda>a b. snd a < fst b) init" "\<forall>a \<in> set init. snd a < fst l" "fst l < snd l" "snd l \<le> len"
      using assms(1) snoc by (auto simp: spans_ok_def sorted_wrt_append)
    show ?thesis
    proof (cases "?s \<le> snd l")
      case True
      then have m: "merge_span spans ?s ?f = init @ [(fst l, max (snd l) ?f)]"
        using snoc by (auto simp: merge_span_def max_def)
      have l: "fst l \<le> ?s" using mono snoc by simp
      have covered: "\<exists>sp \<in> set (init @ [(fst l, max (snd l) ?f)]). fst sp \<le> fst (hit_span len e') \<and> snd (hit_span len e') \<le> snd sp"
        if e': "e' \<in> set es" for e'
      proof -
        obtain sp where "sp \<in> set (init @ [l])" "fst sp \<le> fst (hit_span len e')" "snd (hit_span len e') \<le> snd sp"
          using assms(1) e' unfolding spans_ok_def snoc by blast
        then show ?thesis by (cases "sp = l") auto
      qed
      have "\<forall>sp \<in> set (init @ [l]). \<exists>e' \<in> set es. fst sp = fst (hit_span len e')" "\<forall>sp \<in> set init. fst sp < snd sp \<and> snd sp \<le> len"
        using assms(1) unfolding spans_ok_def snoc by auto
      then show ?thesis
        unfolding m spans_ok_def using l ok b covered by (auto simp: sorted_wrt_append)
    next
      case False
      then have m: "merge_span spans ?s ?f = spans @ [(?s, ?f)]" using snoc by (simp add: merge_span_def)
      have "\<forall>a \<in> set spans. snd a < ?s" using False ok snoc by fastforce
      then show ?thesis unfolding m using assms(1) b by (auto simp: spans_ok_def sorted_wrt_append)
    qed
  qed
qed

lemma spans_of_ok: "sorted es \<Longrightarrow> \<forall>e \<in> set es. e < len \<Longrightarrow> spans_ok len es (spans_of len es)"
proof (induction es rule: rev_induct)
  case Nil
  then show ?case by (simp add: spans_of_def spans_ok_def)
next
  case (snoc e es)
  then have "spans_ok len es (spans_of len es)" "\<forall>e' \<in> set es. e' \<le> e" "e < len" by (auto simp: sorted_append)
  from merge_span_ok [OF this] show ?case by (simp add: spans_of_def)
qed

section \<open>One dispatch\<close>

text \<open>The end offsets of the hits that concern a detector.\<close>

definition ends_of :: "nat list list \<Rightarrow> bool list \<Rightarrow> nat \<Rightarrow> Hit list \<Rightarrow> nat list" where
  "ends_of index wantsFull di hits =
     (if wantsFull ! di then []
      else concat (map (\<lambda>h. map (\<lambda>_. End h) (filter (\<lambda>d. d = di) (index ! PatternID h))) hits))"

lemma ends_of_Nil [simp]: "ends_of index wantsFull di [] = []"
  by (simp add: ends_of_def)

definition tracks :: "bool list \<Rightarrow> nat \<Rightarrow> (nat \<Rightarrow> nat list) \<Rightarrow> dispatch_state \<Rightarrow> bool" where
  "tracks wantsFull len es st \<longleftrightarrow>
     (\<forall>di. ds_dets st di = (if es di = [] then None else Some (spans_of len (es di)))) \<and>
     distinct (ds_order st) \<and> set (ds_order st) = {di. es di \<noteq> []}"

lemma visit_detector_tracks:
  assumes "tracks wantsFull len es st" "di < length wantsFull"
  shows "\<exists>st'. visit_detector wantsFull len e di st = Some st' \<and>
    tracks wantsFull len (es(di := es di @ (if wantsFull ! di then [] else [e]))) st'"
proof (cases "wantsFull ! di")
  case True
  then show ?thesis using assms by (simp add: visit_detector_def fun_upd_idem)
next
  case False
  have "spans_of len (es di @ [e]) =
      merge_span (spans_of len (es di)) (fst (hit_span len e)) (snd (hit_span len e))" by (simp add: spans_of_def)
  moreover have "spans_of len [] = []" by (simp add: spans_of_def)
  ultimately show ?thesis
    using assms False by (auto simp: visit_detector_def tracks_def split: prod.splits)
qed

lemma visit_detectors_tracks:
  assumes "tracks wantsFull len es st" "\<forall>di \<in> set dis. di < length wantsFull"
  shows "\<exists>st'. foldM (visit_detector wantsFull len e) dis st = Some st' \<and>
    tracks wantsFull len (\<lambda>di. es di @ (if wantsFull ! di then [] else map (\<lambda>_. e) (filter (\<lambda>d. d = di) dis))) st'"
  using assms
proof (induction dis arbitrary: es st)
  case (Cons di dis)
  let ?es = "es(di := es di @ (if wantsFull ! di then [] else [e]))"
  obtain st1 where st1: "visit_detector wantsFull len e di st = Some st1" "tracks wantsFull len ?es st1"
    using visit_detector_tracks [OF Cons.prems(1), of di e] Cons.prems(2) by auto
  have eq: "(\<lambda>d. ?es d @ (if wantsFull ! d then [] else map (\<lambda>_. e) (filter (\<lambda>x. x = d) dis)))
      = (\<lambda>d. es d @ (if wantsFull ! d then [] else map (\<lambda>_. e) (filter (\<lambda>x. x = d) (di # dis))))"
    by (auto simp: fun_eq_iff)
  from Cons.IH [OF st1(2)] Cons.prems(2) show ?case using st1(1) unfolding eq by simp
qed (simp add: tracks_def)

lemma visit_hits_tracks:
  assumes "tracks wantsFull len es st" "\<forall>h \<in> set hits. PatternID h < length index"
    and "\<forall>dis \<in> set index. \<forall>di \<in> set dis. di < length wantsFull"
  shows "\<exists>st'. foldM (visit_hit index wantsFull len) hits st = Some st' \<and>
    tracks wantsFull len (\<lambda>di. es di @ ends_of index wantsFull di hits) st'"
  using assms(1,2)
proof (induction hits arbitrary: es st)
  case Nil
  then show ?case by simp
next
  case (Cons h hits)
  let ?es = "\<lambda>di. es di @ (if wantsFull ! di then [] else map (\<lambda>_. End h) (filter (\<lambda>d. d = di) (index ! PatternID h)))"
  have "\<forall>di \<in> set (index ! PatternID h). di < length wantsFull" using Cons.prems(2) assms(3) nth_mem by fastforce
  from visit_detectors_tracks [OF Cons.prems(1) this, of "End h"] obtain st1 where st1: "visit_hit index wantsFull len h st = Some st1" "tracks wantsFull len ?es st1"
    using Cons.prems(2) by (auto simp: visit_hit_def)
  have eq: "(\<lambda>di. ?es di @ ends_of index wantsFull di hits) = (\<lambda>di. es di @ ends_of index wantsFull di (h # hits))"
    by (auto simp: fun_eq_iff ends_of_def)
  from Cons.IH [OF st1(2)] Cons.prems(2) show ?case using st1(1) unfolding eq by simp
qed

lemma visit_hits_from_empty:
  assumes "\<forall>h \<in> set hits. PatternID h < length index" "\<forall>dis \<in> set index. \<forall>di \<in> set dis. di < length wantsFull"
  shows "\<exists>st. foldM (visit_hit index wantsFull len) hits \<lparr>ds_dets = Map.empty, ds_order = []\<rparr> = Some st \<and>
    tracks wantsFull len (\<lambda>di. ends_of index wantsFull di hits) st"
proof -
  have "tracks wantsFull len (\<lambda>_. []) \<lparr>ds_dets = Map.empty, ds_order = []\<rparr>" by (simp add: tracks_def)
  from visit_hits_tracks [OF this assms] show ?thesis by simp
qed

lemma ends_sorted:
  assumes "sorted (map End hits)"
  shows "sorted (ends_of index wantsFull di hits)"
proof -
  have "sorted (concat (map (\<lambda>h. map (\<lambda>_. End h) (g h)) hits))" for g :: "Hit \<Rightarrow> nat list"
    using assms by (induction hits) (auto simp: sorted_append map_replicate_const)
  then show ?thesis by (simp add: ends_of_def)
qed

lemma ends_member:
  "e \<in> set (ends_of index wantsFull di hits) \<longleftrightarrow> \<not> wantsFull ! di \<and> (\<exists>h \<in> set hits. End h = e \<and> di \<in> set (index ! PatternID h))"
  by (auto simp: ends_of_def)

text \<open>What construction guarantees about the prefilter of an engine.\<close>

definition prefilter_ok :: "(rune \<Rightarrow> rune) \<Rightarrow> Engine \<Rightarrow> bytes list \<Rightarrow> bool" where
  "prefilter_ok ul e patterns \<longleftrightarrow>
     New patterns = eng_prefilter e \<and> length (eng_idxByPattern e) = length patterns \<and> [] \<notin> set patterns \<and>
     length (eng_wantsFull e) = length (eng_dets e) \<and>
     (\<forall>pid < length patterns. \<forall>di. di \<in> set (eng_idxByPattern e ! pid) \<longleftrightarrow>
        di < length (eng_dets e) \<and> (\<exists>kw \<in> set (det_Keywords (eng_dets e ! di)). kw \<noteq> [] \<and> bytes_ToLower ul kw = patterns ! pid)) \<and>
     (\<forall>di < length (eng_dets e). \<forall>kw \<in> set (det_Keywords (eng_dets e ! di)). kw \<noteq> [] \<longrightarrow> bytes_ToLower ul kw \<in> set patterns)"

lemma prefilter_index_bound:
  assumes "prefilter_ok ul e patterns"
  shows "\<forall>dis \<in> set (eng_idxByPattern e). \<forall>di \<in> set dis. di < length (eng_wantsFull e)"
proof (intro ballI)
  fix dis di assume "dis \<in> set (eng_idxByPattern e)" and di: "di \<in> set dis"
  then obtain pid where "pid < length (eng_idxByPattern e)" "eng_idxByPattern e ! pid = dis" by (metis in_set_conv_nth)
  with di assms show "di < length (eng_wantsFull e)" unfolding prefilter_ok_def by metis
qed

lemma dispatch_ok:
  assumes "prefilter_ok ul e patterns"
  shows "\<exists>hits st. VisitHits (the (eng_prefilter e)) (map ascii_lower data) = Some hits \<and> hits = reference_hits patterns (map ascii_lower data) \<and>
    tracks (eng_wantsFull e) (length data) (\<lambda>di. ends_of (eng_idxByPattern e) (eng_wantsFull e) di hits) st \<and>
    dispatch_calls e data = Some (concat (map (\<lambda>di. map (Pair di) (the (ds_dets st di))) (sort (ds_order st))))"
proof -
  obtain m where m: "New patterns = Some m" "\<And>d. VisitHits m d = Some (reference_hits patterns d)"
    using New_ok [of patterns] VisitHits_of_tables by blast
  then have e: "eng_prefilter e = Some m" using assms by (simp add: prefilter_ok_def)
  let ?hits = "reference_hits patterns (map ascii_lower data)"
  have "\<forall>h \<in> set ?hits. PatternID h < length (eng_idxByPattern e)"
    using assms by (auto simp: reference_hits_set prefilter_ok_def)
  moreover note prefilter_index_bound [OF assms]
  ultimately obtain st where "foldM (visit_hit (eng_idxByPattern e) (eng_wantsFull e) (length data)) ?hits
      \<lparr>ds_dets = Map.empty, ds_order = []\<rparr> = Some st"
    "tracks (eng_wantsFull e) (length data) (\<lambda>di. ends_of (eng_idxByPattern e) (eng_wantsFull e) di ?hits) st"
    using visit_hits_from_empty by blast
  then show ?thesis using e m(2) by (auto simp: dispatch_calls_def dispatch_groups_def lowerCaseInto_map comp_def)
qed

lemma reference_ends: "h \<in> set (reference_hits patterns d) \<Longrightarrow> End h < length d"
  by (auto simp: reference_hits_set)

lemma dispatch_spans:
  assumes "prefilter_ok ul e patterns"
  shows "\<exists>calls. dispatch_calls e data = Some calls \<and> sorted (map fst calls) \<and>
    (\<forall>di. let es = ends_of (eng_idxByPattern e) (eng_wantsFull e) di (reference_hits patterns (map ascii_lower data)) in
       map snd (filter (\<lambda>c. fst c = di) calls) = spans_of (length data) es \<and> spans_ok (length data) es (spans_of (length data) es))"
proof -
  let ?hits = "reference_hits patterns (map ascii_lower data)"
  let ?es = "\<lambda>di. ends_of (eng_idxByPattern e) (eng_wantsFull e) di ?hits"
  obtain st where st: "tracks (eng_wantsFull e) (length data) ?es st"
    "dispatch_calls e data = Some (concat (map (\<lambda>di. map (Pair di) (the (ds_dets st di))) (sort (ds_order st))))"
    using dispatch_ok [OF assms] by blast
  let ?calls = "concat (map (\<lambda>di. map (Pair di) (the (ds_dets st di))) (sort (ds_order st)))"
  have srt: "sorted (map fst (concat (map (\<lambda>di. map (Pair di) (f di)) xs)))" if "sorted xs" for xs :: "nat list" and f :: "nat \<Rightarrow> vicinitySpan list"
    using that by (induction xs) (auto simp: sorted_append comp_def map_replicate_const)
  have flt: "map snd (filter (\<lambda>c. fst c = di) (concat (map (\<lambda>di. map (Pair di) (f di)) xs))) = (if di \<in> set xs then f di else [])"
    if "distinct xs" for xs :: "nat list" and f :: "nat \<Rightarrow> vicinitySpan list" and di
    using that by (induction xs) (auto simp: filter_map comp_def filter_empty_conv)
  have "spans_ok (length data) (?es di) (spans_of (length data) (?es di))" for di
  proof (rule spans_of_ok)
    show "sorted (?es di)" by (rule ends_sorted) (rule reference_hits_sorted)
    show "\<forall>x \<in> set (?es di). x < length data" using reference_ends [of _ patterns "map ascii_lower data"] by (auto simp: ends_member)
  qed
  moreover have "map snd (filter (\<lambda>c. fst c = di) ?calls) = spans_of (length data) (?es di)" for di
    using flt [of "sort (ds_order st)" di "\<lambda>di. the (ds_dets st di)"] st(1)
    by (auto simp: tracks_def spans_of_def)
  moreover have "sorted (map fst ?calls)" by (rule srt) simp
  ultimately show ?thesis using st(2) by (auto simp: Let_def)
qed

section \<open>Construction of the prefilter\<close>

lemma ToLower_nonempty: "kw \<noteq> [] \<Longrightarrow> bytes_ToLower ul kw \<noteq> []"
proof -
  assume kw: "kw \<noteq> []"
  then have "runes_of kw \<noteq> []" by (subst runes_of.simps) simp
  then show ?thesis using kw by (cases "runes_of kw") (auto simp: bytes_ToLower_def)
qed

text \<open>After a list of (detector, keyword) pairs: the identifier map inverts the pattern list, and a detector is
  indexed under a pattern exactly when one of its keywords folds to it.\<close>

definition folds_to :: "(rune \<Rightarrow> rune) \<Rightarrow> (nat \<times> string) list \<Rightarrow> nat \<Rightarrow> bytes \<Rightarrow> bool" where
  "folds_to ul done di p \<longleftrightarrow> (\<exists>kw. (di, kw) \<in> set done \<and> kw \<noteq> [] \<and> bytes_ToLower ul kw = p)"

lemma folds_to_snoc:
  "folds_to ul (done @ [(di, kw)]) d p \<longleftrightarrow> folds_to ul done d p \<or> d = di \<and> kw \<noteq> [] \<and> bytes_ToLower ul kw = p"
  by (auto simp: folds_to_def)

definition build_ok :: "(rune \<Rightarrow> rune) \<Rightarrow> (nat \<times> string) list \<Rightarrow> prefilter_build \<Rightarrow> bool" where
  "build_ok ul done b \<longleftrightarrow>
     (\<forall>lk pid. pb_ids b lk = Some pid \<longleftrightarrow> pid < length (pb_patterns b) \<and> pb_patterns b ! pid = lk) \<and>
     length (pb_index b) = length (pb_patterns b) \<and>
     (\<forall>p. p \<in> set (pb_patterns b) \<longleftrightarrow> (\<exists>d. folds_to ul done d p)) \<and>
     (\<forall>pid < length (pb_patterns b). \<forall>d. d \<in> set (pb_index b ! pid) \<longleftrightarrow> folds_to ul done d (pb_patterns b ! pid))"

lemma build_ok_patterns: "build_ok ul done b \<Longrightarrow> p \<in> set (pb_patterns b) \<longleftrightarrow> (\<exists>d. folds_to ul done d p)"
  unfolding build_ok_def by (elim conjE) (rule spec)

lemma add_known_keyword:
  assumes "build_ok ul done b" "kw \<noteq> []" "pb_ids b (bytes_ToLower ul kw) = Some pid"
  shows "\<exists>b'. add_keyword ul di kw b = Some b' \<and> build_ok ul (done @ [(di, kw)]) b'"
proof -
  let ?b = "b\<lparr>pb_index := (pb_index b)[pid := pb_index b ! pid @ [di]]\<rparr>"
  have pid: "pid < length (pb_patterns b)" "pb_patterns b ! pid = bytes_ToLower ul kw"
    using assms(1,3) by (auto simp: build_ok_def)
  have uniq: "q = pid" if "q < length (pb_patterns b)" "pb_patterns b ! q = bytes_ToLower ul kw" for q
  proof -
    have "pb_ids b (bytes_ToLower ul kw) = Some q" using assms(1) that by (simp add: build_ok_def)
    then show ?thesis using assms(3) by simp
  qed
  have "d \<in> set (pb_index ?b ! q) \<longleftrightarrow> folds_to ul (done @ [(di, kw)]) d (pb_patterns b ! q)"
    if "q < length (pb_patterns b)" for q d
    using that assms(1,2) pid uniq [of q] by (auto simp: build_ok_def folds_to_snoc nth_list_update)
  moreover have "p \<in> set (pb_patterns b) \<longleftrightarrow> (\<exists>d. folds_to ul (done @ [(di, kw)]) d p)" for p
    using assms(1) nth_mem [OF pid(1)] pid(2) by (auto simp: build_ok_def folds_to_snoc)
  ultimately have "build_ok ul (done @ [(di, kw)]) ?b" using assms(1) by (simp add: build_ok_def)
  moreover have "length (pb_index b) = length (pb_patterns b)" using assms(1) by (simp add: build_ok_def)
  then have "add_keyword ul di kw b = Some ?b" using assms(2,3) pid by (simp add: add_keyword_def Let_def)
  ultimately show ?thesis by blast
qed

lemma add_new_keyword:
  assumes "build_ok ul done b" "kw \<noteq> []" "pb_ids b (bytes_ToLower ul kw) = None"
  shows "\<exists>b'. add_keyword ul di kw b = Some b' \<and> build_ok ul (done @ [(di, kw)]) b'"
proof -
  let ?lk = "bytes_ToLower ul kw" and ?n = "length (pb_patterns b)"
  let ?b = "b\<lparr>pb_ids := (pb_ids b)(?lk \<mapsto> ?n), pb_patterns := pb_patterns b @ [?lk], pb_index := pb_index b @ [[di]]\<rparr>"
  have fresh: "pb_patterns b ! q \<noteq> ?lk" if "q < ?n" for q
  proof
    assume "pb_patterns b ! q = ?lk"
    then have "pb_ids b ?lk = Some q" using assms(1) that by (simp add: build_ok_def)
    then show False using assms(3) by simp
  qed
  then have "?lk \<notin> set (pb_patterns b)" by (metis in_set_conv_nth)
  then have new: "\<not> folds_to ul done d ?lk" for d
    using build_ok_patterns [OF assms(1)] by simp
  have "pb_ids ?b lk = Some q \<longleftrightarrow> q < length (pb_patterns ?b) \<and> pb_patterns ?b ! q = lk" for lk q
  proof (cases "lk = ?lk")
    case True
    then show ?thesis using fresh [of q] by (auto simp: nth_append less_Suc_eq)
  next
    case False
    then show ?thesis using assms(1) by (auto simp: build_ok_def nth_append less_Suc_eq)
  qed
  moreover have "d \<in> set (pb_index ?b ! q) \<longleftrightarrow> folds_to ul (done @ [(di, kw)]) d (pb_patterns ?b ! q)"
    if "q < Suc ?n" for q d
  proof (cases "q = ?n")
    case True
    then show ?thesis using assms new by (auto simp: build_ok_def folds_to_snoc nth_append)
  next
    case False
    then show ?thesis using that assms fresh [of q] by (auto simp: build_ok_def folds_to_snoc nth_append)
  qed
  moreover have "p \<in> set (pb_patterns ?b) \<longleftrightarrow> (\<exists>d. folds_to ul (done @ [(di, kw)]) d p)" for p
    using assms by (auto simp: build_ok_def folds_to_snoc)
  ultimately have "build_ok ul (done @ [(di, kw)]) ?b" using assms(1) by (simp add: build_ok_def)
  moreover have "length (pb_index b) = ?n" using assms(1) by (simp add: build_ok_def)
  then have "add_keyword ul di kw b = Some ?b" using assms(2,3) by (simp add: add_keyword_def Let_def nth_append list_update_append)
  ultimately show ?thesis by blast
qed

lemma add_keyword_ok:
  assumes "build_ok ul done b"
  shows "\<exists>b'. add_keyword ul di kw b = Some b' \<and> build_ok ul (done @ [(di, kw)]) b'"
proof (cases "kw = []")
  case True
  have "folds_to ul (done @ [(di, kw)]) d p = folds_to ul done d p" for d p using True by (simp add: folds_to_snoc)
  then show ?thesis using assms True by (simp add: add_keyword_def build_ok_def)
next
  case False
  then show ?thesis using add_known_keyword [OF assms] add_new_keyword [OF assms] by (cases "pb_ids b (bytes_ToLower ul kw)") auto
qed

lemma collect_keywords_ok:
  "\<exists>b. collect_keywords ul dets = Some b \<and>
    build_ok ul (keyword_list dets) b"
  unfolding collect_keywords_def
proof (rule foldM_rule)
  show "build_ok ul [] \<lparr>pb_ids = Map.empty, pb_patterns = [], pb_index = []\<rparr>"
    by (simp add: build_ok_def folds_to_def)
next
  fix ys x t assume "build_ok ul ys t"
  then show "\<exists>t'. (case x of (di, kw) \<Rightarrow> add_keyword ul di kw) t = Some t' \<and> build_ok ul (ys @ [x]) t'"
    using add_keyword_ok by (cases x) simp
qed

lemma keyword_pairs:
  "(di, kw) \<in> set (keyword_list dets) \<longleftrightarrow>
     di < length dets \<and> kw \<in> set (det_Keywords (dets ! di))"
proof -
  have "(di, kw) \<in> set (concat (map (\<lambda>(di, d). map (Pair di) (det_Keywords d)) ps)) \<longleftrightarrow>
      (\<exists>d. (di, d) \<in> set ps \<and> kw \<in> set (det_Keywords d))" for ps
    by (induction ps) auto
  from this [of "enumerate 0 dets"] show ?thesis
    unfolding keyword_list_def by (simp add: in_set_enumerate_eq)
qed

lemma folds_to_keywords:
  "folds_to ul (keyword_list dets) di p \<longleftrightarrow>
     di < length dets \<and> (\<exists>kw \<in> set (det_Keywords (dets ! di)). kw \<noteq> [] \<and> bytes_ToLower ul kw = p)"
  unfolding folds_to_def keyword_pairs by blast

lemma keyword_patterns:
  assumes "build_ok ul (keyword_list dets) b"
  shows "[] \<notin> set (pb_patterns b)"
    and "di < length dets \<Longrightarrow> kw \<in> set (det_Keywords (dets ! di)) \<Longrightarrow> kw \<noteq> [] \<Longrightarrow> bytes_ToLower ul kw \<in> set (pb_patterns b)"
  using ToLower_nonempty [of _ ul] unfolding build_ok_patterns [OF assms] folds_to_keywords by blast+

text \<open>Every constructed engine has a correct prefilter, or no keyword at all.\<close>

lemma NewWithDetectors_ok:
  "\<exists>e. NewWithDetectors ul dets opts cc = Some e \<and> eng_dets e = order_detectors dets \<and> eng_opts e = opts \<and>
    eng_wantsFull e = map wantsFull_of (eng_dets e) \<and> eng_isVerifier e = map det_Verifier (eng_dets e) \<and>
    eng_cacheable e = map cacheable_of (eng_dets e) \<and> eng_usesData e = map usesData_of (eng_dets e) \<and>
    eng_assurance e = map (\<lambda>d. maxVerificationAssurance (det_Policy d)) (eng_dets e) \<and>
    (if eng_prefilter e = None then \<forall>d \<in> set (eng_dets e). \<forall>kw \<in> set (det_Keywords d). kw = []
     else \<exists>patterns. prefilter_ok ul e patterns)"
proof -
  let ?ds = "order_detectors dets"
  let ?e0 = "\<lparr>eng_opts = opts, eng_Concurrency = (if cc \<le> 0 then 8 else cc), eng_dets = ?ds,
         eng_isVerifier = map det_Verifier ?ds, eng_cacheable = map cacheable_of ?ds, eng_usesData = map usesData_of ?ds,
         eng_assurance = map (\<lambda>d. maxVerificationAssurance (det_Policy d)) ?ds,
         eng_wantsFull = map wantsFull_of ?ds, eng_prefilter = None, eng_idxByPattern = []\<rparr>"
  obtain b where b: "collect_keywords ul ?ds = Some b"
    "build_ok ul (keyword_list ?ds) b"
    using collect_keywords_ok by blast
  show ?thesis
  proof (cases "?ds = [] \<or> pb_patterns b = []")
    case True
    have "kw = []" if d: "d \<in> set ?ds" "kw \<in> set (det_Keywords d)" for d kw
    proof (rule ccontr)
      assume "kw \<noteq> []"
      moreover obtain di where "di < length ?ds" "?ds ! di = d" using d(1) unfolding in_set_conv_nth by blast
      ultimately have "bytes_ToLower ul kw \<in> set (pb_patterns b)" using d(2) keyword_patterns(2) [OF b(2), of di kw] by simp
      then show False using True d(1) by auto
    qed
    moreover have "NewWithDetectors ul dets opts cc = Some ?e0"
      using True b(1) by (auto simp: NewWithDetectors_def buildPrefilter_def Let_def)
    ultimately show ?thesis by (intro exI [of _ ?e0]) simp
  next
    case False
    obtain m where m: "New (pb_patterns b) = Some m" using New_ok by blast
    let ?e = "?e0\<lparr>eng_prefilter := Some m, eng_idxByPattern := pb_index b\<rparr>"
    have "prefilter_ok ul ?e (pb_patterns b)"
      using m b(2) keyword_patterns [OF b(2)] by (simp add: prefilter_ok_def build_ok_def folds_to_keywords)
    moreover have "NewWithDetectors ul dets opts cc = Some ?e"
      using False b(1) m by (simp add: NewWithDetectors_def buildPrefilter_def Let_def)
    ultimately show ?thesis by (intro exI [of _ ?e]) auto
  qed
qed

section \<open>What a detector gets to see\<close>

lemma spans_unique:
  assumes "sorted_wrt (\<lambda>a b. snd a < fst b) spans" "\<forall>sp \<in> set spans. fst sp < snd sp"
    and "x \<in> set spans" "y \<in> set spans" "fst x \<le> snd y" "fst y \<le> snd x"
  shows "x = (y :: vicinitySpan)"
  using assms by (induction spans) force+

lemma span_around_hit:
  assumes "spans_ok len es spans" "sp \<in> set spans" "\<forall>e \<in> set es. e < len"
  shows "\<exists>e \<in> set es. fst sp \<le> e \<and> e < snd sp"
proof -
  obtain e where e: "e \<in> set es" "fst sp = fst (hit_span len e)" using assms(1,2) unfolding spans_ok_def by blast
  obtain sp' where sp': "sp' \<in> set spans" "fst sp' \<le> fst (hit_span len e)" "snd (hit_span len e) \<le> snd sp'"
    using assms(1) e(1) unfolding spans_ok_def by blast
  have "sp' = sp"
    using spans_unique [of spans sp' sp] assms(1,2) sp' e hit_span_bounds [of e len] assms(3)
    by (force simp: spans_ok_def)
  then show ?thesis using e sp' assms(3) by (auto simp: hit_span_def split: if_splits intro!: bexI [of _ e])
qed

lemma hit_keyword:
  assumes "prefilter_ok ul e patterns" "h \<in> set (reference_hits patterns d)" "di \<in> set (eng_idxByPattern e ! PatternID h)"
  shows "\<exists>kw \<in> set (det_Keywords (eng_dets e ! di)). kw \<noteq> [] \<and> suffix (bytes_ToLower ul kw) (take (Suc (End h)) d)"
    and "di < length (eng_dets e)"
  using assms by (fastforce simp: prefilter_ok_def reference_hits_set)+

lemma keyword_hit:
  assumes "prefilter_ok ul e patterns" "di < length (eng_dets e)" "kw \<in> set (det_Keywords (eng_dets e ! di))" "kw \<noteq> []"
    and "occurs_at d (bytes_ToLower ul kw) p"
  shows "\<exists>h \<in> set (reference_hits patterns d). End h = p + length (bytes_ToLower ul kw) - 1 \<and> di \<in> set (eng_idxByPattern e ! PatternID h)"
proof -
  let ?lk = "bytes_ToLower ul kw"
  have "?lk \<in> set patterns" using assms(1-4) by (simp add: prefilter_ok_def)
  then obtain pid where pid: "pid < length patterns" "patterns ! pid = ?lk" unfolding in_set_conv_nth by blast
  have ne: "0 < length ?lk" using ToLower_nonempty [OF assms(4)] by simp
  have occ: "p + length ?lk \<le> length d" "take (length ?lk) (drop p d) = ?lk" using assms(5) by (auto simp: occurs_at_def)
  have lt: "p + length ?lk - 1 < length d" using ne occ(1) by linarith
  have "take (p + length ?lk) d = take p d @ ?lk" using occ(2) by (simp add: take_add)
  then have "suffix ?lk (take (Suc (p + length ?lk - 1)) d)" using ne by (simp add: suffix_def)
  then have "Hit pid (p + length ?lk - 1) \<in> set (reference_hits patterns d)"
    using pid ToLower_nonempty [OF assms(4), of ul] lt by (simp add: reference_hits_set)
  moreover have "di \<in> set (eng_idxByPattern e ! pid)" using assms(1-4) pid by (auto simp: prefilter_ok_def)
  ultimately show ?thesis by force
qed

lemma dispatch_covers:
  assumes "prefilter_ok ul e patterns" "di < length (eng_dets e)" "\<not> eng_wantsFull e ! di"
    and "kw \<in> set (det_Keywords (eng_dets e ! di))" "kw \<noteq> []" "occurs_at (map ascii_lower data) (bytes_ToLower ul kw) p"
    and "lo \<le> p" "p + length (bytes_ToLower ul kw) \<le> hi" "hi \<le> length data" "hi - lo \<le> windowOverlap"
  shows "\<exists>calls a b. dispatch_calls e data = Some calls \<and> (di, a, b) \<in> set calls \<and> a \<le> lo \<and> hi \<le> b"
proof -
  let ?lk = "bytes_ToLower ul kw" and ?hits = "reference_hits patterns (map ascii_lower data)"
  let ?es = "ends_of (eng_idxByPattern e) (eng_wantsFull e) di ?hits" and ?last = "p + length (bytes_ToLower ul kw) - 1"
  have ne: "0 < length ?lk" using ToLower_nonempty [OF assms(5)] by simp
  have "?last \<in> set ?es" using keyword_hit [OF assms(1,2,4,5,6)] assms(3) unfolding ends_member by metis
  moreover obtain calls where calls: "dispatch_calls e data = Some calls"
    "map snd (filter (\<lambda>c. fst c = di) calls) = spans_of (length data) ?es" "spans_ok (length data) ?es (spans_of (length data) ?es)"
    using dispatch_spans [OF assms(1), of data] unfolding Let_def by metis
  ultimately obtain sp where "sp \<in> set (spans_of (length data) ?es)" "fst sp \<le> fst (hit_span (length data) ?last)"
    "snd (hit_span (length data) ?last) \<le> snd sp" unfolding spans_ok_def by blast
  then have "(di, sp) \<in> set calls" "fst sp \<le> lo" "hi \<le> snd sp"
    using calls(2) [symmetric] assms(7-10) ne by (auto simp: hit_span_def windowOverlap_def vicinityRadius_def split: if_splits)
  then show ?thesis using calls(1) by (cases sp) auto
qed

lemma windows_member:
  assumes "i + n \<le> len" "n \<le> windowOverlap"
  shows "\<exists>s f. (s, f) \<in> set (variant_windows len) \<and> s \<le> i \<and> i + n \<le> f"
proof (cases "len \<le> maxWindowSize")
  case True
  then show ?thesis using assms by (simp add: variant_windows_def)
next
  case False
  then show ?thesis using window_loop_cover [of 0 i n len] assms by (auto simp: variant_windows_def)
qed

lemma windows_bounds: "(s, f) \<in> set (variant_windows len) \<Longrightarrow> s \<le> f \<and> f \<le> len"
  using window_loop_bounds [of s f len 0] by (auto simp: variant_windows_def split: if_splits)

lemma variant_calls_ok:
  assumes "prefilter_ok ul e patterns"
  shows "\<exists>calls. variant_calls e data = Some calls \<and>
    (\<forall>s f cs. (s, f) \<in> set (variant_windows (length data)) \<longrightarrow> dispatch_calls e (slice s f data) = Some cs \<longrightarrow>
      (\<forall>(di, a, b) \<in> set cs. (di, s + a, s + b) \<in> set calls))"
  unfolding variant_calls_def
proof (rule foldM_rule)
  fix ws :: "(nat \<times> nat) list" and w :: "nat \<times> nat" and acc :: "(nat \<times> nat \<times> nat) list"
  assume acc: "\<forall>s f cs. (s, f) \<in> set ws \<longrightarrow> dispatch_calls e (slice s f data) = Some cs \<longrightarrow> (\<forall>(di, a, b) \<in> set cs. (di, s + a, s + b) \<in> set acc)"
  obtain s f where w: "w = (s, f)" by (cases w)
  obtain cs where cs: "dispatch_calls e (slice s f data) = Some cs" using dispatch_spans [OF assms, of "slice s f data"] by blast
  show "\<exists>t'. (case w of (s, f) \<Rightarrow> \<lambda>acc. do {
         calls \<leftarrow> dispatch_calls e (slice s f data);
         Some (acc @ map (\<lambda>(di, a, b). (di, s + a, s + b)) calls)
       }) acc = Some t' \<and> (\<forall>s f cs. (s, f) \<in> set (ws @ [w]) \<longrightarrow> dispatch_calls e (slice s f data) = Some cs \<longrightarrow>
          (\<forall>(di, a, b) \<in> set cs. (di, s + a, s + b) \<in> set t'))"
    using acc cs w by (fastforce simp: image_iff)
qed simp

lemma engine_prefilter_ok:
  assumes "NewWithDetectors ul dets opts cc = Some e" "d \<in> set (eng_dets e)" "kw \<in> set (det_Keywords d)" "kw \<noteq> []"
  shows "\<exists>patterns. prefilter_ok ul e patterns"
  using NewWithDetectors_ok [of ul dets opts cc] assms by (auto split: if_splits)

lemma window_covers:
  assumes "prefilter_ok ul e patterns" "di < length (eng_dets e)" "\<not> eng_wantsFull e ! di"
    and "kw \<in> set (det_Keywords (eng_dets e ! di))" "kw \<noteq> []" "occurs_at (map ascii_lower data) (bytes_ToLower ul kw) p"
    and "lo \<le> p" "p + length (bytes_ToLower ul kw) \<le> hi" "hi \<le> length data" "hi - lo \<le> windowOverlap"
  shows "\<exists>s f cs a b. (s, f) \<in> set (variant_windows (length data)) \<and> s \<le> f \<and> f \<le> length data \<and>
    dispatch_calls e (slice s f data) = Some cs \<and> (di, a, b) \<in> set cs \<and> s + a \<le> lo \<and> hi \<le> s + b \<and> hi \<le> f"
proof -
  obtain s f where w: "(s, f) \<in> set (variant_windows (length data))" "s \<le> lo" "lo + (hi - lo) \<le> f"
    using windows_member [of lo "hi - lo" "length data"] assms(7-10) by auto
  have f: "s \<le> f" "f \<le> length data" using windows_bounds [OF w(1)] by auto
  have lower: "map ascii_lower (slice s f data) = slice s f (map ascii_lower data)"
    by (simp add: slice_def take_map drop_map)
  have "occurs_at (map ascii_lower (slice s f data)) (bytes_ToLower ul kw) (p - s)"
    unfolding lower using occurs_at_slice [of s p "bytes_ToLower ul kw" f "map ascii_lower data"] assms(6-8) w f by simp
  moreover have pos: "lo - s \<le> p - s" "p - s + length (bytes_ToLower ul kw) \<le> hi - s" "hi - s - (lo - s) \<le> windowOverlap"
    using assms(7,8,10) w(2) by linarith+
  moreover have "length (slice s f data) = f - s" using f by simp
  then have len: "hi - s \<le> length (slice s f data)" using w(3) assms(7,8) by linarith
  ultimately obtain cs a b where cs: "dispatch_calls e (slice s f data) = Some cs" "(di, a, b) \<in> set cs" "a \<le> lo - s" "hi - s \<le> b"
    using dispatch_covers [OF assms(1-5), of "slice s f data" "p - s" "lo - s" "hi - s"] pos len by blast
  have "s + a \<le> lo" "hi \<le> s + b" "hi \<le> f" using cs(3,4) w(2,3) by linarith+
  then show ?thesis using w(1) f cs(1,2) by blast
qed

text \<open>C13. No credential near its keyword is kept from its detector. For every engine built by
  \<open>NewWithDetectors\<close>, every detector that does not ask for whole chunks, every non-empty keyword of it
  and every stretch \<open>[lo, hi)\<close> of a variant of at most \<open>windowOverlap\<close> bytes in which the keyword occurs in
  any ASCII case, the scan of the variant does not panic and calls the detector on a slice that
  contains the whole stretch.\<close>

theorem dispatch_complete:
  assumes "NewWithDetectors ul dets opts cc = Some e" "di < length (eng_dets e)" "\<not> eng_wantsFull e ! di"
    and "kw \<in> set (det_Keywords (eng_dets e ! di))" "kw \<noteq> []" "occurs_at (map ascii_lower data) (bytes_ToLower ul kw) p"
    and "lo \<le> p" "p + length (bytes_ToLower ul kw) \<le> hi" "hi \<le> length data" "hi - lo \<le> windowOverlap"
  shows "\<exists>calls a b. variant_calls e data = Some calls \<and> (di, a, b) \<in> set calls \<and> a \<le> lo \<and> hi \<le> b"
proof -
  obtain patterns where ok: "prefilter_ok ul e patterns"
    using engine_prefilter_ok [OF assms(1) nth_mem [OF assms(2)] assms(4,5)] by blast
  obtain s f cs a b where w: "(s, f) \<in> set (variant_windows (length data))" "dispatch_calls e (slice s f data) = Some cs"
    "(di, a, b) \<in> set cs" "s + a \<le> lo" "hi \<le> s + b" using window_covers [OF ok assms(2-10)] by blast
  obtain calls where "variant_calls e data = Some calls" "(di, s + a, s + b) \<in> set calls"
    using variant_calls_ok [OF ok, of data] w(1-3) by blast
  then show ?thesis using w(4,5) by blast
qed

definition sample_det :: Det where
  "sample_det = \<lparr>det_Type = 1, det_Keywords = [''AKIA''], det_Verifier = False, det_FullChunk = None, det_Policy = None,
     det_CacheSafe = None, det_InputDependent = None, det_builtIn = True, det_unverified = (\<lambda>_. ([], None)),
     det_verified = (\<lambda>_ _. ([], None))\<rparr>"

lemma sample_lower: "bytes_ToLower id ''AKIA'' = ''akia''"
  by code_simp

theorem dispatch_complete_witness:
  "\<exists>e calls a b. NewWithDetectors id [sample_det] \<lparr>NoVerify = False, MinimumVerificationAssurance = AssuranceUnknown\<rparr> 0 = Some e \<and>
     variant_calls e ''x AKIA1'' = Some calls \<and> (0, a, b) \<in> set calls \<and> a \<le> 2 \<and> 7 \<le> b"
proof -
  let ?opts = "\<lparr>NoVerify = False, MinimumVerificationAssurance = AssuranceUnknown\<rparr>"
  obtain e where e: "NewWithDetectors id [sample_det] ?opts 0 = Some e" "eng_dets e = [sample_det]" "eng_wantsFull e = [False]"
    using NewWithDetectors_ok [of id "[sample_det]" ?opts 0] by (auto simp: order_detectors_def wantsFull_of_def sample_det_def)
  have "occurs_at (map ascii_lower ''x AKIA1'') ''akia'' 2" by code_simp
  then show ?thesis
    using dispatch_complete [OF e(1), of 0 "''AKIA''" "''x AKIA1''" 2 2 7] e(1,2,3)
    by (auto simp: sample_lower windowOverlap_def sample_det_def)
qed



lemma insort_verifier:
  "det_Verifier d \<Longrightarrow> insort_key (\<lambda>d. if det_Verifier d then 0 else 1 :: nat) d ds = d # ds"
  by (cases ds) simp_all

lemma insort_non_verifier:
  "\<not> det_Verifier d \<Longrightarrow> insort_key (\<lambda>d. if det_Verifier d then 0 else 1 :: nat) d
     (filter det_Verifier vs @ filter (\<lambda>d. \<not> det_Verifier d) ns) =
   filter det_Verifier vs @ d # filter (\<lambda>d. \<not> det_Verifier d) ns"
proof (induction vs)
  case Nil
  have "insort_key (\<lambda>d. if det_Verifier d then 0 else 1 :: nat) d ds = d # ds" if "list_all (\<lambda>d. \<not> det_Verifier d) ds" for ds
    using that Nil by (cases ds) simp_all
  then show ?case by (simp add: list_all_iff)
qed auto

lemma order_detectors_eq: "order_detectors dets = filter det_Verifier dets @ filter (\<lambda>d. \<not> det_Verifier d) dets"
  by (induction dets) (auto simp: order_detectors_def insort_verifier insort_non_verifier)

text \<open>Construction never panics, keeps every detector exactly once with the verifier-backed ones first and
  the caller's order inside each group, describes detector number \<open>i\<close> at position \<open>i\<close> of every parallel array,
  and leaves the prefilter out only when no detector declares a non-empty keyword.\<close>

theorem NewWithDetectors_total:
  "\<exists>e. NewWithDetectors ul dets opts cc = Some e \<and>
     eng_dets e = filter det_Verifier dets @ filter (\<lambda>d. \<not> det_Verifier d) dets \<and>
     eng_isVerifier e = map det_Verifier (eng_dets e) \<and> eng_wantsFull e = map wantsFull_of (eng_dets e) \<and>
     eng_cacheable e = map cacheable_of (eng_dets e) \<and> eng_usesData e = map usesData_of (eng_dets e) \<and>
     (eng_prefilter e = None \<longrightarrow> (\<forall>d \<in> set dets. \<forall>kw \<in> set (det_Keywords d). kw = []))"
proof -
  obtain e where e: "NewWithDetectors ul dets opts cc = Some e" "eng_dets e = order_detectors dets"
    "eng_wantsFull e = map wantsFull_of (eng_dets e)" "eng_isVerifier e = map det_Verifier (eng_dets e)"
    "eng_cacheable e = map cacheable_of (eng_dets e)" "eng_usesData e = map usesData_of (eng_dets e)"
    "eng_prefilter e = None \<longrightarrow> (\<forall>d \<in> set (eng_dets e). \<forall>kw \<in> set (det_Keywords d). kw = [])"
    using NewWithDetectors_ok [of ul dets opts cc] by metis
  moreover have "set (eng_dets e) = set dets" using e(2) by (auto simp: order_detectors_eq)
  ultimately show ?thesis by (simp add: order_detectors_eq)
qed

theorem NewWithDetectors_total_witness:
  "\<exists>e. NewWithDetectors id [sample_det, sample_det\<lparr>det_Verifier := True\<rparr>]
       \<lparr>NoVerify = False, MinimumVerificationAssurance = AssuranceUnknown\<rparr> 0 = Some e \<and>
     eng_dets e = [sample_det\<lparr>det_Verifier := True\<rparr>, sample_det] \<and> eng_isVerifier e = [True, False] \<and> eng_prefilter e \<noteq> None"
  using NewWithDetectors_total [of id "[sample_det, sample_det\<lparr>det_Verifier := True\<rparr>]"
      "\<lparr>NoVerify = False, MinimumVerificationAssurance = AssuranceUnknown\<rparr>" 0]
  by (auto simp: sample_det_def)

end
