(* ===== verification/Degradation.thy ===== *)
theory Degradation
  imports Detectors DetectorNames
begin

text \<open>
  Accounting of incomplete coverage: \<^verbatim>\<open>src/pkg/engine/degradation.go\<close> and the failure operations of
  \<^verbatim>\<open>engine.go\<close> (\<^verbatim>\<open>resetFailures\<close>, \<^verbatim>\<open>recordFailure\<close>, \<^verbatim>\<open>takeFailures\<close>). A Go error is a tree: a plain error,
  an \<^verbatim>\<open>errors.Join\<close> node, or a coverage error; \<^verbatim>\<open>nil\<close> is \<^const>\<open>None\<close>. The failure classifier that callers may
  install is a parameter (\<^const>\<open>None\<close> when none is installed).
\<close>

datatype FailureKind = FailureArchive | FailureDetector | FailureSource

fun FailureKind_string :: "FailureKind \<Rightarrow> string" where
  "FailureKind_string FailureArchive = ''archive''"
| "FailureKind_string FailureDetector = ''detector''"
| "FailureKind_string FailureSource = ''source''"

datatype 'e ScanFailure =
  ScanFailure (sf_Kind: FailureKind) (sf_Source: string) (sf_Detector: DetectorType) (sf_Err: "'e option")

datatype 'e DegradedError =
  DegradedError (dg_Total: int) (dg_Counts: "FailureKind \<Rightarrow> int") (dg_Failures: "'e ScanFailure list")
    (dg_Classes: "(string \<Rightarrow> int) option")

datatype goerr = ErrLeaf string | ErrJoin "goerr list" | ErrDegraded "goerr DegradedError"

definition maxFailureExamples :: nat where
  "maxFailureExamples = 32"

type_synonym classifier = "(goerr ScanFailure \<Rightarrow> string) option"

text \<open>A counter map reads 0 for an absent key, so a map from keys to counts is a total function.\<close>

definition classifyFailure :: "classifier \<Rightarrow> (string \<Rightarrow> int) \<Rightarrow> goerr ScanFailure \<Rightarrow> (string \<Rightarrow> int)" where
  "classifyFailure classifier classes failure =
     (case classifier of
        None \<Rightarrow> classes
      | Some classify \<Rightarrow>
        (let cls = classify failure in if cls = [] then classes else classes(cls := classes cls + 1)))"

definition degraded_total :: "goerr DegradedError \<Rightarrow> int" where
  "degraded_total e = (if 0 < dg_Total e then dg_Total e else int (length (dg_Failures e)))"

text \<open>\<open>show_err\<close> renders an underlying error (\<^verbatim>\<open>%v\<close>).\<close>

definition failure_detail :: "(goerr option \<Rightarrow> string) \<Rightarrow> goerr ScanFailure \<Rightarrow> string" where
  "failure_detail show_err f =
     FailureKind_string (sf_Kind f)
     @ (if sf_Kind f = FailureDetector then '' '' @ DetectorType_String (sf_Detector f) else [])
     @ (if sf_Source f \<noteq> [] then '' on '' @ sf_Source f else [])
     @ '': '' @ show_err (sf_Err f)"

fun join_details :: "string list \<Rightarrow> string" where
  "join_details [] = []"
| "join_details [d] = d"
| "join_details (d # e # ds) = d @ ''; '' @ join_details (e # ds)"

definition DegradedError_Error :: "(goerr option \<Rightarrow> string) \<Rightarrow> goerr DegradedError option \<Rightarrow> string" where
  "DegradedError_Error show_err e =
     (case e of
        None \<Rightarrow> ''scan coverage incomplete''
      | Some d \<Rightarrow>
        if degraded_total d = 0 then ''scan coverage incomplete''
        else
          let details = map (failure_detail show_err) (take 3 (dg_Failures d));
              total = degraded_total d;
              remaining = total - int (length details)
          in ''scan coverage incomplete: '' @ itoa total @ '' failure(s): '' @ join_details details
             @ (if 0 < remaining then ''; and '' @ itoa remaining @ '' more'' else []))"

definition DegradedError_Unwrap :: "goerr DegradedError option \<Rightarrow> goerr list" where
  "DegradedError_Unwrap e =
     (case e of None \<Rightarrow> [] | Some d \<Rightarrow> map the (filter (\<lambda>x. x \<noteq> None) (map sf_Err (dg_Failures d))))"

section \<open>Merging coverage errors\<close>

definition merge_degraded ::
  "classifier \<Rightarrow> goerr DegradedError \<Rightarrow> goerr DegradedError option \<Rightarrow> goerr DegradedError" where
  "merge_degraded classifier degraded merged =
     (let m = (case merged of None \<Rightarrow> DegradedError 0 (\<lambda>_. 0) [] None | Some m \<Rightarrow> m);
          base = (case dg_Classes m of None \<Rightarrow> (\<lambda>_. 0) | Some cs \<Rightarrow> cs);
          classes =
            (case dg_Classes degraded of
               Some cs \<Rightarrow> Some (\<lambda>k. base k + cs k)
             | None \<Rightarrow>
               if int (length (dg_Failures degraded)) = degraded_total degraded
               then Some (foldl (classifyFailure classifier) base (dg_Failures degraded))
               else dg_Classes m);
          remaining = maxFailureExamples - length (dg_Failures m)
      in DegradedError (dg_Total m + degraded_total degraded)
           (\<lambda>k. dg_Counts m k + dg_Counts degraded k)
           (dg_Failures m @ take remaining (dg_Failures degraded)) classes)"

fun visit_err ::
    "classifier \<Rightarrow> goerr \<Rightarrow> goerr DegradedError option \<times> goerr list \<Rightarrow> goerr DegradedError option \<times> goerr list"
  and visit_errs ::
    "classifier \<Rightarrow> goerr list \<Rightarrow> goerr DegradedError option \<times> goerr list \<Rightarrow> goerr DegradedError option \<times> goerr list"
where
  "visit_err cl (ErrDegraded d) mr = (Some (merge_degraded cl d (fst mr)), snd mr)"
| "visit_err cl (ErrJoin es) mr = visit_errs cl es mr"
| "visit_err cl (ErrLeaf s) mr = (fst mr, snd mr @ [ErrLeaf s])"
| "visit_errs cl [] mr = mr"
| "visit_errs cl (e # es) mr = visit_errs cl es (visit_err cl e mr)"

definition errors_Join :: "goerr list \<Rightarrow> goerr option" where
  "errors_Join es = (if es = [] then None else Some (ErrJoin es))"

definition PartitionDegradedErrors ::
  "classifier \<Rightarrow> goerr option \<Rightarrow> goerr DegradedError option \<times> goerr option" where
  "PartitionDegradedErrors cl err =
     (case err of
        None \<Rightarrow> (None, None)
      | Some e \<Rightarrow> (let (merged, residual) = visit_err cl e (None, []) in (merged, errors_Join residual)))"

section \<open>The engine's failure log\<close>

text \<open>A Go map that may be nil is an option: writing to a nil map panics, which makes \<open>recordFailure\<close> partial
  (\<^const>\<open>None\<close>); \<open>failureClasses\<close> is allocated on demand, \<open>failureCounts\<close> is not.\<close>

record failure_log =
  failures :: "goerr ScanFailure list"
  failureTotal :: int
  failureCounts :: "(FailureKind \<Rightarrow> int) option"
  failureClasses :: "(string \<Rightarrow> int) option"

definition new_failure_log :: failure_log where
  "new_failure_log = \<lparr>failures = [], failureTotal = 0, failureCounts = None, failureClasses = None\<rparr>"

definition resetFailures :: "failure_log \<Rightarrow> failure_log" where
  "resetFailures e =
     e\<lparr>failures := [], failureTotal := 0, failureCounts := Some (\<lambda>_. 0), failureClasses := Some (\<lambda>_. 0)\<rparr>"

definition recordFailure :: "classifier \<Rightarrow> goerr ScanFailure \<Rightarrow> failure_log \<Rightarrow> failure_log option" where
  "recordFailure cl failure e =
     (case failureCounts e of
        None \<Rightarrow> None
      | Some counts \<Rightarrow>
        (let classes = (case failureClasses e of None \<Rightarrow> (\<lambda>_. 0) | Some cs \<Rightarrow> cs) in
         Some (e\<lparr>failureTotal := failureTotal e + 1,
                 failureCounts := Some (counts(sf_Kind failure := counts (sf_Kind failure) + 1)),
                 failureClasses := Some (classifyFailure cl classes failure),
                 failures := (if length (failures e) < maxFailureExamples then failures e @ [failure] else failures e)\<rparr>)))"

definition takeFailures :: "failure_log \<Rightarrow> goerr DegradedError option \<times> failure_log" where
  "takeFailures e =
     (if failureTotal e = 0 then None
      else Some (DegradedError (failureTotal e) (case failureCounts e of None \<Rightarrow> (\<lambda>_. 0) | Some counts \<Rightarrow> counts)
                   (failures e) (failureClasses e)),
      e\<lparr>failures := [], failureTotal := 0, failureCounts := None, failureClasses := None\<rparr>)"

section \<open>Correctness\<close>

text \<open>The leaves of an error tree, in order: joins are opened, coverage errors and plain errors are kept.\<close>

fun err_leaves :: "goerr \<Rightarrow> goerr list" where
  "err_leaves (ErrJoin es) = concat (map err_leaves es)"
| "err_leaves e = [e]"

definition degraded_leaves :: "goerr list \<Rightarrow> goerr DegradedError list" where
  "degraded_leaves es = concat (map (\<lambda>e. case e of ErrDegraded d \<Rightarrow> [d] | _ \<Rightarrow> []) es)"

definition plain_leaves :: "goerr list \<Rightarrow> goerr list" where
  "plain_leaves es = filter (\<lambda>e. case e of ErrDegraded d \<Rightarrow> False | _ \<Rightarrow> True) es"

definition merge_all :: "classifier \<Rightarrow> goerr DegradedError list \<Rightarrow> goerr DegradedError option \<Rightarrow> goerr DegradedError option" where
  "merge_all cl ds m = foldl (\<lambda>m d. Some (merge_degraded cl d m)) m ds"

lemma leaves_append [simp]:
  "degraded_leaves (xs @ ys) = degraded_leaves xs @ degraded_leaves ys"
  "plain_leaves (xs @ ys) = plain_leaves xs @ plain_leaves ys"
  by (simp_all add: degraded_leaves_def plain_leaves_def)

lemma visit_leaves:
  "visit_err cl e mr = (merge_all cl (degraded_leaves (err_leaves e)) (fst mr), snd mr @ plain_leaves (err_leaves e))"
  "visit_errs cl es mr = (merge_all cl (degraded_leaves (concat (map err_leaves es))) (fst mr),
     snd mr @ plain_leaves (concat (map err_leaves es)))"
  by (induction cl e mr and cl es mr rule: visit_err_visit_errs.induct)
    (simp_all add: merge_all_def degraded_leaves_def plain_leaves_def)

lemma merge_degraded_total: "dg_Total (merge_degraded cl d m) = (case m of None \<Rightarrow> 0 | Some m \<Rightarrow> dg_Total m) + degraded_total d"
  by (simp add: merge_degraded_def Let_def split: option.splits)

lemma merge_degraded_counts:
  "dg_Counts (merge_degraded cl d m) k = (case m of None \<Rightarrow> 0 | Some m \<Rightarrow> dg_Counts m k) + dg_Counts d k"
  by (simp add: merge_degraded_def Let_def split: option.splits)

lemma merge_degraded_failures:
  "dg_Failures (merge_degraded cl d m) =
     (let fs = (case m of None \<Rightarrow> [] | Some m \<Rightarrow> dg_Failures m) in
      fs @ take (maxFailureExamples - length fs) (dg_Failures d))"
  by (simp add: merge_degraded_def Let_def split: option.splits)

lemma merge_all_totals:
  "\<exists>m'. merge_all cl ds (Some m) = Some m' \<and> dg_Total m' = dg_Total m + sum_list (map degraded_total ds) \<and>
     dg_Counts m' k = dg_Counts m k + sum_list (map (\<lambda>d. dg_Counts d k) ds)"
proof (induction ds arbitrary: m)
  case (Cons d ds)
  from Cons [of "merge_degraded cl d (Some m)"] show ?case
    by (auto simp: merge_all_def merge_degraded_total merge_degraded_counts)
qed (simp add: merge_all_def)

lemma merge_all_failures:
  "length (dg_Failures m) \<le> maxFailureExamples \<Longrightarrow>
   dg_Failures (the (merge_all cl ds (Some m))) = take maxFailureExamples (dg_Failures m @ concat (map dg_Failures ds))"
proof (induction ds arbitrary: m)
  case (Cons d ds)
  let ?m = "merge_degraded cl d (Some m)"
  have m: "dg_Failures ?m = take maxFailureExamples (dg_Failures m @ dg_Failures d)"
    using Cons.prems by (simp add: merge_degraded_failures Let_def)
  then have "dg_Failures (the (merge_all cl ds (Some ?m))) =
      take maxFailureExamples (dg_Failures ?m @ concat (map dg_Failures ds))" by (intro Cons.IH) simp
  then show ?case by (simp add: merge_all_def m min_def)
qed (simp add: merge_all_def)

text \<open>Partitioning an error tree is exact: no coverage error and no fatal error is lost or double-counted, at
  any depth of joining. The merged coverage error exists exactly when the tree has a coverage
  leaf, its total and its per-kind counts are the sums over those leaves, it keeps the first 32
  failure examples in order, and the residual joins exactly the other leaves in order.\<close>

theorem PartitionDegradedErrors_exact:
  "let ds = degraded_leaves (err_leaves e); (merged, residual) = PartitionDegradedErrors cl (Some e) in
     residual = errors_Join (plain_leaves (err_leaves e)) \<and>
     (merged = None \<longleftrightarrow> ds = []) \<and>
     dg_Total (case merged of None \<Rightarrow> DegradedError 0 (\<lambda>_. 0) [] None | Some m \<Rightarrow> m) = sum_list (map degraded_total ds) \<and>
     dg_Counts (case merged of None \<Rightarrow> DegradedError 0 (\<lambda>_. 0) [] None | Some m \<Rightarrow> m) k = sum_list (map (\<lambda>d. dg_Counts d k) ds) \<and>
     dg_Failures (case merged of None \<Rightarrow> DegradedError 0 (\<lambda>_. 0) [] None | Some m \<Rightarrow> m) = take 32 (concat (map dg_Failures ds))"
proof (cases "degraded_leaves (err_leaves e)")
  case Nil
  then show ?thesis by (simp add: PartitionDegradedErrors_def visit_leaves merge_all_def)
next
  case (Cons d ds)
  let ?m1 = "merge_degraded cl d None"
  obtain m where m: "merge_all cl ds (Some ?m1) = Some m" "dg_Total m = dg_Total ?m1 + sum_list (map degraded_total ds)"
    "dg_Counts m k = dg_Counts ?m1 k + sum_list (map (\<lambda>d. dg_Counts d k) ds)"
    using merge_all_totals [of cl ds ?m1 k] by blast
  have "dg_Failures ?m1 = take 32 (dg_Failures d)" by (simp add: merge_degraded_failures maxFailureExamples_def)
  then have "dg_Failures m = take 32 (dg_Failures d @ concat (map dg_Failures ds))"
    using merge_all_failures [of ?m1 cl ds] m by (simp add: maxFailureExamples_def min_def)
  moreover have "merge_all cl (d # ds) None = Some m" using m by (simp add: merge_all_def)
  ultimately show ?thesis
    using Cons m
    by (simp add: PartitionDegradedErrors_def visit_leaves merge_degraded_total merge_degraded_counts)
qed

lemma record_fold:
  "failureCounts e = Some counts \<Longrightarrow> failureClasses e = Some classes \<Longrightarrow>
   foldM (recordFailure cl) fs e =
     Some (e\<lparr>failures := failures e @ take (maxFailureExamples - length (failures e)) fs,
      failureTotal := failureTotal e + int (length fs),
      failureCounts := Some (\<lambda>k. counts k + int (length (filter (\<lambda>f. sf_Kind f = k) fs))),
      failureClasses := Some (foldl (classifyFailure cl) classes fs)\<rparr>)"
proof (induction fs arbitrary: e counts classes)
  case (Cons f fs)
  let ?counts = "counts(sf_Kind f := counts (sf_Kind f) + 1)"
  let ?e = "e\<lparr>failureTotal := failureTotal e + 1, failureCounts := Some ?counts,
    failureClasses := Some (classifyFailure cl classes f),
    failures := (if length (failures e) < maxFailureExamples then failures e @ [f] else failures e)\<rparr>"
  have step: "recordFailure cl f e = Some ?e" using Cons.prems by (simp add: recordFailure_def)
  have "maxFailureExamples - length (failures e) = Suc (maxFailureExamples - Suc (length (failures e)))"
    if "length (failures e) < maxFailureExamples" using that by simp
  moreover have "foldM (recordFailure cl) fs ?e =
     Some (?e\<lparr>failures := failures ?e @ take (maxFailureExamples - length (failures ?e)) fs,
      failureTotal := failureTotal ?e + int (length fs),
      failureCounts := Some (\<lambda>k. ?counts k + int (length (filter (\<lambda>f. sf_Kind f = k) fs))),
      failureClasses := Some (foldl (classifyFailure cl) (classifyFailure cl classes f) fs)\<rparr>)"
    using Cons.IH [of ?e ?counts "classifyFailure cl classes f"] by (simp add: fun_upd_def)
  ultimately show ?case unfolding foldM.simps step by (auto simp: fun_eq_iff)
qed simp

text \<open>C39. Every recorded failure is accounted for: in a run that starts with \<open>resetFailures\<close> recording never
  panics, and after any sequence of failures the error that the run returns has the exact total,
  per-kind counts that add up to it, and the first 32 failures as examples; it is absent exactly when
  nothing failed. Taking it empties the log, and the next run's reset starts from zero again.\<close>

theorem takeFailures_exact:
  "\<exists>log. foldM (recordFailure cl) fs (resetFailures e0) = Some log \<and>
     (let counts = \<lambda>k. int (length (filter (\<lambda>f. sf_Kind f = k) fs)) in
      fst (takeFailures log) =
       (if fs = [] then None
        else Some (DegradedError (int (length fs)) counts (take 32 fs) (Some (foldl (classifyFailure cl) (\<lambda>_. 0) fs)))) \<and>
      (\<Sum>k \<in> {FailureArchive, FailureDetector, FailureSource}. counts k) = int (length fs)) \<and>
     resetFailures (snd (takeFailures log)) = resetFailures e0"
proof -
  have "length (filter (\<lambda>f. sf_Kind f = FailureArchive) fs) + length (filter (\<lambda>f. sf_Kind f = FailureDetector) fs)
      + length (filter (\<lambda>f. sf_Kind f = FailureSource) fs) = length fs"
  proof (induction fs)
    case (Cons f fs)
    then show ?case by (cases "sf_Kind f") simp_all
  qed simp
  then show ?thesis
    using record_fold [of "resetFailures e0" "\<lambda>_. 0" "\<lambda>_. 0" cl fs]
    by (simp add: takeFailures_def resetFailures_def maxFailureExamples_def Let_def flip: of_nat_add)
qed

end
