(* ===== verification/Decoder.thy ===== *)
theory Decoder
  imports Utf8
begin

text \<open>
  The decoders of \<^verbatim>\<open>src/pkg/decoder/decoder.go\<close>: the variants of a chunk that are scanned besides its raw
  bytes. Loops over an index are recursions over the remaining bytes; \<^verbatim>\<open>nil\<close> results are \<^const>\<open>None\<close>. The
  parts of \<^verbatim>\<open>encoding/base64\<close>, \<^verbatim>\<open>encoding/hex\<close> and \<^verbatim>\<open>unicode/utf16\<close> that it calls are modelled first.
\<close>

section \<open>The library codecs\<close>

text \<open>\<^verbatim>\<open>base64.Encoding.Decode\<close>, non-strict: one of the two alphabets, with or without the padding character. Line
  breaks are ignored, a final group of two or three digits stands alone only in the raw encodings,
  and in the padded ones padding completes it and ends the input.\<close>

datatype b64enc = b64enc (b64_url: bool) (b64_padded: bool)

definition StdEncoding :: b64enc where "StdEncoding = b64enc False True"
definition RawStdEncoding :: b64enc where "RawStdEncoding = b64enc False False"
definition URLEncoding :: b64enc where "URLEncoding = b64enc True True"
definition RawURLEncoding :: b64enc where "RawURLEncoding = b64enc True False"

definition b64_val :: "bool \<Rightarrow> byte \<Rightarrow> nat option" where
  "b64_val url b =
     (let c = code b in
      if 65 \<le> c \<and> c \<le> 90 then Some (c - 65)
      else if 97 \<le> c \<and> c \<le> 122 then Some (c - 71)
      else if 48 \<le> c \<and> c \<le> 57 then Some (c + 4)
      else if b = (if url then CHR ''-'' else CHR ''+'') then Some 62
      else if b = (if url then CHR ''_'' else CHR ''/'') then Some 63
      else None)"

definition byte0 :: "nat \<Rightarrow> nat \<Rightarrow> byte" where "byte0 a b = char_of (a * 4 + b div 16)"
definition byte1 :: "nat \<Rightarrow> nat \<Rightarrow> byte" where "byte1 b c = char_of (b mod 16 * 16 + c div 4)"
definition byte2 :: "nat \<Rightarrow> nat \<Rightarrow> byte" where "byte2 c d = char_of (c mod 4 * 64 + d)"

fun b64_quanta :: "bool \<Rightarrow> bool \<Rightarrow> bytes \<Rightarrow> bytes option" where
  "b64_quanta url pad [] = Some []"
| "b64_quanta url pad [a] = None"
| "b64_quanta url pad [a, b] =
     (if pad then None
      else do { va \<leftarrow> b64_val url a; vb \<leftarrow> b64_val url b; Some [byte0 va vb] })"
| "b64_quanta url pad [a, b, c] =
     (if pad then None
      else do { va \<leftarrow> b64_val url a; vb \<leftarrow> b64_val url b; vc \<leftarrow> b64_val url c; Some [byte0 va vb, byte1 vb vc] })"
| "b64_quanta url pad (a # b # c # d # rest) = do {
     va \<leftarrow> b64_val url a;
     vb \<leftarrow> b64_val url b;
     (case b64_val url c of
        None \<Rightarrow> (if pad \<and> c = CHR ''='' \<and> d = CHR ''='' \<and> rest = [] then Some [byte0 va vb] else None)
      | Some vc \<Rightarrow>
        (case b64_val url d of
           None \<Rightarrow> (if pad \<and> d = CHR ''='' \<and> rest = [] then Some [byte0 va vb, byte1 vb vc] else None)
         | Some vd \<Rightarrow> do {
             out \<leftarrow> b64_quanta url pad rest;
             Some (byte0 va vb # byte1 vb vc # byte2 vc vd # out)
           }))
   }"

definition b64_Decode :: "b64enc \<Rightarrow> bytes \<Rightarrow> bytes option" where
  "b64_Decode enc s = b64_quanta (b64_url enc) (b64_padded enc) (filter (\<lambda>b. b \<noteq> CHR 0x0A \<and> b \<noteq> CHR 0x0D) s)"

definition b64_DecodedLen :: "b64enc \<Rightarrow> nat \<Rightarrow> nat" where
  "b64_DecodedLen enc n = (if b64_padded enc then n div 4 * 3 else n * 6 div 8)"

definition hex_digit :: "byte \<Rightarrow> nat option" where
  "hex_digit b =
     (let c = code b in
      if 48 \<le> c \<and> c \<le> 57 then Some (c - 48)
      else if 97 \<le> c \<and> c \<le> 102 then Some (c - 87)
      else if 65 \<le> c \<and> c \<le> 70 then Some (c - 55)
      else None)"

fun hex_Decode :: "bytes \<Rightarrow> bytes option" where
  "hex_Decode [] = Some []"
| "hex_Decode [a] = None"
| "hex_Decode (a # b # rest) = do {
     h \<leftarrow> hex_digit a;
     l \<leftarrow> hex_digit b;
     out \<leftarrow> hex_Decode rest;
     Some (char_of (h * 16 + l) # out)
   }"

definition utf16_DecodeRune :: "rune \<Rightarrow> rune \<Rightarrow> rune" where
  "utf16_DecodeRune r1 r2 =
     (if 0xD800 \<le> r1 \<and> r1 < 0xDC00 \<and> 0xDC00 \<le> r2 \<and> r2 < 0xE000
      then (r1 - 0xD800) * 1024 + (r2 - 0xDC00) + 0x10000 else RuneError)"

section \<open>Printability\<close>

text \<open>Conversion of an integer to \<^verbatim>\<open>float64\<close> and the product with the constant 0.8, whose \<^verbatim>\<open>float64\<close> value is
  3602879701896397 divided by \<open>2 ^ 52\<close>: both round to 53 significant bits, ties to even; the conversion back to \<^verbatim>\<open>int\<close>
  truncates.\<close>

fun bit_len :: "nat \<Rightarrow> nat" where
  "bit_len n = (if n = 0 then 0 else Suc (bit_len (n div 2)))"

declare bit_len.simps [simp del]

definition round53 :: "nat \<Rightarrow> nat" where
  "round53 m =
     (let s = bit_len m - 53; q = m div 2 ^ s; r = m mod 2 ^ s in
      (if 2 ^ s < 2 * r \<or> 2 ^ s = 2 * r \<and> odd q then Suc q else q) * 2 ^ s)"

definition printableThreshold_of :: "nat \<Rightarrow> nat" where
  "printableThreshold_of n = round53 (round53 n * 3602879701896397) div 2 ^ 52"

definition printable_byte :: "byte \<Rightarrow> bool" where
  "printable_byte b \<longleftrightarrow> 0x20 \<le> code b \<and> code b \<le> 0x7E \<or> b = CHR 0x09 \<or> b = CHR 0x0A \<or> b = CHR 0x0D"

fun printable_loop :: "int \<Rightarrow> int \<Rightarrow> bytes \<Rightarrow> bool" where
  "printable_loop badBudget bad [] = True"
| "printable_loop badBudget bad (c # cs) =
     (if printable_byte c then printable_loop badBudget bad cs
      else if badBudget < bad + 1 then False
      else printable_loop badBudget (bad + 1) cs)"

definition mostlyPrintable :: "bytes \<Rightarrow> bool" where
  "mostlyPrintable b =
     (if b = [] then False
      else printable_loop (int (length b) - int (printableThreshold_of (length b))) 0 b)"

section \<open>Variants\<close>

definition minBase64Run :: nat where "minBase64Run = 32"
definition minHexRun :: nat where "minHexRun = 40"

record Variant =
  var_Source :: string
  var_Data :: bytes

section \<open>Base64 runs\<close>

definition isBase64Byte :: "byte \<Rightarrow> bool" where
  "isBase64Byte b \<longleftrightarrow>
     65 \<le> code b \<and> code b \<le> 90 \<or> 97 \<le> code b \<and> code b \<le> 122 \<or> 48 \<le> code b \<and> code b \<le> 57 \<or>
     b = CHR ''+'' \<or> b = CHR ''/'' \<or> b = CHR ''_'' \<or> b = CHR ''-''"

text \<open>The runs handed to the callback of \<^verbatim>\<open>walkBase64RunsMeta\<close>, in order, with their alphabet marker. \<open>cur\<close> is
  \<^verbatim>\<open>data[start:i]\<close>, \<^const>\<open>None\<close> while \<^verbatim>\<open>start < 0\<close>.\<close>

definition flush_base64 :: "bytes option \<Rightarrow> nat \<Rightarrow> bytes \<Rightarrow> (bytes \<times> nat) list" where
  "flush_base64 cur alphabet rest =
     (case cur of
        None \<Rightarrow> []
      | Some run \<Rightarrow>
        if minBase64Run \<le> length run then [(run @ take 2 (takeWhile (\<lambda>b. b = CHR ''='') rest), alphabet)] else [])"

definition next_alphabet :: "nat \<Rightarrow> byte \<Rightarrow> nat" where
  "next_alphabet alphabet c =
     (if c = CHR ''-'' \<or> c = CHR ''_'' then 1 else if c = CHR ''+'' \<or> c = CHR ''/'' then 0 else alphabet)"

fun base64_runs :: "bytes option \<Rightarrow> nat \<Rightarrow> bytes \<Rightarrow> (bytes \<times> nat) list" where
  "base64_runs cur alphabet [] = flush_base64 cur alphabet []"
| "base64_runs cur alphabet (c # cs) =
     (if isBase64Byte c then
        (case cur of
           None \<Rightarrow> base64_runs (Some [c]) (next_alphabet 0 c) cs
         | Some run \<Rightarrow> base64_runs (Some (run @ [c])) (next_alphabet alphabet c) cs)
      else flush_base64 cur alphabet (c # cs) @ base64_runs None alphabet cs)"

definition walkBase64RunsMeta :: "bytes \<Rightarrow> (bytes \<times> nat) list" where
  "walkBase64RunsMeta data = base64_runs None 0 data"

definition base64Encoding :: "bytes \<Rightarrow> nat \<Rightarrow> b64enc" where
  "base64Encoding s alphabet =
     (let padded = (s \<noteq> [] \<and> last s = CHR ''='') in
      if alphabet = 1 then (if padded then URLEncoding else RawURLEncoding)
      else (if padded then StdEncoding else RawStdEncoding))"

definition complementary :: "b64enc \<Rightarrow> b64enc" where
  "complementary enc = b64enc (b64_url enc) (\<not> b64_padded enc)"

definition decode_nonempty :: "b64enc \<Rightarrow> bytes \<Rightarrow> bytes option" where
  "decode_nonempty enc s =
     (case b64_Decode enc s of None \<Rightarrow> None | Some d \<Rightarrow> if d = [] then None else Some d)"

definition decodeBase64Into :: "bytes \<Rightarrow> nat \<Rightarrow> bytes option" where
  "decodeBase64Into s alphabet =
     (let enc = base64Encoding s alphabet in
      case decode_nonempty enc s of
        Some d \<Rightarrow> Some d
      | None \<Rightarrow> decode_nonempty (complementary enc) s)"

definition base64DecodedLen :: "bytes \<Rightarrow> nat" where
  "base64DecodedLen run =
     foldl (\<lambda>m enc. let n = b64_DecodedLen enc (length run) in if m < n then n else m) 0
       [StdEncoding, RawStdEncoding, URLEncoding, RawURLEncoding]"

text \<open>The output buffer: while \<open>bb_owned\<close> is false, \<^verbatim>\<open>out\<close> is the first \<open>bb_len\<close> bytes of the caller's scratch
  memory \<open>bb_mem\<close> (whose length is its capacity); afterwards it is \<open>bb_own\<close>. The decoder library may leave
  any bytes in the part of the destination it does not define, and a grown slice may hold any bytes
  beyond its old length: \<open>junk\<close> gives them.\<close>

record b64_buf =
  bb_owned :: bool
  bb_own :: bytes
  bb_len :: nat
  bb_mem :: bytes

definition b64_out :: "b64_buf \<Rightarrow> bytes" where
  "b64_out st = (if bb_owned st then bb_own st else take (bb_len st) (bb_mem st))"

definition written :: "(bytes \<Rightarrow> bytes) \<Rightarrow> bytes \<Rightarrow> bytes option \<Rightarrow> nat \<Rightarrow> bytes" where
  "written junk run decoded n =
     (let d = (case decoded of None \<Rightarrow> [] | Some d \<Rightarrow> d) in
      take n (d @ drop (length d) (take n (junk run @ replicate n (CHR 0x00)))))"

definition overwrite :: "nat \<Rightarrow> bytes \<Rightarrow> bytes \<Rightarrow> bytes" where
  "overwrite start bs mem = take start mem @ bs @ drop (start + length bs) mem"

definition claim_buffer :: "nat \<Rightarrow> b64_buf \<Rightarrow> b64_buf" where
  "claim_buffer limit st =
     (if \<not> bb_owned st \<and> length (bb_mem st) < limit then st\<lparr>bb_owned := True, bb_own := b64_out st\<rparr> else st)"

definition write_dst :: "nat \<Rightarrow> bytes \<Rightarrow> bytes \<Rightarrow> b64_buf \<Rightarrow> b64_buf" where
  "write_dst start gap dst st =
     (if bb_owned st then st\<lparr>bb_own := bb_own st @ gap @ dst\<rparr>
      else st\<lparr>bb_mem := overwrite start dst (bb_mem st)\<rparr>)"

definition reject_run :: "nat \<Rightarrow> b64_buf \<Rightarrow> b64_buf" where
  "reject_run previousLen st = (if bb_owned st then st\<lparr>bb_own := take previousLen (bb_own st)\<rparr> else st)"

definition accept_run :: "nat \<Rightarrow> nat \<Rightarrow> nat \<Rightarrow> b64_buf \<Rightarrow> b64_buf" where
  "accept_run separator start n st =
     (if bb_owned st
      then (let out = take (start + n) (bb_own st)
            in st\<lparr>bb_own := (if 0 < separator then out[start - 1 := CHR 0x0A] else out)\<rparr>)
      else st\<lparr>bb_len := start + n,
              bb_mem := (if 0 < separator then (bb_mem st)[start - 1 := CHR 0x0A] else bb_mem st)\<rparr>)"

definition base64_step :: "(bytes \<Rightarrow> bytes) \<Rightarrow> bytes \<times> nat \<Rightarrow> b64_buf \<Rightarrow> b64_buf" where
  "base64_step junk = (\<lambda>(run, alphabet) st.
     let needed = base64DecodedLen run;
         previousLen = length (b64_out st);
         separator = (if 0 < previousLen then 1 else 0);
         start = previousLen + separator;
         decoded = decodeBase64Into run alphabet;
         st1 = write_dst start (written junk run None separator) (written junk run decoded needed)
                 (claim_buffer (start + needed) st)
     in case decoded of
          None \<Rightarrow> reject_run previousLen st1
        | Some d \<Rightarrow> if \<not> mostlyPrintable d then reject_run previousLen st1 else accept_run separator start (length d) st1)"

definition decodeBase64WithScratch :: "(bytes \<Rightarrow> bytes) \<Rightarrow> bytes \<Rightarrow> bytes \<Rightarrow> bytes option" where
  "decodeBase64WithScratch junk data scratch =
     (let out = b64_out (foldl (\<lambda>st run. base64_step junk run st)
                  \<lparr>bb_owned = False, bb_own = [], bb_len = 0, bb_mem = scratch\<rparr> (walkBase64RunsMeta data))
      in if out = [] then None else Some out)"

section \<open>Hexadecimal runs\<close>

definition isHexByte :: "byte \<Rightarrow> bool" where
  "isHexByte b \<longleftrightarrow> 48 \<le> code b \<and> code b \<le> 57 \<or> 97 \<le> code b \<and> code b \<le> 102 \<or> 65 \<le> code b \<and> code b \<le> 70"

definition flush_hex :: "bytes option \<Rightarrow> bytes list" where
  "flush_hex cur = (case cur of None \<Rightarrow> [] | Some run \<Rightarrow> if minHexRun \<le> length run then [run] else [])"

fun hex_runs :: "bytes option \<Rightarrow> bytes \<Rightarrow> bytes list" where
  "hex_runs cur [] = flush_hex cur"
| "hex_runs cur (c # cs) =
     (if \<not> isHexByte c then flush_hex cur @ hex_runs None cs
      else hex_runs (case cur of None \<Rightarrow> Some [c] | Some run \<Rightarrow> Some (run @ [c])) cs)"

definition walkHexRuns :: "bytes \<Rightarrow> bytes list" where
  "walkHexRuns data = hex_runs None data"

definition hex_step :: "bytes option \<Rightarrow> bytes \<Rightarrow> bytes option" where
  "hex_step out run =
     (case hex_Decode run of
        None \<Rightarrow> out
      | Some decoded \<Rightarrow>
        if \<not> mostlyPrintable decoded then out
        else case out of None \<Rightarrow> Some decoded | Some o' \<Rightarrow> Some (o' @ [CHR 0x0A] @ decoded))"

definition decodeHex :: "bytes \<Rightarrow> bytes option" where
  "decodeHex data = foldl hex_step None (walkHexRuns data)"

section \<open>Percent escapes\<close>

definition isPercentEscapePair :: "bytes \<Rightarrow> bool" where
  "isPercentEscapePair d \<longleftrightarrow>
     d ! 0 = CHR ''%'' \<and> isHexByte (d ! 1) \<and> isHexByte (d ! 2) \<and> d ! 3 = CHR ''%'' \<and> isHexByte (d ! 4) \<and> isHexByte (d ! 5)"

text \<open>The search loop of \<^verbatim>\<open>hasPercentEscapePair\<close> and \<^verbatim>\<open>hasUnicodeEscapePair\<close>: jump to the next marker byte and test
  the pair there when enough bytes remain.\<close>

function pair_scan :: "byte \<Rightarrow> nat \<Rightarrow> (bytes \<Rightarrow> bool) \<Rightarrow> bytes \<Rightarrow> bool" where
  "pair_scan marker width is_pair data =
     (case bytes_index data [marker] of
        None \<Rightarrow> False
      | Some rel \<Rightarrow>
        if width \<le> length (drop rel data) \<and> is_pair (drop rel data) then True
        else pair_scan marker width is_pair (drop (Suc rel) data))"
  by pat_completeness auto
termination
  by (relation "measure (\<lambda>(m, w, p, data). length data)") (auto simp: bytes_index_Some occurs_at_def)

declare pair_scan.simps [simp del]

definition hasPercentEscapePair :: "bytes \<Rightarrow> bool" where
  "hasPercentEscapePair data = pair_scan (CHR ''%'') 6 isPercentEscapePair data"

definition hexValue :: "byte \<Rightarrow> nat" where
  "hexValue b =
     (if 48 \<le> code b \<and> code b \<le> 57 then code b - 48
      else if 97 \<le> code b \<and> code b \<le> 102 then code b - 97 + 10
      else code b - 65 + 10)"

function percent_loop :: "bytes \<Rightarrow> bytes \<times> bool" where
  "percent_loop [] = ([], False)"
| "percent_loop (c # cs) =
     (if c = CHR ''%'' \<and> 2 \<le> length cs \<and> isHexByte (cs ! 0) \<and> isHexByte (cs ! 1)
      then (char_of (hexValue (cs ! 0) * 16 + hexValue (cs ! 1)) # fst (percent_loop (drop 2 cs)), True)
      else if c = CHR ''+'' then (CHR '' '' # fst (percent_loop cs), True)
      else (c # fst (percent_loop cs), snd (percent_loop cs)))"
  by pat_completeness auto
termination
  by (relation "measure length") auto

definition decodePercentCandidate :: "bytes \<Rightarrow> bytes option" where
  "decodePercentCandidate data =
     (let (decoded, changed) = percent_loop data in
      if \<not> changed \<or> length decoded = length data \<or> \<not> mostlyPrintable decoded then None else Some decoded)"

section \<open>Unicode escapes\<close>

fun parseHex4_loop :: "nat \<Rightarrow> bytes \<Rightarrow> nat option" where
  "parseHex4_loop v [] = Some v"
| "parseHex4_loop v (c # cs) = (case hex_digit c of None \<Rightarrow> None | Some d \<Rightarrow> parseHex4_loop (v * 16 + d) cs)"

definition parseHex4 :: "bytes \<Rightarrow> nat option" where
  "parseHex4 s = (if length s \<noteq> 4 then None else parseHex4_loop 0 s)"

definition isUnicodeEscapePair :: "bytes \<Rightarrow> bool" where
  "isUnicodeEscapePair d \<longleftrightarrow>
     d ! 0 = CHR 0x5C \<and> d ! 1 = CHR ''u'' \<and> isHexByte (d ! 2) \<and> isHexByte (d ! 3) \<and> isHexByte (d ! 4) \<and> isHexByte (d ! 5) \<and>
     d ! 6 = CHR 0x5C \<and> d ! 7 = CHR ''u'' \<and> isHexByte (d ! 8) \<and> isHexByte (d ! 9) \<and> isHexByte (d ! 10) \<and> isHexByte (d ! 11)"

definition hasUnicodeEscapePair :: "bytes \<Rightarrow> bool" where
  "hasUnicodeEscapePair data = pair_scan (CHR 0x5C) 12 isUnicodeEscapePair data"

text \<open>The rune of the escape whose four digits are \<open>hi\<close>, combined with a following low surrogate, and the number
  of bytes consumed; \<open>cs\<close> is what follows the backslash.\<close>

definition escape_rune :: "nat \<Rightarrow> bytes \<Rightarrow> rune \<times> nat" where
  "escape_rune hi cs =
     (if 0xD800 \<le> hi \<and> hi \<le> 0xDBFF \<and> 11 \<le> length cs \<and> cs ! 5 = CHR 0x5C \<and> cs ! 6 = CHR ''u'' then
        (case parseHex4 (slice 7 11 cs) of
           Some lo \<Rightarrow> if 0xDC00 \<le> lo \<and> lo \<le> 0xDFFF then (utf16_DecodeRune hi lo, 12) else (hi, 6)
         | None \<Rightarrow> (hi, 6))
      else (hi, 6))"

function unicode_loop :: "bytes \<Rightarrow> bytes \<times> bool" where
  "unicode_loop [] = ([], False)"
| "unicode_loop (c # cs) =
     (if 5 \<le> length cs \<and> c = CHR 0x5C \<and> cs ! 0 = CHR ''u'' then
        (case parseHex4 (slice 1 5 cs) of
           None \<Rightarrow> (c # fst (unicode_loop cs), snd (unicode_loop cs))
         | Some hi \<Rightarrow>
           (encode_rune (fst (escape_rune hi cs)) @ fst (unicode_loop (drop (snd (escape_rune hi cs) - 1) cs)), True))
      else (c # fst (unicode_loop cs), snd (unicode_loop cs)))"
  by pat_completeness auto
termination
  by (relation "measure length") auto

definition decodeUnicodeEscape :: "bytes \<Rightarrow> bytes option" where
  "decodeUnicodeEscape data =
     (let (out, changed) = unicode_loop data in
      if \<not> changed \<or> \<not> mostlyPrintable out then None else Some out)"

section \<open>UTF-16\<close>

definition u16 :: "bool \<Rightarrow> byte \<Rightarrow> byte \<Rightarrow> nat" where
  "u16 isLE a b = (if isLE then code a + 256 * code b else code b + 256 * code a)"

definition utf16_unit :: "bool \<Rightarrow> nat \<Rightarrow> bytes \<Rightarrow> rune \<times> bytes" where
  "utf16_unit isLE u rest =
     (if 0xD800 \<le> u \<and> u \<le> 0xDBFF \<and> 2 \<le> length rest then
        (let lo = u16 isLE (rest ! 0) (rest ! 1) in
         if 0xDC00 \<le> lo \<and> lo \<le> 0xDFFF then (utf16_DecodeRune u lo, drop 2 rest) else (RuneError, rest))
      else if 0xDC00 \<le> u \<and> u \<le> 0xDFFF then (RuneError, rest)
      else (u, rest))"

lemma utf16_unit_length: "length (snd (utf16_unit isLE u rest)) \<le> length rest"
  by (simp add: utf16_unit_def Let_def)

function utf16_loop :: "bool \<Rightarrow> bytes \<Rightarrow> bytes" where
  "utf16_loop isLE (a # b # rest) =
     (let (r, rest') = utf16_unit isLE (u16 isLE a b) rest in
      if r = 0xFEFF then utf16_loop isLE rest' else encode_rune r @ utf16_loop isLE rest')"
| "utf16_loop isLE [] = []"
| "utf16_loop isLE [a] = []"
  by pat_completeness auto
termination
  using utf16_unit_length by (relation "measure (\<lambda>(isLE, d). length d)") (auto intro!: le_imp_less_Suc le_SucI, (metis snd_conv)+)

definition decodeUTF16 :: "bytes \<Rightarrow> bool \<Rightarrow> bytes option" where
  "decodeUTF16 data isLE =
     (let data1 =
        (if 2 \<le> length data \<and>
            (isLE \<and> data ! 0 = CHR 0xFF \<and> data ! 1 = CHR 0xFE \<or> \<not> isLE \<and> data ! 0 = CHR 0xFE \<and> data ! 1 = CHR 0xFF)
         then drop 2 data else data);
        data2 = (if length data1 mod 2 \<noteq> 0 then butlast data1 else data1);
        out = utf16_loop isLE data2
      in if data2 = [] then None else if out = [] then None else Some out)"

text \<open>The share of NUL bytes is compared with 0.75: the sample has at most 64 pairs, so the \<^verbatim>\<open>float64\<close> quotient is
  at least the (exactly represented) threshold precisely when four times the count is at least three
  times the number of pairs.\<close>

definition utf16_sample :: "bytes \<Rightarrow> bytes" where
  "utf16_sample data =
     (let s1 = (if 128 < length data then take 128 data else data)
      in if length s1 mod 2 \<noteq> 0 then butlast s1 else s1)"

definition count_NUL :: "nat \<Rightarrow> bytes \<Rightarrow> nat" where
  "count_NUL parity sample = length (filter (\<lambda>i. sample ! i = CHR 0x00 \<and> i mod 2 = parity) [0..<length sample])"

definition nul_heuristic :: "bytes \<Rightarrow> bool \<times> bool" where
  "nul_heuristic sample =
     (let half = length sample div 2 in
      if length sample < 8 then (False, False)
      else if 3 * half \<le> 4 * count_NUL 1 sample then (True, True)
      else if 3 * half \<le> 4 * count_NUL 0 sample then (False, True)
      else (False, False))"

definition utf16Encoding :: "bytes \<Rightarrow> (bool \<times> bool) option" where
  "utf16Encoding data = do {
     b0 \<leftarrow> geti data 0;
     b1 \<leftarrow> geti data 1;
     Some (if b0 = CHR 0xFF \<and> b1 = CHR 0xFE then (True, True)
           else if b0 = CHR 0xFE \<and> b1 = CHR 0xFF then (False, True)
           else nul_heuristic (utf16_sample data))
   }"

definition tryUTF16 :: "bytes \<Rightarrow> (string \<times> bytes) option option" where
  "tryUTF16 data =
     (if length data < 4 then Some None
      else do {
        (isLE, detected) \<leftarrow> utf16Encoding data;
        (if \<not> detected then Some None
         else case decodeUTF16 data isLE of
                None \<Rightarrow> Some None
              | Some decoded \<Rightarrow>
                if \<not> mostlyPrintable decoded then Some None
                else Some (Some (if isLE then ''utf16le'' else ''utf16be'', decoded)))
      })"

definition LooksLikeUTF16Text :: "bytes \<Rightarrow> bool option" where
  "LooksLikeUTF16Text data = map_option (\<lambda>r. r \<noteq> None) (tryUTF16 data)"

section \<open>All variants\<close>

definition variant_of :: "string \<Rightarrow> bytes option \<Rightarrow> Variant list" where
  "variant_of source v = (case v of None \<Rightarrow> [] | Some d \<Rightarrow> [\<lparr>var_Source = source, var_Data = d\<rparr>])"

definition VariantsWithScratch :: "(bytes \<Rightarrow> bytes) \<Rightarrow> bytes \<Rightarrow> bytes \<Rightarrow> Variant list option" where
  "VariantsWithScratch junk data scratch = do {
     utf16 \<leftarrow> tryUTF16 data;
     Some ([\<lparr>var_Source = [], var_Data = data\<rparr>]
       @ variant_of ''base64'' (decodeBase64WithScratch junk data scratch)
       @ (if hasPercentEscapePair data then variant_of ''percent'' (decodePercentCandidate data) else [])
       @ variant_of ''hex'' (decodeHex data)
       @ (case utf16 of None \<Rightarrow> [] | Some (src, v) \<Rightarrow> [\<lparr>var_Source = src, var_Data = v\<rparr>])
       @ (if hasUnicodeEscapePair data then variant_of ''unicode-escape'' (decodeUnicodeEscape data) else []))
   }"

definition Variants :: "(bytes \<Rightarrow> bytes) \<Rightarrow> bytes \<Rightarrow> Variant list option" where
  "Variants junk data = VariantsWithScratch junk data []"

end
