(* ===== verification/DecoderEscapes.thy ===== *)
theory DecoderEscapes
  imports DecoderCorrect
begin

text \<open>
  Escaped text: the pair gates in front of the percent and Unicode-escape decoders are exact searches,
  and escaped text is one of the variants of the chunk.
\<close>

section \<open>Escapes\<close>

lemma pair_scan_iff:
  assumes "\<And>d. width \<le> length d \<Longrightarrow> is_pair d \<Longrightarrow> d ! 0 = marker" "0 < width"
  shows "pair_scan marker width is_pair data \<longleftrightarrow> (\<exists>i. i + width \<le> length data \<and> is_pair (drop i data))"
proof (induction data rule: length_induct)
  case (1 data)
  show ?case
  proof (cases "bytes_index data [marker]")
    case None
    have "data ! i \<noteq> marker" if "i < length data" for i
    proof
      assume "data ! i = marker"
      then have "occurs_at data [marker] i" using that by (simp add: occurs_at_def take_Suc_conv_app_nth Cons_nth_drop_Suc [symmetric])
      then show False using None by (simp add: bytes_index_None)
    qed
    moreover have "data ! i = marker" if "i + width \<le> length data" "is_pair (drop i data)" for i
      using assms(1) [of "drop i data"] that assms(2) by simp
    ultimately show ?thesis using None assms(2) by (subst pair_scan.simps) fastforce
  next
    case (Some rel)
    then have rel: "rel < length data" "\<And>j. j < rel \<Longrightarrow> \<not> occurs_at data [marker] j"
      by (auto simp: bytes_index_Some occurs_at_def)
    have before: "\<not> (i + width \<le> length data \<and> is_pair (drop i data))" if "i < rel" for i
    proof
      assume i: "i + width \<le> length data \<and> is_pair (drop i data)"
      then have "data ! i = marker" using assms(1) [of "drop i data"] assms(2) by (simp add: le_diff_conv2)
      then have "occurs_at data [marker] i" using that rel(1) by (simp add: occurs_at_def Cons_nth_drop_Suc [symmetric])
      then show False using rel(2) that by blast
    qed
    let ?P = "\<lambda>i. i + width \<le> length data \<and> is_pair (drop i data)"
    have IH: "pair_scan marker width is_pair (drop (Suc rel) data) \<longleftrightarrow>
        (\<exists>i. i + width \<le> length (drop (Suc rel) data) \<and> is_pair (drop i (drop (Suc rel) data)))"
      using 1 rel(1) by simp
    have "i + width \<le> length (drop (Suc rel) data) \<and> is_pair (drop i (drop (Suc rel) data)) \<longleftrightarrow> ?P (i + Suc rel)" for i
      using assms(2) by auto
    then have later: "pair_scan marker width is_pair (drop (Suc rel) data) \<longleftrightarrow> (\<exists>i. ?P (i + Suc rel))" unfolding IH by blast
    have here: "width \<le> length (drop rel data) \<and> is_pair (drop rel data) \<longleftrightarrow> ?P rel" using rel(1) by auto
    have "(\<exists>i. ?P i) \<longleftrightarrow> ?P rel \<or> (\<exists>i. ?P (i + Suc rel))"
    proof
      assume "\<exists>i. ?P i"
      then obtain i where i: "?P i" by blast
      then have "i = rel \<or> (\<exists>j. i = j + Suc rel)" using before by (metis add.commute less_imp_Suc_add linorder_neqE_nat add_Suc_right)
      with i show "?P rel \<or> (\<exists>i. ?P (i + Suc rel))" by blast
    qed blast
    moreover have "pair_scan marker width is_pair data \<longleftrightarrow>
        (width \<le> length (drop rel data) \<and> is_pair (drop rel data)) \<or> pair_scan marker width is_pair (drop (Suc rel) data)"
      using Some by (subst pair_scan.simps) auto
    ultimately show ?thesis unfolding here later by blast
  qed
qed

lemma percent_pair_scan:
  "hasPercentEscapePair data \<longleftrightarrow> (\<exists>i. i + 6 \<le> length data \<and> isPercentEscapePair (drop i data))"
  unfolding hasPercentEscapePair_def by (rule pair_scan_iff) (simp_all add: isPercentEscapePair_def)

lemma unicode_pair_scan:
  "hasUnicodeEscapePair data \<longleftrightarrow> (\<exists>i. i + 12 \<le> length data \<and> isUnicodeEscapePair (drop i data))"
  unfolding hasUnicodeEscapePair_def by (rule pair_scan_iff) (simp_all add: isUnicodeEscapePair_def)

definition percent_encode :: "bytes \<Rightarrow> bytes" where
  "percent_encode s = concat (map (\<lambda>b. [CHR ''%'', hex_char (code b div 16), hex_char (code b mod 16)]) s)"

lemma percent_loop_plain:
  "\<forall>c \<in> set pre. c \<noteq> CHR ''%'' \<and> c \<noteq> CHR ''+'' \<Longrightarrow>
   percent_loop (pre @ rest) = (pre @ fst (percent_loop rest), snd (percent_loop rest))"
  by (induction pre) auto

lemma percent_loop_encode:
  "percent_loop (percent_encode s @ rest) = (s @ fst (percent_loop rest), s \<noteq> [] \<or> snd (percent_loop rest))"
proof (induction s)
  case (Cons b s)
  have "char_of (code b div 16 * 16 + code b mod 16) = b" by simp
  then show ?case using Cons by (simp add: percent_encode_def hex_char_facts nibbles)
qed (simp add: percent_encode_def)

lemma length_percent_encode: "length (percent_encode s) = 3 * length s"
  by (induction s) (simp_all add: percent_encode_def)

text \<open>C21. Percent-encoded text is revealed: a stretch of at least two consecutive escapes between plain text becomes the
  percent variant in which exactly the escapes are replaced by the bytes they stand for, when the
  result is printable.\<close>

theorem Variants_reveal_percent:
  assumes "\<forall>c \<in> set (pre @ post). c \<noteq> CHR ''%'' \<and> c \<noteq> CHR ''+''" "2 \<le> length s" "mostlyPrintable (pre @ s @ post)"
  shows "\<exists>vs. Variants junk (pre @ percent_encode s @ post) = Some vs \<and> \<lparr>var_Source = ''percent'', var_Data = pre @ s @ post\<rparr> \<in> set vs"
proof -
  let ?data = "pre @ percent_encode s @ post"
  obtain a b s' where s: "s = a # b # s'" using assms(2) by (cases s rule: remdups_adj.cases) auto
  have "isPercentEscapePair (drop (length pre) ?data)"
    by (simp add: isPercentEscapePair_def s percent_encode_def hex_char_facts nibbles)
  then have "hasPercentEscapePair ?data" unfolding percent_pair_scan using assms(2)
    by (intro exI [of _ "length pre"]) (simp add: length_percent_encode)
  moreover have "percent_loop post = (post, False)" using percent_loop_plain [of post "[]"] assms(1) by simp
  then have "percent_loop ?data = (pre @ s @ post, True)"
    using percent_loop_plain [of pre "percent_encode s @ post"] percent_loop_encode [of s post] assms(1) by (simp add: s)
  then have "decodePercentCandidate ?data = Some (pre @ s @ post)"
    using assms(3) by (simp add: decodePercentCandidate_def length_percent_encode s)
  ultimately show ?thesis by - (rule Variants_parts [of ?data junk], auto simp: variant_of_def)
qed

theorem Variants_reveal_percent_witness:
  "\<exists>vs. Variants id (''q='' @ percent_encode ''AKIA'' @ ''&'') = Some vs \<and>
     \<lparr>var_Source = ''percent'', var_Data = ''q=AKIA&''\<rparr> \<in> set vs"
proof -
  have "bad_bytes ''q=AKIA&'' = 0" by code_simp
  then have "mostlyPrintable ''q=AKIA&''" by (simp add: mostly_printable_of)
  then show ?thesis using Variants_reveal_percent [of "''q=''" "''&''" "''AKIA''" id] by simp
qed

definition hex4 :: "nat \<Rightarrow> bytes" where
  "hex4 u = [hex_char (u div 4096), hex_char (u div 256 mod 16), hex_char (u div 16 mod 16), hex_char (u mod 16)]"

definition escape_unit :: "nat \<Rightarrow> bytes" where
  "escape_unit u = CHR 0x5C # CHR ''u'' # hex4 u"

definition unicode_encode :: "rune list \<Rightarrow> bytes" where
  "unicode_encode rs = concat (map (\<lambda>r. concat (map escape_unit (utf16_units r))) rs)"

lemma hex4_digits:
  assumes "u < (65536 :: nat)"
  shows "u div 4096 < 16" "((u div 4096 * 16 + u div 256 mod 16) * 16 + u div 16 mod 16) * 16 + u mod 16 = u"
proof -
  show "u div 4096 < 16" using assms by (simp add: less_mult_imp_div_less)
  have "u div 4096 * 16 + u div 256 mod 16 = u div 256" using div_mult_mod_eq [of "u div 256" 16] by (simp add: div_mult2_eq [of u 256 16, simplified])
  moreover have "u div 256 * 16 + u div 16 mod 16 = u div 16" using div_mult_mod_eq [of "u div 16" 16] by (simp add: div_mult2_eq [of u 16 16, simplified])
  ultimately show "((u div 4096 * 16 + u div 256 mod 16) * 16 + u div 16 mod 16) * 16 + u mod 16 = u"
    by (simp only: div_mult_mod_eq)
qed

lemma parse_hex4: "u < 65536 \<Longrightarrow> parseHex4 (hex4 u) = Some u"
proof -
  assume u: "u < 65536"
  have "parseHex4 (hex4 u) = Some (((u div 4096 * 16 + u div 256 mod 16) * 16 + u div 16 mod 16) * 16 + u mod 16)"
    using hex4_digits(1) [OF u] unfolding parseHex4_def hex4_def by (simp add: hex_char_facts)
  then show ?thesis by (simp only: hex4_digits(2) [OF u])
qed

lemma unicode_loop_escape:
  assumes "5 \<le> length cs" "cs ! 0 = CHR ''u''" "parseHex4 (slice 1 5 cs) = Some hi" "escape_rune hi cs = (r, Suc n)"
  shows "unicode_loop (CHR 0x5C # cs) = (encode_rune r @ fst (unicode_loop (drop n cs)), True)"
  using assms by simp

lemma unicode_loop_single:
  assumes "u < 65536" "\<not> (0xD800 \<le> u \<and> u \<le> 0xDBFF)"
  shows "unicode_loop (escape_unit u @ rest) = (encode_rune u @ fst (unicode_loop rest), True)"
proof -
  obtain a b c d where h: "hex4 u = [a, b, c, d]" by (simp add: hex4_def)
  have "escape_rune u cs = (u, Suc 5)" for cs using assms(2) by (auto simp: escape_rune_def)
  then show ?thesis
    using unicode_loop_escape [of "CHR ''u'' # hex4 u @ rest" u u 5] parse_hex4 [OF assms(1)]
    by (simp add: h slice_def escape_unit_def del: unicode_loop.simps)
qed

lemma unicode_loop_pair:
  assumes "0xD800 \<le> hi" "hi \<le> 0xDBFF" "0xDC00 \<le> lo" "lo \<le> 0xDFFF"
  shows "unicode_loop (escape_unit hi @ escape_unit lo @ rest) = (encode_rune (utf16_DecodeRune hi lo) @ fst (unicode_loop rest), True)"
proof -
  obtain a b c d where h: "hex4 hi = [a, b, c, d]" by (simp add: hex4_def)
  obtain e f g i where l: "hex4 lo = [e, f, g, i]" by (simp add: hex4_def)
  have p: "parseHex4 [a, b, c, d] = Some hi" "parseHex4 [e, f, g, i] = Some lo"
    using parse_hex4 [of hi] parse_hex4 [of lo] assms h l by simp_all
  let ?cs = "CHR ''u'' # a # b # c # d # CHR 0x5C # CHR ''u'' # e # f # g # i # rest"
  have "escape_rune hi ?cs = (utf16_DecodeRune hi lo, Suc 11)" using p assms by (simp add: escape_rune_def slice_def)
  then show ?thesis
    using unicode_loop_escape [of ?cs hi "utf16_DecodeRune hi lo" 11] p
    by (simp add: h l slice_def escape_unit_def del: unicode_loop.simps)
qed

lemma unicode_loop_rune:
  assumes "valid_rune r"
  shows "unicode_loop (concat (map escape_unit (utf16_units r)) @ rest) = (encode_rune r @ fst (unicode_loop rest), True)"
proof (cases "r < 0x10000")
  case True
  moreover have "\<not> (0xD800 \<le> r \<and> r \<le> 0xDBFF)" using assms by (auto simp: valid_rune_def)
  ultimately show ?thesis using unicode_loop_single [of r rest] by (simp add: utf16_units_def del: unicode_loop.simps)
next
  case False
  have r: "0x10000 \<le> r" "r \<le> 0x10FFFF" using False assms by (auto simp: valid_rune_def)
  show ?thesis using unicode_loop_pair [OF surrogate_pair(1-4) [OF r], of rest] False
    by (simp add: utf16_units_def surrogate_pair(5) [OF r] del: unicode_loop.simps)
qed

lemma unicode_loop_plain:
  "CHR 0x5C \<notin> set pre \<Longrightarrow> unicode_loop (pre @ rest) = (pre @ fst (unicode_loop rest), snd (unicode_loop rest))"
  by (induction pre) auto

lemma unicode_loop_encode:
  "\<forall>r \<in> set rs. valid_rune r \<Longrightarrow>
   unicode_loop (unicode_encode rs @ rest) = (string_of_runes rs @ fst (unicode_loop rest), rs \<noteq> [] \<or> snd (unicode_loop rest))"
proof (induction rs)
  case (Cons r rs)
  then show ?case
    using unicode_loop_rune [of r "unicode_encode rs @ rest"] by (simp add: unicode_encode_def del: unicode_loop.simps)
qed (simp add: unicode_encode_def)

lemma escape_units_pair:
  assumes "2 \<le> length us"
  shows "\<exists>rest. concat (map escape_unit us) = escape_unit (us ! 0) @ escape_unit (us ! 1) @ rest"
proof -
  obtain u v us' where "us = u # v # us'" using assms by (cases us rule: remdups_adj.cases) auto
  then show ?thesis by simp
qed

lemma unicode_encode_units: "unicode_encode rs = concat (map escape_unit (concat (map utf16_units rs)))"
  by (induction rs) (simp_all add: unicode_encode_def)

lemma escape_unit_pair:
  assumes "u < 65536" "v < 65536"
  shows "isUnicodeEscapePair (escape_unit u @ escape_unit v @ rest)" "length (escape_unit u) = 6"
  using hex4_digits(1) [OF assms(1)] hex4_digits(1) [OF assms(2)]
  by (simp_all add: isUnicodeEscapePair_def escape_unit_def hex4_def hex_char_facts)

lemma units_small: "valid_rune r \<Longrightarrow> u \<in> set (utf16_units r) \<Longrightarrow> u < 65536"
proof (cases "r < 0x10000")
  case False
  assume r: "valid_rune r" and u: "u \<in> set (utf16_units r)"
  have "0x10000 \<le> r" "r \<le> 0x10FFFF" using r False by (auto simp: valid_rune_def)
  note sp = surrogate_pair [OF this]
  show ?thesis using u False sp by (auto simp: utf16_units_def)
qed (simp add: utf16_units_def)

text \<open>C20. Text hidden behind \<^verbatim>\<open>\uXXXX\<close> escapes is revealed: every sequence of Unicode scalar values that takes at
  least two escapes, supplementary planes as surrogate pairs, between text without backslashes,
  becomes the Unicode-escape variant in which the escapes are replaced by their UTF-8 form, when the
  result is printable.\<close>

theorem Variants_reveal_unicode:
  assumes "\<forall>r \<in> set rs. valid_rune r" "2 \<le> length (concat (map utf16_units rs))" "CHR 0x5C \<notin> set (pre @ post)"
    and "mostlyPrintable (pre @ string_of_runes rs @ post)"
  shows "\<exists>vs. Variants junk (pre @ unicode_encode rs @ post) = Some vs \<and>
    \<lparr>var_Source = ''unicode-escape'', var_Data = pre @ string_of_runes rs @ post\<rparr> \<in> set vs"
proof -
  let ?data = "pre @ unicode_encode rs @ post" and ?us = "concat (map utf16_units rs)"
  have small: "u < 65536" if "u \<in> set ?us" for u using that assms(1) units_small by auto
  have u01: "?us ! 0 < 65536" "?us ! 1 < 65536" using assms(2) by (intro small nth_mem; linarith)+
  obtain rest where rest: "unicode_encode rs = escape_unit (?us ! 0) @ escape_unit (?us ! 1) @ rest"
    using escape_units_pair [OF assms(2)] unfolding unicode_encode_units by blast
  have "isUnicodeEscapePair (drop (length pre) ?data)"
    using escape_unit_pair(1) [OF u01, of "rest @ post"] by (simp add: rest)
  then have "hasUnicodeEscapePair ?data" unfolding unicode_pair_scan
    using escape_unit_pair(2) [OF u01(1) u01(1)] escape_unit_pair(2) [OF u01(2) u01(2)]
    by (intro exI [of _ "length pre"]) (simp add: rest)
  moreover have "unicode_loop post = (post, False)" using unicode_loop_plain [of post "[]"] assms(3) by simp
  moreover have "rs \<noteq> []" using assms(2) by auto
  ultimately have "hasUnicodeEscapePair ?data" "unicode_loop ?data = (pre @ string_of_runes rs @ post, True)"
    using unicode_loop_plain [of pre "unicode_encode rs @ post"] unicode_loop_encode [OF assms(1), of post] assms(3) by simp_all
  then have "hasUnicodeEscapePair ?data" "decodeUnicodeEscape ?data = Some (pre @ string_of_runes rs @ post)"
    using assms(4) by (simp_all add: decodeUnicodeEscape_def)
  then show ?thesis by - (rule Variants_parts [of ?data junk], auto simp: variant_of_def)
qed

theorem Variants_reveal_unicode_witness:
  "\<exists>vs. Variants id (''k='' @ unicode_encode [0x6B, 0x65] @ ''.'') = Some vs \<and>
     \<lparr>var_Source = ''unicode-escape'', var_Data = ''k=ke.''\<rparr> \<in> set vs"
proof -
  have s: "string_of_runes [0x6B, 0x65] = ''ke''"
    by (simp add: encode_rune_def encode_valid_def valid_rune_def char_of_eq_iff)
  have "bad_bytes ''k=ke.'' = 0" by code_simp
  then have "mostlyPrintable ''k=ke.''" by (simp add: mostly_printable_of)
  then show ?thesis
    using Variants_reveal_unicode [of "[0x6B, 0x65]" "''k=''" "''.''" id] unfolding s
    by (simp add: valid_rune_def utf16_units_def)
qed

section \<open>The list of variants\<close>

lemma joined_nonempty: "list_all (\<lambda>d. d \<noteq> []) ds \<Longrightarrow> joined ds = Some v \<Longrightarrow> v \<noteq> []"
  using join_byte_empty_iff [of ds] by (auto simp: joined_def split: if_splits)

lemma hex_pieces_nonempty: "list_all (\<lambda>d. d \<noteq> []) (hex_pieces runs)"
  by (auto simp: hex_pieces_def list_all_iff mostlyPrintable_def)

lemma tryUTF16_result:
  "tryUTF16 data = Some (Some (src, v)) \<Longrightarrow> src \<in> {''utf16le'', ''utf16be''} \<and> v \<noteq> []"
  by (auto simp: tryUTF16_def mostlyPrintable_def bind_eq_Some_conv split: if_splits option.splits)

text \<open>The variants of every chunk: enumeration never panics, the first variant is the raw chunk under the empty
  source name, every further variant is non-empty, and no decoder contributes more than one variant.\<close>

theorem Variants_structure:
  "\<exists>vs. Variants junk data = Some (\<lparr>var_Source = [], var_Data = data\<rparr> # vs) \<and>
     list_all (\<lambda>v. var_Data v \<noteq> []) vs \<and> distinct (map var_Source vs) \<and>
     set (map var_Source vs) \<subseteq> {''base64'', ''percent'', ''hex'', ''utf16le'', ''utf16be'', ''unicode-escape''}"
proof -
  have printable: "d \<noteq> []" if "decodePercentCandidate data = Some d \<or> decodeUnicodeEscape data = Some d" for d
    using that by (auto simp: decodePercentCandidate_def decodeUnicodeEscape_def mostlyPrintable_def split: if_splits prod.splits)
  note facts = joined_nonempty [OF base64_pieces_nonempty] joined_nonempty [OF hex_pieces_nonempty] printable
  have one: "variant_of src v = [] \<or> (\<exists>d. v = Some d \<and> variant_of src v = [\<lparr>var_Source = src, var_Data = d\<rparr>])" for src v
    by (simp add: variant_of_def split: option.splits)
  obtain utf16 where u: "tryUTF16 data = Some utf16"
    "Variants junk data = Some ([\<lparr>var_Source = [], var_Data = data\<rparr>]
       @ variant_of ''base64'' (joined (base64_pieces (walkBase64RunsMeta data)))
       @ (if hasPercentEscapePair data then variant_of ''percent'' (decodePercentCandidate data) else [])
       @ variant_of ''hex'' (joined (hex_pieces (walkHexRuns data)))
       @ (case utf16 of None \<Rightarrow> [] | Some (src, v) \<Rightarrow> [\<lparr>var_Source = src, var_Data = v\<rparr>])
       @ (if hasUnicodeEscapePair data then variant_of ''unicode-escape'' (decodeUnicodeEscape data) else []))"
    by (rule Variants_parts)
  let ?vs = "variant_of ''base64'' (joined (base64_pieces (walkBase64RunsMeta data)))
       @ (if hasPercentEscapePair data then variant_of ''percent'' (decodePercentCandidate data) else [])
       @ variant_of ''hex'' (joined (hex_pieces (walkHexRuns data)))
       @ (case utf16 of None \<Rightarrow> [] | Some (src, v) \<Rightarrow> [\<lparr>var_Source = src, var_Data = v\<rparr>])
       @ (if hasUnicodeEscapePair data then variant_of ''unicode-escape'' (decodeUnicodeEscape data) else [])"
  have src: "src \<in> {''utf16le'', ''utf16be''} \<and> v \<noteq> []" if "utf16 = Some (src, v)" for src v
    using tryUTF16_result u(1) that by simp
  have "list_all (\<lambda>v. var_Data v \<noteq> []) ?vs"
    using facts src by (auto simp: variant_of_def split: option.splits)
  moreover have "distinct (map var_Source ?vs)"
    using src by (auto simp: variant_of_def split: option.splits)
  moreover have "set (map var_Source ?vs) \<subseteq> {''base64'', ''percent'', ''hex'', ''utf16le'', ''utf16be'', ''unicode-escape''}"
    using src by (auto simp: variant_of_def split: option.splits)
  ultimately show ?thesis using u(2) by (intro exI [of _ ?vs]) simp
qed

end
