(* ===== verification/Engine.thy ===== *)
theory Engine
  imports EngineDispatchCorrect Degradation DecoderEscapes VerificationCacheCorrect
begin

text \<open>
  The scan of a buffered chunk (\<^verbatim>\<open>src/pkg/engine/engine.go\<close>, \<^verbatim>\<open>scan_bytes.go\<close>): decoded variants, whole-chunk
  detectors, windows, the cache-aware detector call, finalisation and emission, and the run around
  it. The state is what the engine mutates while it scans; \<open>emitted\<close> are the findings handed to the
  sink, in order. A cancelled context is a number of polls of \<^verbatim>\<open>ctx.Err()\<close> after which it reports
  cancellation. \<^const>\<open>None\<close> is a run-time panic. Chunks are scanned one after the other; what other
  workers do to the shared verification cache meanwhile is covered by \<^const>\<open>fromData\<close> itself.
\<close>

section \<open>State and environment\<close>

text \<open>The parts of the outside world a scan uses: the SHA-256 digest and its hexadecimal form, the installed
  failure classifier, the bytes the base64 library leaves in undefined parts of its buffers, and
  when the context is cancelled.\<close>

record scan_env =
  env_sha :: "bytes \<Rightarrow> bytes"
  env_sha_hex :: "bytes \<Rightarrow> string"
  env_classifier :: classifier
  env_junk :: "bytes \<Rightarrow> bytes"
  env_cancel :: "nat option"

record scan_state =
  ss_cache :: verificationCache
  ss_stats :: cacheStats
  ss_chunks :: int
  ss_bytes :: int
  ss_findings :: int
  ss_log :: failure_log
  ss_polls :: nat
  ss_emitted :: "Finding list"

definition ctx_Err :: "scan_env \<Rightarrow> scan_state \<Rightarrow> bool \<times> scan_state" where
  "ctx_Err env st =
     ((case env_cancel env of None \<Rightarrow> False | Some n \<Rightarrow> n \<le> ss_polls st), st\<lparr>ss_polls := Suc (ss_polls st)\<rparr>)"

text \<open>A loop that stops at the first poll that reports cancellation.\<close>

fun poll_loop :: "scan_env \<Rightarrow> ('a \<Rightarrow> scan_state \<Rightarrow> scan_state option) \<Rightarrow> 'a list \<Rightarrow> scan_state \<Rightarrow> scan_state option" where
  "poll_loop env body [] st = Some st"
| "poll_loop env body (x # xs) st =
     (let (cancelled, st1) = ctx_Err env st in
      if cancelled then Some st1
      else case body x st1 of None \<Rightarrow> None | Some st2 \<Rightarrow> poll_loop env body xs st2)"

section \<open>Emission\<close>

text \<open>The occurrences of a secret in diff-backed standard input that lie on a mapped line, as start offset and
  location.\<close>

function located_loop :: "bytes \<Rightarrow> bytes \<Rightarrow> (int \<rightharpoonup> LineLocation) \<Rightarrow> nat \<Rightarrow> int \<Rightarrow> (nat \<times> LineLocation) list" where
  "located_loop data raw locations offset line =
     (if raw \<noteq> [] \<and> offset < length data then
        (case bytes_index (drop offset data) raw of
           None \<Rightarrow> []
         | Some index \<Rightarrow>
           (let start = offset + index;
                line1 = line + int (bytes_count_newlines (slice offset start data)) in
            (case locations line1 of
               Some loc \<Rightarrow> if loc_Path loc \<noteq> [] \<and> 0 < loc_Line loc then [(start, loc)] else []
             | None \<Rightarrow> [])
            @ located_loop data raw locations (start + length raw) (line1 + int (bytes_count_newlines raw))))
      else [])"
  by pat_completeness auto
termination
  by (relation "measure (\<lambda>(data, raw, locations, offset, line). length data - offset)") (auto simp flip: length_greater_0_conv)

declare located_loop.simps [simp del]

definition no_hint :: streamRawHint where
  "no_hint = \<lparr>hint_offset = 0, hint_newlines = 0, hint_ok = False\<rparr>"

definition finding_of :: "Engine \<Rightarrow> nat \<Rightarrow> Result \<Rightarrow> Chunk option \<Rightarrow> (int \<times> int) option \<Rightarrow> Finding option" where
  "finding_of e di r chunk span = do {
     d \<leftarrow> geti (eng_dets e) di;
     backed \<leftarrow> geti (eng_isVerifier e) di;
     Some \<lparr>Result_of = r, Chunk_of = chunk, Detector = det_Type d, VerifierBacked = backed, RawSpan = span,
           SuppressedBy = [], rawHint = no_hint\<rparr>
   }"

definition located_findings :: "Chunk \<Rightarrow> Result \<Rightarrow> (nat \<times> LineLocation) list" where
  "located_findings c r =
     (case md_Stdin (SourceMetadata c) of
        None \<Rightarrow> []
      | Some stdin \<Rightarrow>
        if stdin_Locations stdin \<noteq> Map.empty \<and> Raw r \<noteq> []
        then located_loop (Data c) (Raw r) (stdin_Locations stdin) 0 1 else [])"

definition located_chunk :: "Chunk \<Rightarrow> LineLocation \<Rightarrow> Chunk" where
  "located_chunk c loc =
     c\<lparr>SourceMetadata := (SourceMetadata c)\<lparr>md_Stdin := None,
        md_Filesystem := Some \<lparr>fs_Path = loc_Path loc, fs_Line = loc_Line loc\<rparr>\<rparr>\<rparr>"

definition emitDetectorResult ::
  "Engine \<Rightarrow> Chunk \<Rightarrow> string \<Rightarrow> string \<Rightarrow> nat \<Rightarrow> Result \<Rightarrow> scan_state \<Rightarrow> scan_state option" where
  "emitDetectorResult e c source archivePath di result st = do {
     d \<leftarrow> geti (eng_dets e) di;
     let r = finalize_result (det_Type d) (det_Policy d) source archivePath result;
     let st1 = st\<lparr>ss_findings := ss_findings st + 1\<rparr>;
     let located = located_findings c r;
     fs \<leftarrow> (if located \<noteq> []
            then foldM (\<lambda>(start, loc) acc. do {
                   f \<leftarrow> finding_of e di r (Some (located_chunk c loc)) (Some (int start, int (start + length (Raw r))));
                   Some (acc @ [f])
                 }) located []
            else map_option (\<lambda>f. [f]) (finding_of e di r (chunkWithMatchLine (Some c) (Raw r)) None));
     Some (st1\<lparr>ss_emitted := ss_emitted st1 @ fs\<rparr>)
   }"

section \<open>Running a detector\<close>

definition slot_of :: "Engine \<Rightarrow> nat \<Rightarrow> detector_slot option" where
  "slot_of e di = do {
     d \<leftarrow> geti (eng_dets e) di;
     isVerifier \<leftarrow> geti (eng_isVerifier e) di;
     cacheable \<leftarrow> geti (eng_cacheable e) di;
     usesData \<leftarrow> geti (eng_usesData e) di;
     assurance \<leftarrow> geti (eng_assurance e) di;
     Some \<lparr>ds_Type = det_Type d, ds_index = di, ds_isVerifier = isVerifier, ds_cacheable = cacheable,
           ds_usesData = usesData, ds_assurance = assurance, ds_unverified = det_unverified d,
           ds_verified = det_verified d\<rparr>
   }"

definition runDetectorOn ::
  "scan_env \<Rightarrow> Engine \<Rightarrow> Chunk \<Rightarrow> string \<Rightarrow> string \<Rightarrow> nat \<Rightarrow> bytes \<Rightarrow> scan_state \<Rightarrow> scan_state option" where
  "runDetectorOn env e c source archivePath di data st = do {
     slot \<leftarrow> slot_of e di;
     ((results, err), cache, stats) \<leftarrow>
       fromData (env_sha env) (eng_opts e) slot data (ss_cache st) (ss_cache st) None (ss_stats st);
     let st1 = st\<lparr>ss_cache := cache, ss_stats := stats\<rparr>;
     (case err of
        Some msg \<Rightarrow>
          (let (cancelled, st2) = ctx_Err env st1 in
           if cancelled then Some st2
           else do {
             log \<leftarrow> recordFailure (env_classifier env)
                     (ScanFailure FailureDetector (archiveFailureSource (env_sha_hex env) (Some c)) (ds_Type slot) (Some (ErrLeaf msg)))
                     (ss_log st2);
             Some (st2\<lparr>ss_log := log\<rparr>)
           })
      | None \<Rightarrow> foldM (emitDetectorResult e c source archivePath di) results st1)
   }"

definition runFullChunkDetectors ::
  "scan_env \<Rightarrow> Engine \<Rightarrow> Chunk \<Rightarrow> Variant \<Rightarrow> string \<Rightarrow> scan_state \<Rightarrow> scan_state option" where
  "runFullChunkDetectors env e c v archivePath st =
     poll_loop env (\<lambda>di st. runDetectorOn env e c (var_Source v) archivePath di (var_Data v) st)
       (filter (\<lambda>di. eng_wantsFull e ! di) [0..<length (eng_dets e)]) st"

definition dispatch ::
  "scan_env \<Rightarrow> Engine \<Rightarrow> Chunk \<Rightarrow> string \<Rightarrow> bytes \<Rightarrow> string \<Rightarrow> scan_state \<Rightarrow> scan_state option" where
  "dispatch env e c source data archivePath st = do {
     groups \<leftarrow> dispatch_groups e data;
     poll_loop env (\<lambda>(di, spans) st.
         foldM (\<lambda>(a, b) st. runDetectorOn env e c source archivePath di (slice a b data) st) spans st) groups st
   }"

definition scanVariantWindows ::
  "scan_env \<Rightarrow> Engine \<Rightarrow> Chunk \<Rightarrow> Variant \<Rightarrow> string \<Rightarrow> scan_state \<Rightarrow> scan_state option" where
  "scanVariantWindows env e c v archivePath st =
     (let data = var_Data v in
      if length data \<le> maxWindowSize then dispatch env e c (var_Source v) data archivePath st
      else poll_loop env (\<lambda>(s, f) st. dispatch env e c (var_Source v) (slice s f data) archivePath st)
             (window_loop (length data) 0) st)"

definition scan_variant ::
  "scan_env \<Rightarrow> Engine \<Rightarrow> Chunk \<Rightarrow> string \<Rightarrow> Variant \<Rightarrow> scan_state \<Rightarrow> scan_state option" where
  "scan_variant env e c archivePath v st = do {
     st1 \<leftarrow> runFullChunkDetectors env e c v archivePath st;
     scanVariantWindows env e c v archivePath st1
   }"

definition scanChunkLeaf :: "scan_env \<Rightarrow> Engine \<Rightarrow> Chunk \<Rightarrow> string \<Rightarrow> scan_state \<Rightarrow> scan_state option" where
  "scanChunkLeaf env e c archivePath st =
     (let st1 = st\<lparr>ss_chunks := ss_chunks st + 1, ss_bytes := ss_bytes st + int (length (Data c))\<rparr> in
      if eng_prefilter e = None then Some st1
      else do {
        variants \<leftarrow> Variants (env_junk env) (Data c);
        poll_loop env (scan_variant env e c archivePath) variants st1
      })"

end
