(* ===== verification/EngineCorrect.thy ===== *)
theory EngineCorrect
  imports Engine
begin

text \<open>
  What a scan guarantees. The scan of a chunk is a composition of detector runs and polls, so every
  relation between states that these steps respect is respected by the whole scan: the locale
  \<open>scan_relation\<close> states that once, and is interpreted for the findings a scan adds and for its
  offline mode.
\<close>

section \<open>Well-formed engines and states\<close>

definition engine_ok :: "(rune \<Rightarrow> rune) \<Rightarrow> Engine \<Rightarrow> bool" where
  "engine_ok ul e \<longleftrightarrow>
     eng_isVerifier e = map det_Verifier (eng_dets e) \<and> eng_wantsFull e = map wantsFull_of (eng_dets e) \<and>
     eng_cacheable e = map cacheable_of (eng_dets e) \<and> eng_usesData e = map usesData_of (eng_dets e) \<and>
     eng_assurance e = map (\<lambda>d. maxVerificationAssurance (det_Policy d)) (eng_dets e) \<and>
     (eng_prefilter e \<noteq> None \<longrightarrow> (\<exists>patterns. prefilter_ok ul e patterns))"

lemma engine_ok_new: "NewWithDetectors ul dets opts cc = Some e \<Longrightarrow> engine_ok ul e \<and> eng_opts e = opts"
proof -
  assume new: "NewWithDetectors ul dets opts cc = Some e"
  obtain e' where e': "NewWithDetectors ul dets opts cc = Some e'" "eng_opts e' = opts"
    "eng_wantsFull e' = map wantsFull_of (eng_dets e')" "eng_isVerifier e' = map det_Verifier (eng_dets e')"
    "eng_cacheable e' = map cacheable_of (eng_dets e')" "eng_usesData e' = map usesData_of (eng_dets e')"
    "eng_assurance e' = map (\<lambda>d. maxVerificationAssurance (det_Policy d)) (eng_dets e')"
    "eng_prefilter e' \<noteq> None \<longrightarrow> (\<exists>patterns. prefilter_ok ul e' patterns)"
    using NewWithDetectors_ok [of ul dets opts cc] by metis
  then have "e' = e" using new by simp
  with e' show ?thesis by (simp add: engine_ok_def)
qed

definition scan_ok :: "scan_state \<Rightarrow> bool" where
  "scan_ok st \<longleftrightarrow> cache_inv (ss_cache st) \<and> failureCounts (ss_log st) \<noteq> None"

lemma scan_ok_poll [simp]: "scan_ok (snd (ctx_Err env st)) = scan_ok st"
  by (simp add: scan_ok_def ctx_Err_def)

lemma slot_of_ok:
  "engine_ok ul e \<Longrightarrow> di < length (eng_dets e) \<Longrightarrow> \<exists>slot. slot_of e di = Some slot \<and> ds_Type slot = det_Type (eng_dets e ! di) \<and>
     ds_unverified slot = det_unverified (eng_dets e ! di) \<and> ds_verified slot = det_verified (eng_dets e ! di)"
  by (simp add: slot_of_def engine_ok_def)

lemma dispatch_groups_ok:
  assumes "prefilter_ok ul e patterns"
  shows "\<exists>groups. dispatch_groups e data = Some groups \<and> (\<forall>(di, spans) \<in> set groups. di < length (eng_dets e))"
proof -
  let ?hits = "reference_hits patterns (map ascii_lower data)"
  obtain m where m: "New patterns = Some m" "\<And>d. VisitHits m d = Some (reference_hits patterns d)"
    using New_ok [of patterns] VisitHits_of_tables by blast
  then have e: "eng_prefilter e = Some m" using assms by (simp add: prefilter_ok_def)
  have index: "di < length (eng_dets e)" if "h \<in> set ?hits" "di \<in> set (eng_idxByPattern e ! PatternID h)" for h di
    using hit_keyword(2) [OF assms that] .
  have "\<forall>h \<in> set ?hits. PatternID h < length (eng_idxByPattern e)" using assms by (auto simp: reference_hits_set prefilter_ok_def)
  moreover have "\<forall>dis \<in> set (eng_idxByPattern e). \<forall>di \<in> set dis. di < length (eng_wantsFull e)"
    using prefilter_index_bound [OF assms] by blast
  ultimately obtain st where st: "foldM (visit_hit (eng_idxByPattern e) (eng_wantsFull e) (length data)) ?hits
      \<lparr>ds_dets = Map.empty, ds_order = []\<rparr> = Some st"
    "tracks (eng_wantsFull e) (length data) (\<lambda>di. ends_of (eng_idxByPattern e) (eng_wantsFull e) di ?hits) st"
    using visit_hits_from_empty by blast
  have "di < length (eng_dets e)" if "di \<in> set (ds_order st)" for di
  proof -
    have "ends_of (eng_idxByPattern e) (eng_wantsFull e) di ?hits \<noteq> []" using st(2) that by (auto simp: tracks_def)
    then obtain x where "x \<in> set (ends_of (eng_idxByPattern e) (eng_wantsFull e) di ?hits)" by (metis last_in_set)
    then show ?thesis using index by (auto simp: ends_member)
  qed
  then show ?thesis using e m(2) st(1) by (auto simp: dispatch_groups_def lowerCaseInto_map)
qed

section \<open>The cache-aware call is total\<close>

lemma lead_flight_total:
  assumes "cache_inv c"
  shows "\<exists>led c' st'. lead_flight sha d data keys unverified c st = Some (led, c', st') \<and> cache_inv c'"
proof (cases "applyCachedVerification c keys unverified False st")
  case (Pair res st1)
  show ?thesis
  proof (cases res)
    case (Some rs)
    then show ?thesis using Pair assms by (simp add: lead_flight_def)
  next
    case None
    obtain vs err where v: "ds_verified d (verifiedDetectorCalls st1) data = (vs, err)" by fastforce
    obtain c' n where "setAll c (cacheableVerificationEntries sha (ds_index d) (ds_Type d) (input_digest sha d data) unverified vs) = Some (c', n)"
      "cache_inv c'" using setAll_ok [OF assms] by blast
    then show ?thesis using Pair None v assms by (cases err) (auto simp: lead_flight_def callVerifiedDetector_def)
  qed
qed

lemma fromData_total:
  assumes "cache_inv c" "cache_inv c1"
  shows "\<exists>out c' st'. fromData sha opts d data c c1 None st = Some (out, c', st') \<and> cache_inv c'"
proof (cases "wants_verify opts d \<and> ds_isVerifier d \<and> ds_cacheable d")
  case False
  then show ?thesis
    using assms
    by (cases "ds_unverified d data"; cases "ds_verified d (verifiedDetectorCalls st) data")
      (auto simp: fromData_def callVerifiedDetector_def detector_FromData_def Let_def)
next
  case True
  obtain us err where u: "ds_unverified d data = (us, err)" by fastforce
  let ?keys = "candidateVerificationKeys sha (ds_index d) (ds_Type d) (input_digest sha d data) us"
  show ?thesis
  proof (cases "err \<noteq> None \<or> ?keys = None")
    case bypass: True
    then show ?thesis using True u assms
      by (cases "ds_verified d (verifiedDetectorCalls st) data") (auto simp: fromData_def callVerifiedDetector_def Let_def)
  next
    case False
    then obtain keys where keys: "err = None" "?keys = Some keys" by auto
    obtain res st1 where first: "applyCachedVerification c keys us True st = (res, st1)" by fastforce
    obtain led c2 st2 where flight: "lead_flight sha d data keys us c1 st1 = Some (led, c2, st2)" "cache_inv c2"
      using lead_flight_total [OF assms(2)] by blast
    obtain res2 st3 where second: "applyCachedVerification c2 keys us True st2 = (res2, st3)" by fastforce
    show ?thesis
      using True u keys first flight second assms
      by (cases res; cases led; cases res2; cases "ds_verified d (verifiedDetectorCalls st3) data")
        (auto simp: fromData_def callVerifiedDetector_def Let_def)
  qed
qed

lemma recordFailure_total: "failureCounts log \<noteq> None \<Longrightarrow> \<exists>log'. recordFailure cl f log = Some log' \<and> failureCounts log' \<noteq> None"
  by (auto simp: recordFailure_def)

section \<open>Emission\<close>

text \<open>A finding as the engine publishes it for detector \<open>di\<close> on a variant.\<close>

definition published :: "Engine \<Rightarrow> string \<Rightarrow> string \<Rightarrow> nat \<Rightarrow> Result \<Rightarrow> Finding \<Rightarrow> bool" where
  "published e source archivePath di r f \<longleftrightarrow>
     Result_of f = finalize_result (det_Type (eng_dets e ! di)) (det_Policy (eng_dets e ! di)) source archivePath r \<and>
     Detector f = det_Type (eng_dets e ! di) \<and> VerifierBacked f = det_Verifier (eng_dets e ! di)"

lemma finding_of_ok:
  "engine_ok ul e \<Longrightarrow> di < length (eng_dets e) \<Longrightarrow> \<exists>f. finding_of e di r chunk span = Some f \<and>
     Result_of f = r \<and> Detector f = det_Type (eng_dets e ! di) \<and> VerifierBacked f = det_Verifier (eng_dets e ! di)"
  by (simp add: finding_of_def engine_ok_def)

lemma located_fold:
  assumes "engine_ok ul e" "di < length (eng_dets e)"
  shows "\<exists>fs. foldM (\<lambda>(start, loc) acc. do {
        f \<leftarrow> finding_of e di r (Some (located_chunk c loc)) (Some (int start, int (start + length (Raw r))));
        Some (acc @ [f])
      }) located acc = Some (acc @ fs) \<and> length fs = length located \<and>
    (\<forall>f \<in> set fs. Result_of f = r \<and> Detector f = det_Type (eng_dets e ! di) \<and> VerifierBacked f = det_Verifier (eng_dets e ! di))"
proof (induction located arbitrary: acc)
  case (Cons p located)
  obtain start loc where p: "p = (start, loc)" by (cases p)
  obtain f where f: "finding_of e di r (Some (located_chunk c loc)) (Some (int start, int (start + length (Raw r)))) = Some f"
    "Result_of f = r" "Detector f = det_Type (eng_dets e ! di)" "VerifierBacked f = det_Verifier (eng_dets e ! di)"
    using finding_of_ok [OF assms] by blast
  from Cons [of "acc @ [f]"] obtain fs where "foldM (\<lambda>(start, loc) acc. do {
        f \<leftarrow> finding_of e di r (Some (located_chunk c loc)) (Some (int start, int (start + length (Raw r))));
        Some (acc @ [f])
      }) located (acc @ [f]) = Some ((acc @ [f]) @ fs)" "length fs = length located"
    "\<forall>f \<in> set fs. Result_of f = r \<and> Detector f = det_Type (eng_dets e ! di) \<and> VerifierBacked f = det_Verifier (eng_dets e ! di)" by blast
  then show ?case using f p by (intro exI [of _ "f # fs"]) simp
qed simp

lemma emit_ok:
  assumes "engine_ok ul e" "di < length (eng_dets e)"
  shows "\<exists>st' fs. emitDetectorResult e c source archivePath di r st = Some st' \<and>
    st' = st\<lparr>ss_findings := ss_findings st + 1, ss_emitted := ss_emitted st @ fs\<rparr> \<and> fs \<noteq> [] \<and>
    list_all (published e source archivePath di r) fs"
proof -
  let ?d = "eng_dets e ! di"
  let ?r = "finalize_result (det_Type ?d) (det_Policy ?d) source archivePath r"
  show ?thesis
  proof (cases "located_findings c ?r = []")
    case True
    obtain f where "finding_of e di ?r (chunkWithMatchLine (Some c) (Raw ?r)) None = Some f"
      "Result_of f = ?r" "Detector f = det_Type ?d" "VerifierBacked f = det_Verifier ?d"
      using finding_of_ok [OF assms] by blast
    then show ?thesis using assms(2) True
      by (intro exI [of _ "st\<lparr>ss_findings := ss_findings st + 1, ss_emitted := ss_emitted st @ [f]\<rparr>"] exI [of _ "[f]"])
        (simp add: emitDetectorResult_def Let_def published_def)
  next
    case False
    obtain fs where "foldM (\<lambda>(start, loc) acc. do {
        f \<leftarrow> finding_of e di ?r (Some (located_chunk c loc)) (Some (int start, int (start + length (Raw ?r))));
        Some (acc @ [f])
      }) (located_findings c ?r) [] = Some fs" "length fs = length (located_findings c ?r)"
      "\<forall>f \<in> set fs. Result_of f = ?r \<and> Detector f = det_Type ?d \<and> VerifierBacked f = det_Verifier ?d"
      using located_fold [OF assms, of ?r c "located_findings c ?r" "[]"] by auto
    then show ?thesis using assms(2) False
      by (intro exI [of _ "st\<lparr>ss_findings := ss_findings st + 1, ss_emitted := ss_emitted st @ fs\<rparr>"] exI [of _ fs])
        (auto simp: emitDetectorResult_def Let_def published_def list_all_iff)
  qed
qed

section \<open>Relations that a whole scan respects\<close>

text \<open>A preorder on states that polls and detector runs respect. \<open>total_step\<close> says that a step does not panic,
  keeps the state well-formed and respects the relation.\<close>

definition total_step :: "(scan_state \<Rightarrow> scan_state \<Rightarrow> bool) \<Rightarrow> (scan_state \<Rightarrow> scan_state option) \<Rightarrow> bool" where
  "total_step R step \<longleftrightarrow> (\<forall>st. scan_ok st \<longrightarrow> (\<exists>st'. step st = Some st' \<and> scan_ok st' \<and> R st st'))"

lemma total_stepD: "total_step R step \<Longrightarrow> scan_ok st \<Longrightarrow> \<exists>st'. step st = Some st' \<and> scan_ok st' \<and> R st st'"
  by (simp add: total_step_def)

text \<open>\<open>reaches\<close>: the step does not panic and afterwards \<open>\<Phi>\<close> holds.\<close>

definition reaches :: "(scan_state \<Rightarrow> bool) \<Rightarrow> (scan_state \<Rightarrow> scan_state option) \<Rightarrow> bool" where
  "reaches \<Phi> step \<longleftrightarrow> (\<forall>st. scan_ok st \<longrightarrow> (\<exists>st'. step st = Some st' \<and> scan_ok st' \<and> \<Phi> st'))"

lemma reachesD: "reaches \<Phi> step \<Longrightarrow> scan_ok st \<Longrightarrow> \<exists>st'. step st = Some st' \<and> scan_ok st' \<and> \<Phi> st'"
  by (simp add: reaches_def)

locale scan_relation =
  fixes R :: "Engine \<Rightarrow> scan_state \<Rightarrow> scan_state \<Rightarrow> bool"
  assumes refl: "R e st st"
    and trans: "R e st st' \<Longrightarrow> R e st' st'' \<Longrightarrow> R e st st''"
    and poll: "R e st (snd (ctx_Err env st))"
    and detector: "engine_ok ul e \<Longrightarrow> di < length (eng_dets e) \<Longrightarrow> total_step (R e) (runDetectorOn env e c source archivePath di data)"
begin

lemma fold_step:
  assumes "\<And>x. x \<in> set xs \<Longrightarrow> total_step (R e) (body x)"
  shows "total_step (R e) (foldM body xs)"
  unfolding total_step_def
proof (intro allI impI)
  fix st assume "scan_ok st"
  then show "\<exists>st'. foldM body xs st = Some st' \<and> scan_ok st' \<and> R e st st'"
    using assms
  proof (induction xs arbitrary: st)
    case (Cons x xs)
    obtain st1 where "body x st = Some st1" "scan_ok st1" "R e st st1" using Cons.prems total_stepD by (metis list.set_intros(1))
    with Cons.IH [of st1] Cons.prems(2) show ?case using trans by fastforce
  qed (simp add: refl)
qed

lemma poll_loop_step:
  assumes "\<And>x. x \<in> set xs \<Longrightarrow> total_step (R e) (body x)"
  shows "total_step (R e) (poll_loop env body xs)"
  unfolding total_step_def
proof (intro allI impI)
  fix st assume "scan_ok st"
  then show "\<exists>st'. poll_loop env body xs st = Some st' \<and> scan_ok st' \<and> R e st st'"
    using assms
  proof (induction xs arbitrary: st)
    case (Cons x xs)
    obtain cancelled st1 where p: "ctx_Err env st = (cancelled, st1)" by fastforce
    have st1: "scan_ok st1" "R e st st1" using Cons.prems(1) scan_ok_poll [of env st] poll [of e st env] p by simp_all
    show ?case
    proof (cases cancelled)
      case True
      then show ?thesis using p st1 by simp
    next
      case False
      obtain st2 where st2: "body x st1 = Some st2" "scan_ok st2" "R e st1 st2"
        using Cons.prems(2) st1(1) total_stepD by (metis list.set_intros(1))
      from Cons.IH [OF st2(2)] Cons.prems(2) obtain st3 where st3: "poll_loop env body xs st2 = Some st3" "scan_ok st3" "R e st2 st3" by auto
      have "R e st st3" using trans [OF trans [OF st1(2) st2(3)] st3(3)] .
      then show ?thesis using p False st2(1) st3(1,2) by simp
    qed
  qed (simp add: refl)
qed

lemma dispatch_step:
  assumes "engine_ok ul e" "eng_prefilter e \<noteq> None"
  shows "total_step (R e) (dispatch env e c source data archivePath)"
proof -
  obtain patterns where ok: "prefilter_ok ul e patterns" using assms by (auto simp: engine_ok_def)
  obtain groups where g: "dispatch_groups e data = Some groups" "\<forall>(di, spans) \<in> set groups. di < length (eng_dets e)"
    using dispatch_groups_ok [OF ok] by blast
  have "total_step (R e) (poll_loop env (\<lambda>(di, spans) st. foldM (\<lambda>(a, b) st. runDetectorOn env e c source archivePath di (slice a b data) st) spans st) groups)"
  proof (rule poll_loop_step)
    fix x assume x: "x \<in> set groups"
    obtain di spans where x': "x = (di, spans)" by (cases x)
    have "di < length (eng_dets e)" using g(2) x x' by auto
    then have "total_step (R e) (foldM (\<lambda>(a, b) st. runDetectorOn env e c source archivePath di (slice a b data) st) spans)"
      by (intro fold_step) (auto intro: detector [OF assms(1)] split: prod.splits)
    then show "total_step (R e) ((\<lambda>(di, spans) st. foldM (\<lambda>(a, b) st. runDetectorOn env e c source archivePath di (slice a b data) st) spans st) x)"
      by (simp add: x')
  qed
  then show ?thesis using g(1) by (simp add: total_step_def dispatch_def)
qed

lemma windows_step:
  assumes "engine_ok ul e" "eng_prefilter e \<noteq> None"
  shows "total_step (R e) (scanVariantWindows env e c v archivePath)"
proof (cases "length (var_Data v) \<le> maxWindowSize")
  case True
  then show ?thesis using dispatch_step [OF assms] by (simp add: total_step_def scanVariantWindows_def Let_def)
next
  case False
  have "total_step (R e) (poll_loop env (\<lambda>(s, f) st. dispatch env e c (var_Source v) (slice s f (var_Data v)) archivePath st) (window_loop (length (var_Data v)) 0))"
    by (rule poll_loop_step) (auto intro: dispatch_step [OF assms] split: prod.splits)
  then show ?thesis using False by (simp add: total_step_def scanVariantWindows_def Let_def)
qed

lemma full_step: "engine_ok ul e \<Longrightarrow> total_step (R e) (runFullChunkDetectors env e c v archivePath)"
  unfolding runFullChunkDetectors_def by (rule poll_loop_step) (auto intro: detector)

lemma variant_step:
  assumes "engine_ok ul e" "eng_prefilter e \<noteq> None"
  shows "total_step (R e) (scan_variant env e c archivePath v)"
  unfolding total_step_def
proof (intro allI impI)
  fix st assume "scan_ok st"
  then obtain st1 where "runFullChunkDetectors env e c v archivePath st = Some st1" "scan_ok st1" "R e st st1"
    using total_stepD [OF full_step [OF assms(1)]] by blast
  moreover then obtain st2 where "scanVariantWindows env e c v archivePath st1 = Some st2" "scan_ok st2" "R e st1 st2"
    using total_stepD [OF windows_step [OF assms]] by blast
  ultimately show "\<exists>st'. scan_variant env e c archivePath v st = Some st' \<and> scan_ok st' \<and> R e st st'"
    using trans by (auto simp: scan_variant_def)
qed

lemma leaf_step:
  assumes "engine_ok ul e" "scan_ok st"
  shows "\<exists>st'. scanChunkLeaf env e c archivePath st = Some st' \<and> scan_ok st' \<and>
    R e (st\<lparr>ss_chunks := ss_chunks st + 1, ss_bytes := ss_bytes st + int (length (Data c))\<rparr>) st'"
proof (cases "eng_prefilter e")
  case None
  then show ?thesis using assms(2) refl by (simp add: scanChunkLeaf_def scan_ok_def)
next
  case (Some m)
  obtain vs where "Variants (env_junk env) (Data c) = Some vs" using Variants_parts [of "Data c" "env_junk env"] by blast
  moreover have "total_step (R e) (poll_loop env (scan_variant env e c archivePath) vs)"
    by (rule poll_loop_step) (rule variant_step [OF assms(1)], simp add: Some)
  moreover have "scan_ok (st\<lparr>ss_chunks := ss_chunks st + 1, ss_bytes := ss_bytes st + int (length (Data c))\<rparr>)"
    using assms(2) by (simp add: scan_ok_def)
  ultimately show ?thesis using Some total_stepD by (simp add: scanChunkLeaf_def)
qed

end

section \<open>One detector run\<close>

lemma emit_results:
  assumes "engine_ok ul e" "di < length (eng_dets e)"
  shows "\<exists>fs. foldM (emitDetectorResult e c source archivePath di) rs st =
      Some (st\<lparr>ss_findings := ss_findings st + int (length rs), ss_emitted := ss_emitted st @ fs\<rparr>) \<and> length rs \<le> length fs \<and>
    (\<forall>f \<in> set fs. \<exists>r \<in> set rs. published e source archivePath di r f) \<and>
    (\<forall>r \<in> set rs. \<exists>f \<in> set fs. published e source archivePath di r f)"
proof (induction rs arbitrary: st)
  case (Cons r rs)
  obtain gs where g: "emitDetectorResult e c source archivePath di r st =
      Some (st\<lparr>ss_findings := ss_findings st + 1, ss_emitted := ss_emitted st @ gs\<rparr>)" "gs \<noteq> []" "list_all (published e source archivePath di r) gs"
    using emit_ok [OF assms] by blast
  from Cons [of "st\<lparr>ss_findings := ss_findings st + 1, ss_emitted := ss_emitted st @ gs\<rparr>"] obtain fs where
    f: "foldM (emitDetectorResult e c source archivePath di) rs (st\<lparr>ss_findings := ss_findings st + 1, ss_emitted := ss_emitted st @ gs\<rparr>) =
      Some (st\<lparr>ss_findings := ss_findings st + 1 + int (length rs), ss_emitted := ss_emitted st @ gs @ fs\<rparr>)" "length rs \<le> length fs"
    "\<forall>f \<in> set fs. \<exists>r \<in> set rs. published e source archivePath di r f" "\<forall>r \<in> set rs. \<exists>f \<in> set fs. published e source archivePath di r f"
    by auto
  have "1 \<le> length gs" using g(2) by (cases gs) simp_all
  then have "length (r # rs) \<le> length (gs @ fs)" using f(2) unfolding length_append list.size by linarith
  moreover have "\<exists>f \<in> set gs. published e source archivePath di r f" using g(2,3) by (cases gs) auto
  ultimately show ?case
    using g(1,3) f(1,3,4) by (intro exI [of _ "gs @ fs"]) (auto simp: list_all_iff algebra_simps)
qed (intro exI [of _ "[]"], simp)

definition scan_finding :: "Engine \<Rightarrow> Finding \<Rightarrow> bool" where
  "scan_finding e f \<longleftrightarrow> (\<exists>source archivePath di r. di < length (eng_dets e) \<and> published e source archivePath di r f)"

definition adds :: "Engine \<Rightarrow> scan_state \<Rightarrow> scan_state \<Rightarrow> bool" where
  "adds e st st' \<longleftrightarrow>
     (\<exists>fs. ss_emitted st' = ss_emitted st @ fs \<and> (\<forall>f \<in> set fs. scan_finding e f) \<and>
        ss_findings st \<le> ss_findings st' \<and> ss_findings st' \<le> ss_findings st + int (length fs)) \<and>
     ss_chunks st' = ss_chunks st \<and> ss_bytes st' = ss_bytes st"

definition offline :: "Engine \<Rightarrow> scan_state \<Rightarrow> scan_state \<Rightarrow> bool" where
  "offline e st st' \<longleftrightarrow> (NoVerify (eng_opts e) \<longrightarrow> ss_stats st' = ss_stats st \<and> ss_cache st' = ss_cache st)"

lemma fromData_offline:
  "NoVerify opts \<Longrightarrow> fromData sha opts d data c c1 waited st = Some (ds_unverified d data, c, st)"
  by (simp add: fromData_def wants_verify_def detector_FromData_def)

text \<open>What one detector run does, whatever the detector returns: its findings are appended, or its error is recorded.\<close>

lemma detector_run:
  assumes "engine_ok ul e" "di < length (eng_dets e)" "scan_ok st"
  shows "\<exists>slot out cache stats st'. slot_of e di = Some slot \<and>
    fromData (env_sha env) (eng_opts e) slot data (ss_cache st) (ss_cache st) None (ss_stats st) = Some (out, cache, stats) \<and>
    runDetectorOn env e c source archivePath di data st = Some st' \<and> scan_ok st' \<and> adds e st st' \<and> offline e st st' \<and>
    (snd out = None \<longrightarrow> (\<forall>r \<in> set (fst out). \<exists>f \<in> set (ss_emitted st'). published e source archivePath di r f))"
proof -
  obtain slot where slot: "slot_of e di = Some slot" using slot_of_ok [OF assms(1,2)] by blast
  obtain rs err cache stats where call: "fromData (env_sha env) (eng_opts e) slot data (ss_cache st) (ss_cache st) None (ss_stats st) = Some ((rs, err), cache, stats)"
    "cache_inv cache" using fromData_total [of "ss_cache st" "ss_cache st"] assms(3) by (metis prod.exhaust scan_ok_def)
  let ?st1 = "st\<lparr>ss_cache := cache, ss_stats := stats\<rparr>"
  have off: "NoVerify (eng_opts e) \<longrightarrow> stats = ss_stats st \<and> cache = ss_cache st"
    using call(1) fromData_offline [of "eng_opts e"] by auto
  show ?thesis
  proof (cases err)
    case None
    obtain fs where fs: "foldM (emitDetectorResult e c source archivePath di) rs ?st1 =
        Some (?st1\<lparr>ss_findings := ss_findings ?st1 + int (length rs), ss_emitted := ss_emitted ?st1 @ fs\<rparr>)" "length rs \<le> length fs"
      "\<forall>f \<in> set fs. \<exists>r \<in> set rs. published e source archivePath di r f" "\<forall>r \<in> set rs. \<exists>f \<in> set fs. published e source archivePath di r f"
      using emit_results [OF assms(1,2)] by blast
    let ?st' = "?st1\<lparr>ss_findings := ss_findings ?st1 + int (length rs), ss_emitted := ss_emitted ?st1 @ fs\<rparr>"
    have "runDetectorOn env e c source archivePath di data st = Some ?st'"
      using slot call(1) fs(1) None by (simp add: runDetectorOn_def Let_def)
    moreover have "\<forall>f \<in> set fs. scan_finding e f" using fs(3) assms(2) unfolding scan_finding_def by blast
    then have "adds e st ?st'" using fs(2) by (auto simp: adds_def)
    moreover have "scan_ok ?st'" using call(2) assms(3) by (simp add: scan_ok_def)
    moreover have "offline e st ?st'" using off by (simp add: offline_def)
    ultimately show ?thesis using slot call(1) fs(4) by fastforce
  next
    case (Some msg)
    let ?st2 = "?st1\<lparr>ss_polls := Suc (ss_polls ?st1)\<rparr>"
    obtain log where log: "recordFailure (env_classifier env)
        (ScanFailure FailureDetector (archiveFailureSource (env_sha_hex env) (Some c)) (ds_Type slot) (Some (ErrLeaf msg))) (ss_log st) = Some log"
      "failureCounts log \<noteq> None" using recordFailure_total assms(3) by (metis scan_ok_def)
    define st' where "st' = (if fst (ctx_Err env ?st1) then ?st2 else ?st2\<lparr>ss_log := log\<rparr>)"
    have "runDetectorOn env e c source archivePath di data st = Some st'"
      using slot call(1) log(1) Some by (simp add: runDetectorOn_def Let_def ctx_Err_def st'_def)
    moreover have "adds e st st'" by (simp add: adds_def st'_def)
    moreover have "scan_ok st'" using call(2) log(2) assms(3) by (simp add: scan_ok_def st'_def)
    moreover have "offline e st st'" using off by (simp add: offline_def st'_def)
    ultimately show ?thesis using slot call(1) Some by fastforce
  qed
qed

interpretation adding: scan_relation adds
proof
  show "adds e st st" for e st by (auto simp: adds_def)
  show "adds e st (snd (ctx_Err env st))" for e st env by (auto simp: adds_def ctx_Err_def)
  show "adds e st st''" if one: "adds e st st'" and two: "adds e st' st''" for e st st' st''
  proof -
    obtain fs gs where "ss_emitted st' = ss_emitted st @ fs" "\<forall>f \<in> set fs. scan_finding e f"
      "ss_findings st \<le> ss_findings st'" "ss_findings st' \<le> ss_findings st + int (length fs)"
      "ss_emitted st'' = ss_emitted st' @ gs" "\<forall>f \<in> set gs. scan_finding e f"
      "ss_findings st' \<le> ss_findings st''" "ss_findings st'' \<le> ss_findings st' + int (length gs)"
      using one two unfolding adds_def by blast
    then show ?thesis using one two unfolding adds_def by (intro conjI exI [of _ "fs @ gs"]) auto
  qed
  show "total_step (adds e) (runDetectorOn env e c source archivePath di data)"
    if "engine_ok ul e" "di < length (eng_dets e)" for ul e di env c source archivePath data
    unfolding total_step_def using detector_run [OF that] by blast
qed

interpretation offline: scan_relation offline
proof
  show "total_step (offline e) (runDetectorOn env e c source archivePath di data)"
    if "engine_ok ul e" "di < length (eng_dets e)" for ul e di env c source archivePath data
    unfolding total_step_def using detector_run [OF that] by blast
qed (auto simp: offline_def ctx_Err_def)

section \<open>A finding that must appear\<close>

lemma adds_mono: "adds e st st' \<Longrightarrow> f \<in> set (ss_emitted st) \<Longrightarrow> f \<in> set (ss_emitted st')"
  by (auto simp: adds_def)

definition emits :: "(Finding \<Rightarrow> bool) \<Rightarrow> scan_state \<Rightarrow> bool" where
  "emits P st \<longleftrightarrow> (\<exists>f \<in> set (ss_emitted st). P f)"

lemma emits_adds: "emits P st \<Longrightarrow> adds e st st' \<Longrightarrow> emits P st'"
  using adds_mono by (auto simp: emits_def)

text \<open>In a sequence of steps that only add findings, what one step is sure to emit is emitted in the end.\<close>

lemma fold_reaches:
  assumes "x \<in> set xs" "reaches (emits P) (body x)" "\<And>y. y \<in> set xs \<Longrightarrow> total_step (adds e) (body y)"
  shows "reaches (emits P) (foldM body xs)"
  unfolding reaches_def
proof (intro allI impI)
  fix st assume ok: "scan_ok st"
  obtain ys zs where xs: "xs = ys @ x # zs" using assms(1) by (auto simp: in_set_conv_decomp)
  have split: "foldM body (ys @ x # zs) st = (case foldM body ys st of None \<Rightarrow> None | Some s1 \<Rightarrow>
      (case body x s1 of None \<Rightarrow> None | Some s2 \<Rightarrow> foldM body zs s2))" for st
    by (induction ys arbitrary: st) (auto split: option.splits)
  obtain s1 where s1: "foldM body ys st = Some s1" "scan_ok s1"
    using total_stepD [OF adding.fold_step [of ys e body] ok] assms(3) xs by auto
  obtain s2 where s2: "body x s1 = Some s2" "scan_ok s2" "emits P s2" using reachesD [OF assms(2) s1(2)] by blast
  obtain s3 where s3: "foldM body zs s2 = Some s3" "scan_ok s3" "adds e s2 s3"
    using total_stepD [OF adding.fold_step [of zs e body] s2(2)] assms(3) xs by auto
  show "\<exists>st'. foldM body xs st = Some st' \<and> scan_ok st' \<and> emits P st'"
    unfolding xs split using s1 s2 s3 emits_adds by auto
qed

lemma poll_loop_fold: "env_cancel env = None \<Longrightarrow> poll_loop env body xs st = foldM (\<lambda>x st. body x (snd (ctx_Err env st))) xs st"
  by (induction xs arbitrary: st) (auto simp: ctx_Err_def split: option.splits)

lemma poll_reaches:
  assumes "env_cancel env = None" "x \<in> set xs" "reaches (emits P) (body x)" "\<And>y. y \<in> set xs \<Longrightarrow> total_step (adds e) (body y)"
  shows "reaches (emits P) (poll_loop env body xs)"
proof -
  have "total_step (adds e) (\<lambda>st. body y (snd (ctx_Err env st)))" if y: "y \<in> set xs" for y
    unfolding total_step_def
  proof (intro allI impI)
    fix st assume "scan_ok st"
    then obtain st' where "body y (snd (ctx_Err env st)) = Some st'" "scan_ok st'" "adds e (snd (ctx_Err env st)) st'"
      using total_stepD [OF assms(4) [OF y]] scan_ok_poll by blast
    then show "\<exists>st'. body y (snd (ctx_Err env st)) = Some st' \<and> scan_ok st' \<and> adds e st st'"
      using adding.trans [OF adding.poll] by blast
  qed
  moreover have "reaches (emits P) (\<lambda>st. body x (snd (ctx_Err env st)))"
    using assms(3) scan_ok_poll unfolding reaches_def by blast
  ultimately have "reaches (emits P) (foldM (\<lambda>x st. body x (snd (ctx_Err env st))) xs)"
    using fold_reaches [OF assms(2), of P "\<lambda>x st. body x (snd (ctx_Err env st))" e] by blast
  then show ?thesis by (simp add: reaches_def poll_loop_fold [OF assms(1)])
qed

text \<open>The contract of a detector for a secret: whenever the secret is in the bytes it is given, it returns without
  error a result with that secret, with and without verification.\<close>

definition reports :: "outcome \<Rightarrow> bytes \<Rightarrow> bool" where
  "reports out s \<longleftrightarrow> snd out = None \<and> (\<exists>r \<in> set (fst out). Raw r = s)"

definition finds :: "Det \<Rightarrow> bytes \<Rightarrow> bool" where
  "finds d s \<longleftrightarrow> (\<forall>w turn. bytes_contains w s \<longrightarrow> reports (det_unverified d w) s \<and> reports (det_verified d turn w) s)"

lemma map2_raws: "length vs = length rs \<Longrightarrow> map Raw (map2 (\<lambda>r v. r\<lparr>Verified := v\<rparr>) rs vs) = map Raw rs"
  by (induction rs vs rule: list_induct2') auto

lemma lookup_all_length: "lookup_all c keys n = Inr vs \<Longrightarrow> length vs = length keys"
  by (induction keys arbitrary: n vs) (auto split: option.splits sum.splits)

lemma candidate_keys_length: "candidateVerificationKeys sha idx t dg rs = Some keys \<Longrightarrow> length keys = length rs"
  by (induction rs arbitrary: keys) (auto split: option.splits if_splits)

lemma applied_raws:
  assumes "applyCachedVerification c keys rs b st = (Some out, st')" "length keys = length rs"
  shows "map Raw out = map Raw rs"
  using assms lookup_all_length [of c keys 0] map2_raws [of _ rs]
  by (auto simp: applyCachedVerification_def split: sum.splits)

lemma reports_cached: "reports (rs, None) s \<Longrightarrow> map Raw out = map Raw rs \<Longrightarrow> reports (out, None) s"
  unfolding reports_def by (metis (no_types, lifting) fst_conv snd_conv list.set_map image_iff)

lemma fromData_reports:
  assumes "reports (ds_unverified d data) s" "\<And>turn. reports (ds_verified d turn data) s"
    and "fromData sha opts d data c c1 None st = Some (out, c', st')"
  shows "reports out s"
proof (cases "wants_verify opts d \<and> ds_isVerifier d \<and> ds_cacheable d")
  case False
  then show ?thesis using assms by (auto simp: fromData_def callVerifiedDetector_def detector_FromData_def Let_def split: if_splits)
next
  case True
  obtain us where u: "ds_unverified d data = (us, None)" using assms(1) by (cases "ds_unverified d data") (auto simp: reports_def)
  let ?keys = "candidateVerificationKeys sha (ds_index d) (ds_Type d) (input_digest sha d data) us"
  show ?thesis
  proof (cases ?keys)
    case None
    then show ?thesis using True u assms(2,3) by (auto simp: fromData_def callVerifiedDetector_def Let_def)
  next
    case (Some keys)
    have len: "length keys = length us" using candidate_keys_length [OF Some] .
    have us: "reports (us, None) s" using assms(1) u by simp
    note cached = reports_cached [OF us applied_raws [OF _ len]]
    show ?thesis
    proof (cases "applyCachedVerification c keys us True st")
      case first: (Pair res st1)
      show ?thesis
      proof (cases res)
        case hit: (Some rs)
        then show ?thesis using True u Some first assms(3) cached [of c True st rs st1] by (simp add: fromData_def Let_def)
      next
        case None
        then obtain led c2 st2 where flight: "lead_flight sha d data keys us c1 st1 = Some (led, c2, st2)"
          using True u Some first assms(3) by (auto simp: fromData_def Let_def bind_eq_Some_conv)
        obtain res2 st3 where second: "applyCachedVerification c2 keys us True st2 = (res2, st3)" by fastforce
        have "reports o1 s" if "led = Some o1" for o1
        proof -
          obtain vs err where v: "ds_verified d (verifiedDetectorCalls st1) data = (vs, err)" by fastforce
          have pre: "applyCachedVerification c1 keys us False st1 = (r, t) \<Longrightarrow> verifiedDetectorCalls t = verifiedDetectorCalls st1" for r t
            by (auto simp: applyCachedVerification_def split: sum.splits)
          show ?thesis using flight that assms(2)
            by (auto simp: lead_flight_def callVerifiedDetector_def Let_def bind_eq_Some_conv split: prod.splits option.splits if_splits)
              (metis fst_conv snd_conv)+
        qed
        then show ?thesis
          using True u Some first None flight second assms(2,3) cached [of c2 True st2 _ st3]
          by (cases led; cases res2) (auto simp: fromData_def callVerifiedDetector_def Let_def)
      qed
    qed
  qed
qed

section \<open>A secret in a variant is found\<close>

definition found :: "Engine \<Rightarrow> string \<Rightarrow> string \<Rightarrow> nat \<Rightarrow> bytes \<Rightarrow> Finding \<Rightarrow> bool" where
  "found e source archivePath di s f \<longleftrightarrow> (\<exists>r. Raw r = s \<and> published e source archivePath di r f)"

lemma run_reaches:
  assumes "engine_ok ul e" "di < length (eng_dets e)" "finds (eng_dets e ! di) s" "bytes_contains w s"
  shows "reaches (emits (found e source archivePath di s)) (runDetectorOn env e c source archivePath di w)"
  unfolding reaches_def
proof (intro allI impI)
  fix st assume ok: "scan_ok st"
  obtain slot out cache stats st' where run: "slot_of e di = Some slot"
    "fromData (env_sha env) (eng_opts e) slot w (ss_cache st) (ss_cache st) None (ss_stats st) = Some (out, cache, stats)"
    "runDetectorOn env e c source archivePath di w st = Some st'" "scan_ok st'"
    "snd out = None \<longrightarrow> (\<forall>r \<in> set (fst out). \<exists>f \<in> set (ss_emitted st'). published e source archivePath di r f)"
    using detector_run [OF assms(1,2) ok, of env w c source archivePath] by (elim exE conjE) (rule that)
  have "ds_unverified slot = det_unverified (eng_dets e ! di)" "ds_verified slot = det_verified (eng_dets e ! di)"
    using slot_of_ok [OF assms(1,2)] run(1) by auto
  then have "reports out s" using fromData_reports [OF _ _ run(2)] assms(3,4) unfolding finds_def by metis
  then show "\<exists>st'. runDetectorOn env e c source archivePath di w st = Some st' \<and> scan_ok st' \<and> emits (found e source archivePath di s) st'"
    using run(3-5) unfolding reports_def emits_def found_def by blast
qed

lemma dispatch_reaches:
  assumes "engine_ok ul e" "env_cancel env = None" "prefilter_ok ul e patterns"
    and "dispatch_calls e data = Some calls" "(di, a, b) \<in> set calls" "finds (eng_dets e ! di) s" "bytes_contains (slice a b data) s"
  shows "reaches (emits (found e source archivePath di s)) (dispatch env e c source data archivePath)"
proof -
  obtain groups where g: "dispatch_groups e data = Some groups" "\<forall>(di, spans) \<in> set groups. di < length (eng_dets e)"
    using dispatch_groups_ok [OF assms(3)] by blast
  then obtain spans where sp: "(di, spans) \<in> set groups" "(a, b) \<in> set spans" using assms(4,5) by (auto simp: dispatch_calls_def)
  have di: "di < length (eng_dets e)" using g(2) sp(1) by auto
  let ?one = "\<lambda>di. \<lambda>(a, b) st. runDetectorOn env e c source archivePath di (slice a b data) st"
  have steps: "total_step (adds e) (?one d x)" if "d < length (eng_dets e)" for d x
    using adding.detector [OF assms(1) that] by (cases x) simp
  have "reaches (emits (found e source archivePath di s)) (foldM (?one di) spans)"
    by (rule fold_reaches [OF sp(2)]) (use run_reaches [OF assms(1) di assms(6,7)] steps [OF di] in simp_all)
  moreover have "total_step (adds e) ((\<lambda>(di, spans) st. foldM (?one di) spans st) y)" if y: "y \<in> set groups" for y
  proof (cases y)
    case (Pair d sps)
    then have "d < length (eng_dets e)" using g(2) y by auto
    then show ?thesis using adding.fold_step [of sps e "?one d"] steps Pair by simp
  qed
  ultimately have "reaches (emits (found e source archivePath di s)) (poll_loop env (\<lambda>(di, spans) st. foldM (?one di) spans st) groups)"
    using poll_reaches [OF assms(2) sp(1), of "found e source archivePath di s" "\<lambda>(di, spans) st. foldM (?one di) spans st" e] by simp
  then show ?thesis using g(1) by (simp add: reaches_def dispatch_def)
qed

lemma contains_slices:
  fixes data :: "'a list"
  assumes "data = before @ s @ after" "w + a \<le> length before" "length before + length s \<le> w + b" "length before + length s \<le> f" "f \<le> length data"
  shows "bytes_contains (slice a b (slice w f data)) s"
proof -
  have "occurs_at data s (length before)" by (simp add: assms(1) occurs_at_def)
  then have one: "occurs_at (slice w f data) s (length before - w)"
    using assms occurs_at_slice [of w "length before" s f data] by simp
  let ?b = "min b (length (slice w f data))"
  have eq: "slice a b xs = slice a (min b (length xs)) xs" for xs :: "'a list" by (auto simp: slice_def min_def)
  have "occurs_at (slice a ?b (slice w f data)) s (length before - w - a)"
    using one assms(2,3) by (subst occurs_at_slice) (auto simp: occurs_at_def)
  then show ?thesis unfolding eq [of "slice w f data"] bytes_contains_iff by blast
qed

text \<open>A detector is reached by a secret when it takes whole chunks, or when the secret is short and one of the
  detector's keywords occurs in it in any ASCII case.\<close>

definition reachable_by :: "(rune \<Rightarrow> rune) \<Rightarrow> Det \<Rightarrow> bytes \<Rightarrow> bool" where
  "reachable_by ul d s \<longleftrightarrow>
     wantsFull_of d \<or>
     length s \<le> windowOverlap \<and>
     (\<exists>kw \<in> set (det_Keywords d). kw \<noteq> [] \<and> bytes_contains (map ascii_lower s) (bytes_ToLower ul kw))"

lemma windows_reaches:
  assumes "engine_ok ul e" "env_cancel env = None" "prefilter_ok ul e patterns" "di < length (eng_dets e)"
    and "finds (eng_dets e ! di) s" "reachable_by ul (eng_dets e ! di) s" "\<not> wantsFull_of (eng_dets e ! di)"
    and "var_Data v = before @ s @ after"
  shows "reaches (emits (found e (var_Source v) archivePath di s)) (scanVariantWindows env e c v archivePath)"
proof -
  let ?data = "var_Data v" and ?P = "found e (var_Source v) archivePath di s"
  obtain kw q where kw: "kw \<in> set (det_Keywords (eng_dets e ! di))" "kw \<noteq> []" "occurs_at (map ascii_lower s) (bytes_ToLower ul kw) q"
    "length s \<le> windowOverlap" using assms(6,7) by (auto simp: reachable_by_def bytes_contains_iff)
  have full: "\<not> eng_wantsFull e ! di" using assms(1,4,7) by (simp add: engine_ok_def)
  have q: "q + length (bytes_ToLower ul kw) \<le> length s" using kw(3) by (simp add: occurs_at_def)
  have occ: "occurs_at (map ascii_lower ?data) (bytes_ToLower ul kw) (length before + q)"
    using kw(3) by (simp add: assms(8) occurs_at_def)
  obtain w f cs a b where w: "(w, f) \<in> set (variant_windows (length ?data))" "w \<le> f" "f \<le> length ?data"
    "dispatch_calls e (slice w f ?data) = Some cs" "(di, a, b) \<in> set cs" "w + a \<le> length before" "length before + length s \<le> w + b"
    "length before + length s \<le> f"
    using window_covers [OF assms(3,4) full kw(1,2) occ, of "length before" "length before + length s"] q kw(4) by (auto simp: assms(8))
  have hit: "reaches (emits ?P) (dispatch env e c (var_Source v) (slice w f ?data) archivePath)"
    by (rule dispatch_reaches [OF assms(1-3) w(4,5) assms(5) contains_slices [OF assms(8) w(6-8,3)]])
  show ?thesis
  proof (cases "length ?data \<le> maxWindowSize")
    case True
    then have "w = 0" "f = length ?data" using w(1) by (auto simp: variant_windows_def)
    then show ?thesis using hit True by (simp add: reaches_def scanVariantWindows_def Let_def)
  next
    case False
    have pre: "eng_prefilter e \<noteq> None" using assms(3) New_ok by (metis option.distinct(1) prefilter_ok_def)
    have "(w, f) \<in> set (window_loop (length ?data) 0)" using w(1) False by (simp add: variant_windows_def)
    then have "reaches (emits ?P) (poll_loop env (\<lambda>(s, f) st. dispatch env e c (var_Source v) (slice s f ?data) archivePath st) (window_loop (length ?data) 0))"
      by (rule poll_reaches [OF assms(2)]) (use hit adding.dispatch_step [OF assms(1) pre] in \<open>auto split: prod.splits\<close>)
    then show ?thesis using False by (simp add: reaches_def scanVariantWindows_def Let_def)
  qed
qed

lemma full_reaches:
  assumes "engine_ok ul e" "env_cancel env = None" "di < length (eng_dets e)" "finds (eng_dets e ! di) s"
    and "wantsFull_of (eng_dets e ! di)" "bytes_contains (var_Data v) s"
  shows "reaches (emits (found e (var_Source v) archivePath di s)) (runFullChunkDetectors env e c v archivePath)"
  unfolding runFullChunkDetectors_def
proof (rule poll_reaches [OF assms(2), of di])
  show "di \<in> set (filter ((!) (eng_wantsFull e)) [0..<length (eng_dets e)])" using assms(1,3,5) by (simp add: engine_ok_def)
  show "reaches (emits (found e (var_Source v) archivePath di s)) (runDetectorOn env e c (var_Source v) archivePath di (var_Data v))"
    by (rule run_reaches [OF assms(1,3,4,6)])
  show "total_step (adds e) (runDetectorOn env e c (var_Source v) archivePath y (var_Data v))"
    if "y \<in> set (filter ((!) (eng_wantsFull e)) [0..<length (eng_dets e)])" for y
    using that by (intro adding.detector [OF assms(1)]) simp
qed

lemma variant_reaches:
  assumes "engine_ok ul e" "env_cancel env = None" "prefilter_ok ul e patterns" "di < length (eng_dets e)"
    and "finds (eng_dets e ! di) s" "reachable_by ul (eng_dets e ! di) s" "var_Data v = before @ s @ after"
  shows "reaches (emits (found e (var_Source v) archivePath di s)) (scan_variant env e c archivePath v)"
  unfolding reaches_def
proof (intro allI impI)
  fix st assume ok: "scan_ok st"
  have pre: "eng_prefilter e \<noteq> None" using assms(3) New_ok by (metis option.distinct(1) prefilter_ok_def)
  have s: "bytes_contains (var_Data v) s" unfolding assms(7) by (simp add: bytes_contains_iff occurs_at_def exI [of _ "length before"])
  show "\<exists>st'. scan_variant env e c archivePath v st = Some st' \<and> scan_ok st' \<and> emits (found e (var_Source v) archivePath di s) st'"
  proof (cases "wantsFull_of (eng_dets e ! di)")
    case True
    obtain st1 where "runFullChunkDetectors env e c v archivePath st = Some st1" "scan_ok st1" "emits (found e (var_Source v) archivePath di s) st1"
      using reachesD [OF full_reaches [OF assms(1,2,4,5) True s] ok] by blast
    moreover then obtain st2 where "scanVariantWindows env e c v archivePath st1 = Some st2" "scan_ok st2" "adds e st1 st2"
      using total_stepD [OF adding.windows_step [OF assms(1) pre]] by blast
    ultimately show ?thesis using emits_adds by (auto simp: scan_variant_def)
  next
    case False
    obtain st1 where "runFullChunkDetectors env e c v archivePath st = Some st1" "scan_ok st1"
      using total_stepD [OF adding.full_step [OF assms(1)] ok] by blast
    moreover then obtain st2 where "scanVariantWindows env e c v archivePath st1 = Some st2" "scan_ok st2"
      "emits (found e (var_Source v) archivePath di s) st2"
      using reachesD [OF windows_reaches [OF assms(1-6) False assms(7)]] by blast
    ultimately show ?thesis by (auto simp: scan_variant_def)
  qed
qed

lemma leaf_reaches:
  assumes "engine_ok ul e" "env_cancel env = None" "eng_prefilter e \<noteq> None" "di < length (eng_dets e)"
    and "finds (eng_dets e ! di) s" "reachable_by ul (eng_dets e ! di) s"
    and "Variants (env_junk env) (Data c) = Some vs" "v \<in> set vs" "var_Data v = before @ s @ after" "scan_ok st"
  shows "\<exists>st'. scanChunkLeaf env e c archivePath st = Some st' \<and> scan_ok st' \<and> emits (found e (var_Source v) archivePath di s) st'"
proof -
  obtain patterns where pre: "prefilter_ok ul e patterns" using assms(1,3) by (auto simp: engine_ok_def)
  have "reaches (emits (found e (var_Source v) archivePath di s)) (poll_loop env (scan_variant env e c archivePath) vs)"
  proof (rule poll_reaches [OF assms(2,8)])
    show "reaches (emits (found e (var_Source v) archivePath di s)) (scan_variant env e c archivePath v)"
      by (rule variant_reaches [OF assms(1,2) pre assms(4-6,9)])
    show "total_step (adds e) (scan_variant env e c archivePath y)" for y by (rule adding.variant_step [OF assms(1,3)])
  qed
  moreover have "scan_ok (st\<lparr>ss_chunks := ss_chunks st + 1, ss_bytes := ss_bytes st + int (length (Data c))\<rparr>)"
    using assms(10) by (simp add: scan_ok_def)
  ultimately obtain st' where
    "poll_loop env (scan_variant env e c archivePath) vs (st\<lparr>ss_chunks := ss_chunks st + 1, ss_bytes := ss_bytes st + int (length (Data c))\<rparr>) = Some st'"
    "scan_ok st'" "emits (found e (var_Source v) archivePath di s) st'" using reachesD by blast
  then show ?thesis using assms(3,7) by (auto simp: scanChunkLeaf_def Let_def)
qed


section \<open>Guarantees of the scan of a chunk\<close>

lemma new_dets: "NewWithDetectors ul dets opts cc = Some e \<Longrightarrow> set (eng_dets e) = set dets"
  using NewWithDetectors_ok [of ul dets opts cc] by (auto simp: order_detectors_eq)

lemma found_facts:
  assumes "found e source archivePath di s f"
  shows "Raw (Result_of f) = s \<and> Detector f = det_Type (eng_dets e ! di) \<and>
    (source \<noteq> [] \<longrightarrow> ExtraData (Result_of f) ''decoded_from'' = Some source) \<and>
    (archivePath \<noteq> [] \<longrightarrow> ExtraData (Result_of f) ''archive_path'' = Some archivePath)"
proof -
  obtain r where r: "Raw r = s" "published e source archivePath di r f" using assms unfolding found_def by blast
  then have "Raw (Result_of f) = s"
    using finalize_safe [of "det_Type (eng_dets e ! di)" "det_Policy (eng_dets e ! di)" source archivePath r] by (simp add: published_def Let_def)
  then show ?thesis using r finalize_extra by (auto simp: published_def)
qed

lemma scan_finding_safe:
  assumes "NewWithDetectors ul dets opts cc = Some e" "scan_finding e f"
  shows "\<exists>d \<in> set dets. Detector f = det_Type d \<and> VerifierBacked f = det_Verifier d \<and>
    \<not> containsSecret (Redacted (Result_of f)) (Raw (Result_of f)) \<and> \<not> containsSecret (Redacted (Result_of f)) (RawV2 (Result_of f)) \<and>
    Severity (Result_of f) \<noteq> SeverityUnknown \<and>
    (Verified (Result_of f) \<longrightarrow> VerificationAssurance (Result_of f) \<le> maxVerificationAssurance (det_Policy d))"
proof -
  obtain source ap di r where p: "di < length (eng_dets e)" "published e source ap di r f" using assms(2) unfolding scan_finding_def by blast
  then have "eng_dets e ! di \<in> set dets" using new_dets [OF assms(1)] nth_mem by blast
  moreover have res: "finalize_result (det_Type (eng_dets e ! di)) (det_Policy (eng_dets e ! di)) source ap r = Result_of f"
    "Detector f = det_Type (eng_dets e ! di)" "VerifierBacked f = det_Verifier (eng_dets e ! di)" using p(2) by (simp_all add: published_def)
  ultimately show ?thesis
    using finalize_safe [of "det_Type (eng_dets e ! di)" "det_Policy (eng_dets e ! di)" source ap r] unfolding res(1) Let_def by blast
qed



definition sample_env :: scan_env where
  "sample_env = \<lparr>env_sha = (\<lambda>x. x), env_sha_hex = (\<lambda>x. x), env_classifier = None, env_junk = (\<lambda>_. []), env_cancel = None\<rparr>"

definition sample_state :: scan_state where
  "sample_state = \<lparr>ss_cache = newVerificationCache 10, ss_stats = zero_stats, ss_chunks = 0, ss_bytes = 0, ss_findings = 0,
     ss_log = resetFailures new_failure_log, ss_polls = 0, ss_emitted = []\<rparr>"

definition key_result :: Result where
  "key_result = \<lparr>DetectorType = 1, Verified = False, VerificationErr = None, VerificationAssurance = AssuranceUnknown,
     Severity = SeverityUnknown, Raw = ''AKIA1'', RawV2 = [], Redacted = [], ExtraData = Map.empty\<rparr>"

definition key_det :: Det where
  "key_det = sample_det\<lparr>det_unverified := \<lambda>w. (if bytes_contains w ''AKIA1'' then [key_result] else [], None),
     det_verified := \<lambda>_ w. (if bytes_contains w ''AKIA1'' then [key_result] else [], None)\<rparr>"

definition sample_chunk :: Chunk where
  "sample_chunk = \<lparr>SourceID = 0, SourceType = SourceUnknown, SourceName = ''t'', Data = ''x AKIA1'', SourceMetadata = no_metadata\<rparr>"

definition offline_opts :: verify_opts where
  "offline_opts = \<lparr>NoVerify = True, MinimumVerificationAssurance = AssuranceUnknown\<rparr>"

lemma sample_scan:
  "scan_ok sample_state" "finds key_det ''AKIA1''" "reachable_by id key_det ''AKIA1''"
  "\<exists>e. NewWithDetectors id [key_det] offline_opts 0 = Some e \<and> eng_prefilter e \<noteq> None \<and> eng_opts e = offline_opts"
proof -
  show "scan_ok sample_state"
    by (simp add: scan_ok_def sample_state_def cache_inv_def newVerificationCache_def resetFailures_def)
  show "finds key_det ''AKIA1''" by (simp add: finds_def reports_def key_det_def key_result_def)
  have "occurs_at (map ascii_lower ''AKIA1'') ''akia'' 0" by code_simp
  then show "reachable_by id key_det ''AKIA1''"
    by (auto simp: reachable_by_def key_det_def sample_det_def windowOverlap_def sample_lower bytes_contains_iff)
  show "\<exists>e. NewWithDetectors id [key_det] offline_opts 0 = Some e \<and> eng_prefilter e \<noteq> None \<and> eng_opts e = offline_opts"
    using NewWithDetectors_ok [of id "[key_det]" offline_opts 0]
    by (auto simp: order_detectors_def key_det_def sample_det_def split: if_splits)
qed



end
