(* ===== verification/StreamMatch.thy ===== *)
theory StreamMatch
  imports Sources "HOL-Library.AList"
begin

text \<open>
  Locating secrets in a replayable source without holding it in memory
  (\<^verbatim>\<open>src/pkg/engine/engine.go\<close>: \<^verbatim>\<open>streamMatchCache\<close> and its methods, \<^verbatim>\<open>findReaderMatches\<close>,
  \<^verbatim>\<open>findReaderMatch\<close>). The cache is threaded through every operation: a computation takes it and returns
  an error or a value together with the cache as it is then, so what a failing operation leaves behind is part of the model.
  The counter \<open>sm_tick\<close> advances at every read and at every poll of the context; the reader, the context and the
  order in which Go ranges over a map may depend on it. Offsets and sizes are below the limits of int64.
\<close>

section \<open>Environment, state and computations\<close>

datatype read_err = EOF | ReadFailed string
datatype stream_err = SCancelled | SRead string | SUnexpectedEOF

record stream_env =
  sv_reader :: "nat \<Rightarrow> nat \<Rightarrow> nat \<Rightarrow> bytes \<times> read_err option"
  sv_size :: nat
  sv_cancelled :: "nat \<Rightarrow> bool"
  sv_order :: "nat \<Rightarrow> nat \<Rightarrow> nat list"

record streamMatch =
  sm_offset :: int
  sm_newlineCount :: int
  sm_found :: bool

record streamPrefixIndex =
  ix_positions :: "nat list"
  ix_newlines :: "nat list"
  ix_samples :: "bytes list"

record streamMatchCache =
  sm_values :: "bytes \<rightharpoonup> streamMatch"
  sm_firstPair :: "(nat \<rightharpoonup> nat) option"
  sm_restPair :: "nat \<Rightarrow> nat list"
  sm_restPairFull :: "nat set"
  sm_candidates :: "bytes list"
  sm_active :: bool
  sm_disabled :: bool
  sm_through :: nat
  sm_pairIndex :: "nat \<rightharpoonup> streamPrefixIndex"
  sm_byteIndex :: "nat \<rightharpoonup> streamPrefixIndex"
  sm_groupCounts :: "nat \<Rightarrow> nat"
  sm_indexOOM :: "nat set"
  sm_indexedPositions :: nat
  sm_indexSampleBytes :: nat
  sm_tick :: nat

definition newStreamMatchCache :: streamMatchCache where
  "newStreamMatchCache =
     \<lparr>sm_values = Map.empty, sm_firstPair = None, sm_restPair = (\<lambda>_. []), sm_restPairFull = {}, sm_candidates = [], sm_active = False,
      sm_disabled = False, sm_through = 0, sm_pairIndex = Map.empty, sm_byteIndex = Map.empty, sm_groupCounts = (\<lambda>_. 0),
      sm_indexOOM = {}, sm_indexedPositions = 0, sm_indexSampleBytes = 0, sm_tick = 0\<rparr>"

type_synonym 'a sm = "streamMatchCache \<Rightarrow> (stream_err + 'a) \<times> streamMatchCache"

definition sm_return :: "'a \<Rightarrow> 'a sm" where
  "sm_return x c = (Inr x, c)"

definition sm_bind :: "'a sm \<Rightarrow> ('a \<Rightarrow> 'b sm) \<Rightarrow> 'b sm" where
  "sm_bind m f c = (case m c of (Inl e, c1) \<Rightarrow> (Inl e, c1) | (Inr x, c1) \<Rightarrow> f x c1)"

lemma sm_bind_cong [fundef_cong]:
  assumes "m c = m' c'" "\<And>x c1. m' c' = (Inr x, c1) \<Longrightarrow> f x c1 = g x c1"
  shows "sm_bind m f c = sm_bind m' g c'"
  using assms by (auto simp: sm_bind_def split: prod.splits sum.splits)

definition sm_poll :: "stream_env \<Rightarrow> unit sm" where
  "sm_poll env c =
     ((if sv_cancelled env (sm_tick c) then Inl SCancelled else Inr ()), c\<lparr>sm_tick := Suc (sm_tick c)\<rparr>)"

text \<open>A read of exactly \<open>n\<close> bytes; every caller treats the results this way.\<close>

definition read_exact :: "stream_env \<Rightarrow> nat \<Rightarrow> nat \<Rightarrow> bytes sm" where
  "read_exact env off n c =
     (let (got, err) = sv_reader env (sm_tick c) off n; c1 = c\<lparr>sm_tick := Suc (sm_tick c)\<rparr> in
      (case err of
         Some (ReadFailed e) \<Rightarrow> Inl (SRead e)
       | _ \<Rightarrow> if length got \<noteq> n then Inl SUnexpectedEOF else Inr got, c1))"

definition read_block :: "stream_env \<Rightarrow> nat \<Rightarrow> nat \<Rightarrow> nat \<Rightarrow> bytes sm" where
  "read_block env buffer start fin =
     sm_bind (sm_poll env) (\<lambda>_. read_exact env start (min buffer (fin - start)))"

lemma read_exact_length: "read_exact env off n c = (Inr got, c1) \<Longrightarrow> length got = n"
  by (auto simp: read_exact_def Let_def split: prod.splits option.splits read_err.splits if_splits)

lemma read_block_length: "read_block env buffer start fin c = (Inr got, c1) \<Longrightarrow> length got = min buffer (fin - start)"
  by (auto simp: read_block_def sm_bind_def split: prod.splits sum.splits dest: read_exact_length)

text \<open>The order of a \<^verbatim>\<open>range\<close> over a map: some rearrangement of the entries.\<close>

definition range_order :: "stream_env \<Rightarrow> streamMatchCache \<Rightarrow> 'a list \<Rightarrow> 'a list" where
  "range_order env c xs =
     (let p = sv_order env (sm_tick c) (length xs) in
      if length p = length xs \<and> set p = {..<length xs} then map ((!) xs) p else xs)"

definition streamBlockSize :: nat where "streamBlockSize = 65536"
definition hintVerifyCandidateCap :: nat where "hintVerifyCandidateCap = 64"
definition streamRawObservationMinCandidates :: nat where "streamRawObservationMinCandidates = 8"
definition streamPrefixIndexTotalCap :: nat where "streamPrefixIndexTotalCap = 1048576"
definition streamPrefixIndexSampleLen :: nat where "streamPrefixIndexSampleLen = 64"
definition streamPrefixIndexSampleBytes :: nat where "streamPrefixIndexSampleBytes = 8388608"
definition streamBatchMaxRaw :: nat where "streamBatchMaxRaw = 32768"
definition streamFindingBatchLimit :: nat where "streamFindingBatchLimit = 1024"
definition streamIndexGroupMinRaws :: nat where "streamIndexGroupMinRaws = 64"
definition indexGroupSingleBit :: nat where "indexGroupSingleBit = 65536"

section \<open>Observation of byte pairs\<close>

definition pair_key :: "byte \<Rightarrow> byte \<Rightarrow> nat" where
  "pair_key a b = of_char a * 256 + of_char b"

definition observe_position :: "bytes \<Rightarrow> nat \<Rightarrow> nat \<Rightarrow> streamMatchCache \<Rightarrow> streamMatchCache" where
  "observe_position data start i c =
     (let pos = start + i + 1; pair = pair_key (data ! i) (data ! (i + 1)); first = the (sm_firstPair c) in
      if pair \<in> sm_restPairFull c then c
      else if first pair = None then c\<lparr>sm_firstPair := Some (first(pair \<mapsto> pos))\<rparr>
      else
        let rest = sm_restPair c pair @ [pos] in
        c\<lparr>sm_restPair := (sm_restPair c)(pair := rest),
          sm_restPairFull := (if hintVerifyCandidateCap \<le> length rest then insert pair (sm_restPairFull c) else sm_restPairFull c)\<rparr>)"

definition observeRawWindow :: "string \<Rightarrow> bytes \<Rightarrow> nat \<Rightarrow> streamMatchCache \<Rightarrow> streamMatchCache" where
  "observeRawWindow source data start c =
     (if source \<noteq> [] \<or> data = [] then c
      else
        let c0 = (if sm_firstPair c = None then c\<lparr>sm_firstPair := Some Map.empty, sm_restPairFull := {}\<rparr> else c);
            seen = sm_through c0 - start in
        if start < sm_through c0 \<and> length data \<le> seen then c0
        else
          let first = (if start < sm_through c0 then seen - 1 else 0);
              c1 = fold (observe_position data start) [first..<length data - 1] c0 in
          c1\<lparr>sm_through := max (sm_through c1) (start + length data)\<rparr>)"

function bootstrap_loop :: "stream_env \<Rightarrow> nat \<Rightarrow> nat \<Rightarrow> unit sm" where
  "bootstrap_loop env fin start c =
     (if start < fin then
        sm_bind (read_block env (streamBlockSize + 1) start fin) (\<lambda>data c1.
          bootstrap_loop env fin (start + (if start + length data < fin then length data - 1 else length data))
            (observeRawWindow [] data start c1)) c
      else (Inr (), c))"
  by pat_completeness auto
termination
  by (relation "measure (\<lambda>(env, fin, start, c). fin - start)") (auto simp: streamBlockSize_def dest!: read_block_length)

declare bootstrap_loop.simps [simp del]

definition bootstrapRawObservation :: "stream_env \<Rightarrow> nat \<Rightarrow> unit sm" where
  "bootstrapRawObservation env fin = bootstrap_loop env fin 0"

definition observeRawCandidate :: "stream_env \<Rightarrow> bytes \<Rightarrow> nat \<Rightarrow> bytes \<Rightarrow> unit sm" where
  "observeRawCandidate env data start raw c =
     (if raw = [] \<or> sm_disabled c then (Inr (), c)
      else if sm_active c then (Inr (), observeRawWindow [] data start c)
      else
        let c1 = c\<lparr>sm_candidates := List.insert raw (sm_candidates c)\<rparr> in
        if length (sm_candidates c1) < streamRawObservationMinCandidates then (Inr (), c1)
        else
          case bootstrapRawObservation env (min (sv_size env) (start + 1)) c1 of
            (Inl e, c2) \<Rightarrow>
              (Inl e, c2\<lparr>sm_firstPair := None, sm_restPair := (\<lambda>_. []), sm_restPairFull := {}, sm_through := 0, sm_candidates := [],
                        sm_disabled := True\<rparr>)
          | (Inr _, c2) \<Rightarrow> (Inr (), observeRawWindow [] data start (c2\<lparr>sm_active := True, sm_candidates := []\<rparr>)))"

section \<open>Prefix keys and complete indexes\<close>

fun prefixKey :: "bytes \<Rightarrow> nat \<times> bool" where
  "prefixKey (a # b # _) = (pair_key a b, False)"
| "prefixKey [a] = (of_char a, True)"
| "prefixKey [] = (0, False)"

definition group_key :: "bytes \<Rightarrow> nat" where
  "group_key raw = (let (prefix, single) = prefixKey raw in if single then prefix + indexGroupSingleBit else prefix)"

definition single_bit :: "nat \<Rightarrow> bool" where
  "single_bit k \<longleftrightarrow> (k div indexGroupSingleBit) mod 2 = 1"

definition indexFor :: "nat \<Rightarrow> streamMatchCache \<Rightarrow> streamPrefixIndex option" where
  "indexFor k c = (if single_bit k then sm_byteIndex c (k mod 256) else sm_pairIndex c (k mod 65536))"

text \<open>The state of one build pass: the indexes under construction, the positions recorded, the sample bytes used and the lines passed.\<close>

record index_build =
  bd_indexes :: "nat \<rightharpoonup> streamPrefixIndex"
  bd_count :: nat
  bd_samples :: nat
  bd_lines :: nat

text \<open>Recording one position; \<^const>\<open>None\<close> when the budget of positions is used up.\<close>

definition record_position :: "nat \<Rightarrow> bytes \<Rightarrow> nat \<Rightarrow> nat \<Rightarrow> nat \<Rightarrow> nat \<Rightarrow> index_build \<Rightarrow> index_build option" where
  "record_position indexed data start key j lineAt b =
     (if streamPrefixIndexTotalCap \<le> indexed + bd_count b then None
      else
        let index = the (bd_indexes b key);
            index1 = index\<lparr>ix_positions := ix_positions index @ [start + j], ix_newlines := ix_newlines index @ [lineAt]\<rparr> in
        if bd_samples b + streamPrefixIndexSampleLen \<le> streamPrefixIndexSampleBytes
        then
          let sample = slice j (min (j + streamPrefixIndexSampleLen) (length data)) data in
          Some (b\<lparr>bd_indexes := (bd_indexes b)(key \<mapsto> index1\<lparr>ix_samples := ix_samples index @ [sample]\<rparr>),
                  bd_count := bd_count b + 1, bd_samples := bd_samples b + length sample\<rparr>)
        else Some (b\<lparr>bd_indexes := (bd_indexes b)(key \<mapsto> index1), bd_count := bd_count b + 1\<rparr>))"

text \<open>The search for a single wanted prefix \<open>p # ps\<close> in one block.\<close>

function fast_loop ::
  "nat \<Rightarrow> bytes \<Rightarrow> nat \<Rightarrow> nat \<Rightarrow> byte \<Rightarrow> bytes \<Rightarrow> nat \<Rightarrow> nat \<Rightarrow> nat \<Rightarrow> nat \<Rightarrow> index_build \<Rightarrow> (nat \<times> nat \<times> index_build) option" where
  "fast_loop indexed data start key p ps searchEnd first lineScan lineAt b =
     (case bytes_index (slice first searchEnd data) (p # ps) of
        None \<Rightarrow> Some (lineScan, lineAt, b)
      | Some relative \<Rightarrow>
          let j = first + relative; lineAt1 = lineAt + bytes_count_newlines (slice lineScan j data) in
          case record_position indexed data start key j lineAt1 b of
            None \<Rightarrow> None
          | Some b1 \<Rightarrow> fast_loop indexed data start key p ps searchEnd (j + 1) j lineAt1 b1)"
  by pat_completeness auto
termination
  by (relation "measure (\<lambda>(indexed, data, start, key, p, ps, searchEnd, first, lineScan, lineAt, b). searchEnd - first)")
    (auto simp: bytes_index_Some occurs_at_def slice_def)

declare fast_loop.simps [simp del]

definition fast_block :: "nat \<Rightarrow> bytes \<Rightarrow> nat \<Rightarrow> nat \<Rightarrow> byte \<Rightarrow> bytes \<Rightarrow> nat \<Rightarrow> nat \<Rightarrow> index_build \<Rightarrow> index_build option" where
  "fast_block indexed data start key p ps searchEnd fin b =
     (case fast_loop indexed data start key p ps searchEnd 0 0 (bd_lines b) b of
        None \<Rightarrow> None
      | Some (lineScan, lineAt, b1) \<Rightarrow> Some (b1\<lparr>bd_lines := lineAt + bytes_count_newlines (slice lineScan fin data)\<rparr>))"

text \<open>The pass over every byte, for several wanted prefixes.\<close>

definition wanted_position :: "nat \<Rightarrow> bytes \<Rightarrow> nat \<Rightarrow> nat \<Rightarrow> nat option \<Rightarrow> index_build \<Rightarrow> index_build option" where
  "wanted_position indexed data start j wanted b =
     (case wanted of
        None \<Rightarrow> Some b
      | Some key \<Rightarrow> if bd_indexes b key = None then Some b else record_position indexed data start key j (bd_lines b) b)"

definition index_byte :: "nat \<Rightarrow> (nat \<rightharpoonup> nat) \<Rightarrow> (nat \<rightharpoonup> nat) \<Rightarrow> bytes \<Rightarrow> nat \<Rightarrow> nat \<Rightarrow> index_build \<Rightarrow> index_build option" where
  "index_byte indexed singles pairs data start j b = do {
     b1 \<leftarrow> wanted_position indexed data start j
             (if j + 1 < length data then pairs (pair_key (data ! j) (data ! (j + 1))) else None) b;
     b2 \<leftarrow> wanted_position indexed data start j (singles (of_char (data ! j))) b1;
     Some (if data ! j = CHR 0x0A then b2\<lparr>bd_lines := bd_lines b2 + 1\<rparr> else b2)
   }"

definition scan_block :: "nat \<Rightarrow> nat list \<Rightarrow> (nat \<rightharpoonup> nat) \<Rightarrow> (nat \<rightharpoonup> nat) \<Rightarrow> bytes \<Rightarrow> nat \<Rightarrow> nat \<Rightarrow> index_build \<Rightarrow> index_build option" where
  "scan_block indexed keys singles pairs data start fin b =
     (case keys of
        [k] \<Rightarrow>
          if single_bit k then fast_block indexed data start k (char_of (k mod 256)) [] fin fin b
          else fast_block indexed data start k (char_of (k mod 65536 div 256)) [char_of (k mod 256)]
                 (if fin < length data then fin + 1 else fin) fin b
      | _ \<Rightarrow> foldM (index_byte indexed singles pairs data start) [0..<fin] b)"

text \<open>The pass over the source; a result without a build means that the budget was exceeded.\<close>

function index_loop :: "stream_env \<Rightarrow> nat list \<Rightarrow> (nat \<rightharpoonup> nat) \<Rightarrow> (nat \<rightharpoonup> nat) \<Rightarrow> nat \<Rightarrow> index_build \<Rightarrow> index_build option sm" where
  "index_loop env keys singles pairs start b c =
     (if start < sv_size env then
        sm_bind (read_block env (streamBlockSize + 1) start (sv_size env)) (\<lambda>data c1.
          let fin = (if start + length data < sv_size env then length data - 1 else length data) in
          if fin = 0 then (Inr (Some b), c1)
          else case scan_block (sm_indexedPositions c1) keys singles pairs data start fin b of
                 None \<Rightarrow> (Inr None, c1)
               | Some b1 \<Rightarrow> index_loop env keys singles pairs (start + fin) b1 c1) c
      else (Inr (Some b), c))"
  by pat_completeness auto
termination
  by (relation "measure (\<lambda>(env, keys, singles, pairs, start, b, c). sv_size env - start)") auto

declare index_loop.simps [simp del]

definition scanPrefixIndexes :: "stream_env \<Rightarrow> nat list \<Rightarrow> (nat \<rightharpoonup> streamPrefixIndex) sm" where
  "scanPrefixIndexes env keys c =
     (let singles = fold (\<lambda>k m. if single_bit k then m(k mod 256 \<mapsto> k) else m) keys Map.empty;
          pairs = fold (\<lambda>k m. if single_bit k then m else m(k mod 65536 \<mapsto> k)) keys Map.empty;
          indexes = fold (\<lambda>k m. m(k \<mapsto> \<lparr>ix_positions = [], ix_newlines = [], ix_samples = []\<rparr>)) keys Map.empty;
          b = \<lparr>bd_indexes = indexes, bd_count = 0, bd_samples = sm_indexSampleBytes c, bd_lines = 0\<rparr> in
      sm_bind (index_loop env keys singles pairs 0 b) (\<lambda>built c1.
        case built of
          None \<Rightarrow> (Inr Map.empty, c1)
        | Some b1 \<Rightarrow> (Inr (bd_indexes b1), c1\<lparr>sm_indexSampleBytes := bd_samples b1\<rparr>)) c)"

definition store_index ::
  "(nat \<rightharpoonup> streamPrefixIndex) \<Rightarrow> nat \<Rightarrow> (nat \<rightharpoonup> streamPrefixIndex) \<times> streamMatchCache \<Rightarrow> (nat \<rightharpoonup> streamPrefixIndex) \<times> streamMatchCache" where
  "store_index built k = (\<lambda>(out, c).
     case built k of
       None \<Rightarrow> (out, c\<lparr>sm_indexOOM := insert k (sm_indexOOM c)\<rparr>)
     | Some index \<Rightarrow>
         (out(k \<mapsto> index),
          (if single_bit k then c\<lparr>sm_byteIndex := (sm_byteIndex c)(k mod 256 \<mapsto> index)\<rparr>
           else c\<lparr>sm_pairIndex := (sm_pairIndex c)(k mod 65536 \<mapsto> index)\<rparr>)
            \<lparr>sm_indexedPositions := sm_indexedPositions c + length (ix_positions index)\<rparr>))"

definition prefixIndexes :: "stream_env \<Rightarrow> nat list \<Rightarrow> (nat \<rightharpoonup> streamPrefixIndex) sm" where
  "prefixIndexes env keys c =
     (let out = fold (\<lambda>k m. case indexFor k c of None \<Rightarrow> m | Some index \<Rightarrow> m(k \<mapsto> index)) keys Map.empty;
          missing = filter (\<lambda>k. indexFor k c = None \<and> k \<notin> sm_indexOOM c) keys in
      if missing = [] then (Inr out, c)
      else sm_bind (scanPrefixIndexes env missing) (\<lambda>built c1.
             let (out1, c2) = fold (store_index built) missing (out, c1) in (Inr out1, c2)) c)"

section \<open>Lookups\<close>

definition indexMatchAt :: "stream_env \<Rightarrow> streamPrefixIndex \<Rightarrow> nat \<Rightarrow> nat \<Rightarrow> bytes \<Rightarrow> bool sm" where
  "indexMatchAt env index i pos raw =
     (let sample = (if i < length (ix_samples index) then Some (ix_samples index ! i) else None);
          by_read = (if sv_size env < pos + length raw then sm_return False
                     else sm_bind (read_exact env pos (length raw)) (\<lambda>buf. sm_return (buf = raw))) in
      case sample of
        None \<Rightarrow> by_read
      | Some s \<Rightarrow> if length raw \<le> length s then sm_return (take (length raw) s = raw)
                  else if s \<noteq> take (length s) raw then sm_return False else by_read)"

definition indexCandidateAt :: "stream_env \<Rightarrow> streamPrefixIndex \<Rightarrow> nat \<Rightarrow> nat \<Rightarrow> nat \<Rightarrow> bytes \<Rightarrow> bytes option sm" where
  "indexCandidateAt env index i pos len common_prefix =
     (let sample = (if i < length (ix_samples index) then Some (ix_samples index ! i) else None);
          by_read = (if sv_size env < pos + len then sm_return None
                     else sm_bind (read_exact env pos len) (\<lambda>buf. sm_return (Some buf))) in
      if len = 0 then sm_return None
      else case sample of
        None \<Rightarrow> by_read
      | Some s \<Rightarrow>
          if len \<le> length s then sm_return (Some (take len s))
          else
            let common = min (length s) (length common_prefix) in
            if 0 < common \<and> take common s \<noteq> take common common_prefix then sm_return None else by_read)"

definition match_earlier :: "stream_env \<Rightarrow> bytes \<Rightarrow> int \<Rightarrow> nat \<Rightarrow> bool sm" where
  "match_earlier env raw hint pos =
     (if pos = 0 \<or> hint \<le> int pos - 1 \<or> sv_size env < pos - 1 + length raw then sm_return False
      else sm_bind (read_exact env (pos - 1) (length raw)) (\<lambda>buf. sm_return (buf = raw)))"

fun earlier_loop :: "stream_env \<Rightarrow> bytes \<Rightarrow> int \<Rightarrow> nat list \<Rightarrow> bool \<Rightarrow> bool sm" where
  "earlier_loop env raw hint [] earlier = sm_return earlier"
| "earlier_loop env raw hint (pos # rest) earlier =
     (if earlier \<or> hint \<le> int pos - 1 then sm_return earlier
      else sm_bind (sm_poll env) (\<lambda>_. sm_bind (match_earlier env raw hint pos) (earlier_loop env raw hint rest)))"

definition absent_match :: streamMatch where
  "absent_match = \<lparr>sm_offset = -1, sm_newlineCount = 0, sm_found = False\<rparr>"

fun index_match_loop :: "stream_env \<Rightarrow> streamPrefixIndex \<Rightarrow> bytes \<Rightarrow> nat list \<Rightarrow> streamMatch option sm" where
  "index_match_loop env index raw [] = sm_return (Some absent_match)"
| "index_match_loop env index raw (i # is) =
     (let pos = ix_positions index ! i in
      sm_bind (sm_poll env) (\<lambda>_. sm_bind (indexMatchAt env index i pos raw) (\<lambda>matched.
        if matched then sm_return (Some \<lparr>sm_offset = int pos, sm_newlineCount = int (ix_newlines index ! i), sm_found = True\<rparr>)
        else index_match_loop env index raw is)))"

text \<open>\<^const>\<open>None\<close> is an unfinished lookup, which the caller passes on to the shared scan.\<close>

definition prefixLookup :: "stream_env \<Rightarrow> bytes \<Rightarrow> streamRawHint \<Rightarrow> streamMatch option sm" where
  "prefixLookup env raw hint c =
     (if \<not> hint_ok hint \<or> length raw < 2 then (Inr None, c)
      else case sm_firstPair c of
        None \<Rightarrow> (Inr None, c)
      | Some firsts \<Rightarrow>
        let key = fst (prefixKey raw); rest = sm_restPair c key in
        case firsts key of
          None \<Rightarrow> (Inr None, c)
        | Some first \<Rightarrow>
          if length rest < hintVerifyCandidateCap then
            sm_bind (match_earlier env raw (hint_offset hint) first) (\<lambda>e0.
              sm_bind (earlier_loop env raw (hint_offset hint) rest e0) (\<lambda>earlier.
                sm_return (if earlier then None
                  else Some \<lparr>sm_offset = hint_offset hint, sm_newlineCount = hint_newlines hint, sm_found = True\<rparr>))) c
          else
            sm_bind (prefixIndexes env [key]) (\<lambda>indexes.
              case indexes key of
                None \<Rightarrow> sm_return None
              | Some index \<Rightarrow> index_match_loop env index raw [0..<length (ix_positions index)]) c)"

end
