(* ===== verification/StreamObserve.thy ===== *)
theory StreamObserve
  imports StreamMatch
begin

text \<open>
  What the stream match cache promises, and the observation of byte pairs. A source \<^emph>\<open>is truthful\<close> for some data when
  every read of it that succeeds in full delivers that data. The cache is sound when its values are the first
  occurrences in the data, its pair positions are all positions up to the observed end, and its indexes are complete.
\<close>

section \<open>Truthful sources, first occurrences\<close>

definition truthful :: "stream_env \<Rightarrow> bytes \<Rightarrow> bool" where
  "truthful env data \<longleftrightarrow> sv_size env = length data \<and>
     (\<forall>t off n got err. off + n \<le> length data \<and> sv_reader env t off n = (got, err) \<and> length got = n \<and> err \<in> {None, Some EOF}
        \<longrightarrow> got = slice off (off + n) data)"

definition first_match :: "bytes \<Rightarrow> bytes \<Rightarrow> streamMatch" where
  "first_match data raw =
     (case bytes_index data raw of
        None \<Rightarrow> absent_match
      | Some i \<Rightarrow> \<lparr>sm_offset = int i, sm_newlineCount = int (bytes_count_newlines (take i data)), sm_found = True\<rparr>)"

lemma first_match_at:
  assumes "occurs_at data raw i" "\<And>j. j < i \<Longrightarrow> \<not> occurs_at data raw j"
  shows "first_match data raw = \<lparr>sm_offset = int i, sm_newlineCount = int (bytes_count_newlines (take i data)), sm_found = True\<rparr>"
proof -
  have "bytes_index data raw = Some i" using assms by (simp add: bytes_index_Some)
  then show ?thesis by (simp add: first_match_def)
qed

lemma first_match_absent: "(\<And>j. \<not> occurs_at data raw j) \<Longrightarrow> first_match data raw = absent_match"
  by (simp add: first_match_def bytes_index_None [THEN iffD2])

section \<open>The pair positions\<close>

definition pairs_upto :: "bytes \<Rightarrow> nat \<Rightarrow> nat \<Rightarrow> nat list" where
  "pairs_upto data n k = filter (\<lambda>p. pair_key (data ! p) (data ! (p + 1)) = k) [0..<n]"

definition pairs_recorded :: "nat list \<Rightarrow> nat option \<Rightarrow> nat list \<Rightarrow> bool" where
  "pairs_recorded ps first rest \<longleftrightarrow>
     first = (if ps = [] then None else Some (hd ps + 1)) \<and> rest = map Suc (take hintVerifyCandidateCap (tl ps))"

definition observed :: "bytes \<Rightarrow> nat \<Rightarrow> streamMatchCache \<Rightarrow> bool" where
  "observed data n c \<longleftrightarrow>
     (\<exists>firsts. sm_firstPair c = Some firsts \<and>
       (\<forall>k. pairs_recorded (pairs_upto data n k) (firsts k) (sm_restPair c k) \<and>
            (k \<in> sm_restPairFull c \<longleftrightarrow> hintVerifyCandidateCap \<le> length (sm_restPair c k))))"

definition observation_ok :: "bytes \<Rightarrow> streamMatchCache \<Rightarrow> bool" where
  "observation_ok data c \<longleftrightarrow>
     (if sm_firstPair c = None then sm_through c = 0 \<and> sm_restPair c = (\<lambda>_. [])
      else observed data (sm_through c - 1) c \<and> sm_through c \<le> length data)"

lemma cap_pos: "0 < hintVerifyCandidateCap"
  by (simp add: hintVerifyCandidateCap_def)

lemma pairs_upto_Suc:
  "pairs_upto data (Suc n) k =
     pairs_upto data n k @ (if pair_key (data ! n) (data ! (n + 1)) = k then [n] else [])"
  by (simp add: pairs_upto_def)

lemma pairs_recorded_snoc:
  assumes "pairs_recorded ps first rest"
  shows "first = None \<Longrightarrow> pairs_recorded (ps @ [n]) (Some (n + 1)) rest"
    and "first \<noteq> None \<Longrightarrow> length rest < hintVerifyCandidateCap \<Longrightarrow> pairs_recorded (ps @ [n]) first (rest @ [n + 1])"
    and "hintVerifyCandidateCap \<le> length rest \<Longrightarrow> pairs_recorded (ps @ [n]) first rest"
  using assms cap_pos by (cases ps; auto simp: pairs_recorded_def not_less)+

lemma observe_position_step:
  assumes "observed data n c" "n = start + i" "w ! i = data ! n" "w ! (i + 1) = data ! (n + 1)"
  shows "observed data (Suc n) (observe_position w start i c)"
proof -
  obtain firsts where f: "sm_firstPair c = Some firsts"
    and rec: "\<And>k. pairs_recorded (pairs_upto data n k) (firsts k) (sm_restPair c k)"
    and full: "\<And>k. k \<in> sm_restPairFull c \<longleftrightarrow> hintVerifyCandidateCap \<le> length (sm_restPair c k)"
    using assms(1) unfolding observed_def by blast
  let ?k = "pair_key (data ! n) (data ! (n + 1))"
  have other: "pairs_upto data (Suc n) k = pairs_upto data n k" if "k \<noteq> ?k" for k using that by (simp add: pairs_upto_Suc)
  have here: "pairs_upto data (Suc n) ?k = pairs_upto data n ?k @ [n]" by (simp add: pairs_upto_Suc)
  consider (full) "?k \<in> sm_restPairFull c" | (first) "?k \<notin> sm_restPairFull c" "firsts ?k = None"
    | (rest) "?k \<notin> sm_restPairFull c" "firsts ?k \<noteq> None" by blast
  then show ?thesis
  proof cases
    case full
    then have "observe_position w start i c = c" using assms by (simp add: observe_position_def Let_def)
    moreover have "pairs_recorded (pairs_upto data (Suc n) k) (firsts k) (sm_restPair c k)" for k
      using rec [of k] other [of k] here full pairs_recorded_snoc(3) [OF rec [of ?k]] assms(1)
      by (cases "k = ?k") (auto simp: \<open>\<And>k. k \<in> sm_restPairFull c \<longleftrightarrow> _\<close>)
    ultimately show ?thesis using f \<open>\<And>k. k \<in> sm_restPairFull c \<longleftrightarrow> _\<close> by (auto simp: observed_def)
  next
    case first
    have "observe_position w start i c = c\<lparr>sm_firstPair := Some (firsts(?k \<mapsto> n + 1))\<rparr>"
      using first assms f by (simp add: observe_position_def Let_def)
    moreover have "pairs_recorded (pairs_upto data (Suc n) k) ((firsts(?k \<mapsto> n + 1)) k) (sm_restPair c k)" for k
      using rec [of k] other [of k] here pairs_recorded_snoc(1) [OF rec [of ?k] first(2)] by (cases "k = ?k") auto
    ultimately show ?thesis using full by (simp add: observed_def)
  next
    case rest
    let ?r = "sm_restPair c ?k @ [n + 1]"
    obtain v where v: "firsts ?k = Some v" using rest(2) by blast
    have lt: "length (sm_restPair c ?k) < hintVerifyCandidateCap" using rest(1) full by simp
    have "observe_position w start i c =
        c\<lparr>sm_restPair := (sm_restPair c)(?k := ?r),
          sm_restPairFull := (if hintVerifyCandidateCap \<le> length ?r then insert ?k (sm_restPairFull c) else sm_restPairFull c)\<rparr>"
      using rest(1) v assms f by (simp add: observe_position_def Let_def)
    moreover have "pairs_recorded (pairs_upto data (Suc n) k) (firsts k) (((sm_restPair c)(?k := ?r)) k)" for k
      using rec [of k] other [of k] here pairs_recorded_snoc(2) [OF rec [of ?k] rest(2) lt] by (cases "k = ?k") auto
    ultimately show ?thesis using f full lt by (auto simp: observed_def)
  qed
qed

lemma observe_frame [simp]:
  "sm_through (observe_position w start i c) = sm_through c" "sm_values (observe_position w start i c) = sm_values c"
  "sm_pairIndex (observe_position w start i c) = sm_pairIndex c" "sm_byteIndex (observe_position w start i c) = sm_byteIndex c"
  by (simp_all add: observe_position_def Let_def)

lemma observe_fold:
  assumes "observed data (start + m) c" "start + length w \<le> length data" "w = slice start (start + length w) data" "m \<le> n" "n < length w"
  shows "observed data (start + n) (fold (observe_position w start) [m..<n] c)"
  using assms(4,5)
proof (induction n)
  case (Suc n)
  have nth: "w ! i = data ! (start + i)" if "i < length w" for i
    using that assms(2,3) nth_slice [of i "start + length w" start data] by simp
  show ?case
  proof (cases "m = Suc n")
    case False
    then have "observed data (start + n) (fold (observe_position w start) [m..<n] c)" using Suc by simp
    then show ?thesis using Suc.prems False observe_position_step [of data "start + n" _ start n w] nth [of n] nth [of "n + 1"] by simp
  qed (use assms(1) in simp)
qed (use assms(1) in simp)

lemma fold_observe_frame:
  "sm_through (fold (observe_position w start) is c) = sm_through c"
  "sm_values (fold (observe_position w start) is c) = sm_values c"
  "sm_pairIndex (fold (observe_position w start) is c) = sm_pairIndex c"
  "sm_byteIndex (fold (observe_position w start) is c) = sm_byteIndex c"
  by (induction "is" arbitrary: c) auto

lemma observe_window_frame [simp]:
  "sm_values (observeRawWindow src w start c) = sm_values c"
  "sm_pairIndex (observeRawWindow src w start c) = sm_pairIndex c"
  "sm_byteIndex (observeRawWindow src w start c) = sm_byteIndex c"
  by (simp_all add: observeRawWindow_def Let_def fold_observe_frame)

text \<open>A window that continues the observation, which is one that starts at the front or before the observed end.\<close>

lemma observe_window_ok:
  assumes "observation_ok data c" "start + length w \<le> length data" "w = slice start (start + length w) data"
    and "start = 0 \<or> start < sm_through c"
  shows "observation_ok data (observeRawWindow [] w start c) \<and>
    (w \<noteq> [] \<longrightarrow> sm_firstPair (observeRawWindow [] w start c) \<noteq> None \<and>
       sm_through (observeRawWindow [] w start c) = max (sm_through c) (start + length w))"
proof (cases "w = []")
  case True
  then show ?thesis using assms(1) by (simp add: observeRawWindow_def)
next
  case False
  define c0 where "c0 = (if sm_firstPair c = None then c\<lparr>sm_firstPair := Some Map.empty, sm_restPairFull := {}\<rparr> else c)"
  have c0: "observed data (sm_through c0 - 1) c0" "sm_through c0 = sm_through c" "sm_through c0 \<le> length data" "sm_firstPair c0 \<noteq> None"
    using assms(1) cap_pos by (auto simp: c0_def observation_ok_def observed_def pairs_recorded_def pairs_upto_def)
  let ?seen = "sm_through c0 - start"
  show ?thesis
  proof (cases "start < sm_through c0 \<and> length w \<le> ?seen")
    case True
    then have "observeRawWindow [] w start c = c0" using False by (simp add: observeRawWindow_def c0_def Let_def)
    then show ?thesis using c0 True by (auto simp: observation_ok_def)
  next
    case new: False
    define m where "m = (if start < sm_through c0 then ?seen - 1 else 0)"
    define c1 where "c1 = fold (observe_position w start) [m..<length w - 1] c0"
    have w: "observeRawWindow [] w start c = c1\<lparr>sm_through := max (sm_through c1) (start + length w)\<rparr>"
      using False new by (auto simp: observeRawWindow_def c0_def [symmetric] m_def c1_def Let_def)
    have m: "start + m = sm_through c0 - 1" "m \<le> length w - 1"
      using assms(4) new by (auto simp: m_def c0(2))
    have "observed data (start + (length w - 1)) c1"
      unfolding c1_def using observe_fold [of data start m c0 w "length w - 1"] c0(1) m assms(2,3) False by simp
    moreover have t: "sm_through c1 = sm_through c" by (simp add: c1_def fold_observe_frame c0(2))
    moreover have max: "max (sm_through c) (start + length w) = start + length w" using new c0(2) by auto
    moreover have "start + (length w - 1) = start + length w - 1" using False by (cases w) auto
    ultimately have o: "observed data (start + length w - 1) c1" by simp
    then have "observed data (start + length w - 1) (c1\<lparr>sm_through := start + length w\<rparr>)" "sm_firstPair c1 \<noteq> None"
      by (auto simp: observed_def)
    then show ?thesis unfolding w t max observation_ok_def using assms(2) by auto
  qed
qed

end
