(* ===== verification/StreamResolve.thy ===== *)
theory StreamResolve
  imports StreamMatch
begin

text \<open>
  Resolving the secrets of a batch of findings in a replayable source: the shared forward scan for many short
  secrets, the scan for one secret, the groups that share an index, and the choice between them
  (\<^verbatim>\<open>src/pkg/engine/engine.go\<close>: \<^verbatim>\<open>findReaderMatches\<close>, \<^verbatim>\<open>findReaderMatch\<close>, \<^verbatim>\<open>match\<close>, \<^verbatim>\<open>resolve\<close>,
  \<^verbatim>\<open>resolveIndexGroups\<close>).
\<close>

section \<open>One secret\<close>

fun commonPrefixBytes :: "bytes \<Rightarrow> bytes \<Rightarrow> bytes" where
  "commonPrefixBytes (a # as) (b # bs) = (if a = b then a # commonPrefixBytes as bs else [])"
| "commonPrefixBytes as bs = []"

function find_loop :: "stream_env \<Rightarrow> bytes \<Rightarrow> nat \<Rightarrow> nat \<Rightarrow> nat \<Rightarrow> (int \<times> nat) sm" where
  "find_loop env raw block start lineCount c =
     (if start < sv_size env then
        sm_bind (read_block env block start (sv_size env)) (\<lambda>buf c1.
          case bytes_index buf raw of
            Some i \<Rightarrow> (Inr (int (start + i), lineCount + bytes_count_newlines (take i buf)), c1)
          | None \<Rightarrow>
              if length buf < length raw then (Inr (-1, 0), c1)
              else
                let overlap = min (length raw - 1) (length buf); advance = length buf - overlap in
                if advance = 0 then (Inr (-1, 0), c1)
                else find_loop env raw block (start + advance) (lineCount + bytes_count_newlines (take advance buf)) c1) c
      else (Inr (-1, 0), c))"
  by pat_completeness auto
termination
  by (relation "measure (\<lambda>(env, raw, block, start, lineCount, c). sv_size env - start)") auto

declare find_loop.simps [simp del]

definition findReaderMatch :: "stream_env \<Rightarrow> bytes \<Rightarrow> (int \<times> nat) sm" where
  "findReaderMatch env raw =
     (if raw = [] \<or> sv_size env = 0 then sm_return (-1, 0)
      else find_loop env raw (max streamBlockSize (length raw + 1)) 0 0)"

definition set_value :: "bytes \<Rightarrow> streamMatch \<Rightarrow> unit sm" where
  "set_value raw m c = (Inr (), c\<lparr>sm_values := (sm_values c)(raw \<mapsto> m)\<rparr>)"

definition match_raw :: "stream_env \<Rightarrow> bytes \<Rightarrow> streamRawHint \<Rightarrow> streamMatch sm" where
  "match_raw env raw hint c =
     (if raw = [] then (Inr \<lparr>sm_offset = -1, sm_newlineCount = 0, sm_found = False\<rparr>, c)
      else case sm_values c raw of
        Some m \<Rightarrow> (Inr m, c)
      | None \<Rightarrow>
          sm_bind (prefixLookup env raw hint) (\<lambda>looked.
            case looked of
              Some m \<Rightarrow> sm_bind (set_value raw m) (\<lambda>_. sm_return m)
            | None \<Rightarrow>
                sm_bind (findReaderMatch env raw) (\<lambda>(off, lines).
                  let m = \<lparr>sm_offset = off, sm_newlineCount = int lines, sm_found = 0 \<le> off\<rparr> in
                  sm_bind (set_value raw m) (\<lambda>_. sm_return m))) c)"

definition lookup :: "bytes \<Rightarrow> streamMatchCache \<Rightarrow> streamMatch option" where
  "lookup raw c = (if raw = [] then None else sm_values c raw)"

section \<open>Many secrets in one pass\<close>

text \<open>A group of secrets of one length is the set of its patterns; a prefix group maps lengths to groups.\<close>

record streamRawPrefixGroup =
  pg_prefix :: bytes
  pg_byLen :: "(nat \<times> bytes list) list"

record streamRawFirstGroup =
  fg_singles :: "bytes list"
  fg_bySecond :: "byte \<rightharpoonup> streamRawPrefixGroup"

definition add_pattern :: "bytes \<Rightarrow> (nat \<times> bytes list) list \<Rightarrow> (nat \<times> bytes list) list" where
  "add_pattern raw byLen =
     AList.update (length raw) (List.insert raw (case map_of byLen (length raw) of None \<Rightarrow> [] | Some ps \<Rightarrow> ps)) byLen"

definition add_second :: "bytes \<Rightarrow> streamRawPrefixGroup option \<Rightarrow> streamRawPrefixGroup" where
  "add_second raw second =
     (case second of
        None \<Rightarrow> \<lparr>pg_prefix = raw, pg_byLen = add_pattern raw []\<rparr>
      | Some g \<Rightarrow> \<lparr>pg_prefix = commonPrefixBytes (pg_prefix g) raw, pg_byLen = add_pattern raw (pg_byLen g)\<rparr>)"

definition add_first :: "bytes \<Rightarrow> streamRawFirstGroup option \<Rightarrow> streamRawFirstGroup" where
  "add_first raw g =
     (let grp = (case g of None \<Rightarrow> \<lparr>fg_singles = [], fg_bySecond = Map.empty\<rparr> | Some grp \<Rightarrow> grp) in
      if length raw = 1 then grp\<lparr>fg_singles := List.insert raw (fg_singles grp)\<rparr>
      else grp\<lparr>fg_bySecond := (fg_bySecond grp)(raw ! 1 \<mapsto> add_second raw (fg_bySecond grp (raw ! 1)))\<rparr>)"

definition add_wanted :: "bytes \<Rightarrow> (byte \<times> streamRawFirstGroup) list \<Rightarrow> (byte \<times> streamRawFirstGroup) list" where
  "add_wanted raw firsts =
     (if raw = [] then firsts else AList.update (hd raw) (add_first raw (map_of firsts (hd raw))) firsts)"

text \<open>Recording a hit: the first one of a secret counts; the result says whether all wanted secrets are found.\<close>

definition record_hit :: "nat \<Rightarrow> bytes \<Rightarrow> nat \<Rightarrow> nat \<Rightarrow> nat \<Rightarrow> bytes \<Rightarrow> nat \<Rightarrow> (bool \<times> nat) sm" where
  "record_hit n_wanted data start lineCount off key found c =
     (if sm_values c key \<noteq> None then (Inr (False, found), c)
      else (Inr (found + 1 = n_wanted, found + 1),
            c\<lparr>sm_values := (sm_values c)(key \<mapsto> \<lparr>sm_offset = int (start + off),
                 sm_newlineCount = int (lineCount + bytes_count_newlines (take off data)), sm_found = True\<rparr>)\<rparr>))"

definition try_pattern :: "nat \<Rightarrow> bytes \<Rightarrow> nat \<Rightarrow> nat \<Rightarrow> nat \<Rightarrow> nat \<Rightarrow> bytes list \<Rightarrow> nat \<Rightarrow> (bool \<times> nat) sm" where
  "try_pattern n_wanted data start lineCount off len patterns found =
     (if length data < off + len then sm_return (False, found)
      else
        let key = slice off (off + len) data in
        if key \<in> set patterns then record_hit n_wanted data start lineCount off key found else sm_return (False, found))"

fun lengths_loop :: "nat \<Rightarrow> bytes \<Rightarrow> nat \<Rightarrow> nat \<Rightarrow> nat \<Rightarrow> (nat \<times> bytes list) list \<Rightarrow> nat \<Rightarrow> (bool \<times> nat) sm" where
  "lengths_loop n_wanted data start lineCount off [] found = sm_return (False, found)"
| "lengths_loop n_wanted data start lineCount off ((len, patterns) # rest) found =
     sm_bind (try_pattern n_wanted data start lineCount off len patterns found) (\<lambda>(finished, found1).
       if finished then sm_return (True, found1) else lengths_loop n_wanted data start lineCount off rest found1)"

definition visit_offset ::
  "stream_env \<Rightarrow> nat \<Rightarrow> bytes \<Rightarrow> nat \<Rightarrow> nat \<Rightarrow> streamRawFirstGroup \<Rightarrow> nat \<Rightarrow> nat \<Rightarrow> (bool \<times> nat) sm" where
  "visit_offset env n_wanted data start lineCount grp off found =
     sm_bind (try_pattern n_wanted data start lineCount off 1 (fg_singles grp) found) (\<lambda>(finished, found1).
       if finished then sm_return (True, found1)
       else if length data \<le> off + 1 then sm_return (False, found1)
       else case fg_bySecond grp (data ! (off + 1)) of
         None \<Rightarrow> sm_return (False, found1)
       | Some second \<Rightarrow>
           let prefixEnd = off + length (pg_prefix second) in
           if length data < prefixEnd \<or> slice off prefixEnd data \<noteq> pg_prefix second then sm_return (False, found1)
           else (\<lambda>c. lengths_loop n_wanted data start lineCount off (range_order env c (pg_byLen second)) found1 c))"

text \<open>All hits of one first byte in a block. The results are: all secrets found, the secrets found, the hits so far.\<close>

function hits_loop ::
  "stream_env \<Rightarrow> nat \<Rightarrow> bytes \<Rightarrow> nat \<Rightarrow> nat \<Rightarrow> byte \<Rightarrow> streamRawFirstGroup \<Rightarrow> nat \<Rightarrow> nat \<Rightarrow> nat \<Rightarrow> (bool \<times> nat \<times> nat) sm" where
  "hits_loop env n_wanted data start lineCount first grp pos found hits c =
     (case (if pos < length data then bytes_index (drop pos data) [first] else None) of
        None \<Rightarrow> (Inr (False, found, hits), c)
      | Some i \<Rightarrow>
          let off = i + pos; hits1 = hits + 1 in
          sm_bind (if hits1 mod 256 = 0 then sm_poll env else sm_return ()) (\<lambda>_.
            sm_bind (visit_offset env n_wanted data start lineCount grp off found) (\<lambda>(finished, found1) c1.
              if finished then (Inr (True, found1, hits1), c1)
              else hits_loop env n_wanted data start lineCount first grp (off + 1) found1 hits1 c1)) c)"
  by pat_completeness auto
termination
  by (relation "measure (\<lambda>(env, n_wanted, data, start, lineCount, first, grp, pos, found, hits, c). length data - pos)")
    (auto split: if_splits)

declare hits_loop.simps [simp del]

fun firsts_loop ::
  "stream_env \<Rightarrow> nat \<Rightarrow> bytes \<Rightarrow> nat \<Rightarrow> nat \<Rightarrow> (byte \<times> streamRawFirstGroup) list \<Rightarrow> nat \<Rightarrow> nat \<Rightarrow> (bool \<times> nat \<times> nat) sm" where
  "firsts_loop env n_wanted data start lineCount [] found hits = sm_return (False, found, hits)"
| "firsts_loop env n_wanted data start lineCount ((first, grp) # rest) found hits =
     sm_bind (hits_loop env n_wanted data start lineCount first grp 0 found hits) (\<lambda>(finished, found1, hits1).
       if finished then sm_return (True, found1, hits1)
       else firsts_loop env n_wanted data start lineCount rest found1 hits1)"

function matches_loop ::
  "stream_env \<Rightarrow> nat \<Rightarrow> (byte \<times> streamRawFirstGroup) list \<Rightarrow> nat \<Rightarrow> nat \<Rightarrow> nat \<Rightarrow> nat \<Rightarrow> nat \<Rightarrow> unit sm" where
  "matches_loop env n_wanted firsts overlap start lineCount found hits c =
     (if start < sv_size env then
        sm_bind (read_block env (streamBlockSize + overlap) start (sv_size env)) (\<lambda>data.
          sm_bind (\<lambda>c1. firsts_loop env n_wanted data start lineCount (range_order env c1 firsts) found hits c1)
            (\<lambda>(finished, found1, hits1) c2.
              if finished \<or> start + length data = sv_size env then (Inr (), c2)
              else
                let advance = length data - overlap in
                if advance = 0 then (Inl SUnexpectedEOF, c2)
                else matches_loop env n_wanted firsts overlap (start + advance)
                       (lineCount + bytes_count_newlines (take advance data)) found1 hits1 c2)) c
      else (Inr (), c))"
  by pat_completeness auto
termination
  by (relation "measure (\<lambda>(env, n_wanted, firsts, overlap, start, lineCount, found, hits, c). sv_size env - start)") auto

declare matches_loop.simps [simp del]

definition mark_absent :: "bytes \<Rightarrow> streamMatchCache \<Rightarrow> streamMatchCache" where
  "mark_absent raw c = (if sm_values c raw = None then c\<lparr>sm_values := (sm_values c)(raw \<mapsto> absent_match)\<rparr> else c)"

definition findReaderMatches :: "stream_env \<Rightarrow> bytes list \<Rightarrow> unit sm" where
  "findReaderMatches env wanted =
     (let maxLength = fold max (map length wanted) 0 in
      if maxLength = 0 then sm_return ()
      else
        sm_bind (\<lambda>c. matches_loop env (length wanted) (fold add_wanted (range_order env c wanted) []) (maxLength - 1) 0 0 0 0 c)
          (\<lambda>_. sm_bind (sm_poll env) (\<lambda>_ c. (Inr (), fold mark_absent wanted c))))"

section \<open>Groups that share a prefix index\<close>

fun lengths_at :: "stream_env \<Rightarrow> streamPrefixIndex \<Rightarrow> nat \<Rightarrow> bytes \<Rightarrow> (nat \<times> bytes list) list \<Rightarrow> int \<Rightarrow> int sm" where
  "lengths_at env index i common_prefix [] remaining = sm_return remaining"
| "lengths_at env index i common_prefix ((len, patterns) # rest) remaining =
     sm_bind (indexCandidateAt env index i (ix_positions index ! i) len common_prefix) (\<lambda>candidate c.
       case candidate of
         None \<Rightarrow> lengths_at env index i common_prefix rest remaining c
       | Some key \<Rightarrow>
           if key \<in> set patterns \<and> sm_values c key = None
           then lengths_at env index i common_prefix rest (remaining - 1)
                  (c\<lparr>sm_values := (sm_values c)(key \<mapsto> \<lparr>sm_offset = int (ix_positions index ! i),
                       sm_newlineCount = int (ix_newlines index ! i), sm_found = True\<rparr>)\<rparr>)
           else lengths_at env index i common_prefix rest remaining c)"

fun positions_loop :: "stream_env \<Rightarrow> streamPrefixIndex \<Rightarrow> bytes \<Rightarrow> (nat \<times> bytes list) list \<Rightarrow> nat list \<Rightarrow> int \<Rightarrow> unit sm" where
  "positions_loop env index common_prefix lengths [] remaining = sm_return ()"
| "positions_loop env index common_prefix lengths (i # is) remaining =
     (if remaining = 0 then sm_return ()
      else sm_bind (sm_poll env) (\<lambda>_. sm_bind (lengths_at env index i common_prefix lengths remaining)
             (positions_loop env index common_prefix lengths is)))"

definition common_prefix_of :: "bytes list \<Rightarrow> bytes" where
  "common_prefix_of keys = (case keys of [] \<Rightarrow> [] | key # rest \<Rightarrow> fold (\<lambda>k p. commonPrefixBytes p k) rest key)"

definition resolve_group :: "stream_env \<Rightarrow> streamPrefixIndex \<Rightarrow> bytes list \<Rightarrow> unit sm" where
  "resolve_group env index keys =
     (let lengths = sort_key fst (fold add_pattern keys []) in
      sm_bind (positions_loop env index (common_prefix_of keys) lengths [0..<length (ix_positions index)] (int (length keys)))
        (\<lambda>_ c. (Inr (), fold mark_absent keys c)))"

fun index_groups_loop :: "stream_env \<Rightarrow> (nat \<rightharpoonup> streamPrefixIndex) \<Rightarrow> (nat \<times> bytes list) list \<Rightarrow> bytes list \<Rightarrow> bytes list sm" where
  "index_groups_loop env indexes [] short = sm_return short"
| "index_groups_loop env indexes ((k, keys) # rest) short =
     sm_bind (sm_poll env) (\<lambda>_.
       case indexes k of
         None \<Rightarrow> index_groups_loop env indexes rest (fold List.insert keys short)
       | Some index \<Rightarrow> sm_bind (resolve_group env index keys) (\<lambda>_. index_groups_loop env indexes rest short))"

definition resolveIndexGroups :: "stream_env \<Rightarrow> (nat \<times> bytes list) list \<Rightarrow> bytes list \<Rightarrow> bytes list sm" where
  "resolveIndexGroups env groups short c =
     sm_bind (prefixIndexes env (range_order env c (map fst groups)))
       (\<lambda>indexes c1. index_groups_loop env indexes (range_order env c1 groups) short c1) c"

section \<open>A batch\<close>

text \<open>The first pass over a batch: the hint of each new secret, the short ones by prefix, the long ones.\<close>

record batch_plan =
  pl_hints :: "(bytes \<times> streamRawHint) list"
  pl_groups :: "(nat \<times> bytes list) list"
  pl_long :: "bytes list"

definition zero_hint :: streamRawHint where
  "zero_hint = \<lparr>hint_offset = 0, hint_newlines = 0, hint_ok = False\<rparr>"

definition plan_raw :: "(bytes \<rightharpoonup> streamMatch) \<Rightarrow> bytes \<times> streamRawHint \<Rightarrow> batch_plan \<Rightarrow> batch_plan" where
  "plan_raw resolved = (\<lambda>(raw, hint) pl.
     if raw = [] \<or> resolved raw \<noteq> None then pl
     else
       let previous = map_of (pl_hints pl) raw;
           pl1 = (case previous of
                    None \<Rightarrow> pl\<lparr>pl_hints := AList.update raw hint (pl_hints pl)\<rparr>
                  | Some h \<Rightarrow> if \<not> hint_ok h \<and> hint_ok hint then pl\<lparr>pl_hints := AList.update raw hint (pl_hints pl)\<rparr> else pl) in
       if length raw \<le> streamBatchMaxRaw then
         if previous = None
         then pl1\<lparr>pl_groups := AList.update (group_key raw)
                   ((case map_of (pl_groups pl1) (group_key raw) of None \<Rightarrow> [] | Some keys \<Rightarrow> keys) @ [raw]) (pl_groups pl1)\<rparr>
         else pl1
       else pl1\<lparr>pl_long := pl_long pl1 @ [raw]\<rparr>)"

definition with_hints :: "bytes list \<Rightarrow> streamRawHint list \<Rightarrow> (bytes \<times> streamRawHint) list" where
  "with_hints raws hints = zip raws (take (length raws) (hints @ replicate (length raws) zero_hint))"

definition prefixListFull :: "bytes \<Rightarrow> streamMatchCache \<Rightarrow> bool" where
  "prefixListFull raw c =
     (let (key, single) = prefixKey raw in
      if single \<or> sm_firstPair c = None then False else hintVerifyCandidateCap \<le> length (sm_restPair c key))"

fun sparse_group :: "stream_env \<Rightarrow> (bytes \<times> streamRawHint) list \<Rightarrow> bytes list \<Rightarrow> bytes list \<Rightarrow> bytes list sm" where
  "sparse_group env hints [] short c = (Inr short, c)"
| "sparse_group env hints (key # keys) short c =
     (if prefixListFull key c then sparse_group env hints keys (List.insert key short) c
      else sm_bind (prefixLookup env key (case map_of hints key of None \<Rightarrow> zero_hint | Some h \<Rightarrow> h)) (\<lambda>looked c1.
        case looked of
          Some m \<Rightarrow> sparse_group env hints keys short (c1\<lparr>sm_values := (sm_values c1)(key \<mapsto> m)\<rparr>)
        | None \<Rightarrow> sparse_group env hints keys (List.insert key short) c1) c)"

text \<open>The groups too small to pay for an index are looked up by their hints; the others are kept.\<close>

fun sparse_groups ::
  "stream_env \<Rightarrow> (bytes \<times> streamRawHint) list \<Rightarrow> (nat \<times> bytes list) list \<Rightarrow> (nat \<times> bytes list) list \<Rightarrow> bytes list \<Rightarrow>
     ((nat \<times> bytes list) list \<times> bytes list) sm" where
  "sparse_groups env hints [] dense short c = (Inr (dense, short), c)"
| "sparse_groups env hints ((k, keys) # rest) dense short c =
     (if streamIndexGroupMinRaws \<le> sm_groupCounts c k + length keys \<or> indexFor k c \<noteq> None
      then sparse_groups env hints rest (dense @ [(k, keys)]) short c
      else sm_bind (sparse_group env hints keys short) (\<lambda>short1. sparse_groups env hints rest dense short1) c)"

definition count_raw :: "bytes \<Rightarrow> streamMatchCache \<Rightarrow> streamMatchCache" where
  "count_raw raw c =
     (if streamBatchMaxRaw < length raw then c
      else c\<lparr>sm_groupCounts := (sm_groupCounts c)(group_key raw := sm_groupCounts c (group_key raw) + 1)\<rparr>)"

fun match_long :: "stream_env \<Rightarrow> (bytes \<times> streamRawHint) list \<Rightarrow> bytes list \<Rightarrow> unit sm" where
  "match_long env hints [] = sm_return ()"
| "match_long env hints (raw # raws) =
     sm_bind (match_raw env raw (case map_of hints raw of None \<Rightarrow> zero_hint | Some h \<Rightarrow> h)) (\<lambda>_. match_long env hints raws)"

definition resolve :: "stream_env \<Rightarrow> bytes list \<Rightarrow> streamRawHint list \<Rightarrow> unit sm" where
  "resolve env raws hints c =
     (let pl = fold (plan_raw (sm_values c)) (with_hints raws hints) \<lparr>pl_hints = [], pl_groups = [], pl_long = []\<rparr> in
      sm_bind (sparse_groups env (pl_hints pl) (range_order env c (pl_groups pl)) [] []) (\<lambda>(dense, short).
        sm_bind (resolveIndexGroups env dense short) (\<lambda>short1.
          sm_bind (findReaderMatches env short1) (\<lambda>_.
            sm_bind (\<lambda>c1. (Inr (), fold count_raw (map fst (pl_hints pl)) c1)) (\<lambda>_.
              match_long env (pl_hints pl) (pl_long pl))))) c)"

end
