(* ===== verification/StreamCorrect.thy ===== *)
theory StreamCorrect
  imports StreamObserve StreamResolve
begin

text \<open>
  The rules for computations over the stream match cache, and the operations that look up one secret. An outcome is
  \<^emph>\<open>fine\<close> when, with and without an error, the cache is still sound, nothing observed changed and no value was forgotten or altered.
\<close>

section \<open>Sound caches and fine outcomes\<close>

definition has_key :: "bytes \<Rightarrow> nat \<Rightarrow> nat \<Rightarrow> bool" where
  "has_key data k p \<longleftrightarrow>
     (if single_bit k then of_char (data ! p) = k mod 256
      else p + 1 < length data \<and> pair_key (data ! p) (data ! (p + 1)) = k mod 65536)"

definition index_ok :: "bytes \<Rightarrow> nat \<Rightarrow> streamPrefixIndex \<Rightarrow> bool" where
  "index_ok data k index \<longleftrightarrow>
     ix_positions index = filter (has_key data k) [0..<length data] \<and>
     ix_newlines index = map (\<lambda>p. bytes_count_newlines (take p data)) (ix_positions index) \<and>
     length (ix_samples index) \<le> length (ix_positions index) \<and>
     (\<forall>i < length (ix_samples index). prefix (ix_samples index ! i) (drop (ix_positions index ! i) data))"

definition values_ok :: "bytes \<Rightarrow> streamMatchCache \<Rightarrow> bool" where
  "values_ok data c \<longleftrightarrow> (\<forall>raw m. sm_values c raw = Some m \<longrightarrow> m = first_match data raw)"

definition indexes_ok :: "bytes \<Rightarrow> streamMatchCache \<Rightarrow> bool" where
  "indexes_ok data c \<longleftrightarrow> (\<forall>k index. indexFor k c = Some index \<longrightarrow> index_ok data k index)"

definition cache_ok :: "bytes \<Rightarrow> streamMatchCache \<Rightarrow> bool" where
  "cache_ok data c \<longleftrightarrow> values_ok data c \<and> observation_ok data c \<and> indexes_ok data c"

definition observation :: "streamMatchCache \<Rightarrow> (nat \<rightharpoonup> nat) option \<times> (nat \<Rightarrow> nat list) \<times> nat set \<times> nat \<times> bool \<times> bool" where
  "observation c = (sm_firstPair c, sm_restPair c, sm_restPairFull c, sm_through c, sm_active c, sm_disabled c)"

definition later :: "bytes \<Rightarrow> streamMatchCache \<Rightarrow> streamMatchCache \<Rightarrow> bool" where
  "later data c c' \<longleftrightarrow> cache_ok data c' \<and> observation c' = observation c \<and> sm_values c \<subseteq>\<^sub>m sm_values c'"

text \<open>A source is reliable when its reads are complete and the context is never cancelled; then no operation fails.\<close>

definition reliable :: "stream_env \<Rightarrow> bytes \<Rightarrow> bool" where
  "reliable env data \<longleftrightarrow> (\<forall>t. \<not> sv_cancelled env t) \<and>
     (\<forall>t off n got err. off + n \<le> length data \<and> sv_reader env t off n = (got, err) \<longrightarrow> length got = n \<and> err \<in> {None, Some EOF})"

definition fine ::
  "stream_env \<Rightarrow> bytes \<Rightarrow> streamMatchCache \<Rightarrow> (stream_err + 'a) \<times> streamMatchCache \<Rightarrow> ('a \<Rightarrow> streamMatchCache \<Rightarrow> bool) \<Rightarrow> bool" where
  "fine env data c r Q \<longleftrightarrow>
     (cache_ok data c \<longrightarrow>
       (case r of
          (Inl e, c') \<Rightarrow> later data c c' \<and> \<not> reliable env data
        | (Inr x, c') \<Rightarrow> later data c c' \<and> Q x c'))"

lemma later_refl [simp]: "later data c c \<longleftrightarrow> cache_ok data c"
  by (simp add: later_def)

lemma later_trans: "later data c c1 \<Longrightarrow> later data c1 c2 \<Longrightarrow> later data c c2"
  unfolding later_def by (metis map_le_trans)

lemma later_ok: "later data c c' \<Longrightarrow> cache_ok data c'"
  by (simp add: later_def)

lemma later_known: "later data c c' \<Longrightarrow> sm_values c raw = Some m \<Longrightarrow> sm_values c' raw = Some m"
  unfolding later_def map_le_def by (metis domI)

lemma values_tick [simp]: "values_ok data (c\<lparr>sm_tick := t\<rparr>) = values_ok data c"
  by (simp add: values_ok_def)

lemma cache_tick [simp]: "cache_ok data (c\<lparr>sm_tick := t\<rparr>) = cache_ok data c"
  by (simp add: cache_ok_def indexes_ok_def indexFor_def observation_ok_def observed_def cong: if_cong)

lemma later_tick [simp]: "later data c (c\<lparr>sm_tick := t\<rparr>) = cache_ok data c"
  by (simp add: later_def observation_def)

lemma fine_value: "(cache_ok data c \<Longrightarrow> Q x c) \<Longrightarrow> fine env data c (Inr x, c) Q"
  by (simp add: fine_def)

lemma fine_return: "(cache_ok data c \<Longrightarrow> Q x c) \<Longrightarrow> fine env data c (sm_return x c) Q"
  by (simp add: fine_def sm_return_def)

lemma fine_assume: "(cache_ok data c \<Longrightarrow> fine env data c r Q) \<Longrightarrow> fine env data c r Q"
  by (auto simp: fine_def)

lemma fine_bind:
  assumes "fine env data c (m c) P"
    and "\<And>x c'. m c = (Inr x, c') \<Longrightarrow> later data c c' \<Longrightarrow> P x c' \<Longrightarrow> fine env data c' (f x c') Q"
  shows "fine env data c (sm_bind m f c) Q"
proof (cases "m c")
  case (Pair r c1)
  show ?thesis
  proof (cases r)
    case (Inl e)
    then show ?thesis using assms(1) Pair by (simp add: fine_def sm_bind_def)
  next
    case (Inr x)
    show ?thesis
    proof (cases "cache_ok data c")
      case True
      then have l: "later data c c1" "P x c1" using assms(1) Pair Inr by (simp_all add: fine_def)
      then have "fine env data c1 (f x c1) Q" using assms(2) Pair Inr by blast
      then show ?thesis using Pair Inr l later_ok [OF l(1)] later_trans [OF l(1)]
        by (auto simp: fine_def sm_bind_def split: sum.splits prod.splits)
    qed (simp add: fine_def)
  qed
qed

lemma fine_weaken:
  assumes "fine env data c r P" "\<And>x c'. later data c c' \<Longrightarrow> P x c' \<Longrightarrow> Q x c'"
  shows "fine env data c r Q"
  using assms by (auto simp: fine_def split: sum.splits prod.splits)

lemma fine_from:
  assumes "later data c c1" "fine env data c1 r Q"
  shows "fine env data c r Q"
  using assms later_ok [OF assms(1)] later_trans [OF assms(1)] by (auto simp: fine_def split: sum.splits prod.splits)

section \<open>Reads\<close>

lemma fine_poll: "fine env data c (sm_poll env c) (\<lambda>_ c'. True)"
  by (auto simp: fine_def sm_poll_def reliable_def)

lemma fine_read:
  assumes "truthful env data" "off + n \<le> length data"
  shows "fine env data c (read_exact env off n c) (\<lambda>got c'. got = slice off (off + n) data)"
proof -
  obtain got err where r: "sv_reader env (sm_tick c) off n = (got, err)" by fastforce
  show ?thesis
  proof (cases "length got = n \<and> err \<in> {None, Some EOF}")
    case True
    then have "got = slice off (off + n) data" using assms r unfolding truthful_def by blast
    then show ?thesis using True r by (auto simp: fine_def read_exact_def)
  next
    case False
    then have "\<not> reliable env data" using assms(2) r unfolding reliable_def by blast
    then show ?thesis using False r by (auto simp: fine_def read_exact_def split: option.splits read_err.splits)
  qed
qed

lemma truthful_size: "truthful env data \<Longrightarrow> sv_size env = length data"
  by (simp add: truthful_def)

lemma occurs_le: "occurs_at data raw j \<Longrightarrow> j + length raw \<le> length data"
  by (simp add: occurs_at_def)

text \<open>A block of the source against the source.\<close>

definition block_of :: "bytes \<Rightarrow> nat \<Rightarrow> bytes \<Rightarrow> bool" where
  "block_of data start buf \<longleftrightarrow> start + length buf \<le> length data \<and> buf = slice start (start + length buf) data"

lemma block_occurs:
  assumes "block_of data start buf" "start \<le> j" "j + length raw \<le> start + length buf"
  shows "occurs_at buf raw (j - start) \<longleftrightarrow> occurs_at data raw j"
  using assms occurs_at_slice [of start j raw "start + length buf" data] unfolding block_of_def by metis

lemma block_newlines:
  assumes "block_of data start buf" "n \<le> length buf"
  shows "bytes_count_newlines (take start data) + bytes_count_newlines (take n buf) = bytes_count_newlines (take (start + n) data)"
proof -
  have "take n buf = take n (drop start data)"
    using assms unfolding block_of_def slice_def by (metis add_diff_cancel_left' min_absorb1 take_take)
  then show ?thesis by (simp add: newlines_take_add)
qed

lemma block_nth: "block_of data start buf \<Longrightarrow> i < length buf \<Longrightarrow> buf ! i = data ! (start + i)"
  unfolding block_of_def by (metis add_diff_cancel_left' nth_slice)

lemma fine_block:
  assumes "truthful env data" "start < fin" "fin \<le> length data"
  shows "fine env data c (read_block env buffer start fin c)
    (\<lambda>got c'. length got = min buffer (fin - start) \<and> block_of data start got)"
proof -
  let ?n = "min buffer (fin - start)"
  have le: "start + ?n \<le> length data" using assms(2,3) by auto
  then have len: "length (slice start (start + ?n) data) = ?n" by simp
  have r: "fine env data c1 (read_exact env start ?n c1) (\<lambda>got c'. length got = ?n \<and> block_of data start got)" for c1
    by (rule fine_weaken [OF fine_read [OF assms(1) le]]) (use le in \<open>simp only: block_of_def len\<close>)
  show ?thesis unfolding read_block_def by (rule fine_bind, rule fine_poll, rule r)
qed

section \<open>One secret by a forward scan\<close>

lemma find_loop_fine:
  assumes "truthful env data" "raw \<noteq> []" "length raw < block" "start \<le> length data" "\<forall>j < start. \<not> occurs_at data raw j"
    and "lineCount = bytes_count_newlines (take start data)"
  shows "fine env data c (find_loop env raw block start lineCount c)
      (\<lambda>(off, lines) c'. \<lparr>sm_offset = off, sm_newlineCount = int lines, sm_found = 0 \<le> off\<rparr> = first_match data raw)"
  using assms
proof (induction env raw block start lineCount c rule: find_loop.induct)
  case (1 env raw block start lineCount c)
  have none: "\<lparr>sm_offset = -1, sm_newlineCount = int 0, sm_found = 0 \<le> (-1 :: int)\<rparr> = first_match data raw"
    if "\<And>j. \<not> occurs_at data raw j" using that first_match_absent [of data raw] by (simp add: absent_match_def)
  have pos: "0 < length raw" using "1.prems"(2) by simp
  have before: "start \<le> j" if "occurs_at data raw j" for j using that "1.prems"(5) not_le by blast
  show ?case
  proof (cases "start < sv_size env")
    case False
    have "\<not> occurs_at data raw j" for j
    proof
      assume occ: "occurs_at data raw j"
      show False using before [OF occ] occurs_le [OF occ] False truthful_size [OF "1.prems"(1)] pos by simp
    qed
    from none [OF this] show ?thesis
      unfolding find_loop.simps [of env raw block start lineCount c] if_not_P [OF False] by (simp add: fine_value)
  next
    case True
    show ?thesis
      unfolding find_loop.simps [of env raw block start lineCount c] if_P [OF True]
    proof (rule fine_bind)
      show "fine env data c (read_block env block start (sv_size env) c)
          (\<lambda>got c'. length got = min block (sv_size env - start) \<and> block_of data start got)"
        using fine_block [OF "1.prems"(1) True] truthful_size [OF "1.prems"(1)] by simp
    next
      fix buf c1
      assume r: "read_block env block start (sv_size env) c = (Inr buf, c1)" and "later data c c1"
        and b: "length buf = min block (sv_size env - start) \<and> block_of data start buf"
      have inside: "occurs_at buf raw (j - start) \<longleftrightarrow> occurs_at data raw j" if "start \<le> j" "j + length raw \<le> start + length buf" for j
        using block_occurs [OF conjunct2 [OF b] that] .
      show "fine env data c1 (case bytes_index buf raw of
          None \<Rightarrow> if length buf < length raw then (Inr (-1, 0), c1)
            else let overlap = min (length raw - 1) (length buf); advance = length buf - overlap in
              if advance = 0 then (Inr (-1, 0), c1)
              else find_loop env raw block (start + advance) (lineCount + bytes_count_newlines (take advance buf)) c1
        | Some i \<Rightarrow> (Inr (int (start + i), lineCount + bytes_count_newlines (take i buf)), c1))
        (\<lambda>(off, lines) c'. \<lparr>sm_offset = off, sm_newlineCount = int lines, sm_found = 0 \<le> off\<rparr> = first_match data raw)"
      proof (cases "bytes_index buf raw")
        case (Some i)
        then have i: "occurs_at buf raw i" "\<And>j. j < i \<Longrightarrow> \<not> occurs_at buf raw j" by (auto simp: bytes_index_Some)
        then have len: "i + length raw \<le> length buf" by (simp add: occurs_at_def)
        have "occurs_at data raw (start + i)" using inside [of "start + i"] i(1) len by simp
        moreover have "\<not> occurs_at data raw j" if "j < start + i" for j
        proof
          assume occ: "occurs_at data raw j"
          show False using before [OF occ] inside [of j] i(2) [of "j - start"] occ that len by simp
        qed
        moreover have "lineCount + bytes_count_newlines (take i buf) = bytes_count_newlines (take (start + i) data)"
          using block_newlines [OF conjunct2 [OF b], of i] "1.prems"(6) len by simp
        ultimately have "first_match data raw =
            \<lparr>sm_offset = int (start + i), sm_newlineCount = int (lineCount + bytes_count_newlines (take i buf)), sm_found = True\<rparr>"
          using first_match_at [of data raw "start + i"] by simp
        then show ?thesis using Some by (simp add: fine_value)
      next
        case None
        then have absent: "\<not> occurs_at buf raw j" for j by (simp add: bytes_index_None)
        show ?thesis
        proof (cases "length buf < length raw")
          case short: True
          have "\<not> occurs_at data raw j" for j
          proof
            assume occ: "occurs_at data raw j"
            show False using before [OF occ] occurs_le [OF occ] short b "1.prems"(3) truthful_size [OF "1.prems"(1)] by simp
          qed
          then show ?thesis using None short none by (simp add: fine_value)
        next
          case long: False
          let ?advance = "length buf - (length raw - 1)"
          have adv: "min (length raw - 1) (length buf) = length raw - 1" "0 < ?advance" "?advance \<le> length buf"
            using long "1.prems"(2) by (auto simp flip: length_greater_0_conv)
          have ahead: "\<not> occurs_at data raw j" if "j < start + ?advance" for j
          proof
            assume occ: "occurs_at data raw j"
            have "j + length raw \<le> start + length buf" using that long pos by arith
            then show False using before [OF occ] inside [of j] absent [of "j - start"] occ by simp
          qed
          have "start + length buf \<le> length data" using b unfolding block_of_def by blast
          then have "start + ?advance \<le> length data" using adv(3) by linarith
          then have "fine env data c1 (find_loop env raw block (start + ?advance) (lineCount + bytes_count_newlines (take ?advance buf)) c1)
              (\<lambda>(off, lines) c'. \<lparr>sm_offset = off, sm_newlineCount = int lines, sm_found = 0 \<le> off\<rparr> = first_match data raw)"
            using "1.IH" [OF True r None long refl refl] adv ahead block_newlines [OF conjunct2 [OF b] adv(3)] "1.prems"
            by (simp add: Let_def)
          then show ?thesis using None long adv by (simp add: Let_def)
        qed
      qed
    qed
  qed
qed

lemma findReaderMatch_fine:
  assumes "truthful env data" "raw \<noteq> []"
  shows "fine env data c (findReaderMatch env raw c)
      (\<lambda>(off, lines) c'. \<lparr>sm_offset = off, sm_newlineCount = int lines, sm_found = 0 \<le> off\<rparr> = first_match data raw)"
proof (cases "sv_size env = 0")
  case True
  have "first_match data raw = absent_match"
    using truthful_size [OF assms(1)] True assms(2) by (intro first_match_absent) (auto simp: occurs_at_def)
  then show ?thesis using True by (simp add: findReaderMatch_def fine_return absent_match_def)
next
  case False
  then show ?thesis using find_loop_fine [OF assms, of "max streamBlockSize (length raw + 1)" 0 0 c] assms(2)
    by (simp add: findReaderMatch_def)
qed

end
