(* ===== verification/StreamIndex.thy ===== *)
theory StreamIndex
  imports StreamCorrect
begin

text \<open>
  The complete prefix indexes: one pass over the source records every position of every requested prefix, by the byte-wise pass or by
  the search for a single prefix, and the lookups that use an index or the observed pairs give the first occurrence.
\<close>

section \<open>Keys\<close>

definition canonical :: "nat \<Rightarrow> bool" where
  "canonical k \<longleftrightarrow> k < 65536 \<or> (65536 \<le> k \<and> k < 65536 + 256)"

lemma pair_key_less: "pair_key a b < 65536"
  using of_char_less_256 [of a] of_char_less_256 [of b] unfolding pair_key_def by linarith

lemma pair_key_eq_iff:
  assumes "n < 65536"
  shows "pair_key a b = n \<longleftrightarrow> a = char_of (n div 256) \<and> b = char_of (n mod 256)"
proof -
  have "n div 256 < 256" using assms by (simp add: less_mult_imp_div_less)
  then have d: "(of_char (char_of (n div 256) :: char) :: nat) = n div 256" "(of_char (char_of (n mod 256) :: char) :: nat) = n mod 256"
    by simp_all
  have "(of_char a * 256 + of_char b :: nat) div 256 = of_char a" "(of_char a * 256 + of_char b :: nat) mod 256 = of_char b"
    using of_char_less_256 [of b] by simp_all
  then show ?thesis unfolding pair_key_def char_eq_of_char d by (metis div_mult_mod_eq)
qed

lemma canonical_group_key: "canonical (group_key raw)"
  using pair_key_less
  by (cases raw rule: prefixKey.cases) (auto simp: group_key_def canonical_def indexGroupSingleBit_def intro: of_char_less_256)

lemma single_bit_canonical: "canonical k \<Longrightarrow> single_bit k \<longleftrightarrow> 65536 \<le> k"
  by (auto simp: canonical_def single_bit_def indexGroupSingleBit_def div_nat_eqI)

lemma has_key_cong:
  "single_bit k = single_bit k' \<Longrightarrow> (single_bit k \<Longrightarrow> k mod 256 = k' mod 256) \<Longrightarrow> (\<not> single_bit k \<Longrightarrow> k mod 65536 = k' mod 65536) \<Longrightarrow>
   has_key data k = has_key data k'"
  by (auto simp: has_key_def fun_eq_iff)

lemma group_key_has:
  assumes "occurs_at data raw p" "raw \<noteq> []"
  shows "has_key data (group_key raw) p \<and> p < length data"
proof (cases raw rule: prefixKey.cases)
  case (1 a b rest)
  then have "data ! p = a" "data ! (p + 1) = b" "p + 1 < length data"
    using assms(1) by (auto simp: occurs_at_def dest!: arg_cong [where f = "\<lambda>xs. (xs ! 0, xs ! 1)"])
  then show ?thesis using 1 pair_key_less [of a b]
    by (simp add: has_key_def group_key_def single_bit_canonical [unfolded canonical_def])
next
  case (2 a)
  then have "data ! p = a" "p < length data"
    using assms(1) by (auto simp: occurs_at_def dest!: arg_cong [where f = "\<lambda>xs. xs ! 0"])
  moreover have "(n + 65536) mod 256 = n" if "n < 256" for n :: nat using that mod_mult_self2 [of n 256 256] by simp
  ultimately show ?thesis using 2 of_char_less_256 [of a]
    by (simp add: has_key_def group_key_def indexGroupSingleBit_def single_bit_canonical [unfolded canonical_def])
qed (use assms in simp)

section \<open>Recording positions\<close>

definition samples_full :: "index_build \<Rightarrow> bool" where
  "samples_full b \<longleftrightarrow> streamPrefixIndexSampleBytes < bd_samples b + streamPrefixIndexSampleLen"

definition index_part :: "bytes \<Rightarrow> nat list \<Rightarrow> bool \<Rightarrow> streamPrefixIndex \<Rightarrow> bool" where
  "index_part data ps full index \<longleftrightarrow>
     ix_positions index = ps \<and> ix_newlines index = map (\<lambda>p. bytes_count_newlines (take p data)) ps \<and>
     (length (ix_samples index) = length ps \<or> full \<and> length (ix_samples index) \<le> length ps) \<and>
     (\<forall>i < length (ix_samples index). prefix (ix_samples index ! i) (drop (ps ! i) data))"

definition built :: "bytes \<Rightarrow> nat set \<Rightarrow> (nat \<Rightarrow> nat list) \<Rightarrow> index_build \<Rightarrow> bool" where
  "built data keys ps b \<longleftrightarrow> dom (bd_indexes b) = keys \<and>
     (\<forall>k index. bd_indexes b k = Some index \<longrightarrow> index_part data (ps k) (samples_full b) index)"

definition key_positions :: "bytes \<Rightarrow> nat \<Rightarrow> nat \<Rightarrow> nat list" where
  "key_positions data n k = filter (has_key data k) [0..<n]"

lemma key_positions_Suc: "key_positions data (Suc n) k = key_positions data n k @ (if has_key data k n then [n] else [])"
  by (simp add: key_positions_def)

lemma key_positions_skip:
  assumes "m \<le> n" "\<And>i. m \<le> i \<Longrightarrow> i < n \<Longrightarrow> \<not> has_key data k i"
  shows "key_positions data n k = key_positions data m k"
  using assms
proof (induction n)
  case (Suc n)
  then show ?case by (cases "m = Suc n") (auto simp: key_positions_Suc)
qed simp

lemma block_sample:
  assumes "block_of data start w" "j \<le> m" "m \<le> length w"
  shows "prefix (slice j m w) (drop (start + j) data)"
proof -
  have "w = take (length w) (drop start data)" using assms(1) unfolding block_of_def slice_def by simp
  then have "drop j w = take (length w - j) (drop (start + j) data)" by (metis add.commute drop_drop drop_take)
  then show ?thesis unfolding slice_def by (metis take_is_prefix take_take)
qed

lemma record_position_built:
  assumes "built data keys ps b" "k \<in> keys" "block_of data start w" "j < length w"
    and "record_position indexed w start k j (bytes_count_newlines (take (start + j) data)) b = Some b'"
  shows "built data keys (ps(k := ps k @ [start + j])) b' \<and> bd_lines b' = bd_lines b"
proof -
  obtain index where i: "bd_indexes b k = Some index" "index_part data (ps k) (samples_full b) index"
    using assms(1,2) unfolding built_def by blast
  define index1 where "index1 = index\<lparr>ix_positions := ix_positions index @ [start + j],
    ix_newlines := ix_newlines index @ [bytes_count_newlines (take (start + j) data)]\<rparr>"
  define sample where "sample = slice j (min (j + streamPrefixIndexSampleLen) (length w)) w"
  have other: "index_part data (ps k') (samples_full b) index'" if "bd_indexes b k' = Some index'" for k' index'
    using assms(1) that unfolding built_def by blast
  have mono: "index_part data (ps k') full index'"
    if "index_part data (ps k') (samples_full b) index'" "samples_full b \<longrightarrow> full" for k' index' full
    using that by (auto simp: index_part_def)
  have parts: "ix_positions index1 = ps k @ [start + j]" "ix_samples index1 = ix_samples index"
      "ix_newlines index1 = map (\<lambda>p. bytes_count_newlines (take p data)) (ps k @ [start + j])"
    using i(2) by (simp_all add: index1_def index_part_def)
  show ?thesis
  proof (cases "samples_full b")
    case True
    then have b': "b' = b\<lparr>bd_indexes := (bd_indexes b)(k \<mapsto> index1), bd_count := bd_count b + 1\<rparr>"
      using assms(5) i(1) by (auto simp: record_position_def samples_full_def Let_def index1_def split: if_splits)
    have "index_part data (ps k @ [start + j]) True index1"
      using i(2) parts by (auto simp: index_part_def nth_append)
    then show ?thesis using assms(1,2) other True b'
      by (auto simp: built_def samples_full_def)
  next
    case False
    then have b': "b' = b\<lparr>bd_indexes := (bd_indexes b)(k \<mapsto> index1\<lparr>ix_samples := ix_samples index @ [sample]\<rparr>),
        bd_count := bd_count b + 1, bd_samples := bd_samples b + length sample\<rparr>"
      using assms(5) i(1) by (auto simp: record_position_def samples_full_def Let_def index1_def sample_def split: if_splits)
    have "prefix sample (drop (start + j) data)"
      using block_sample [OF assms(3)] assms(4) by (simp add: sample_def)
    moreover have "length (ix_samples index) = length (ps k)" using i(2) False by (simp add: index_part_def)
    ultimately have "index_part data (ps k @ [start + j]) full (index1\<lparr>ix_samples := ix_samples index @ [sample]\<rparr>)" for full
      using i(2) parts by (auto simp: index_part_def nth_append less_Suc_eq)
    then show ?thesis using assms(1,2) other mono False b' by (auto simp: built_def)
  qed
qed

section \<open>The byte-wise pass\<close>

lemma foldM_invariant:
  assumes "foldM f xs s = Some s'" "I [] s"
    and "\<And>ys x t t'. prefix (ys @ [x]) xs \<Longrightarrow> I ys t \<Longrightarrow> f x t = Some t' \<Longrightarrow> I (ys @ [x]) t'"
  shows "I xs s'"
proof -
  have "I xs s'" if "xs = ys @ zs" "I ys t" "foldM f zs t = Some s'" for ys zs t
    using that
  proof (induction zs arbitrary: ys t)
    case (Cons z zs)
    then obtain t' where t': "f z t = Some t'" "foldM f zs t' = Some s'" by (auto split: option.splits)
    then have "I (ys @ [z]) t'" using assms(3) [of ys z t t'] Cons.prems by simp
    then show ?case using Cons.IH [of "ys @ [z]" t'] Cons.prems(1) t'(2) by simp
  qed simp
  from this [of "[]" xs s] assms(1,2) show ?thesis by simp
qed

definition key_maps :: "nat list \<Rightarrow> (nat \<rightharpoonup> nat) \<Rightarrow> (nat \<rightharpoonup> nat) \<Rightarrow> bool" where
  "key_maps keys singles pairs \<longleftrightarrow>
     (\<forall>b k. singles b = Some k \<longleftrightarrow> k \<in> set keys \<and> single_bit k \<and> k mod 256 = b) \<and>
     (\<forall>p k. pairs p = Some k \<longleftrightarrow> k \<in> set keys \<and> \<not> single_bit k \<and> k mod 65536 = p)"

text \<open>The end of the part of a block that is scanned: its last byte is left to the next block, unless there is none.\<close>

definition scan_end :: "bytes \<Rightarrow> nat \<Rightarrow> bytes \<Rightarrow> nat" where
  "scan_end data start w = (if start + length w < length data then length w - 1 else length w)"

lemma pair_in_block:
  assumes "block_of data start w" "j < scan_end data start w"
  shows "j + 1 < length w \<longleftrightarrow> start + j + 1 < length data"
  using assms by (auto simp: block_of_def scan_end_def split: if_splits)

definition build_at :: "bytes \<Rightarrow> nat set \<Rightarrow> nat \<Rightarrow> index_build \<Rightarrow> bool" where
  "build_at data keys n b \<longleftrightarrow> built data keys (key_positions data n) b \<and> bd_lines b = bytes_count_newlines (take n data)"

lemma wanted_position_built:
  assumes "built data keys ps b" "block_of data start w" "j < length w" "bd_lines b = bytes_count_newlines (take (start + j) data)"
    and "\<And>k. wanted = Some k \<Longrightarrow> k \<in> keys" "wanted_position indexed w start j wanted b = Some b'"
  shows "built data keys (\<lambda>k. ps k @ (if wanted = Some k then [start + j] else [])) b' \<and> bd_lines b' = bd_lines b"
proof (cases wanted)
  case None
  then show ?thesis using assms(1,6) by (simp add: wanted_position_def)
next
  case (Some k)
  then have "record_position indexed w start k j (bd_lines b) b = Some b'"
    using assms(1,5,6) by (auto simp: wanted_position_def built_def dom_def split: if_splits)
  then have "built data keys (ps(k := ps k @ [start + j])) b' \<and> bd_lines b' = bd_lines b"
    using record_position_built [OF assms(1) assms(5) [OF Some] assms(2,3)] assms(4) by simp
  moreover have "ps(k := ps k @ [start + j]) = (\<lambda>k'. ps k' @ (if wanted = Some k' then [start + j] else []))"
    using Some by (auto simp: fun_eq_iff)
  ultimately show ?thesis by simp
qed

lemma newlines_Suc: "n < length data \<Longrightarrow>
    bytes_count_newlines (take (Suc n) data) = bytes_count_newlines (take n data) + (if data ! n = CHR 0x0A then 1 else 0)"
  by (simp add: take_Suc_conv_app_nth bytes_count_newlines_def)

lemma index_byte_at:
  assumes "build_at data (set keys) (start + j) b" "block_of data start w" "j < scan_end data start w" "key_maps keys singles pairs"
    and "index_byte indexed singles pairs w start j b = Some b'"
  shows "build_at data (set keys) (start + Suc j) b'"
proof -
  let ?n = "start + j"
  let ?pair = "if j + 1 < length w then pairs (pair_key (w ! j) (w ! (j + 1))) else None"
  let ?single = "singles (of_char (w ! j))"
  have j: "j < length w" using assms(3) by (auto simp: scan_end_def split: if_splits)
  have n: "?n < length data" using j assms(2) by (auto simp: block_of_def)
  have w: "w ! j = data ! ?n" "j + 1 < length w \<Longrightarrow> w ! (j + 1) = data ! (?n + 1)"
    using block_nth [OF assms(2)] j by (simp_all add: add.assoc)
  obtain b1 b2 where b1: "wanted_position indexed w start j ?pair b = Some b1"
    and b2: "wanted_position indexed w start j ?single b1 = Some b2"
    and b': "b' = (if w ! j = CHR 0x0A then b2\<lparr>bd_lines := bd_lines b2 + 1\<rparr> else b2)"
    using assms(5) unfolding index_byte_def by (auto split: bind_splits)
  have lines: "bd_lines b = bytes_count_newlines (take ?n data)" using assms(1) by (simp add: build_at_def)
  have keys: "?pair = Some k \<Longrightarrow> k \<in> set keys" "?single = Some k \<Longrightarrow> k \<in> set keys" for k
    using assms(4) by (auto simp: key_maps_def split: if_splits)
  have one: "built data (set keys) (\<lambda>k. key_positions data ?n k @ (if ?pair = Some k then [?n] else [])) b1 \<and> bd_lines b1 = bd_lines b"
    using wanted_position_built [OF _ assms(2) j lines keys(1) b1, of "key_positions data ?n"] assms(1) lines by (simp add: build_at_def)
  have two: "built data (set keys) (\<lambda>k. (key_positions data ?n k @ (if ?pair = Some k then [?n] else [])) @ (if ?single = Some k then [?n] else [])) b2
      \<and> bd_lines b2 = bd_lines b1"
    using wanted_position_built [OF conjunct1 [OF one] assms(2) j _ keys(2) b2] one lines by simp
  have "(key_positions data ?n k @ (if ?pair = Some k then [?n] else [])) @ (if ?single = Some k then [?n] else []) =
      key_positions data (Suc ?n) k" if "k \<in> set keys" for k
  proof -
    have "?pair = Some k \<longleftrightarrow> \<not> single_bit k \<and> has_key data k ?n"
      using assms(4) that w pair_in_block [OF assms(2,3)] by (auto simp: key_maps_def has_key_def)
    moreover have "?single = Some k \<longleftrightarrow> single_bit k \<and> has_key data k ?n"
      using assms(4) that w by (auto simp: key_maps_def has_key_def)
    ultimately show ?thesis unfolding key_positions_Suc by (cases "single_bit k") simp_all
  qed
  then have "built data (set keys) (key_positions data (Suc ?n)) b2"
    using conjunct1 [OF two] unfolding built_def by (metis domI)
  then show ?thesis using b' one two lines newlines_Suc [OF n] w(1) by (auto simp: build_at_def built_def samples_full_def)
qed

lemma pass_at:
  assumes "build_at data (set keys) start b" "block_of data start w" "key_maps keys singles pairs"
    and "foldM (index_byte indexed singles pairs w start) [0..<scan_end data start w] b = Some b'"
  shows "build_at data (set keys) (start + scan_end data start w) b'"
proof -
  have "build_at data (set keys) (start + length [0..<scan_end data start w]) b'"
  proof (rule foldM_invariant [OF assms(4), of "\<lambda>ys. build_at data (set keys) (start + length ys)"])
    fix ys j t t'
    assume pre: "prefix (ys @ [j]) [0..<scan_end data start w]" and t: "build_at data (set keys) (start + length ys) t"
      and step: "index_byte indexed singles pairs w start j t = Some t'"
    have "length ys = j" "j < scan_end data start w" using prefix_upt [OF pre] by auto
    then show "build_at data (set keys) (start + length (ys @ [j])) t'"
      using index_byte_at [OF _ assms(2) _ assms(3) step] t by simp
  qed (use assms(1) in simp)
  then show ?thesis by simp
qed

section \<open>The search for a single prefix\<close>

lemma slice_occurs_pattern:
  assumes "first \<le> j" "j + length pattern \<le> m" "m \<le> length w"
  shows "occurs_at (slice first m w) pattern (j - first) \<longleftrightarrow> occurs_at w pattern j"
  using occurs_at_slice [OF assms] .

text \<open>What the pattern and the end of the search have to be for the hits to be the positions of the key.\<close>

definition searches :: "bytes \<Rightarrow> nat \<Rightarrow> nat \<Rightarrow> bytes \<Rightarrow> bytes \<Rightarrow> nat \<Rightarrow> bool" where
  "searches data start k w pattern m \<longleftrightarrow> m \<le> length w \<and> m < scan_end data start w + length pattern \<and>
     (\<forall>j < scan_end data start w. has_key data k (start + j) \<longleftrightarrow> j + length pattern \<le> m \<and> occurs_at w pattern j)"

lemma fast_loop_at:
  assumes "fast_loop indexed w start k p ps m first lineScan lineAt b = Some (lineScan', lineAt', b')"
    and "block_of data start w" "searches data start k w (p # ps) m" "k \<in> keys"
    and "built data keys positions b" "positions k = key_positions data (start + first) k" "\<forall>k' \<in> keys. k' = k"
    and "lineScan \<le> first" "first \<le> scan_end data start w" "lineAt = bytes_count_newlines (take (start + lineScan) data)"
  shows "built data keys (key_positions data (start + scan_end data start w)) b' \<and>
    lineScan' \<le> scan_end data start w \<and> lineAt' = bytes_count_newlines (take (start + lineScan') data) \<and> bd_lines b' = bd_lines b"
  using assms
proof (induction indexed w start k p ps m first lineScan lineAt b arbitrary: positions rule: fast_loop.induct)
  case (1 indexed w start k p ps m first lineScan lineAt b)
  note prems = "1.prems"
  let ?fin = "scan_end data start w"
  have m: "m \<le> length w" "m < ?fin + length (p # ps)"
    and hits: "\<And>j. j < ?fin \<Longrightarrow> has_key data k (start + j) \<longleftrightarrow> j + length (p # ps) \<le> m \<and> occurs_at w (p # ps) j"
    using prems(3) unfolding searches_def by blast+
  have skip: "key_positions data (start + n) k = key_positions data (start + first) k"
    if "first \<le> n" "n \<le> ?fin" "\<And>j. first \<le> j \<Longrightarrow> j < n \<Longrightarrow> j + length (p # ps) \<le> m \<Longrightarrow> \<not> occurs_at (slice first m w) (p # ps) (j - first)" for n
  proof (rule key_positions_skip)
    fix i
    assume i: "start + first \<le> i" "i < start + n"
    define j where "j = i - start"
    have j: "i = start + j" "first \<le> j" "j < n" "j < ?fin" using i that(2) by (auto simp: j_def)
    show "\<not> has_key data k i"
      unfolding j(1) hits [OF j(4)] using that(3) [OF j(2,3)] slice_occurs_pattern [OF j(2) _ m(1), of "p # ps"] by blast
  qed (use that(1) in simp)
  have only: "built data keys ps' b''" if "built data keys positions' b''" "positions' k = ps' k" for ps' positions' b''
    using that prems(7) unfolding built_def by (metis domI)
  show ?case
  proof (cases "bytes_index (slice first m w) (p # ps)")
    case None
    then have "lineScan' = lineScan" "lineAt' = lineAt" "b' = b" using prems(1) by (auto simp: fast_loop.simps [of indexed w])
    moreover have "key_positions data (start + ?fin) k = key_positions data (start + first) k"
      using skip [of ?fin] None prems(9) by (auto simp: bytes_index_None)
    ultimately show ?thesis using only [OF prems(5), of "key_positions data (start + ?fin)"] prems(6,8,9,10) by simp
  next
    case (Some i)
    define j where "j = first + i"
    define lineAt1 where "lineAt1 = lineAt + bytes_count_newlines (slice lineScan j w)"
    have occ: "occurs_at (slice first m w) (p # ps) i" "\<And>i'. i' < i \<Longrightarrow> \<not> occurs_at (slice first m w) (p # ps) i'"
      using Some by (auto simp: bytes_index_Some)
    then have len: "j + length (p # ps) \<le> m" by (auto simp: occurs_at_def slice_def j_def)
    then have j: "j < ?fin" "first \<le> j" "j < length w" using m by (auto simp: j_def)
    obtain b1 where b1: "record_position indexed w start k j lineAt1 b = Some b1"
      and rest: "fast_loop indexed w start k p ps m (j + 1) j lineAt1 b1 = Some (lineScan', lineAt', b')"
      using prems(1) Some by (auto simp: fast_loop.simps [of indexed w] Let_def j_def lineAt1_def split: option.splits)
    have w: "w = take (length w) (drop start data)" using prems(2) unfolding block_of_def slice_def by simp
    have "lineAt1 = bytes_count_newlines (take (start + j) data)"
    proof -
      have "slice lineScan j w = take (j - lineScan) (drop (start + lineScan) data)"
      proof -
        have "drop lineScan w = take (length w - lineScan) (drop (start + lineScan) data)"
          using w by (metis add.commute drop_drop drop_take)
        then show ?thesis using j(3) by (simp add: slice_def min_def)
      qed
      then show ?thesis using prems(8,10) j(2) newlines_take_add [of "start + lineScan" "j - lineScan" data] by (simp add: lineAt1_def)
    qed
    then have built1: "built data keys (positions(k := positions k @ [start + j])) b1" and l1: "bd_lines b1 = bd_lines b"
        and at1: "lineAt1 = bytes_count_newlines (take (start + j) data)"
      using record_position_built [OF prems(5,4,2) j(3)] b1 by simp_all
    have "key_positions data (start + (j + 1)) k = positions k @ [start + j]"
    proof -
      have "key_positions data (start + j) k = positions k"
        using skip [of j] occ(2) j prems(6) by (simp add: j_def)
      moreover have "has_key data k (start + j)"
        using hits [OF j(1)] len occ(1) slice_occurs_pattern [OF j(2) len m(1)] by (simp add: j_def)
      ultimately show ?thesis by (simp add: key_positions_Suc)
    qed
    then have "(positions(k := positions k @ [start + j])) k = key_positions data (start + (j + 1)) k" by simp
    from "1.IH" [OF Some refl refl, folded j_def, folded lineAt1_def, OF b1 rest prems(2-4) built1 this prems(7) _ _ at1]
    show ?thesis using j(1) l1 by simp
  qed
qed

lemma fast_block_at:
  assumes "build_at data {k} start b" "block_of data start w" "searches data start k w (p # ps) m"
    and "fast_block indexed w start k p ps m (scan_end data start w) b = Some b'"
  shows "build_at data {k} (start + scan_end data start w) b'"
proof -
  obtain lineScan lineAt b1 where f: "fast_loop indexed w start k p ps m 0 0 (bd_lines b) b = Some (lineScan, lineAt, b1)"
    and b': "b' = b1\<lparr>bd_lines := lineAt + bytes_count_newlines (slice lineScan (scan_end data start w) w)\<rparr>"
    using assms(4) by (auto simp: fast_block_def split: option.splits)
  have r: "built data {k} (key_positions data (start + scan_end data start w)) b1" "lineScan \<le> scan_end data start w"
      "lineAt = bytes_count_newlines (take (start + lineScan) data)"
    using fast_loop_at [OF f assms(2,3), of "{k}" "key_positions data start"] assms(1) by (simp_all add: build_at_def)
  have w: "w = take (length w) (drop start data)" "scan_end data start w \<le> length w"
    using assms(2) unfolding block_of_def slice_def by (simp_all add: scan_end_def)
  have "drop lineScan w = take (length w - lineScan) (drop (start + lineScan) data)"
    using w(1) by (metis add.commute drop_drop drop_take)
  then have "slice lineScan (scan_end data start w) w = take (scan_end data start w - lineScan) (drop (start + lineScan) data)"
    using w(2) by (simp add: slice_def min_def)
  then have "lineAt + bytes_count_newlines (slice lineScan (scan_end data start w) w) = bytes_count_newlines (take (start + scan_end data start w) data)"
    using r(2,3) newlines_take_add [of "start + lineScan" "scan_end data start w - lineScan" data] by simp
  then show ?thesis using r(1) b' by (simp add: build_at_def built_def samples_full_def)
qed

lemma occurs_one: "occurs_at w [a] j \<longleftrightarrow> j < length w \<and> w ! j = a"
  by (auto simp: occurs_at_def take_Suc_conv_app_nth hd_drop_conv_nth take_Suc)

lemma occurs_two: "occurs_at w [a, b] j \<longleftrightarrow> j + 1 < length w \<and> w ! j = a \<and> w ! (j + 1) = b"
proof -
  have "take 2 (drop j w) = [w ! j, w ! (j + 1)]" if "j + 1 < length w"
    using that by (simp add: take_Suc_conv_app_nth numeral_2_eq_2 flip: Cons_nth_drop_Suc)
  then show ?thesis by (auto simp: occurs_at_def numeral_2_eq_2)
qed

lemma scan_block_at:
  assumes "build_at data (set keys) start b" "block_of data start w" "key_maps keys singles pairs"
    and "scan_block indexed keys singles pairs w start (scan_end data start w) b = Some b'"
  shows "build_at data (set keys) (start + scan_end data start w) b'"
proof (cases "\<exists>k. keys = [k]")
  case False
  then have "scan_block indexed keys singles pairs w start (scan_end data start w) b =
      foldM (index_byte indexed singles pairs w start) [0..<scan_end data start w] b"
    by (auto simp: scan_block_def split: list.splits)
  then show ?thesis using pass_at [OF assms(1-3)] assms(4) by simp
next
  case True
  then obtain k where k: "keys = [k]" by blast
  let ?fin = "scan_end data start w"
  have le: "?fin \<le> length w" by (simp add: scan_end_def)
  have b: "build_at data {k} start b" using assms(1) k by simp
  have w: "w ! j = data ! (start + j)" if "j < length w" for j using block_nth [OF assms(2) that] .
  show ?thesis
  proof (cases "single_bit k")
    case single: True
    have code: "(of_char c :: nat) = k mod 256 \<longleftrightarrow> c = char_of (k mod 256)" for c :: char
      by (metis char_of_char of_char_of mod_mod_trivial)
    have "has_key data k (start + j) \<longleftrightarrow> j + 1 \<le> ?fin \<and> occurs_at w [char_of (k mod 256)] j" if "j < ?fin" for j
      unfolding has_key_def code occurs_one using single that le w [of j] by simp
    then have "searches data start k w [char_of (k mod 256)] ?fin" using le by (simp add: searches_def)
    then show ?thesis using fast_block_at [OF b assms(2)] assms(4) k single by (simp add: scan_block_def)
  next
    case pair: False
    define m where "m = (if ?fin < length w then ?fin + 1 else ?fin)"
    have bound: "k mod 65536 < 65536" "k mod 65536 mod 256 = k mod 256" by (simp_all add: mod_mod_cancel)
    have "has_key data k (start + j) \<longleftrightarrow> j + 2 \<le> m \<and> occurs_at w [char_of (k mod 65536 div 256), char_of (k mod 256)] j"
      if "j < ?fin" for j
    proof -
      have "j + 2 \<le> m \<longleftrightarrow> j + 1 < length w" using that le by (auto simp: m_def)
      moreover have "w ! j = data ! (start + j)" "j + 1 < length w \<Longrightarrow> w ! (j + 1) = data ! (start + j + 1)"
        using w [of j] w [of "j + 1"] that le by (simp_all add: add.assoc)
      ultimately show ?thesis
        using pair pair_in_block [OF assms(2) that] pair_key_eq_iff [OF bound(1)]
        unfolding has_key_def occurs_two bound(2) by auto
    qed
    then have "searches data start k w [char_of (k mod 65536 div 256), char_of (k mod 256)] m"
      using le by (auto simp: searches_def m_def)
    then show ?thesis using fast_block_at [OF b assms(2)] assms(4) k pair by (simp add: scan_block_def m_def)
  qed
qed

section \<open>The pass over the source\<close>

lemma index_loop_fine:
  assumes "truthful env data" "key_maps keys singles pairs" "build_at data (set keys) start b" "start \<le> length data"
  shows "fine env data c (index_loop env keys singles pairs start b c)
    (\<lambda>r c'. \<forall>b'. r = Some b' \<longrightarrow> build_at data (set keys) (length data) b')"
  using assms
proof (induction env keys singles pairs start b c rule: index_loop.induct)
  case (1 env keys singles pairs start b c)
  have size: "sv_size env = length data" using "1.prems"(1) by (rule truthful_size)
  show ?case
  proof (cases "start < sv_size env")
    case False
    then have "start = length data" using "1.prems"(4) size by simp
    then show ?thesis unfolding index_loop.simps [of env keys singles pairs start b c] if_not_P [OF False]
      using "1.prems"(3) by (simp add: fine_value)
  next
    case True
    show ?thesis unfolding index_loop.simps [of env keys singles pairs start b c] if_P [OF True]
    proof (rule fine_bind)
      show "fine env data c (read_block env (streamBlockSize + 1) start (sv_size env) c)
          (\<lambda>got c'. length got = min (streamBlockSize + 1) (sv_size env - start) \<and> block_of data start got)"
        using fine_block [OF "1.prems"(1) True] size by simp
    next
      fix w c1
      assume r: "read_block env (streamBlockSize + 1) start (sv_size env) c = (Inr w, c1)"
        and w: "length w = min (streamBlockSize + 1) (sv_size env - start) \<and> block_of data start w"
      let ?fin = "scan_end data start w"
      have fin: "(if start + length w < sv_size env then length w - 1 else length w) = ?fin" by (simp add: scan_end_def size)
      have pos: "?fin \<noteq> 0" using w True size by (auto simp: scan_end_def streamBlockSize_def)
      have le: "start + ?fin \<le> length data" using w by (auto simp: scan_end_def block_of_def)
      show "fine env data c1 (let fin = if start + length w < sv_size env then length w - 1 else length w in
          if fin = 0 then (Inr (Some b), c1)
          else case scan_block (sm_indexedPositions c1) keys singles pairs w start fin b of
                 None \<Rightarrow> (Inr None, c1)
               | Some b1 \<Rightarrow> index_loop env keys singles pairs (start + fin) b1 c1)
          (\<lambda>r c'. \<forall>b'. r = Some b' \<longrightarrow> build_at data (set keys) (length data) b')"
      proof (cases "scan_block (sm_indexedPositions c1) keys singles pairs w start ?fin b")
        case None
        then show ?thesis unfolding fin Let_def using pos by (simp add: fine_value)
      next
        case (Some b1)
        have "build_at data (set keys) (start + ?fin) b1"
          using scan_block_at [OF "1.prems"(3) conjunct2 [OF w] "1.prems"(2) Some] .
        from "1.IH" [OF True r refl, unfolded fin, OF pos Some "1.prems"(1,2) this le]
        show ?thesis unfolding fin Let_def using pos Some by simp
      qed
    qed
  qed
qed

lemma later_samples: "cache_ok data c \<Longrightarrow> later data c (c\<lparr>sm_indexSampleBytes := n\<rparr>)"
  by (simp add: later_def cache_ok_def values_ok_def indexes_ok_def indexFor_def observation_ok_def observed_def observation_def cong: if_cong)

lemma fold_singles:
  "fold (\<lambda>k m. if single_bit k then m(k mod 256 \<mapsto> k) else m) keys m0 b =
     (case find (\<lambda>k. single_bit k \<and> k mod 256 = b) (rev keys) of None \<Rightarrow> m0 b | Some k \<Rightarrow> Some k)"
  by (induction keys arbitrary: m0 rule: rev_induct) (auto split: option.splits)

lemma fold_pairs:
  "fold (\<lambda>k m. if single_bit k then m else m(k mod 65536 \<mapsto> k)) keys m0 p =
     (case find (\<lambda>k. \<not> single_bit k \<and> k mod 65536 = p) (rev keys) of None \<Rightarrow> m0 p | Some k \<Rightarrow> Some k)"
  by (induction keys arbitrary: m0 rule: rev_induct) (auto split: option.splits)

lemma canonical_single: "canonical k \<Longrightarrow> single_bit k \<Longrightarrow> k = 65536 + k mod 256"
  using mod_mult_self2 [of "k - 65536" 256 256] by (auto simp: canonical_def single_bit_canonical)

lemma canonical_pair: "canonical k \<Longrightarrow> \<not> single_bit k \<Longrightarrow> k mod 65536 = k"
  by (auto simp: canonical_def single_bit_canonical)

lemma find_unique:
  assumes "\<And>x y. x \<in> set xs \<Longrightarrow> y \<in> set xs \<Longrightarrow> P x \<Longrightarrow> P y \<Longrightarrow> x = y"
  shows "find P xs = Some x \<longleftrightarrow> x \<in> set xs \<and> P x"
proof
  assume "find P xs = Some x"
  then show "x \<in> set xs \<and> P x" by (auto simp: find_Some_iff)
next
  assume x: "x \<in> set xs \<and> P x"
  then obtain y where y: "find P xs = Some y" by (metis find_None_iff option.exhaust)
  then have "y \<in> set xs \<and> P y" by (auto simp: find_Some_iff)
  then show "find P xs = Some x" using assms x y by metis
qed

lemma key_maps_folds:
  assumes "\<forall>k \<in> set keys. canonical k"
  shows "key_maps keys (fold (\<lambda>k m. if single_bit k then m(k mod 256 \<mapsto> k) else m) keys Map.empty)
    (fold (\<lambda>k m. if single_bit k then m else m(k mod 65536 \<mapsto> k)) keys Map.empty)"
proof -
  have "x = y" if "x \<in> set (rev keys)" "y \<in> set (rev keys)" "single_bit x \<and> x mod 256 = b" "single_bit y \<and> y mod 256 = b" for x y b
  proof -
    have "x = 65536 + b" "y = 65536 + b" using canonical_single [of x] canonical_single [of y] assms that by auto
    then show ?thesis by simp
  qed
  then have singles: "find (\<lambda>k. single_bit k \<and> k mod 256 = b) (rev keys) = Some k \<longleftrightarrow> k \<in> set (rev keys) \<and> single_bit k \<and> k mod 256 = b" for b k
    by (rule find_unique)
  have "x = y" if "x \<in> set (rev keys)" "y \<in> set (rev keys)" "\<not> single_bit x \<and> x mod 65536 = b" "\<not> single_bit y \<and> y mod 65536 = b" for x y b
  proof -
    have "x = b" "y = b" using canonical_pair [of x] canonical_pair [of y] assms that by auto
    then show ?thesis by simp
  qed
  then have pairs: "find (\<lambda>k. \<not> single_bit k \<and> k mod 65536 = p) (rev keys) = Some k \<longleftrightarrow> k \<in> set (rev keys) \<and> \<not> single_bit k \<and> k mod 65536 = p" for p k
    by (rule find_unique)
  have o: "(case x of None \<Rightarrow> Map.empty y | Some k \<Rightarrow> Some k) = x" for x :: "nat option" and y :: nat by (cases x) auto
  show ?thesis unfolding key_maps_def fold_singles fold_pairs o singles pairs set_rev by simp
qed

lemma fold_empty_indexes:
  "fold (\<lambda>k m. m(k \<mapsto> x)) keys m0 k = (if k \<in> set keys then Some x else m0 k)"
  by (induction keys arbitrary: m0) auto

definition indexes_of :: "bytes \<Rightarrow> (nat \<rightharpoonup> streamPrefixIndex) \<Rightarrow> bool" where
  "indexes_of data m \<longleftrightarrow> (\<forall>k index. m k = Some index \<longrightarrow> index_ok data k index)"

lemma scanPrefixIndexes_fine:
  assumes "truthful env data" "\<forall>k \<in> set keys. canonical k"
  shows "fine env data c (scanPrefixIndexes env keys c) (\<lambda>m c'. indexes_of data m)"
proof -
  let ?singles = "fold (\<lambda>k m. if single_bit k then m(k mod 256 \<mapsto> k) else m) keys Map.empty"
  let ?pairs = "fold (\<lambda>k m. if single_bit k then m else m(k mod 65536 \<mapsto> k)) keys Map.empty"
  let ?b = "\<lparr>bd_indexes = fold (\<lambda>k m. m(k \<mapsto> \<lparr>ix_positions = [], ix_newlines = [], ix_samples = []\<rparr>)) keys Map.empty,
    bd_count = 0, bd_samples = sm_indexSampleBytes c, bd_lines = 0\<rparr>"
  have "build_at data (set keys) 0 ?b"
    by (auto simp: build_at_def built_def dom_def fold_empty_indexes index_part_def key_positions_def split: if_splits)
  then have loop: "fine env data c (index_loop env keys ?singles ?pairs 0 ?b c)
      (\<lambda>r c'. \<forall>b'. r = Some b' \<longrightarrow> build_at data (set keys) (length data) b')"
    using index_loop_fine [OF assms(1) key_maps_folds [OF assms(2)]] by simp
  show ?thesis unfolding scanPrefixIndexes_def Let_def
  proof (rule fine_bind, rule loop)
    fix r c1
    assume r: "\<forall>b'. r = Some b' \<longrightarrow> build_at data (set keys) (length data) b'"
    show "fine env data c1 (case r of None \<Rightarrow> (Inr Map.empty, c1)
        | Some b1 \<Rightarrow> (Inr (bd_indexes b1), c1\<lparr>sm_indexSampleBytes := bd_samples b1\<rparr>)) (\<lambda>m c'. indexes_of data m)"
    proof (cases r)
      case None
      then show ?thesis by (simp add: fine_value indexes_of_def)
    next
      case (Some b1)
      then have b1: "built data (set keys) (key_positions data (length data)) b1" using r by (simp add: build_at_def)
      have "index_ok data k index" if "bd_indexes b1 k = Some index" for k index
      proof -
        have "index_part data (key_positions data (length data) k) (samples_full b1) index" using b1 that unfolding built_def by blast
        then show ?thesis unfolding index_part_def index_ok_def key_positions_def by (metis order_refl)
      qed
      then show ?thesis using Some later_samples by (simp add: fine_def indexes_of_def)
    qed
  qed
qed

lemma store_index_step:
  assumes "cache_ok data c" "indexes_of data out" "indexes_of data found" "store_index found k (out, c) = (out', c')"
  shows "later data c c' \<and> indexes_of data out'"
proof (cases "found k")
  case None
  then have "out' = out" "c' = c\<lparr>sm_indexOOM := insert k (sm_indexOOM c)\<rparr>" using assms(4) by (auto simp: store_index_def)
  then show ?thesis using assms(1,2)
    by (simp add: later_def cache_ok_def values_ok_def indexes_ok_def indexFor_def observation_ok_def observed_def observation_def cong: if_cong)
next
  case (Some index)
  then have ok: "index_ok data k index" using assms(3) by (simp add: indexes_of_def)
  have o': "out' = out(k \<mapsto> index)" and
    c': "c' = (if single_bit k then c\<lparr>sm_byteIndex := (sm_byteIndex c)(k mod 256 \<mapsto> index)\<rparr>
           else c\<lparr>sm_pairIndex := (sm_pairIndex c)(k mod 65536 \<mapsto> index)\<rparr>)
            \<lparr>sm_indexedPositions := sm_indexedPositions c + length (ix_positions index)\<rparr>"
    using assms(4) Some by (auto simp: store_index_def)
  have same: "index_ok data k' index"
    if "single_bit k' = single_bit k" "single_bit k \<Longrightarrow> k' mod 256 = k mod 256" "\<not> single_bit k \<Longrightarrow> k' mod 65536 = k mod 65536" for k'
  proof -
    have "has_key data k' = has_key data k" using that by (intro has_key_cong) auto
    from this [symmetric] show ?thesis using ok unfolding index_ok_def by metis
  qed
  have "index_ok data k' index'" if "indexFor k' c' = Some index'" for k' index'
    using that assms(1) same [of k'] unfolding c' cache_ok_def indexes_ok_def indexFor_def
    by (auto split: if_splits)
  then have "indexes_ok data c'" by (simp add: indexes_ok_def)
  then show ?thesis using assms(1,2) ok o' c'
    by (auto simp: later_def cache_ok_def values_ok_def observation_ok_def observed_def observation_def indexes_of_def)
qed

lemma store_index_fold:
  assumes "cache_ok data c" "indexes_of data out" "indexes_of data found" "fold (store_index found) ks (out, c) = (out', c')"
  shows "later data c c' \<and> indexes_of data out'"
  using assms
proof (induction ks arbitrary: out c)
  case (Cons k ks)
  obtain out1 c1 where s: "store_index found k (out, c) = (out1, c1)" by fastforce
  have one: "later data c c1 \<and> indexes_of data out1" by (rule store_index_step [OF Cons.prems(1-3) s])
  have "fold (store_index found) ks (out1, c1) = (out', c')" using Cons.prems(4) s by simp
  from Cons.IH [OF later_ok [OF conjunct1 [OF one]] conjunct2 [OF one] Cons.prems(3) this]
  show ?case using later_trans [OF conjunct1 [OF one]] by blast
qed simp

lemma prefixIndexes_fine:
  assumes "truthful env data" "\<forall>k \<in> set keys. canonical k"
  shows "fine env data c (prefixIndexes env keys c) (\<lambda>m c'. indexes_of data m)"
proof -
  let ?out = "fold (\<lambda>k m. case indexFor k c of None \<Rightarrow> m | Some index \<Rightarrow> m(k \<mapsto> index)) keys Map.empty"
  let ?missing = "filter (\<lambda>k. indexFor k c = None \<and> k \<notin> sm_indexOOM c) keys"
  have "indexes_of data (fold (\<lambda>k m. case indexFor k c of None \<Rightarrow> m | Some index \<Rightarrow> m(k \<mapsto> index)) ks m0)"
    if "indexes_of data m0" "cache_ok data c" for ks m0
    using that(1)
  proof (induction ks arbitrary: m0)
    case (Cons k ks)
    have "indexes_of data (case indexFor k c of None \<Rightarrow> m0 | Some index \<Rightarrow> m0(k \<mapsto> index))"
      using Cons.prems that(2) by (auto simp: indexes_of_def cache_ok_def indexes_ok_def split: option.splits)
    then show ?case using Cons.IH by simp
  qed simp
  from this [of Map.empty keys] have out: "cache_ok data c \<Longrightarrow> indexes_of data ?out" by (simp add: indexes_of_def)
  show ?thesis
  proof (rule fine_assume, cases "?missing = []")
    assume ok: "cache_ok data c"
    case True
    then show ?thesis unfolding prefixIndexes_def Let_def if_P [OF True] using out [OF ok] by (simp add: fine_value)
  next
    assume ok: "cache_ok data c"
    case False
    have "\<forall>k \<in> set ?missing. canonical k" using assms(2) by simp
    note scan = scanPrefixIndexes_fine [OF assms(1) this, of c]
    show ?thesis unfolding prefixIndexes_def Let_def if_not_P [OF False]
    proof (rule fine_bind, rule scan)
      fix m c1
      assume l: "later data c c1" and m: "indexes_of data m" and r: "scanPrefixIndexes env ?missing c = (Inr m, c1)"
      obtain out1 c2 where f: "fold (store_index m) ?missing (?out, c1) = (out1, c2)" by fastforce
      show "fine env data c1 (case fold (store_index m) ?missing (?out, c1) of (out1, c2) \<Rightarrow> (Inr out1, c2)) (\<lambda>m c'. indexes_of data m)"
        using store_index_fold [OF later_ok [OF l] out [OF ok] m f] f by (simp add: fine_def)
    qed
  qed
qed

end
