(* ===== verification/StreamLookup.thy ===== *)
theory StreamLookup
  imports StreamIndex
begin

text \<open>
  Lookups through a hint and the observed pairs, or through a complete index, and the lookup of one secret: what they
  return is the first occurrence.
\<close>

section \<open>Positions of an index\<close>

lemma occurs_slice_iff: "pos + length raw \<le> length data \<Longrightarrow> occurs_at data raw pos \<longleftrightarrow> slice pos (pos + length raw) data = raw"
  by (simp add: occurs_at_def slice_def)

lemma occurs_prefix_sample:
  assumes "prefix s (drop pos data)" "occurs_at data raw pos"
  shows "take (min (length s) (length raw)) s = take (min (length s) (length raw)) raw"
proof -
  have "raw = take (length raw) (drop pos data)" "s = take (length s) (drop pos data)"
    using assms by (auto simp: occurs_at_def prefix_take_iff)
  then show ?thesis by (metis take_take min.commute min.left_idem)
qed

lemma sample_decides:
  assumes "prefix s (drop pos data)" "length raw \<le> length s" "pos \<le> length data"
  shows "take (length raw) s = raw \<longleftrightarrow> occurs_at data raw pos"
proof -
  have len: "length s \<le> length (drop pos data)" using assms(1) by (rule prefix_length_le)
  have "s = take (length s) (drop pos data)" using assms(1) by (simp add: prefix_take_iff)
  then have "take (length raw) s = take (length raw) (drop pos data)" using assms(2) by (metis min.absorb1 take_take)
  moreover have "pos + length raw \<le> length data" using len assms(2,3) by simp
  ultimately show ?thesis by (simp add: occurs_at_def)
qed

lemma index_position:
  assumes "index_ok data k index" "i < length (ix_positions index)"
  shows "ix_positions index ! i < length data" "has_key data k (ix_positions index ! i)"
proof -
  have "ix_positions index ! i \<in> set (filter (has_key data k) [0..<length data])"
    using assms unfolding index_ok_def by (metis nth_mem)
  then show "ix_positions index ! i < length data" "has_key data k (ix_positions index ! i)" by auto
qed

lemma indexMatchAt_fine:
  assumes "truthful env data" "index_ok data k index" "i < length (ix_positions index)"
  shows "fine env data c (indexMatchAt env index i (ix_positions index ! i) raw c)
    (\<lambda>m c'. m \<longleftrightarrow> occurs_at data raw (ix_positions index ! i))"
proof -
  let ?pos = "ix_positions index ! i"
  let ?Q = "\<lambda>m c'. m \<longleftrightarrow> occurs_at data raw ?pos"
  have pos: "?pos \<le> length data" using index_position [OF assms(2,3)] by simp
  define by_read where "by_read = (if sv_size env < ?pos + length raw then sm_return False
    else sm_bind (read_exact env ?pos (length raw)) (\<lambda>buf. sm_return (buf = raw)))"
  have read: "fine env data c (by_read c) ?Q"
  proof (cases "sv_size env < ?pos + length raw")
    case True
    then show ?thesis unfolding by_read_def using truthful_size [OF assms(1)]
      by (auto intro!: fine_return simp: occurs_at_def)
  next
    case False
    then have le: "?pos + length raw \<le> length data" using truthful_size [OF assms(1)] by simp
    show ?thesis unfolding by_read_def if_not_P [OF False]
      by (rule fine_bind, rule fine_read [OF assms(1) le]) (simp add: fine_return occurs_slice_iff [OF le])
  qed
  show ?thesis
  proof (cases "i < length (ix_samples index)")
    case False
    then show ?thesis using read by (simp add: indexMatchAt_def by_read_def)
  next
    case True
    let ?s = "ix_samples index ! i"
    have s: "prefix ?s (drop ?pos data)" using assms(2) True unfolding index_ok_def by blast
    consider (long) "length raw \<le> length ?s" | (differs) "\<not> length raw \<le> length ?s" "?s \<noteq> take (length ?s) raw"
      | (short) "\<not> length raw \<le> length ?s" "?s = take (length ?s) raw" by blast
    then show ?thesis
    proof cases
      case long
      then show ?thesis using True sample_decides [OF s long pos] by (simp add: indexMatchAt_def fine_return)
    next
      case differs
      then have "min (length ?s) (length raw) = length ?s" by simp
      then have "\<not> occurs_at data raw ?pos" using occurs_prefix_sample [OF s, of raw] differs by auto
      then show ?thesis using True differs by (simp add: indexMatchAt_def fine_return)
    next
      case short
      then show ?thesis using True read by (simp add: indexMatchAt_def by_read_def [symmetric])
    qed
  qed
qed

lemma indexCandidateAt_fine:
  assumes "truthful env data" "index_ok data k index" "i < length (ix_positions index)" "0 < len"
  shows "fine env data c (indexCandidateAt env index i (ix_positions index ! i) len common c)
    (\<lambda>r c'. case r of
        Some x \<Rightarrow> length x = len \<and> occurs_at data x (ix_positions index ! i)
      | None \<Rightarrow> \<forall>raw. length raw = len \<and> prefix common raw \<longrightarrow> \<not> occurs_at data raw (ix_positions index ! i))"
    (is "fine env data c _ ?Q")
proof -
  let ?pos = "ix_positions index ! i"
  have pos: "?pos \<le> length data" using index_position [OF assms(2,3)] by simp
  define by_read where "by_read = (if sv_size env < ?pos + len then sm_return None
    else sm_bind (read_exact env ?pos len) (\<lambda>buf. sm_return (Some buf)))"
  have read: "fine env data c (by_read c) ?Q"
  proof (cases "sv_size env < ?pos + len")
    case True
    then show ?thesis unfolding by_read_def using truthful_size [OF assms(1)]
      by (auto intro!: fine_return simp: occurs_at_def)
  next
    case False
    then have le: "?pos + len \<le> length data" using truthful_size [OF assms(1)] by simp
    then have "length (slice ?pos (?pos + len) data) = len" "occurs_at data (slice ?pos (?pos + len) data) ?pos"
      by (simp_all add: occurs_at_def slice_def)
    then show ?thesis unfolding by_read_def if_not_P [OF False]
      by - (rule fine_bind, rule fine_read [OF assms(1) le], simp add: fine_return)
  qed
  show ?thesis
  proof (cases "i < length (ix_samples index)")
    case False
    then show ?thesis using read assms(4) by (simp add: indexCandidateAt_def by_read_def)
  next
    case True
    let ?s = "ix_samples index ! i" and ?common = "min (length (ix_samples index ! i)) (length common)"
    have s: "prefix ?s (drop ?pos data)" using assms(2) True unfolding index_ok_def by blast
    consider (long) "len \<le> length ?s" | (differs) "\<not> len \<le> length ?s" "0 < ?common \<and> take ?common ?s \<noteq> take ?common common"
      | (short) "\<not> len \<le> length ?s" "\<not> (0 < ?common \<and> take ?common ?s \<noteq> take ?common common)" by blast
    then show ?thesis
    proof cases
      case long
      have "length (take len ?s) = len" using long by simp
      moreover have "occurs_at data (take len ?s) ?pos" using sample_decides [OF s _ pos, of "take len ?s"] long by simp
      ultimately show ?thesis using True long assms(4) by (simp add: indexCandidateAt_def fine_return)
    next
      case differs
      have "\<not> occurs_at data raw ?pos" if raw: "length raw = len" "prefix common raw" for raw
      proof
        assume occ: "occurs_at data raw ?pos"
        have m: "min (length ?s) (length raw) = length ?s" using differs(1) raw(1) by simp
        have eq: "?s = take (length ?s) raw" using occurs_prefix_sample [OF s occ] unfolding m by simp
        have com: "take (length common) raw = common" using raw(2) by (simp add: prefix_take_iff)
        have "take ?common ?s = take ?common raw" using arg_cong [OF eq, of "take ?common"] by simp
        also have "\<dots> = take ?common common" using arg_cong [OF com, of "take ?common"] by (simp add: min.commute)
        finally show False using differs(2) by simp
      qed
      then show ?thesis using True differs assms(4) by (simp add: indexCandidateAt_def fine_return Let_def)
    next
      case short
      have "indexCandidateAt env index i ?pos len common = by_read"
        unfolding indexCandidateAt_def Let_def if_P [OF True] option.case if_not_P [OF short(1)] if_not_P [OF short(2)]
        using assms(4) by (simp add: by_read_def)
      then show ?thesis using read by simp
    qed
  qed
qed

section \<open>The loops over positions\<close>

lemma index_match_loop_fine:
  assumes "truthful env data" "index_ok data (group_key raw) index" "raw \<noteq> []"
    and "i \<le> length (ix_positions index)" "\<And>j. j < i \<Longrightarrow> \<not> occurs_at data raw (ix_positions index ! j)"
  shows "fine env data c (index_match_loop env index raw [i..<length (ix_positions index)] c) (\<lambda>r c'. r = Some (first_match data raw))"
  using assms(4,5)
proof (induction "length (ix_positions index) - i" arbitrary: i c)
  case 0
  have "\<not> occurs_at data raw p" for p
  proof
    assume occ: "occurs_at data raw p"
    then have "p \<in> set (ix_positions index)"
      using group_key_has [OF occ assms(3)] assms(2) by (simp add: index_ok_def)
    then obtain j where "j < length (ix_positions index)" "ix_positions index ! j = p" by (auto simp: in_set_conv_nth)
    then show False using 0 occ by (metis diff_is_0_eq le_antisym)
  qed
  then show ?case using 0 by (simp add: fine_return first_match_absent)
next
  case (Suc n)
  let ?ps = "ix_positions index"
  have i: "i < length ?ps" using Suc.hyps(2) by simp
  then have split: "[i..<length ?ps] = i # [Suc i..<length ?ps]" by (simp add: upt_conv_Cons)
  show ?case unfolding split index_match_loop.simps Let_def
  proof (rule fine_bind, rule fine_poll, rule fine_bind, rule indexMatchAt_fine [OF assms(1,2) i])
    fix m c1
    assume m: "m \<longleftrightarrow> occurs_at data raw (?ps ! i)"
    show "fine env data c1 ((if m then sm_return (Some \<lparr>sm_offset = int (?ps ! i), sm_newlineCount = int (ix_newlines index ! i), sm_found = True\<rparr>)
        else index_match_loop env index raw [Suc i..<length ?ps]) c1) (\<lambda>r c'. r = Some (first_match data raw))"
    proof (cases m)
      case False
      then have "\<not> occurs_at data raw (?ps ! j)" if "j < Suc i" for j using that m Suc.prems(2) less_Suc_eq by blast
      then show ?thesis using Suc.hyps(1) [of "Suc i" c1] Suc.hyps(2) False i by simp
    next
      case True
      have "\<not> occurs_at data raw p" if p: "p < ?ps ! i" for p
      proof
        assume occ: "occurs_at data raw p"
        then have "p \<in> set ?ps" using group_key_has [OF occ assms(3)] assms(2) by (simp add: index_ok_def)
        then obtain j where j: "j < length ?ps" "?ps ! j = p" by (auto simp: in_set_conv_nth)
        have "sorted ?ps" using assms(2) by (simp add: index_ok_def sorted_filter [where f = id, simplified])
        then have "j < i" using j p i by (metis not_le sorted_nth_mono)
        then show False using Suc.prems(2) occ j(2) by blast
      qed
      moreover have "ix_newlines index ! i = bytes_count_newlines (take (?ps ! i) data)"
        using assms(2) i by (simp add: index_ok_def)
      ultimately show ?thesis using True m first_match_at [of data raw "?ps ! i"] by (simp add: fine_return)
    qed
  qed
qed

lemma match_earlier_fine:
  assumes "truthful env data"
  shows "fine env data c (match_earlier env raw hint (Suc p) c) (\<lambda>e c'. e \<longleftrightarrow> int p < hint \<and> occurs_at data raw p)"
proof (cases "hint \<le> int p \<or> sv_size env < p + length raw")
  case True
  then have "\<not> (int p < hint \<and> occurs_at data raw p)"
    using truthful_size [OF assms] occurs_le [of data raw p] by linarith
  then show ?thesis using True by (auto simp: match_earlier_def intro!: fine_return)
next
  case False
  then have le: "p + length raw \<le> length data" using truthful_size [OF assms] by simp
  have "match_earlier env raw hint (Suc p) = sm_bind (read_exact env p (length raw)) (\<lambda>buf. sm_return (buf = raw))"
    using False by (simp add: match_earlier_def)
  then show ?thesis
    using False by simp (rule fine_bind, rule fine_read [OF assms le], simp add: fine_return occurs_slice_iff [OF le])
qed

lemma earlier_loop_fine:
  assumes "truthful env data" "sorted ps"
  shows "fine env data c (earlier_loop env raw hint (map Suc ps) e c) (\<lambda>r c'. r \<longleftrightarrow> e \<or> (\<exists>p \<in> set ps. int p < hint \<and> occurs_at data raw p))"
  using assms(2)
proof (induction ps arbitrary: e c)
  case Nil
  then show ?case by (simp add: fine_return)
next
  case (Cons p ps)
  show ?case
  proof (cases "e \<or> hint \<le> int p")
    case True
    then have "earlier_loop env raw hint (map Suc (p # ps)) e = sm_return e" by auto
    moreover have "e \<longleftrightarrow> e \<or> (\<exists>q \<in> set (p # ps). int q < hint \<and> occurs_at data raw q)"
      using True Cons.prems by fastforce
    ultimately show ?thesis by (simp only:) (rule fine_return, simp)
  next
    case False
    then have "earlier_loop env raw hint (map Suc (p # ps)) e =
        sm_bind (sm_poll env) (\<lambda>_. sm_bind (match_earlier env raw hint (Suc p)) (earlier_loop env raw hint (map Suc ps)))" by simp
    moreover have "fine env data c (sm_bind (sm_poll env) (\<lambda>_. sm_bind (match_earlier env raw hint (Suc p)) (earlier_loop env raw hint (map Suc ps))) c)
        (\<lambda>r c'. r \<longleftrightarrow> e \<or> (\<exists>q \<in> set (p # ps). int q < hint \<and> occurs_at data raw q))"
    proof (rule fine_bind, rule fine_poll, rule fine_bind, rule match_earlier_fine [OF assms(1)])
      fix e1 c1
      assume "e1 \<longleftrightarrow> int p < hint \<and> occurs_at data raw p"
      then show "fine env data c1 (earlier_loop env raw hint (map Suc ps) e1 c1)
          (\<lambda>r c'. r \<longleftrightarrow> e \<or> (\<exists>q \<in> set (p # ps). int q < hint \<and> occurs_at data raw q))"
        using Cons.prems False by (intro fine_weaken [OF Cons.IH [of c1 e1]]) auto
    qed
    ultimately show ?thesis by simp
  qed
qed

section \<open>Hints\<close>

text \<open>A hint is good when it names an occurrence with its line, in the part of the source that has been observed. \<close>

definition hint_good :: "bytes \<Rightarrow> streamMatchCache \<Rightarrow> bytes \<Rightarrow> streamRawHint \<Rightarrow> bool" where
  "hint_good data c raw h \<longleftrightarrow>
     (hint_ok h \<longrightarrow> (\<exists>p. hint_offset h = int p \<and> occurs_at data raw p \<and> hint_newlines h = int (bytes_count_newlines (take p data)) \<and>
        (sm_firstPair c \<noteq> None \<longrightarrow> p < sm_through c)))"

lemma hint_good_later: "later data c c' \<Longrightarrow> hint_good data c' raw h = hint_good data c raw h"
  by (simp add: hint_good_def later_def observation_def)

lemma prefixKey_two: "2 \<le> length raw \<Longrightarrow> prefixKey raw = (pair_key (raw ! 0) (raw ! 1), False) \<and> group_key raw = fst (prefixKey raw)"
  by (cases raw rule: prefixKey.cases) (simp_all add: group_key_def)

lemma sorted_pairs_upto: "sorted (pairs_upto data n k)"
  by (simp add: pairs_upto_def sorted_filter [where f = id, simplified])

lemma prefixLookup_fine:
  assumes "truthful env data" "hint_good data c raw hint"
  shows "fine env data c (prefixLookup env raw hint c) (\<lambda>r c'. \<forall>m. r = Some m \<longrightarrow> m = first_match data raw)"
proof (rule fine_assume)
  assume ok: "cache_ok data c"
  let ?Q = "\<lambda>r c'. \<forall>m. r = Some m \<longrightarrow> m = first_match data raw"
  let ?key = "fst (prefixKey raw)"
  show ?thesis
  proof (cases "hint_ok hint \<and> 2 \<le> length raw \<and> (\<exists>firsts first. sm_firstPair c = Some firsts \<and> firsts ?key = Some first)")
    case False
    then have "prefixLookup env raw hint c = (Inr None, c)" by (auto simp: prefixLookup_def Let_def not_le split: option.splits)
    then show ?thesis by (simp add: fine_value)
  next
    case True
    then obtain firsts first where f: "sm_firstPair c = Some firsts" "firsts ?key = Some first" by blast
    have two: "hint_ok hint" "\<not> length raw < 2" "prefixKey raw = (pair_key (raw ! 0) (raw ! 1), False)" "group_key raw = ?key"
      using True prefixKey_two [of raw] by auto
    obtain p where p: "hint_offset hint = int p" "occurs_at data raw p" "hint_newlines hint = int (bytes_count_newlines (take p data))"
        "p < sm_through c"
      using assms(2) two(1) f(1) by (auto simp: hint_good_def)
    let ?ps = "pairs_upto data (sm_through c - 1) ?key"
    have "observed data (sm_through c - 1) c" using ok f(1) by (simp add: cache_ok_def observation_ok_def)
    then have "pairs_recorded ?ps (firsts ?key) (sm_restPair c ?key)" using f(1) unfolding observed_def by force
    then have rec: "pairs_recorded ?ps (Some first) (sm_restPair c ?key)" using f(2) by simp
    then have ps: "?ps \<noteq> []" "first = Suc (hd ?ps)" by (auto simp: pairs_recorded_def split: if_splits)
    show ?thesis
    proof (cases "length (sm_restPair c ?key) < hintVerifyCandidateCap")
      case True
      then have rest: "sm_restPair c ?key = map Suc (tl ?ps)" using rec by (auto simp: pairs_recorded_def)
      have sorted: "sorted (tl ?ps)" using sorted_pairs_upto [of data "sm_through c - 1" ?key] by (simp add: sorted_tl)
      have all: "set ?ps = insert (hd ?ps) (set (tl ?ps))" using ps(1) by (metis list.collapse list.simps(15))
      have found: "first_match data raw = \<lparr>sm_offset = hint_offset hint, sm_newlineCount = hint_newlines hint, sm_found = True\<rparr>"
        if none: "\<not> (\<exists>q \<in> set ?ps. int q < int p \<and> occurs_at data raw q)"
      proof -
        have "\<not> occurs_at data raw q" if q: "q < p" for q
        proof
          assume occ: "occurs_at data raw q"
          then have t: "take (length raw) (drop q data) = raw" "q + length raw \<le> length data" by (auto simp: occurs_at_def)
          then have "raw ! i = data ! (q + i)" if "i < length raw" for i
            using that by (metis add_leD1 nth_drop nth_take)
          from this [of 0] this [of 1] have "raw ! 0 = data ! q" "raw ! 1 = data ! (q + 1)" using two(2) by fastforce+
          then have "q \<in> set ?ps" using q p(4) two(3) by (auto simp: pairs_upto_def)
          then show False using none q occ by auto
        qed
        then show ?thesis using first_match_at [OF p(2)] p(1,3) by simp
      qed
      have "prefixLookup env raw hint c =
          sm_bind (match_earlier env raw (hint_offset hint) first) (\<lambda>e0.
            sm_bind (earlier_loop env raw (hint_offset hint) (sm_restPair c ?key) e0) (\<lambda>earlier.
              sm_return (if earlier then None
                else Some \<lparr>sm_offset = hint_offset hint, sm_newlineCount = hint_newlines hint, sm_found = True\<rparr>))) c"
        using two f True by (simp add: prefixLookup_def Let_def)
      moreover have "fine env data c (sm_bind (match_earlier env raw (hint_offset hint) first) (\<lambda>e0.
            sm_bind (earlier_loop env raw (hint_offset hint) (sm_restPair c ?key) e0) (\<lambda>earlier.
              sm_return (if earlier then None
                else Some \<lparr>sm_offset = hint_offset hint, sm_newlineCount = hint_newlines hint, sm_found = True\<rparr>))) c) ?Q"
        unfolding ps(2) rest
      proof (rule fine_bind, rule match_earlier_fine [OF assms(1)], rule fine_bind, rule earlier_loop_fine [OF assms(1) sorted])
        fix e0 c1 e c2
        assume "e0 \<longleftrightarrow> int (hd ?ps) < hint_offset hint \<and> occurs_at data raw (hd ?ps)"
          and "e \<longleftrightarrow> e0 \<or> (\<exists>q \<in> set (tl ?ps). int q < hint_offset hint \<and> occurs_at data raw q)"
        then have "e \<longleftrightarrow> (\<exists>q \<in> set ?ps. int q < int p \<and> occurs_at data raw q)" unfolding all p(1) by blast
        then show "fine env data c2 (sm_return (if e then None
            else Some \<lparr>sm_offset = hint_offset hint, sm_newlineCount = hint_newlines hint, sm_found = True\<rparr>) c2) ?Q"
          using found by (intro fine_return) auto
      qed
      ultimately show ?thesis by simp
    next
      case False
      have "prefixLookup env raw hint c =
          sm_bind (prefixIndexes env [?key]) (\<lambda>indexes.
            case indexes ?key of
              None \<Rightarrow> sm_return None
            | Some index \<Rightarrow> index_match_loop env index raw [0..<length (ix_positions index)]) c"
        using two f False by (simp add: prefixLookup_def Let_def)
      moreover have "fine env data c (sm_bind (prefixIndexes env [?key]) (\<lambda>indexes.
            case indexes ?key of
              None \<Rightarrow> sm_return None
            | Some index \<Rightarrow> index_match_loop env index raw [0..<length (ix_positions index)]) c) ?Q"
      proof (rule fine_bind, rule prefixIndexes_fine [OF assms(1)])
        show "\<forall>k \<in> set [?key]. canonical k" using two(4) canonical_group_key [of raw] by simp
      next
        fix indexes c1
        assume i: "indexes_of data indexes"
        show "fine env data c1 ((case indexes ?key of None \<Rightarrow> sm_return None
            | Some index \<Rightarrow> index_match_loop env index raw [0..<length (ix_positions index)]) c1) ?Q"
        proof (cases "indexes ?key")
          case None
          then show ?thesis by (simp add: fine_return)
        next
          case (Some index)
          then have "index_ok data (group_key raw) index" using i two(4) by (simp add: indexes_of_def)
          moreover have "raw \<noteq> []" using two(2) by auto
          ultimately have "fine env data c1 (index_match_loop env index raw [0..<length (ix_positions index)] c1) (\<lambda>r c'. r = Some (first_match data raw))"
            using index_match_loop_fine [OF assms(1), of raw index 0 c1] by simp
          then show ?thesis using Some by (simp add: fine_weaken)
        qed
      qed
      ultimately show ?thesis by simp
    qed
  qed
qed

section \<open>The lookup of one secret\<close>

lemma later_set_value:
  assumes "cache_ok data c" "sm_values c raw = None" "m = first_match data raw"
  shows "later data c (c\<lparr>sm_values := (sm_values c)(raw \<mapsto> m)\<rparr>)"
  using assms by (auto simp: later_def cache_ok_def values_ok_def indexes_ok_def indexFor_def observation_ok_def observed_def observation_def
      map_le_def dom_def)

lemma later_set_same:
  assumes "cache_ok data c" "m = first_match data raw"
  shows "later data c (c\<lparr>sm_values := (sm_values c)(raw \<mapsto> m)\<rparr>)"
proof (cases "sm_values c raw")
  case None
  then show ?thesis using assms later_set_value by blast
next
  case (Some m')
  then have "m' = m" using assms unfolding cache_ok_def values_ok_def by blast
  then have "c\<lparr>sm_values := (sm_values c)(raw \<mapsto> m)\<rparr> = c" using Some by (simp add: fun_upd_idem)
  then show ?thesis using assms by simp
qed

lemma set_value_fine:
  assumes "m = first_match data raw"
  shows "fine env data c (sm_bind (set_value raw m) (\<lambda>_. sm_return m) c) (\<lambda>r c'. r = m \<and> sm_values c' raw = Some m)"
  using later_set_same [OF _ assms] by (simp add: fine_def sm_bind_def set_value_def sm_return_def)

lemma match_raw_fine:
  assumes "truthful env data" "raw \<noteq> []" "hint_good data c raw hint"
  shows "fine env data c (match_raw env raw hint c) (\<lambda>m c'. m = first_match data raw \<and> sm_values c' raw = Some m)"
proof (rule fine_assume)
  assume ok: "cache_ok data c"
  show ?thesis
  proof (cases "sm_values c raw")
    case (Some m)
    then have "m = first_match data raw" using ok unfolding cache_ok_def values_ok_def by blast
    then show ?thesis using Some assms(2) by (simp add: match_raw_def fine_value)
  next
    case None
    show ?thesis unfolding match_raw_def if_not_P [OF assms(2)] None option.case
    proof (rule fine_bind, rule prefixLookup_fine [OF assms(1,3)])
      fix looked c1
      assume l: "\<forall>m. looked = Some m \<longrightarrow> m = first_match data raw"
      show "fine env data c1 ((case looked of Some m \<Rightarrow> sm_bind (set_value raw m) (\<lambda>_. sm_return m)
          | None \<Rightarrow> sm_bind (findReaderMatch env raw) (\<lambda>(off, lines).
              let m = \<lparr>sm_offset = off, sm_newlineCount = int lines, sm_found = 0 \<le> off\<rparr> in
              sm_bind (set_value raw m) (\<lambda>_. sm_return m))) c1)
          (\<lambda>m c'. m = first_match data raw \<and> sm_values c' raw = Some m)"
      proof (cases looked)
        case (Some m)
        then show ?thesis using set_value_fine [of m data raw _ c1] l by (auto intro: fine_weaken)
      next
        case None
        show ?thesis unfolding None option.case
        proof (rule fine_bind, rule findReaderMatch_fine [OF assms(1,2)])
          fix r and c2 :: streamMatchCache
          assume "(case r of (off, lines) \<Rightarrow>
              \<lambda>c'. \<lparr>sm_offset = off, sm_newlineCount = int lines, sm_found = 0 \<le> off\<rparr> = first_match data raw) c2"
          then show "fine env data c2 ((case r of (off, lines) \<Rightarrow>
              let m = \<lparr>sm_offset = off, sm_newlineCount = int lines, sm_found = 0 \<le> off\<rparr> in
              sm_bind (set_value raw m) (\<lambda>_. sm_return m)) c2) (\<lambda>m c'. m = first_match data raw \<and> sm_values c' raw = Some m)"
            using set_value_fine [of _ data raw _ c2] by (cases r) (auto simp: Let_def intro: fine_weaken)
        qed
      qed
    qed
  qed
qed

end
