(* ===== verification/StreamMany.thy ===== *)
theory StreamMany
  imports StreamLookup
begin

text \<open>
  The shared forward scan for many secrets (\<^verbatim>\<open>findReaderMatches\<close>): the groups by first byte, second byte and length hold exactly the
  wanted secrets, and when the scan returns without an error every wanted secret has its first occurrence.
\<close>

section \<open>Orders of iteration, groups\<close>

lemma range_order_set [simp]: "set (range_order env c xs) = set xs"
proof -
  have "(\<lambda>i. xs ! i) ` {..<length xs} = set xs" by (metis atLeast_upt list.set_map map_nth)
  then show ?thesis by (auto simp: range_order_def Let_def)
qed

lemma range_order_length [simp]: "length (range_order env c xs) = length xs"
  by (simp add: range_order_def Let_def)

lemma range_order_distinct: "distinct xs \<Longrightarrow> distinct (range_order env c xs)"
  by (metis card_distinct distinct_card range_order_length range_order_set)

definition lengths_ok :: "bytes set \<Rightarrow> (nat \<times> bytes list) list \<Rightarrow> bool" where
  "lengths_ok V byLen \<longleftrightarrow> distinct (map fst byLen) \<and>
     (\<forall>len. case map_of byLen len of
        None \<Rightarrow> {w \<in> V. length w = len} = {}
      | Some ps \<Rightarrow> set ps = {w \<in> V. length w = len})"

definition second_group_ok :: "bytes set \<Rightarrow> streamRawPrefixGroup \<Rightarrow> bool" where
  "second_group_ok V g \<longleftrightarrow> (\<forall>w \<in> V. prefix (pg_prefix g) w) \<and> lengths_ok V (pg_byLen g)"

definition first_ok :: "bytes set \<Rightarrow> byte \<Rightarrow> streamRawFirstGroup \<Rightarrow> bool" where
  "first_ok W first g \<longleftrightarrow> set (fg_singles g) = {w \<in> W. w = [first]} \<and>
     (\<forall>b. let V = {w \<in> W. 2 \<le> length w \<and> w ! 0 = first \<and> w ! 1 = b} in
        case fg_bySecond g b of None \<Rightarrow> V = {} | Some s \<Rightarrow> second_group_ok V s)"

definition firsts_ok :: "bytes set \<Rightarrow> (byte \<times> streamRawFirstGroup) list \<Rightarrow> bool" where
  "firsts_ok W firsts \<longleftrightarrow> distinct (map fst firsts) \<and>
     (\<forall>first. case map_of firsts first of
        None \<Rightarrow> \<forall>w \<in> W. w \<noteq> [] \<longrightarrow> w ! 0 \<noteq> first
      | Some g \<Rightarrow> first_ok W first g)"

lemma commonPrefix_prefix: "prefix (commonPrefixBytes p r) p" "prefix (commonPrefixBytes p r) r"
  by (induction p r rule: commonPrefixBytes.induct) auto

lemma add_pattern_ok:
  assumes "lengths_ok V byLen"
  shows "lengths_ok (insert raw V) (add_pattern raw byLen)"
proof -
  let ?ps = "List.insert raw (case map_of byLen (length raw) of None \<Rightarrow> [] | Some ps \<Rightarrow> ps)"
  have old: "case map_of byLen len of None \<Rightarrow> {w \<in> V. length w = len} = {} | Some ps \<Rightarrow> set ps = {w \<in> V. length w = len}" for len
    using assms unfolding lengths_ok_def by blast
  have new: "map_of (add_pattern raw byLen) len = (if len = length raw then Some ?ps else map_of byLen len)" for len
    by (simp add: add_pattern_def update_conv')
  have same: "set ?ps = {w \<in> insert raw V. length w = length raw}"
    using old [of "length raw"] by (auto split: option.splits)
  have other: "{w \<in> insert raw V. length w = len} = {w \<in> V. length w = len}" if "len \<noteq> length raw" for len using that by auto
  have "case map_of (add_pattern raw byLen) len of
      None \<Rightarrow> {w \<in> insert raw V. length w = len} = {} | Some ps \<Rightarrow> set ps = {w \<in> insert raw V. length w = len}" for len
  proof (cases "len = length raw")
    case True
    then show ?thesis unfolding new using same by simp
  next
    case False
    show ?thesis unfolding new if_not_P [OF False] other [OF False] by (rule old)
  qed
  moreover have "distinct (map fst (add_pattern raw byLen))"
    using assms by (simp add: add_pattern_def lengths_ok_def distinct_update)
  ultimately show ?thesis unfolding lengths_ok_def by blast
qed

lemma lengths_ok_empty: "lengths_ok {} []"
  by (simp add: lengths_ok_def)

lemma add_patterns_ok: "lengths_ok V byLen \<Longrightarrow> lengths_ok (V \<union> set raws) (fold add_pattern raws byLen)"
proof (induction raws arbitrary: V byLen)
  case (Cons raw raws)
  then show ?case using Cons.IH [OF add_pattern_ok [OF Cons.prems, of raw]] by simp
qed simp

lemma add_second_ok:
  assumes "case s of None \<Rightarrow> V = {} | Some g \<Rightarrow> second_group_ok V g"
  shows "second_group_ok (insert raw V) (add_second raw s)"
proof (cases s)
  case None
  then show ?thesis using assms add_pattern_ok [OF lengths_ok_empty] by (simp add: add_second_def second_group_ok_def)
next
  case (Some g)
  then have g: "\<forall>w \<in> V. prefix (pg_prefix g) w" "lengths_ok V (pg_byLen g)" using assms by (simp_all add: second_group_ok_def)
  then have "\<forall>w \<in> insert raw V. prefix (commonPrefixBytes (pg_prefix g) raw) w"
    using commonPrefix_prefix prefix_order.trans by blast
  then show ?thesis using Some add_pattern_ok [OF g(2)] by (simp add: add_second_def second_group_ok_def)
qed

lemma add_first_ok:
  assumes "case s of None \<Rightarrow> \<forall>w \<in> W. w \<noteq> [] \<longrightarrow> w ! 0 \<noteq> raw ! 0 | Some g \<Rightarrow> first_ok W (raw ! 0) g" "raw \<noteq> []"
  shows "first_ok (insert raw W) (raw ! 0) (add_first raw s)"
proof -
  define g where "g = (case s of None \<Rightarrow> \<lparr>fg_singles = [], fg_bySecond = Map.empty\<rparr> | Some g \<Rightarrow> g)"
  have g: "first_ok W (raw ! 0) g"
  proof (cases s)
    case None
    then have none: "w ! 0 \<noteq> raw ! 0" if "w \<in> W" "w \<noteq> []" for w using assms(1) that by simp
    then have "{w \<in> W. w = [raw ! 0]} = {}" "{w \<in> W. 2 \<le> length w \<and> w ! 0 = raw ! 0 \<and> w ! 1 = b} = {}" for b by fastforce+
    then show ?thesis using None by (simp add: g_def first_ok_def)
  qed (use assms g_def in simp)
  show ?thesis
  proof (cases "length raw = 1")
    case True
    then have raw: "raw = [raw ! 0]" by (cases raw) auto
    have "{w \<in> insert raw W. 2 \<le> length w \<and> w ! 0 = raw ! 0 \<and> w ! 1 = b} = {w \<in> W. 2 \<le> length w \<and> w ! 0 = raw ! 0 \<and> w ! 1 = b}" for b
      using True by auto
    moreover have "{w \<in> insert raw W. w = [raw ! 0]} = insert raw {w \<in> W. w = [raw ! 0]}" using raw by auto
    ultimately show ?thesis using g True by (simp add: add_first_def g_def [symmetric] first_ok_def)
  next
    case False
    then have two: "2 \<le> length raw" using assms(2) by (cases raw rule: prefixKey.cases) auto
    define V where "V b = {w \<in> W. 2 \<le> length w \<and> w ! 0 = raw ! 0 \<and> w ! 1 = b}" for b
    have new: "{w \<in> insert raw W. 2 \<le> length w \<and> w ! 0 = raw ! 0 \<and> w ! 1 = b} = (if b = raw ! 1 then insert raw (V b) else V b)" for b
      using two by (auto simp: V_def)
    have "raw \<noteq> [raw ! 0]" using False by (metis One_nat_def length_Cons list.size(3))
    then have single: "{w \<in> insert raw W. w = [raw ! 0]} = {w \<in> W. w = [raw ! 0]}" by auto
    have seconds: "case fg_bySecond g b of None \<Rightarrow> V b = {} | Some s \<Rightarrow> second_group_ok (V b) s" for b
      using g unfolding first_ok_def V_def Let_def by blast
    have "second_group_ok (insert raw (V (raw ! 1))) (add_second raw (fg_bySecond g (raw ! 1)))"
      by (rule add_second_ok [OF seconds])
    then have "case (if b = raw ! 1 then Some (add_second raw (fg_bySecond g (raw ! 1))) else fg_bySecond g b) of
        None \<Rightarrow> (if b = raw ! 1 then insert raw (V b) else V b) = {}
      | Some s \<Rightarrow> second_group_ok (if b = raw ! 1 then insert raw (V b) else V b) s" for b
      using seconds [of b] by simp
    moreover have "fg_bySecond (add_first raw s) b =
        (if b = raw ! 1 then Some (add_second raw (fg_bySecond g (raw ! 1))) else fg_bySecond g b)"
      "fg_singles (add_first raw s) = fg_singles g" for b
      using False by (simp_all add: add_first_def g_def [symmetric])
    moreover have "set (fg_singles g) = {w \<in> W. w = [raw ! 0]}" using g unfolding first_ok_def by blast
    ultimately show ?thesis unfolding first_ok_def new single Let_def by (simp only:) blast
  qed
qed

lemma first_ok_other:
  assumes "first_ok W first g" "raw = [] \<or> raw ! 0 \<noteq> first"
  shows "first_ok (insert raw W) first g"
proof -
  have "{w \<in> insert raw W. w = [first]} = {w \<in> W. w = [first]}"
    "{w \<in> insert raw W. 2 \<le> length w \<and> w ! 0 = first \<and> w ! 1 = b} = {w \<in> W. 2 \<le> length w \<and> w ! 0 = first \<and> w ! 1 = b}" for b
    using assms(2) by auto
  then show ?thesis using assms(1) by (simp add: first_ok_def)
qed

lemma add_wanted_ok:
  assumes "firsts_ok W firsts"
  shows "firsts_ok (insert raw W) (add_wanted raw firsts)"
proof -
  have old: "case map_of firsts first of None \<Rightarrow> \<forall>w \<in> W. w \<noteq> [] \<longrightarrow> w ! 0 \<noteq> first | Some g \<Rightarrow> first_ok W first g" for first
    using assms unfolding firsts_ok_def by blast
  show ?thesis
  proof (cases "raw = []")
    case True
    have "case map_of firsts first of None \<Rightarrow> \<forall>w \<in> insert raw W. w \<noteq> [] \<longrightarrow> w ! 0 \<noteq> first | Some g \<Rightarrow> first_ok (insert raw W) first g" for first
      using old [of first] first_ok_other [of W first _ raw] True by (cases "map_of firsts first") auto
    then show ?thesis using assms True unfolding firsts_ok_def by (simp add: add_wanted_def)
  next
    case False
    then have hd: "hd raw = raw ! 0" by (simp add: hd_conv_nth)
    have "map_of (add_wanted raw firsts) first =
        (if first = raw ! 0 then Some (add_first raw (map_of firsts (raw ! 0))) else map_of firsts first)" for first
      using False by (simp add: add_wanted_def update_conv' hd)
    moreover have "first_ok (insert raw W) (raw ! 0) (add_first raw (map_of firsts (raw ! 0)))"
      by (rule add_first_ok [OF old False])
    moreover have "case map_of firsts first of None \<Rightarrow> \<forall>w \<in> insert raw W. w \<noteq> [] \<longrightarrow> w ! 0 \<noteq> first | Some g \<Rightarrow> first_ok (insert raw W) first g"
      if "first \<noteq> raw ! 0" for first
      using old [of first] first_ok_other [of W first _ raw] that by (cases "map_of firsts first") auto
    ultimately have "case map_of (add_wanted raw firsts) first of
        None \<Rightarrow> \<forall>w \<in> insert raw W. w \<noteq> [] \<longrightarrow> w ! 0 \<noteq> first | Some g \<Rightarrow> first_ok (insert raw W) first g" for first
      by (cases "first = raw ! 0") simp_all
    moreover have "distinct (map fst (add_wanted raw firsts))"
      using assms False by (simp add: add_wanted_def firsts_ok_def distinct_update)
    ultimately show ?thesis unfolding firsts_ok_def by blast
  qed
qed

lemma add_all_wanted_ok: "firsts_ok W firsts \<Longrightarrow> firsts_ok (W \<union> set raws) (fold add_wanted raws firsts)"
proof (induction raws arbitrary: W firsts)
  case (Cons raw raws)
  then show ?case using Cons.IH [OF add_wanted_ok [OF Cons.prems, of raw]] by simp
qed simp

section \<open>What a scan has seen\<close>

text \<open>Every occurrence of a secret of \<open>S\<close> that starts before \<open>n\<close> and ends by \<open>e\<close> has led to a value.\<close>

definition seen :: "bytes \<Rightarrow> bytes set \<Rightarrow> nat \<Rightarrow> nat \<Rightarrow> streamMatchCache \<Rightarrow> bool" where
  "seen data S e n c \<longleftrightarrow> (\<forall>w \<in> S. \<forall>q < n. q + length w \<le> e \<and> occurs_at data w q \<longrightarrow> sm_values c w \<noteq> None)"

definition all_known :: "bytes set \<Rightarrow> streamMatchCache \<Rightarrow> bool" where
  "all_known W c \<longleftrightarrow> (\<forall>w \<in> W. sm_values c w \<noteq> None)"

definition counted :: "bytes set \<Rightarrow> nat \<Rightarrow> streamMatchCache \<Rightarrow> bool" where
  "counted W found c \<longleftrightarrow> found \<le> card {w \<in> W. sm_values c w \<noteq> None}"

lemma later_not_None: "later data c c' \<Longrightarrow> sm_values c w \<noteq> None \<Longrightarrow> sm_values c' w \<noteq> None"
  using later_known [of data c c' w] by fastforce

lemma seen_later: "later data c c' \<Longrightarrow> seen data S e n c \<Longrightarrow> seen data S e n c'"
  unfolding seen_def using later_not_None by blast

lemma counted_later:
  assumes "later data c c'" "counted W found c" "finite W"
  shows "counted W found c'"
proof -
  have "{w \<in> W. sm_values c w \<noteq> None} \<subseteq> {w \<in> W. sm_values c' w \<noteq> None}" using later_not_None [OF assms(1)] by blast
  then have "card {w \<in> W. sm_values c w \<noteq> None} \<le> card {w \<in> W. sm_values c' w \<noteq> None}"
    using assms(3) by (intro card_mono) auto
  then show ?thesis using assms(2) by (simp add: counted_def)
qed

text \<open>The frame of one block: where it starts, the lines before it, the secrets wanted.\<close>

definition frame :: "bytes \<Rightarrow> bytes set \<Rightarrow> nat \<Rightarrow> bytes \<Rightarrow> nat \<Rightarrow> nat \<Rightarrow> bool" where
  "frame data W n_wanted buf start lineCount \<longleftrightarrow>
     finite W \<and> card W = n_wanted \<and> block_of data start buf \<and> lineCount = bytes_count_newlines (take start data)"

lemma record_hit_fine:
  assumes "frame data W n_wanted buf start lineCount" "key \<in> W" "occurs_at buf key off"
    and "seen data {key} (start + length buf) (start + off) c" "counted W found c"
  shows "fine env data c (record_hit n_wanted buf start lineCount off key found c)
    (\<lambda>(finished, found1) c'. sm_values c' key \<noteq> None \<and> counted W found1 c' \<and> (finished \<longrightarrow> all_known W c'))"
proof (cases "sm_values c key")
  case (Some m)
  then show ?thesis using assms(5) by (simp add: record_hit_def fine_value)
next
  case None
  let ?m = "\<lparr>sm_offset = int (start + off), sm_newlineCount = int (lineCount + bytes_count_newlines (take off buf)), sm_found = True\<rparr>"
  let ?c = "c\<lparr>sm_values := (sm_values c)(key \<mapsto> ?m)\<rparr>"
  have b: "block_of data start buf" and fin: "finite W" "card W = n_wanted" using assms(1) by (simp_all add: frame_def)
  have len: "off + length key \<le> length buf" using assms(3) by (rule occurs_le)
  then have at: "occurs_at data key (start + off)" using block_occurs [OF b, of "start + off" key] assms(3) by simp
  have "\<not> occurs_at data key q" if "q < start + off" for q
    using assms(4) that len None by (auto simp: seen_def)
  then have m: "?m = first_match data key"
    using first_match_at [OF at] block_newlines [OF b, of off] assms(1) len by (simp add: frame_def)
  have "{w \<in> W. sm_values ?c w \<noteq> None} = insert key {w \<in> W. sm_values c w \<noteq> None}" using assms(2) by auto
  moreover have "card (insert key {w \<in> W. sm_values c w \<noteq> None}) = Suc (card {w \<in> W. sm_values c w \<noteq> None})"
    using fin(1) None by simp
  ultimately have count: "counted W (found + 1) ?c" using assms(5) by (simp add: counted_def)
  have "all_known W ?c" if "found + 1 = n_wanted"
  proof -
    have "card W \<le> card {w \<in> W. sm_values ?c w \<noteq> None}" using count that fin(2) by (simp add: counted_def)
    then have "{w \<in> W. sm_values ?c w \<noteq> None} = W" using fin(1) by (intro card_seteq) auto
    then show ?thesis unfolding all_known_def by blast
  qed
  then show ?thesis
    unfolding fine_def record_hit_def using None count later_set_value [OF _ None m] by simp
qed

lemma try_pattern_fine:
  assumes "frame data W n_wanted buf start lineCount" "set patterns = {w \<in> V. length w = len}" "V \<subseteq> W" "V \<subseteq> S"
    and "seen data S (start + length buf) (start + off) c" "counted W found c"
  shows "fine env data c (try_pattern n_wanted buf start lineCount off len patterns found c)
    (\<lambda>(finished, found1) c'. (\<forall>w \<in> set patterns. occurs_at buf w off \<longrightarrow> sm_values c' w \<noteq> None) \<and> counted W found1 c' \<and>
       (finished \<longrightarrow> all_known W c'))"
proof (cases "length buf < off + len")
  case True
  have "\<not> occurs_at buf w off" if "w \<in> set patterns" for w
  proof
    assume "occurs_at buf w off"
    then show False using occurs_le [of buf w off] that assms(2) True by auto
  qed
  then show ?thesis using True assms(6) by (auto simp: try_pattern_def intro!: fine_return)
next
  case False
  let ?key = "slice off (off + len) buf"
  have eq: "w = ?key" if "w \<in> set patterns" "occurs_at buf w off" for w
    using that assms(2) by (auto simp: occurs_at_def slice_def)
  show ?thesis
  proof (cases "?key \<in> set patterns")
    case no: False
    then have "\<not> occurs_at buf w off" if "w \<in> set patterns" for w using eq that by blast
    then show ?thesis using no False assms(6) by (auto simp: try_pattern_def Let_def intro!: fine_return)
  next
    case yes: True
    have occ: "occurs_at buf ?key off" using False by (simp add: occurs_at_def slice_def)
    have "seen data {?key} (start + length buf) (start + off) c"
      using assms(2,4,5) yes unfolding seen_def by blast
    then have "fine env data c (record_hit n_wanted buf start lineCount off ?key found c)
        (\<lambda>(finished, found1) c'. sm_values c' ?key \<noteq> None \<and> counted W found1 c' \<and> (finished \<longrightarrow> all_known W c'))"
      using record_hit_fine [OF assms(1) _ occ _ assms(6)] yes assms(2,3) by blast
    then have "fine env data c (record_hit n_wanted buf start lineCount off ?key found c)
        (\<lambda>(finished, found1) c'. (\<forall>w \<in> set patterns. occurs_at buf w off \<longrightarrow> sm_values c' w \<noteq> None) \<and> counted W found1 c' \<and>
          (finished \<longrightarrow> all_known W c'))"
      by (rule fine_weaken) (use eq in \<open>auto split: prod.splits\<close>)
    then show ?thesis using yes False by (simp add: try_pattern_def Let_def)
  qed
qed

lemma lengths_loop_fine:
  assumes "frame data W n_wanted buf start lineCount" "V \<subseteq> W" "V \<subseteq> S"
    and "\<forall>(len, patterns) \<in> set byLen. set patterns = {w \<in> V. length w = len}"
    and "seen data S (start + length buf) (start + off) c" "counted W found c"
  shows "fine env data c (lengths_loop n_wanted buf start lineCount off byLen found c)
    (\<lambda>(finished, found1) c'. counted W found1 c' \<and> (finished \<longrightarrow> all_known W c') \<and>
       (\<not> finished \<longrightarrow> (\<forall>w \<in> V. length w \<in> fst ` set byLen \<and> occurs_at buf w off \<longrightarrow> sm_values c' w \<noteq> None)))"
  using assms(4-6)
proof (induction byLen arbitrary: found c)
  case Nil
  then show ?case by (simp add: fine_return)
next
  case (Cons lp byLen)
  obtain len patterns where lp: "lp = (len, patterns)" by fastforce
  then have pat: "set patterns = {w \<in> V. length w = len}" using Cons.prems(1) by simp
  have fin: "finite W" using assms(1) by (simp add: frame_def)
  show ?case unfolding lp lengths_loop.simps
  proof (rule fine_bind, rule try_pattern_fine [OF assms(1) pat assms(2,3) Cons.prems(2,3)])
    fix r and c1 :: streamMatchCache
    assume l: "later data c c1" and r: "(case r of (finished, found1) \<Rightarrow> \<lambda>c'. (\<forall>w \<in> set patterns. occurs_at buf w off \<longrightarrow> sm_values c' w \<noteq> None) \<and>
        counted W found1 c' \<and> (finished \<longrightarrow> all_known W c')) c1"
    obtain finished found1 where rr: "r = (finished, found1)" by fastforce
    have k: "\<forall>w \<in> set patterns. occurs_at buf w off \<longrightarrow> sm_values c1 w \<noteq> None" "counted W found1 c1" "finished \<Longrightarrow> all_known W c1"
      using r rr by auto
    show "fine env data c1 ((case r of (finished, found1) \<Rightarrow>
          if finished then sm_return (True, found1) else lengths_loop n_wanted buf start lineCount off byLen found1) c1)
        (\<lambda>(finished, found1) c'. counted W found1 c' \<and> (finished \<longrightarrow> all_known W c') \<and>
          (\<not> finished \<longrightarrow> (\<forall>w \<in> V. length w \<in> fst ` set ((len, patterns) # byLen) \<and> occurs_at buf w off \<longrightarrow> sm_values c' w \<noteq> None)))"
    proof (cases finished)
      case True
      then show ?thesis using k rr by (simp add: fine_return)
    next
      case False
      have "fine env data c1 (lengths_loop n_wanted buf start lineCount off byLen found1 c1)
          (\<lambda>(finished, found1) c'. counted W found1 c' \<and> (finished \<longrightarrow> all_known W c') \<and>
            (\<not> finished \<longrightarrow> (\<forall>w \<in> V. length w \<in> fst ` set ((len, patterns) # byLen) \<and> occurs_at buf w off \<longrightarrow> sm_values c' w \<noteq> None)))"
      proof (rule fine_weaken [OF Cons.IH [OF _ seen_later [OF l Cons.prems(2)] k(2)]])
        show "\<forall>(len, patterns) \<in> set byLen. set patterns = {w \<in> V. length w = len}" using Cons.prems(1) by simp
      next
        fix r' and c2 :: streamMatchCache
        assume l2: "later data c1 c2" and "(case r' of (finished, found1) \<Rightarrow> \<lambda>c'. counted W found1 c' \<and> (finished \<longrightarrow> all_known W c') \<and>
            (\<not> finished \<longrightarrow> (\<forall>w \<in> V. length w \<in> fst ` set byLen \<and> occurs_at buf w off \<longrightarrow> sm_values c' w \<noteq> None))) c2"
        moreover have "sm_values c2 w \<noteq> None" if "w \<in> V" "length w = len" "occurs_at buf w off" for w
          using later_not_None [OF l2, of w] k(1) pat that by blast
        ultimately show "(case r' of (finished, found1) \<Rightarrow> \<lambda>c'. counted W found1 c' \<and> (finished \<longrightarrow> all_known W c') \<and>
            (\<not> finished \<longrightarrow> (\<forall>w \<in> V. length w \<in> fst ` set ((len, patterns) # byLen) \<and> occurs_at buf w off \<longrightarrow> sm_values c' w \<noteq> None))) c2"
          by (cases r') auto
      qed
      then show ?thesis using False rr by simp
    qed
  qed
qed

section \<open>One offset, one first byte\<close>

definition starting :: "bytes set \<Rightarrow> byte \<Rightarrow> bytes set" where
  "starting W first = {w \<in> W. w \<noteq> [] \<and> w ! 0 = first}"

lemma occurs_nth: "occurs_at buf w off \<Longrightarrow> i < length w \<Longrightarrow> buf ! (off + i) = w ! i"
  unfolding occurs_at_def by (metis add_leD1 nth_drop nth_take)

lemma visit_offset_fine:
  assumes "frame data W n_wanted buf start lineCount" "first_ok W first grp"
    and "seen data (starting W first) (start + length buf) (start + off) c" "counted W found c"
  shows "fine env data c (visit_offset env n_wanted buf start lineCount grp off found c)
    (\<lambda>(finished, found1) c'. counted W found1 c' \<and> (finished \<longrightarrow> all_known W c') \<and>
       (\<not> finished \<longrightarrow> (\<forall>w \<in> starting W first. occurs_at buf w off \<longrightarrow> sm_values c' w \<noteq> None)))"
    (is "fine env data c _ ?Q")
proof -
  let ?one = "{w \<in> W. w = [first]}" and ?S = "starting W first"
  have single: "set (fg_singles grp) = {w \<in> ?one. length w = 1}" using assms(2) by (auto simp: first_ok_def)
  have sub: "?one \<subseteq> W" "?one \<subseteq> ?S" by (auto simp: starting_def)
  show ?thesis unfolding visit_offset_def
  proof (rule fine_bind, rule try_pattern_fine [OF assms(1) single sub assms(3,4)])
    fix r and c1 :: streamMatchCache
    assume l: "later data c c1" and "(case r of (finished, found1) \<Rightarrow> \<lambda>c'. (\<forall>w \<in> set (fg_singles grp). occurs_at buf w off \<longrightarrow> sm_values c' w \<noteq> None) \<and>
        counted W found1 c' \<and> (finished \<longrightarrow> all_known W c')) c1"
    moreover obtain finished found1 where r: "r = (finished, found1)" by fastforce
    ultimately have one: "\<forall>w \<in> ?one. occurs_at buf w off \<longrightarrow> sm_values c1 w \<noteq> None" and k: "counted W found1 c1"
      and fin: "finished \<longrightarrow> all_known W c1"
      using single by auto
    have fwd: "sm_values c2 [first] \<noteq> None" if "later data c1 c2" "[first] \<in> W" "occurs_at buf [first] off" for c2
      using later_not_None [OF that(1)] one that(2,3) by blast
    have stop: "fine env data c1 (sm_return (False, found1) c1) ?Q"
      if "\<And>w. w \<in> ?S \<Longrightarrow> 2 \<le> length w \<Longrightarrow> \<not> occurs_at buf w off"
    proof (rule fine_return)
      have "sm_values c1 w \<noteq> None" if w: "w \<in> ?S" "occurs_at buf w off" for w
      proof -
        have "\<not> 2 \<le> length w" using that \<open>\<And>w. w \<in> ?S \<Longrightarrow> 2 \<le> length w \<Longrightarrow> \<not> occurs_at buf w off\<close> w by blast
        then have "w = [first]" using w(1) by (cases w rule: prefixKey.cases) (auto simp: starting_def)
        then show ?thesis using one w by (auto simp: starting_def)
      qed
      then show "(case (False, found1) of (finished, found1) \<Rightarrow> \<lambda>c'. counted W found1 c' \<and> (finished \<longrightarrow> all_known W c') \<and>
          (\<not> finished \<longrightarrow> (\<forall>w \<in> ?S. occurs_at buf w off \<longrightarrow> sm_values c' w \<noteq> None))) c1" using k by simp
    qed
    show "fine env data c1 ((case r of (finished, found1) \<Rightarrow>
        if finished then sm_return (True, found1)
        else if length buf \<le> off + 1 then sm_return (False, found1)
        else case fg_bySecond grp (buf ! (off + 1)) of
          None \<Rightarrow> sm_return (False, found1)
        | Some second \<Rightarrow>
            let prefixEnd = off + length (pg_prefix second) in
            if length buf < prefixEnd \<or> slice off prefixEnd buf \<noteq> pg_prefix second then sm_return (False, found1)
            else (\<lambda>c. lengths_loop n_wanted buf start lineCount off (range_order env c (pg_byLen second)) found1 c)) c1) ?Q"
    proof (cases "finished \<or> length buf \<le> off + 1")
      case True
      have "\<not> occurs_at buf w off" if "length buf \<le> off + 1" "2 \<le> length w" for w using that occurs_le [of buf w off] by fastforce
      then show ?thesis using True r k fin stop by (cases finished) (auto intro!: fine_return)
    next
      case False
      let ?b = "buf ! (off + 1)"
      let ?V = "{w \<in> W. 2 \<le> length w \<and> w ! 0 = first \<and> w ! 1 = ?b}"
      have V: "w \<in> ?V" if "w \<in> ?S" "2 \<le> length w" "occurs_at buf w off" for w
        using that occurs_nth [OF that(3), of 1] by (auto simp: starting_def)
      have second: "case fg_bySecond grp ?b of None \<Rightarrow> ?V = {} | Some s \<Rightarrow> second_group_ok ?V s"
        using assms(2) unfolding first_ok_def Let_def by blast
      show ?thesis
      proof (cases "fg_bySecond grp ?b")
        case None
        then have "?V = {}" using second by simp
        then show ?thesis using False None r stop V by auto
      next
        case (Some s)
        then have s: "\<forall>w \<in> ?V. prefix (pg_prefix s) w" "lengths_ok ?V (pg_byLen s)" using second by (simp_all add: second_group_ok_def)
        let ?stop = "off + length (pg_prefix s)"
        show ?thesis
        proof (cases "length buf < ?stop \<or> slice off ?stop buf \<noteq> pg_prefix s")
          case True
          have "\<not> occurs_at buf w off" if w: "w \<in> ?S" "2 \<le> length w" for w
          proof
            assume occ: "occurs_at buf w off"
            then have p: "prefix (pg_prefix s) w" using s(1) V [OF w occ] by blast
            have "take (length w) (drop off buf) = w" using occ by (simp add: occurs_at_def)
            then have "take (length (pg_prefix s)) (drop off buf) = pg_prefix s"
              using p prefix_length_le [OF p] by (metis min.absorb1 prefix_take_iff take_take)
            then show False using True occurs_le [OF occ] prefix_length_le [OF p] by (auto simp: slice_def)
          qed
          then show ?thesis using False Some r stop True by auto
        next
          case go: False
          let ?byLen = "range_order env c1 (pg_byLen s)"
          have pats: "\<forall>(len, patterns) \<in> set ?byLen. set patterns = {w \<in> ?V. length w = len}"
            using s(2) unfolding lengths_ok_def range_order_set by (auto dest!: map_of_is_SomeI split: option.splits) (metis+)?
          have lens: "length w \<in> fst ` set ?byLen" if "w \<in> ?V" for w
          proof -
            have "map_of (pg_byLen s) (length w) \<noteq> None" using s(2) that unfolding lengths_ok_def by (auto split: option.splits)
            then show ?thesis by (simp add: map_of_eq_None_iff)
          qed
          have "fine env data c1 (lengths_loop n_wanted buf start lineCount off ?byLen found1 c1)
              (\<lambda>(finished, found1) c'. counted W found1 c' \<and> (finished \<longrightarrow> all_known W c') \<and>
                (\<not> finished \<longrightarrow> (\<forall>w \<in> ?V. length w \<in> fst ` set ?byLen \<and> occurs_at buf w off \<longrightarrow> sm_values c' w \<noteq> None)))"
            by (rule lengths_loop_fine [OF assms(1) _ _ pats seen_later [OF l assms(3)] k]) (auto simp: starting_def)
          then have "fine env data c1 (lengths_loop n_wanted buf start lineCount off ?byLen found1 c1) ?Q"
          proof (rule fine_weaken)
            fix r' and c2 :: streamMatchCache
            assume l2: "later data c1 c2" and "(case r' of (finished, found1) \<Rightarrow> \<lambda>c'. counted W found1 c' \<and> (finished \<longrightarrow> all_known W c') \<and>
                (\<not> finished \<longrightarrow> (\<forall>w \<in> ?V. length w \<in> fst ` set ?byLen \<and> occurs_at buf w off \<longrightarrow> sm_values c' w \<noteq> None))) c2"
            moreover have "w = [first] \<and> [first] \<in> W \<or> 2 \<le> length w" if "w \<in> ?S" for w
              using that by (cases w rule: prefixKey.cases) (auto simp: starting_def)
            ultimately show "?Q r' c2" using fwd [OF l2] V lens by (cases r') blast
          qed
          then show ?thesis using False Some go r by simp
        qed
      qed
    qed
  qed
qed

lemma hits_loop_fine:
  assumes "frame data W n_wanted buf start lineCount" "first_ok W first grp"
    and "seen data (starting W first) (start + length buf) (start + pos) c" "counted W found c"
  shows "fine env data c (hits_loop env n_wanted buf start lineCount first grp pos found hits c)
    (\<lambda>(finished, found1, hits1) c'. counted W found1 c' \<and> (finished \<longrightarrow> all_known W c') \<and>
       (\<not> finished \<longrightarrow> seen data (starting W first) (start + length buf) (start + length buf) c'))"
    (is "fine env data c _ ?Q")
  using assms
proof (induction env n_wanted buf start lineCount first grp pos found hits c rule: hits_loop.induct)
  case (1 env n_wanted buf start lineCount first grp pos found hits c)
  let ?S = "starting W first" and ?e = "start + length buf"
  let ?next = "if pos < length buf then bytes_index (drop pos buf) [first] else None"
  let ?R = "\<lambda>(finished, found1, hits1) c'. counted W found1 c' \<and> (finished \<longrightarrow> all_known W c') \<and>
       (\<not> finished \<longrightarrow> seen data ?S ?e ?e c')"
  note prems = "1.prems"
  have b: "block_of data start buf" using prems(1) by (simp add: frame_def)
  have skip: "seen data ?S ?e (start + n) c'"
    if "seen data ?S ?e (start + pos) c'" "\<And>j. pos \<le> j \<Longrightarrow> j < n \<Longrightarrow> j < length buf \<Longrightarrow> buf ! j \<noteq> first" for n c'
    unfolding seen_def
  proof (intro ballI allI impI)
    fix w q
    assume w: "w \<in> ?S" and q: "q < start + n" "q + length w \<le> ?e \<and> occurs_at data w q"
    show "sm_values c' w \<noteq> None"
    proof (cases "q < start + pos")
      case True
      then show ?thesis using that(1) w q(2) unfolding seen_def by blast
    next
      case False
      have "0 < length w" using w by (simp add: starting_def)
      then have j: "pos \<le> q - start" "q - start < n" "q - start < length buf" "start + (q - start) = q" using False q by linarith+
      then have "buf ! (q - start) = first"
        using block_nth [OF b j(3)] occurs_nth [OF conjunct2 [OF q(2)], of 0] w by (simp add: starting_def)
      then show ?thesis using that(2) j by blast
    qed
  qed
  show ?case
  proof (cases ?next)
    case None
    have none: "buf ! j \<noteq> first" if "pos \<le> j" "j < length buf" for j
    proof -
      have "\<not> occurs_at (drop pos buf) [first] (j - pos)" using None that by (auto simp: bytes_index_None split: if_splits)
      then show ?thesis using that by (simp add: occurs_one)
    qed
    have "hits_loop env n_wanted buf start lineCount first grp pos found hits c = (Inr (False, found, hits), c)"
      unfolding hits_loop.simps [of env n_wanted buf start lineCount first grp pos found hits c] None by simp
    then show ?thesis using skip [OF prems(3), of "length buf"] none prems(4) by (simp add: fine_value)
  next
    case (Some i)
    let ?off = "i + pos"
    have "bytes_index (drop pos buf) [first] = Some i" using Some by (simp split: if_splits)
    then have i: "occurs_at (drop pos buf) [first] i" "\<And>j. j < i \<Longrightarrow> \<not> occurs_at (drop pos buf) [first] j"
      by (auto simp: bytes_index_Some)
    have before: "buf ! j \<noteq> first" if "pos \<le> j" "j < ?off" "j < length buf" for j
      using i(2) [of "j - pos"] that by (auto simp: occurs_one)
    have s: "seen data ?S ?e (start + ?off) c" by (rule skip [OF prems(3)]) (rule before)
    define poll where "poll = (if (hits + 1) mod 256 = 0 then sm_poll env else sm_return ())"
    have poll: "fine env data c (poll c) (\<lambda>_ c'. True)" unfolding poll_def by (simp add: fine_poll fine_return)
    have step: "hits_loop env n_wanted buf start lineCount first grp pos found hits c =
        sm_bind poll (\<lambda>_. sm_bind (visit_offset env n_wanted buf start lineCount grp ?off found) (\<lambda>(finished, found1) c1.
          if finished then (Inr (True, found1, hits + 1), c1)
          else hits_loop env n_wanted buf start lineCount first grp (?off + 1) found1 (hits + 1) c1)) c"
      unfolding hits_loop.simps [of env n_wanted buf start lineCount first grp pos found hits c] Some option.case Let_def poll_def ..
    show ?thesis unfolding step
    proof (rule fine_bind, rule poll)
      fix x c1
      assume p: "poll c = (Inr x, c1)" and l: "later data c c1"
      have fin: "finite W" using prems(1) by (simp add: frame_def)
      show "fine env data c1 (sm_bind (visit_offset env n_wanted buf start lineCount grp ?off found) (\<lambda>(finished, found1) c1.
          if finished then (Inr (True, found1, hits + 1), c1)
          else hits_loop env n_wanted buf start lineCount first grp (?off + 1) found1 (hits + 1) c1) c1) ?R"
      proof (rule fine_bind, rule visit_offset_fine [OF prems(1,2) seen_later [OF l s] counted_later [OF l prems(4) fin]])
        fix r and c2 :: streamMatchCache
        assume v: "visit_offset env n_wanted buf start lineCount grp ?off found c1 = (Inr r, c2)" and l2: "later data c1 c2"
          and "(case r of (finished, found1) \<Rightarrow> \<lambda>c'. counted W found1 c' \<and> (finished \<longrightarrow> all_known W c') \<and>
            (\<not> finished \<longrightarrow> (\<forall>w \<in> ?S. occurs_at buf w ?off \<longrightarrow> sm_values c' w \<noteq> None))) c2"
        moreover obtain finished found1 where r: "r = (finished, found1)" by fastforce
        ultimately have k: "counted W found1 c2" "finished \<Longrightarrow> all_known W c2"
          and here: "\<And>w. \<not> finished \<Longrightarrow> w \<in> ?S \<Longrightarrow> occurs_at buf w ?off \<Longrightarrow> sm_values c2 w \<noteq> None" by auto
        show "fine env data c2 ((case r of (finished, found1) \<Rightarrow> \<lambda>c1.
            if finished then (Inr (True, found1, hits + 1), c1)
            else hits_loop env n_wanted buf start lineCount first grp (?off + 1) found1 (hits + 1) c1) c2) ?R"
        proof (cases finished)
          case True
          then show ?thesis using r k by (simp add: fine_value)
        next
          case False
          have "seen data ?S ?e (start + (?off + 1)) c2" unfolding seen_def
          proof (intro ballI allI impI)
            fix w q
            assume w: "w \<in> ?S" and q: "q < start + (?off + 1)" "q + length w \<le> ?e \<and> occurs_at data w q"
            show "sm_values c2 w \<noteq> None"
            proof (cases "q = start + ?off")
              case True
              then show ?thesis using here [OF False w] block_occurs [OF b, of q w] q(2) by simp
            next
              case False
              then have "q < start + ?off" using q(1) by simp
              then show ?thesis using seen_later [OF l2 seen_later [OF l s]] w q(2) unfolding seen_def by blast
            qed
          qed
          from "1.IH" [OF Some refl refl p [unfolded poll_def] v r [symmetric] False prems(1,2) this k(1)]
          show ?thesis using False r by simp
        qed
      qed
    qed
  qed
qed

section \<open>The scan of the source\<close>

lemma firsts_loop_fine:
  assumes "frame data W n_wanted buf start lineCount" "\<forall>(first, grp) \<in> set firsts. first_ok W first grp"
    and "seen data W (start + length buf) start c" "counted W found c"
  shows "fine env data c (firsts_loop env n_wanted buf start lineCount firsts found hits c)
    (\<lambda>(finished, found1, hits1) c'. counted W found1 c' \<and> (finished \<longrightarrow> all_known W c') \<and>
       (\<not> finished \<longrightarrow> (\<forall>first \<in> fst ` set firsts. seen data (starting W first) (start + length buf) (start + length buf) c')))"
  using assms(2-4)
proof (induction firsts arbitrary: found hits c)
  case Nil
  then show ?case by (simp add: fine_return)
next
  case (Cons fg firsts)
  obtain first grp where fg: "fg = (first, grp)" by fastforce
  then have ok: "first_ok W first grp" using Cons.prems(1) by simp
  let ?e = "start + length buf"
  have fin: "finite W" using assms(1) by (simp add: frame_def)
  have seen: "seen data (starting W first) ?e (start + 0) c" using Cons.prems(2) unfolding seen_def starting_def by auto
  let ?R = "\<lambda>(finished, found1, hits1) c'. counted W found1 c' \<and> (finished \<longrightarrow> all_known W c') \<and>
       (\<not> finished \<longrightarrow> (\<forall>first \<in> fst ` set (fg # firsts). seen data (starting W first) ?e ?e c'))"
  show ?case unfolding fg firsts_loop.simps
  proof (rule fine_bind, rule hits_loop_fine [OF assms(1) ok seen Cons.prems(3)])
    fix r :: "bool \<times> nat \<times> nat" and c1 :: streamMatchCache
    assume l: "later data c c1" and "(case r of (finished, found1, hits1) \<Rightarrow> \<lambda>c'. counted W found1 c' \<and> (finished \<longrightarrow> all_known W c') \<and>
       (\<not> finished \<longrightarrow> seen data (starting W first) ?e ?e c')) c1"
    moreover obtain finished found1 hits1 where r: "r = (finished, found1, hits1)" using prod_cases3 by blast
    ultimately have k: "counted W found1 c1" "finished \<longrightarrow> all_known W c1" "\<not> finished \<longrightarrow> seen data (starting W first) ?e ?e c1" by auto
    have "fine env data c1 ((case r of (finished, found1, hits1) \<Rightarrow>
        if finished then sm_return (True, found1, hits1) else firsts_loop env n_wanted buf start lineCount firsts found1 hits1) c1) ?R"
    proof (cases finished)
      case True
      then show ?thesis using r k by (simp add: fine_return)
    next
      case False
      have rest: "\<forall>(first, grp) \<in> set firsts. first_ok W first grp" using Cons.prems(1) by simp
      have "fine env data c1 (firsts_loop env n_wanted buf start lineCount firsts found1 hits1 c1) ?R"
      proof (rule fine_weaken [OF Cons.IH [OF rest seen_later [OF l Cons.prems(2)] k(1)]])
        fix r' :: "bool \<times> nat \<times> nat" and c2 :: streamMatchCache
        assume l2: "later data c1 c2" and "(case r' of (finished, found1, hits1) \<Rightarrow> \<lambda>c'. counted W found1 c' \<and> (finished \<longrightarrow> all_known W c') \<and>
          (\<not> finished \<longrightarrow> (\<forall>first \<in> fst ` set firsts. seen data (starting W first) ?e ?e c'))) c2"
        moreover have "seen data (starting W first) ?e ?e c2" using seen_later [OF l2] k(3) False by blast
        ultimately show "?R r' c2" using fg by (cases r') auto
      qed
      then show ?thesis using False r by simp
    qed
    then show "fine env data c1 ((case r of (finished, found1, hits1) \<Rightarrow>
        if finished then sm_return (True, found1, hits1) else firsts_loop env n_wanted buf start lineCount firsts found1 hits1) c1)
      (\<lambda>(finished, found1, hits1) c'. counted W found1 c' \<and> (finished \<longrightarrow> all_known W c') \<and>
       (\<not> finished \<longrightarrow> (\<forall>first \<in> fst ` set ((first, grp) # firsts). seen data (starting W first) ?e ?e c')))" using fg by simp
  qed
qed

definition resolved_in :: "bytes \<Rightarrow> bytes set \<Rightarrow> streamMatchCache \<Rightarrow> bool" where
  "resolved_in data W c \<longleftrightarrow> (\<forall>w \<in> W. sm_values c w = None \<longrightarrow> (\<forall>q. \<not> occurs_at data w q))"

lemma seen_all_firsts:
  assumes "firsts_ok W firsts" "[] \<notin> W" "\<forall>first \<in> fst ` set firsts. seen data (starting W first) e n c"
  shows "seen data W e n c"
  unfolding seen_def
proof (intro ballI allI impI)
  fix w q
  assume w: "w \<in> W" and q: "q < n" "q + length w \<le> e \<and> occurs_at data w q"
  have ne: "w \<noteq> []" using w assms(2) by blast
  then have "map_of firsts (w ! 0) \<noteq> None" using assms(1) w unfolding firsts_ok_def by (auto split: option.splits)
  then have "w ! 0 \<in> fst ` set firsts" by (simp add: map_of_eq_None_iff)
  then have "seen data (starting W (w ! 0)) e n c" using assms(3) by blast
  moreover have "w \<in> starting W (w ! 0)" using w ne by (simp add: starting_def)
  ultimately show "sm_values c w \<noteq> None" using q unfolding seen_def by blast
qed

lemma matches_loop_fine:
  assumes "truthful env data" "firsts_ok W firsts" "finite W" "card W = n_wanted" "[] \<notin> W" "\<forall>w \<in> W. length w \<le> overlap + 1"
    and "start \<le> length data" "lineCount = bytes_count_newlines (take start data)" "seen data W (length data) start c" "counted W found c"
  shows "fine env data c (matches_loop env n_wanted firsts overlap start lineCount found hits c) (\<lambda>_ c'. resolved_in data W c')"
  using assms
proof (induction env n_wanted firsts overlap start lineCount found hits c rule: matches_loop.induct)
  case (1 env n_wanted firsts overlap start lineCount found hits c)
  note prems = "1.prems"
  have size: "sv_size env = length data" using prems(1) by (rule truthful_size)
  have complete: "resolved_in data W c'" if "seen data W (length data) (length data) c'" for c'
    unfolding resolved_in_def
  proof (intro ballI impI allI notI)
    fix w q
    assume w: "w \<in> W" "sm_values c' w = None" "occurs_at data w q"
    have "0 < length w" using w(1) prems(5) by auto
    then have "q < length data" using occurs_le [OF w(3)] by linarith
    then show False using that w occurs_le [OF w(3)] unfolding seen_def by blast
  qed
  have known: "resolved_in data W c'" if "all_known W c'" for c' using that by (auto simp: resolved_in_def all_known_def)
  show ?case
  proof (cases "start < sv_size env")
    case False
    then have "start = length data" using prems(7) size by simp
    then show ?thesis unfolding matches_loop.simps [of env n_wanted firsts overlap start lineCount found hits c] if_not_P [OF False]
      using complete prems(9) by (simp add: fine_value)
  next
    case True
    show ?thesis unfolding matches_loop.simps [of env n_wanted firsts overlap start lineCount found hits c] if_P [OF True]
    proof (rule fine_bind)
      show "fine env data c (read_block env (streamBlockSize + overlap) start (sv_size env) c)
          (\<lambda>got c'. length got = min (streamBlockSize + overlap) (sv_size env - start) \<and> block_of data start got)"
        using fine_block [OF prems(1) True] size by simp
    next
      fix buf c1
      assume r: "read_block env (streamBlockSize + overlap) start (sv_size env) c = (Inr buf, c1)" and l: "later data c c1"
        and buf: "length buf = min (streamBlockSize + overlap) (sv_size env - start) \<and> block_of data start buf"
      have fr: "frame data W n_wanted buf start lineCount" using buf prems(3,4,8) by (simp add: frame_def)
      let ?e = "start + length buf"
      let ?firsts = "range_order env c1 firsts"
      have oks: "\<forall>(first, grp) \<in> set ?firsts. first_ok W first grp"
        using prems(2) unfolding firsts_ok_def range_order_set by (auto dest!: map_of_is_SomeI split: option.splits) (metis+)?
      have e: "?e \<le> length data" using buf by (simp add: block_of_def)
      have seen: "seen data W ?e start c1"
        using seen_later [OF l prems(9)] e unfolding seen_def by (meson le_trans)
      show "fine env data c1 (sm_bind (\<lambda>c1. firsts_loop env n_wanted buf start lineCount (range_order env c1 firsts) found hits c1)
            (\<lambda>(finished, found1, hits1) c2.
              if finished \<or> start + length buf = sv_size env then (Inr (), c2)
              else
                let advance = length buf - overlap in
                if advance = 0 then (Inl SUnexpectedEOF, c2)
                else matches_loop env n_wanted firsts overlap (start + advance)
                       (lineCount + bytes_count_newlines (take advance buf)) found1 hits1 c2) c1)
          (\<lambda>_ c'. resolved_in data W c')"
      proof (rule fine_bind, rule firsts_loop_fine [OF fr oks seen counted_later [OF l prems(10,3)]])
        fix x :: "bool \<times> nat \<times> nat" and c2 :: streamMatchCache
        assume f: "firsts_loop env n_wanted buf start lineCount (range_order env c1 firsts) found hits c1 = (Inr x, c2)"
          and l2: "later data c1 c2"
          and "(case x of (finished, found1, hits1) \<Rightarrow> \<lambda>c'. counted W found1 c' \<and> (finished \<longrightarrow> all_known W c') \<and>
            (\<not> finished \<longrightarrow> (\<forall>first \<in> fst ` set ?firsts. seen data (starting W first) ?e ?e c'))) c2"
        moreover obtain finished found1 hits1 where x: "x = (finished, found1, hits1)" using prod_cases3 by blast
        ultimately have k: "counted W found1 c2" "finished \<longrightarrow> all_known W c2"
            "\<not> finished \<longrightarrow> (\<forall>first \<in> fst ` set firsts. seen data (starting W first) ?e ?e c2)" by auto
        show "fine env data c2 ((case x of (finished, found1, hits1) \<Rightarrow> \<lambda>c2.
              if finished \<or> start + length buf = sv_size env then (Inr (), c2)
              else
                let advance = length buf - overlap in
                if advance = 0 then (Inl SUnexpectedEOF, c2)
                else matches_loop env n_wanted firsts overlap (start + advance)
                       (lineCount + bytes_count_newlines (take advance buf)) found1 hits1 c2) c2)
          (\<lambda>_ c'. resolved_in data W c')"
        proof (cases finished)
          case True
          then show ?thesis using x k known by (simp add: fine_value)
        next
          case False
          then have all: "seen data W ?e ?e c2" using seen_all_firsts [OF prems(2,5)] k(3) by blast
          show ?thesis
          proof (cases "start + length buf = sv_size env")
            case True
            then show ?thesis using x complete all size by (simp add: fine_value)
          next
            case more: False
            let ?advance = "length buf - overlap"
            have adv: "?advance \<noteq> 0" "?advance \<le> length buf" "?e = start + ?advance + overlap"
            proof -
              have "length buf = 65536 + overlap" using more buf True by (auto simp: streamBlockSize_def min_def split: if_splits)
              then show "?advance \<noteq> 0" "?advance \<le> length buf" "?e = start + ?advance + overlap" by simp_all
            qed
            have ahead: "seen data W (length data) (start + ?advance) c2" unfolding seen_def
            proof (intro ballI allI impI)
              fix w q
              assume w: "w \<in> W" and q: "q < start + ?advance" "q + length w \<le> length data \<and> occurs_at data w q"
              have "length w \<le> overlap + 1" using prems(6) w by blast
              then have "q + length w \<le> ?e" "q < ?e" using q(1) adv(3) by linarith+
              then show "sm_values c2 w \<noteq> None" using all w q(2) unfolding seen_def by blast
            qed
            have le: "start + ?advance \<le> length data" using e adv(2) by linarith
            have lines: "lineCount + bytes_count_newlines (take ?advance buf) = bytes_count_newlines (take (start + ?advance) data)"
              using block_newlines [OF conjunct2 [OF buf] adv(2)] prems(8) by simp
            have go: "\<not> (finished \<or> start + length buf = sv_size env)" using False more by simp
            note "1.IH" [OF True r f x [symmetric] refl go refl adv(1) prems(1-6) le lines ahead k(1)]
            then show ?thesis using x False more adv(1) by (simp add: Let_def)
          qed
        qed
      qed
    qed
  qed
qed

lemma mark_absent_fold:
  assumes "cache_ok data c" "resolved_in data (set ws) c"
  shows "later data c (fold mark_absent ws c) \<and> all_known (set ws) (fold mark_absent ws c)"
  using assms
proof (induction ws arbitrary: c)
  case Nil
  then show ?case by (simp add: all_known_def)
next
  case (Cons w ws)
  have one: "later data c (mark_absent w c) \<and> sm_values (mark_absent w c) w \<noteq> None"
  proof (cases "sm_values c w")
    case None
    then have "absent_match = first_match data w" using Cons.prems(2) first_match_absent by (simp add: resolved_in_def)
    then show ?thesis using None later_set_value [OF Cons.prems(1) None] by (simp add: mark_absent_def)
  qed (use Cons.prems in \<open>simp add: mark_absent_def\<close>)
  have "resolved_in data (set ws) (mark_absent w c)"
    using Cons.prems(2) later_not_None [OF conjunct1 [OF one]] unfolding resolved_in_def by (metis list.set_intros(2))
  then have rest: "later data (mark_absent w c) (fold mark_absent ws (mark_absent w c))"
      "all_known (set ws) (fold mark_absent ws (mark_absent w c))"
    using Cons.IH [OF later_ok [OF conjunct1 [OF one]]] by blast+
  have "sm_values (fold mark_absent ws (mark_absent w c)) w \<noteq> None"
    by (rule later_not_None [OF rest(1) conjunct2 [OF one]])
  then show ?case using later_trans [OF conjunct1 [OF one] rest(1)] rest(2) by (simp add: all_known_def)
qed

theorem findReaderMatches_fine:
  assumes "truthful env data" "distinct wanted" "[] \<notin> set wanted"
  shows "fine env data c (findReaderMatches env wanted c) (\<lambda>_ c'. all_known (set wanted) c')"
proof -
  let ?max = "fold max (map length wanted) 0"
  have "fold max xs m = Max (insert m (set xs))" for xs :: "nat list" and m
    by (metis Max.set_eq_fold list.simps(15))
  then have len: "length w \<le> ?max" if "w \<in> set wanted" for w using that by simp
  show ?thesis
  proof (cases "?max = 0")
    case True
    then have "wanted = []" using len assms(3) by (cases wanted) fastforce+
    then show ?thesis by (simp add: findReaderMatches_def fine_return all_known_def)
  next
    case False
    have grp: "firsts_ok (set wanted) (fold add_wanted (range_order env c1 wanted) [])" for c1
      using add_all_wanted_ok [of "{}" "[]" "range_order env c1 wanted"] by (simp add: firsts_ok_def)
    have lens: "\<forall>w \<in> set wanted. length w \<le> ?max - 1 + 1" using len False by fastforce
    have loop: "fine env data c (matches_loop env (length wanted) (fold add_wanted (range_order env c wanted) []) (?max - 1) 0 0 0 0 c)
        (\<lambda>_ c'. resolved_in data (set wanted) c')"
      by (rule matches_loop_fine [OF assms(1) grp _ distinct_card [OF assms(2)] assms(3) lens]) (simp_all add: seen_def counted_def)
    show ?thesis unfolding findReaderMatches_def Let_def if_not_P [OF False]
    proof (rule fine_bind, rule loop, rule fine_bind, rule fine_poll)
      fix x c1 and y :: unit and c2
      assume r: "resolved_in data (set wanted) c1" and l: "later data c1 c2"
      have "resolved_in data (set wanted) c2" using r later_not_None [OF l] unfolding resolved_in_def by metis
      then show "fine env data c2 (Inr (), fold mark_absent wanted c2) (\<lambda>_ c'. all_known (set wanted) c')"
        using mark_absent_fold [of data c2 wanted] by (simp add: fine_def)
    qed
  qed
qed

end
