(* ===== verification/StreamResolveCorrect.thy ===== *)
theory StreamResolveCorrect
  imports StreamMany
begin

text \<open>
  Resolving a batch: every way a secret can take -- hint, prefix index, shared scan, scan of its own -- ends in its first occurrence.
\<close>

section \<open>A group of secrets and its index\<close>

definition unknown :: "bytes set \<Rightarrow> streamMatchCache \<Rightarrow> bytes set" where
  "unknown V c = {w \<in> V. sm_values c w = None}"

definition tried :: "bytes \<Rightarrow> bytes set \<Rightarrow> nat list \<Rightarrow> nat \<Rightarrow> streamMatchCache \<Rightarrow> bool" where
  "tried data V ps i c \<longleftrightarrow> (\<forall>w \<in> V. \<forall>j < i. occurs_at data w (ps ! j) \<longrightarrow> sm_values c w \<noteq> None)"

lemma unknown_later: "later data c c' \<Longrightarrow> unknown V c' \<subseteq> unknown V c"
  unfolding unknown_def using later_not_None [of data c c'] by blast

lemma unknown_card_later:
  assumes "later data c c'" "finite V" "int (card (unknown V c)) \<le> n"
  shows "int (card (unknown V c')) \<le> n"
  using card_mono [OF _ unknown_later [OF assms(1), of V]] assms(2,3) by (simp add: unknown_def)

lemma tried_later: "later data c c' \<Longrightarrow> tried data V ps i c \<Longrightarrow> tried data V ps i c'"
  unfolding tried_def using later_not_None by blast

text \<open>The first indexed position at which a secret of the group occurs is its first occurrence.\<close>

lemma first_at_position:
  assumes "index_ok data k index" "group_key w = k" "w \<noteq> []" "i < length (ix_positions index)"
    and "occurs_at data w (ix_positions index ! i)" "\<And>j. j < i \<Longrightarrow> \<not> occurs_at data w (ix_positions index ! j)"
  shows "first_match data w = \<lparr>sm_offset = int (ix_positions index ! i), sm_newlineCount = int (ix_newlines index ! i), sm_found = True\<rparr>"
proof -
  let ?ps = "ix_positions index"
  have "\<not> occurs_at data w q" if q: "q < ?ps ! i" for q
  proof
    assume occ: "occurs_at data w q"
    then have "q \<in> set ?ps" using group_key_has [OF occ assms(3)] assms(1,2) by (simp add: index_ok_def)
    then obtain j where j: "j < length ?ps" "?ps ! j = q" by (auto simp: in_set_conv_nth)
    have "sorted ?ps" using assms(1) by (simp add: index_ok_def sorted_filter [where f = id, simplified])
    then have "j < i" using j q assms(4) by (metis not_le sorted_nth_mono)
    then show False using assms(6) occ j(2) by blast
  qed
  moreover have "ix_newlines index ! i = bytes_count_newlines (take (?ps ! i) data)" using assms(1,4) by (simp add: index_ok_def)
  ultimately show ?thesis using first_match_at [OF assms(5)] by simp
qed

lemma lengths_at_fine:
  assumes "truthful env data" "index_ok data k index" "i < length (ix_positions index)" "finite V"
    and "\<forall>w \<in> V. group_key w = k \<and> w \<noteq> [] \<and> prefix common w"
    and "\<forall>(len, patterns) \<in> set byLen. set patterns = {w \<in> V. length w = len}"
    and "tried data V (ix_positions index) i c" "int (card (unknown V c)) \<le> remaining"
  shows "fine env data c (lengths_at env index i common byLen remaining c)
    (\<lambda>remaining' c'. int (card (unknown V c')) \<le> remaining' \<and>
       (\<forall>w \<in> V. length w \<in> fst ` set byLen \<and> occurs_at data w (ix_positions index ! i) \<longrightarrow> sm_values c' w \<noteq> None))"
  using assms(6-8)
proof (induction byLen arbitrary: remaining c)
  case Nil
  then show ?case by (simp add: fine_return)
next
  case (Cons lp byLen)
  let ?pos = "ix_positions index ! i"
  obtain len patterns where lp: "lp = (len, patterns)" by fastforce
  have pat: "set patterns = {w \<in> V. length w = len}" and rest: "\<forall>(len, patterns) \<in> set byLen. set patterns = {w \<in> V. length w = len}"
    using Cons.prems(1) lp by auto
  let ?R = "\<lambda>remaining' c'. int (card (unknown V c')) \<le> remaining' \<and>
       (\<forall>w \<in> V. length w \<in> fst ` set (lp # byLen) \<and> occurs_at data w ?pos \<longrightarrow> sm_values c' w \<noteq> None)"
  let ?C = "\<lambda>r c'. case r of Some x \<Rightarrow> length x = len \<and> occurs_at data x ?pos
      | None \<Rightarrow> \<forall>w \<in> V. length w = len \<longrightarrow> \<not> occurs_at data w ?pos"
  have cand: "fine env data c (indexCandidateAt env index i ?pos len common c) ?C"
  proof (cases "len = 0")
    case True
    have "\<forall>w \<in> V. length w \<noteq> 0" using assms(5) by auto
    then show ?thesis using True by (simp add: indexCandidateAt_def fine_return)
  next
    case False
    then have "0 < len" by simp
    from indexCandidateAt_fine [OF assms(1-3) this, of c common] show ?thesis
      by (rule fine_weaken) (use assms(5) in \<open>auto split: option.splits\<close>)
  qed
  have go: "fine env data c2 (lengths_at env index i common byLen n c2) ?R"
    if "later data c c2" "int (card (unknown V c2)) \<le> n" "\<And>w. w \<in> V \<Longrightarrow> length w = len \<Longrightarrow> occurs_at data w ?pos \<Longrightarrow> sm_values c2 w \<noteq> None" for c2 n
  proof (rule fine_weaken [OF Cons.IH [OF rest tried_later [OF that(1) Cons.prems(2)] that(2)]])
    fix n' c3
    assume l: "later data c2 c3" and "int (card (unknown V c3)) \<le> n' \<and>
       (\<forall>w \<in> V. length w \<in> fst ` set byLen \<and> occurs_at data w ?pos \<longrightarrow> sm_values c3 w \<noteq> None)"
    moreover have "sm_values c3 w \<noteq> None" if "w \<in> V" "length w = len" "occurs_at data w ?pos" for w
      by (rule later_not_None [OF l]) (rule \<open>\<And>w. w \<in> V \<Longrightarrow> length w = len \<Longrightarrow> occurs_at data w ?pos \<Longrightarrow> sm_values c2 w \<noteq> None\<close> [OF that])
    ultimately show "?R n' c3" using lp by auto
  qed
  have step: "lengths_at env index i common (lp # byLen) remaining =
      sm_bind (indexCandidateAt env index i ?pos len common) (\<lambda>candidate c.
       case candidate of
         None \<Rightarrow> lengths_at env index i common byLen remaining c
       | Some key \<Rightarrow>
           if key \<in> set patterns \<and> sm_values c key = None
           then lengths_at env index i common byLen (remaining - 1)
                  (c\<lparr>sm_values := (sm_values c)(key \<mapsto> \<lparr>sm_offset = int ?pos,
                       sm_newlineCount = int (ix_newlines index ! i), sm_found = True\<rparr>)\<rparr>)
           else lengths_at env index i common byLen remaining c)"
    by (simp add: lp)
  show ?case unfolding step
  proof (rule fine_bind, rule cand)
    fix r c1
    assume l: "later data c c1" and r: "?C r c1"
    have count: "int (card (unknown V c1)) \<le> remaining" by (rule unknown_card_later [OF l assms(4) Cons.prems(3)])
    show "fine env data c1 (case r of
         None \<Rightarrow> lengths_at env index i common byLen remaining c1
       | Some key \<Rightarrow>
           if key \<in> set patterns \<and> sm_values c1 key = None
           then lengths_at env index i common byLen (remaining - 1)
                  (c1\<lparr>sm_values := (sm_values c1)(key \<mapsto> \<lparr>sm_offset = int ?pos,
                       sm_newlineCount = int (ix_newlines index ! i), sm_found = True\<rparr>)\<rparr>)
           else lengths_at env index i common byLen remaining c1) ?R"
    proof (cases r)
      case None
      then show ?thesis using go [OF l count] r by simp
    next
      case (Some key)
      then have key: "length key = len" "occurs_at data key ?pos" using r by simp_all
      have only: "w = key" if "length w = len" "occurs_at data w ?pos" for w
        using that key by (metis occurs_at_def)
      show ?thesis
      proof (cases "key \<in> set patterns \<and> sm_values c1 key = None")
        case False
        have "sm_values c1 w \<noteq> None" if "w \<in> V" "length w = len" "occurs_at data w ?pos" for w
          using only [OF that(2,3)] that False pat by auto
        then have "fine env data c1 (lengths_at env index i common byLen remaining c1) ?R" using go [OF l count] by blast
        then show ?thesis using Some False by auto
      next
        case True
        then have kV: "key \<in> V" using pat by simp
        let ?m = "\<lparr>sm_offset = int ?pos, sm_newlineCount = int (ix_newlines index ! i), sm_found = True\<rparr>"
        let ?c = "c1\<lparr>sm_values := (sm_values c1)(key \<mapsto> ?m)\<rparr>"
        have "\<not> occurs_at data key (ix_positions index ! j)" if "j < i" for j
          using tried_later [OF l Cons.prems(2)] kV True that unfolding tried_def by blast
        then have m: "?m = first_match data key"
          using first_at_position [OF assms(2) _ _ assms(3) key(2)] assms(5) kV by simp
        have l2: "later data c1 ?c" using later_set_value [OF later_ok [OF l] _ m] True by simp
        have "unknown V c1 = insert key (unknown V ?c)" "key \<notin> unknown V ?c" "finite (unknown V ?c)"
          using True kV assms(4) by (auto simp: unknown_def)
        then have "int (card (unknown V ?c)) \<le> remaining - 1" using count by simp
        moreover have "sm_values ?c w \<noteq> None" if "w \<in> V" "length w = len" "occurs_at data w ?pos" for w
          using only [OF that(2,3)] by simp
        ultimately have "fine env data ?c (lengths_at env index i common byLen (remaining - 1) ?c) ?R"
          using go [OF later_trans [OF l l2]] by blast
        then show ?thesis using Some True fine_from [OF l2] by simp
      qed
    qed
  qed
qed

lemma positions_loop_fine:
  assumes "truthful env data" "index_ok data k index" "finite V"
    and "\<forall>w \<in> V. group_key w = k \<and> w \<noteq> [] \<and> prefix common w" "lengths_ok V byLen"
    and "i \<le> length (ix_positions index)" "tried data V (ix_positions index) i c" "int (card (unknown V c)) \<le> remaining"
  shows "fine env data c (positions_loop env index common byLen [i..<length (ix_positions index)] remaining c)
    (\<lambda>_ c'. resolved_in data V c')"
  using assms(6-8)
proof (induction "length (ix_positions index) - i" arbitrary: i remaining c)
  case 0
  let ?ps = "ix_positions index"
  have "\<not> occurs_at data w q" if w: "w \<in> V" "sm_values c w = None" for w q
  proof
    assume occ: "occurs_at data w q"
    then have "q \<in> set ?ps" using group_key_has [OF occ] assms(2,4) w(1) by (auto simp: index_ok_def)
    then obtain j where "j < length ?ps" "?ps ! j = q" by (auto simp: in_set_conv_nth)
    then show False using 0 occ w unfolding tried_def by (metis diff_is_0_eq le_antisym)
  qed
  then show ?case using 0 by (simp add: fine_return resolved_in_def)
next
  case (Suc n)
  let ?ps = "ix_positions index"
  have i: "i < length ?ps" using Suc.hyps(2) by simp
  then have split: "[i..<length ?ps] = i # [Suc i..<length ?ps]" by (simp add: upt_conv_Cons)
  show ?case
  proof (cases "remaining = 0")
    case True
    then have "unknown V c = {}" using Suc.prems(3) assms(3) by (simp add: unknown_def)
    then have "resolved_in data V c" by (auto simp: resolved_in_def unknown_def)
    then show ?thesis using True unfolding split by (simp add: fine_return)
  next
    case False
    have pats: "\<forall>(len, patterns) \<in> set byLen. set patterns = {w \<in> V. length w = len}"
      using assms(5) unfolding lengths_ok_def by (auto dest!: map_of_is_SomeI split: option.splits) (metis+)?
    have lens: "length w \<in> fst ` set byLen" if "w \<in> V" for w
    proof -
      have "map_of byLen (length w) \<noteq> None" using assms(5) that unfolding lengths_ok_def by (auto split: option.splits)
      then show ?thesis by (simp add: map_of_eq_None_iff)
    qed
    show ?thesis unfolding split positions_loop.simps if_not_P [OF False]
    proof (rule fine_bind, rule fine_poll)
      fix x :: unit and c1
      assume l: "later data c c1"
      show "fine env data c1 (sm_bind (lengths_at env index i common byLen remaining)
          (positions_loop env index common byLen [Suc i..<length ?ps]) c1) (\<lambda>_ c'. resolved_in data V c')"
      proof (rule fine_bind, rule lengths_at_fine [OF assms(1,2) i assms(3,4) pats tried_later [OF l Suc.prems(2)]
            unknown_card_later [OF l assms(3) Suc.prems(3)]])
        fix n' c2
        assume l2: "later data c1 c2" and k: "int (card (unknown V c2)) \<le> n' \<and>
          (\<forall>w \<in> V. length w \<in> fst ` set byLen \<and> occurs_at data w (?ps ! i) \<longrightarrow> sm_values c2 w \<noteq> None)"
        have "tried data V ?ps (Suc i) c2"
          using tried_later [OF l2 tried_later [OF l Suc.prems(2)]] k lens unfolding tried_def by (metis less_Suc_eq)
        then show "fine env data c2 (positions_loop env index common byLen [Suc i..<length ?ps] n' c2) (\<lambda>_ c'. resolved_in data V c')"
          using Suc.hyps(1) [of "Suc i" c2 n'] Suc.hyps(2) i k by simp
      qed
    qed
  qed
qed

lemma common_prefix_of_prefix: "key \<in> set keys \<Longrightarrow> prefix (common_prefix_of keys) key"
proof -
  have fold: "prefix (fold (\<lambda>k p. commonPrefixBytes p k) ks p) p \<and> (\<forall>k \<in> set ks. prefix (fold (\<lambda>k p. commonPrefixBytes p k) ks p) k)" for ks p
  proof (induction ks arbitrary: p)
    case (Cons k ks)
    then show ?case using Cons.IH [of "commonPrefixBytes p k"] commonPrefix_prefix [of p k] prefix_order.trans by fastforce
  qed simp
  assume "key \<in> set keys"
  then show ?thesis using fold by (cases keys) (auto simp: common_prefix_of_def)
qed

lemma resolve_group_fine:
  assumes "truthful env data" "index_ok data k index" "\<forall>key \<in> set keys. group_key key = k \<and> key \<noteq> []"
  shows "fine env data c (resolve_group env index keys c) (\<lambda>_ c'. all_known (set keys) c')"
proof -
  let ?lengths = "sort_key fst (fold add_pattern keys [])"
  have ok: "lengths_ok (set keys) (fold add_pattern keys [])" using add_patterns_ok [OF lengths_ok_empty, of keys] by simp
  have sorted: "distinct (map fst ?lengths)"
    using ok by (simp add: lengths_ok_def distinct_map)
  moreover have "distinct (map fst (fold add_pattern keys []))" using ok unfolding lengths_ok_def by blast
  ultimately have "map_of ?lengths = map_of (fold add_pattern keys [])" using map_of_inject_set [of ?lengths] by simp
  then have lens: "lengths_ok (set keys) ?lengths" using ok sorted unfolding lengths_ok_def by simp
  have "card (unknown (set keys) c) \<le> length keys"
    by (metis (no_types, lifting) List.finite_set card_length card_mono le_trans mem_Collect_eq subsetI unknown_def)
  then have loop: "fine env data c (positions_loop env index (common_prefix_of keys) ?lengths [0..<length (ix_positions index)] (int (length keys)) c)
      (\<lambda>_ c'. resolved_in data (set keys) c')"
    using positions_loop_fine [OF assms(1,2) _ _ lens, of "common_prefix_of keys" 0 c "int (length keys)"] assms(3) common_prefix_of_prefix
    by (simp add: tried_def)
  show ?thesis unfolding resolve_group_def Let_def
  proof (rule fine_bind, rule loop)
    fix x :: unit and c1
    assume "resolved_in data (set keys) c1"
    then show "fine env data c1 (Inr (), fold mark_absent keys c1) (\<lambda>_ c'. all_known (set keys) c')"
      using mark_absent_fold [of data c1 keys] by (simp add: fine_def)
  qed
qed

section \<open>The groups of a batch\<close>

text \<open>
  A step that passes the secrets of \<open>K\<close> on: each of them has a value or is left to the shared scan, which gets
  distinct secrets, none of them foreign.
\<close>

definition passed_on :: "bytes set \<Rightarrow> bytes list \<Rightarrow> bytes list \<Rightarrow> streamMatchCache \<Rightarrow> bool" where
  "passed_on K short short' c \<longleftrightarrow> distinct short' \<and> set short \<subseteq> set short' \<and> set short' \<subseteq> set short \<union> K \<and>
     (\<forall>w \<in> K. sm_values c w \<noteq> None \<or> w \<in> set short')"

lemma passed_on_trans:
  assumes "passed_on K short short1 c1" "later data c1 c2" "passed_on L short1 short2 c2"
  shows "passed_on (K \<union> L) short short2 c2"
proof -
  have "sm_values c1 w \<noteq> None \<longrightarrow> sm_values c2 w \<noteq> None" for w using later_not_None [OF assms(2)] by blast
  then show ?thesis using assms(1,3) unfolding passed_on_def by blast
qed

lemma passed_on_refl: "distinct short \<Longrightarrow> passed_on {} short short c"
  by (simp add: passed_on_def)

lemma passed_on_insert:
  "distinct short \<Longrightarrow> passed_on {w} short (List.insert w short) c"
  by (auto simp: passed_on_def)

lemma fold_insert: "distinct short \<Longrightarrow> distinct (fold List.insert ws short) \<and> set (fold List.insert ws short) = set short \<union> set ws"
  by (induction ws arbitrary: short) auto

definition groups_ok :: "(nat \<times> bytes list) list \<Rightarrow> bool" where
  "groups_ok groups \<longleftrightarrow> (\<forall>(k, keys) \<in> set groups. \<forall>key \<in> set keys. group_key key = k \<and> key \<noteq> [])"

definition members :: "(nat \<times> bytes list) list \<Rightarrow> bytes set" where
  "members groups = (\<Union>(k, keys) \<in> set groups. set keys)"

lemma members_simps [simp]: "members [] = {}" "members ((k, keys) # groups) = set keys \<union> members groups"
    "members (xs @ ys) = members xs \<union> members ys"
  by (auto simp: members_def)

lemma groups_ok_simps [simp]: "groups_ok []"
    "groups_ok ((k, keys) # groups) \<longleftrightarrow> (\<forall>key \<in> set keys. group_key key = k \<and> key \<noteq> []) \<and> groups_ok groups"
    "groups_ok (xs @ ys) \<longleftrightarrow> groups_ok xs \<and> groups_ok ys"
  by (auto simp: groups_ok_def)

lemma members_set: "set xs = set ys \<Longrightarrow> members xs = members ys" and groups_ok_set: "set xs = set ys \<Longrightarrow> groups_ok xs = groups_ok ys"
  by (simp_all add: members_def groups_ok_def)

lemma index_groups_loop_fine:
  assumes "truthful env data" "indexes_of data indexes" "groups_ok groups" "distinct short"
  shows "fine env data c (index_groups_loop env indexes groups short c) (\<lambda>short' c'. passed_on (members groups) short short' c')"
  using assms(3,4)
proof (induction groups arbitrary: short c)
  case Nil
  then show ?case by (simp add: fine_return passed_on_refl)
next
  case (Cons kk groups)
  obtain k keys where kk: "kk = (k, keys)" by fastforce
  have keys: "\<forall>key \<in> set keys. group_key key = k \<and> key \<noteq> []" and rest: "groups_ok groups" using Cons.prems(1) kk by simp_all
  have go: "fine env data c2 (index_groups_loop env indexes groups short2 c2) (\<lambda>short' c'. passed_on (members (kk # groups)) short short' c')"
    if "passed_on (set keys) short short2 c2" for short2 c2
  proof -
    have "distinct short2" using that by (simp add: passed_on_def)
    from Cons.IH [OF rest this, of c2] show ?thesis
      by (rule fine_weaken) (use passed_on_trans [OF that] kk in auto)
  qed
  show ?case unfolding kk index_groups_loop.simps
  proof (rule fine_bind, rule fine_poll)
    fix x :: unit and c1
    show "fine env data c1 ((case indexes k of None \<Rightarrow> index_groups_loop env indexes groups (fold List.insert keys short)
        | Some index \<Rightarrow> sm_bind (resolve_group env index keys) (\<lambda>_. index_groups_loop env indexes groups short)) c1)
        (\<lambda>short' c'. passed_on (members ((k, keys) # groups)) short short' c')"
    proof (cases "indexes k")
      case None
      have "passed_on (set keys) short (fold List.insert keys short) c1"
        using fold_insert [OF Cons.prems(2), of keys] by (auto simp: passed_on_def)
      then show ?thesis using None go kk by simp
    next
      case (Some index)
      then have ok: "index_ok data k index" using assms(2) by (simp add: indexes_of_def)
      have "fine env data c1 (sm_bind (resolve_group env index keys) (\<lambda>_. index_groups_loop env indexes groups short) c1)
          (\<lambda>short' c'. passed_on (members (kk # groups)) short short' c')"
      proof (rule fine_bind, rule resolve_group_fine [OF assms(1) ok keys])
        fix y :: unit and c2
        assume "all_known (set keys) c2"
        then have "passed_on (set keys) short short c2" using Cons.prems(2) by (simp add: passed_on_def all_known_def)
        then show "fine env data c2 (index_groups_loop env indexes groups short c2) (\<lambda>short' c'. passed_on (members (kk # groups)) short short' c')"
          by (rule go)
      qed
      then show ?thesis using Some kk by simp
    qed
  qed
qed

lemma resolveIndexGroups_fine:
  assumes "truthful env data" "groups_ok groups" "\<forall>k \<in> fst ` set groups. canonical k" "distinct short"
  shows "fine env data c (resolveIndexGroups env groups short c) (\<lambda>short' c'. passed_on (members groups) short short' c')"
proof -
  have canon: "\<forall>k \<in> set (range_order env c (map fst groups)). canonical k" using assms(3) by simp
  show ?thesis unfolding resolveIndexGroups_def
  proof (rule fine_bind, rule prefixIndexes_fine [OF assms(1) canon])
    fix indexes c1
    assume i: "indexes_of data indexes"
    have "groups_ok (range_order env c1 groups)" "members (range_order env c1 groups) = members groups"
      using assms(2) groups_ok_set [of "range_order env c1 groups" groups] members_set [of "range_order env c1 groups" groups] by simp_all
    then show "fine env data c1 (index_groups_loop env indexes (range_order env c1 groups) short c1)
        (\<lambda>short' c'. passed_on (members groups) short short' c')"
      using index_groups_loop_fine [OF assms(1) i _ assms(4), of "range_order env c1 groups" c1] by simp
  qed
qed

section \<open>The hints of a batch\<close>

definition hints_good :: "bytes \<Rightarrow> streamMatchCache \<Rightarrow> (bytes \<times> streamRawHint) list \<Rightarrow> bool" where
  "hints_good data c hints \<longleftrightarrow> (\<forall>(raw, h) \<in> set hints. hint_good data c raw h)"

lemma zero_hint_good [simp]: "hint_good data c raw zero_hint"
  by (simp add: hint_good_def zero_hint_def)

lemma hints_good_lookup:
  "hints_good data c hints \<Longrightarrow> hint_good data c raw (case map_of hints raw of None \<Rightarrow> zero_hint | Some h \<Rightarrow> h)"
  by (auto simp: hints_good_def dest: map_of_SomeD split: option.splits)

lemma hints_good_later: "later data c c' \<Longrightarrow> hints_good data c' hints = hints_good data c hints"
  by (simp add: hints_good_def hint_good_later)

lemma sparse_group_fine:
  assumes "truthful env data" "hints_good data c hints" "distinct short"
  shows "fine env data c (sparse_group env hints keys short c) (\<lambda>short' c'. passed_on (set keys) short short' c')"
  using assms(2,3)
proof (induction keys arbitrary: short c)
  case Nil
  then show ?case by (simp add: fine_value passed_on_refl)
next
  case (Cons key keys)
  have go: "fine env data c2 (sparse_group env hints keys short2 c2) (\<lambda>short' c'. passed_on (set (key # keys)) short short' c')"
    if "passed_on {key} short short2 c2" "hints_good data c2 hints" for short2 c2
  proof -
    have "distinct short2" using that by (simp add: passed_on_def)
    from Cons.IH [OF that(2) this] show ?thesis by (rule fine_weaken) (use passed_on_trans [OF that(1)] in auto)
  qed
  let ?hint = "case map_of hints key of None \<Rightarrow> zero_hint | Some h \<Rightarrow> h"
  show ?case
  proof (cases "prefixListFull key c")
    case True
    then show ?thesis using go [OF passed_on_insert [OF Cons.prems(2)] Cons.prems(1)] by simp
  next
    case False
    have step: "sparse_group env hints (key # keys) short c =
        sm_bind (prefixLookup env key ?hint) (\<lambda>looked c1.
        case looked of
          Some m \<Rightarrow> sparse_group env hints keys short (c1\<lparr>sm_values := (sm_values c1)(key \<mapsto> m)\<rparr>)
        | None \<Rightarrow> sparse_group env hints keys (List.insert key short) c1) c"
      using False by simp
    show ?thesis unfolding step
    proof (rule fine_bind, rule prefixLookup_fine [OF assms(1) hints_good_lookup [OF Cons.prems(1)]])
      fix looked c1
      assume l: "later data c c1" and m: "\<forall>m. looked = Some m \<longrightarrow> m = first_match data key"
      have h: "hints_good data c1 hints" using hints_good_later [OF l] Cons.prems(1) by simp
      show "fine env data c1 (case looked of
            Some m \<Rightarrow> sparse_group env hints keys short (c1\<lparr>sm_values := (sm_values c1)(key \<mapsto> m)\<rparr>)
          | None \<Rightarrow> sparse_group env hints keys (List.insert key short) c1) (\<lambda>short' c'. passed_on (set (key # keys)) short short' c')"
      proof (cases looked)
        case None
        then show ?thesis using go [OF passed_on_insert [OF Cons.prems(2)] h] by simp
      next
        case (Some v)
        let ?c = "c1\<lparr>sm_values := (sm_values c1)(key \<mapsto> v)\<rparr>"
        have l2: "later data c1 ?c" using later_set_same [OF later_ok [OF l]] m Some by simp
        have "passed_on {key} short short ?c" using Cons.prems(2) by (auto simp: passed_on_def)
        then have "fine env data ?c (sparse_group env hints keys short ?c) (\<lambda>short' c'. passed_on (set (key # keys)) short short' c')"
          using go hints_good_later [OF l2] h by simp
        then show ?thesis using Some fine_from [OF l2] by simp
      qed
    qed
  qed
qed

lemma sparse_groups_fine:
  assumes "truthful env data" "hints_good data c hints" "distinct short" "groups_ok groups" "groups_ok dense"
  shows "fine env data c (sparse_groups env hints groups dense short c)
    (\<lambda>(dense', short') c'. set dense \<subseteq> set dense' \<and> set dense' \<subseteq> set dense \<union> set groups \<and> distinct short' \<and> set short \<subseteq> set short' \<and>
       set short' \<subseteq> set short \<union> members groups \<and>
       (\<forall>w \<in> members groups. sm_values c' w \<noteq> None \<or> w \<in> set short' \<or> w \<in> members dense'))"
  using assms(2-5)
proof (induction groups arbitrary: dense short c)
  case Nil
  then show ?case by (simp add: fine_value)
next
  case (Cons kk groups)
  obtain k keys where kk: "kk = (k, keys)" by fastforce
  let ?Q = "\<lambda>gs dense short. \<lambda>(dense', short') c'. set dense \<subseteq> set dense' \<and> set dense' \<subseteq> set dense \<union> set gs \<and> distinct short' \<and>
       set short \<subseteq> set short' \<and> set short' \<subseteq> set short \<union> members gs \<and>
       (\<forall>w \<in> members gs. sm_values c' w \<noteq> None \<or> w \<in> set short' \<or> w \<in> members dense')"
  have ok: "groups_ok groups" "groups_ok [(k, keys)]" using Cons.prems(3) kk by simp_all
  show ?case
  proof (cases "streamIndexGroupMinRaws \<le> sm_groupCounts c k + length keys \<or> indexFor k c \<noteq> None")
    case True
    have "groups_ok (dense @ [(k, keys)])" using Cons.prems(4) ok(2) by simp
    then have "fine env data c (sparse_groups env hints groups (dense @ [(k, keys)]) short c) (?Q groups (dense @ [(k, keys)]) short)"
      by (rule Cons.IH [OF Cons.prems(1,2) ok(1)])
    then have "fine env data c (sparse_groups env hints groups (dense @ [(k, keys)]) short c) (?Q (kk # groups) dense short)"
    proof (rule fine_weaken)
      fix r c'
      assume "?Q groups (dense @ [(k, keys)]) short r c'"
      moreover have "w \<in> members dense'" if "w \<in> set keys" "(k, keys) \<in> set dense'" for w dense'
        using that by (auto simp: members_def)
      ultimately show "?Q (kk # groups) dense short r c'" unfolding kk by (cases r) auto
    qed
    moreover have "sparse_groups env hints (kk # groups) dense short c = sparse_groups env hints groups (dense @ [(k, keys)]) short c"
      using True kk by simp
    ultimately show ?thesis by (simp only:)
  next
    case False
    have step: "sparse_groups env hints (kk # groups) dense short c =
        sm_bind (sparse_group env hints keys short) (\<lambda>short1. sparse_groups env hints groups dense short1) c"
      using False kk by simp
    show ?thesis unfolding step
    proof (rule fine_bind, rule sparse_group_fine [OF assms(1) Cons.prems(1,2)])
      fix short1 c1
      assume l: "later data c c1" and p: "passed_on (set keys) short short1 c1"
      have "hints_good data c1 hints" "distinct short1" using hints_good_later [OF l] Cons.prems(1) p by (simp_all add: passed_on_def)
      from Cons.IH [OF this ok(1) Cons.prems(4)] show "fine env data c1 (sparse_groups env hints groups dense short1 c1) (?Q (kk # groups) dense short)"
      proof (rule fine_weaken)
        fix r c2
        assume l2: "later data c1 c2" and "?Q groups dense short1 r c2"
        moreover obtain dense' short' where r: "r = (dense', short')" by fastforce
        ultimately have q: "set dense \<subseteq> set dense'" "set dense' \<subseteq> set dense \<union> set groups" "distinct short'" "set short1 \<subseteq> set short'"
            "set short' \<subseteq> set short1 \<union> members groups" "\<forall>w \<in> members groups. sm_values c2 w \<noteq> None \<or> w \<in> set short' \<or> w \<in> members dense'"
          by simp_all
        have "sm_values c2 w \<noteq> None \<or> w \<in> set short'" if "w \<in> set keys" for w
          using p that later_not_None [OF l2, of w] q(4) unfolding passed_on_def by blast
        then show "?Q (kk # groups) dense short r c2" using q p unfolding kk r passed_on_def by auto
      qed
    qed
  qed
qed

section \<open>The plan of a batch\<close>

lemma update_entries: "set (AList.update k v al) \<subseteq> insert (k, v) (set al)"
  by (induction al) auto

lemma update_keys: "fst ` set (AList.update k v al) = insert k (fst ` set al)"
  by (induction al) auto

definition keys_at :: "(nat \<times> bytes list) list \<Rightarrow> nat \<Rightarrow> bytes list" where
  "keys_at groups k = (case map_of groups k of None \<Rightarrow> [] | Some keys \<Rightarrow> keys)"

lemma members_keys_at:
  assumes "distinct (map fst groups)"
  shows "w \<in> members groups \<longleftrightarrow> (\<exists>k. w \<in> set (keys_at groups k))"
proof -
  have "w \<in> members groups \<longleftrightarrow> (\<exists>k keys. map_of groups k = Some keys \<and> w \<in> set keys)"
    using assms by (auto simp: members_def)
  also have "\<dots> \<longleftrightarrow> (\<exists>k. w \<in> set (keys_at groups k))" by (auto simp: keys_at_def split: option.splits) (metis option.inject)+
  finally show ?thesis .
qed

lemma members_update:
  assumes "distinct (map fst groups)"
  shows "members (AList.update k (keys_at groups k @ [raw]) groups) = insert raw (members groups)"
proof -
  let ?g = "AList.update k (keys_at groups k @ [raw]) groups"
  have d: "distinct (map fst ?g)" using assms by (simp add: distinct_update)
  have m: "w \<in> set (keys_at ?g k') \<longleftrightarrow> k' = k \<and> w = raw \<or> w \<in> set (keys_at groups k')" for w k'
    by (auto simp: keys_at_def update_conv')
  show ?thesis using members_keys_at [OF d] members_keys_at [OF assms] m by blast
qed

definition new_raws :: "(bytes \<rightharpoonup> streamMatch) \<Rightarrow> (bytes \<times> streamRawHint) list \<Rightarrow> bytes set" where
  "new_raws resolved ps = {raw \<in> fst ` set ps. raw \<noteq> [] \<and> resolved raw = None}"

definition plan_ok :: "(bytes \<rightharpoonup> streamMatch) \<Rightarrow> (bytes \<times> streamRawHint) list \<Rightarrow> batch_plan \<Rightarrow> bool" where
  "plan_ok resolved ps pl \<longleftrightarrow>
     fst ` set (pl_hints pl) = new_raws resolved ps \<and> set (pl_hints pl) \<subseteq> set ps \<and>
     distinct (map fst (pl_groups pl)) \<and> groups_ok (pl_groups pl) \<and> (\<forall>k \<in> fst ` set (pl_groups pl). canonical k) \<and>
     members (pl_groups pl) = {raw \<in> new_raws resolved ps. length raw \<le> streamBatchMaxRaw} \<and>
     set (pl_long pl) = {raw \<in> new_raws resolved ps. \<not> length raw \<le> streamBatchMaxRaw}"

lemma new_raws_snoc: "new_raws resolved (ps @ [(raw, h)]) =
    (if raw = [] \<or> resolved raw \<noteq> None then new_raws resolved ps else insert raw (new_raws resolved ps))"
  by (auto simp: new_raws_def)

lemma plan_raw_ok:
  assumes "plan_ok resolved ps pl"
  shows "plan_ok resolved (ps @ [(raw, h)]) (plan_raw resolved (raw, h) pl)"
proof (cases "raw = [] \<or> resolved raw \<noteq> None")
  case True
  then have "plan_raw resolved (raw, h) pl = pl" by (auto simp: plan_raw_def)
  then show ?thesis using assms True unfolding plan_ok_def new_raws_snoc if_P [OF True] by auto
next
  case False
  define prev where "prev = map_of (pl_hints pl) raw"
  define hs where "hs = (case prev of None \<Rightarrow> AList.update raw h (pl_hints pl)
    | Some h0 \<Rightarrow> if \<not> hint_ok h0 \<and> hint_ok h then AList.update raw h (pl_hints pl) else pl_hints pl)"
  define gs where "gs = (if length raw \<le> streamBatchMaxRaw \<and> prev = None
    then AList.update (group_key raw) (keys_at (pl_groups pl) (group_key raw) @ [raw]) (pl_groups pl)
    else pl_groups pl)"
  define ls where "ls = (if length raw \<le> streamBatchMaxRaw then pl_long pl else pl_long pl @ [raw])"
  have new: "plan_raw resolved (raw, h) pl = \<lparr>pl_hints = hs, pl_groups = gs, pl_long = ls\<rparr>"
    using False by (cases prev) (auto simp: plan_raw_def hs_def gs_def ls_def prev_def Let_def keys_at_def)
  have K: "new_raws resolved (ps @ [(raw, h)]) = insert raw (new_raws resolved ps)" using False by (simp add: new_raws_snoc)
  have ok: "fst ` set (pl_hints pl) = new_raws resolved ps" "set (pl_hints pl) \<subseteq> set ps" "distinct (map fst (pl_groups pl))" "groups_ok (pl_groups pl)"
      "\<forall>k \<in> fst ` set (pl_groups pl). canonical k" "members (pl_groups pl) = {raw \<in> new_raws resolved ps. length raw \<le> streamBatchMaxRaw}"
      "set (pl_long pl) = {raw \<in> new_raws resolved ps. \<not> length raw \<le> streamBatchMaxRaw}"
    using assms by (simp_all add: plan_ok_def)
  have seen: "raw \<in> new_raws resolved ps" if "prev \<noteq> None"
    using that ok(1) map_of_eq_None_iff [of "pl_hints pl" raw] by (simp add: prev_def)
  have "fst ` set hs = insert raw (new_raws resolved ps)" "set hs \<subseteq> insert (raw, h) (set ps)"
  proof -
    show "fst ` set hs = insert raw (new_raws resolved ps)"
      using seen ok(1) by (cases prev) (auto simp: hs_def update_keys)
    show "set hs \<subseteq> insert (raw, h) (set ps)"
      using update_entries [of raw h "pl_hints pl"] ok(2) by (cases prev) (auto simp: hs_def)
  qed
  moreover have "distinct (map fst gs)" using ok(3) by (simp add: gs_def distinct_update)
  moreover have "groups_ok gs"
  proof -
    let ?keys = "keys_at (pl_groups pl) (group_key raw)"
    have "\<forall>key \<in> set ?keys. group_key key = group_key raw \<and> key \<noteq> []"
    proof (cases "map_of (pl_groups pl) (group_key raw)")
      case (Some keys)
      then show ?thesis using ok(4) map_of_SomeD [OF Some] unfolding groups_ok_def keys_at_def by auto
    qed (simp add: keys_at_def)
    then have one: "\<forall>key \<in> set (?keys @ [raw]). group_key key = group_key raw \<and> key \<noteq> []" using False by simp
    have "groups_ok (AList.update (group_key raw) (?keys @ [raw]) (pl_groups pl))" unfolding groups_ok_def
    proof
      fix x
      assume "x \<in> set (AList.update (group_key raw) (?keys @ [raw]) (pl_groups pl))"
      then consider "x = (group_key raw, ?keys @ [raw])" | "x \<in> set (pl_groups pl)"
        using update_entries [of "group_key raw" "?keys @ [raw]" "pl_groups pl"] by blast
      then show "case x of (k, keys) \<Rightarrow> \<forall>key \<in> set keys. group_key key = k \<and> key \<noteq> []"
        using one ok(4) unfolding groups_ok_def by cases blast+
    qed
    then show ?thesis using ok(4) by (simp add: gs_def)
  qed
  moreover have "\<forall>k \<in> fst ` set gs. canonical k"
  proof -
    have sub: "fst ` set gs \<subseteq> insert (group_key raw) (fst ` set (pl_groups pl))" by (simp add: gs_def update_keys subset_insertI)
    show ?thesis
    proof
      fix k
      assume "k \<in> fst ` set gs"
      from subsetD [OF sub this] have "k = group_key raw \<or> k \<in> fst ` set (pl_groups pl)" by (simp only: insert_iff)
      then show "canonical k" using bspec [OF ok(5), of k] canonical_group_key [of raw] by metis
    qed
  qed
  moreover have "members gs = {w \<in> insert raw (new_raws resolved ps). length w \<le> streamBatchMaxRaw}"
    using members_update [OF ok(3)] ok(6) seen by (auto simp: gs_def)
  moreover have "set ls = {w \<in> insert raw (new_raws resolved ps). \<not> length w \<le> streamBatchMaxRaw}"
    using ok(7) by (auto simp: ls_def)
  ultimately show ?thesis unfolding plan_ok_def new K by simp
qed

lemma plan_ok_fold: "plan_ok resolved ps (fold (plan_raw resolved) ps \<lparr>pl_hints = [], pl_groups = [], pl_long = []\<rparr>)"
proof (induction ps rule: rev_induct)
  case Nil
  then show ?case by (simp add: plan_ok_def new_raws_def)
next
  case (snoc p ps)
  then show ?case using plan_raw_ok [of resolved ps _ "fst p" "snd p"] by simp
qed

lemma with_hints_raws: "fst ` set (with_hints raws hints) = set raws"
proof -
  have "map fst (with_hints raws hints) = raws" by (simp add: with_hints_def)
  then show ?thesis by (metis list.set_map)
qed

lemma with_hints_good:
  assumes "\<And>i. i < length raws \<Longrightarrow> i < length hints \<Longrightarrow> hint_good data c (raws ! i) (hints ! i)"
  shows "\<forall>(raw, h) \<in> set (with_hints raws hints). hint_good data c raw h"
proof -
  have "hint_good data c (raws ! i) ((hints @ replicate (length raws) zero_hint) ! i)" if "i < length raws" for i
    using that assms [of i] by (simp add: nth_append)
  then show ?thesis by (auto simp: with_hints_def set_zip simp del: take_append)
qed

section \<open>Resolving a batch\<close>

lemma count_raw_later: "cache_ok data c \<Longrightarrow> later data c (count_raw raw c)"
  by (simp add: count_raw_def later_def cache_ok_def values_ok_def indexes_ok_def indexFor_def observation_ok_def observed_def observation_def
      cong: if_cong)

lemma count_raws_later: "cache_ok data c \<Longrightarrow> later data c (fold count_raw raws c)"
proof (induction raws arbitrary: c)
  case (Cons raw raws)
  then show ?case using count_raw_later [OF Cons.prems, of raw] later_ok later_trans by fastforce
qed simp

lemma match_long_fine:
  assumes "truthful env data" "hints_good data c hints" "\<forall>raw \<in> set raws. raw \<noteq> []"
  shows "fine env data c (match_long env hints raws c) (\<lambda>_ c'. all_known (set raws) c')"
  using assms(2,3)
proof (induction raws arbitrary: c)
  case Nil
  then show ?case by (simp add: fine_return all_known_def)
next
  case (Cons raw raws)
  have ne: "raw \<noteq> []" using Cons.prems(2) by simp
  show ?case unfolding match_long.simps
  proof (rule fine_bind, rule match_raw_fine [OF assms(1) ne hints_good_lookup [OF Cons.prems(1)]])
    fix m c1
    assume l: "later data c c1" and m: "m = first_match data raw \<and> sm_values c1 raw = Some m"
    have "hints_good data c1 hints" "\<forall>raw \<in> set raws. raw \<noteq> []" using hints_good_later [OF l] Cons.prems by simp_all
    from Cons.IH [OF this] show "fine env data c1 (match_long env hints raws c1) (\<lambda>_ c'. all_known (set (raw # raws)) c')"
    proof (rule fine_weaken)
      fix x :: unit and c2
      assume "later data c1 c2" "all_known (set raws) c2"
      then show "all_known (set (raw # raws)) c2" using m later_known by (auto simp: all_known_def)
    qed
  qed
qed

lemma all_known_later: "later data c c' \<Longrightarrow> all_known W c \<Longrightarrow> all_known W c'"
  unfolding all_known_def using later_not_None by blast

lemma resolve_fine:
  assumes "truthful env data" "\<And>i. i < length raws \<Longrightarrow> i < length hints \<Longrightarrow> hint_good data c (raws ! i) (hints ! i)"
  shows "fine env data c (resolve env raws hints c) (\<lambda>_ c'. \<forall>raw \<in> set raws. raw \<noteq> [] \<longrightarrow> sm_values c' raw \<noteq> None)"
proof -
  let ?ps = "with_hints raws hints"
  define pl where "pl = fold (plan_raw (sm_values c)) ?ps \<lparr>pl_hints = [], pl_groups = [], pl_long = []\<rparr>"
  have pl: "plan_ok (sm_values c) ?ps pl" unfolding pl_def by (rule plan_ok_fold)
  let ?K = "new_raws (sm_values c) ?ps"
  let ?groups = "range_order env c (pl_groups pl)"
  have hints: "hints_good data c (pl_hints pl)"
    using pl with_hints_good [of raws hints data c, OF assms(2)] unfolding plan_ok_def hints_good_def by blast
  have groups: "groups_ok ?groups" "members ?groups = {raw \<in> ?K. length raw \<le> streamBatchMaxRaw}" "\<forall>k \<in> fst ` set ?groups. canonical k"
    using pl groups_ok_set [of ?groups "pl_groups pl"] members_set [of ?groups "pl_groups pl"] by (simp_all add: plan_ok_def)
  have K: "[] \<notin> ?K" "\<And>raw. raw \<in> set raws \<Longrightarrow> raw \<noteq> [] \<Longrightarrow> sm_values c raw = None \<Longrightarrow> raw \<in> ?K"
    using with_hints_raws [of raws hints] by (simp_all add: new_raws_def)
  have long: "set (pl_long pl) = {raw \<in> ?K. \<not> length raw \<le> streamBatchMaxRaw}" "\<forall>raw \<in> set (pl_long pl). raw \<noteq> []"
    using pl K(1) by (auto simp: plan_ok_def)
  show ?thesis unfolding resolve_def pl_def [symmetric] Let_def
  proof (rule fine_bind, rule sparse_groups_fine [OF assms(1) hints _ groups(1)])
    fix r and c1 :: streamMatchCache
    assume l1: "later data c c1" and "(case r of (dense', short') \<Rightarrow> \<lambda>c'. set [] \<subseteq> set dense' \<and> set dense' \<subseteq> set [] \<union> set ?groups \<and> distinct short' \<and>
       set [] \<subseteq> set short' \<and> set short' \<subseteq> set [] \<union> members ?groups \<and>
       (\<forall>w \<in> members ?groups. sm_values c' w \<noteq> None \<or> w \<in> set short' \<or> w \<in> members dense')) c1"
    moreover obtain dense short where r: "r = (dense, short)" by fastforce
    ultimately have s: "set dense \<subseteq> set ?groups" "distinct short" "set short \<subseteq> members ?groups"
        "\<forall>w \<in> members ?groups. sm_values c1 w \<noteq> None \<or> w \<in> set short \<or> w \<in> members dense" by simp_all
    have dense: "groups_ok dense" "\<forall>k \<in> fst ` set dense. canonical k" "members dense \<subseteq> members ?groups"
      using s(1) groups(1,3) unfolding groups_ok_def members_def by blast+
    have "fine env data c1 (sm_bind (resolveIndexGroups env dense short) (\<lambda>short1.
          sm_bind (findReaderMatches env short1) (\<lambda>_.
            sm_bind (\<lambda>c1. (Inr (), fold count_raw (map fst (pl_hints pl)) c1)) (\<lambda>_.
              match_long env (pl_hints pl) (pl_long pl)))) c1) (\<lambda>_ c'. \<forall>raw \<in> set raws. raw \<noteq> [] \<longrightarrow> sm_values c' raw \<noteq> None)"
    proof (rule fine_bind, rule resolveIndexGroups_fine [OF assms(1) dense(1,2) s(2)])
      fix short1 c2
      assume l2: "later data c1 c2" and p: "passed_on (members dense) short short1 c2"
      have short1: "distinct short1" "[] \<notin> set short1"
        using p s(3) dense(3) groups(2) K(1) unfolding passed_on_def by auto
      show "fine env data c2 (sm_bind (findReaderMatches env short1) (\<lambda>_.
            sm_bind (\<lambda>c1. (Inr (), fold count_raw (map fst (pl_hints pl)) c1)) (\<lambda>_.
              match_long env (pl_hints pl) (pl_long pl))) c2) (\<lambda>_ c'. \<forall>raw \<in> set raws. raw \<noteq> [] \<longrightarrow> sm_values c' raw \<noteq> None)"
      proof (rule fine_bind, rule findReaderMatches_fine [OF assms(1) short1])
        fix x :: unit and c3
        assume l3: "later data c2 c3" and known: "all_known (set short1) c3"
        have count: "fine env data c3 (Inr (), fold count_raw (map fst (pl_hints pl)) c3) (\<lambda>_ c'. later data c3 c')"
          using count_raws_later by (simp add: fine_def)
        show "fine env data c3 (sm_bind (\<lambda>c1. (Inr (), fold count_raw (map fst (pl_hints pl)) c1)) (\<lambda>_.
              match_long env (pl_hints pl) (pl_long pl)) c3) (\<lambda>_ c'. \<forall>raw \<in> set raws. raw \<noteq> [] \<longrightarrow> sm_values c' raw \<noteq> None)"
        proof (rule fine_bind, rule count)
          fix y :: unit and c4
          assume l4: "later data c3 c4"
          have l: "later data c c4" by (rule later_trans [OF later_trans [OF later_trans [OF l1 l2] l3] l4])
          have "hints_good data c4 (pl_hints pl)" using hints_good_later [OF l] hints by simp
          from match_long_fine [OF assms(1) this long(2)]
          show "fine env data c4 (match_long env (pl_hints pl) (pl_long pl) c4) (\<lambda>_ c'. \<forall>raw \<in> set raws. raw \<noteq> [] \<longrightarrow> sm_values c' raw \<noteq> None)"
          proof (rule fine_weaken)
            fix z :: unit and c5
            assume l5: "later data c4 c5" and longs: "all_known (set (pl_long pl)) c5"
            show "\<forall>raw \<in> set raws. raw \<noteq> [] \<longrightarrow> sm_values c5 raw \<noteq> None"
            proof (intro ballI impI)
              fix raw
              assume raw: "raw \<in> set raws" "raw \<noteq> []"
              have keep: "sm_values c5 raw \<noteq> None" if "sm_values c' raw \<noteq> None" "later data c' c5" for c'
                using later_not_None that by blast
              note l35 = later_trans [OF l4 l5] and l25 = later_trans [OF l3 later_trans [OF l4 l5]]
                and l15 = later_trans [OF l2 later_trans [OF l3 later_trans [OF l4 l5]]] and l05 = later_trans [OF l l5]
              have "sm_values c raw \<noteq> None \<or> raw \<in> set (pl_long pl) \<or> raw \<in> members ?groups"
                unfolding long(1) groups(2) using K(2) [OF raw] by blast
              then consider (old) "sm_values c raw \<noteq> None" | (long) "raw \<in> set (pl_long pl)" | (short) "raw \<in> members ?groups" by blast
              then show "sm_values c5 raw \<noteq> None"
              proof cases
                case old
                then show ?thesis using keep l05 by blast
              next
                case long
                then show ?thesis using longs by (simp add: all_known_def)
              next
                case short
                then consider "sm_values c1 raw \<noteq> None" | "raw \<in> set short" | "raw \<in> members dense" using s(4) by blast
                then have "sm_values c1 raw \<noteq> None \<or> sm_values c2 raw \<noteq> None \<or> raw \<in> set short1"
                  using p unfolding passed_on_def by cases blast+
                then show ?thesis using known keep l15 l25 l35 unfolding all_known_def by blast
              qed
            qed
          qed
        qed
      qed
    qed
    then show "fine env data c1 ((case r of (dense, short) \<Rightarrow> sm_bind (resolveIndexGroups env dense short) (\<lambda>short1.
          sm_bind (findReaderMatches env short1) (\<lambda>_.
            sm_bind (\<lambda>c1. (Inr (), fold count_raw (map fst (pl_hints pl)) c1)) (\<lambda>_.
              match_long env (pl_hints pl) (pl_long pl))))) c1) (\<lambda>_ c'. \<forall>raw \<in> set raws. raw \<noteq> [] \<longrightarrow> sm_values c' raw \<noteq> None)"
      using r by simp
  qed simp_all
qed

end
