(* ===== verification/StreamCache.thy ===== *)
theory StreamCache
  imports StreamResolveCorrect
begin

text \<open>
  The life of a stream match cache: it is created, observes windows and candidates, and resolves batches. Every cache
  that arises this way is sound, and what it returns are first occurrences.
\<close>

section \<open>Observation of a source\<close>

lemma bootstrap_loop_ok:
  assumes "truthful env data" "observation_ok data c" "fin \<le> length data" "start = 0 \<or> start < sm_through c" "start \<le> fin"
    and "bootstrap_loop env fin start c = (r, c')"
  shows "observation_ok data c' \<and> sm_values c' = sm_values c \<and> sm_pairIndex c' = sm_pairIndex c \<and> sm_byteIndex c' = sm_byteIndex c \<and>
    (r = Inr () \<and> start < fin \<longrightarrow> fin \<le> sm_through c' \<and> sm_firstPair c' \<noteq> None) \<and>
    (reliable env data \<longrightarrow> r = Inr ())"
  using assms
proof (induction env fin start c arbitrary: r c' rule: bootstrap_loop.induct)
  case (1 env fin start c)
  note prems = "1.prems"
  show ?case
  proof (cases "start < fin")
    case False
    then have "(Inr (), c) = (r, c')" using prems(6) bootstrap_loop.simps [of env fin start c] by simp
    then show ?thesis using prems(2,5) False by auto
  next
    case True
    obtain b c1 where b: "read_block env (streamBlockSize + 1) start fin c = (b, c1)" by fastforce
    have frame: "observation_ok data c1 = observation_ok data c" "sm_through c1 = sm_through c" "sm_firstPair c1 = sm_firstPair c"
      "sm_values c1 = sm_values c" "sm_pairIndex c1 = sm_pairIndex c" "sm_byteIndex c1 = sm_byteIndex c"
      using b by (auto simp: read_block_def sm_bind_def sm_poll_def read_exact_def Let_def observation_ok_def observed_def cong: if_cong
          split: if_splits sum.splits prod.splits)
    show ?thesis
    proof (cases b)
      case (Inl e)
      then have "r = Inl e" "c' = c1" using prems(6) b True bootstrap_loop.simps [of env fin start c] by (auto simp: sm_bind_def)
      moreover have "\<not> reliable env data"
      proof
        assume rel: "reliable env data"
        let ?n = "min (streamBlockSize + 1) (fin - start)"
        obtain got err where g: "sv_reader env (Suc (sm_tick c)) start ?n = (got, err)" by fastforce
        have "start + ?n \<le> length data" using True prems(3) by auto
        then have "length got = ?n \<and> err \<in> {None, Some EOF}" using rel g unfolding reliable_def by blast
        then show False using b Inl g rel by (auto simp: read_block_def sm_bind_def sm_poll_def read_exact_def reliable_def)
      qed
      ultimately show ?thesis using prems(2) frame by simp
    next
      case (Inr w)
      let ?c = "c\<lparr>sm_values := Map.empty, sm_firstPair := None, sm_restPair := (\<lambda>_. []), sm_through := 0, sm_pairIndex := Map.empty, sm_byteIndex := Map.empty\<rparr>"
      have "cache_ok data ?c" by (simp add: cache_ok_def values_ok_def observation_ok_def indexes_ok_def indexFor_def)
      moreover obtain c2 where "read_block env (streamBlockSize + 1) start fin ?c = (Inr w, c2)"
        using b Inr by (auto simp: read_block_def sm_bind_def sm_poll_def read_exact_def Let_def split: if_splits sum.splits prod.splits)
      ultimately have w: "length w = min (streamBlockSize + 1) (fin - start)" "block_of data start w"
        using fine_block [OF prems(1) True prems(3), of ?c "streamBlockSize + 1"] by (simp_all add: fine_def)
      let ?next = "start + (if start + length w < fin then length w - 1 else length w)"
      have rec: "bootstrap_loop env fin ?next (observeRawWindow [] w start c1) = (r, c')"
        using prems(6) b Inr True bootstrap_loop.simps [of env fin start c] by (auto simp: sm_bind_def)
      have len: "0 < length w" "start + length w \<le> fin" "?next \<le> fin" "start + length w < fin \<longrightarrow> length w = streamBlockSize + 1"
        using w(1) True by (auto simp: streamBlockSize_def)
      have o: "observation_ok data (observeRawWindow [] w start c1)" "sm_firstPair (observeRawWindow [] w start c1) \<noteq> None"
          "sm_through (observeRawWindow [] w start c1) = max (sm_through c) (start + length w)"
        using observe_window_ok [of data c1 start w] prems(2,4) frame w(2) len(1) by (auto simp: block_of_def)
      have "?next = 0 \<or> ?next < sm_through (observeRawWindow [] w start c1) \<or> ?next = fin"
        using len o(3) by auto
      show ?thesis
      proof (cases "?next = fin")
        case True
        then have "(Inr (), observeRawWindow [] w start c1) = (r, c')" using rec bootstrap_loop.simps [of env fin fin] by simp
        moreover have "fin \<le> start + length w" using True len(1,2) by (auto split: if_splits)
        ultimately show ?thesis using o frame by auto
      next
        case False
        then have "?next < sm_through (observeRawWindow [] w start c1)" "?next < fin"
          using len o(3) by (auto split: if_splits)
        with "1.IH" [OF \<open>start < fin\<close> b [unfolded Inr] prems(1) o(1) prems(3) _ len(3) rec]
        show ?thesis using o frame by auto
      qed
    qed
  qed
qed

text \<open>Before observation starts nothing has been recorded.\<close>

definition phase_ok :: "streamMatchCache \<Rightarrow> bool" where
  "phase_ok c \<longleftrightarrow> (sm_active c \<longleftrightarrow> sm_firstPair c \<noteq> None) \<and> (sm_active c \<longrightarrow> \<not> sm_disabled c)"

lemma cache_ok_cong:
  assumes "cache_ok data c" "observation_ok data c'" "sm_values c' = sm_values c" "sm_pairIndex c' = sm_pairIndex c" "sm_byteIndex c' = sm_byteIndex c"
  shows "cache_ok data c'"
  using assms by (simp add: cache_ok_def values_ok_def indexes_ok_def indexFor_def)

lemma window_phase [simp]:
  "sm_active (observeRawWindow src w start c) = sm_active c" "sm_disabled (observeRawWindow src w start c) = sm_disabled c"
proof -
  have "sm_active (fold (observe_position w start) is c1) = sm_active c1 \<and> sm_disabled (fold (observe_position w start) is c1) = sm_disabled c1"
    for "is" c1 by (induction "is" arbitrary: c1) (auto simp: observe_position_def Let_def)
  then show "sm_active (observeRawWindow src w start c) = sm_active c" "sm_disabled (observeRawWindow src w start c) = sm_disabled c"
    by (simp_all add: observeRawWindow_def Let_def)
qed

lemma bootstrap_phase:
  "bootstrap_loop env fin start c = (r, c') \<Longrightarrow> sm_active c' = sm_active c \<and> sm_disabled c' = sm_disabled c"
proof (induction env fin start c arbitrary: r c' rule: bootstrap_loop.induct)
  case (1 env fin start c)
  obtain b c1 where b: "read_block env (streamBlockSize + 1) start fin c = (b, c1)" by fastforce
  then have "sm_active c1 = sm_active c \<and> sm_disabled c1 = sm_disabled c"
    by (auto simp: read_block_def sm_bind_def sm_poll_def read_exact_def Let_def split: if_splits sum.splits prod.splits)
  then show ?case using 1 b bootstrap_loop.simps [of env fin start c]
    by (cases b) (auto simp: sm_bind_def split: if_splits)
qed

lemma window_ok:
  assumes "cache_ok data c" "phase_ok c" "sm_active c" "block_of data start w" "start = 0 \<or> start < sm_through c"
  shows "cache_ok data (observeRawWindow [] w start c) \<and> phase_ok (observeRawWindow [] w start c) \<and>
    sm_active (observeRawWindow [] w start c) \<and> (w \<noteq> [] \<longrightarrow> start + length w \<le> sm_through (observeRawWindow [] w start c))"
proof (cases "w = []")
  case True
  then show ?thesis using assms by (simp add: observeRawWindow_def)
next
  case False
  show ?thesis
    using observe_window_ok [of data c start w] assms cache_ok_cong [OF assms(1), of "observeRawWindow [] w start c"] False
    by (auto simp: cache_ok_def block_of_def phase_ok_def)
qed

lemma candidate_ok:
  assumes "truthful env data" "cache_ok data c" "phase_ok c" "block_of data start w" "sm_active c \<longrightarrow> start = 0 \<or> start < sm_through c"
    and "w \<noteq> []" "observeRawCandidate env w start raw c = (r, c')"
  shows "cache_ok data c' \<and> phase_ok c' \<and> sm_values c' = sm_values c \<and>
    (sm_active c' \<and> \<not> sm_disabled c \<and> raw \<noteq> [] \<longrightarrow> start + length w \<le> sm_through c') \<and> (reliable env data \<longrightarrow> r = Inr ())"
proof -
  define c1 where "c1 = c\<lparr>sm_candidates := List.insert raw (sm_candidates c)\<rparr>"
  have ok1: "cache_ok data c1" "phase_ok c1"
    using assms(2,3) by (simp_all add: c1_def cache_ok_def values_ok_def indexes_ok_def indexFor_def observation_ok_def observed_def phase_ok_def cong: if_cong)
  have within: "start + 1 \<le> length data" "0 < length w" using assms(4,6) by (auto simp: block_of_def simp flip: length_greater_0_conv)
  consider (skip) "raw = [] \<or> sm_disabled c" | (active) "\<not> (raw = [] \<or> sm_disabled c)" "sm_active c"
    | (few) "\<not> (raw = [] \<or> sm_disabled c)" "\<not> sm_active c" "length (sm_candidates c1) < streamRawObservationMinCandidates"
    | (start) "\<not> (raw = [] \<or> sm_disabled c)" "\<not> sm_active c" "\<not> length (sm_candidates c1) < streamRawObservationMinCandidates" by blast
  then show ?thesis
  proof cases
    case skip
    then have "r = Inr ()" "c' = c" using assms(7) by (auto simp: observeRawCandidate_def)
    then show ?thesis using assms(2,3) skip by auto
  next
    case active
    then have "r = Inr ()" "c' = observeRawWindow [] w start c" using assms(7) by (auto simp: observeRawCandidate_def)
    then show ?thesis using window_ok [OF assms(2,3) active(2) assms(4)] assms(5) active within(2) by auto
  next
    case few
    then have "r = Inr ()" "c' = c1" using assms(7) by (auto simp: observeRawCandidate_def c1_def)
    then show ?thesis using ok1 few(2) by (simp add: c1_def)
  next
    case start
    let ?fin = "min (sv_size env) (start + 1)"
    have fin: "?fin = start + 1" using within(1) truthful_size [OF assms(1)] by simp
    obtain b c2 where b: "bootstrap_loop env ?fin 0 c1 = (b, c2)" by fastforce
    have obs: "observation_ok data c1" using ok1(1) by (simp add: cache_ok_def)
    have boot: "observation_ok data c2 \<and> sm_values c2 = sm_values c1 \<and> sm_pairIndex c2 = sm_pairIndex c1 \<and> sm_byteIndex c2 = sm_byteIndex c1 \<and>
        (b = Inr () \<and> 0 < ?fin \<longrightarrow> ?fin \<le> sm_through c2 \<and> sm_firstPair c2 \<noteq> None) \<and> (reliable env data \<longrightarrow> b = Inr ())"
      by (rule bootstrap_loop_ok [OF assms(1) obs _ _ _ b]) (use fin within(1) in auto)
    show ?thesis
    proof (cases b)
      case (Inl e)
      then have "r = Inl e" and c': "c' = c2\<lparr>sm_firstPair := None, sm_restPair := (\<lambda>_. []), sm_restPairFull := {}, sm_through := 0,
          sm_candidates := [], sm_disabled := True\<rparr>"
        using assms(7) start b by (auto simp: observeRawCandidate_def c1_def [symmetric] bootstrapRawObservation_def Let_def)
      moreover have "cache_ok data c'" by (rule cache_ok_cong [OF ok1(1)]) (use boot in \<open>simp_all add: c' observation_ok_def\<close>)
      moreover have "\<not> sm_active c2" using bootstrap_phase [OF b] start(2) by (simp add: c1_def)
      ultimately show ?thesis using boot Inl by (simp add: phase_ok_def c1_def)
    next
      case (Inr u)
      let ?c = "c2\<lparr>sm_active := True, sm_candidates := []\<rparr>"
      have r: "r = Inr ()" "c' = observeRawWindow [] w start ?c"
        using assms(7) start b Inr by (auto simp: observeRawCandidate_def c1_def [symmetric] bootstrapRawObservation_def Let_def)
      have through: "start < sm_through ?c" "sm_firstPair ?c \<noteq> None" using boot Inr fin by auto
      have "cache_ok data ?c"
        by (rule cache_ok_cong [OF ok1(1)]) (use boot in \<open>simp_all add: observation_ok_def observed_def cong: if_cong\<close>)
      moreover have "phase_ok ?c" using through(2) bootstrap_phase [OF b] start(1) by (simp add: phase_ok_def c1_def)
      ultimately show ?thesis
        using window_ok [of data ?c start w] assms(4) through r boot within(2) by (auto simp: c1_def)
    qed
  qed
qed

section \<open>Hints made from windows\<close>

text \<open>The hint that a stream scan makes from a window: the first occurrence in the window, shifted.\<close>

lemma window_hint_good:
  assumes "block_of data start w" "bytes_index w raw = Some i" "raw \<noteq> []" "sm_active c \<longrightarrow> start + length w \<le> sm_through c" "phase_ok c"
  shows "hint_good data c raw \<lparr>hint_offset = int start + int i,
    hint_newlines = int (bytes_count_newlines (take start data)) + int (bytes_count_newlines (take i w)), hint_ok = True\<rparr>"
proof -
  have i: "occurs_at w raw i" using assms(2) by (simp add: bytes_index_Some)
  then have len: "i + length raw \<le> length w" "0 < length raw" using occurs_le [OF i] assms(3) by auto
  then have inside: "start + i < start + length w" by linarith
  have "occurs_at data raw (start + i)" using block_occurs [OF assms(1), of "start + i" raw] i len by simp
  moreover have "bytes_count_newlines (take start data) + bytes_count_newlines (take i w) = bytes_count_newlines (take (start + i) data)"
    by (rule block_newlines [OF assms(1)]) (use len in simp)
  ultimately show ?thesis unfolding hint_good_def
    using assms(4,5) inside by (intro impI exI [of _ "start + i"]) (auto simp: phase_ok_def)
qed

section \<open>The life of a cache\<close>

text \<open>
  The steps of a cache over one source, in any order: windows are observed front to back without a gap, candidates are
  observed in the window they were found in, batches carry good hints. A step may end with an error and leave the cache as it is then.
\<close>

inductive cache_reach :: "stream_env \<Rightarrow> bytes \<Rightarrow> streamMatchCache \<Rightarrow> bool" for env data where
  fresh: "cache_reach env data (newStreamMatchCache\<lparr>sm_tick := t\<rparr>)"
| window: "cache_reach env data c \<Longrightarrow> sm_active c \<Longrightarrow> block_of data start w \<Longrightarrow> start = 0 \<or> start < sm_through c \<Longrightarrow>
    cache_reach env data (observeRawWindow [] w start c)"
| candidate: "cache_reach env data c \<Longrightarrow> block_of data start w \<Longrightarrow> w \<noteq> [] \<Longrightarrow> sm_active c \<longrightarrow> start = 0 \<or> start < sm_through c \<Longrightarrow>
    observeRawCandidate env w start raw c = (r, c') \<Longrightarrow> cache_reach env data c'"
| batch: "cache_reach env data c \<Longrightarrow> (\<And>i. i < length raws \<Longrightarrow> i < length hints \<Longrightarrow> hint_good data c (raws ! i) (hints ! i)) \<Longrightarrow>
    resolve env raws hints c = (r, c') \<Longrightarrow> cache_reach env data c'"
| single: "cache_reach env data c \<Longrightarrow> hint_good data c raw hint \<Longrightarrow> match_raw env raw hint c = (r1, c') \<Longrightarrow> cache_reach env data c'"

lemma later_phase: "later data c c' \<Longrightarrow> phase_ok c \<Longrightarrow> phase_ok c'"
  by (simp add: later_def observation_def phase_ok_def)

lemma cache_reach_ok:
  assumes "cache_reach env data c" "truthful env data"
  shows "cache_ok data c \<and> phase_ok c"
  using assms(1)
proof (induction rule: cache_reach.induct)
  case (fresh t)
  then show ?case
    by (simp add: newStreamMatchCache_def cache_ok_def values_ok_def observation_ok_def indexes_ok_def indexFor_def phase_ok_def)
next
  case (window c start w)
  then show ?case using window_ok by blast
next
  case (candidate c start w raw r c')
  then show ?case using candidate_ok [OF assms(2)] by blast
next
  case (batch c raws hints r c')
  then have "later data c c'" using resolve_fine [OF assms(2), of raws hints c] by (auto simp: fine_def split: sum.splits)
  then show ?case using batch.IH later_ok later_phase by blast
next
  case (single c raw hint r1 c')
  have "later data c c'"
  proof (cases "raw = []")
    case True
    then show ?thesis using single by (auto simp: match_raw_def)
  next
    case False
    then show ?thesis using match_raw_fine [OF assms(2) False single.hyps(2)] single.IH single.hyps(3) by (auto simp: fine_def split: sum.splits)
  qed
  then show ?case using single.IH later_ok later_phase by blast
qed

text \<open>C11. Whatever a stream match cache has been through -- windows and candidates observed, batches and single secrets resolved, with or
  without errors, cancellation and index budgets exhausted -- a value it holds for a secret is the secret's first
  occurrence in the source and the number of newlines before it, or that the secret does not occur.\<close>

theorem cache_values_first_occurrence:
  assumes "truthful env data" "cache_reach env data c" "lookup raw c = Some m"
  shows "case bytes_index data raw of
      None \<Rightarrow> \<not> sm_found m \<and> sm_offset m = -1
    | Some i \<Rightarrow> sm_found m \<and> sm_offset m = int i \<and> sm_newlineCount m = int (bytes_count_newlines (take i data))"
proof -
  have "sm_values c raw = Some m" using assms(3) by (simp add: lookup_def split: if_splits)
  then have "m = first_match data raw"
    using cache_reach_ok [OF assms(2,1)] unfolding cache_ok_def values_ok_def by blast
  then show ?thesis by (auto simp: first_match_def absent_match_def split: option.splits)
qed

text \<open>C12. Resolving a batch is complete: without an error every secret of the batch has a value afterwards, whichever way it took
  (hint, prefix index, shared scan, own scan) and in whatever order Go ranges over its maps; and there is no error when the source
  is read in full and the context stays alive.\<close>

theorem resolve_complete:
  assumes "truthful env data" "cache_reach env data c"
    and "\<And>i. i < length raws \<Longrightarrow> i < length hints \<Longrightarrow> hint_good data c (raws ! i) (hints ! i)"
    and "resolve env raws hints c = (r, c')"
  shows "(r = Inr () \<longrightarrow> (\<forall>raw \<in> set raws. raw \<noteq> [] \<longrightarrow> lookup raw c' = Some (first_match data raw))) \<and>
    (reliable env data \<longrightarrow> r = Inr ())"
proof -
  have ok: "cache_ok data c" using cache_reach_ok [OF assms(2,1)] by simp
  have ok': "cache_ok data c'"
    using cache_reach_ok [OF cache_reach.batch [OF assms(2-4)] assms(1)] by simp
  have f: "fine env data c (r, c') (\<lambda>_ c'. \<forall>raw \<in> set raws. raw \<noteq> [] \<longrightarrow> sm_values c' raw \<noteq> None)"
    using resolve_fine [OF assms(1,3)] assms(4) by simp
  have "lookup raw c' = Some (first_match data raw)" if "r = Inr ()" "raw \<in> set raws" "raw \<noteq> []" for raw
  proof -
    have "sm_values c' raw \<noteq> None" using f ok that by (auto simp: fine_def)
    then obtain m where m: "sm_values c' raw = Some m" by blast
    then have "m = first_match data raw" using ok' unfolding cache_ok_def values_ok_def by blast
    then show ?thesis using m that(3) by (simp add: lookup_def)
  qed
  moreover have "reliable env data \<longrightarrow> r = Inr ()" using f ok by (auto simp: fine_def split: sum.splits)
  ultimately show ?thesis by blast
qed

section \<open>A source in memory\<close>

definition bytes_source :: "bytes \<Rightarrow> stream_env" where
  "bytes_source data = \<lparr>sv_reader = (\<lambda>t off n. (slice off (off + n) data, None)), sv_size = length data, sv_cancelled = (\<lambda>_. False),
     sv_order = (\<lambda>_ n. [0..<n])\<rparr>"

lemma bytes_source_ok: "truthful (bytes_source data) data" "reliable (bytes_source data) data"
  by (auto simp: truthful_def reliable_def bytes_source_def slice_def)

lemma sample_resolved:
  "\<exists>c'. resolve (bytes_source ''ab c ab'') [''c ''] [] (newStreamMatchCache\<lparr>sm_tick := 0\<rparr>) = (Inr (), c') \<and> lookup ''c '' c' \<noteq> None"
proof -
  let ?c = "newStreamMatchCache\<lparr>sm_tick := 0\<rparr>"
  have "cache_ok ''ab c ab'' ?c" using cache_reach_ok [OF cache_reach.fresh bytes_source_ok(1)] by blast
  moreover obtain r c' where r: "resolve (bytes_source ''ab c ab'') [''c ''] [] ?c = (r, c')" by fastforce
  ultimately show ?thesis
    using resolve_fine [OF bytes_source_ok(1), where data = "''ab c ab''" and raws = "[''c '']" and hints = "[]" and c = ?c]
      bytes_source_ok(2) [of "''ab c ab''"]
    by (auto simp: fine_def lookup_def split: sum.splits)
qed

theorem resolve_complete_witness:
  "\<exists>c'. resolve (bytes_source ''ab c ab'') [''c ''] [] (newStreamMatchCache\<lparr>sm_tick := 0\<rparr>) = (Inr (), c') \<and>
     lookup ''c '' c' = Some \<lparr>sm_offset = 3, sm_newlineCount = 0, sm_found = True\<rparr>"
proof -
  obtain c' where r: "resolve (bytes_source ''ab c ab'') [''c ''] [] (newStreamMatchCache\<lparr>sm_tick := 0\<rparr>) = (Inr (), c')"
    using sample_resolved by blast
  have "first_match ''ab c ab'' ''c '' = \<lparr>sm_offset = 3, sm_newlineCount = 0, sm_found = True\<rparr>" by code_simp
  then show ?thesis
    using resolve_complete [OF bytes_source_ok(1) cache_reach.fresh _ r] r by simp
qed

theorem cache_values_first_occurrence_witness:
  "\<exists>c' m. resolve (bytes_source ''ab c ab'') [''c ''] [] (newStreamMatchCache\<lparr>sm_tick := 0\<rparr>) = (Inr (), c') \<and>
     lookup ''c '' c' = Some m \<and> sm_found m \<and> sm_offset m = 3"
proof -
  obtain c' m where r: "resolve (bytes_source ''ab c ab'') [''c ''] [] (newStreamMatchCache\<lparr>sm_tick := 0\<rparr>) = (Inr (), c')"
    and m: "lookup ''c '' c' = Some m" using sample_resolved by blast
  have reach: "cache_reach (bytes_source ''ab c ab'') ''ab c ab'' c'"
    by (rule cache_reach.batch [OF cache_reach.fresh _ r]) simp
  have "bytes_index ''ab c ab'' ''c '' = Some 3" by code_simp
  then show ?thesis using cache_values_first_occurrence [OF bytes_source_ok(1) reach m] r m by auto
qed

end
