(* ===== verification/DecoderStream.thy ===== *)
theory DecoderStream
  imports Decoder StreamMatch
begin

text \<open>
  The decoded variants of a replayable source (\<^verbatim>\<open>src/pkg/decoder/stream.go\<close>): the source is read in blocks and each decoded
  form is spooled to a temporary file that is lent to the visitor. The clock of \<^typ>\<open>stream_env\<close> advances at every poll and every
  call to the outside; the source, the context, the temporary files and the sizes in which the library decoders read depend on it.
  A buffered writer hands its bytes to the file at some of its calls: every call may fail.
\<close>

section \<open>Readers, the outside world and clocked computations\<close>

text \<open>The error of a read as its caller sees it: the bare \<^verbatim>\<open>io.EOF\<close> or another one.\<close>

datatype read_result_err = VEOF | VErr stream_err

type_synonym variant_reader = "nat \<Rightarrow> nat \<Rightarrow> nat \<Rightarrow> (bytes \<times> read_result_err option) \<times> nat"

record decode_env =
  dv_stream :: stream_env
  dv_piece :: "nat \<Rightarrow> nat"
  dv_corrupt :: "bytes \<Rightarrow> string"
  dv_write :: "nat \<Rightarrow> string option"
  dv_file :: "nat \<Rightarrow> string option"
  dv_close :: "nat \<Rightarrow> string option"

type_synonym 'a clocked = "nat \<Rightarrow> (stream_err + 'a) \<times> nat"

definition ck_return :: "'a \<Rightarrow> 'a clocked" where
  "ck_return x t = (Inr x, t)"

definition ck_bind :: "'a clocked \<Rightarrow> ('a \<Rightarrow> 'b clocked) \<Rightarrow> 'b clocked" where
  "ck_bind m f t = (case m t of (Inl e, t1) \<Rightarrow> (Inl e, t1) | (Inr x, t1) \<Rightarrow> f x t1)"

lemma ck_bind_cong [fundef_cong]:
  assumes "m t = m' t'" "\<And>x t1. m' t' = (Inr x, t1) \<Longrightarrow> f x t1 = g x t1"
  shows "ck_bind m f t = ck_bind m' g t'"
  using assms by (auto simp: ck_bind_def split: prod.splits sum.splits)

definition ck_poll :: "stream_env \<Rightarrow> unit clocked" where
  "ck_poll env t = ((if sv_cancelled env t then Inl SCancelled else Inr ()), t + 1)"

text \<open>\<^verbatim>\<open>contextReaderAt.ReadAt\<close> with a buffer of \<open>n\<close> bytes.\<close>

definition contextReadAt :: "stream_env \<Rightarrow> nat \<Rightarrow> nat \<Rightarrow> nat \<Rightarrow> (bytes \<times> stream_err option) \<times> nat" where
  "contextReadAt env off n t =
     (if sv_cancelled env t then (([], Some SCancelled), t + 1)
      else if n = 0 then (([], None), t + 1)
      else
        let (got, err) = sv_reader env (t + 1) off n; p = take n got in
        ((p, case err of
               Some (ReadFailed e) \<Rightarrow> Some (SRead e)
             | Some EOF \<Rightarrow> if length p = n then None else Some (SRead ''EOF'')
             | None \<Rightarrow> if length p = n then None else Some SUnexpectedEOF), t + 2))"

lemma contextReadAt_length: "contextReadAt env off n t = ((p, e), t1) \<Longrightarrow> length p \<le> n \<and> (e = None \<longrightarrow> length p = n)"
  by (auto simp: contextReadAt_def Let_def split: if_splits prod.splits option.splits read_err.splits)

definition context_read :: "stream_env \<Rightarrow> nat \<Rightarrow> nat \<Rightarrow> bytes clocked" where
  "context_read env off n t = (case contextReadAt env off n t of ((p, None), t1) \<Rightarrow> (Inr p, t1) | ((p, Some e), t1) \<Rightarrow> (Inl e, t1))"

lemma context_read_length: "context_read env off n t = (Inr p, t1) \<Longrightarrow> length p = n"
  by (auto simp: context_read_def split: prod.splits option.splits dest: contextReadAt_length)

text \<open>The source and a spooled variant as the readers the visitor gets.\<close>

definition contextReaderAt :: "stream_env \<Rightarrow> variant_reader" where
  "contextReaderAt env t off n = (case contextReadAt env off n t of ((p, e), t1) \<Rightarrow> ((p, map_option VErr e), t1))"

definition file_reader :: "decode_env \<Rightarrow> bytes \<Rightarrow> variant_reader" where
  "file_reader env content t off n =
     (case dv_file env t of
        Some e \<Rightarrow> (([], Some (VErr (SRead e))), t + 1)
      | None \<Rightarrow> let p = slice off (off + n) content in ((p, if length p < n then Some VEOF else None), t + 1))"

section \<open>The variant file\<close>

definition put :: "decode_env \<Rightarrow> bytes \<Rightarrow> bytes \<Rightarrow> bytes clocked" where
  "put env content bs t =
     (case dv_write env t of Some e \<Rightarrow> (Inl (SRead e), t + 1) | None \<Rightarrow> (Inr (content @ bs), t + 1))"

definition countNonPrintable :: "bytes \<Rightarrow> nat" where
  "countNonPrintable p = length (filter (\<lambda>c. \<not> printable_byte c) p)"

definition printableCounts :: "nat \<Rightarrow> nat \<Rightarrow> bool" where
  "printableCounts n bad \<longleftrightarrow> 0 < n \<and> int bad \<le> int n - int (printableThreshold_of n)"

section \<open>Encoded runs\<close>

text \<open>Reading a run through a library decoder: it asks for some bytes at a time until the consumer of its output gives up.\<close>

function read_run :: "decode_env \<Rightarrow> (bytes \<Rightarrow> bool) \<Rightarrow> nat \<Rightarrow> nat \<Rightarrow> bytes \<Rightarrow> (bytes \<times> bool) clocked" where
  "read_run env quits off fin acc t =
     (if off < fin then
        ck_bind (context_read (dv_stream env) off (min (max 1 (dv_piece env t)) (fin - off))) (\<lambda>p t1.
          if quits (acc @ p) then (Inr (acc @ p, True), t1)
          else read_run env quits (off + length p) fin (acc @ p) t1) t
      else (Inr (acc, False), t))"
  by pat_completeness auto
termination
  by (relation "measure (\<lambda>(env, quits, off, fin, acc, t). fin - off)") (auto dest!: context_read_length)

declare read_run.simps [simp del]

text \<open>The decoded form of a whole run, and of the complete groups at the start of a run.\<close>

definition run_decode :: "b64enc option \<Rightarrow> bytes \<Rightarrow> bytes option" where
  "run_decode enc run = (case enc of Some e \<Rightarrow> b64_Decode e run | None \<Rightarrow> hex_Decode run)"

definition groups_decode :: "b64enc option \<Rightarrow> bytes \<Rightarrow> bytes option" where
  "groups_decode enc run =
     (let g = (case enc of Some _ \<Rightarrow> 4 | None \<Rightarrow> 2) in run_decode enc (take (length run div g * g) run))"

text \<open>The first pass counts: \<^const>\<open>None\<close> is a run that is corrupt or has too many non-printable bytes.\<close>

definition count_pass :: "decode_env \<Rightarrow> b64enc option \<Rightarrow> int \<Rightarrow> nat \<Rightarrow> nat \<Rightarrow> bytes option clocked" where
  "count_pass env enc budget start fin =
     (let stops = (\<lambda>d. case d of None \<Rightarrow> True | Some d \<Rightarrow> budget < int (countNonPrintable d)) in
      ck_bind (read_run env (\<lambda>acc. stops (groups_decode enc acc)) start fin []) (\<lambda>(run, quit).
        ck_return (if quit \<or> stops (run_decode enc run) then None else run_decode enc run)))"

text \<open>The second pass copies the decoded run to the file.\<close>

definition copy_pass :: "decode_env \<Rightarrow> b64enc option \<Rightarrow> nat \<Rightarrow> nat \<Rightarrow> bytes \<Rightarrow> bytes clocked" where
  "copy_pass env enc start fin content =
     ck_bind (read_run env (\<lambda>acc. groups_decode enc acc = None) start fin []) (\<lambda>(run, _).
       case run_decode enc run of
         None \<Rightarrow> (\<lambda>t. (Inl (SRead (dv_corrupt env run)), t))
       | Some d \<Rightarrow> put env content d)"

record run_state =
  rs_start :: "nat option"
  rs_alphabet :: nat
  rs_out :: "bytes option"

text \<open>The run that ends at \<open>fin\<close> after its padding, when its bytes have been counted.\<close>

definition accept_counted :: "decode_env \<Rightarrow> b64enc option \<Rightarrow> nat \<Rightarrow> nat \<Rightarrow> run_state \<Rightarrow> bytes option \<Rightarrow> run_state clocked" where
  "accept_counted env enc start fin st counted =
     (case counted of
        None \<Rightarrow> ck_return (st\<lparr>rs_start := None\<rparr>)
      | Some d \<Rightarrow>
        if printableCounts (length d) (countNonPrintable d) then
          ck_bind (case rs_out st of None \<Rightarrow> ck_return [] | Some o' \<Rightarrow> put env o' [CHR 0x0A]) (\<lambda>content.
            ck_bind (copy_pass env enc start fin content) (\<lambda>out. ck_return (st\<lparr>rs_start := None, rs_out := Some out\<rparr>)))
        else ck_return (st\<lparr>rs_start := None\<rparr>))"

definition decode_run :: "decode_env \<Rightarrow> bool \<Rightarrow> nat \<Rightarrow> nat \<Rightarrow> run_state \<Rightarrow> bytes \<Rightarrow> run_state clocked" where
  "decode_run env b64 start fin st padding =
     (let pad = takeWhile (\<lambda>b. b = CHR ''='') padding;
          fin1 = fin + length pad;
          enc = (if b64 then Some (base64Encoding pad (rs_alphabet st)) else None);
          upper = (if b64 then (fin1 - start) * 3 div 4 else (fin1 - start) div 2) in
      ck_bind (count_pass env enc (int upper - int (printableThreshold_of upper)) start fin1) (accept_counted env enc start fin1 st))"

definition flush_run :: "decode_env \<Rightarrow> bool \<Rightarrow> nat \<Rightarrow> run_state \<Rightarrow> run_state clocked" where
  "flush_run env b64 fin st =
     (case rs_start st of
        None \<Rightarrow> ck_return (st\<lparr>rs_start := None\<rparr>)
      | Some start \<Rightarrow>
        if fin - start < (if b64 then minBase64Run else minHexRun) then ck_return (st\<lparr>rs_start := None\<rparr>)
        else
          ck_bind (if b64 then context_read (dv_stream env) fin (min 2 (sv_size (dv_stream env) - fin)) else ck_return [])
            (decode_run env b64 start fin st))"

definition run_byte :: "bool \<Rightarrow> byte \<Rightarrow> bool" where
  "run_byte b64 c = (if b64 then isBase64Byte c else isHexByte c)"

fun scan_run_block :: "decode_env \<Rightarrow> bool \<Rightarrow> nat \<Rightarrow> bytes \<Rightarrow> run_state \<Rightarrow> run_state clocked" where
  "scan_run_block env b64 pos [] st = ck_return st"
| "scan_run_block env b64 pos (c # cs) st =
     (if run_byte b64 c then
        let st1 = (if rs_start st = None then st\<lparr>rs_start := Some pos, rs_alphabet := 0\<rparr> else st) in
        scan_run_block env b64 (pos + 1) cs (st1\<lparr>rs_alphabet := next_alphabet (rs_alphabet st1) c\<rparr>)
      else case rs_start st of
        None \<Rightarrow> scan_run_block env b64 (pos + 1) cs st
      | Some start \<Rightarrow>
        if (if b64 then minBase64Run else minHexRun) \<le> pos - start
        then ck_bind (flush_run env b64 pos st) (scan_run_block env b64 (pos + 1) cs)
        else scan_run_block env b64 (pos + 1) cs (st\<lparr>rs_start := None\<rparr>))"

definition scanLength :: nat where "scanLength = 64 * 1024"

function run_blocks :: "decode_env \<Rightarrow> bool \<Rightarrow> nat \<Rightarrow> run_state \<Rightarrow> run_state clocked" where
  "run_blocks env b64 off st t =
     (let size = sv_size (dv_stream env) in
      if off < size then
        ck_bind (ck_poll (dv_stream env)) (\<lambda>_. ck_bind (context_read (dv_stream env) off (min (size - off) scanLength)) (\<lambda>block.
          ck_bind (scan_run_block env b64 off block st) (run_blocks env b64 (off + length block)))) t
      else (Inr st, t))"
  by pat_completeness auto
termination
  by (relation "measure (\<lambda>(env, b64, off, st, t). sv_size (dv_stream env) - off)") (auto simp: scanLength_def dest!: context_read_length)

declare run_blocks.simps [simp del]

definition decodeStreamRuns :: "decode_env \<Rightarrow> bool \<Rightarrow> bytes option clocked" where
  "decodeStreamRuns env b64 =
     ck_bind (run_blocks env b64 0 \<lparr>rs_start = None, rs_alphabet = 0, rs_out = None\<rparr>) (\<lambda>st.
       ck_bind (flush_run env b64 (sv_size (dv_stream env)) st) (\<lambda>st1.
         case rs_out st1 of
           None \<Rightarrow> ck_return None
         | Some out \<Rightarrow> ck_bind (put env out []) (\<lambda>out1. ck_return (Some out1))))"

section \<open>Eligibility of the escape decoders\<close>

definition has_pair :: "string \<Rightarrow> bytes \<Rightarrow> bool" where
  "has_pair source data \<longleftrightarrow>
     source = ''percent'' \<and> hasPercentEscapePair data \<or> source = ''unicode-escape'' \<and> hasUnicodeEscapePair data"

definition carryLength :: nat where "carryLength = 11"

definition carry_of :: "bytes \<Rightarrow> bytes" where
  "carry_of data = drop (length data - min carryLength (length data)) data"

lemma carry_length: "length (carry_of data) \<le> 11"
  by (simp add: carry_of_def carryLength_def)

lemma gate_reads: "\<not> n \<le> off \<Longrightarrow> n - (off + min (scanLength + carryLength - length (carry_of prev)) (n - off)) < n - off"
  using carry_length [of prev] unfolding scanLength_def carryLength_def min_def by (auto split: if_splits)

text \<open>\<open>prev\<close> is what the buffer held after the previous read.\<close>

function pair_gate :: "stream_env \<Rightarrow> string \<Rightarrow> bytes \<Rightarrow> nat \<Rightarrow> bool clocked" where
  "pair_gate env source prev off t =
     (let carry = carry_of prev in
      if sv_size env \<le> off then (Inr (has_pair source carry), t)
      else case contextReadAt env off (min (scanLength + carryLength - length carry) (sv_size env - off)) t of
        ((p, err), t1) \<Rightarrow>
          if has_pair source (carry @ p) then (Inr True, t1)
          else case err of
            Some e \<Rightarrow> (Inl e, t1)
          | None \<Rightarrow> pair_gate env source (carry @ p) (off + length p) t1)"
  by pat_completeness auto
termination
  by (relation "measure (\<lambda>(env, source, prev, off, t). sv_size env - off)")
    (auto dest!: contextReadAt_length [OF sym] simp: gate_reads)

declare pair_gate.simps [simp del]

definition streamEncoding :: "stream_env \<Rightarrow> string \<Rightarrow> (string \<times> bool) clocked" where
  "streamEncoding env source =
     (if source = ''utf16'' then
        ck_bind (context_read env 0 (min (sv_size env) 128)) (\<lambda>p.
          if length p < 4 then ck_return (source, False)
          else case utf16Encoding p of
            None \<Rightarrow> ck_return (source, False)
          | Some (le, ok) \<Rightarrow> ck_return (if le then ''utf16le'' else ''utf16be'', ok))
      else ck_bind (pair_gate env source [] 0) (\<lambda>eligible. ck_return (source, eligible)))"

section \<open>The buffered reader\<close>

text \<open>\<^verbatim>\<open>bufio.Reader\<close> over a section of the source: the unread bytes of its buffer, the offset of the next read and the error it keeps
  until a \<^verbatim>\<open>Peek\<close> that cannot be satisfied hands it out.\<close>

record peek_reader =
  pr_buf :: bytes
  pr_off :: nat
  pr_err :: "read_result_err option"

definition bufferLength :: nat where "bufferLength = 32 * 1024"

definition fill :: "stream_env \<Rightarrow> peek_reader \<Rightarrow> nat \<Rightarrow> peek_reader \<times> nat" where
  "fill env r t =
     (if sv_size env \<le> pr_off r then (r\<lparr>pr_err := Some VEOF\<rparr>, t)
      else case contextReadAt env (pr_off r) (min (bufferLength - length (pr_buf r)) (sv_size env - pr_off r)) t of
        ((p, e), t1) \<Rightarrow> (r\<lparr>pr_buf := pr_buf r @ p, pr_off := pr_off r + length p, pr_err := map_option VErr e\<rparr>, t1))"

lemma fill_progress:
  assumes "fill env r t = (r1, t1)" "length (pr_buf r) < bufferLength"
  shows "pr_err r1 \<noteq> None \<and> length (pr_buf r) \<le> length (pr_buf r1) \<or> length (pr_buf r) < length (pr_buf r1)"
proof (cases "sv_size env \<le> pr_off r")
  case True
  then show ?thesis using assms(1) by (auto simp: fill_def)
next
  case False
  obtain p e t2 where p: "contextReadAt env (pr_off r) (min (bufferLength - length (pr_buf r)) (sv_size env - pr_off r)) t = ((p, e), t2)"
    by (metis prod.exhaust)
  then show ?thesis using assms False contextReadAt_length [OF p] by (cases e) (auto simp: fill_def)
qed

function peek :: "stream_env \<Rightarrow> nat \<Rightarrow> peek_reader \<Rightarrow> nat \<Rightarrow> (bytes \<times> read_result_err option) \<times> peek_reader \<times> nat" where
  "peek env n r t =
     (if length (pr_buf r) < n \<and> length (pr_buf r) < bufferLength \<and> pr_err r = None then (case fill env r t of (r1, t1) \<Rightarrow> peek env n r1 t1)
      else if length (pr_buf r) < n then 
        ((pr_buf r, Some (case pr_err r of None \<Rightarrow> VErr (SRead ''bufio: buffer full'') | Some e \<Rightarrow> e)), r\<lparr>pr_err := None\<rparr>, t)
      else ((take n (pr_buf r), None), r, t))"
  by pat_completeness auto
termination
proof (relation "measure (\<lambda>(env, n, r, t). n - length (pr_buf r) + (if pr_err r = None then 1 else 0))")
  show "((env, n, r1, t1), env, n, r, t) \<in> measure (\<lambda>(env, n, r, t). n - length (pr_buf r) + (if pr_err r = None then 1 else 0))"
    if "length (pr_buf r) < n \<and> length (pr_buf r) < bufferLength \<and> pr_err r = None" "(r1, t1) = fill env r t" for env n r t r1 t1
    using fill_progress [OF that(2) [symmetric]] that(1) by auto
qed simp

declare peek.simps [simp del]

text \<open>What is still to come: reading ahead keeps the sum of the unread bytes and of those not yet read.\<close>

definition remaining :: "stream_env \<Rightarrow> peek_reader \<Rightarrow> nat" where
  "remaining env r = length (pr_buf r) + (sv_size env - pr_off r)"

lemma fill_remaining: "fill env r t = (r1, t1) \<Longrightarrow> remaining env r1 = remaining env r"
  by (auto simp: fill_def remaining_def split: if_splits prod.splits dest!: contextReadAt_length)

lemma peek_remaining: "peek env n r t = (pe, r1, t1) \<Longrightarrow> remaining env r1 = remaining env r \<and> length (pr_buf r) \<le> length (pr_buf r1) \<and>
    (snd pe = None \<longrightarrow> n \<le> length (pr_buf r1))"
proof (induction env n r t rule: peek.induct)
  case (1 env n r t)
  show ?case
  proof (cases "length (pr_buf r) < n \<and> length (pr_buf r) < bufferLength \<and> pr_err r = None")
    case True
    obtain r2 t2 where f: "fill env r t = (r2, t2)" by fastforce
    have "length (pr_buf r) \<le> length (pr_buf r2)" using fill_progress [OF f] True by auto
    then show ?thesis using 1 True f fill_remaining [OF f] by (fastforce simp: peek.simps [of env n r t])
  next
    case False
    then show ?thesis using 1(2) by (auto simp: peek.simps [of env n r t] remaining_def split: if_splits)
  qed
qed

section \<open>Transforming the source\<close>

text \<open>One step: the bytes it writes, if it writes, and how many it consumes. \<open>p\<close> are the bytes the loop has peeked.\<close>

definition percent_step :: "stream_env \<Rightarrow> bytes \<Rightarrow> peek_reader \<Rightarrow> nat \<Rightarrow> (bytes option \<times> nat) \<times> peek_reader \<times> nat" where
  "percent_step env p r t =
     (let c = p ! 0 in
      if c = CHR ''%'' then
        (let ((q, _), r1, t1) = peek env 3 r t in
         (if length q = 3 \<and> isHexByte (q ! 1) \<and> isHexByte (q ! 2)
          then (Some [char_of (hexValue (q ! 1) * 16 + hexValue (q ! 2))], 3) else (Some [c], 1), r1, t1))
      else if c = CHR ''+'' then ((Some [CHR '' ''], 1), r, t)
      else ((Some [c], 1), r, t))"

definition unicode_step :: "stream_env \<Rightarrow> bytes \<Rightarrow> peek_reader \<Rightarrow> nat \<Rightarrow> (bytes option \<times> nat) \<times> peek_reader \<times> nat" where
  "unicode_step env p r t =
     (let c = p ! 0; ((q, _), r1, t1) = peek env 6 r t in
      if length q = 6 \<and> q ! 0 = CHR 0x5C \<and> q ! 1 = CHR ''u'' then
        (case parseHex4 (slice 2 6 q) of
           None \<Rightarrow> ((Some [q ! 0], 1), r1, t1)
         | Some hi \<Rightarrow>
           (let ((pair, _), r2, t2) = peek env 12 r1 t1;
                single = (Some (encode_rune hi), 6) in
            (if 0xD800 \<le> hi \<and> hi \<le> 0xDBFF \<and> length pair = 12 \<and> pair ! 6 = CHR 0x5C \<and> pair ! 7 = CHR ''u'' then
               (case parseHex4 (slice 8 12 pair) of
                  Some lo \<Rightarrow> if 0xDC00 \<le> lo \<and> lo \<le> 0xDFFF then (Some (encode_rune (utf16_DecodeRune hi lo)), 12) else single
                | None \<Rightarrow> single)
             else single, r2, t2)))
      else ((Some [c], 1), r1, t1))"

definition utf16_step :: "stream_env \<Rightarrow> bool \<Rightarrow> bytes \<Rightarrow> peek_reader \<Rightarrow> nat \<Rightarrow> (bytes option \<times> nat) \<times> peek_reader \<times> nat" where
  "utf16_step env le p r t =
     (let u = u16 le (p ! 0) (p ! 1);
          ((v, need), r1, t1) =
            (if 0xD800 \<le> u \<and> u \<le> 0xDBFF then
               (let ((q, _), r1, t1) = peek env 4 r t in
                (if length q = 4 \<and> 0xDC00 \<le> u16 le (q ! 2) (q ! 3) \<and> u16 le (q ! 2) (q ! 3) \<le> 0xDFFF
                 then (utf16_DecodeRune u (u16 le (q ! 2) (q ! 3)), 4)
                 else if length q = 4 then (RuneError, 2) else (u, 2), r1, t1))
             else ((u, 2), r, t)) in
      ((if v \<noteq> 0xFEFF then Some (encode_rune v) else None, need), r1, t1))"

definition transform_step :: "stream_env \<Rightarrow> string \<Rightarrow> bytes \<Rightarrow> peek_reader \<Rightarrow> nat \<Rightarrow> (bytes option \<times> nat) \<times> peek_reader \<times> nat" where
  "transform_step env source p r t =
     (if source = ''percent'' then percent_step env p r t
      else if source = ''unicode-escape'' then unicode_step env p r t
      else utf16_step env (source = ''utf16le'') p r t)"

lemma step_remaining: "transform_step env source p r t = ((w, need), r1, t1) \<Longrightarrow>
    remaining env r1 = remaining env r \<and> length (pr_buf r) \<le> length (pr_buf r1) \<and> 0 < need"
  by (auto simp: transform_step_def percent_step_def unicode_step_def utf16_step_def Let_def
      split: if_splits prod.splits option.splits dest!: peek_remaining)

definition is_utf16 :: "string \<Rightarrow> bool" where
  "is_utf16 source \<longleftrightarrow> source = ''utf16le'' \<or> source = ''utf16be''"

definition write_step :: "decode_env \<Rightarrow> bytes \<Rightarrow> bytes option \<Rightarrow> bytes clocked" where
  "write_step env content w = (case w of None \<Rightarrow> ck_return content | Some bs \<Rightarrow> put env content bs)"

lemma transform_progress:
  assumes "peek env n r t = ((p, None), r1, t1)" "0 < n" "transform_step env source p r1 t1 = ((w, need), r2, t2)"
  shows "remaining env (r2\<lparr>pr_buf := drop need (pr_buf r2)\<rparr>) < remaining env r"
proof -
  have p: "remaining env r1 = remaining env r" "n \<le> length (pr_buf r1)" using peek_remaining [OF assms(1)] by simp_all
  have s: "remaining env r2 = remaining env r1" "length (pr_buf r1) \<le> length (pr_buf r2)" "0 < need"
    using step_remaining [OF assms(3)] by simp_all
  then have "length (pr_buf r2) - need < length (pr_buf r2)" using p(2) assms(2) by simp
  then show ?thesis using p(1) s(1) unfolding remaining_def by simp
qed

text \<open>The loop; every step consumes bytes it has peeked, so \<^verbatim>\<open>Discard\<close> takes them from the buffer.\<close>

function transform_loop :: "decode_env \<Rightarrow> string \<Rightarrow> peek_reader \<Rightarrow> bytes \<Rightarrow> bytes clocked" where
  "transform_loop env source r content t =
     (case peek (dv_stream env) (if is_utf16 source then 2 else 1) r t of
        ((p, Some VEOF), r1, t1) \<Rightarrow> (Inr content, t1)
      | ((p, Some (VErr e)), r1, t1) \<Rightarrow> (Inl e, t1)
      | ((p, None), r1, t1) \<Rightarrow>
        (case transform_step (dv_stream env) source p r1 t1 of
           ((w, need), r2, t2) \<Rightarrow>
             ck_bind (write_step env content w) (transform_loop env source (r2\<lparr>pr_buf := drop need (pr_buf r2)\<rparr>)) t2))"
  by pat_completeness auto
termination
proof (relation "measure (\<lambda>(env, source, r, content, t). remaining (dv_stream env) r)", goal_cases)
  case prems: (2 env source r content t pe r1t1 p e r1 t1 wn r2t2 w need r2 t2 x t3)
  show ?case
    using prems transform_progress [of "dv_stream env" "if is_utf16 source then 2 else 1" r t p r1 t1 source w need r2 t2]
    by (simp split: if_splits)
qed simp

declare transform_loop.simps [simp del]

section \<open>The walk over all variants\<close>

text \<open>The decoded form of one kind, as its final name and contents, before it is lent to the visitor. \<^const>\<open>None\<close>: no useful output.\<close>

definition transformed :: "decode_env \<Rightarrow> string \<Rightarrow> (string \<times> bytes) option clocked" where
  "transformed env source =
     ck_bind (streamEncoding (dv_stream env) source) (\<lambda>(source1, eligible).
       if \<not> eligible then ck_return None
       else ck_bind (transform_loop env source1 \<lparr>pr_buf = [], pr_off = 0, pr_err = None\<rparr> []) (\<lambda>content.
         ck_bind (put env content []) (\<lambda>content1. ck_return (Some (source1, content1)))))"

definition runs_decoded :: "decode_env \<Rightarrow> string \<Rightarrow> (string \<times> bytes) option clocked" where
  "runs_decoded env source =
     ck_bind (decodeStreamRuns env (source = ''base64'')) (\<lambda>out. ck_return (map_option (Pair source) out))"

text \<open>A file that was never opened closes without an error, so \<^const>\<open>dv_close\<close> speaks of opened files only.
  A visitor takes a name, a reader, a size and the clock; it works on a state of its own. The errors of a walk are the joined ones.\<close>

type_synonym 's visitor = "string \<Rightarrow> variant_reader \<Rightarrow> nat \<Rightarrow> 's \<times> nat \<Rightarrow> stream_err option \<times> 's \<times> nat"

definition close_file :: "decode_env \<Rightarrow> stream_err option \<Rightarrow> 's \<times> nat \<Rightarrow> stream_err list \<times> 's \<times> nat" where
  "close_file env err = (\<lambda>(s, t).
     ((case err of None \<Rightarrow> [] | Some e \<Rightarrow> [e]) @ (case dv_close env t of None \<Rightarrow> [] | Some e \<Rightarrow> [SRead e]), s, t + 1))"

definition walkDecoded :: "decode_env \<Rightarrow> string \<Rightarrow> 's visitor \<Rightarrow> 's \<times> nat \<Rightarrow> stream_err list \<times> 's \<times> nat" where
  "walkDecoded env source visit = (\<lambda>(s, t).
     case (if source = ''base64'' \<or> source = ''hex'' then runs_decoded env source else transformed env source) t of
       (Inl e, t1) \<Rightarrow> close_file env (Some e) (s, t1)
     | (Inr None, t1) \<Rightarrow> ([], s, t1)
     | (Inr (Some (source1, content)), t1) \<Rightarrow>
         if content = [] then ([], s, t1)
         else if ((source1 = ''base64'' \<or> source1 = ''hex'') \<or> printableCounts (length content) (countNonPrintable content))
         then (let (err, st) = visit source1 (file_reader env content) (length content) (s, t1) in close_file env err st)
         else close_file env None (s, t1))"

fun walk_sources :: "decode_env \<Rightarrow> 's visitor \<Rightarrow> string list \<Rightarrow> 's \<times> nat \<Rightarrow> stream_err list \<times> 's \<times> nat" where
  "walk_sources env visit [] (s, t) = (case ck_poll (dv_stream env) t of (Inl e, t1) \<Rightarrow> ([e], s, t1) | (Inr _, t1) \<Rightarrow> ([], s, t1))"
| "walk_sources env visit (source # rest) st =
     (let (errs, st1) = walkDecoded env source visit st in if errs \<noteq> [] then (errs, st1) else walk_sources env visit rest st1)"

definition WalkVariants :: "decode_env \<Rightarrow> 's visitor \<Rightarrow> 's \<times> nat \<Rightarrow> stream_err list \<times> 's \<times> nat" where
  "WalkVariants env visit = (\<lambda>(s, t).
     case ck_poll (dv_stream env) t of
       (Inl e, t1) \<Rightarrow> ([e], s, t1)
     | (Inr _, t1) \<Rightarrow>
       (case visit [] (contextReaderAt (dv_stream env)) (sv_size (dv_stream env)) (s, t1) of
          (Some e, st) \<Rightarrow> ([e], st)
        | (None, st) \<Rightarrow> walk_sources env visit [''base64'', ''percent'', ''hex'', ''utf16'', ''unicode-escape''] st))"

end
