(* ===== verification/DecoderStreamRuns.thy ===== *)
theory DecoderStreamRuns
  imports DecoderStream DecoderEscapes StreamCorrect
begin

text \<open>
  Encoded runs of a source read in blocks. On a reliable source the decoder that reads a run through the library, counts its
  non-printable bytes on the way and gives up early accepts exactly the runs the buffered decoder accepts, and block borders do
  not matter: the spooled variant is the one of the whole chunk.
\<close>

section \<open>Reliable environments and their computations\<close>

definition decode_reliable :: "decode_env \<Rightarrow> bytes \<Rightarrow> bool" where
  "decode_reliable env data \<longleftrightarrow> truthful (dv_stream env) data \<and> reliable (dv_stream env) data \<and>
     (\<forall>t. dv_write env t = None \<and> dv_file env t = None \<and> dv_close env t = None)"

definition yields :: "'a clocked \<Rightarrow> 'a \<Rightarrow> bool" where
  "yields m x \<longleftrightarrow> (\<forall>t. \<exists>t1. m t = (Inr x, t1))"

lemma yields_return [simp]: "yields (ck_return x) y \<longleftrightarrow> x = y"
  by (simp add: yields_def ck_return_def)

lemma yields_bind: "yields m x \<Longrightarrow> yields (f x) y \<Longrightarrow> yields (ck_bind m f) y"
  unfolding yields_def ck_bind_def by (metis (no_types, lifting) case_prod_conv sum.simps(6))

lemma yieldsD: "yields m x \<Longrightarrow> \<exists>t1. m t = (Inr x, t1)"
  by (simp add: yields_def)

lemma reliable_size: "decode_reliable env data \<Longrightarrow> sv_size (dv_stream env) = length data"
  by (simp add: decode_reliable_def truthful_def)

lemma ReadAt_reliable:
  assumes "truthful env data" "reliable env data" "off + n \<le> length data"
  shows "\<exists>t1. contextReadAt env off n t = ((slice off (off + n) data, None), t1)"
proof (cases "n = 0")
  case True
  then show ?thesis using assms(2) by (simp add: contextReadAt_def reliable_def slice_def)
next
  case False
  obtain got err where r: "sv_reader env (t + 1) off n = (got, err)" by fastforce
  then have ok: "length got = n" "err \<in> {None, Some EOF}" using assms(2,3) unfolding reliable_def by blast+
  then have "got = slice off (off + n) data" using assms(1,3) r unfolding truthful_def by blast
  moreover have "\<not> sv_cancelled env t" using assms(2) by (simp add: reliable_def)
  ultimately show ?thesis using r ok False by (auto simp: contextReadAt_def)
qed

lemma ReadAt_yields:
  assumes "decode_reliable env data" "off + n \<le> length data"
  shows "\<exists>t1. contextReadAt (dv_stream env) off n t = ((slice off (off + n) data, None), t1)"
  using ReadAt_reliable assms by (auto simp: decode_reliable_def)

lemma read_yields:
  assumes "decode_reliable env data" "off + n \<le> length data"
  shows "yields (context_read (dv_stream env) off n) (slice off (off + n) data)"
  unfolding yields_def context_read_def using ReadAt_yields [OF assms] by (metis (no_types, lifting) case_prod_conv option.simps(4))

lemma poll_yields: "decode_reliable env data \<Longrightarrow> yields (ck_poll (dv_stream env)) ()"
  by (simp add: yields_def ck_poll_def decode_reliable_def reliable_def)

lemma put_yields: "decode_reliable env data \<Longrightarrow> yields (put env content bs) (content @ bs)"
  by (simp add: yields_def put_def decode_reliable_def)

lemma slice_append_upto:
  assumes "a \<le> b" "b \<le> c"
  shows "slice a b xs @ slice b c xs = slice a c xs"
proof -
  have "c - a = (b - a) + (c - b)" using assms by simp
  moreover have "drop (b - a) (drop a xs) = drop b xs" using assms(1) by simp
  ultimately show ?thesis unfolding slice_def by (metis take_add)
qed

section \<open>Decoding a prefix\<close>

lemma b64_quanta_prefix:
  "b64_quanta url pad s = Some d \<Longrightarrow> 4 * k \<le> length s \<Longrightarrow> \<exists>d1. b64_quanta url pad (take (4 * k) s) = Some d1 \<and> prefix d1 d"
proof (induction url pad s arbitrary: d k rule: b64_quanta.induct)
  case (5 url pad a b c e rest)
  show ?case
  proof (cases k)
    case 0
    then show ?thesis by simp
  next
    case (Suc j)
    then have j: "4 * j \<le> length rest" using "5.prems"(2) by simp
    have t: "take (4 * k) (a # b # c # e # rest) = a # b # c # e # take (4 * j) rest" by (simp add: Suc numeral_eq_Suc)
    show ?thesis
    proof (cases "b64_val url c \<noteq> None \<and> b64_val url e \<noteq> None")
      case True
      then obtain va vb vc ve out where v: "b64_val url a = Some va" "b64_val url b = Some vb" "b64_val url c = Some vc"
        "b64_val url e = Some ve" "b64_quanta url pad rest = Some out" "d = byte0 va vb # byte1 vb vc # byte2 vc ve # out"
        using "5.prems"(1) by (auto simp: bind_eq_Some_conv)
      obtain d1 where "b64_quanta url pad (take (4 * j) rest) = Some d1" "prefix d1 out"
        using "5.IH" [OF v(1,2,3,4,5) j] by blast
      then show ?thesis using v by (simp add: t)
    next
      case False
      then show ?thesis using "5.prems"(1) by (auto simp: t bind_eq_Some_conv split: option.splits if_splits)
    qed
  qed
next
  case (3 url pad a b)
  then have "k = 0" by simp
  then show ?case by simp
next
  case (4 url pad a b c)
  then have "k = 0" by simp
  then show ?case by simp
qed auto

lemma hex_prefix: "hex_Decode s = Some d \<Longrightarrow> 2 * k \<le> length s \<Longrightarrow> \<exists>d1. hex_Decode (take (2 * k) s) = Some d1 \<and> prefix d1 d"
proof (induction s arbitrary: d k rule: hex_Decode.induct)
  case (3 a b rest)
  show ?case
  proof (cases k)
    case (Suc j)
    then have t: "take (2 * k) (a # b # rest) = a # b # take (2 * j) rest" by (simp add: numeral_eq_Suc)
    obtain h l out where v: "hex_digit a = Some h" "hex_digit b = Some l" "hex_Decode rest = Some out" "d = char_of (h * 16 + l) # out"
      using "3.prems"(1) by (auto simp: bind_eq_Some_conv)
    obtain d1 where "hex_Decode (take (2 * j) rest) = Some d1" "prefix d1 out"
      using "3.IH" [OF v(1,2,3)] "3.prems"(2) Suc by auto
    then show ?thesis using v by (simp add: t)
  qed simp
qed auto

definition no_breaks :: "bytes \<Rightarrow> bool" where
  "no_breaks s \<longleftrightarrow> (\<forall>b \<in> set s. b \<noteq> CHR 0x0A \<and> b \<noteq> CHR 0x0D)"

lemma no_breaks_Decode: "no_breaks s \<Longrightarrow> b64_Decode enc s = b64_quanta (b64_url enc) (b64_padded enc) s"
  by (simp add: b64_Decode_def no_breaks_def cong: filter_cong)

lemma groups_prefix:
  assumes "run_decode enc run = Some d" "prefix p run" "enc = None \<or> no_breaks run"
  shows "\<exists>d1. groups_decode enc p = Some d1 \<and> prefix d1 d"
proof -
  obtain rest where run: "run = p @ rest" using assms(2) by (auto simp: prefix_def)
  show ?thesis
  proof (cases enc)
    case None
    have "2 * (length p div 2) \<le> length run" "take (2 * (length p div 2)) run = take (2 * (length p div 2)) p" by (simp_all add: run)
    then show ?thesis using hex_prefix [of run d "length p div 2"] assms(1) None
      by (simp add: run_decode_def groups_decode_def mult.commute)
  next
    case (Some e)
    let ?k = "length p div 4"
    have k: "4 * ?k \<le> length run" "take (4 * ?k) run = take (4 * ?k) p" by (simp_all add: run)
    have nb: "no_breaks run" "no_breaks (take (4 * ?k) p)"
      using assms(3) Some by (auto simp: no_breaks_def run dest: in_set_takeD)
    show ?thesis
      using b64_quanta_prefix [of "b64_url e" "b64_padded e" run d ?k] assms(1) Some nb k
      by (simp add: run_decode_def groups_decode_def no_breaks_Decode mult.commute)
  qed
qed

section \<open>Reading a run\<close>

lemma read_run_reliable:
  assumes "decode_reliable env data" "fin \<le> length data" "off \<le> fin"
  shows "\<exists>k quit t1. read_run env quits off fin acc t = (Inr (acc @ slice off k data, quit), t1) \<and> off \<le> k \<and> k \<le> fin \<and>
    (quit \<longrightarrow> quits (acc @ slice off k data)) \<and> (\<not> quit \<longrightarrow> k = fin)"
  using assms
proof (induction env quits off fin acc t rule: read_run.induct)
  case (1 env quits off fin acc t)
  show ?case
  proof (cases "off < fin")
    case False
    then show ?thesis using 1 by (intro exI [of _ fin] exI [of _ False] exI [of _ t]) (simp add: read_run.simps slice_def)
  next
    case True
    let ?n = "min (max 1 (dv_piece env t)) (fin - off)"
    have n: "0 < ?n" "off + ?n \<le> fin" using True by auto
    obtain t1 where r: "context_read (dv_stream env) off ?n t = (Inr (slice off (off + ?n) data), t1)"
      using yieldsD [OF read_yields [OF 1(2) le_trans [OF n(2) 1(3)]]] by blast
    let ?p = "slice off (off + ?n) data"
    have p: "length ?p = ?n" using n(2) 1(3) by simp
    show ?thesis
    proof (cases "quits (acc @ ?p)")
      case quit: True
      then show ?thesis using True r n(2) by (intro exI [of _ "off + ?n"] exI [of _ True] exI [of _ t1]) (simp add: read_run.simps ck_bind_def)
    next
      case False
      obtain k quit t2 where k: "read_run env quits (off + length ?p) fin (acc @ ?p) t1 = (Inr ((acc @ ?p) @ slice (off + length ?p) k data, quit), t2)"
        "off + length ?p \<le> k" "k \<le> fin" "quit \<longrightarrow> quits ((acc @ ?p) @ slice (off + length ?p) k data)" "\<not> quit \<longrightarrow> k = fin"
        using "1.IH" [OF True r False 1(2,3)] n(2) unfolding p by blast
      have "(acc @ ?p) @ slice (off + length ?p) k data = acc @ slice off k data"
        using slice_append_upto [of off "off + ?n" k data] k(2) unfolding p by simp
      then show ?thesis using True r False k by (intro exI [of _ k] exI [of _ quit] exI [of _ t2]) (simp add: read_run.simps ck_bind_def)
    qed
  qed
qed

lemma count_pass_yields:
  assumes "decode_reliable env data" "fin \<le> length data" "start \<le> fin" "enc = None \<or> no_breaks (slice start fin data)"
  shows "yields (count_pass env enc budget start fin)
    (case run_decode enc (slice start fin data) of None \<Rightarrow> None | Some d \<Rightarrow> if budget < int (countNonPrintable d) then None else Some d)"
  unfolding yields_def
proof
  fix t
  let ?run = "slice start fin data"
  let ?stops = "\<lambda>d. case d of None \<Rightarrow> True | Some d \<Rightarrow> budget < int (countNonPrintable d)"
  obtain k quit t1 where k: "read_run env (\<lambda>acc. ?stops (groups_decode enc acc)) start fin [] t = (Inr (slice start k data, quit), t1)"
    "start \<le> k" "k \<le> fin" "quit \<longrightarrow> ?stops (groups_decode enc (slice start k data))" "\<not> quit \<longrightarrow> k = fin"
    using read_run_reliable [OF assms(1-3), of "\<lambda>acc. ?stops (groups_decode enc acc)" "[]" t] by auto
  have p: "prefix (slice start k data) ?run"
    using slice_append_upto [OF k(2,3), of data] by (metis prefixI)
  have "?stops (run_decode enc ?run)" if "quit"
  proof (cases "run_decode enc ?run")
    case (Some d)
    obtain d1 where d1: "groups_decode enc (slice start k data) = Some d1" "prefix d1 d" using groups_prefix [OF Some p assms(4)] by blast
    then have "countNonPrintable d1 \<le> countNonPrintable d" by (auto simp: countNonPrintable_def prefix_def)
    then show ?thesis using k(4) that d1(1) Some by simp
  qed simp
  then have "(if quit \<or> ?stops (run_decode enc (slice start k data)) then None else run_decode enc (slice start k data)) =
      (case run_decode enc ?run of None \<Rightarrow> None | Some d \<Rightarrow> if budget < int (countNonPrintable d) then None else Some d)"
    using k(5) by (cases quit) (auto split: option.splits)
  then show "\<exists>t1. count_pass env enc budget start fin t = (Inr (case run_decode enc ?run of None \<Rightarrow> None
      | Some d \<Rightarrow> if budget < int (countNonPrintable d) then None else Some d), t1)"
    using k(1) by (simp add: count_pass_def ck_bind_def ck_return_def Let_def)
qed

lemma copy_pass_yields:
  assumes "decode_reliable env data" "fin \<le> length data" "start \<le> fin" "enc = None \<or> no_breaks (slice start fin data)"
    and "run_decode enc (slice start fin data) = Some d"
  shows "yields (copy_pass env enc start fin content) (content @ d)"
  unfolding yields_def
proof
  fix t
  obtain k quit t1 where k: "read_run env (\<lambda>acc. groups_decode enc acc = None) start fin [] t = (Inr (slice start k data, quit), t1)"
    "start \<le> k" "k \<le> fin" "quit \<longrightarrow> groups_decode enc (slice start k data) = None" "\<not> quit \<longrightarrow> k = fin"
    using read_run_reliable [OF assms(1-3), of "\<lambda>acc. groups_decode enc acc = None" "[]" t] by auto
  have p: "prefix (slice start k data) (slice start fin data)"
    using slice_append_upto [OF k(2,3), of data] by (metis prefixI)
  then have "\<not> quit" using groups_prefix [OF assms(5) p assms(4)] k(4) by auto
  then show "\<exists>t1. copy_pass env enc start fin content t = (Inr (content @ d), t1)"
    using k(1,5) assms(5) yieldsD [OF put_yields [OF assms(1)], of content d t1] by (simp add: copy_pass_def ck_bind_def)
qed

section \<open>One run against the buffered decoders\<close>

lemma b64_raw_no_padding: "b64_quanta url False s = Some d \<Longrightarrow> CHR ''='' \<notin> set s"
proof (induction url "False" s arbitrary: d rule: b64_quanta.induct)
  case (5 url a b c e rest)
  obtain va vb vc ve out where v: "b64_val url a = Some va" "b64_val url b = Some vb" "b64_val url c = Some vc"
    "b64_val url e = Some ve" "b64_quanta url False rest = Some out"
    using "5.prems" by (cases "b64_val url c"; cases "b64_val url e") (auto simp: bind_eq_Some_conv)
  then have "CHR ''='' \<notin> set rest" using "5.hyps" by blast
  then show ?case using v by auto
qed (auto simp: bind_eq_Some_conv)

lemma b64_unpadded: "b64_quanta url True s = Some d \<Longrightarrow> CHR ''='' \<notin> set s \<Longrightarrow> b64_quanta url False s = Some d"
proof (induction url "True" s arbitrary: d rule: b64_quanta.induct)
  case (5 url a b c e rest)
  obtain va vb vc ve out where v: "b64_val url a = Some va" "b64_val url b = Some vb" "b64_val url c = Some vc"
    "b64_val url e = Some ve" "b64_quanta url True rest = Some out" "d = byte0 va vb # byte1 vb vc # byte2 vc ve # out"
    using "5.prems" by (cases "b64_val url c"; cases "b64_val url e") (auto simp: bind_eq_Some_conv split: if_splits)
  then have "b64_quanta url False rest = Some out" using "5.hyps" "5.prems"(2) by simp
  then show ?case using v by simp
qed auto

lemma b64_empty: "b64_quanta url pad s = Some [] \<Longrightarrow> s = []"
  by (cases "(url, pad, s)" rule: b64_quanta.cases) (auto simp: bind_eq_Some_conv split: option.splits if_splits)

lemma isBase64Byte_no_breaks: "list_all isBase64Byte s \<Longrightarrow> no_breaks s"
  using isBase64Byte_not by (auto simp: list_all_iff no_breaks_def)

text \<open>Trying the complementary encoding never decodes a run that the encoding chosen by its padding rejects.\<close>

lemma decodeBase64Into_run:
  assumes "list_all isBase64Byte run" "run \<noteq> []" "set pad \<subseteq> {CHR ''=''}"
  shows "decodeBase64Into (run @ pad) al = b64_Decode (base64Encoding pad al) (run @ pad)"
proof -
  let ?s = "run @ pad"
  have eq: "CHR ''='' \<notin> set run" using assms(1) isBase64Byte_not by (auto simp: list_all_iff)
  have nb: "no_breaks ?s" using isBase64Byte_no_breaks [OF assms(1)] assms(3) by (auto simp: no_breaks_def)
  have last: "last ?s = CHR ''='' \<longleftrightarrow> pad \<noteq> []"
    using assms(2,3) eq by (cases pad rule: rev_cases) (auto, metis last_in_set)
  have last_pad: "pad \<noteq> [] \<Longrightarrow> last pad = CHR ''=''" using assms(3) by (cases pad rule: rev_cases) auto
  let ?url = "al = 1"
  have enc: "base64Encoding ?s al = b64enc ?url (pad \<noteq> [])" "base64Encoding pad al = b64enc ?url (pad \<noteq> [])"
    using last last_pad assms(2)
    by (cases "pad = []"; simp add: base64Encoding_def Let_def URLEncoding_def RawURLEncoding_def StdEncoding_def RawStdEncoding_def)+
  have other: "b64_quanta ?url (pad = []) ?s = None" if none: "b64_quanta ?url (pad \<noteq> []) ?s = None"
  proof (cases "b64_quanta ?url (pad = []) ?s")
    case (Some d)
    show ?thesis
    proof (cases "pad = []")
      case True
      then show ?thesis using b64_unpadded [of ?url ?s d] Some none eq by simp
    next
      case False
      then have "CHR ''='' \<in> set ?s" using last_pad by (metis UnCI last_in_set set_append)
      then show ?thesis using b64_raw_no_padding [of ?url ?s d] Some False by simp
    qed
  qed simp
  have "b64_quanta ?url pd ?s \<noteq> Some []" for pd using b64_empty assms(2) by fastforce
  then show ?thesis
    using other enc
    by (cases "b64_quanta ?url (pad \<noteq> []) ?s")
      (auto simp: decodeBase64Into_def Let_def decode_nonempty_def complementary_def no_breaks_Decode [OF nb])
qed

lemma mostlyPrintable_counts:
  assumes "length d < 2 ^ 50"
  shows "mostlyPrintable d \<longleftrightarrow> printableCounts (length d) (countNonPrintable d)"
proof -
  have "4 * length d div 5 \<le> length d" by simp
  then show ?thesis
    using mostlyPrintable_bound [OF assms] printableThreshold_exact [OF assms]
    by (auto simp: printableCounts_def bad_bytes_def countNonPrintable_def)
qed

lemma budget_ceiling: "n - 4 * n div 5 = (n + 4) div (5::nat)"
proof -
  have "n = 5 * (n div 5) + n mod 5" "n mod 5 < 5" by simp_all
  then obtain q r where n: "n = 5 * q + r" "r < 5" by metis
  then have "r \<in> {0, 1, 2, 3, 4}" by auto
  then show ?thesis using n(1) by auto
qed

text \<open>The budget of the counter belongs to an upper bound of the decoded length; it never rejects a printable run.\<close>

lemma budget_mono:
  assumes "n \<le> upper" "upper < 2 ^ 50" "printableCounts n bad"
  shows "int bad \<le> int upper - int (printableThreshold_of upper)"
proof -
  have t: "printableThreshold_of n = 4 * n div 5" "printableThreshold_of upper = 4 * upper div 5"
    using printableThreshold_exact assms(1,2) by auto
  have "n - 4 * n div 5 \<le> upper - 4 * upper div 5" using assms(1) by (simp add: budget_ceiling div_le_mono)
  then show ?thesis using assms(3) t unfolding printableCounts_def by linarith
qed

section \<open>Flushing a run\<close>

lemma takeWhile_take: "takeWhile P (take n xs) = take n (takeWhile P xs)"
proof (induction xs arbitrary: n)
  case (Cons x xs)
  then show ?case by (cases n) simp_all
qed simp

text \<open>The pieces one run contributes; \<open>rest\<close> is what follows it in the source.\<close>

definition run_pieces :: "bool \<Rightarrow> bytes \<Rightarrow> nat \<Rightarrow> bytes \<Rightarrow> bytes list" where
  "run_pieces b64 run al rest = (if b64 then base64_pieces (flush_base64 (Some run) al rest) else hex_pieces (flush_hex (Some run)))"

text \<open>The encoded run with its padding, and the encoding it is read with.\<close>

definition padding_of :: "bool \<Rightarrow> bytes \<Rightarrow> bytes" where
  "padding_of b64 rest = (if b64 then take 2 (takeWhile (\<lambda>b. b = CHR ''='') rest) else [])"

definition encoding_of :: "bool \<Rightarrow> bytes \<Rightarrow> nat \<Rightarrow> b64enc option" where
  "encoding_of b64 pad al = (if b64 then Some (base64Encoding pad al) else None)"

lemma padding_facts: "set (padding_of b64 rest) \<subseteq> {CHR ''=''}" "prefix (padding_of b64 rest) rest"
proof -
  have "prefix (take n (takeWhile P rest)) rest" for n P
    by (metis prefix_order.dual_order.trans take_is_prefix takeWhile_is_prefix)
  then show "prefix (padding_of b64 rest) rest" by (simp add: padding_of_def)
  show "set (padding_of b64 rest) \<subseteq> {CHR ''=''}" by (auto simp: padding_of_def dest!: in_set_takeD set_takeWhileD)
qed

lemma run_pieces_eq:
  assumes "list_all (run_byte b64) run" "(if b64 then minBase64Run else minHexRun) \<le> length run"
  shows "run_pieces b64 run al rest =
    (case run_decode (encoding_of b64 (padding_of b64 rest) al) (run @ padding_of b64 rest) of
       None \<Rightarrow> [] | Some d \<Rightarrow> if mostlyPrintable d then [d] else [])"
proof (cases b64)
  case True
  let ?pad = "padding_of True rest"
  have "run \<noteq> []" using assms(2) True by (auto simp: minBase64Run_def)
  moreover have "list_all isBase64Byte run" using assms(1) True by (simp add: list_all_iff run_byte_def)
  ultimately have "decodeBase64Into (run @ ?pad) al = b64_Decode (base64Encoding ?pad al) (run @ ?pad)"
    using decodeBase64Into_run padding_facts(1) by blast
  moreover have "flush_base64 (Some run) al rest = [(run @ ?pad, al)]" using assms(2) True by (simp add: flush_base64_def padding_of_def)
  ultimately show ?thesis using True
    by (auto simp: run_pieces_def base64_pieces_def run_decode_def encoding_of_def split: option.splits)
next
  case False
  then show ?thesis using assms(2)
    by (auto simp: run_pieces_def flush_hex_def hex_pieces_def run_decode_def encoding_of_def padding_of_def split: option.splits)
qed

lemma run_decode_length:
  assumes "run_decode (encoding_of b64 pad al) run = Some d"
  shows "length d \<le> (if b64 then length run * 3 div 4 else length run div 2)"
proof (cases b64)
  case False
  then show ?thesis using assms hex_Decode_bytes [of run d] by (simp add: encoding_of_def run_decode_def)
next
  case True
  let ?e = "base64Encoding pad al" and ?s = "filter (\<lambda>b. b \<noteq> CHR 0x0A \<and> b \<noteq> CHR 0x0D) run"
  have "length d \<le> b64_DecodedLen (b64enc (b64_url ?e) (b64_padded ?e)) (length ?s)"
    using assms True by (intro b64_quanta_length) (simp add: encoding_of_def run_decode_def b64_Decode_def)
  also have "\<dots> \<le> length ?s * 3 div 4" by (auto simp: b64_DecodedLen_def)
  also have "\<dots> \<le> length run * 3 div 4" by (intro div_le_mono mult_le_mono1 length_filter_le)
  finally show ?thesis using True by simp
qed

lemma flush_run_yields:
  assumes rel: "decode_reliable env data" and small: "length data < 2 ^ 50"
    and start: "rs_start st = Some start" "start \<le> fin" "fin \<le> length data" and run: "list_all (run_byte b64) (slice start fin data)"
    and out: "rs_out st = joined ds"
  shows "yields (flush_run env b64 fin st)
    (st\<lparr>rs_start := None, rs_out := joined (ds @ run_pieces b64 (slice start fin data) (rs_alphabet st) (drop fin data))\<rparr>)"
proof (cases "fin - start < (if b64 then minBase64Run else minHexRun)")
  case True
  then have "run_pieces b64 (slice start fin data) (rs_alphabet st) (drop fin data) = []"
    using start by (auto simp: run_pieces_def flush_base64_def flush_hex_def base64_pieces_def hex_pieces_def)
  then show ?thesis using True start out by (simp add: flush_run_def split: if_splits)
next
  case False
  let ?rest = "drop fin data" and ?run = "slice start fin data"
  define pad where "pad = padding_of b64 ?rest"
  define enc where "enc = encoding_of b64 pad (rs_alphabet st)"
  have len: "(if b64 then minBase64Run else minHexRun) \<le> length ?run" using False start(2,3) by simp
  let ?read = "if b64 then context_read (dv_stream env) fin (min 2 (sv_size (dv_stream env) - fin)) else ck_return []"
  let ?P = "if b64 then take 2 ?rest else []"
  have fin2: "fin + min 2 (length data - fin) \<le> length data" using start(3) by simp
  have "slice fin (fin + min 2 (length data - fin)) data = take 2 ?rest" by (simp add: slice_def min_def)
  then have P: "yields ?read ?P" using read_yields [OF rel fin2] reliable_size [OF rel] by simp
  have pad: "takeWhile (\<lambda>b. b = CHR ''='') ?P = pad" by (simp add: pad_def padding_of_def takeWhile_take)
  obtain after where after: "?rest = pad @ after" using padding_facts(2) [of b64 ?rest] by (auto simp: pad_def prefix_def)
  let ?fin = "fin + length pad"
  have fin: "?fin \<le> length data" using after start(3) by (metis add.commute add_le_cancel_left append_take_drop_id le_add1 length_append length_drop le_add_diff_inverse)
  have "slice fin ?fin data = pad" using after by (simp add: slice_def)
  then have whole: "slice start ?fin data = ?run @ pad" using slice_append_upto [OF start(2), of ?fin data] by simp
  have nb: "enc = None \<or> no_breaks (slice start ?fin data)"
  proof (cases b64)
    case True
    then have "list_all isBase64Byte ?run" using run by (simp add: run_byte_def list_all_iff)
    then have "no_breaks ?run" by (rule isBase64Byte_no_breaks)
    moreover have "no_breaks pad" using padding_facts(1) [of b64 ?rest] by (auto simp: pad_def no_breaks_def)
    ultimately show ?thesis by (auto simp: whole no_breaks_def)
  qed (simp add: enc_def encoding_of_def)
  have pieces: "run_pieces b64 ?run (rs_alphabet st) ?rest =
      (case run_decode enc (?run @ pad) of None \<Rightarrow> [] | Some d \<Rightarrow> if mostlyPrintable d then [d] else [])"
    unfolding enc_def pad_def by (rule run_pieces_eq [OF run len])
  let ?upper = "if b64 then (?fin - start) * 3 div 4 else (?fin - start) div 2"
  let ?budget = "int ?upper - int (printableThreshold_of ?upper)"
  let ?counted = "case run_decode enc (?run @ pad) of None \<Rightarrow> None | Some d \<Rightarrow> if ?budget < int (countNonPrintable d) then None else Some d"
  have counted: "yields (count_pass env enc ?budget start ?fin) ?counted"
    using count_pass_yields [OF rel fin _ nb, of ?budget] start(2) by (simp add: whole)
  have upper: "?upper < 2 ^ 50" using small fin by auto
  let ?st1 = "st\<lparr>rs_start := None, rs_out := joined (ds @ run_pieces b64 ?run (rs_alphabet st) ?rest)\<rparr>"
  have cont: "yields (accept_counted env enc start ?fin st ?counted) ?st1"
  proof (cases "run_decode enc (?run @ pad)")
    case None
    then show ?thesis using out by (simp add: pieces accept_counted_def)
  next
    case (Some d)
    have "length (?run @ pad) = ?fin - start" using start(2,3) by simp
    then have d: "length d \<le> ?upper" using run_decode_length [of b64 pad "rs_alphabet st" "?run @ pad" d] Some unfolding enc_def by metis
    have mp: "mostlyPrintable d \<longleftrightarrow> printableCounts (length d) (countNonPrintable d)"
      using mostlyPrintable_counts d upper by (meson le_less_trans)
    show ?thesis
    proof (cases "mostlyPrintable d")
      case False
      then show ?thesis using Some mp out by (simp add: pieces accept_counted_def)
    next
      case True
      then have "int (countNonPrintable d) \<le> ?budget" using budget_mono [OF d upper] mp by simp
      then have c: "?counted = Some d" using Some by simp
      let ?c0 = "case rs_out st of None \<Rightarrow> [] | Some o' \<Rightarrow> o' @ [CHR 0x0A]"
      have "yields (case rs_out st of None \<Rightarrow> ck_return [] | Some o' \<Rightarrow> put env o' [CHR 0x0A]) ?c0"
        using put_yields [OF rel] by (simp split: option.splits)
      moreover have "yields (copy_pass env enc start ?fin ?c0) (?c0 @ d)"
        using copy_pass_yields [OF rel fin _ nb] start(2) Some by (simp add: whole)
      moreover have "Some (?c0 @ d) = joined (ds @ [d])" using out by (simp add: joined_def join_byte_snoc)
      ultimately have "yields (accept_counted env enc start ?fin st (Some d)) (st\<lparr>rs_start := None, rs_out := joined (ds @ [d])\<rparr>)"
        using mp True by (simp add: accept_counted_def) (rule yields_bind, assumption, rule yields_bind, assumption, simp)
      then show ?thesis using c Some True by (simp add: pieces)
    qed
  qed
  have dec: "yields (decode_run env b64 start fin st ?P) ?st1"
    unfolding decode_run_def pad Let_def
    by (rule yields_bind [where x = ?counted]) (use counted cont in \<open>simp_all only: enc_def encoding_of_def\<close>)
  have eq: "flush_run env b64 fin st = ck_bind ?read (decode_run env b64 start fin st)"
    using False start(1) by (simp add: flush_run_def)
  show ?thesis unfolding eq by (rule yields_bind [OF P]) (rule dec)
qed

section \<open>All runs of the source\<close>

text \<open>The runs from a position on, given the run that is open there.\<close>

definition runs_from :: "bool \<Rightarrow> bytes option \<Rightarrow> nat \<Rightarrow> bytes \<Rightarrow> bytes list" where
  "runs_from b64 cur al rest = (if b64 then base64_pieces (base64_runs cur al rest) else hex_pieces (hex_runs cur rest))"

lemma hex_pieces_append: "hex_pieces (xs @ ys) = hex_pieces xs @ hex_pieces ys"
  by (simp add: hex_pieces_def)

lemma runs_from_Nil: "runs_from b64 cur al [] = (case cur of None \<Rightarrow> [] | Some run \<Rightarrow> run_pieces b64 run al [])"
  by (auto simp: runs_from_def run_pieces_def flush_base64_def flush_hex_def base64_pieces_def hex_pieces_def split: option.splits)

lemma runs_from_inside:
  "run_byte b64 c \<Longrightarrow> runs_from b64 cur al (c # cs) =
     runs_from b64 (Some (case cur of None \<Rightarrow> [c] | Some run \<Rightarrow> run @ [c])) (next_alphabet (case cur of None \<Rightarrow> 0 | Some _ \<Rightarrow> al) c) cs"
  by (cases b64; cases cur) (simp_all add: runs_from_def run_byte_def)

lemma runs_from_outside:
  "\<not> run_byte b64 c \<Longrightarrow> runs_from b64 cur al (c # cs) =
     (case cur of None \<Rightarrow> [] | Some run \<Rightarrow> run_pieces b64 run al (c # cs)) @ runs_from b64 None al cs"
  by (cases b64; cases cur)
    (simp_all add: runs_from_def run_byte_def run_pieces_def hex_pieces_append flush_base64_def [of None] flush_hex_def [of None]
      base64_pieces_def [of "[]"] hex_pieces_def [of "[]"])

text \<open>A state at a position: the open run ends there, and the output joins the pieces before it.\<close>

definition open_run :: "bytes \<Rightarrow> nat \<Rightarrow> run_state \<Rightarrow> bytes option" where
  "open_run data pos st = map_option (\<lambda>start. slice start pos data) (rs_start st)"

definition runs_at :: "bool \<Rightarrow> bytes \<Rightarrow> nat \<Rightarrow> run_state \<Rightarrow> bool" where
  "runs_at b64 data pos st \<longleftrightarrow>
     (\<forall>start. rs_start st = Some start \<longrightarrow> start < pos \<and> list_all (run_byte b64) (slice start pos data)) \<and>
     (\<exists>ds. rs_out st = joined ds \<and>
        runs_from b64 None 0 data = ds @ runs_from b64 (open_run data pos st) (rs_alphabet st) (drop pos data))"

lemma runs_from_None: "runs_from b64 None a cs = runs_from b64 None c cs"
  by (simp add: runs_from_def base64_runs_None [of a cs c])

lemma runs_at_start: "runs_at b64 data 0 \<lparr>rs_start = None, rs_alphabet = 0, rs_out = None\<rparr>"
  by (auto simp: runs_at_def open_run_def joined_def intro!: exI [of _ "[]"])

lemma runs_at_inside:
  assumes "runs_at b64 data pos st" "pos < length data" "run_byte b64 (data ! pos)"
  shows "runs_at b64 data (pos + 1)
    (let st1 = (if rs_start st = None then st\<lparr>rs_start := Some pos, rs_alphabet := 0\<rparr> else st) in
     st1\<lparr>rs_alphabet := next_alphabet (rs_alphabet st1) (data ! pos)\<rparr>)"
proof -
  have d: "drop pos data = data ! pos # drop (Suc pos) data" using assms(2) by (simp add: Cons_nth_drop_Suc)
  have one: "slice start (Suc pos) data = slice start pos data @ [data ! pos]" if "start \<le> pos" for start
    using that assms(2) slice_append_upto [of start pos "Suc pos" data] by (simp add: slice_def d)
  show ?thesis
    using assms(1,3) one [of pos] one
    by (auto simp: runs_at_def open_run_def Let_def d runs_from_inside slice_def split: option.splits)
qed

lemma runs_at_outside:
  assumes "runs_at b64 data pos st" "pos < length data" "\<not> run_byte b64 (data ! pos)" "rs_out st = joined ds"
    and "runs_from b64 None 0 data = ds @ runs_from b64 (open_run data pos st) (rs_alphabet st) (drop pos data)"
    and "st1 = st\<lparr>rs_start := None, rs_out := joined (ds @ (case open_run data pos st of None \<Rightarrow> []
      | Some run \<Rightarrow> run_pieces b64 run (rs_alphabet st) (drop pos data)))\<rparr>"
  shows "runs_at b64 data (pos + 1) st1"
proof -
  have d: "drop pos data = data ! pos # drop (Suc pos) data" using assms(2) by (simp add: Cons_nth_drop_Suc)
  show ?thesis
    using assms(5,6) runs_from_outside [OF assms(3), of "open_run data pos st" "rs_alphabet st" "drop (Suc pos) data"]
    unfolding d runs_at_def open_run_def by auto
qed

lemma scan_run_block_yields:
  assumes "decode_reliable env data" "length data < 2 ^ 50"
  shows "runs_at b64 data pos st \<Longrightarrow> prefix block (drop pos data) \<Longrightarrow>
    \<exists>st1. yields (scan_run_block env b64 pos block st) st1 \<and> runs_at b64 data (pos + length block) st1"
proof (induction block arbitrary: pos st)
  case Nil
  then show ?case by auto
next
  case (Cons c cs)
  obtain tail where tail: "drop pos data = c # cs @ tail" using Cons.prems(2) by (auto simp: prefix_def)
  then have c: "pos < length data" "data ! pos = c" "drop (pos + 1) data = cs @ tail"
    by (metis drop_eq_Nil2 leI list.distinct(1), metis hd_drop_conv_nth drop_eq_Nil2 leI list.distinct(1) list.sel(1),
        metis drop_Suc tl_drop list.sel(3) Suc_eq_plus1)
  have cs: "prefix cs (drop (pos + 1) data)" unfolding c(3) by simp
  show ?case
  proof (cases "run_byte b64 c")
    case True
    let ?st0 = "if rs_start st = None then st\<lparr>rs_start := Some pos, rs_alphabet := 0\<rparr> else st"
    show ?thesis
      using Cons.IH [OF runs_at_inside [OF Cons.prems(1) c(1)] cs] True c(2) by (simp add: Let_def)
  next
    case False
    obtain ds where ds: "rs_out st = joined ds"
      "runs_from b64 None 0 data = ds @ runs_from b64 (open_run data pos st) (rs_alphabet st) (drop pos data)"
      using Cons.prems(1) unfolding runs_at_def by blast
    define st1 where "st1 = st\<lparr>rs_start := None, rs_out := joined (ds @ (case open_run data pos st of None \<Rightarrow> []
      | Some run \<Rightarrow> run_pieces b64 run (rs_alphabet st) (drop pos data)))\<rparr>"
    have "runs_at b64 data (pos + 1) st1"
      using runs_at_outside [OF Cons.prems(1) c(1) _ ds st1_def] False c(2) by simp
    then obtain st2 where st2: "yields (scan_run_block env b64 (pos + 1) cs st1) st2" "runs_at b64 data (pos + 1 + length cs) st2"
      using Cons.IH cs by blast
    have "yields (scan_run_block env b64 pos (c # cs) st) st2"
    proof (cases "rs_start st")
      case None
      then have "st1 = st" using ds(1) by (simp add: st1_def open_run_def)
      then show ?thesis using None False st2(1) by simp
    next
      case (Some start)
      have start: "start < pos" "list_all (run_byte b64) (slice start pos data)"
        using Cons.prems(1) Some by (simp_all add: runs_at_def)
      show ?thesis
      proof (cases "(if b64 then minBase64Run else minHexRun) \<le> pos - start")
        case True
        have "yields (flush_run env b64 pos st) st1"
          using flush_run_yields [OF assms Some _ _ start(2) ds(1)] start(1) c(1) Some by (simp add: st1_def open_run_def)
        then have "yields (ck_bind (flush_run env b64 pos st) (scan_run_block env b64 (pos + 1) cs)) st2"
          by (rule yields_bind) (rule st2(1))
        then show ?thesis using Some False True by simp
      next
        case short: False
        then have "run_pieces b64 (slice start pos data) (rs_alphabet st) (drop pos data) = []"
          using start(1) c(1) by (auto simp: run_pieces_def flush_base64_def flush_hex_def base64_pieces_def hex_pieces_def)
        then have "st1 = st\<lparr>rs_start := None\<rparr>" using ds(1) Some by (simp add: st1_def open_run_def)
        then show ?thesis using Some False short st2(1) by simp
      qed
    qed
    then show ?thesis using st2(2) by auto
  qed
qed

lemma run_blocks_yields:
  assumes "decode_reliable env data" "length data < 2 ^ 50"
  shows "runs_at b64 data off st \<Longrightarrow> off \<le> length data \<Longrightarrow>
    \<exists>st1. runs_at b64 data (length data) st1 \<and> (\<forall>t. \<exists>t1. run_blocks env b64 off st t = (Inr st1, t1))"
proof (induction "length data - off" arbitrary: off st rule: less_induct)
  case less
  note size = reliable_size [OF assms(1)]
  show ?case
  proof (cases "off < length data")
    case False
    then show ?thesis using less.prems size by (auto simp: run_blocks.simps)
  next
    case True
    let ?n = "min (length data - off) scanLength"
    have n: "off + ?n \<le> length data" "0 < ?n" using True by (simp_all add: scanLength_def)
    let ?block = "slice off (off + ?n) data"
    have "prefix ?block (drop off data)" by (simp add: slice_def take_is_prefix)
    then obtain st2 where st2: "yields (scan_run_block env b64 off ?block st) st2" "runs_at b64 data (off + length ?block) st2"
      using scan_run_block_yields [OF assms less.prems(1)] by blast
    have len: "length ?block = ?n" using n(1) by simp
    obtain st3 where st3: "runs_at b64 data (length data) st3" "\<And>t. \<exists>t1. run_blocks env b64 (off + length ?block) st2 t = (Inr st3, t1)"
      using less.hyps [OF _ st2(2)] n len by (metis True add_diff_inverse_nat diff_less_mono2 less_add_same_cancel1 linorder_not_le)
    have "\<exists>t1. run_blocks env b64 off st t = (Inr st3, t1)" for t
    proof -
      obtain t1 where p: "ck_poll (dv_stream env) t = (Inr (), t1)" using yieldsD [OF poll_yields [OF assms(1)]] by blast
      obtain t2 where r: "context_read (dv_stream env) off ?n t1 = (Inr ?block, t2)" using yieldsD [OF read_yields [OF assms(1) n(1)]] by blast
      obtain t3 where b: "scan_run_block env b64 off ?block st t2 = (Inr st2, t3)" using yieldsD [OF st2(1)] by blast
      obtain t4 where e: "run_blocks env b64 (off + length ?block) st2 t3 = (Inr st3, t4)" using st3(2) by blast
      show ?thesis using True e unfolding len by (simp add: run_blocks.simps [of env b64 off st t] size ck_bind_def p r b len)
    qed
    then show ?thesis using st3(1) by blast
  qed
qed

lemma decodeStreamRuns_yields:
  assumes "decode_reliable env data" "length data < 2 ^ 50"
  shows "yields (decodeStreamRuns env b64) (joined (runs_from b64 None 0 data))"
proof -
  obtain st where st: "runs_at b64 data (length data) st"
    "\<And>t. \<exists>t1. run_blocks env b64 0 \<lparr>rs_start = None, rs_alphabet = 0, rs_out = None\<rparr> t = (Inr st, t1)"
    using run_blocks_yields [OF assms runs_at_start, of b64] by auto
  obtain ds where ds: "rs_out st = joined ds"
    "runs_from b64 None 0 data = ds @ runs_from b64 (open_run data (length data) st) (rs_alphabet st) []"
    using st(1) unfolding runs_at_def by auto
  have flush: "yields (flush_run env b64 (length data) st) (st\<lparr>rs_start := None, rs_out := joined (runs_from b64 None 0 data)\<rparr>)"
  proof (cases "rs_start st")
    case None
    then show ?thesis using ds by (simp add: flush_run_def open_run_def runs_from_Nil)
  next
    case (Some start)
    then have "start < length data" "list_all (run_byte b64) (slice start (length data) data)"
      using st(1) by (simp_all add: runs_at_def)
    then show ?thesis using flush_run_yields [OF assms Some _ order_refl _ ds(1), of b64] ds(2) Some by (simp add: open_run_def runs_from_Nil)
  qed
  have "yields (run_blocks env b64 0 \<lparr>rs_start = None, rs_alphabet = 0, rs_out = None\<rparr>) st" using st(2) by (simp add: yields_def)
  moreover have "yields (case joined (runs_from b64 None 0 data) of None \<Rightarrow> ck_return None
      | Some out \<Rightarrow> ck_bind (put env out []) (\<lambda>out1. ck_return (Some out1))) (joined (runs_from b64 None 0 data))"
  proof (cases "joined (runs_from b64 None 0 data)")
    case (Some out)
    have "yields (ck_bind (put env out []) (\<lambda>out1. ck_return (Some out1))) (Some out)"
      by (rule yields_bind [where x = out]) (use put_yields [OF assms(1), of out "[]"] in simp_all)
    then show ?thesis using Some by simp
  qed simp
  ultimately show ?thesis
    unfolding decodeStreamRuns_def reliable_size [OF assms(1)]
    by - (rule yields_bind, assumption, rule yields_bind, rule flush, simp)
qed

end
