(* ===== verification/DecoderStreamCorrect.thy ===== *)
theory DecoderStreamCorrect
  imports DecoderStreamRuns
begin

text \<open>
  The walk over a replayable source visits what the buffered decoder enumerates: the eligibility gate finds a pair across
  block borders, the buffered reader shows the bytes that follow, and every transformation is the one of the whole chunk.
\<close>

section \<open>The eligibility gate\<close>

definition pair_width :: "string \<Rightarrow> nat" where
  "pair_width source = (if source = ''percent'' then 6 else 12)"

definition pair_at :: "string \<Rightarrow> bytes \<Rightarrow> nat \<Rightarrow> bool" where
  "pair_at source data i \<longleftrightarrow> i + pair_width source \<le> length data \<and>
     (source = ''percent'' \<and> isPercentEscapePair (drop i data) \<or> source = ''unicode-escape'' \<and> isUnicodeEscapePair (drop i data))"

lemma has_pair_iff: "has_pair source data \<longleftrightarrow> (\<exists>i. pair_at source data i)"
  by (auto simp: has_pair_def pair_at_def pair_width_def percent_pair_scan unicode_pair_scan)

lemma pair_at_slice:
  assumes "a \<le> i" "b \<le> length data"
  shows "pair_at source (slice a b data) (i - a) \<longleftrightarrow> pair_at source data i \<and> i + pair_width source \<le> b"
proof (cases "i + pair_width source \<le> b")
  case False
  then show ?thesis using assms by (auto simp: pair_at_def slice_def pair_width_def split: if_splits)
next
  case True
  have "drop (i - a) (slice a b data) ! k = drop i data ! k" if "k < pair_width source" for k
    using that True assms by (simp add: slice_def)
  then show ?thesis using True assms
    by (auto simp: pair_at_def isPercentEscapePair_def isUnicodeEscapePair_def pair_width_def slice_def split: if_splits)
qed

lemma drop_slice: "drop k (slice a b xs) = slice (a + k) b xs"
  by (simp add: slice_def drop_take add.commute)

lemma carry_of_slice:
  assumes "off + n \<le> length data"
  shows "carry_of (slice (off - min 11 off) (off + n) data) = slice (off + n - min 11 (off + n)) (off + n) data"
proof -
  have len: "length (slice (off - min 11 off) (off + n) data) = min 11 off + n" using assms by simp
  have "off - min 11 off + (min 11 off + n - min 11 (min 11 off + n)) = off + n - min 11 (off + n)" by simp
  then show ?thesis unfolding carry_of_def len carryLength_def drop_slice by simp
qed

lemma pair_gate_yields:
  assumes "truthful env data" "reliable env data"
  shows "off \<le> length data \<Longrightarrow> carry_of prev = slice (off - min 11 off) off data \<Longrightarrow>
    (\<And>i. pair_at source data i \<Longrightarrow> off < i + pair_width source) \<Longrightarrow> \<exists>t1. pair_gate env source prev off t = (Inr (has_pair source data), t1)"
proof (induction "length data - off" arbitrary: off prev t rule: less_induct)
  case less
  note size = truthful_size [OF assms(1)]
  let ?carry = "carry_of prev"
  have len: "length ?carry = min 11 off" using less.prems(1,2) by simp
  show ?case
  proof (cases "length data \<le> off")
    case True
    then have no: "\<not> pair_at source data i" for i using less.prems(3) by (fastforce simp: pair_at_def)
    have "\<not> pair_at source ?carry j" for j
      using no pair_at_slice [of "off - min 11 off" "j + (off - min 11 off)" off data source] less.prems(1,2) by simp
    then have "has_pair source ?carry = has_pair source data" using no by (simp add: has_pair_iff)
    then show ?thesis using True size by (simp add: pair_gate.simps Let_def)
  next
    case False
    define n where "n = min (scanLength + carryLength - length ?carry) (length data - off)"
    have n: "0 < n" "off + n \<le> length data" using False len by (auto simp: n_def scanLength_def carryLength_def)
    obtain t1 where r: "contextReadAt env off n t = ((slice off (off + n) data, None), t1)"
      using ReadAt_reliable [OF assms n(2)] by blast
    let ?data = "?carry @ slice off (off + n) data"
    have d: "?data = slice (off - min 11 off) (off + n) data"
      using slice_append_upto [of "off - min 11 off" off "off + n" data] less.prems(2) by simp
    have found: "pair_at source data i" if "pair_at source ?data j" "i = j + (off - min 11 off)" for i j
      using that pair_at_slice [of "off - min 11 off" i "off + n" data source] n(2) by (simp add: d)
    have seen: "pair_at source ?data (i - (off - min 11 off))" if "pair_at source data i" "i + pair_width source \<le> off + n" for i
    proof -
      have "off < i + pair_width source" using less.prems(3) that(1) by blast
      then have "off - min 11 off \<le> i" by (auto simp: pair_width_def split: if_splits)
      then show ?thesis using that pair_at_slice [of "off - min 11 off" i "off + n" data source] n(2) by (simp add: d)
    qed
    have p: "length (slice off (off + n) data) = n" using n(2) by simp
    show ?thesis
    proof (cases "has_pair source ?data")
      case True
      then have "has_pair source data" using found by (auto simp: has_pair_iff)
      then show ?thesis using False size r True by (simp add: pair_gate.simps [of env source prev off t] Let_def flip: n_def)
    next
      case no: False
      have "off + n < i + pair_width source" if "pair_at source data i" for i
        using seen [OF that] no by (auto simp: has_pair_iff not_le [symmetric])
      moreover have "carry_of ?data = slice (off + n - min 11 (off + n)) (off + n) data"
        unfolding d by (rule carry_of_slice [OF n(2)])
      moreover have "length data - (off + n) < length data - off" using n False by linarith
      ultimately obtain t2 where "pair_gate env source ?data (off + n) t1 = (Inr (has_pair source data), t2)"
        using less.hyps [of "off + n" ?data t1] n False by auto
      then show ?thesis using False size r no p
        by (simp add: pair_gate.simps [of env source prev off t] Let_def flip: n_def)
    qed
  qed
qed

lemma gate_yields:
  assumes "decode_reliable env data"
  shows "yields (pair_gate (dv_stream env) source [] 0) (has_pair source data)"
  unfolding yields_def
proof
  fix t
  have "carry_of [] = slice 0 0 data" by (simp add: carry_of_def slice_def)
  moreover have "0 < i + pair_width source" for i by (simp add: pair_width_def)
  ultimately show "\<exists>t1. pair_gate (dv_stream env) source [] 0 t = (Inr (has_pair source data), t1)"
    using pair_gate_yields [of "dv_stream env" data 0 "[]" source t] assms by (simp add: decode_reliable_def)
qed

section \<open>The buffered reader\<close>

definition reads_at :: "bytes \<Rightarrow> nat \<Rightarrow> peek_reader \<Rightarrow> bool" where
  "reads_at data pos r \<longleftrightarrow> pos \<le> length data \<and> prefix (pr_buf r) (drop pos data) \<and> pr_off r = pos + length (pr_buf r) \<and>
     (pr_err r \<noteq> None \<longrightarrow> pr_err r = Some VEOF \<and> pr_off r = length data)"

lemma reads_at_rest: "reads_at data pos r \<Longrightarrow> drop pos data = pr_buf r @ drop (pr_off r) data \<and> pr_off r \<le> length data"
  unfolding reads_at_def prefix_def by (metis add.commute add_le_imp_le_diff append_eq_conv_conj drop_drop le_add1 le_diff_conv2 length_append length_drop)

lemma fill_reliable:
  assumes "truthful env data" "reliable env data" "reads_at data pos r"
  shows "\<exists>r1 t1. fill env r t = (r1, t1) \<and> reads_at data pos r1"
proof (cases "length data \<le> pr_off r")
  case True
  then show ?thesis using assms(3) reads_at_rest [OF assms(3)] truthful_size [OF assms(1)] by (simp add: fill_def reads_at_def)
next
  case False
  define n where "n = min (bufferLength - length (pr_buf r)) (length data - pr_off r)"
  have n: "pr_off r + n \<le> length data" using False by (simp add: n_def)
  let ?p = "slice (pr_off r) (pr_off r + n) data"
  obtain t1 where t1: "contextReadAt env (pr_off r) n t = ((?p, None), t1)"
    using ReadAt_reliable [OF assms(1,2) n] by blast
  have f: "fill env r t = (r\<lparr>pr_buf := pr_buf r @ ?p, pr_off := pr_off r + length ?p, pr_err := None\<rparr>, t1)"
    using False truthful_size [OF assms(1)] t1 by (simp add: fill_def flip: n_def)
  have "prefix ?p (drop (pr_off r) data)" by (simp add: slice_def take_is_prefix)
  then have "prefix (pr_buf r @ ?p) (drop pos data)" using reads_at_rest [OF assms(3)] by simp
  then show ?thesis using assms(3) f by (simp add: reads_at_def)
qed

lemma peek_reliable:
  assumes "truthful env data" "reliable env data" "n \<le> bufferLength"
  shows "reads_at data pos r \<Longrightarrow> \<exists>r1 t1. peek env n r t = ((take n (drop pos data), if length data - pos < n then Some VEOF else None), r1, t1) \<and>
    reads_at data pos r1"
  using assms
proof (induction env n r t rule: peek.induct)
  case (1 env n r t)
  show ?case
  proof (cases "length (pr_buf r) < n \<and> length (pr_buf r) < bufferLength \<and> pr_err r = None")
    case True
    obtain r1 t1 where f: "fill env r t = (r1, t1)" "reads_at data pos r1" using fill_reliable [OF 1(3,4,2)] by blast
    show ?thesis using 1(1) [OF True f(1) [symmetric] f(2) 1(3-5)] True f(1) by (simp add: peek.simps [of env n r t])
  next
    case False
    have rest: "drop pos data = pr_buf r @ drop (pr_off r) data" "pr_off r \<le> length data" "pr_off r = pos + length (pr_buf r)"
      using reads_at_rest [OF 1(2)] 1(2) by (simp_all add: reads_at_def)
    show ?thesis
    proof (cases "length (pr_buf r) < n")
      case True
      then have e: "pr_err r = Some VEOF" "pr_off r = length data" using False 1(2,5) by (auto simp: reads_at_def)
      have p: "peek env n r t = ((pr_buf r, Some VEOF), r\<lparr>pr_err := None\<rparr>, t)"
        using True False e by (simp add: peek.simps [of env n r t])
      have "take n (drop pos data) = pr_buf r" "length data - pos < n" using rest e(2) True by simp_all
      moreover have "reads_at data pos (r\<lparr>pr_err := None\<rparr>)" using 1(2) by (simp add: reads_at_def)
      ultimately show ?thesis using p True by simp
    next
      case enough: False
      then have "take n (pr_buf r) = take n (drop pos data)" "n \<le> length data - pos" using rest by simp_all
      then show ?thesis using enough 1(2) by (simp add: peek.simps [of env n r t])
    qed
  qed
qed

text \<open>The reader after a peek: it is at the same position and holds the peeked bytes.\<close>

lemma peek_ok:
  assumes "truthful env data" "reliable env data" "reads_at data pos r" "n \<le> 12"
  obtains r1 t1 where "peek env n r t = ((take n (drop pos data), if length data - pos < n then Some VEOF else None), r1, t1)"
    "reads_at data pos r1" "length (pr_buf r) \<le> length (pr_buf r1)" "n \<le> length data - pos \<Longrightarrow> n \<le> length (pr_buf r1)"
proof -
  have "n \<le> bufferLength" using assms(4) by (simp add: bufferLength_def)
  then obtain r1 t1 where r1: "peek env n r t = ((take n (drop pos data), if length data - pos < n then Some VEOF else None), r1, t1)"
    "reads_at data pos r1" using peek_reliable [OF assms(1,2) _ assms(3)] by blast
  then show ?thesis using that peek_remaining [OF r1(1)] by auto
qed

lemma reads_at_discard: "reads_at data pos r \<Longrightarrow> n \<le> length (pr_buf r) \<Longrightarrow> reads_at data (pos + n) (r\<lparr>pr_buf := drop n (pr_buf r)\<rparr>)"
  using reads_at_rest [of data pos r]
  by (auto simp: reads_at_def prefix_def add.commute simp flip: drop_drop)

section \<open>The transformations\<close>

definition transform_of :: "string \<Rightarrow> bytes \<Rightarrow> bytes" where
  "transform_of source rest =
     (if source = ''percent'' then fst (percent_loop rest)
      else if source = ''unicode-escape'' then fst (unicode_loop rest)
      else utf16_loop (source = ''utf16le'') rest)"

text \<open>What a step must do at a position: stay there, hold what it consumes, and write the first part of the transformed rest.\<close>

definition step_ok :: "bytes \<Rightarrow> nat \<Rightarrow> string \<Rightarrow> (bytes option \<times> nat) \<times> peek_reader \<times> nat \<Rightarrow> bool" where
  "step_ok data pos source res \<longleftrightarrow>
     (case res of ((w, need), r, t) \<Rightarrow> reads_at data pos r \<and> need \<le> length (pr_buf r) \<and>
        transform_of source (drop pos data) = (case w of None \<Rightarrow> [] | Some bs \<Rightarrow> bs) @ transform_of source (drop (pos + need) data))"

lemma percent_step_ok:
  assumes "truthful env data" "reliable env data" "reads_at data pos r" "drop pos data = c # cs" "1 \<le> length (pr_buf r)"
  shows "step_ok data pos ''percent'' (percent_step env [c] r t)"
proof -
  have at: "drop (pos + n) data = drop n (c # cs)" for n using assms(4) by (metis add.commute drop_drop)
  have len: "length data - pos = Suc (length cs)" using assms(4) by (metis length_Cons length_drop)
  obtain r1 t1 where p: "peek env 3 r t = ((take 3 (c # cs), if length data - pos < 3 then Some VEOF else None), r1, t1)"
    "reads_at data pos r1" "length (pr_buf r) \<le> length (pr_buf r1)" "3 \<le> length data - pos \<Longrightarrow> 3 \<le> length (pr_buf r1)"
    using peek_ok [OF assms(1-3), of 3 t] assms(4) by auto
  show ?thesis
  proof (cases "c = CHR ''%'' \<and> 2 \<le> length cs \<and> isHexByte (cs ! 0) \<and> isHexByte (cs ! 1)")
    case True
    then show ?thesis using p at [of 3] len assms(4)
      by (simp add: step_ok_def percent_step_def transform_of_def numeral_3_eq_3 numeral_2_eq_2 Let_def)
  next
    case False
    then have "\<not> (length (take 3 (c # cs)) = 3 \<and> isHexByte (take 3 (c # cs) ! 1) \<and> isHexByte (take 3 (c # cs) ! 2)) \<or> c \<noteq> CHR ''%''"
      by (auto simp: numeral_3_eq_3 numeral_2_eq_2)
    then show ?thesis using False p at [of 1] assms(3-5)
      by (auto simp: step_ok_def percent_step_def transform_of_def Let_def)
  qed
qed

lemma slice_Cons_Suc: "slice (Suc a) (Suc b) (x # xs) = slice a b xs"
  by (simp add: slice_def)

lemma slice_take_le: "b \<le> n \<Longrightarrow> slice a b (take n xs) = slice a b xs"
  by (simp add: slice_def drop_take min_absorb1)

lemma unicode_step_ok:
  assumes "truthful env data" "reliable env data" "reads_at data pos r" "drop pos data = c # cs" "1 \<le> length (pr_buf r)"
  shows "step_ok data pos ''unicode-escape'' (unicode_step env [c] r t)"
proof -
  have at: "drop (pos + n) data = drop n (c # cs)" for n using assms(4) by (metis add.commute drop_drop)
  have len: "length data - pos = Suc (length cs)" using assms(4) by (metis length_Cons length_drop)
  let ?q = "take 6 (c # cs)" and ?pair = "take 12 (c # cs)"
  obtain r1 t1 where p: "peek env 6 r t = ((?q, if length data - pos < 6 then Some VEOF else None), r1, t1)"
    "reads_at data pos r1" "length (pr_buf r) \<le> length (pr_buf r1)" "6 \<le> length data - pos \<Longrightarrow> 6 \<le> length (pr_buf r1)"
    using peek_ok [OF assms(1-3), of 6 t] assms(4) by auto
  obtain r2 t2 where p2: "peek env 12 r1 t1 = ((?pair, if length data - pos < 12 then Some VEOF else None), r2, t2)"
    "reads_at data pos r2" "length (pr_buf r1) \<le> length (pr_buf r2)" "12 \<le> length data - pos \<Longrightarrow> 12 \<le> length (pr_buf r2)"
    using peek_ok [OF assms(1,2) p(2), of 12 t1] assms(4) by auto
  have q: "length ?q = 6 \<longleftrightarrow> 5 \<le> length cs" "?q ! 0 = c" "?q ! 1 = cs ! 0" "slice 2 6 ?q = slice 1 5 cs"
    using slice_Cons_Suc [of 1 5 c cs] slice_take_le [of 6 6 2 "c # cs"] by (auto simp: numeral_eq_Suc)
  have pair: "length ?pair = 12 \<longleftrightarrow> 11 \<le> length cs" "?pair ! 6 = cs ! 5" "?pair ! 7 = cs ! 6" "slice 8 12 ?pair = slice 7 11 cs"
    using slice_Cons_Suc [of 7 11 c cs] slice_take_le [of 12 12 8 "c # cs"] by (auto simp: numeral_eq_Suc)
  show ?thesis
  proof (cases "5 \<le> length cs \<and> c = CHR 0x5C \<and> cs ! 0 = CHR ''u''")
    case False
    then have "unicode_step env [c] r t = ((Some [c], 1), r1, t1)" using p(1) q by (auto simp: unicode_step_def Let_def)
    moreover have "fst (unicode_loop (c # cs)) = c # fst (unicode_loop cs)" using False by auto
    ultimately show ?thesis using p at [of 1] assms(4,5) by (simp add: step_ok_def transform_of_def)
  next
    case True
    show ?thesis
    proof (cases "parseHex4 (slice 1 5 cs)")
      case None
      then have "unicode_step env [c] r t = ((Some [c], 1), r1, t1)" using p(1) q True by (simp add: unicode_step_def Let_def)
      moreover have "fst (unicode_loop (c # cs)) = c # fst (unicode_loop cs)" using True None by simp
      ultimately show ?thesis using p at [of 1] assms(4,5) by (simp add: step_ok_def transform_of_def)
    next
      case (Some hi)
      have "unicode_step env [c] r t = ((Some (encode_rune (fst (escape_rune hi cs))), snd (escape_rune hi cs)), r2, t2)"
        using p(1) p2(1) q pair True Some by (auto simp: unicode_step_def Let_def escape_rune_def split: option.splits)
      moreover have "fst (unicode_loop (c # cs)) = encode_rune (fst (escape_rune hi cs)) @ fst (unicode_loop (drop (snd (escape_rune hi cs) - 1) cs))"
        using True Some by simp
      moreover have need: "snd (escape_rune hi cs) = 6 \<or> snd (escape_rune hi cs) = 12 \<and> 11 \<le> length cs"
        by (auto simp: escape_rune_def split: option.splits)
      moreover have "drop (pos + snd (escape_rune hi cs)) data = drop (snd (escape_rune hi cs) - 1) cs"
        using at [of "snd (escape_rune hi cs)"] need by (auto simp: numeral_eq_Suc)
      moreover have "snd (escape_rune hi cs) \<le> length (pr_buf r2)"
        using need p(3,4) p2(3,4) len True by (elim disjE conjE; simp)
      ultimately show ?thesis using p2(2) assms(4) by (simp add: step_ok_def transform_of_def)
    qed
  qed
qed

lemma encode_surrogate: "0xD800 \<le> u \<Longrightarrow> u \<le> 0xDFFF \<Longrightarrow> encode_rune u = encode_rune RuneError"
  by (simp add: encode_rune_def valid_rune_def RuneError_def)

lemma utf16_step_ok:
  assumes "truthful env data" "reliable env data" "reads_at data pos r" "drop pos data = a # b # cs" "2 \<le> length (pr_buf r)" "is_utf16 source"
  shows "step_ok data pos source (utf16_step env (source = ''utf16le'') [a, b] r t)"
proof -
  let ?le = "source = ''utf16le''" and ?u = "u16 (source = ''utf16le'') a b"
  have at: "drop (pos + n) data = drop n (a # b # cs)" for n using assms(4) by (metis add.commute drop_drop)
  have len: "length data - pos = Suc (Suc (length cs))" using assms(4) by (metis length_Cons length_drop)
  have src: "source \<noteq> ''percent''" "source \<noteq> ''unicode-escape''" using assms(6) by (auto simp: is_utf16_def)
  obtain r1 t1 where p: "peek env 4 r t = ((take 4 (a # b # cs), if length data - pos < 4 then Some VEOF else None), r1, t1)"
    "reads_at data pos r1" "length (pr_buf r) \<le> length (pr_buf r1)" "4 \<le> length data - pos \<Longrightarrow> 4 \<le> length (pr_buf r1)"
    using peek_ok [OF assms(1-3), of 4 t] assms(4) by auto
  let ?q = "take 4 (a # b # cs)"
  have q: "length ?q = 4 \<longleftrightarrow> 2 \<le> length cs" "?q ! 2 = cs ! 0" "?q ! 3 = cs ! 1" by (auto simp: numeral_eq_Suc)
  show ?thesis
  proof (cases "0xD800 \<le> ?u \<and> ?u \<le> 0xDBFF")
    case False
    then have "utf16_step env ?le [a, b] r t = ((if ?u \<noteq> 0xFEFF then Some (encode_rune ?u) else None, 2), r, t)"
      by (auto simp: utf16_step_def Let_def)
    moreover have "utf16_loop ?le (a # b # cs) = (if ?u \<noteq> 0xFEFF then encode_rune ?u else []) @ utf16_loop ?le cs"
      using False encode_surrogate [of ?u] by (auto simp: utf16_unit_def RuneError_def Let_def)
    ultimately show ?thesis using assms(3-5) at [of 2] src by (simp add: step_ok_def transform_of_def)
  next
    case high: True
    then have nb: "?u \<noteq> 0xFEFF" by simp
    let ?lo = "u16 ?le (cs ! 0) (cs ! 1)"
    show ?thesis
    proof (cases "2 \<le> length cs \<and> 0xDC00 \<le> ?lo \<and> ?lo \<le> 0xDFFF")
      case True
      have v: "utf16_DecodeRune ?u ?lo \<noteq> 0xFEFF" using high True by (simp add: utf16_DecodeRune_def)
      have "utf16_step env ?le [a, b] r t = ((Some (encode_rune (utf16_DecodeRune ?u ?lo)), 4), r1, t1)"
        using high True p(1) q v by (simp add: utf16_step_def Let_def)
      moreover have "utf16_loop ?le (a # b # cs) = encode_rune (utf16_DecodeRune ?u ?lo) @ utf16_loop ?le (drop 2 cs)"
        using high True v by (simp add: utf16_unit_def Let_def)
      moreover have "drop (pos + 4) data = drop 2 cs" using at [of 4] by (simp add: numeral_eq_Suc)
      ultimately show ?thesis using p(2,4) len True assms(4) src by (simp add: step_ok_def transform_of_def)
    next
      case False
      then have "utf16_step env ?le [a, b] r t = ((Some (encode_rune (if 2 \<le> length cs then RuneError else ?u)), 2), r1, t1)"
        using high p(1) q nb by (auto simp: utf16_step_def Let_def RuneError_def)
      moreover have "utf16_loop ?le (a # b # cs) = encode_rune (if 2 \<le> length cs then RuneError else ?u) @ utf16_loop ?le cs"
        using high False nb by (auto simp: utf16_unit_def Let_def RuneError_def)
      ultimately show ?thesis using p(2,3) assms(4,5) at [of 2] src by (simp add: step_ok_def transform_of_def)
    qed
  qed
qed

definition text_source :: "string \<Rightarrow> bool" where
  "text_source source \<longleftrightarrow> source = ''percent'' \<or> source = ''unicode-escape'' \<or> is_utf16 source"

lemma transform_step_ok:
  assumes "truthful env data" "reliable env data" "reads_at data pos r" "text_source source"
    and "need0 = (if is_utf16 source then 2 else 1)" "need0 \<le> length data - pos" "need0 \<le> length (pr_buf r)"
  shows "step_ok data pos source (transform_step env source (take need0 (drop pos data)) r t)"
proof (cases "is_utf16 source")
  case True
  then have "2 \<le> length (drop pos data)" using assms(5,6) by simp
  then obtain a b cs where d: "drop pos data = a # b # cs" by (cases "drop pos data"; cases "tl (drop pos data)") auto
  have "step_ok data pos source (utf16_step env (source = ''utf16le'') [a, b] r t)"
    using utf16_step_ok [OF assms(1-3) d _ True] assms(5,7) True by simp
  moreover have "take need0 (drop pos data) = [a, b]" using d assms(5) True by (simp add: numeral_2_eq_2)
  moreover have "source \<noteq> ''percent''" "source \<noteq> ''unicode-escape''" using True by (auto simp: is_utf16_def)
  ultimately show ?thesis by (simp add: transform_step_def)
next
  case False
  then have "1 \<le> length (drop pos data)" using assms(5,6) by simp
  then obtain c cs where d: "drop pos data = c # cs" by (cases "drop pos data") auto
  have "step_ok data pos ''percent'' (percent_step env [c] r t)" "step_ok data pos ''unicode-escape'' (unicode_step env [c] r t)"
    using percent_step_ok [OF assms(1-3) d] unicode_step_ok [OF assms(1-3) d] assms(5,7) False by simp_all
  moreover have "take need0 (drop pos data) = [c]" using d assms(5) False by simp
  moreover have "source = ''percent'' \<or> source = ''unicode-escape''" using assms(4) False by (simp add: text_source_def)
  ultimately show ?thesis by (auto simp: transform_step_def)
qed

lemma transform_of_short:
  "text_source source \<Longrightarrow> length rest < (if is_utf16 source then 2 else 1) \<Longrightarrow> transform_of source rest = []"
  by (cases rest; cases "tl rest") (auto simp: transform_of_def text_source_def is_utf16_def split: if_splits)

lemma transform_loop_yields:
  assumes "decode_reliable env data" "text_source source"
  shows "reads_at data pos r \<Longrightarrow> \<exists>t1. transform_loop env source r content t = (Inr (content @ transform_of source (drop pos data)), t1)"
proof (induction "length data - pos" arbitrary: pos r content t rule: less_induct)
  case less
  have src: "truthful (dv_stream env) data" "reliable (dv_stream env) data" using assms(1) by (simp_all add: decode_reliable_def)
  define n where "n = (if is_utf16 source then 2 else 1 :: nat)"
  have "n \<le> 12" "0 < n" by (simp_all add: n_def)
  then obtain r1 t1 where p: "peek (dv_stream env) n r t = ((take n (drop pos data), if length data - pos < n then Some VEOF else None), r1, t1)"
    "reads_at data pos r1" "n \<le> length data - pos \<Longrightarrow> n \<le> length (pr_buf r1)"
    using peek_ok [OF src less.prems, of n t] by metis
  have unfold: "transform_loop env source r content t = (case peek (dv_stream env) n r t of
        ((p, Some VEOF), r1, t1) \<Rightarrow> (Inr content, t1)
      | ((p, Some (VErr e)), r1, t1) \<Rightarrow> (Inl e, t1)
      | ((p, None), r1, t1) \<Rightarrow>
        (case transform_step (dv_stream env) source p r1 t1 of
           ((w, need), r2, t2) \<Rightarrow>
             ck_bind (write_step env content w) (transform_loop env source (r2\<lparr>pr_buf := drop need (pr_buf r2)\<rparr>)) t2))"
    unfolding n_def by (rule transform_loop.simps)
  show ?case
  proof (cases "length data - pos < n")
    case True
    then have "transform_of source (drop pos data) = []" using transform_of_short [OF assms(2)] by (simp add: n_def)
    then show ?thesis using True p(1) unfold by simp
  next
    case False
    obtain w need r2 t2 where s: "transform_step (dv_stream env) source (take n (drop pos data)) r1 t1 = ((w, need), r2, t2)"
      by (metis prod.exhaust)
    then have ok: "reads_at data pos r2" "need \<le> length (pr_buf r2)"
      "transform_of source (drop pos data) = (case w of None \<Rightarrow> [] | Some bs \<Rightarrow> bs) @ transform_of source (drop (pos + need) data)"
      using transform_step_ok [OF src p(2) assms(2) n_def _ p(3), of t1] False by (auto simp: step_ok_def)
    have need: "0 < need" using step_remaining [OF s] by simp
    have r3: "reads_at data (pos + need) (r2\<lparr>pr_buf := drop need (pr_buf r2)\<rparr>)" using reads_at_discard [OF ok(1,2)] .
    obtain t3 where w: "write_step env content w t2 = (Inr (content @ (case w of None \<Rightarrow> [] | Some bs \<Rightarrow> bs)), t3)"
      using yieldsD [OF put_yields [OF assms(1)], of content "case w of None \<Rightarrow> [] | Some bs \<Rightarrow> bs" t2]
      by (cases w) (auto simp: write_step_def ck_return_def)
    have "length data - (pos + need) < length data - pos" using need False \<open>0 < n\<close> by linarith
    then obtain t4 where "transform_loop env source (r2\<lparr>pr_buf := drop need (pr_buf r2)\<rparr>) (content @ (case w of None \<Rightarrow> [] | Some bs \<Rightarrow> bs)) t3 =
        (Inr ((content @ (case w of None \<Rightarrow> [] | Some bs \<Rightarrow> bs)) @ transform_of source (drop (pos + need) data)), t4)"
      using less.hyps [OF _ r3] by blast
    then show ?thesis using False p(1) s w ok(3) by (simp add: unfold ck_bind_def)
  qed
qed

section \<open>Each decoded form\<close>

text \<open>An eligible chunk has an escape to decode, so the conditions that only the buffered decoders test hold.\<close>

lemma percent_escape_decoded:
  "pair_at ''percent'' data i \<Longrightarrow> snd (percent_loop data) \<and> length (fst (percent_loop data)) < length data"
proof (induction data arbitrary: i rule: percent_loop.induct)
  case 1
  then show ?case by (simp add: pair_at_def pair_width_def)
next
  case (2 c cs)
  have le: "length (fst (percent_loop xs)) \<le> length xs" for xs
    by (induction xs rule: percent_loop.induct) auto
  show ?case
  proof (cases "c = CHR ''%'' \<and> 2 \<le> length cs \<and> isHexByte (cs ! 0) \<and> isHexByte (cs ! 1)")
    case True
    then show ?thesis using le [of "drop 2 cs"] by auto
  next
    case False
    then obtain j where j: "i = Suc j" using "2.prems"
      by (cases i) (auto simp: pair_at_def pair_width_def isPercentEscapePair_def)
    then have "pair_at ''percent'' cs j" using "2.prems" by (simp add: pair_at_def)
    then show ?thesis using 2(2,3) False by auto
  qed
qed

lemma hex_digit_iff: "isHexByte b \<Longrightarrow> hex_digit b \<noteq> None"
  by (auto simp: isHexByte_def hex_digit_def Let_def)

lemma parseHex4_loop_digits: "list_all isHexByte s \<Longrightarrow> parseHex4_loop v s \<noteq> None"
proof (induction s arbitrary: v)
  case (Cons c cs)
  then obtain d where "hex_digit c = Some d" using hex_digit_iff by fastforce
  then show ?case using Cons by simp
qed simp

lemma parseHex4_digits: "length s = 4 \<Longrightarrow> list_all isHexByte s \<Longrightarrow> parseHex4 s \<noteq> None"
  using parseHex4_loop_digits by (simp add: parseHex4_def)

lemma unicode_escape_decoded: "pair_at ''unicode-escape'' data i \<Longrightarrow> snd (unicode_loop data)"
proof (induction data arbitrary: i)
  case Nil
  then show ?case by (simp add: pair_at_def pair_width_def)
next
  case (Cons c cs)
  show ?case
  proof (cases i)
    case (Suc j)
    then have "pair_at ''unicode-escape'' cs j" using Cons.prems by (simp add: pair_at_def)
    then have "snd (unicode_loop cs)" by (rule Cons.IH)
    then show ?thesis by (auto split: option.splits)
  next
    case 0
    then have d: "11 \<le> length cs" "isUnicodeEscapePair (c # cs)" using Cons.prems by (auto simp: pair_at_def pair_width_def)
    then have h: "c = CHR 0x5C" "cs ! 0 = CHR ''u''" "isHexByte (cs ! 1)" "isHexByte (cs ! 2)" "isHexByte (cs ! 3)" "isHexByte (cs ! 4)"
      by (simp_all add: isUnicodeEscapePair_def numeral_eq_Suc)
    have len: "length (slice 1 5 cs) = 4" using d(1) by simp
    have "isHexByte (slice 1 5 cs ! k)" if "k < 4" for k
    proof -
      have "slice 1 5 cs ! k = cs ! (1 + k)" using that d(1) by (simp add: nth_slice)
      moreover have "k \<in> {0, 1, 2, 3}" using that by auto
      ultimately show ?thesis using h by (auto simp: numeral_eq_Suc)
    qed
    then have "list_all isHexByte (slice 1 5 cs)" using len by (simp add: list_all_length)
    then have "parseHex4 (slice 1 5 cs) \<noteq> None" using parseHex4_digits len by blast
    then show ?thesis using d(1) h(1,2) by (auto split: option.splits)
  qed
qed

lemma unicode_loop_length: "length (fst (unicode_loop data)) \<le> length data"
proof (induction data rule: length_induct)
  case (1 data)
  show ?case
  proof (cases data)
    case (Cons c cs)
    have IH: "length (fst (unicode_loop (drop k cs))) \<le> length cs - k" for k
      using 1 [rule_format, of "drop k cs"] Cons by simp
    have e: "length (encode_rune r) \<le> 4" for r by (rule encode_length_le_4)
    show ?thesis
    proof (cases "5 \<le> length cs \<and> c = CHR 0x5C \<and> cs ! 0 = CHR ''u'' \<and> parseHex4 (slice 1 5 cs) \<noteq> None")
      case False
      then have "fst (unicode_loop (c # cs)) = c # fst (unicode_loop cs)" by auto
      then show ?thesis using IH [of 0] Cons by simp
    next
      case True
      then obtain hi where hi: "parseHex4 (slice 1 5 cs) = Some hi" by blast
      have "5 \<le> snd (escape_rune hi cs) - 1" by (auto simp: escape_rune_def split: option.splits)
      then show ?thesis using True hi e [of "fst (escape_rune hi cs)"] IH [of "snd (escape_rune hi cs) - 1"] Cons by auto
    qed
  qed simp
qed

lemma utf16_loop_length: "length (utf16_loop le data) \<le> 2 * length data"
proof (induction le data rule: utf16_loop.induct)
  case (1 le a b rest)
  obtain r rest' where u: "utf16_unit le (u16 le a b) rest = (r, rest')" by fastforce
  have "length rest' \<le> length rest" using utf16_unit_length [of le "u16 le a b" rest] by (simp add: u)
  moreover have "length (encode_rune r) \<le> 4" by (rule encode_length_le_4)
  ultimately show ?case using "1.IH" u by fastforce
qed simp_all

lemma utf16_loop_odd: "even (length data) \<Longrightarrow> utf16_loop le (data @ [x]) = utf16_loop le data"
proof (induction le data rule: utf16_loop.induct)
  case (1 le a b rest)
  have ev: "even (length rest)" using "1.prems" by simp
  show ?case
  proof (cases "2 \<le> length rest")
    case True
    then have n: "(rest @ [x]) ! 0 = rest ! 0" "(rest @ [x]) ! 1 = rest ! 1" "drop 2 (rest @ [x]) = drop 2 rest @ [x]"
      by (auto simp: nth_append)
    obtain r rest' where u: "utf16_unit le (u16 le a b) rest = (r, rest')" by fastforce
    then have "utf16_unit le (u16 le a b) (rest @ [x]) = (r, rest' @ [x])" "even (length rest')"
      using True n ev by (auto simp: utf16_unit_def Let_def split: if_splits)
    then show ?thesis using "1.IH" u by simp
  next
    case False
    then have "rest = []" using ev by (cases rest; cases "tl rest") auto
    then show ?thesis by (simp add: utf16_unit_def Let_def)
  qed
qed simp_all

text \<open>The result of a form as the list of variants it lends: at most one.\<close>

definition lent :: "(string \<times> bytes) option \<Rightarrow> Variant list" where
  "lent r = (case r of None \<Rightarrow> [] | Some (source, content) \<Rightarrow>
     if content \<noteq> [] \<and> ((source = ''base64'' \<or> source = ''hex'') \<or> printableCounts (length content) (countNonPrintable content))
     then [\<lparr>var_Source = source, var_Data = content\<rparr>] else [])"

lemma lent_text:
  "length content < 2 ^ 50 \<Longrightarrow> source \<noteq> ''base64'' \<Longrightarrow> source \<noteq> ''hex'' \<Longrightarrow>
     lent (Some (source, content)) = (if mostlyPrintable content then [\<lparr>var_Source = source, var_Data = content\<rparr>] else [])"
  using mostlyPrintable_counts [of content] by (auto simp: lent_def mostlyPrintable_def printableCounts_def)

definition form :: "decode_env \<Rightarrow> string \<Rightarrow> (string \<times> bytes) option clocked" where
  "form env source = (if source = ''base64'' \<or> source = ''hex'' then runs_decoded env source else transformed env source)"

text \<open>What the buffered enumeration has for a form.\<close>

definition buffered :: "(bytes \<Rightarrow> bytes) \<Rightarrow> bytes \<Rightarrow> string \<Rightarrow> Variant list" where
  "buffered junk data source =
     (if source = ''base64'' then variant_of ''base64'' (decodeBase64WithScratch junk data [])
      else if source = ''percent'' then (if hasPercentEscapePair data then variant_of ''percent'' (decodePercentCandidate data) else [])
      else if source = ''hex'' then variant_of ''hex'' (decodeHex data)
      else if source = ''utf16'' then (case tryUTF16 data of Some (Some (src, v)) \<Rightarrow> [\<lparr>var_Source = src, var_Data = v\<rparr>] | _ \<Rightarrow> [])
      else (if hasUnicodeEscapePair data then variant_of ''unicode-escape'' (decodeUnicodeEscape data) else []))"

definition decoder_order :: "string list" where
  "decoder_order = [''base64'', ''percent'', ''hex'', ''utf16'', ''unicode-escape'']"

lemma Variants_buffered: "Variants junk data = Some (\<lparr>var_Source = [], var_Data = data\<rparr> # concat (map (buffered junk data) decoder_order))"
  using tryUTF16_total [of data]
  by (auto simp: Variants_def VariantsWithScratch_def decoder_order_def buffered_def)

lemma transformed_yields:
  assumes "decode_reliable env data" "yields (streamEncoding (dv_stream env) source) (source1, eligible)" "eligible \<Longrightarrow> text_source source1"
  shows "yields (transformed env source) (if eligible then Some (source1, transform_of source1 data) else None)"
proof (cases eligible)
  case False
  show ?thesis unfolding transformed_def by (rule yields_bind [OF assms(2)]) (simp add: False)
next
  case True
  have r0: "reads_at data 0 \<lparr>pr_buf = [], pr_off = 0, pr_err = None\<rparr>" by (simp add: reads_at_def)
  have loop: "yields (transform_loop env source1 \<lparr>pr_buf = [], pr_off = 0, pr_err = None\<rparr> []) (transform_of source1 data)"
    using transform_loop_yields [OF assms(1) assms(3) [OF True] r0, of "[]"] by (simp add: yields_def)
  have flush: "yields (put env (transform_of source1 data) []) (transform_of source1 data)" using put_yields [OF assms(1), of _ "[]"] by simp
  show ?thesis unfolding transformed_def
    by (rule yields_bind [OF assms(2)]) (simp add: True, rule yields_bind [OF loop], rule yields_bind [OF flush], simp)
qed

lemma runs_form:
  assumes "decode_reliable env data" "length data < 2 ^ 50" "source = ''base64'' \<or> source = ''hex''"
  shows "\<exists>r. yields (form env source) r \<and> lent r = buffered junk data source"
proof -
  let ?ds = "runs_from (source = ''base64'') None 0 data"
  have y: "yields (form env source) (map_option (Pair source) (joined ?ds))"
    unfolding form_def runs_decoded_def using assms(3)
    by simp (rule yields_bind [OF decodeStreamRuns_yields [OF assms(1,2)]], simp)
  have "v \<noteq> []" if "joined ?ds = Some v" for v
    using that joined_nonempty [OF base64_pieces_nonempty] joined_nonempty [OF hex_pieces_nonempty] by (auto simp: runs_from_def split: if_splits)
  then have "lent (map_option (Pair source) (joined ?ds)) = variant_of source (joined ?ds)"
    using assms(3) by (auto simp: lent_def variant_of_def split: option.splits)
  also have "\<dots> = buffered junk data source"
    using assms(3) by (auto simp: buffered_def runs_from_def decodeBase64_joined decodeHex_joined walkBase64RunsMeta_def walkHexRuns_def)
  finally show ?thesis using y by blast
qed

lemma gate_encoding:
  assumes "decode_reliable env data" "source = ''percent'' \<or> source = ''unicode-escape''"
  shows "yields (streamEncoding (dv_stream env) source) (source, has_pair source data)"
  unfolding streamEncoding_def using assms(2) by (auto intro!: yields_bind [OF gate_yields [OF assms(1)]])

lemma percent_form:
  assumes "decode_reliable env data" "length data < 2 ^ 49"
  shows "\<exists>r. yields (form env ''percent'') r \<and> lent r = buffered junk data ''percent''"
proof -
  have gate: "has_pair ''percent'' data \<longleftrightarrow> hasPercentEscapePair data" by (simp add: has_pair_def)
  have y: "yields (form env ''percent'') (if hasPercentEscapePair data then Some (''percent'', fst (percent_loop data)) else None)"
    using transformed_yields [OF assms(1) gate_encoding [OF assms(1)], of "''percent''"]
    by (simp add: form_def gate transform_of_def text_source_def cong: if_cong)
  have "lent (if hasPercentEscapePair data then Some (''percent'', fst (percent_loop data)) else None) = buffered junk data ''percent''"
  proof (cases "hasPercentEscapePair data")
    case True
    then obtain i where "pair_at ''percent'' data i" using gate by (auto simp: has_pair_iff)
    then have d: "snd (percent_loop data)" "length (fst (percent_loop data)) < length data" using percent_escape_decoded by blast+
    then show ?thesis using True assms(2) lent_text [of "fst (percent_loop data)" "''percent''"]
      by (auto simp: buffered_def decodePercentCandidate_def variant_of_def split: prod.splits)
  qed (simp add: lent_def buffered_def)
  then show ?thesis using y by blast
qed

lemma unicode_form:
  assumes "decode_reliable env data" "length data < 2 ^ 49"
  shows "\<exists>r. yields (form env ''unicode-escape'') r \<and> lent r = buffered junk data ''unicode-escape''"
proof -
  have gate: "has_pair ''unicode-escape'' data \<longleftrightarrow> hasUnicodeEscapePair data" by (simp add: has_pair_def)
  have y: "yields (form env ''unicode-escape'') (if hasUnicodeEscapePair data then Some (''unicode-escape'', fst (unicode_loop data)) else None)"
    using transformed_yields [OF assms(1) gate_encoding [OF assms(1)], of "''unicode-escape''"]
    by (simp add: form_def gate transform_of_def text_source_def cong: if_cong)
  have "lent (if hasUnicodeEscapePair data then Some (''unicode-escape'', fst (unicode_loop data)) else None) = buffered junk data ''unicode-escape''"
  proof (cases "hasUnicodeEscapePair data")
    case True
    then obtain i where "pair_at ''unicode-escape'' data i" using gate by (auto simp: has_pair_iff)
    then have d: "snd (unicode_loop data)" "length (fst (unicode_loop data)) \<le> length data"
      using unicode_escape_decoded unicode_loop_length by blast+
    then show ?thesis using True assms(2) lent_text [of "fst (unicode_loop data)" "''unicode-escape''"]
      by (auto simp: buffered_def decodeUnicodeEscape_def variant_of_def split: prod.splits)
  qed (simp add: lent_def buffered_def)
  then show ?thesis using y by blast
qed

lemma utf16Encoding_prefix:
  assumes "4 \<le> length data"
  shows "utf16Encoding (take 128 data) = utf16Encoding data"
proof -
  have "utf16_sample (take 128 data) = utf16_sample data" by (simp add: utf16_sample_def)
  moreover have "geti (take 128 data) 0 = geti data 0" "geti (take 128 data) 1 = geti data 1" using assms by (simp_all add: geti_def)
  ultimately show ?thesis by (simp only: utf16Encoding_def)
qed

lemma utf16_loop_BOM:
  assumes "2 \<le> length data" "le \<and> data ! 0 = CHR 0xFF \<and> data ! 1 = CHR 0xFE \<or> \<not> le \<and> data ! 0 = CHR 0xFE \<and> data ! 1 = CHR 0xFF"
  shows "utf16_loop le data = utf16_loop le (drop 2 data)"
proof -
  obtain a b rest where d: "data = a # b # rest" using assms(1) by (cases data; cases "tl data") auto
  have "u16 le a b = 0xFEFF" using assms(2) by (auto simp: d u16_def)
  then show ?thesis by (simp add: d utf16_unit_def)
qed

lemma decodeUTF16_loop:
  assumes "4 \<le> length data"
  shows "decodeUTF16 data le = (if utf16_loop le data = [] then None else Some (utf16_loop le data))"
proof -
  define d1 where "d1 = (if 2 \<le> length data \<and>
            (le \<and> data ! 0 = CHR 0xFF \<and> data ! 1 = CHR 0xFE \<or> \<not> le \<and> data ! 0 = CHR 0xFE \<and> data ! 1 = CHR 0xFF)
         then drop 2 data else data)"
  have d1: "utf16_loop le d1 = utf16_loop le data" "2 \<le> length d1" using utf16_loop_BOM assms by (auto simp: d1_def)
  define d2 where "d2 = (if length d1 mod 2 \<noteq> 0 then butlast d1 else d1)"
  have "utf16_loop le d2 = utf16_loop le d1"
  proof (cases "even (length d1)")
    case True
    then show ?thesis by (simp add: d2_def)
  next
    case False
    then have "d1 \<noteq> []" by auto
    then have "utf16_loop le (butlast d1 @ [last d1]) = utf16_loop le (butlast d1)" using False by (intro utf16_loop_odd) simp
    then show ?thesis using \<open>d1 \<noteq> []\<close> False by (simp add: d2_def odd_iff_mod_2_eq_one)
  qed
  moreover have "d2 \<noteq> []" using d1(2) by (cases d1; cases "tl d1") (auto simp: d2_def)
  ultimately show ?thesis using d1(1) unfolding decodeUTF16_def Let_def d1_def [symmetric] d2_def [symmetric] by simp
qed

lemma utf16_form:
  assumes "decode_reliable env data" "length data < 2 ^ 48"
  shows "\<exists>r. yields (form env ''utf16'') r \<and> lent r = buffered junk data ''utf16''"
proof (cases "length data < 4")
  case short: True
  have "yields (context_read (dv_stream env) 0 (min (length data) 128)) (slice 0 (min (length data) 128) data)"
    using read_yields [OF assms(1), of 0 "min (length data) 128"] by simp
  then have "yields (streamEncoding (dv_stream env) ''utf16'') (''utf16'', False)"
    unfolding streamEncoding_def reliable_size [OF assms(1)] using short by (auto intro!: yields_bind simp: slice_def)
  from transformed_yields [OF assms(1) this] have "yields (form env ''utf16'') None" by (simp add: form_def)
  moreover have "lent None = buffered junk data ''utf16''" using short by (simp add: lent_def buffered_def tryUTF16_def)
  ultimately show ?thesis by blast
next
  case False
  then have len: "4 \<le> length data" by simp
  then obtain le ok where enc: "utf16Encoding data = Some (le, ok)"
    using tryUTF16_total [of data] by (cases "utf16Encoding data") (auto simp: tryUTF16_def)
  let ?name = "if le then ''utf16le'' else ''utf16be''"
  have s: "slice 0 (min (length data) 128) data = take 128 data" by (simp add: slice_def min_def)
  have "yields (context_read (dv_stream env) 0 (min (length data) 128)) (take 128 data)"
    using read_yields [OF assms(1), of 0 "min (length data) 128"] by (simp add: s)
  then have "yields (streamEncoding (dv_stream env) ''utf16'') (?name, ok)"
    unfolding streamEncoding_def reliable_size [OF assms(1)] using len enc utf16Encoding_prefix [OF len]
    by (auto intro!: yields_bind)
  then have y: "yields (form env ''utf16'') (if ok then Some (?name, transform_of ?name data) else None)"
    using transformed_yields [OF assms(1)] by (simp add: form_def text_source_def is_utf16_def)
  have t: "transform_of ?name data = utf16_loop le data" by (simp add: transform_of_def)
  have n: "?name \<noteq> ''base64''" "?name \<noteq> ''hex''" by simp_all
  have "length (utf16_loop le data) < 2 ^ 50" using utf16_loop_length [of le data] assms(2) by simp
  then have "lent (if ok then Some (?name, utf16_loop le data) else None) = buffered junk data ''utf16''"
    using len enc lent_text [OF _ n] decodeUTF16_loop [OF len, of le]
    by (auto simp: buffered_def tryUTF16_def lent_def mostlyPrintable_def split: if_splits)
  then show ?thesis using y unfolding t by blast
qed

lemma form_yields:
  assumes "decode_reliable env data" "length data < 2 ^ 48" "source \<in> set decoder_order"
  shows "\<exists>r. yields (form env source) r \<and> lent r = buffered junk data source"
  using assms(3) runs_form [OF assms(1), of source junk] percent_form [OF assms(1), of junk] unicode_form [OF assms(1), of junk]
    utf16_form [OF assms(1,2), of junk] assms(2)
  by (auto simp: decoder_order_def)

section \<open>The whole walk\<close>

text \<open>A reader serves some content when every read inside it delivers it.\<close>

definition serves :: "variant_reader \<Rightarrow> bytes \<Rightarrow> bool" where
  "serves rd content \<longleftrightarrow> (\<forall>t off n. off + n \<le> length content \<longrightarrow> (\<exists>t1. rd t off n = ((slice off (off + n) content, None), t1)))"

lemma context_serves: "decode_reliable env data \<Longrightarrow> serves (contextReaderAt (dv_stream env)) data"
  unfolding serves_def
proof (intro allI impI)
  fix t off n assume env: "decode_reliable env data" and n: "off + n \<le> length data"
  obtain t1 where "contextReadAt (dv_stream env) off n t = ((slice off (off + n) data, None), t1)"
    using ReadAt_yields [OF env n] by blast
  then show "\<exists>t1. contextReaderAt (dv_stream env) t off n = ((slice off (off + n) data, None), t1)" by (simp add: contextReaderAt_def)
qed

lemma file_serves: "decode_reliable env data \<Longrightarrow> serves (file_reader env content) content"
  by (auto simp: serves_def file_reader_def decode_reliable_def Let_def)

text \<open>The visitor has been called for the variants, in order, with readers that serve them, and never failed.\<close>

inductive walked :: "'s visitor \<Rightarrow> Variant list \<Rightarrow> 's \<Rightarrow> 's \<Rightarrow> bool" for visit where
  walked_Nil: "walked visit [] s s"
| walked_Cons: "serves rd (var_Data v) \<Longrightarrow> visit (var_Source v) rd (length (var_Data v)) (s, t) = (None, s1, t1) \<Longrightarrow>
    walked visit vs s1 s2 \<Longrightarrow> walked visit (v # vs) s s2"

lemma walked_append: "walked visit vs s s1 \<Longrightarrow> walked visit ws s1 s2 \<Longrightarrow> walked visit (vs @ ws) s s2"
  by (induction rule: walked.induct) (auto intro: walked.intros)

text \<open>The visitor succeeds on a variant in every state that satisfies an invariant, and keeps the invariant.\<close>

definition visitor_ok :: "'s visitor \<Rightarrow> ('s \<Rightarrow> bool) \<Rightarrow> Variant \<Rightarrow> bool" where
  "visitor_ok visit I v \<longleftrightarrow> (\<forall>rd s t. serves rd (var_Data v) \<and> I s \<longrightarrow>
     (\<exists>s1 t1. visit (var_Source v) rd (length (var_Data v)) (s, t) = (None, s1, t1) \<and> I s1))"

lemma close_reliable: "decode_reliable env data \<Longrightarrow> close_file env None (s, t) = ([], s, t + 1)"
  by (simp add: close_file_def decode_reliable_def)

lemma walkDecoded_walked:
  assumes "decode_reliable env data" "length data < 2 ^ 48" "source \<in> set decoder_order"
    and "I s" "list_all (visitor_ok visit I) (buffered junk data source)"
  shows "\<exists>s1 t1. walkDecoded env source visit (s, t) = ([], s1, t1) \<and> walked visit (buffered junk data source) s s1 \<and> I s1"
proof -
  obtain r where r: "yields (form env source) r" "lent r = buffered junk data source" using form_yields [OF assms(1-3)] by blast
  obtain t1 where t1: "form env source t = (Inr r, t1)" using yieldsD [OF r(1)] by blast
  have walk: "walkDecoded env source visit (s, t) = (case r of
       None \<Rightarrow> ([], s, t1)
     | Some (source1, content) \<Rightarrow>
         if content = [] then ([], s, t1)
         else if ((source1 = ''base64'' \<or> source1 = ''hex'') \<or> printableCounts (length content) (countNonPrintable content))
         then (let (err, st) = visit source1 (file_reader env content) (length content) (s, t1) in close_file env err st)
         else close_file env None (s, t1))"
    using t1 by (simp add: walkDecoded_def form_def split: option.splits)
  show ?thesis
  proof (cases "lent r")
    case Nil
    then have "walkDecoded env source visit (s, t) \<in> {([], s, t1), ([], s, t1 + 1)}"
      unfolding walk by (auto simp: lent_def close_reliable [OF assms(1)] split: option.splits if_splits)
    then show ?thesis using Nil r(2) assms(4) walked_Nil by fastforce
  next
    case (Cons v vs)
    then obtain source1 content where c: "r = Some (source1, content)" "content \<noteq> []" "v = \<lparr>var_Source = source1, var_Data = content\<rparr>" "vs = []"
      "(source1 = ''base64'' \<or> source1 = ''hex'') \<or> printableCounts (length content) (countNonPrintable content)"
      by (auto simp: lent_def split: option.splits if_splits)
    have "visitor_ok visit I v" using assms(5) Cons unfolding r(2) [symmetric] by simp
    then obtain s1 t2 where v: "visit source1 (file_reader env content) (length content) (s, t1) = (None, s1, t2)" "I s1"
      using file_serves [OF assms(1), of content] assms(4) unfolding visitor_ok_def c(3) by (metis Variant.select_convs)
    have "walkDecoded env source visit (s, t) = ([], s1, t2 + 1)"
      unfolding walk using c v by (simp add: close_reliable [OF assms(1)])
    moreover have "walked visit [v] s s1"
      by (rule walked_Cons [OF _ _ walked_Nil]) (use file_serves [OF assms(1), of content] v c(3) in simp_all)
    ultimately show ?thesis using v(2) r(2) Cons c(4) by auto
  qed
qed

lemma walk_sources_walked:
  assumes "decode_reliable env data" "length data < 2 ^ 48"
  shows "set sources \<subseteq> set decoder_order \<Longrightarrow> I s \<Longrightarrow> list_all (visitor_ok visit I) (concat (map (buffered junk data) sources)) \<Longrightarrow>
    \<exists>s1 t1. walk_sources env visit sources (s, t) = ([], s1, t1) \<and> walked visit (concat (map (buffered junk data) sources)) s s1 \<and> I s1"
proof (induction sources arbitrary: s t)
  case Nil
  then show ?case using yieldsD [OF poll_yields [OF assms(1)], of t] walked_Nil by (auto intro: walked_Nil)
next
  case (Cons source rest)
  obtain s1 t1 where w: "walkDecoded env source visit (s, t) = ([], s1, t1)" "walked visit (buffered junk data source) s s1" "I s1"
    using walkDecoded_walked [OF assms, where I = I and s = s and source = source and visit = visit and junk = junk and t = t] Cons.prems
    by auto
  obtain s2 t2 where r: "walk_sources env visit rest (s1, t1) = ([], s2, t2)" "walked visit (concat (map (buffered junk data) rest)) s1 s2" "I s2"
    using Cons.IH [of s1 t1] w(3) Cons.prems(1,3) by auto
  then show ?case using w walked_append [OF w(2) r(2)] by simp
qed

lemma WalkVariants_walked:
  assumes "decode_reliable env data" "length data < 2 ^ 48" "Variants junk data = Some vs" "I s" "list_all (visitor_ok visit I) vs"
  shows "\<exists>s1 t1. WalkVariants env visit (s, t) = ([], s1, t1) \<and> walked visit vs s s1 \<and> I s1"
proof -
  let ?rest = "concat (map (buffered junk data) decoder_order)" and ?raw = "\<lparr>var_Source = [], var_Data = data\<rparr>"
  have vs: "vs = ?raw # ?rest" using assms(3) Variants_buffered by simp
  obtain t1 where p: "ck_poll (dv_stream env) t = (Inr (), t1)" using yieldsD [OF poll_yields [OF assms(1)]] by blast
  have "visitor_ok visit I ?raw" using assms(5) vs by simp
  then obtain s1 t2 where v: "visit [] (contextReaderAt (dv_stream env)) (length data) (s, t1) = (None, s1, t2)" "I s1"
    using context_serves [OF assms(1)] assms(4) unfolding visitor_ok_def by (metis Variant.select_convs)
  obtain s2 t3 where r: "walk_sources env visit decoder_order (s1, t2) = ([], s2, t3)" "walked visit ?rest s1 s2" "I s2"
    using walk_sources_walked [OF assms(1,2), where I = I and s = s1 and sources = decoder_order and visit = visit and junk = junk and t = t2]
      v(2) assms(5) vs by auto
  have "walked visit vs s s2" unfolding vs
    by (rule walked_Cons [OF _ _ r(2)]) (use context_serves [OF assms(1)] v(1) in simp_all)
  moreover have "WalkVariants env visit (s, t) = ([], s2, t3)"
    using p v(1) r(1) reliable_size [OF assms(1)] by (simp add: WalkVariants_def decoder_order_def)
  ultimately show ?thesis using r(3) by blast
qed

section \<open>Reading a source without holding it\<close>

text \<open>A visitor that reads each variant it is lent.\<close>

definition collect :: "Variant list visitor" where
  "collect source rd n = (\<lambda>(acc, t). case rd t 0 n of
     ((p, None), t1) \<Rightarrow> (None, acc @ [\<lparr>var_Source = source, var_Data = p\<rparr>], t1)
   | ((p, Some VEOF), t1) \<Rightarrow> (Some SUnexpectedEOF, acc, t1)
   | ((p, Some (VErr e)), t1) \<Rightarrow> (Some e, acc, t1))"

lemma collect_served: "serves rd (var_Data v) \<Longrightarrow> \<exists>t1. collect (var_Source v) rd (length (var_Data v)) (acc, t) = (None, acc @ [v], t1)"
  unfolding serves_def by (drule spec [of _ t], drule spec [of _ 0], drule spec [of _ "length (var_Data v)"]) (auto simp: collect_def)

lemma collect_walked: "walked collect vs acc acc1 \<Longrightarrow> acc1 = acc @ vs"
proof (induction rule: walked.induct)
  case (walked_Cons rd v s t s1 t1 vs s2)
  then show ?case using collect_served [OF walked_Cons.hyps(1), of s t] by auto
qed simp

text \<open>C15. Walking a replayable source visits exactly what the buffered decoder enumerates for the whole chunk -- the same variants, with
  the same contents, in the same order -- although it never holds the source: whatever the sizes in which blocks are read and
  encoded runs decoded, an escape, a surrogate pair or an encoded run across a border is decoded as if there were none. There are no errors.\<close>

theorem WalkVariants_eq_Variants:
  assumes "decode_reliable env data" "length data < 2 ^ 48"
  shows "\<exists>vs t1. Variants junk data = Some vs \<and> WalkVariants env collect ([], t) = ([], vs, t1)"
proof -
  obtain vs where vs: "Variants junk data = Some vs" using Variants_buffered by blast
  have "list_all (visitor_ok collect (\<lambda>_. True)) vs"
    unfolding list_all_iff visitor_ok_def using collect_served by metis
  then obtain s1 t1 where "WalkVariants env collect ([], t) = ([], s1, t1)" "walked collect vs [] s1"
    using WalkVariants_walked [OF assms vs, where I = "\<lambda>_. True" and s = "[]" and visit = collect and t = t] by auto
  then show ?thesis using vs collect_walked by fastforce
qed

definition memory_env :: "bytes \<Rightarrow> decode_env" where
  "memory_env data = \<lparr>dv_stream = \<lparr>sv_reader = (\<lambda>t off n. (slice off (off + n) data, None)), sv_size = length data,
     sv_cancelled = (\<lambda>_. False), sv_order = (\<lambda>_ n. [0..<n])\<rparr>, dv_piece = (\<lambda>_. 3), dv_corrupt = (\<lambda>_. ''corrupt''),
     dv_write = (\<lambda>_. None), dv_file = (\<lambda>_. None), dv_close = (\<lambda>_. None)\<rparr>"

lemma memory_reliable: "decode_reliable (memory_env data) data"
  by (auto simp: decode_reliable_def truthful_def reliable_def memory_env_def slice_def)

theorem WalkVariants_eq_Variants_witness:
  "\<exists>vs t1. Variants id ''k=%41%42'' = Some vs \<and> WalkVariants (memory_env ''k=%41%42'') collect ([], 0) = ([], vs, t1)"
  by (rule WalkVariants_eq_Variants [OF memory_reliable]) simp

section \<open>A read error that is swallowed\<close>

text \<open>
  Without a reliable source the decoded form may be wrong without an error: a look-ahead that fails discards the error of the
  reader, the escape is copied as it is, and the next read continues behind it. Here the first read delivers one byte and a timeout.
\<close>

lemma peek_held: "n \<le> length (pr_buf r) \<Longrightarrow> peek env n r t = ((take n (pr_buf r), None), r, t)"
  by (simp add: peek.simps)

lemma peek_short: "length (pr_buf r) < n \<Longrightarrow> pr_err r = Some e \<Longrightarrow> peek env n r t = ((pr_buf r, Some e), r\<lparr>pr_err := None\<rparr>, t)"
  by (simp add: peek.simps)

lemma peek_fill: "length (pr_buf r) < n \<Longrightarrow> n \<le> 12 \<Longrightarrow> pr_err r = None \<Longrightarrow> peek env n r t = (case fill env r t of (r1, t1) \<Rightarrow> peek env n r1 t1)"
  by (subst peek.simps) (simp add: bufferLength_def)

definition flaky_env :: decode_env where
  "flaky_env = (memory_env ''%41%42'')\<lparr>dv_stream := (dv_stream (memory_env ''%41%42''))\<lparr>sv_reader := (\<lambda>t off n.
     if t = 1 then (''%'', Some (ReadFailed ''timeout'')) else (slice off (off + n) ''%41%42'', None))\<rparr>\<rparr>"

lemma char_B: "char_of (66 :: nat) = CHR ''B''"
  by code_simp

lemmas flaky_step = char_B peek_held peek_short peek_fill fill_def contextReadAt_def flaky_env_def memory_env_def bufferLength_def slice_def is_utf16_def
     transform_step_def percent_step_def ck_bind_def write_step_def put_def isHexByte_def hexValue_def Let_def

lemma peek_error_swallowed:
  "fst (transform_loop flaky_env ''percent'' \<lparr>pr_buf = [], pr_off = 0, pr_err = None\<rparr> [] 0) = Inr ''%41B''"
proof -
  have 1: "transform_loop flaky_env ''percent'' \<lparr>pr_buf = [], pr_off = 0, pr_err = None\<rparr> [] 0 =
     transform_loop flaky_env ''percent'' \<lparr>pr_buf = [], pr_off = 1, pr_err = None\<rparr> ''%'' 3"
    by (subst transform_loop.simps) (simp add: flaky_step, (simp add: eval_nat_numeral)?)
  have 2: "transform_loop flaky_env ''percent'' \<lparr>pr_buf = [], pr_off = 1, pr_err = None\<rparr> ''%'' 3 =
     transform_loop flaky_env ''percent'' \<lparr>pr_buf = ''1%42'', pr_off = 6, pr_err = None\<rparr> ''%4'' 6"
    by (subst transform_loop.simps) (simp add: flaky_step, (simp add: eval_nat_numeral)?)
  have 3: "transform_loop flaky_env ''percent'' \<lparr>pr_buf = ''1%42'', pr_off = 6, pr_err = None\<rparr> ''%4'' 6 =
     transform_loop flaky_env ''percent'' \<lparr>pr_buf = ''%42'', pr_off = 6, pr_err = None\<rparr> ''%41'' 7"
    by (subst transform_loop.simps) (simp add: flaky_step, (simp add: eval_nat_numeral)?)
  have 4: "transform_loop flaky_env ''percent'' \<lparr>pr_buf = ''%42'', pr_off = 6, pr_err = None\<rparr> ''%41'' 7 =
     transform_loop flaky_env ''percent'' \<lparr>pr_buf = [], pr_off = 6, pr_err = None\<rparr> ''%41B'' 8"
    by (subst transform_loop.simps) (simp add: flaky_step, (simp add: eval_nat_numeral)?)
  have 5: "fst (transform_loop flaky_env ''percent'' \<lparr>pr_buf = [], pr_off = 6, pr_err = None\<rparr> ''%41B'' 8) = Inr ''%41B''"
    by (subst transform_loop.simps) (simp add: flaky_step, (simp add: eval_nat_numeral)?)
  show ?thesis using 1 2 3 4 5 by simp
qed

end
