(* ===== verification/EngineStream.thy ===== *)
theory EngineStream
  imports EngineCorrect StreamCache DecoderStreamCorrect
begin

text \<open>
  The scan of a replayable chunk (\<^verbatim>\<open>src/pkg/engine/engine.go\<close>: \<^verbatim>\<open>scanChunkLeafReader\<close> and what it calls with
  \<^verbatim>\<open>stream = true\<close>). The source is walked variant by variant and window by window; findings are kept in a batch
  whose secrets are located by the stream match cache before they are handed to the sink. The clock of the stream
  environment is the cache's \<open>sm_tick\<close>; it starts at the number of polls of the scan, and the context of the
  scan is that of the stream environment. \<^const>\<open>None\<close> is a run-time panic.
\<close>

section \<open>State and environment\<close>

text \<open>A detector that implements \<^verbatim>\<open>ReaderDetector\<close> is called with the reader and its size and reports when it is done.\<close>

type_synonym reader_detector = "bool \<Rightarrow> variant_reader \<Rightarrow> nat \<Rightarrow> nat \<Rightarrow> outcome \<times> nat"

record leaf_env =
  le_scan :: scan_env
  le_decode :: decode_env
  le_reader :: "nat \<Rightarrow> reader_detector option"

record streamFindingBatch =
  fb_findings :: "Finding list"
  fb_resolveFailed :: bool
  fb_observationErr :: "stream_err option"

record leaf_state =
  lf_scan :: scan_state
  lf_match :: streamMatchCache
  lf_batch :: streamFindingBatch

definition empty_batch :: streamFindingBatch where
  "empty_batch = \<lparr>fb_findings = [], fb_resolveFailed = False, fb_observationErr = None\<rparr>"

abbreviation le_stream :: "leaf_env \<Rightarrow> stream_env" where
  "le_stream env \<equiv> dv_stream (le_decode env)"

definition lf_poll :: "leaf_env \<Rightarrow> leaf_state \<Rightarrow> bool \<times> leaf_state" where
  "lf_poll env ls = (let t = sm_tick (lf_match ls) in (sv_cancelled (le_stream env) t, ls\<lparr>lf_match := (lf_match ls)\<lparr>sm_tick := t + 1\<rparr>\<rparr>))"

text \<open>The message of an error; two errors of reading are the same error when their messages are.\<close>

definition stream_message :: "stream_err \<Rightarrow> string" where
  "stream_message e = (case e of SCancelled \<Rightarrow> ''context canceled'' | SRead m \<Rightarrow> m | SUnexpectedEOF \<Rightarrow> ''unexpected EOF'')"

definition record_source :: "leaf_env \<Rightarrow> Chunk \<Rightarrow> goerr \<Rightarrow> leaf_state \<Rightarrow> leaf_state option" where
  "record_source env c err ls = do {
     log \<leftarrow> recordFailure (env_classifier (le_scan env))
             (ScanFailure FailureSource (archiveFailureSource (env_sha_hex (le_scan env)) (Some c)) 0 (Some err)) (ss_log (lf_scan ls));
     Some (ls\<lparr>lf_scan := (lf_scan ls)\<lparr>ss_log := log\<rparr>\<rparr>)
   }"

text \<open>A failure is recorded unless the context is cancelled.\<close>

definition record_unless_cancelled :: "leaf_env \<Rightarrow> Chunk \<Rightarrow> goerr \<Rightarrow> leaf_state \<Rightarrow> leaf_state option" where
  "record_unless_cancelled env c err ls =
     (let (cancelled, ls1) = lf_poll env ls in if cancelled then Some ls1 else record_source env c err ls1)"

section \<open>The batch\<close>

definition append_finding :: "Finding \<Rightarrow> leaf_state \<Rightarrow> leaf_state" where
  "append_finding f ls = ls\<lparr>lf_batch := (lf_batch ls)\<lparr>fb_findings := fb_findings (lf_batch ls) @ [f]\<rparr>\<rparr>"

text \<open>A finding with the line and the span of its secret, as far as the cache knows them.\<close>

definition located_by :: "streamMatchCache \<Rightarrow> Finding \<Rightarrow> Finding" where
  "located_by cache f =
     (let raw = Raw (Result_of f) in
      case lookup raw cache of
        None \<Rightarrow> f
      | Some m \<Rightarrow>
        if \<not> sm_found m then f
        else
          let f1 = (if hasSourceLine (Chunk_of f)
                    then let base = (if sourceLine (Chunk_of f) \<le> 0 then 1 else sourceLine (Chunk_of f)) in
                         f\<lparr>Chunk_of := chunkForFinding (Chunk_of f) (base + sm_newlineCount m) True\<rparr>
                    else f) in
          if sm_offset m \<le> 2 ^ 63 - 1 - int (length raw)
          then f1\<lparr>RawSpan := Some (sm_offset m, sm_offset m + int (length raw))\<rparr> else f1)"

definition resolve_batch :: "leaf_env \<Rightarrow> Chunk \<Rightarrow> leaf_state \<Rightarrow> (stream_err option \<times> leaf_state) option" where
  "resolve_batch env c ls =
     (if fb_resolveFailed (lf_batch ls) then Some (None, ls)
      else
        case resolve (le_stream env) (map (\<lambda>f. Raw (Result_of f)) (fb_findings (lf_batch ls))) (map rawHint (fb_findings (lf_batch ls))) (lf_match ls) of
          (Inr _, cache) \<Rightarrow> Some (None, ls\<lparr>lf_match := cache\<rparr>)
        | (Inl err, cache) \<Rightarrow> do {
            ls1 \<leftarrow> record_unless_cancelled env c (ErrLeaf (stream_message err))
                     (ls\<lparr>lf_match := cache, lf_batch := (lf_batch ls)\<lparr>fb_resolveFailed := True\<rparr>\<rparr>);
            Some (Some err, ls1)
          })"

definition flush_batch :: "leaf_env \<Rightarrow> Chunk \<Rightarrow> leaf_state \<Rightarrow> leaf_state option" where
  "flush_batch env c ls =
     (if fb_findings (lf_batch ls) = [] then Some ls
      else
        let observationErr = fb_observationErr (lf_batch ls); ls0 = ls\<lparr>lf_batch := (lf_batch ls)\<lparr>fb_observationErr := None\<rparr>\<rparr> in do {
          (resolveErr, ls1) \<leftarrow> resolve_batch env c ls0;
          ls2 \<leftarrow> (case observationErr of
                    None \<Rightarrow> Some ls1
                  | Some oe \<Rightarrow>
                    (let (cancelled, ls2) = lf_poll env ls1 in
                     if \<not> cancelled \<and> resolveErr \<noteq> Some oe then record_source env c (ErrLeaf (stream_message oe)) ls2 else Some ls2));
          Some (ls2\<lparr>lf_scan := (lf_scan ls2)\<lparr>ss_emitted := ss_emitted (lf_scan ls2) @ map (located_by (lf_match ls2)) (fb_findings (lf_batch ls2))\<rparr>,
                    lf_batch := (lf_batch ls2)\<lparr>fb_findings := []\<rparr>\<rparr>)
        })"

section \<open>Emission\<close>

text \<open>Where a window lies in the raw variant; \<open>wb_ok\<close> is false for decoded variants.\<close>

record streamWindowBase =
  wb_offset :: nat
  wb_newlines :: nat
  wb_ok :: bool

definition no_base :: streamWindowBase where
  "no_base = \<lparr>wb_offset = 0, wb_newlines = 0, wb_ok = False\<rparr>"

definition window_hint :: "bytes \<Rightarrow> streamWindowBase \<Rightarrow> bytes \<Rightarrow> streamMatchCache \<Rightarrow> streamRawHint" where
  "window_hint window base raw cache =
     (if sm_active cache \<and> \<not> (length raw \<le> streamBatchMaxRaw \<and> prefixListFull raw cache)
      then case bytes_index window raw of
             None \<Rightarrow> no_hint
           | Some idx \<Rightarrow> \<lparr>hint_offset = int (wb_offset base) + int idx,
                          hint_newlines = int (wb_newlines base) + int (bytes_count_newlines (take idx window)), hint_ok = True\<rparr>
      else no_hint)"

definition observe_result :: "leaf_env \<Rightarrow> Chunk \<Rightarrow> bytes \<Rightarrow> streamWindowBase \<Rightarrow> bytes \<Rightarrow> leaf_state \<Rightarrow> (streamRawHint \<times> leaf_state) option" where
  "observe_result env c window base raw ls =
     (if \<not> wb_ok base \<or> raw = [] then Some (no_hint, ls)
      else
        case observeRawCandidate (le_stream env) window (wb_offset base) raw (lf_match ls) of
          (Inr _, cache) \<Rightarrow> Some (window_hint window base raw cache, ls\<lparr>lf_match := cache\<rparr>)
        | (Inl err, cache) \<Rightarrow>
          (let (cancelled, ls1) = lf_poll env (ls\<lparr>lf_match := cache\<rparr>) in
           if \<not> cancelled \<and> fb_observationErr (lf_batch ls1) = None
           then Some (no_hint, ls1\<lparr>lf_batch := (lf_batch ls1)\<lparr>fb_observationErr := Some err\<rparr>\<rparr>)
           else map_option (Pair no_hint) (record_unless_cancelled env c (ErrLeaf (stream_message err)) ls1)))"

definition emitStreamResult ::
  "leaf_env \<Rightarrow> Engine \<Rightarrow> Chunk \<Rightarrow> string \<Rightarrow> string \<Rightarrow> nat \<Rightarrow> bytes \<Rightarrow> streamWindowBase \<Rightarrow> Result \<Rightarrow> leaf_state \<Rightarrow> leaf_state option" where
  "emitStreamResult env e c source archivePath di window base result ls = do {
     d \<leftarrow> geti (eng_dets e) di;
     (hint, ls1) \<leftarrow> observe_result env c window base (Raw result) ls;
     let r = finalize_result (det_Type d) (det_Policy d) source archivePath result;
     let ls2 = ls1\<lparr>lf_scan := (lf_scan ls1)\<lparr>ss_findings := ss_findings (lf_scan ls1) + 1\<rparr>\<rparr>;
     ls3 \<leftarrow> (if streamFindingBatchLimit \<le> length (fb_findings (lf_batch ls2)) then flush_batch env c ls2 else Some ls2);
     f \<leftarrow> finding_of e di r (chunkForFinding (Some c) (sourceLine (Some c)) True) None;
     Some (append_finding (f\<lparr>rawHint := hint\<rparr>) ls3)
   }"

section \<open>Running a detector\<close>

definition record_detector :: "leaf_env \<Rightarrow> Chunk \<Rightarrow> DetectorType \<Rightarrow> string \<Rightarrow> leaf_state \<Rightarrow> leaf_state option" where
  "record_detector env c dtype msg ls = do {
     log \<leftarrow> recordFailure (env_classifier (le_scan env))
             (ScanFailure FailureDetector (archiveFailureSource (env_sha_hex (le_scan env)) (Some c)) dtype (Some (ErrLeaf msg))) (ss_log (lf_scan ls));
     Some (ls\<lparr>lf_scan := (lf_scan ls)\<lparr>ss_log := log\<rparr>\<rparr>)
   }"

definition runDetectorOnAt ::
  "leaf_env \<Rightarrow> Engine \<Rightarrow> Chunk \<Rightarrow> string \<Rightarrow> string \<Rightarrow> nat \<Rightarrow> bytes \<Rightarrow> bytes \<Rightarrow> streamWindowBase \<Rightarrow> leaf_state \<Rightarrow> leaf_state option" where
  "runDetectorOnAt env e c source archivePath di data window base ls = do {
     slot \<leftarrow> slot_of e di;
     let st = lf_scan ls;
     ((results, err), cache, stats) \<leftarrow>
       fromData (env_sha (le_scan env)) (eng_opts e) slot data (ss_cache st) (ss_cache st) None (ss_stats st);
     let ls1 = ls\<lparr>lf_scan := st\<lparr>ss_cache := cache, ss_stats := stats\<rparr>\<rparr>;
     (case err of
        Some msg \<Rightarrow>
          (let (cancelled, ls2) = lf_poll env ls1 in if cancelled then Some ls2 else record_detector env c (ds_Type slot) msg ls2)
      | None \<Rightarrow> foldM (emitStreamResult env e c source archivePath di window base) results ls1)
   }"

fun groups_loop :: "leaf_env \<Rightarrow> (nat \<times> vicinitySpan list \<Rightarrow> leaf_state \<Rightarrow> leaf_state option) \<Rightarrow> (nat \<times> vicinitySpan list) list \<Rightarrow> leaf_state \<Rightarrow> leaf_state option" where
  "groups_loop env body [] ls = Some ls"
| "groups_loop env body (g # gs) ls =
     (let (cancelled, ls1) = lf_poll env ls in
      if cancelled then Some ls1 else do { ls2 \<leftarrow> body g ls1; groups_loop env body gs ls2 })"

definition dispatchAt ::
  "leaf_env \<Rightarrow> Engine \<Rightarrow> Chunk \<Rightarrow> string \<Rightarrow> bytes \<Rightarrow> string \<Rightarrow> streamWindowBase \<Rightarrow> leaf_state \<Rightarrow> leaf_state option" where
  "dispatchAt env e c source window archivePath base ls = do {
     groups \<leftarrow> dispatch_groups e window;
     groups_loop env (\<lambda>(di, spans). foldM (\<lambda>(a, b). runDetectorOnAt env e c source archivePath di (slice a b window) window base) spans) groups ls
   }"

section \<open>Windows and whole variants\<close>

text \<open>A read of \<open>n\<close> bytes from the reader of a variant, at the clock of the state; \<^verbatim>\<open>io.EOF\<close> is accepted with a full buffer.\<close>

definition lf_read :: "variant_reader \<Rightarrow> nat \<Rightarrow> nat \<Rightarrow> leaf_state \<Rightarrow> (bytes \<times> stream_err option) \<times> leaf_state" where
  "lf_read rd off n ls =
     (let ((p, err), t1) = rd (sm_tick (lf_match ls)) off n in
      ((p, case err of
             None \<Rightarrow> None
           | Some VEOF \<Rightarrow> if length p = n then None else Some (SRead ''EOF'')
           | Some (VErr e) \<Rightarrow> Some e), ls\<lparr>lf_match := (lf_match ls)\<lparr>sm_tick := t1\<rparr>\<rparr>))"

definition window_message :: "string \<Rightarrow> nat \<Rightarrow> string \<Rightarrow> string" where
  "window_message source start m = ''read '' @ sourceName source @ '' variant at '' @ itoa (int start) @ '': '' @ m"

text \<open>\<^verbatim>\<open>windowBuf\<close> has \<^const>\<open>maxWindowSize\<close> bytes, so it is never too small. The result is the error the loop returns.\<close>

function reader_windows ::
  "leaf_env \<Rightarrow> Engine \<Rightarrow> Chunk \<Rightarrow> string \<Rightarrow> variant_reader \<Rightarrow> nat \<Rightarrow> string \<Rightarrow> nat \<Rightarrow> nat \<Rightarrow> leaf_state \<Rightarrow> (stream_err option \<times> leaf_state) option" where
  "reader_windows env e c source rd sz archivePath start linesBefore ls =
     (if start < sz then
        let (cancelled, ls1) = lf_poll env ls in
        if cancelled then Some (Some SCancelled, ls1)
        else
          let n = min maxWindowSize (sz - start); ((window, err), ls2) = lf_read rd start n ls1 in
          case err of
            Some er \<Rightarrow> Some (Some (SRead (window_message source start (stream_message er))), ls2)
          | None \<Rightarrow>
            if length window \<noteq> n
            then Some (Some (SRead (window_message source start (''got '' @ itoa (int (length window)) @ '' bytes, want '' @ itoa (int n)))), ls2)
            else do {
              let ls3 = (if sm_active (lf_match ls2) \<and> source = [] then ls2\<lparr>lf_match := observeRawWindow source window start (lf_match ls2)\<rparr> else ls2);
              ls4 \<leftarrow> dispatchAt env e c source window archivePath \<lparr>wb_offset = start, wb_newlines = linesBefore, wb_ok = (source = [])\<rparr> ls3;
              (if start + n = sz then Some (None, ls4)
               else reader_windows env e c source rd sz archivePath (start + windowStepSize)
                      (linesBefore + bytes_count_newlines (take (min windowStepSize (length window)) window)) ls4)
            }
      else Some (None, ls))"
  by pat_completeness auto
termination
  by (relation "measure (\<lambda>(env, e, c, source, rd, sz, archivePath, start, linesBefore, ls). sz - start)") (auto simp: windowStepSize_def maxWindowSize_def windowOverlap_def)

declare reader_windows.simps [simp del]

definition scanVariantWindowsReader ::
  "leaf_env \<Rightarrow> Engine \<Rightarrow> Chunk \<Rightarrow> string \<Rightarrow> variant_reader \<Rightarrow> nat \<Rightarrow> string \<Rightarrow> leaf_state \<Rightarrow> (stream_err option \<times> leaf_state) option" where
  "scanVariantWindowsReader env e c source rd sz archivePath ls =
     (if sz = 0 then Some (None, ls) else reader_windows env e c source rd sz archivePath 0 0 ls)"

definition readReaderAt :: "leaf_env \<Rightarrow> variant_reader \<Rightarrow> nat \<Rightarrow> leaf_state \<Rightarrow> (stream_err + bytes) \<times> leaf_state" where
  "readReaderAt env rd sz ls =
     (let (cancelled, ls1) = lf_poll env ls in
      if cancelled then (Inl SCancelled, ls1)
      else if 2 ^ 63 \<le> sz then (Inl (SRead ''engine: replayable body exceeds addressable memory''), ls1)
      else if sz = 0 then (Inr [], ls1)
      else case lf_read rd 0 sz ls1 of
        ((p, Some er), ls2) \<Rightarrow> (Inl er, ls2)
      | ((p, None), ls2) \<Rightarrow> if length p \<noteq> sz then (Inl SUnexpectedEOF, ls2) else (Inr p, ls2))"

definition readerDetectorVerify :: "Engine \<Rightarrow> nat \<Rightarrow> bool option" where
  "readerDetectorVerify e di =
     (let minimum = MinimumVerificationAssurance (eng_opts e) in
      if \<not> NoVerify (eng_opts e) \<and> minimum \<noteq> AssuranceUnknown
      then map_option (\<lambda>a. minimum \<le> a) (geti (eng_assurance e) di) else Some (\<not> NoVerify (eng_opts e)))"

text \<open>A whole-chunk detector that reads the variant itself. The first component tells whether the loop over the detectors goes on.\<close>

definition run_reader_detector ::
  "leaf_env \<Rightarrow> Engine \<Rightarrow> Chunk \<Rightarrow> string \<Rightarrow> variant_reader \<Rightarrow> nat \<Rightarrow> string \<Rightarrow> nat \<Rightarrow> reader_detector \<Rightarrow> leaf_state \<Rightarrow>
     (stream_err option \<times> leaf_state) option" where
  "run_reader_detector env e c source rd sz archivePath di detect ls = do {
     d \<leftarrow> geti (eng_dets e) di;
     verify \<leftarrow> readerDetectorVerify e di;
     backed \<leftarrow> geti (eng_isVerifier e) di;
     let ((results, err), t1) = detect verify rd sz (sm_tick (lf_match ls));
     let st = lf_scan ls;
     let stats = ss_stats st;
     let stats1 = (if verify \<and> backed
                   then stats\<lparr>verificationCacheBypasses := verificationCacheBypasses stats + 1, verifiedDetectorCalls := verifiedDetectorCalls stats + 1\<rparr>
                   else stats);
     let ls1 = ls\<lparr>lf_scan := st\<lparr>ss_stats := stats1\<rparr>, lf_match := (lf_match ls)\<lparr>sm_tick := t1\<rparr>\<rparr>;
     (case err of
        None \<Rightarrow> map_option (Pair None) (foldM (emitStreamResult env e c source archivePath di [] no_base) results ls1)
      | Some msg \<Rightarrow>
        (let (cancelled, ls2) = lf_poll env ls1 in
         if cancelled then Some (Some SCancelled, ls2)
         else map_option (Pair None) (record_detector env c (det_Type d) msg ls2)))
   }"

text \<open>Any other whole-chunk detector gets the variant as a slice.\<close>

definition run_whole_detector ::
  "leaf_env \<Rightarrow> Engine \<Rightarrow> Chunk \<Rightarrow> string \<Rightarrow> variant_reader \<Rightarrow> nat \<Rightarrow> string \<Rightarrow> nat \<Rightarrow> leaf_state \<Rightarrow> (stream_err option \<times> leaf_state) option" where
  "run_whole_detector env e c source rd sz archivePath di ls =
     (case readReaderAt env rd sz ls of
        (Inl er, ls1) \<Rightarrow> Some (Some er, ls1)
      | (Inr data, ls1) \<Rightarrow> map_option (Pair None) (runDetectorOnAt env e c source archivePath di data [] no_base ls1))"

fun full_reader_loop ::
  "leaf_env \<Rightarrow> Engine \<Rightarrow> Chunk \<Rightarrow> string \<Rightarrow> variant_reader \<Rightarrow> nat \<Rightarrow> string \<Rightarrow> nat list \<Rightarrow> leaf_state \<Rightarrow> (stream_err option \<times> leaf_state) option" where
  "full_reader_loop env e c source rd sz archivePath [] ls = Some (None, ls)"
| "full_reader_loop env e c source rd sz archivePath (di # dis) ls =
     (let (cancelled, ls1) = lf_poll env ls in
      if cancelled then Some (Some SCancelled, ls1)
      else do {
        (err, ls2) \<leftarrow> (case le_reader env di of
                         Some detect \<Rightarrow> run_reader_detector env e c source rd sz archivePath di detect ls1
                       | None \<Rightarrow> run_whole_detector env e c source rd sz archivePath di ls1);
        (case err of Some er \<Rightarrow> Some (Some er, ls2) | None \<Rightarrow> full_reader_loop env e c source rd sz archivePath dis ls2)
      })"

definition runFullChunkReaderDetectors ::
  "leaf_env \<Rightarrow> Engine \<Rightarrow> Chunk \<Rightarrow> string \<Rightarrow> variant_reader \<Rightarrow> nat \<Rightarrow> string \<Rightarrow> leaf_state \<Rightarrow> (stream_err option \<times> leaf_state) option" where
  "runFullChunkReaderDetectors env e c source rd sz archivePath ls =
     full_reader_loop env e c source rd sz archivePath (filter (\<lambda>di. eng_wantsFull e ! di) [0..<length (eng_dets e)]) ls"

section \<open>The leaf\<close>

text \<open>What the walk's callback does with one variant; the batch is flushed on every way out.\<close>

definition scan_reader_variant ::
  "leaf_env \<Rightarrow> Engine \<Rightarrow> Chunk \<Rightarrow> string \<Rightarrow> string \<Rightarrow> variant_reader \<Rightarrow> nat \<Rightarrow> leaf_state \<Rightarrow> (stream_err option \<times> leaf_state) option" where
  "scan_reader_variant env e c archivePath source rd sz ls = do {
     let (cancelled, ls1) = lf_poll env (ls\<lparr>lf_batch := empty_batch\<rparr>);
     (err, ls2) \<leftarrow>
       (if cancelled then Some (Some SCancelled, ls1)
        else do {
          (err, ls2) \<leftarrow> runFullChunkReaderDetectors env e c source rd sz archivePath ls1;
          (case err of Some er \<Rightarrow> Some (Some er, ls2) | None \<Rightarrow> scanVariantWindowsReader env e c source rd sz archivePath ls2)
        });
     ls3 \<leftarrow> flush_batch env c ls2;
     Some (err, ls3)
   }"

text \<open>As a visitor of the walk, whose state is lost when the scan panics: the panic unwinds through the walk.\<close>

definition leaf_visitor :: "leaf_env \<Rightarrow> Engine \<Rightarrow> Chunk \<Rightarrow> string \<Rightarrow> leaf_state option visitor" where
  "leaf_visitor env e c archivePath source rd sz = (\<lambda>(s, t).
     case do { ls \<leftarrow> s; scan_reader_variant env e c archivePath source rd sz (ls\<lparr>lf_match := (lf_match ls)\<lparr>sm_tick := t\<rparr>\<rparr>) } of
       None \<Rightarrow> (Some (SRead ''panic''), None, t)
     | Some (err, ls1) \<Rightarrow> (err, Some ls1, sm_tick (lf_match ls1)))"

definition scanChunkLeafReader :: "leaf_env \<Rightarrow> Engine \<Rightarrow> Chunk \<Rightarrow> string \<Rightarrow> scan_state \<Rightarrow> scan_state option" where
  "scanChunkLeafReader env e c archivePath st =
     (let st1 = st\<lparr>ss_chunks := ss_chunks st + 1, ss_bytes := ss_bytes st + int (sv_size (le_stream env))\<rparr> in
      if eng_prefilter e = None then Some st1
      else do {
        let ls = \<lparr>lf_scan = st1, lf_match = newStreamMatchCache, lf_batch = empty_batch\<rparr>;
        let (errs, s, t) = WalkVariants (le_decode env) (leaf_visitor env e c archivePath) (Some ls, ss_polls st1);
        ls1 \<leftarrow> s;
        let ls2 = ls1\<lparr>lf_match := (lf_match ls1)\<lparr>sm_tick := t\<rparr>\<rparr>;
        ls3 \<leftarrow> (if errs = [] then Some ls2
                else record_unless_cancelled env c (ErrJoin (map (\<lambda>er. ErrLeaf (stream_message er)) errs)) ls2);
        Some ((lf_scan ls3)\<lparr>ss_polls := sm_tick (lf_match ls3)\<rparr>)
      })"

end
