(* ===== verification/DecoderSize.thy ===== *)
theory DecoderSize
  imports DecoderEscapes
begin

text \<open>
  Decoding does not blow up: no variant of a chunk is longer than twice the chunk.
\<close>

section \<open>Runs and their pieces\<close>

definition weight :: "bytes list \<Rightarrow> nat" where
  "weight ds = sum_list (map (\<lambda>d. length d + 1) ds)"

lemma weight_simps [simp]: "weight [] = 0" "weight (d # ds) = length d + 1 + weight ds" "weight (ds @ es) = weight ds + weight es"
  by (simp_all add: weight_def)

lemma join_weight: "length (join_byte b ds) \<le> weight ds"
  by (induction b ds rule: join_byte.induct) simp_all

lemma joined_weight: "joined ds = Some v \<Longrightarrow> length v \<le> weight ds"
  using join_weight by (auto simp: joined_def split: if_splits)

lemma filter_weight: "weight (filter P ds) \<le> weight ds"
  by (induction ds) simp_all

lemma pieces_weight:
  assumes "\<And>r d. f r = Some d \<Longrightarrow> length d \<le> length (g r)"
  shows "weight (concat (map (\<lambda>r. case f r of None \<Rightarrow> [] | Some d \<Rightarrow> [d]) rs)) \<le> weight (map g rs)"
proof (induction rs)
  case (Cons r rs)
  then show ?case using assms [of r] by (auto split: option.splits)
qed simp

lemma hex_runs_weight: "weight (hex_runs cur cs) \<le> 2 * ((case cur of None \<Rightarrow> 0 | Some r \<Rightarrow> length r) + length cs)"
proof (induction cur cs rule: hex_runs.induct)
  case (2 cur c cs)
  then show ?case by (cases "isHexByte c") (auto simp: flush_hex_def minHexRun_def split: option.splits)
qed (auto simp: flush_hex_def minHexRun_def split: option.splits)

lemma flush_base64_weight: "weight (map fst (flush_base64 cur al rest)) \<le> 2 * (case cur of None \<Rightarrow> 0 | Some r \<Rightarrow> length r)"
  by (auto simp: flush_base64_def minBase64Run_def split: option.splits)

lemma base64_runs_weight: "weight (map fst (base64_runs cur al cs)) \<le> 2 * ((case cur of None \<Rightarrow> 0 | Some r \<Rightarrow> length r) + length cs)"
proof (induction cur al cs rule: base64_runs.induct)
  case (2 cur al c cs)
  then show ?case using flush_base64_weight [of cur al "c # cs"] by (cases "isBase64Byte c") (auto split: option.splits)
qed (use flush_base64_weight in auto)

lemma base64_piece: "decodeBase64Into run al = Some d \<Longrightarrow> length d \<le> length run"
proof -
  assume "decodeBase64Into run al = Some d"
  then have "length d \<le> base64DecodedLen run" by (rule decoded_fits)
  also have "\<dots> \<le> length run"
    by (auto simp: base64DecodedLen_def b64_DecodedLen_def StdEncoding_def RawStdEncoding_def URLEncoding_def RawURLEncoding_def Let_def)
  finally show ?thesis .
qed

lemma base64_size: "joined (base64_pieces (walkBase64RunsMeta data)) = Some v \<Longrightarrow> length v \<le> 2 * length data"
proof -
  assume v: "joined (base64_pieces (walkBase64RunsMeta data)) = Some v"
  have "length v \<le> weight (base64_pieces (walkBase64RunsMeta data))" using joined_weight [OF v] .
  also have "\<dots> \<le> weight (concat (map (\<lambda>(r, al). case decodeBase64Into r al of None \<Rightarrow> [] | Some d \<Rightarrow> [d]) (walkBase64RunsMeta data)))"
    unfolding base64_pieces_def by (rule filter_weight)
  also have "\<dots> \<le> weight (map fst (walkBase64RunsMeta data))"
    using pieces_weight [of "\<lambda>p. decodeBase64Into (fst p) (snd p)" fst "walkBase64RunsMeta data"] base64_piece
    by (auto simp: case_prod_beta cong: map_cong)
  also have "\<dots> \<le> 2 * length data" using base64_runs_weight [of None 0 data] by (simp add: walkBase64RunsMeta_def)
  finally show ?thesis .
qed

lemma hex_size: "joined (hex_pieces (walkHexRuns data)) = Some v \<Longrightarrow> length v \<le> 2 * length data"
proof -
  assume v: "joined (hex_pieces (walkHexRuns data)) = Some v"
  have "length v \<le> weight (hex_pieces (walkHexRuns data))" using joined_weight [OF v] .
  also have "\<dots> \<le> weight (concat (map (\<lambda>r. case hex_Decode r of None \<Rightarrow> [] | Some d \<Rightarrow> [d]) (walkHexRuns data)))"
    unfolding hex_pieces_def by (rule filter_weight)
  also have "\<dots> \<le> weight (map (\<lambda>r. r) (walkHexRuns data))"
    by (rule pieces_weight) (use hex_Decode_bytes in fastforce)
  also have "\<dots> \<le> 2 * length data" using hex_runs_weight [of None data] by (simp add: walkHexRuns_def)
  finally show ?thesis .
qed

section \<open>Escapes and UTF-16\<close>

lemma percent_size: "length (fst (percent_loop data)) \<le> length data"
  by (induction data rule: percent_loop.induct) (auto simp del: percent_loop.simps simp: percent_loop.simps(1) percent_loop.simps(2))

lemma unicode_size: "length (fst (unicode_loop data)) \<le> length data"
proof (induction data rule: unicode_loop.induct)
  case (2 c cs)
  show ?case
  proof (cases "5 \<le> length cs \<and> c = CHR 0x5C \<and> cs ! 0 = CHR ''u''")
    case False
    then show ?thesis using "2.IH"(4) [OF False] False by auto
  next
    case True
    show ?thesis
    proof (cases "parseHex4 (slice 1 5 cs)")
      case None
      then show ?thesis using "2.IH"(1) True by auto
    next
      case (Some hi)
      have "snd (escape_rune hi cs) = 6 \<or> snd (escape_rune hi cs) = 12 \<and> 11 \<le> length cs" by (auto simp: escape_rune_def split: option.splits)
      then have "length (encode_rune (fst (escape_rune hi cs))) + length (drop (snd (escape_rune hi cs) - 1) cs) \<le> length (c # cs)"
        using encode_length_le_4 [of "fst (escape_rune hi cs)"] True by auto
      then show ?thesis using "2.IH"(3) [OF True Some] True Some by simp
    qed
  qed
qed simp

lemma utf16_size: "length (utf16_loop le data) \<le> 2 * length data"
proof (induction le data rule: utf16_loop.induct)
  case (1 le a b rest)
  obtain r rest' where u: "utf16_unit le (u16 le a b) rest = (r, rest')" by fastforce
  have "length rest' \<le> length rest" using utf16_unit_length [of le "u16 le a b" rest] u by simp
  moreover have "length (utf16_loop le rest') \<le> 2 * length rest'" using "1.IH" [OF u [symmetric]] by (cases "r = 0xFEFF") auto
  ultimately show ?case using u encode_length_le_4 [of r] by simp
qed simp_all

lemma tryUTF16_size: "tryUTF16 data = Some (Some (src, v)) \<Longrightarrow> length v \<le> 2 * length data"
proof -
  assume "tryUTF16 data = Some (Some (src, v))"
  then obtain le where "decodeUTF16 data le = Some v" by (auto simp: tryUTF16_def split: if_splits option.splits prod.splits Option.bind_splits)
  then obtain data2 where "v = utf16_loop le data2" "length data2 \<le> length data" by (auto simp: decodeUTF16_def Let_def split: if_splits)
  then show ?thesis using utf16_size [of le data2] by simp
qed

section \<open>All variants\<close>

lemma Variants_length:
  assumes "Variants junk data = Some vs" "v \<in> set vs"
  shows "length (var_Data v) \<le> 2 * length data"
proof -
  obtain utf16 where u: "tryUTF16 data = Some utf16" and vs: "Variants junk data = Some ([\<lparr>var_Source = [], var_Data = data\<rparr>]
       @ variant_of ''base64'' (joined (base64_pieces (walkBase64RunsMeta data)))
       @ (if hasPercentEscapePair data then variant_of ''percent'' (decodePercentCandidate data) else [])
       @ variant_of ''hex'' (joined (hex_pieces (walkHexRuns data)))
       @ (case utf16 of None \<Rightarrow> [] | Some (src, v) \<Rightarrow> [\<lparr>var_Source = src, var_Data = v\<rparr>])
       @ (if hasUnicodeEscapePair data then variant_of ''unicode-escape'' (decodeUnicodeEscape data) else []))"
    using Variants_parts .
  have "length w \<le> 2 * length data" if "decodePercentCandidate data = Some w \<or> decodeUnicodeEscape data = Some w" for w
    using that percent_size [of data] unicode_size [of data]
    by (auto simp: decodePercentCandidate_def decodeUnicodeEscape_def split: prod.splits if_splits)
  then have escapes: "v \<in> set (if hasPercentEscapePair data then variant_of ''percent'' (decodePercentCandidate data) else []) \<Longrightarrow> ?thesis"
    "v \<in> set (if hasUnicodeEscapePair data then variant_of ''unicode-escape'' (decodeUnicodeEscape data) else []) \<Longrightarrow> ?thesis"
    by (auto simp: variant_of_def split: if_splits option.splits)
  have runs: "v \<in> set (variant_of ''base64'' (joined (base64_pieces (walkBase64RunsMeta data)))) \<Longrightarrow> ?thesis"
    "v \<in> set (variant_of ''hex'' (joined (hex_pieces (walkHexRuns data)))) \<Longrightarrow> ?thesis"
    using base64_size [of data] hex_size [of data] by (auto simp: variant_of_def split: option.splits)
  have wide: "v \<in> set (case utf16 of None \<Rightarrow> [] | Some (src, v) \<Rightarrow> [\<lparr>var_Source = src, var_Data = v\<rparr>]) \<Longrightarrow> ?thesis"
    using u tryUTF16_size [of data] by (auto split: option.splits)
  have raw: "v \<in> set [\<lparr>var_Source = [], var_Data = data\<rparr>] \<Longrightarrow> ?thesis" by simp
  from assms(2) have "v \<in> set [\<lparr>var_Source = [], var_Data = data\<rparr>] \<or>
      v \<in> set (variant_of ''base64'' (joined (base64_pieces (walkBase64RunsMeta data)))) \<or>
      v \<in> set (if hasPercentEscapePair data then variant_of ''percent'' (decodePercentCandidate data) else []) \<or>
      v \<in> set (variant_of ''hex'' (joined (hex_pieces (walkHexRuns data)))) \<or>
      v \<in> set (case utf16 of None \<Rightarrow> [] | Some (src, v) \<Rightarrow> [\<lparr>var_Source = src, var_Data = v\<rparr>]) \<or>
      v \<in> set (if hasUnicodeEscapePair data then variant_of ''unicode-escape'' (decodeUnicodeEscape data) else [])"
    using assms(1) unfolding vs option.inject by (auto simp only: set_append Un_iff)
  then show ?thesis using raw escapes runs wide by blast
qed

text \<open>C25. Decoding does not blow up: every variant of a chunk, raw or decoded, is at most twice as long as the chunk.\<close>

theorem Variants_size:
  assumes "Variants junk data = Some vs" "v \<in> set vs"
  shows "length (var_Data v) \<le> 2 * length data"
  using assms by (rule Variants_length)

theorem Variants_size_witness:
  "\<exists>vs. Variants id ''k=%41%42'' = Some vs \<and> (\<forall>v \<in> set vs. length (var_Data v) \<le> 16)"
proof -
  obtain vs where vs: "Variants id ''k=%41%42'' = Some vs" using Variants_parts [of "''k=%41%42''" id] by metis
  have "length ''k=%41%42'' = 8" by simp
  then show ?thesis using vs Variants_size [OF vs] by fastforce
qed

end
