(* ===== verification/EngineStreamCorrect.thy ===== *)
theory EngineStreamCorrect
  imports EngineStream DecoderSize
begin

text \<open>
  A replayable chunk is scanned as if it were in memory. On a reliable source the streamed scan simulates the buffered one step by
  step: after each step the findings already handed to the sink and those waiting in the batch are the buffered scan's
  findings so far. When a batch is flushed each of its findings gets the line and the span of its secret's first occurrence.
\<close>

section \<open>Findings of the two scans\<close>

definition span_in :: "bytes \<Rightarrow> bytes \<Rightarrow> (int \<times> int) option" where
  "span_in data raw =
     (if raw = [] then None else map_option (\<lambda>i. (int i, int i + int (length raw))) (bytes_index data raw))"

text \<open>The streamed finding \<open>g\<close> for the buffered finding \<open>f\<close>: the same but for the chunk's data and the span.\<close>

definition streamed :: "bytes \<Rightarrow> Finding \<Rightarrow> Finding \<Rightarrow> bool" where
  "streamed data f g \<longleftrightarrow>
     Result_of g = Result_of f \<and> Detector g = Detector f \<and> VerifierBacked g = VerifierBacked f \<and> SuppressedBy g = SuppressedBy f \<and>
     Chunk_of g = map_option (\<lambda>ch. ch\<lparr>Data := []\<rparr>) (Chunk_of f) \<and> RawSpan g = span_in data (Raw (Result_of f))"

text \<open>The waiting finding \<open>p\<close> for the buffered finding \<open>f\<close>.\<close>

definition waiting :: "bytes \<Rightarrow> Chunk \<Rightarrow> Finding \<Rightarrow> Finding \<Rightarrow> bool" where
  "waiting data c f p \<longleftrightarrow>
     Result_of p = Result_of f \<and> Detector p = Detector f \<and> VerifierBacked p = VerifierBacked f \<and> SuppressedBy p = SuppressedBy f \<and>
     Chunk_of p = chunkForFinding (Some c) (sourceLine (Some c)) True \<and> RawSpan p = None \<and>
     Chunk_of f = chunkWithMatchLine (Some (c\<lparr>Data := data\<rparr>)) (Raw (Result_of f))"

text \<open>A chunk without diff-backed line locations.\<close>

definition plain_source :: "Chunk \<Rightarrow> bool" where
  "plain_source c \<longleftrightarrow> (case md_Stdin (SourceMetadata c) of None \<Rightarrow> True | Some s \<Rightarrow> stdin_Locations s = Map.empty)"

lemma line_of_data [simp]: "hasSourceLine (Some (c\<lparr>Data := d\<rparr>)) = hasSourceLine (Some c)"
  "sourceLine (Some (c\<lparr>Data := d\<rparr>)) = sourceLine (Some c)"
  by (simp_all add: hasSourceLine_def sourceLine_def)

lemma metadata_same_line: "metadata_with_line (metadata_line md) md = md"
  by (auto simp: metadata_with_line_def metadata_line_def)

lemma metadata_line_idem: "metadata_with_line a (metadata_with_line b md) = metadata_with_line a md"
  by (auto simp: metadata_with_line_def)

lemma own_line: "chunkForFinding (Some c) (sourceLine (Some c)) True = Some (c\<lparr>Data := []\<rparr>)"
  by (simp add: chunkForFinding_def setChunkLine_def sourceLine_def metadata_same_line)

lemma located_streamed:
  assumes "waiting data c f p" "plain_source c" "length data < 2 ^ 63"
    and "Raw (Result_of p) \<noteq> [] \<Longrightarrow> lookup (Raw (Result_of p)) cache = Some (first_match data (Raw (Result_of p)))"
  shows "streamed data f (located_by cache p)"
proof -
  let ?raw = "Raw (Result_of f)" and ?c = "c\<lparr>Data := []\<rparr>"
  have p: "Chunk_of p = Some ?c" "RawSpan p = None" "Raw (Result_of p) = ?raw"
    and f: "Chunk_of f = chunkWithMatchLine (Some (c\<lparr>Data := data\<rparr>)) ?raw"
    using assms(1) by (simp_all add: waiting_def own_line)
  have plain: "chunkWithMatchLine (Some (c\<lparr>Data := data\<rparr>)) ?raw =
      (let line = computeLineFromMatch data ?raw (metadata_line (SourceMetadata c)) in
       if hasSourceLine (Some c) \<and> 0 < line then Some (c\<lparr>Data := data, SourceMetadata := metadata_with_line line (SourceMetadata c)\<rparr>)
       else Some (c\<lparr>Data := data\<rparr>))"
    using assms(2) by (auto simp: chunkWithMatchLine_def plain_source_def Let_def hasSourceLine_def split: option.splits)
  show ?thesis
  proof (cases "?raw = []")
    case True
    then have "located_by cache p = p" using p(3) by (simp add: located_by_def lookup_def)
    moreover have "computeLineFromMatch data ?raw l = 0" for l using True by (simp add: computeLineFromMatch_def)
    ultimately show ?thesis using assms(1) p f plain True by (simp add: streamed_def waiting_def span_in_def Let_def)
  next
    case False
    then have look: "lookup ?raw cache = Some (first_match data ?raw)" using assms(4) p(3) by simp
    show ?thesis
    proof (cases "bytes_index data ?raw")
      case None
      then have "located_by cache p = p" using look p(3) by (simp add: located_by_def first_match_def absent_match_def)
      moreover have "computeLineFromMatch data ?raw l = 0" for l using None by (simp add: computeLineFromMatch_def)
      ultimately show ?thesis using assms(1) p f plain None by (simp add: streamed_def waiting_def span_in_def Let_def)
    next
      case (Some i)
      let ?n = "int (bytes_count_newlines (take i data))" and ?b = "metadata_line (SourceMetadata c)"
      have m: "first_match data ?raw = \<lparr>sm_offset = int i, sm_newlineCount = ?n, sm_found = True\<rparr>"
        using Some by (simp add: first_match_def)
      have "occurs_at data ?raw i" using Some by (simp add: bytes_index_Some)
      then have "i + length ?raw < 2 ^ 63" using occurs_le assms(3) by fastforce
      then have fits: "int i \<le> 2 ^ 63 - 1 - int (length ?raw)" by simp
      have line: "computeLineFromMatch data ?raw ?b = (if ?b \<le> 0 then 1 else ?b) + ?n"
        using Some False by (simp add: computeLineFromMatch_def)
      have pos: "0 < (if ?b \<le> 0 then 1 else ?b) + ?n" by auto
      have at_line: "chunkForFinding (Some ?c) l True = Some (?c\<lparr>SourceMetadata := metadata_with_line l (SourceMetadata c)\<rparr>)" if "0 < l" for l
        using that by (simp add: chunkForFinding_def setChunkLine_def)
      have "located_by cache p = p\<lparr>RawSpan := Some (int i, int i + int (length ?raw)),
          Chunk_of := (if hasSourceLine (Some c)
            then Some (?c\<lparr>SourceMetadata := metadata_with_line ((if ?b \<le> 0 then 1 else ?b) + ?n) (SourceMetadata c)\<rparr>) else Some ?c)\<rparr>"
        using look m p fits at_line [OF pos] by (auto simp: located_by_def Let_def sourceLine_def)
      then show ?thesis using assms(1) p f plain Some False pos
        by (auto simp: streamed_def waiting_def span_in_def line Let_def)
    qed
  qed
qed

section \<open>The simulation\<close>

definition hint_held :: "bytes \<Rightarrow> streamMatchCache \<Rightarrow> bytes \<Rightarrow> streamRawHint \<Rightarrow> bool" where
  "hint_held data c raw h \<longleftrightarrow>
     (hint_ok h \<longrightarrow> sm_active c \<and> (\<exists>p. hint_offset h = int p \<and> occurs_at data raw p \<and>
        hint_newlines h = int (bytes_count_newlines (take p data)) \<and> p < sm_through c))"

lemma hint_held_good: "hint_held data c raw h \<Longrightarrow> hint_good data c raw h"
  by (auto simp: hint_held_def hint_good_def)

lemma hint_held_mono:
  "hint_held data c raw h \<Longrightarrow> (sm_active c \<Longrightarrow> sm_active c' \<and> sm_through c \<le> sm_through c') \<Longrightarrow> hint_held data c' raw h"
  unfolding hint_held_def by (meson order_less_le_trans)

lemma no_hint_held [simp]: "hint_held data c raw no_hint"
  by (simp add: hint_held_def no_hint_def)

text \<open>\<open>b\<close> bounds the observed part of the source from below, once observation has begun.\<close>

definition cache_sim :: "bytes \<Rightarrow> nat \<Rightarrow> streamMatchCache \<Rightarrow> bool" where
  "cache_sim data b c \<longleftrightarrow> cache_ok data c \<and> phase_ok c \<and> (sm_active c \<longrightarrow> b \<le> sm_through c)"

definition batch_sim :: "bytes \<Rightarrow> Chunk \<Rightarrow> streamMatchCache \<Rightarrow> Finding list \<Rightarrow> streamFindingBatch \<Rightarrow> bool" where
  "batch_sim data c m hs batch \<longleftrightarrow>
     \<not> fb_resolveFailed batch \<and> fb_observationErr batch = None \<and> list_all2 (waiting data c) hs (fb_findings batch) \<and>
     (\<forall>f \<in> set (fb_findings batch). hint_held data m (Raw (Result_of f)) (rawHint f))"

definition accounts :: "scan_state \<Rightarrow> scan_state" where
  "accounts st = st\<lparr>ss_polls := 0, ss_emitted := []\<rparr>"

text \<open>\<open>em\<close> is what had been emitted before both scans.\<close>

definition sim :: "bytes \<Rightarrow> Chunk \<Rightarrow> Finding list \<Rightarrow> nat \<Rightarrow> scan_state \<Rightarrow> leaf_state \<Rightarrow> bool" where
  "sim data c em b st ls \<longleftrightarrow>
     cache_sim data b (lf_match ls) \<and> accounts (lf_scan ls) = accounts st \<and>
     (\<exists>fs gs hs. ss_emitted st = em @ fs @ hs \<and> ss_emitted (lf_scan ls) = em @ gs \<and> list_all2 (streamed data) fs gs \<and>
        batch_sim data c (lf_match ls) hs (lf_batch ls))"

lemma accounts_eq:
  "accounts st = accounts st' \<longleftrightarrow> ss_cache st = ss_cache st' \<and> ss_stats st = ss_stats st' \<and> ss_chunks st = ss_chunks st' \<and>
     ss_bytes st = ss_bytes st' \<and> ss_findings st = ss_findings st' \<and> ss_log st = ss_log st'"
  by (cases st; cases st') (auto simp: accounts_def)

definition mirrors :: "(scan_state \<Rightarrow> leaf_state \<Rightarrow> bool) \<Rightarrow> scan_state option \<Rightarrow> leaf_state option \<Rightarrow> bool" where
  "mirrors P r s \<longleftrightarrow> (case r of None \<Rightarrow> s = None | Some st \<Rightarrow> \<exists>ls. s = Some ls \<and> P st ls)"

definition simulates :: "(scan_state \<Rightarrow> leaf_state \<Rightarrow> bool) \<Rightarrow> (scan_state \<Rightarrow> scan_state option) \<Rightarrow> (leaf_state \<Rightarrow> leaf_state option) \<Rightarrow> bool" where
  "simulates P f g \<longleftrightarrow> (\<forall>st ls. P st ls \<longrightarrow> mirrors P (f st) (g ls))"

lemma mirrors_Some [simp]: "mirrors P (Some st) s \<longleftrightarrow> (\<exists>ls. s = Some ls \<and> P st ls)"
  by (simp add: mirrors_def)

lemma mirrors_None [simp]: "mirrors P None s \<longleftrightarrow> s = None"
  by (simp add: mirrors_def)

lemma simulatesD: "simulates P f g \<Longrightarrow> P st ls \<Longrightarrow> mirrors P (f st) (g ls)"
  by (simp add: simulates_def)

lemma simulates_foldM:
  assumes "\<And>x. x \<in> set xs \<Longrightarrow> simulates P (f x) (g x)"
  shows "simulates P (foldM f xs) (foldM g xs)"
  unfolding simulates_def
proof (intro allI impI)
  fix st ls assume "P st ls"
  then show "mirrors P (foldM f xs st) (foldM g xs ls)" using assms
  proof (induction xs arbitrary: st ls)
    case (Cons x xs)
    have "mirrors P (f x st) (g x ls)" using Cons.prems simulatesD by (metis list.set_intros(1))
    then show ?case using Cons by (cases "f x st") auto
  qed simp
qed

lemma observation_frame: "later data c c' \<Longrightarrow> sm_active c' = sm_active c \<and> sm_through c' = sm_through c"
  by (simp add: later_def observation_def)

lemma cache_sim_tick [simp]: "cache_sim data b (c\<lparr>sm_tick := t\<rparr>) = cache_sim data b c"
  by (simp add: cache_sim_def phase_ok_def)

lemma hint_held_tick [simp]: "hint_held data (c\<lparr>sm_tick := t\<rparr>) raw h = hint_held data c raw h"
  by (simp add: hint_held_def)

lemma batch_sim_tick [simp]: "batch_sim data c (m\<lparr>sm_tick := t\<rparr>) hs batch = batch_sim data c m hs batch"
  by (simp add: batch_sim_def)

lemma sim_tick [simp]: "sim data c em b st (ls\<lparr>lf_match := (lf_match ls)\<lparr>sm_tick := t\<rparr>\<rparr>) = sim data c em b st ls"
  by (simp add: sim_def)

lemma sim_poll [simp]: "sim data c em b (st\<lparr>ss_polls := n\<rparr>) ls = sim data c em b st ls"
  by (simp add: sim_def accounts_def)

lemma sim_weaken: "sim data c em b st ls \<Longrightarrow> b' \<le> b \<Longrightarrow> sim data c em b' st ls"
  by (auto simp: sim_def cache_sim_def)

text \<open>The setting of the whole section: a reliable source, an uncancelled buffered scan.\<close>

definition setting :: "leaf_env \<Rightarrow> bytes \<Rightarrow> Chunk \<Rightarrow> bool" where
  "setting env data c \<longleftrightarrow> decode_reliable (le_decode env) data \<and> length data < 2 ^ 48 \<and> env_cancel (le_scan env) = None \<and> plain_source c"

lemma setting_stream: "setting env data c \<Longrightarrow> truthful (le_stream env) data \<and> reliable (le_stream env) data"
  by (simp add: setting_def decode_reliable_def)

lemma poll_alive [simp]: "setting env data c \<Longrightarrow> lf_poll env ls = (False, ls\<lparr>lf_match := (lf_match ls)\<lparr>sm_tick := sm_tick (lf_match ls) + 1\<rparr>\<rparr>)"
  by (simp add: lf_poll_def Let_def setting_def decode_reliable_def reliable_def)

lemma ctx_alive [simp]: "setting env data c \<Longrightarrow> ctx_Err (le_scan env) st = (False, st\<lparr>ss_polls := Suc (ss_polls st)\<rparr>)"
  by (simp add: ctx_Err_def setting_def)

lemma failure_source_data [simp]: "archiveFailureSource h (Some (c\<lparr>Data := d\<rparr>)) = archiveFailureSource h (Some c)"
  by (simp add: archiveFailureSource_def archiveRootName_def Let_def)

section \<open>The batch\<close>

lemma flush_sim:
  assumes "setting env data c" "sim data c em b st ls"
  shows "\<exists>ls'. flush_batch env c ls = Some ls' \<and> sim data c em b st ls' \<and> fb_findings (lf_batch ls') = [] \<and>
    sm_active (lf_match ls') = sm_active (lf_match ls) \<and> sm_through (lf_match ls') = sm_through (lf_match ls)"
proof (cases "fb_findings (lf_batch ls) = []")
  case True
  then show ?thesis using assms(2) by (simp add: flush_batch_def)
next
  case False
  let ?ps = "fb_findings (lf_batch ls)"
  let ?raws = "map (\<lambda>f. Raw (Result_of f)) ?ps" and ?hints = "map rawHint ?ps"
  obtain fs gs hs where s: "ss_emitted st = em @ fs @ hs" "ss_emitted (lf_scan ls) = em @ gs" "list_all2 (streamed data) fs gs"
    "batch_sim data c (lf_match ls) hs (lf_batch ls)" using assms(2) unfolding sim_def by blast
  have env: "truthful (le_stream env) data" "reliable (le_stream env) data" using setting_stream [OF assms(1)] by simp_all
  have ok: "cache_ok data (lf_match ls)" "phase_ok (lf_match ls)" using assms(2) by (simp_all add: sim_def cache_sim_def)
  have hints: "hint_good data (lf_match ls) (?raws ! i) (?hints ! i)" if "i < length ?raws" "i < length ?hints" for i
    using s(4) that nth_mem [of i ?ps] by (auto simp: batch_sim_def intro: hint_held_good)
  obtain r m where r: "resolve (le_stream env) ?raws ?hints (lf_match ls) = (r, m)" by fastforce
  have fine: "fine (le_stream env) data (lf_match ls) (r, m) (\<lambda>_ c'. \<forall>raw \<in> set ?raws. raw \<noteq> [] \<longrightarrow> sm_values c' raw \<noteq> None)"
    using resolve_fine [OF env(1), where raws = ?raws and hints = ?hints and c = "lf_match ls"] hints r by simp
  then obtain u where ru: "r = Inr u" and later: "later data (lf_match ls) m" and found: "\<forall>raw \<in> set ?raws. raw \<noteq> [] \<longrightarrow> sm_values m raw \<noteq> None"
    using ok(1) env(2) by (auto simp: fine_def split: sum.splits)
  have m: "cache_ok data m" "phase_ok m" using later_ok [OF later] later_phase [OF later ok(2)] by simp_all
  have known: "lookup raw m = Some (first_match data raw)" if raw: "raw \<in> set ?raws" "raw \<noteq> []" for raw
  proof -
    obtain v where v: "sm_values m raw = Some v" using bspec [OF found raw(1)] raw(2) by blast
    then have "v = first_match data raw" using m(1) unfolding cache_ok_def values_ok_def by blast
    then show ?thesis using v raw(2) by (simp add: lookup_def)
  qed
  have "list_all2 (streamed data) hs (map (located_by m) ?ps)"
    unfolding list_all2_conv_all_nth
  proof (intro conjI allI impI)
    show "length hs = length (map (located_by m) ?ps)" using s(4) by (auto simp: batch_sim_def dest: list_all2_lengthD)
    fix i assume i: "i < length hs"
    then have "i < length ?ps" "waiting data c (hs ! i) (?ps ! i)"
      using s(4) by (auto simp: batch_sim_def list_all2_conv_all_nth)
    note i = this
    have "streamed data (hs ! i) (located_by m (?ps ! i))"
    proof (rule located_streamed [OF i(2)])
      show "plain_source c" "length data < 2 ^ 63" using assms(1) by (simp_all add: setting_def)
      show "Raw (Result_of (?ps ! i)) \<noteq> [] \<Longrightarrow> lookup (Raw (Result_of (?ps ! i))) m = Some (first_match data (Raw (Result_of (?ps ! i))))"
        by (rule known) (use i(1) in simp_all)
    qed
    then show "streamed data (hs ! i) (map (located_by m) ?ps ! i)" using i(1) by simp
  qed
  then have all: "list_all2 (streamed data) (fs @ hs) (gs @ map (located_by m) ?ps)" using s(3) by (rule list_all2_appendI [rotated])
  define ls' where "ls' = ls\<lparr>lf_match := m, lf_batch := (lf_batch ls)\<lparr>fb_observationErr := None, fb_findings := []\<rparr>,
      lf_scan := (lf_scan ls)\<lparr>ss_emitted := ss_emitted (lf_scan ls) @ map (located_by m) ?ps\<rparr>\<rparr>"
  have "flush_batch env c ls = Some ls'"
    using False s(4) r ru by (simp add: flush_batch_def resolve_batch_def batch_sim_def ls'_def Let_def)
  moreover have "sim data c em b st ls'" unfolding sim_def
  proof (intro conjI exI)
    show "cache_sim data b (lf_match ls')"
      using assms(2) m observation_frame [OF later] by (simp add: ls'_def sim_def cache_sim_def)
    show "accounts (lf_scan ls') = accounts st" using assms(2) by (simp add: ls'_def sim_def accounts_eq)
    show "ss_emitted st = em @ (fs @ hs) @ []" using s(1) by simp
    show "ss_emitted (lf_scan ls') = em @ (gs @ map (located_by m) ?ps)" using s(2) by (simp add: ls'_def)
    show "list_all2 (streamed data) (fs @ hs) (gs @ map (located_by m) ?ps)" by (rule all)
    show "batch_sim data c (lf_match ls') [] (lf_batch ls')" using s(4) by (simp add: batch_sim_def ls'_def)
  qed
  ultimately show ?thesis using observation_frame [OF later] by (simp add: ls'_def)
qed

section \<open>Emission and detector runs\<close>

text \<open>A window of the raw variant, observed up to \<open>b\<close> once observation is active; a decoded window is not observed.\<close>

definition window_at :: "bytes \<Rightarrow> nat \<Rightarrow> bytes \<Rightarrow> streamWindowBase \<Rightarrow> bool" where
  "window_at data b window base \<longleftrightarrow>
     (wb_ok base \<longrightarrow> block_of data (wb_offset base) window \<and> window \<noteq> [] \<and> b = wb_offset base + length window \<and>
        wb_newlines base = bytes_count_newlines (take (wb_offset base) data))"

lemma window_grows: "sm_through c \<le> sm_through (observeRawWindow [] w start c)"
  by (auto simp: observeRawWindow_def Let_def fold_observe_frame)

lemma candidate_grows:
  assumes "observeRawCandidate env w start raw c = (r, c')" "sm_active c"
  shows "sm_active c' \<and> sm_through c \<le> sm_through c'"
proof (cases "raw = [] \<or> sm_disabled c")
  case False
  then have "c' = observeRawWindow [] w start c" using assms by (simp add: observeRawCandidate_def)
  then show ?thesis using assms(2) window_grows by simp
qed (use assms in \<open>auto simp: observeRawCandidate_def\<close>)

lemma observe_sim:
  assumes "setting env data c" "window_at data b window base" "sim data c em b st ls"
  shows "\<exists>h ls'. observe_result env c window base raw ls = Some (h, ls') \<and> sim data c em b st ls' \<and> lf_batch ls' = lf_batch ls \<and>
    hint_held data (lf_match ls') raw h"
proof (cases "wb_ok base \<and> raw \<noteq> []")
  case False
  then show ?thesis using assms(3) by (auto simp: observe_result_def)
next
  case True
  let ?c = "lf_match ls"
  have w: "block_of data (wb_offset base) window" "window \<noteq> []" "b = wb_offset base + length window"
    "wb_newlines base = bytes_count_newlines (take (wb_offset base) data)" using assms(2) True by (simp_all add: window_at_def)
  have c: "cache_ok data ?c" "phase_ok ?c" "sm_active ?c \<longrightarrow> b \<le> sm_through ?c" using assms(3) by (simp_all add: sim_def cache_sim_def)
  have env: "truthful (le_stream env) data" "reliable (le_stream env) data" using setting_stream [OF assms(1)] by simp_all
  obtain r m where r: "observeRawCandidate (le_stream env) window (wb_offset base) raw ?c = (r, m)" by fastforce
  have "0 < length window" using w(2) by simp
  then have "sm_active ?c \<longrightarrow> wb_offset base = 0 \<or> wb_offset base < sm_through ?c" using c(3) w(3) by linarith
  note cand = candidate_ok [OF env(1) c(1,2) w(1) this w(2) r]
  then have ok: "r = Inr ()" "cache_ok data m" "phase_ok m" using env(2) by simp_all
  have grows: "sm_active ?c \<Longrightarrow> sm_active m \<and> sm_through ?c \<le> sm_through m" using candidate_grows [OF r] .
  have through: "b \<le> sm_through m" if "sm_active m"
  proof (cases "sm_disabled ?c")
    case True
    then have "m = ?c" using r by (simp add: observeRawCandidate_def)
    then show ?thesis using that c(3) by simp
  next
    case False
    then show ?thesis using cand that True w(3) by simp
  qed
  let ?ls = "ls\<lparr>lf_match := m\<rparr>"
  have "hint_held data m raw (window_hint window base raw m)"
  proof (cases "sm_active m \<and> \<not> (length raw \<le> streamBatchMaxRaw \<and> prefixListFull raw m)")
    case True
    show ?thesis
    proof (cases "bytes_index window raw")
      case None
      then show ?thesis using True by (simp add: window_hint_def)
    next
      case (Some i)
      have "sm_active m \<longrightarrow> wb_offset base + length window \<le> sm_through m" using through w(3) by simp
      then have "hint_good data m raw (window_hint window base raw m)"
        using window_hint_good [OF w(1) Some _ _ ok(3)] True \<open>wb_ok base \<and> raw \<noteq> []\<close> Some w(4) by (simp add: window_hint_def)
      then show ?thesis using True ok(3) by (auto simp: hint_held_def hint_good_def phase_ok_def)
    qed
  qed (auto simp: window_hint_def)
  moreover have "observe_result env c window base raw ls = Some (window_hint window base raw m, ?ls)"
    using True r ok(1) by (simp add: observe_result_def)
  moreover have "sim data c em b st ?ls"
  proof -
    have "cache_sim data b m" using ok through by (simp add: cache_sim_def)
    moreover have "batch_sim data c m hs (lf_batch ls)" if "batch_sim data c ?c hs (lf_batch ls)" for hs
      using that hint_held_mono [OF _ grows] unfolding batch_sim_def by blast
    ultimately show ?thesis using assms(3) unfolding sim_def by fastforce
  qed
  ultimately show ?thesis by fastforce
qed

lemma finalize_raw: "Raw (finalize_result t p source archivePath r) = Raw r"
  using finalize_safe [of t p source archivePath r] by (simp add: Let_def)

lemma no_located: "plain_source c \<Longrightarrow> located_findings (c\<lparr>Data := d\<rparr>) r = []"
  by (auto simp: located_findings_def plain_source_def split: option.splits)

lemma append_sim:
  assumes "sim data c em b st ls" "waiting data c g p" "hint_held data (lf_match ls) (Raw (Result_of p)) (rawHint p)"
  shows "sim data c em b (st\<lparr>ss_emitted := ss_emitted st @ [g]\<rparr>) (append_finding p ls)"
proof -
  obtain fs gs hs where s: "ss_emitted st = em @ fs @ hs" "ss_emitted (lf_scan ls) = em @ gs" "list_all2 (streamed data) fs gs"
    "batch_sim data c (lf_match ls) hs (lf_batch ls)" using assms(1) unfolding sim_def by blast
  have "batch_sim data c (lf_match ls) (hs @ [g]) ((lf_batch ls)\<lparr>fb_findings := fb_findings (lf_batch ls) @ [p]\<rparr>)"
    using s(4) assms(2,3) by (auto simp: batch_sim_def intro: list_all2_appendI)
  moreover have "ss_emitted st @ [g] = em @ fs @ hs @ [g]" using s(1) by simp
  ultimately show ?thesis using assms(1) s(2,3) unfolding sim_def
    by (auto simp: append_finding_def accounts_eq)
qed

lemma emit_simulates:
  assumes "setting env data c" "window_at data b window base"
  shows "simulates (sim data c em b) (emitDetectorResult e (c\<lparr>Data := data\<rparr>) source archivePath di r)
    (emitStreamResult env e c source archivePath di window base r)"
  unfolding simulates_def
proof (intro allI impI)
  fix st ls assume s: "sim data c em b st ls"
  let ?c = "c\<lparr>Data := data\<rparr>"
  obtain h ls1 where o: "observe_result env c window base (Raw r) ls = Some (h, ls1)" "sim data c em b st ls1"
    "hint_held data (lf_match ls1) (Raw r) h" using observe_sim [OF assms s] by metis
  let ?st2 = "st\<lparr>ss_findings := ss_findings st + 1\<rparr>" and ?ls2 = "ls1\<lparr>lf_scan := (lf_scan ls1)\<lparr>ss_findings := ss_findings (lf_scan ls1) + 1\<rparr>\<rparr>"
  have s2: "sim data c em b ?st2 ?ls2" using o(2) unfolding sim_def by (auto simp: accounts_eq)
  define fl where "fl = (if streamFindingBatchLimit \<le> length (fb_findings (lf_batch ?ls2)) then flush_batch env c ?ls2 else Some ?ls2)"
  obtain ls3 where ls3: "fl = Some ls3" "sim data c em b ?st2 ls3" "hint_held data (lf_match ls3) (Raw r) h"
  proof (cases "streamFindingBatchLimit \<le> length (fb_findings (lf_batch ?ls2))")
    case True
    obtain ls3 where f: "flush_batch env c ?ls2 = Some ls3" "sim data c em b ?st2 ls3"
      "sm_active (lf_match ls3) = sm_active (lf_match ?ls2)" "sm_through (lf_match ls3) = sm_through (lf_match ?ls2)"
      using flush_sim [OF assms(1) s2] by blast
    have "hint_held data (lf_match ls3) (Raw r) h" by (rule hint_held_mono [OF o(3)]) (use f(3,4) in simp)
    then show thesis using that [of ls3] f True by (simp add: fl_def)
  next
    case False
    then show thesis using that [of ?ls2] s2 o(3) by (simp add: fl_def)
  qed
  show "mirrors (sim data c em b) (emitDetectorResult e ?c source archivePath di r st) (emitStreamResult env e c source archivePath di window base r ls)"
  proof (cases "di < length (eng_dets e) \<and> di < length (eng_isVerifier e)")
    case False
    then show ?thesis using no_located assms(1) o(1) by (auto simp: emitDetectorResult_def emitStreamResult_def finding_of_def geti_def setting_def Let_def
       split: option.splits prod.splits)
  next
    case True
    let ?d = "eng_dets e ! di"
    let ?r = "finalize_result (det_Type ?d) (det_Policy ?d) source archivePath r"
    obtain g where g: "finding_of e di ?r (chunkWithMatchLine (Some ?c) (Raw ?r)) None = Some g" using True by (simp add: finding_of_def)
    obtain p where p: "finding_of e di ?r (chunkForFinding (Some c) (sourceLine (Some c)) True) None = Some p" using True by (simp add: finding_of_def)
    have "waiting data c g (p\<lparr>rawHint := h\<rparr>)" "Raw (Result_of p) = Raw r"
      using g p True finalize_raw [of "det_Type ?d" "det_Policy ?d" source archivePath r] by (auto simp: finding_of_def waiting_def)
    then have "sim data c em b (?st2\<lparr>ss_emitted := ss_emitted ?st2 @ [g]\<rparr>) (append_finding (p\<lparr>rawHint := h\<rparr>) ls3)"
      using append_sim [OF ls3(2), of g "p\<lparr>rawHint := h\<rparr>"] ls3(3) by simp
    then show ?thesis using True g p o(1) ls3(1) no_located [of c data ?r] assms(1)
      by (simp add: emitDetectorResult_def emitStreamResult_def setting_def fl_def Let_def)
  qed
qed

lemma recordFailure_log: "recordFailure cl f log = r \<Longrightarrow> r = recordFailure cl f log"
  by simp

lemma run_simulates:
  assumes "setting env data c" "window_at data b window base"
  shows "simulates (sim data c em b) (runDetectorOn (le_scan env) e (c\<lparr>Data := data\<rparr>) source archivePath di w)
    (runDetectorOnAt env e c source archivePath di w window base)"
  unfolding simulates_def
proof (intro allI impI)
  fix st ls assume s: "sim data c em b st ls"
  let ?from = "\<lambda>st slot. fromData (env_sha (le_scan env)) (eng_opts e) slot w (ss_cache st) (ss_cache st) None (ss_stats st)"
  have acc: "ss_cache (lf_scan ls) = ss_cache st" "ss_stats (lf_scan ls) = ss_stats st" "ss_log (lf_scan ls) = ss_log st"
    using s by (simp_all add: sim_def accounts_eq)
  show "mirrors (sim data c em b) (runDetectorOn (le_scan env) e (c\<lparr>Data := data\<rparr>) source archivePath di w st)
    (runDetectorOnAt env e c source archivePath di w window base ls)"
  proof (cases "slot_of e di")
    case None
    then show ?thesis by (simp add: runDetectorOn_def runDetectorOnAt_def)
  next
    case slot: (Some slot)
    show ?thesis
    proof (cases "?from st slot")
      case None
      then show ?thesis using slot acc by (simp add: runDetectorOn_def runDetectorOnAt_def Let_def)
    next
      case (Some out)
      then obtain results err cache stats where out: "?from st slot = Some ((results, err), cache, stats)" by (metis prod.exhaust)
      let ?st1 = "st\<lparr>ss_cache := cache, ss_stats := stats\<rparr>" and ?ls1 = "ls\<lparr>lf_scan := (lf_scan ls)\<lparr>ss_cache := cache, ss_stats := stats\<rparr>\<rparr>"
      have s1: "sim data c em b ?st1 ?ls1" using s unfolding sim_def by (auto simp: accounts_eq)
      show ?thesis
      proof (cases err)
        case None
        have "simulates (sim data c em b) (foldM (emitDetectorResult e (c\<lparr>Data := data\<rparr>) source archivePath di) results)
            (foldM (emitStreamResult env e c source archivePath di window base) results)"
          by (rule simulates_foldM) (rule emit_simulates [OF assms])
        from simulatesD [OF this s1] show ?thesis using slot out acc None by (simp add: runDetectorOn_def runDetectorOnAt_def Let_def)
      next
        case (Some msg)
        let ?f = "ScanFailure FailureDetector (archiveFailureSource (env_sha_hex (le_scan env)) (Some c)) (ds_Type slot) (Some (ErrLeaf msg))"
        have "sim data c em b (?st1\<lparr>ss_polls := Suc (ss_polls ?st1), ss_log := log\<rparr>)
            (?ls1\<lparr>lf_match := (lf_match ?ls1)\<lparr>sm_tick := sm_tick (lf_match ?ls1) + 1\<rparr>, lf_scan := (lf_scan ?ls1)\<lparr>ss_log := log\<rparr>\<rparr>)" for log
          using s1 unfolding sim_def by (auto simp: accounts_eq)
        then show ?thesis using slot out acc Some assms(1)
          by (cases "recordFailure (env_classifier (le_scan env)) ?f (ss_log st)")
            (auto simp: runDetectorOn_def runDetectorOnAt_def record_detector_def)
      qed
    qed
  qed
qed

section \<open>Dispatch and windows\<close>

lemma groups_simulates:
  assumes "setting env data c" "\<And>g. g \<in> set gs \<Longrightarrow> simulates (sim data c em b) (f g) (h g)"
  shows "simulates (sim data c em b) (poll_loop (le_scan env) f gs) (groups_loop env h gs)"
  unfolding simulates_def
proof (intro allI impI)
  fix st ls assume "sim data c em b st ls"
  then show "mirrors (sim data c em b) (poll_loop (le_scan env) f gs st) (groups_loop env h gs ls)" using assms(2)
  proof (induction gs arbitrary: st ls)
    case (Cons g gs)
    let ?st1 = "st\<lparr>ss_polls := Suc (ss_polls st)\<rparr>" and ?ls1 = "ls\<lparr>lf_match := (lf_match ls)\<lparr>sm_tick := sm_tick (lf_match ls) + 1\<rparr>\<rparr>"
    have "mirrors (sim data c em b) (f g ?st1) (h g ?ls1)"
      by (rule simulatesD [OF Cons.prems(2)]) (use Cons.prems(1) in simp_all)
    then show ?case using Cons.IH Cons.prems(2) assms(1) by (cases "f g ?st1") auto
  qed simp
qed

lemma dispatch_simulates:
  assumes "setting env data c" "window_at data b window base"
  shows "simulates (sim data c em b) (dispatch (le_scan env) e (c\<lparr>Data := data\<rparr>) source window archivePath)
    (dispatchAt env e c source window archivePath base)"
proof (cases "dispatch_groups e window")
  case None
  then show ?thesis by (simp add: simulates_def dispatch_def dispatchAt_def)
next
  case (Some groups)
  have "simulates (sim data c em b)
      (poll_loop (le_scan env) (\<lambda>(di, spans) st. foldM (\<lambda>(a, b) st. runDetectorOn (le_scan env) e (c\<lparr>Data := data\<rparr>) source archivePath di (slice a b window) st) spans st) groups)
      (groups_loop env (\<lambda>(di, spans). foldM (\<lambda>(a, b). runDetectorOnAt env e c source archivePath di (slice a b window) window base) spans) groups)"
  proof (rule groups_simulates [OF assms(1)])
    fix g :: "nat \<times> (nat \<times> nat) list"
    show "simulates (sim data c em b)
       ((\<lambda>(di, spans) st. foldM (\<lambda>(a, b) st. runDetectorOn (le_scan env) e (c\<lparr>Data := data\<rparr>) source archivePath di (slice a b window) st) spans st) g)
       ((\<lambda>(di, spans). foldM (\<lambda>(a, b). runDetectorOnAt env e c source archivePath di (slice a b window) window base) spans) g)"
    proof (cases g)
      case (Pair di spans)
      have "simulates (sim data c em b)
         (foldM (\<lambda>(a, b). runDetectorOn (le_scan env) e (c\<lparr>Data := data\<rparr>) source archivePath di (slice a b window)) spans)
         (foldM (\<lambda>(a, b). runDetectorOnAt env e c source archivePath di (slice a b window) window base) spans)"
        by (rule simulates_foldM) (auto intro: run_simulates [OF assms] split: prod.splits)
      then show ?thesis using Pair by simp
    qed
  qed
  then show ?thesis using Some by (simp add: simulates_def dispatch_def dispatchAt_def)
qed

text \<open>One turn of the streaming loop.\<close>

lemma window_turn:
  assumes "setting env data c" "serves rd content" "source = [] \<Longrightarrow> content = data" "start < length content"
    and "linesBefore = bytes_count_newlines (take start content)" "n = min maxWindowSize (length content - start)"
    and "sim data c em b st ls" "source = [] \<Longrightarrow> start = 0 \<or> start < b"
  shows "case dispatch (le_scan env) e (c\<lparr>Data := data\<rparr>) source (slice start (start + n) content) archivePath st of
      None \<Rightarrow> reader_windows env e c source rd (length content) archivePath start linesBefore ls = None
    | Some st1 \<Rightarrow> \<exists>ls1. sim data c em (if source = [] then start + n else 0) st1 ls1 \<and>
        reader_windows env e c source rd (length content) archivePath start linesBefore ls =
          (if start + n = length content then Some (None, ls1)
           else reader_windows env e c source rd (length content) archivePath (start + windowStepSize)
                  (bytes_count_newlines (take (start + windowStepSize) content)) ls1)"
proof -
  let ?w = "slice start (start + n) content" and ?b = "if source = [] then start + n else 0"
  let ?base = "\<lparr>wb_offset = start, wb_newlines = linesBefore, wb_ok = (source = [])\<rparr>"
  have n: "0 < n" "start + n \<le> length content" using assms(4,6) by (auto simp: maxWindowSize_def)
  then have len: "length ?w = n" by (simp add: slice_def)
  let ?ls1 = "ls\<lparr>lf_match := (lf_match ls)\<lparr>sm_tick := sm_tick (lf_match ls) + 1\<rparr>\<rparr>"
  obtain t1 where rd: "rd (sm_tick (lf_match ?ls1)) start n = ((?w, None), t1)" using assms(2) n(2) unfolding serves_def by blast
  let ?ls2 = "?ls1\<lparr>lf_match := (lf_match ?ls1)\<lparr>sm_tick := t1\<rparr>\<rparr>"
  have read: "lf_read rd start n ?ls1 = ((?w, None), ?ls2)" using rd by (simp add: lf_read_def)
  have s2: "sim data c em b st ?ls2" using assms(7) by simp
  define ls3 where "ls3 = (if sm_active (lf_match ?ls2) \<and> source = [] then ?ls2\<lparr>lf_match := observeRawWindow source ?w start (lf_match ?ls2)\<rparr> else ?ls2)"
  have "source = [] \<Longrightarrow> block_of data start ?w" using assms(3) n len by (simp add: block_of_def)
  then have base: "window_at data ?b ?w ?base" using assms(3,5) n(1) len by (auto simp: window_at_def)
  have s3: "sim data c em ?b st ls3"
  proof (cases "source = [] \<and> sm_active (lf_match ls)")
    case True
    then have "start = 0 \<or> start < sm_through (lf_match ?ls2)" using assms(7,8) by (auto simp: sim_def cache_sim_def)
    note win = window_ok [OF _ _ _ \<open>source = [] \<Longrightarrow> block_of data start ?w\<close> this]
    let ?m = "observeRawWindow [] ?w start (lf_match ?ls2)"
    have "cache_ok data (lf_match ?ls2)" "phase_ok (lf_match ?ls2)" "sm_active (lf_match ?ls2)"
      using s2 True by (simp_all add: sim_def cache_sim_def)
    from win [OF this] True have "cache_ok data ?m" "phase_ok ?m" "start + n \<le> sm_through ?m" "sm_active ?m" using n(1) len by auto
    then have m: "cache_sim data ?b ?m" using True by (simp add: cache_sim_def)
    have "batch_sim data c ?m hs (lf_batch ls)" if "batch_sim data c (lf_match ?ls2) hs (lf_batch ls)" for hs
      using that hint_held_mono [where c = "lf_match ?ls2" and c' = ?m] window_grows [of "lf_match ?ls2" ?w start] \<open>sm_active ?m\<close>
      unfolding batch_sim_def by blast
    moreover have "ls3 = ?ls2\<lparr>lf_match := ?m\<rparr>" using True by (simp add: ls3_def)
    ultimately show ?thesis using s2 m unfolding sim_def by fastforce
  next
    case False
    then show ?thesis using s2 by (auto simp: ls3_def sim_def cache_sim_def)
  qed
  have "mirrors (sim data c em ?b) (dispatch (le_scan env) e (c\<lparr>Data := data\<rparr>) source ?w archivePath st) (dispatchAt env e c source ?w archivePath ?base ls3)"
    by (rule simulatesD [OF dispatch_simulates [OF assms(1) base] s3])
  moreover have "linesBefore + bytes_count_newlines (take (min windowStepSize (length ?w)) ?w) = bytes_count_newlines (take (start + windowStepSize) content)"
    if "start + n \<noteq> length content"
  proof -
    have "n = maxWindowSize" using that assms(4,6) by (auto simp: min_def split: if_splits)
    then have "take (min windowStepSize (length ?w)) ?w = take windowStepSize (drop start content)"
      using len by (simp add: slice_def windowStepSize_def min_def)
    then show ?thesis using assms(5) by (simp add: newlines_take_add)
  qed
  moreover have "reader_windows env e c source rd (length content) archivePath start linesBefore ls =
      do { ls4 \<leftarrow> dispatchAt env e c source ?w archivePath ?base ls3;
           (if start + n = length content then Some (None, ls4)
            else reader_windows env e c source rd (length content) archivePath (start + windowStepSize)
                   (linesBefore + bytes_count_newlines (take (min windowStepSize (length ?w)) ?w)) ls4) }"
    using assms(1,4) read len by (subst reader_windows.simps) (simp add: ls3_def flip: assms(6))
  ultimately show ?thesis
    by (cases "dispatch (le_scan env) e (c\<lparr>Data := data\<rparr>) source ?w archivePath st") auto
qed

text \<open>A step that may stop the variant with an error, which on a reliable source it does not.\<close>

definition finishes :: "(scan_state \<Rightarrow> leaf_state \<Rightarrow> bool) \<Rightarrow> scan_state option \<Rightarrow> (stream_err option \<times> leaf_state) option \<Rightarrow> bool" where
  "finishes P r s \<longleftrightarrow> (case r of None \<Rightarrow> s = None | Some st \<Rightarrow> \<exists>ls. s = Some (None, ls) \<and> P st ls)"

lemma finishes_simps [simp]:
  "finishes P (Some st) s \<longleftrightarrow> (\<exists>ls. s = Some (None, ls) \<and> P st ls)" "finishes P None s \<longleftrightarrow> s = None"
  by (simp_all add: finishes_def)

lemma mirrors_finishes: "mirrors P r s \<Longrightarrow> finishes P r (map_option (Pair None) s)"
  by (cases r) auto

lemma reader_windows_sim:
  assumes "setting env data c" "serves rd content" "source = [] \<Longrightarrow> content = data"
  shows "start < length content \<Longrightarrow> sim data c em b st ls \<Longrightarrow> (source = [] \<Longrightarrow> start = 0 \<or> start < b) \<Longrightarrow>
    finishes (sim data c em 0)
      (poll_loop (le_scan env) (\<lambda>(s, f) st. dispatch (le_scan env) e (c\<lparr>Data := data\<rparr>) source (slice s f content) archivePath st) (window_loop (length content) start) st)
      (reader_windows env e c source rd (length content) archivePath start (bytes_count_newlines (take start content)) ls)"
proof (induction "length content - start" arbitrary: start b st ls rule: less_induct)
  case less
  let ?n = "min maxWindowSize (length content - start)"
  let ?st = "st\<lparr>ss_polls := Suc (ss_polls st)\<rparr>"
  have fin: "(if length content < start + maxWindowSize then length content else start + maxWindowSize) = start + ?n"
    using less.prems(1) by auto
  have turn: "case dispatch (le_scan env) e (c\<lparr>Data := data\<rparr>) source (slice start (start + ?n) content) archivePath ?st of
      None \<Rightarrow> reader_windows env e c source rd (length content) archivePath start (bytes_count_newlines (take start content)) ls = None
    | Some st1 \<Rightarrow> \<exists>ls1. sim data c em (if source = [] then start + ?n else 0) st1 ls1 \<and>
        reader_windows env e c source rd (length content) archivePath start (bytes_count_newlines (take start content)) ls =
          (if start + ?n = length content then Some (None, ls1)
           else reader_windows env e c source rd (length content) archivePath (start + windowStepSize)
                  (bytes_count_newlines (take (start + windowStepSize) content)) ls1)"
    by (rule window_turn [OF assms less.prems(1) refl refl _ less.prems(3)]) (use less.prems(2) in simp_all)
  have loop: "window_loop (length content) start =
      (start, start + ?n) # (if start + ?n = length content then [] else window_loop (length content) (start + windowStepSize))"
    using less.prems(1) fin by (subst window_loop.simps) (simp add: Let_def)
  show ?case
  proof (cases "dispatch (le_scan env) e (c\<lparr>Data := data\<rparr>) source (slice start (start + ?n) content) archivePath ?st")
    case None
    then show ?thesis using turn loop assms(1) by simp
  next
    case (Some st1)
    then obtain ls1 where ls1: "sim data c em (if source = [] then start + ?n else 0) st1 ls1"
      "reader_windows env e c source rd (length content) archivePath start (bytes_count_newlines (take start content)) ls =
          (if start + ?n = length content then Some (None, ls1)
           else reader_windows env e c source rd (length content) archivePath (start + windowStepSize)
                  (bytes_count_newlines (take (start + windowStepSize) content)) ls1)" using turn by auto
    show ?thesis
    proof (cases "start + ?n = length content")
      case True
      then show ?thesis using loop Some ls1 assms(1) sim_weaken [OF ls1(1)] by simp
    next
      case False
      then have n: "?n = maxWindowSize" "start + maxWindowSize < length content" using less.prems(1) by (auto simp: min_def split: if_splits)
      then have next_lt: "start + windowStepSize < length content" "start + windowStepSize < start + ?n"
        by (simp_all add: windowStepSize_def maxWindowSize_def windowOverlap_def)
      have "finishes (sim data c em 0)
        (poll_loop (le_scan env) (\<lambda>(s, f) st. dispatch (le_scan env) e (c\<lparr>Data := data\<rparr>) source (slice s f content) archivePath st)
           (window_loop (length content) (start + windowStepSize)) st1)
        (reader_windows env e c source rd (length content) archivePath (start + windowStepSize)
           (bytes_count_newlines (take (start + windowStepSize) content)) ls1)"
      proof (rule less.hyps [OF _ next_lt(1) ls1(1)])
        show "length content - (start + windowStepSize) < length content - start"
          using next_lt by (simp add: windowStepSize_def maxWindowSize_def windowOverlap_def)
        show "start + windowStepSize = 0 \<or> start + windowStepSize < (if source = [] then start + ?n else 0)" if "source = []"
          using that next_lt(2) by simp
      qed
      then show ?thesis using loop Some ls1(2) False assms(1) by simp
    qed
  qed
qed

lemma dispatch_empty:
  assumes "engine_ok ul e" "eng_prefilter e \<noteq> None"
  shows "dispatch env e c source [] archivePath st = Some st"
proof -
  obtain patterns where ok: "prefilter_ok ul e patterns" using assms by (auto simp: engine_ok_def)
  obtain m where m: "New patterns = Some m" "VisitHits m [] = Some (reference_hits patterns [])"
    using New_ok [of patterns] VisitHits_of_tables by blast
  then have "eng_prefilter e = Some m" "reference_hits patterns [] = []" using ok by (simp_all add: prefilter_ok_def reference_hits_def)
  then show ?thesis using m(2) by (simp add: dispatch_def dispatch_groups_def lowerCaseInto_map)
qed

lemma scan_windows_sim:
  assumes "setting env data c" "engine_ok ul e" "eng_prefilter e \<noteq> None" "serves rd (var_Data v)" "var_Source v = [] \<Longrightarrow> var_Data v = data"
    and "sim data c em 0 st ls"
  shows "finishes (sim data c em 0) (scanVariantWindows (le_scan env) e (c\<lparr>Data := data\<rparr>) v archivePath st)
    (scanVariantWindowsReader env e c (var_Source v) rd (length (var_Data v)) archivePath ls)"
proof -
  let ?content = "var_Data v"
  consider (empty) "?content = []" | (one) "?content \<noteq> []" "length ?content \<le> maxWindowSize" | (many) "\<not> length ?content \<le> maxWindowSize" by blast
  then show ?thesis
  proof cases
    case empty
    then show ?thesis using dispatch_empty [OF assms(2,3)] assms(6)
      by (simp add: scanVariantWindows_def scanVariantWindowsReader_def Let_def)
  next
    case one
    then have turn: "case dispatch (le_scan env) e (c\<lparr>Data := data\<rparr>) (var_Source v) (slice 0 (0 + length ?content) ?content) archivePath st of
      None \<Rightarrow> reader_windows env e c (var_Source v) rd (length ?content) archivePath 0 0 ls = None
    | Some st1 \<Rightarrow> \<exists>ls1. sim data c em (if var_Source v = [] then 0 + length ?content else 0) st1 ls1 \<and>
        reader_windows env e c (var_Source v) rd (length ?content) archivePath 0 0 ls =
          (if 0 + length ?content = length ?content then Some (None, ls1)
           else reader_windows env e c (var_Source v) rd (length ?content) archivePath (0 + windowStepSize)
                  (bytes_count_newlines (take (0 + windowStepSize) ?content)) ls1)"
      by (intro window_turn [OF assms(1,4,5) _ _ _ assms(6)]) simp_all
    have "scanVariantWindowsReader env e c (var_Source v) rd (length ?content) archivePath ls =
        reader_windows env e c (var_Source v) rd (length ?content) archivePath 0 0 ls"
      using one by (simp add: scanVariantWindowsReader_def)
    then show ?thesis using turn one sim_weaken [where b' = 0]
      by (cases "dispatch (le_scan env) e (c\<lparr>Data := data\<rparr>) (var_Source v) ?content archivePath st")
        (auto simp: scanVariantWindows_def slice_def Let_def)
  next
    case many
    then have "0 < length ?content" by (auto simp: maxWindowSize_def)
    from reader_windows_sim [OF assms(1,4,5) this assms(6), where e = e and archivePath = archivePath] many
    show ?thesis by (auto simp: scanVariantWindows_def scanVariantWindowsReader_def Let_def)
  qed
qed

section \<open>Whole-chunk detectors\<close>

text \<open>A detector that reads the variant itself does not verify, and finds what it finds in the variant's bytes.\<close>

definition readers_agree :: "leaf_env \<Rightarrow> Engine \<Rightarrow> bool" where
  "readers_agree env e \<longleftrightarrow>
     (\<forall>di detect. le_reader env di = Some detect \<and> di < length (eng_dets e) \<longrightarrow>
        (NoVerify (eng_opts e) \<or> \<not> det_Verifier (eng_dets e ! di)) \<and>
        (\<forall>rd content verify t. serves rd content \<longrightarrow>
           (\<exists>t1. \<forall>n. detect verify rd (length content) t =
              (if verify then det_verified (eng_dets e ! di) n content else det_unverified (eng_dets e ! di) content, t1))))"

lemma no_base_at: "window_at data b w no_base"
  by (simp add: window_at_def no_base_def)

lemma readReaderAt_sim:
  assumes "setting env data c" "serves rd content" "length content < 2 ^ 63" "sim data c em b st ls"
  shows "\<exists>ls1. readReaderAt env rd (length content) ls = (Inr content, ls1) \<and> sim data c em b st ls1"
proof (cases "content = []")
  case True
  then show ?thesis using assms(1,4) by (simp add: readReaderAt_def)
next
  case False
  let ?ls = "ls\<lparr>lf_match := (lf_match ls)\<lparr>sm_tick := sm_tick (lf_match ls) + 1\<rparr>\<rparr>"
  obtain t1 where "rd (sm_tick (lf_match ?ls)) 0 (length content) = ((content, None), t1)"
    using assms(2) unfolding serves_def by (metis add_0 order_refl slice_def drop0 diff_zero take_all)
  then show ?thesis using assms(1,3,4) False by (simp add: readReaderAt_def lf_read_def)
qed

lemma run_whole_sim:
  assumes "setting env data c" "serves rd content" "length content < 2 ^ 63" "sim data c em b st ls"
  shows "finishes (sim data c em b) (runDetectorOn (le_scan env) e (c\<lparr>Data := data\<rparr>) source archivePath di content st)
    (run_whole_detector env e c source rd (length content) archivePath di ls)"
proof -
  obtain ls1 where ls1: "readReaderAt env rd (length content) ls = (Inr content, ls1)" "sim data c em b st ls1"
    using readReaderAt_sim [OF assms] by blast
  have "mirrors (sim data c em b) (runDetectorOn (le_scan env) e (c\<lparr>Data := data\<rparr>) source archivePath di content st)
      (runDetectorOnAt env e c source archivePath di content [] no_base ls1)"
    by (rule simulatesD [OF run_simulates [OF assms(1) no_base_at] ls1(2)])
  then show ?thesis using mirrors_finishes ls1(1) by (simp add: run_whole_detector_def)
qed

lemma run_reader_sim:
  assumes "setting env data c" "engine_ok ul e" "readers_agree env e" "serves rd content" "di < length (eng_dets e)"
    and "le_reader env di = Some detect" "sim data c em b st ls"
  shows "finishes (sim data c em b) (runDetectorOn (le_scan env) e (c\<lparr>Data := data\<rparr>) source archivePath di content st)
    (run_reader_detector env e c source rd (length content) archivePath di detect ls)"
proof -
  let ?d = "eng_dets e ! di"
  obtain slot where slot: "slot_of e di = Some slot" "ds_Type slot = det_Type ?d" "ds_unverified slot = det_unverified ?d" "ds_verified slot = det_verified ?d"
    using slot_of_ok [OF assms(2,5)] by blast
  have slot2: "ds_isVerifier slot = det_Verifier ?d" "ds_assurance slot = maxVerificationAssurance (det_Policy ?d)"
    using slot(1) assms(2,5) by (auto simp: slot_of_def engine_ok_def)
  let ?verify = "wants_verify (eng_opts e) slot"
  have v: "readerDetectorVerify e di = Some ?verify"
    using assms(2,5) slot2(2) by (auto simp: readerDetectorVerify_def wants_verify_def engine_ok_def Let_def)
  have "NoVerify (eng_opts e) \<or> \<not> det_Verifier ?d" using assms(3,5,6) unfolding readers_agree_def by blast
  then have off: "\<not> (?verify \<and> det_Verifier ?d)" by (auto simp: wants_verify_def Let_def)
  obtain t1 where det: "detect ?verify rd (length content) (sm_tick (lf_match ls)) =
      (if ?verify then det_verified ?d (verifiedDetectorCalls (ss_stats st)) content else det_unverified ?d content, t1)"
    using assms(3-6) unfolding readers_agree_def by blast
  obtain results err where out: "detector_FromData slot ?verify (verifiedDetectorCalls (ss_stats st)) content = (results, err)" by fastforce
  then have det: "detect ?verify rd (length content) (sm_tick (lf_match ls)) = ((results, err), t1)"
    using det slot(3,4) by (cases ?verify) (simp_all add: detector_FromData_def)
  have from_data: "fromData (env_sha (le_scan env)) (eng_opts e) slot content (ss_cache st) (ss_cache st) None (ss_stats st) = Some ((results, err), ss_cache st, ss_stats st)"
    using off slot2 out by (auto simp: fromData_def Let_def)
  have st: "st\<lparr>ss_cache := ss_cache st, ss_stats := ss_stats st\<rparr> = st" by simp
  have backed: "geti (eng_isVerifier e) di = Some (det_Verifier ?d)" using assms(2,5) by (simp add: engine_ok_def)
  let ?ls1 = "ls\<lparr>lf_match := (lf_match ls)\<lparr>sm_tick := t1\<rparr>\<rparr>"
  have s1: "sim data c em b st ?ls1" using assms(7) by simp
  have run: "run_reader_detector env e c source rd (length content) archivePath di detect ls =
      (case err of
        None \<Rightarrow> map_option (Pair None) (foldM (emitStreamResult env e c source archivePath di [] no_base) results ?ls1)
      | Some msg \<Rightarrow>
        (let (cancelled, ls2) = lf_poll env ?ls1 in
         if cancelled then Some (Some SCancelled, ls2)
         else map_option (Pair None) (record_detector env c (det_Type ?d) msg ls2)))"
    using v det off(1) backed assms(5) by (cases err) (auto simp: run_reader_detector_def Let_def)
  show ?thesis
  proof (cases err)
    case None
    have "simulates (sim data c em b) (foldM (emitDetectorResult e (c\<lparr>Data := data\<rparr>) source archivePath di) results)
        (foldM (emitStreamResult env e c source archivePath di [] no_base) results)"
      by (rule simulates_foldM) (rule emit_simulates [OF assms(1) no_base_at])
    from mirrors_finishes [OF simulatesD [OF this s1]] show ?thesis
      using run None slot(1) from_data by (simp add: runDetectorOn_def)
  next
    case (Some msg)
    let ?f = "ScanFailure FailureDetector (archiveFailureSource (env_sha_hex (le_scan env)) (Some c)) (det_Type ?d) (Some (ErrLeaf msg))"
    have acc: "ss_log (lf_scan ls) = ss_log st" using assms(7) by (simp add: sim_def accounts_eq)
    have "sim data c em b (st\<lparr>ss_polls := Suc (ss_polls st), ss_log := log\<rparr>)
        (?ls1\<lparr>lf_match := (lf_match ?ls1)\<lparr>sm_tick := sm_tick (lf_match ?ls1) + 1\<rparr>, lf_scan := (lf_scan ?ls1)\<lparr>ss_log := log\<rparr>\<rparr>)" for log
      using s1 unfolding sim_def by (auto simp: accounts_eq)
    then show ?thesis using run slot from_data acc Some assms(1)
      by (cases "recordFailure (env_classifier (le_scan env)) ?f (ss_log st)")
        (auto simp: runDetectorOn_def record_detector_def)
  qed
qed

lemma full_reader_sim:
  assumes "setting env data c" "engine_ok ul e" "readers_agree env e" "serves rd content" "length content < 2 ^ 63"
  shows "sim data c em b st ls \<Longrightarrow> set dis \<subseteq> {..<length (eng_dets e)} \<Longrightarrow>
    finishes (sim data c em b) (poll_loop (le_scan env) (\<lambda>di st. runDetectorOn (le_scan env) e (c\<lparr>Data := data\<rparr>) source archivePath di content st) dis st)
      (full_reader_loop env e c source rd (length content) archivePath dis ls)"
proof (induction dis arbitrary: st ls)
  case (Cons di dis)
  let ?st1 = "st\<lparr>ss_polls := Suc (ss_polls st)\<rparr>" and ?ls1 = "ls\<lparr>lf_match := (lf_match ls)\<lparr>sm_tick := Suc (sm_tick (lf_match ls))\<rparr>\<rparr>"
  have s1: "sim data c em b ?st1 ?ls1" using Cons.prems(1) by simp
  have di: "di < length (eng_dets e)" using Cons.prems(2) by simp
  define step where "step = (case le_reader env di of
      Some detect \<Rightarrow> run_reader_detector env e c source rd (length content) archivePath di detect ?ls1
    | None \<Rightarrow> run_whole_detector env e c source rd (length content) archivePath di ?ls1)"
  have one: "finishes (sim data c em b) (runDetectorOn (le_scan env) e (c\<lparr>Data := data\<rparr>) source archivePath di content ?st1) step"
    unfolding step_def
    by (cases "le_reader env di") (use run_whole_sim [OF assms(1,4,5) s1] run_reader_sim [OF assms(1-4) di _ s1] in simp_all)
  have loop: "full_reader_loop env e c source rd (length content) archivePath (di # dis) ls =
      do { (err, ls2) \<leftarrow> step; (case err of Some er \<Rightarrow> Some (Some er, ls2) | None \<Rightarrow> full_reader_loop env e c source rd (length content) archivePath dis ls2) }"
    using assms(1) by (simp add: step_def)
  show ?case
  proof (cases "runDetectorOn (le_scan env) e (c\<lparr>Data := data\<rparr>) source archivePath di content ?st1")
    case None
    then show ?thesis using one loop assms(1) by simp
  next
    case (Some st2)
    then obtain ls2 where ls2: "step = Some (None, ls2)" "sim data c em b st2 ls2" using one by auto
    show ?thesis using Cons.IH [OF ls2(2)] Cons.prems(2) Some ls2(1) loop assms(1) by simp
  qed
qed simp

section \<open>The walk\<close>

lemma variant_sim:
  assumes "setting env data c" "engine_ok ul e" "readers_agree env e" "eng_prefilter e \<noteq> None"
    and "serves rd (var_Data v)" "length (var_Data v) < 2 ^ 63" "var_Source v = [] \<Longrightarrow> var_Data v = data"
    and "sim data c em 0 st ls" "fb_findings (lf_batch ls) = []" "scan_ok st"
  shows "\<exists>st1 ls1. scan_variant (le_scan env) e (c\<lparr>Data := data\<rparr>) archivePath v st = Some st1 \<and> scan_ok st1 \<and>
    scan_reader_variant env e c archivePath (var_Source v) rd (length (var_Data v)) ls = Some (None, ls1) \<and>
    sim data c em 0 st1 ls1 \<and> fb_findings (lf_batch ls1) = []"
proof -
  let ?c = "c\<lparr>Data := data\<rparr>" and ?n = "length (var_Data v)" and ?src = "var_Source v"
  obtain st1 where st1: "runFullChunkDetectors (le_scan env) e ?c v archivePath st = Some st1" "scan_ok st1"
    using total_stepD [OF adding.full_step [OF assms(2)] assms(10)] by blast
  obtain st2 where st2: "scanVariantWindows (le_scan env) e ?c v archivePath st1 = Some st2" "scan_ok st2"
    using total_stepD [OF adding.windows_step [OF assms(2,4)] st1(2)] by blast
  let ?ls0 = "ls\<lparr>lf_batch := empty_batch, lf_match := (lf_match ls)\<lparr>sm_tick := sm_tick (lf_match ls) + 1\<rparr>\<rparr>"
  have "batch_sim data c m hs empty_batch" if "batch_sim data c m hs (lf_batch ls)" for m hs
    using that assms(9) by (auto simp: batch_sim_def empty_batch_def)
  then have s0: "sim data c em 0 st ?ls0" using assms(8) unfolding sim_def by fastforce
  have "set (filter ((!) (eng_wantsFull e)) [0..<length (eng_dets e)]) \<subseteq> {..<length (eng_dets e)}" by auto
  from full_reader_sim [OF assms(1-3,5,6) s0 this, where source = ?src and archivePath = archivePath] st1(1)
  obtain ls1 where ls1: "runFullChunkReaderDetectors env e c ?src rd ?n archivePath ?ls0 = Some (None, ls1)" "sim data c em 0 st1 ls1"
    by (auto simp: runFullChunkDetectors_def runFullChunkReaderDetectors_def)
  from scan_windows_sim [OF assms(1,2,4,5,7) ls1(2), where archivePath = archivePath] st2(1)
  obtain ls2 where ls2: "scanVariantWindowsReader env e c ?src rd ?n archivePath ls1 = Some (None, ls2)" "sim data c em 0 st2 ls2" by auto
  obtain ls3 where ls3: "flush_batch env c ls2 = Some ls3" "sim data c em 0 st2 ls3" "fb_findings (lf_batch ls3) = []"
    using flush_sim [OF assms(1) ls2(2)] by blast
  have "scan_reader_variant env e c archivePath ?src rd ?n ls = Some (None, ls3)"
    using ls1(1) ls2(1) ls3(1) poll_alive [OF assms(1), of "ls\<lparr>lf_batch := empty_batch\<rparr>"] by (simp add: scan_reader_variant_def)
  then show ?thesis using st1(1) st2 ls3(2,3) by (auto simp: scan_variant_def)
qed

lemma visits_sim:
  assumes "setting env data c" "engine_ok ul e" "readers_agree env e" "eng_prefilter e \<noteq> None"
  shows "walked (leaf_visitor env e c archivePath) vs s s' \<Longrightarrow> s = Some ls \<Longrightarrow>
    \<forall>v \<in> set vs. length (var_Data v) < 2 ^ 63 \<and> (var_Source v = [] \<longrightarrow> var_Data v = data) \<Longrightarrow>
    sim data c em 0 st ls \<Longrightarrow> fb_findings (lf_batch ls) = [] \<Longrightarrow> scan_ok st \<Longrightarrow>
    \<exists>st1 ls1. poll_loop (le_scan env) (scan_variant (le_scan env) e (c\<lparr>Data := data\<rparr>) archivePath) vs st = Some st1 \<and> s' = Some ls1 \<and>
      sim data c em 0 st1 ls1 \<and> fb_findings (lf_batch ls1) = []"
proof (induction arbitrary: ls st rule: walked.induct)
  case (walked_Cons rd v s t s1 t1 vs s2)
  let ?st = "st\<lparr>ss_polls := Suc (ss_polls st)\<rparr>" and ?ls = "ls\<lparr>lf_match := (lf_match ls)\<lparr>sm_tick := t\<rparr>\<rparr>"
  have v: "length (var_Data v) < 2 ^ 63" "var_Source v = [] \<Longrightarrow> var_Data v = data" using walked_Cons.prems(2) by simp_all
  have "sim data c em 0 ?st ?ls" "fb_findings (lf_batch ?ls) = []" "scan_ok ?st"
    using walked_Cons.prems(3-5) by (simp_all add: scan_ok_def)
  then obtain st1 ls1 where one: "scan_variant (le_scan env) e (c\<lparr>Data := data\<rparr>) archivePath v ?st = Some st1" "scan_ok st1"
    "scan_reader_variant env e c archivePath (var_Source v) rd (length (var_Data v)) ?ls = Some (None, ls1)"
    "sim data c em 0 st1 ls1" "fb_findings (lf_batch ls1) = []"
    using variant_sim [OF assms walked_Cons.hyps(1) v] by blast
  then have s1: "s1 = Some ls1" using walked_Cons.hyps(2) walked_Cons.prems(1) by (simp add: leaf_visitor_def)
  obtain st2 ls2 where "poll_loop (le_scan env) (scan_variant (le_scan env) e (c\<lparr>Data := data\<rparr>) archivePath) vs st1 = Some st2"
    "s2 = Some ls2" "sim data c em 0 st2 ls2" "fb_findings (lf_batch ls2) = []"
    using walked_Cons.IH [OF s1 _ one(4,5,2)] walked_Cons.prems(2) by auto
  then show ?case using one(1) assms(1) by simp
qed simp

lemma variant_raw:
  assumes "Variants junk data = Some vs" "v \<in> set vs" "var_Source v = []"
  shows "var_Data v = data"
proof -
  have "var_Source v \<noteq> []" if "v \<in> set (concat (map (buffered junk data) decoder_order))"
    using that by (auto simp: decoder_order_def buffered_def variant_of_def tryUTF16_def decodeUTF16_def split: option.splits if_splits prod.splits Option.bind_splits)
  then have "v \<notin> set (concat (map (buffered junk data) decoder_order))" using assms(3) by blast
  moreover have "vs = \<lparr>var_Source = [], var_Data = data\<rparr> # concat (map (buffered junk data) decoder_order)"
    using assms(1) Variants_buffered [of junk data] by simp
  ultimately show ?thesis using assms(2) by (metis Variant.select_convs(2) set_ConsD)
qed

lemma leaf_reader_sim:
  assumes "NewWithDetectors ul dets opts cc = Some e" "decode_reliable (le_decode env) data" "length data < 2 ^ 48"
    and "env_cancel (le_scan env) = None" "plain_source c" "readers_agree env e" "scan_ok st"
  shows "\<exists>st1 st2 fs gs. scanChunkLeaf (le_scan env) e (c\<lparr>Data := data\<rparr>) archivePath st = Some st1 \<and>
    scanChunkLeafReader env e c archivePath st = Some st2 \<and>
    ss_emitted st1 = ss_emitted st @ fs \<and> ss_emitted st2 = ss_emitted st @ gs \<and> list_all2 (streamed data) fs gs \<and>
    accounts st2 = accounts st1"
proof -
  have e: "engine_ok ul e" using engine_ok_new [OF assms(1)] by blast
  have set1: "setting env data c" using assms(2-5) by (simp add: setting_def)
  have sz: "sv_size (le_stream env) = length data" using reliable_size [OF assms(2)] .
  let ?st = "st\<lparr>ss_chunks := ss_chunks st + 1, ss_bytes := ss_bytes st + int (length data)\<rparr>"
  show ?thesis
  proof (cases "eng_prefilter e")
    case None
    then show ?thesis using sz by (simp add: scanChunkLeaf_def scanChunkLeafReader_def Let_def)
  next
    case (Some m)
    then have pre: "eng_prefilter e \<noteq> None" by simp
    obtain vs where vs: "Variants (env_junk (le_scan env)) data = Some vs" using Variants_buffered by blast
    have fit: "\<forall>v \<in> set vs. length (var_Data v) < 2 ^ 63 \<and> (var_Source v = [] \<longrightarrow> var_Data v = data)"
      using assms(3) Variants_length [OF vs] variant_raw [OF vs] by fastforce
    let ?ls = "\<lparr>lf_scan = ?st, lf_match = newStreamMatchCache, lf_batch = empty_batch\<rparr>"
    have "cache_ok data (newStreamMatchCache\<lparr>sm_tick := 0\<rparr>) \<and> phase_ok (newStreamMatchCache\<lparr>sm_tick := 0\<rparr>)"
      using cache_reach_ok [OF cache_reach.fresh] setting_stream [OF set1] by blast
    then have "cache_sim data 0 newStreamMatchCache" by (simp add: cache_sim_def newStreamMatchCache_def)
    then have s0: "sim data c (ss_emitted st) 0 ?st ?ls"
      unfolding sim_def by (intro conjI exI [of _ "[]"]) (simp_all add: batch_sim_def empty_batch_def)
    have ok: "scan_ok ?st" using assms(7) by (simp add: scan_ok_def)
    define I where "I s \<longleftrightarrow> (\<exists>ls st1. s = Some ls \<and> sim data c (ss_emitted st) 0 st1 ls \<and> fb_findings (lf_batch ls) = [] \<and> scan_ok st1)" for s
    have visit: "list_all (visitor_ok (leaf_visitor env e c archivePath) I) vs"
      unfolding list_all_iff visitor_ok_def
    proof (intro ballI allI impI)
      fix v rd s t assume v: "v \<in> set vs" and a: "serves rd (var_Data v) \<and> I s"
      then obtain ls st1 where s: "s = Some ls" "sim data c (ss_emitted st) 0 st1 ls" "fb_findings (lf_batch ls) = []" "scan_ok st1"
        unfolding I_def by blast
      have here: "sim data c (ss_emitted st) 0 st1 (ls\<lparr>lf_match := (lf_match ls)\<lparr>sm_tick := t\<rparr>\<rparr>)" using s(2) by simp
      obtain st2 ls2 where "scan_ok st2" "sim data c (ss_emitted st) 0 st2 ls2" "fb_findings (lf_batch ls2) = []"
        "scan_reader_variant env e c archivePath (var_Source v) rd (length (var_Data v)) (ls\<lparr>lf_match := (lf_match ls)\<lparr>sm_tick := t\<rparr>\<rparr>) = Some (None, ls2)"
        using variant_sim [OF set1 e assms(6) pre conjunct1 [OF a] _ _ here, where archivePath = archivePath] bspec [OF fit v] s(3,4) by auto
      then show "\<exists>s1 t1. leaf_visitor env e c archivePath (var_Source v) rd (length (var_Data v)) (s, t) = (None, s1, t1) \<and> I s1"
        using s(1) by (auto simp: leaf_visitor_def I_def)
    qed
    have "I (Some ?ls)" unfolding I_def using s0 ok by (auto simp: empty_batch_def)
    then obtain s1 t1 where w: "WalkVariants (le_decode env) (leaf_visitor env e c archivePath) (Some ?ls, ss_polls ?st) = ([], s1, t1)"
      "walked (leaf_visitor env e c archivePath) vs (Some ?ls) s1"
      using WalkVariants_walked [OF assms(2,3) vs _ visit] by blast
    have "fb_findings (lf_batch ?ls) = []" by (simp add: empty_batch_def)
    with visits_sim [OF set1 e assms(6) pre w(2) refl fit s0 _ ok] obtain st1 ls1 where
      b: "poll_loop (le_scan env) (scan_variant (le_scan env) e (c\<lparr>Data := data\<rparr>) archivePath) vs ?st = Some st1" and
      l: "s1 = Some ls1" "sim data c (ss_emitted st) 0 st1 ls1" "fb_findings (lf_batch ls1) = []" by blast
    obtain fs gs hs where f: "ss_emitted st1 = ss_emitted st @ fs @ hs" "ss_emitted (lf_scan ls1) = ss_emitted st @ gs"
      "list_all2 (streamed data) fs gs" "batch_sim data c (lf_match ls1) hs (lf_batch ls1)" using l(2) unfolding sim_def by blast
    have hs: "hs = []" using f(4) l(3) by (simp add: batch_sim_def)
    have "accounts (lf_scan ls1) = accounts st1" using l(2) by (simp add: sim_def)
    then have "accounts ((lf_scan ls1)\<lparr>ss_polls := t1\<rparr>) = accounts st1" by (simp add: accounts_eq)
    moreover have "scanChunkLeafReader env e c archivePath st = Some ((lf_scan ls1)\<lparr>ss_polls := t1\<rparr>)"
      using Some w(1) l(1) sz by (simp add: scanChunkLeafReader_def Let_def)
    moreover have "scanChunkLeaf (le_scan env) e (c\<lparr>Data := data\<rparr>) archivePath st = Some st1"
      using Some vs b by (simp add: scanChunkLeaf_def Let_def)
    ultimately show ?thesis using f(1-3) hs by fastforce
  qed
qed

text \<open>C6. Streaming changes nothing but memory: on a reliable source the scan that reads a chunk in blocks, spools its decoded forms and
  locates secrets afterwards hands the sink the same findings in the same order as the scan of the whole chunk in memory -- same result,
  detector, backing, chunk and line; only the chunk's data is left out and the span of the secret's first occurrence in the source is added --
  and leaves the same counters, failure log, verification cache and cache statistics behind. The detectors are arbitrary;
  those that read the variant themselves must find what they find in its bytes, and not verify.\<close>

theorem scanChunkLeafReader_eq_scanChunkLeaf:
  assumes "NewWithDetectors ul dets opts cc = Some e" "decode_reliable (le_decode env) data" "length data < 2 ^ 48"
    and "env_cancel (le_scan env) = None" "plain_source c" "readers_agree env e" "scan_ok st"
  shows "\<exists>st1 st2 fs gs. scanChunkLeaf (le_scan env) e (c\<lparr>Data := data\<rparr>) archivePath st = Some st1 \<and>
    scanChunkLeafReader env e c archivePath st = Some st2 \<and>
    ss_emitted st1 = ss_emitted st @ fs \<and> ss_emitted st2 = ss_emitted st @ gs \<and> list_all2 (streamed data) fs gs \<and>
    accounts st2 = accounts st1"
  by (rule leaf_reader_sim [OF assms])

definition sample_leaf_env :: leaf_env where
  "sample_leaf_env = \<lparr>le_scan = sample_env, le_decode = memory_env ''x AKIA1'', le_reader = (\<lambda>_. None)\<rparr>"

theorem scanChunkLeafReader_eq_scanChunkLeaf_witness:
  "\<exists>e st2. NewWithDetectors id [key_det] offline_opts 0 = Some e \<and>
     scanChunkLeafReader sample_leaf_env e (sample_chunk\<lparr>Data := []\<rparr>) [] sample_state = Some st2 \<and>
     (\<exists>g \<in> set (ss_emitted st2). Raw (Result_of g) = ''AKIA1'' \<and> RawSpan g = Some (2, 7))"
proof -
  let ?c = "sample_chunk\<lparr>Data := []\<rparr>"
  obtain e where e: "NewWithDetectors id [key_det] offline_opts 0 = Some e" "eng_prefilter e \<noteq> None" using sample_scan(4) by blast
  have ok: "engine_ok id e" using engine_ok_new [OF e(1)] by blast
  have det: "key_det \<in> set (eng_dets e)" using new_dets [OF e(1)] by simp
  then obtain di where di: "di < length (eng_dets e)" "eng_dets e ! di = key_det" by (metis in_set_conv_nth)
  have c: "?c\<lparr>Data := ''x AKIA1''\<rparr> = sample_chunk" by (simp add: sample_chunk_def)
  obtain vs where vs: "Variants (env_junk sample_env) (Data sample_chunk) = Some vs" "\<lparr>var_Source = [], var_Data = ''x AKIA1''\<rparr> \<in> set vs"
    by (rule Variants_parts [of "Data sample_chunk" "env_junk sample_env"]) (auto simp: sample_chunk_def)
  obtain st1 where st1: "scanChunkLeaf sample_env e sample_chunk [] sample_state = Some st1" "emits (found e [] [] di ''AKIA1'') st1"
    using leaf_reaches [OF ok _ e(2) di(1) _ _ vs _ sample_scan(1), of "''AKIA1''" "''x ''" "[]" "[]"] sample_scan(2,3) di(2)
    by (auto simp: sample_env_def)
  have "decode_reliable (le_decode sample_leaf_env) ''x AKIA1''" using memory_reliable by (simp add: sample_leaf_env_def)
  moreover have "env_cancel (le_scan sample_leaf_env) = None" by (simp add: sample_leaf_env_def sample_env_def)
  moreover have "plain_source ?c" by (simp add: plain_source_def sample_chunk_def no_metadata_def)
  moreover have "readers_agree sample_leaf_env e" by (simp add: readers_agree_def sample_leaf_env_def)
  moreover have "length ''x AKIA1'' < 2 ^ 48" by simp
  ultimately obtain st1' st2 fs gs where t: "scanChunkLeaf (le_scan sample_leaf_env) e (?c\<lparr>Data := ''x AKIA1''\<rparr>) [] sample_state = Some st1'"
    "scanChunkLeafReader sample_leaf_env e ?c [] sample_state = Some st2"
    "ss_emitted st1' = ss_emitted sample_state @ fs" "ss_emitted st2 = ss_emitted sample_state @ gs" "list_all2 (streamed ''x AKIA1'') fs gs"
    using scanChunkLeafReader_eq_scanChunkLeaf [OF e(1), of sample_leaf_env "''x AKIA1''" ?c sample_state "[]"] sample_scan(1) by blast
  have "st1' = st1" using t(1) st1(1) c by (simp add: sample_leaf_env_def)
  then obtain f where f: "f \<in> set fs" "Raw (Result_of f) = ''AKIA1''"
    using st1(2) t(3) finalize_raw by (auto simp: emits_def found_def published_def sample_state_def)
  then obtain g where g: "g \<in> set gs" "streamed ''x AKIA1'' f g" using t(5) by (metis in_set_conv_nth list_all2_conv_all_nth)
  have "bytes_index ''x AKIA1'' ''AKIA1'' = Some 2" by code_simp
  then have "RawSpan g = Some (2, 7)" "Raw (Result_of g) = ''AKIA1''" using g(2) f(2) by (simp_all add: streamed_def span_in_def)
  then show ?thesis using e(1) t(2,4) g(1) by auto
qed

end
