(* ===== verification/ArchiveFormat.thy ===== *)
theory ArchiveFormat
  imports Utf8
begin

unbundle bit_operations_syntax

text \<open>
  The parts of \<^verbatim>\<open>src/pkg/archive/archive.go\<close> that read bytes: format detection, entry names, and the
  preflight walks that bound a tar or zip archive's metadata before the standard library parses it.
  A reader is a function of the moment of the call, the offset and the length wanted, which returns
  the bytes read and the error of the call; the moments order all calls that may fail.
\<close>

section \<open>Errors, readers and contexts\<close>

datatype ctx_err = Canceled | DeadlineExceeded

datatype aerr =
    AMsg string
  | ACtx ctx_err
  | ASpoolLimit int
  | AZipLimit string int int
  | ATarLimit string int int
  | APartial string string aerr
  | AJoin "aerr list"

datatype ioerr = EOF | IOErr string

fun ioerr_aerr :: "ioerr \<Rightarrow> aerr" where
  "ioerr_aerr EOF = AMsg ''EOF''"
| "ioerr_aerr (IOErr m) = AMsg m"

type_synonym moment = nat
type_synonym ctx = "moment \<Rightarrow> ctx_err option"
type_synonym readerAt = "moment \<Rightarrow> int \<Rightarrow> nat \<Rightarrow> bytes \<times> ioerr option"

text \<open>\<^verbatim>\<open>bytes.Reader.ReadAt\<close>: fewer bytes than wanted come with \<^const>\<open>EOF\<close>.\<close>

definition bytes_reader :: "bytes \<Rightarrow> readerAt" where
  "bytes_reader data t off n =
     (if off < 0 then ([], Some (IOErr ''bytes.Reader.ReadAt: negative offset''))
      else if int (length data) \<le> off then ([], Some EOF)
      else let b = take n (drop (nat off) data) in (b, if length b < n then Some EOF else None))"

text \<open>Little-endian integers of \<^verbatim>\<open>encoding/binary\<close>.\<close>

fun le_nat :: "bytes \<Rightarrow> nat" where
  "le_nat [] = 0"
| "le_nat (b # bs) = of_char b + 256 * le_nat bs"

section \<open>Detection\<close>

datatype kind = kindNone | kindZip | kindTar | kindGzip | kindBzip2

definition detect :: "bytes \<Rightarrow> kind" where
  "detect data =
     (if 4 \<le> length data \<and> has_prefix data [CHR 0x50, CHR 0x4B, CHR 0x03, CHR 0x04] then kindZip
      else if 4 \<le> length data \<and> has_prefix data [CHR 0x50, CHR 0x4B, CHR 0x05, CHR 0x06] then kindZip
      else if 2 \<le> length data \<and> has_prefix data [CHR 0x1F, CHR 0x8B] then kindGzip
      else if 262 < length data \<and> slice 257 262 data = ''ustar'' then kindTar
      else if 3 \<le> length data \<and> has_prefix data [CHR 0x42, CHR 0x5A, CHR 0x68] then kindBzip2
      else kindNone)"

definition LooksLikeArchive :: "bytes \<Rightarrow> bool" where
  "LooksLikeArchive data =
     (case detect data of kindZip \<Rightarrow> True | kindTar \<Rightarrow> True | kindGzip \<Rightarrow> True | kindBzip2 \<Rightarrow> True | kindNone \<Rightarrow> False)"

section \<open>Entry names\<close>

text \<open>\<^verbatim>\<open>path.Clean\<close>, element by element: the elements written so far, last one first.\<close>

fun clean_step :: "bool \<Rightarrow> string list \<Rightarrow> string \<Rightarrow> string list" where
  "clean_step rooted out elem =
     (if elem = [] \<or> elem = ''.'' then out
      else if elem = ''..'' then
        (case out of
           [] \<Rightarrow> if rooted then [] else [elem]
         | e # out' \<Rightarrow> if e = ''..'' then elem # out else out')
      else elem # out)"

definition path_Clean :: "string \<Rightarrow> string" where
  "path_Clean name =
     (if name = [] then ''.''
      else
        let rooted = has_prefix name ''/'';
            out = (if rooted then ''/'' else []) @ join_byte CHR ''/'' (rev (foldl (clean_step rooted) [] (split_byte CHR ''/'' name)))
        in if out = [] then ''.'' else out)"

definition is_ascii_letter :: "byte \<Rightarrow> bool" where
  "is_ascii_letter c \<longleftrightarrow> CHR ''A'' \<le> c \<and> c \<le> CHR ''Z'' \<or> CHR ''a'' \<le> c \<and> c \<le> CHR ''z''"

definition safeEntryName :: "string \<Rightarrow> string option" where
  "safeEntryName name =
     (if name = [] \<or> CHR 0x00 \<in> set name \<or> bytes_contains name [CHR 0x5C] \<or> has_prefix name ''/'' then None
      else if 2 \<le> length name \<and> name ! 1 = CHR '':'' \<and> is_ascii_letter (name ! 0) then None
      else if ''..'' \<in> set (split_byte CHR ''/'' name) then None
      else
        let clean = path_Clean name in
        if clean = ''.'' \<or> clean = ''..'' \<or> has_prefix clean ''../'' then None else Some clean)"

section \<open>Tar sz fields\<close>

definition maxUint64 :: nat where "maxUint64 = 2 ^ 64 - 1"
definition maxInt64 :: nat where "maxInt64 = 2 ^ 63 - 1"

text \<open>The base-256 loop; the first byte loses its marker bit.\<close>

fun base256_loop :: "nat \<Rightarrow> nat \<Rightarrow> bytes \<Rightarrow> aerr + nat" where
  "base256_loop i value [] = Inr value"
| "base256_loop i value (c # cs) =
     (let current = (if i = 0 then of_char c AND 0x7F else of_char c) in
      if (maxUint64 - current) div 256 < value then Inl (AMsg ''tar: size field overflows uint64'')
      else base256_loop (Suc i) (value * 256 + current) cs)"

definition trim_byte :: "byte \<Rightarrow> bool" where
  "trim_byte c \<longleftrightarrow> c = CHR '' '' \<or> c = CHR 0x00"

definition trim_field :: "bytes \<Rightarrow> bytes" where
  "trim_field f = rev (dropWhile trim_byte (rev (dropWhile trim_byte f)))"

text \<open>\<^verbatim>\<open>strconv.ParseUint(s, 8, 63)\<close> on a non-empty string.\<close>

fun octal_loop :: "nat \<Rightarrow> bytes \<Rightarrow> nat option" where
  "octal_loop value [] = Some value"
| "octal_loop value (c # cs) =
     (if CHR ''0'' \<le> c \<and> c \<le> CHR ''7'' then
        let v = value * 8 + (of_char c - 48) in if maxInt64 < v then None else octal_loop v cs
      else None)"

definition parseTarSize :: "bytes \<Rightarrow> aerr + nat" where
  "parseTarSize field =
     (case field of
        [] \<Rightarrow> Inl (AMsg ''tar: empty size field'')
      | c # _ \<Rightarrow>
        if (of_char c :: nat) AND 0x80 \<noteq> 0 then
          if (of_char c :: nat) AND 0x40 \<noteq> 0 then Inl (AMsg ''tar: negative size'')
          else
            (case base256_loop 0 0 field of
               Inl e \<Rightarrow> Inl e
             | Inr value \<Rightarrow> if maxInt64 < value then Inl (AMsg ''tar: size field overflows int64'') else Inr value)
        else
          let trimmed = trim_field field in
          if trimmed = [] then Inr 0
          else (case octal_loop 0 trimmed of
                  None \<Rightarrow> Inl (AMsg ''tar: invalid size field'')
                | Some value \<Rightarrow> Inr value))"

section \<open>Tar preflight\<close>

definition maxTarMetadataBytes :: int where "maxTarMetadataBytes = 1048576"

definition tar_metadata_type :: "byte \<Rightarrow> bool" where
  "tar_metadata_type c \<longleftrightarrow> c = CHR ''x'' \<or> c = CHR ''g'' \<or> c = CHR ''L'' \<or> c = CHR ''K''"

definition tar_sparse_type :: "byte \<Rightarrow> bool" where
  "tar_sparse_type c \<longleftrightarrow> c = CHR ''S''"

text \<open>\<^verbatim>\<open>(bodySize + 511) &^ 511\<close>\<close>

definition tar_padded :: "nat \<Rightarrow> nat" where
  "tar_padded n = (n + 511) div 512 * 512"

text \<open>One physical header: the body of the loop after the header block has been read. The result is the metadata
  bytes so far and the padded size of the entry's body.\<close>

definition preflight_header :: "bytes \<Rightarrow> int \<Rightarrow> int \<Rightarrow> aerr + int \<times> nat" where
  "preflight_header block metadataBytes avail =
     (case parseTarSize (slice 124 136 block) of
        Inl e \<Rightarrow> Inl e
      | Inr bodySize \<Rightarrow>
        if tar_metadata_type (block ! 156) \<and> maxTarMetadataBytes - metadataBytes < int bodySize
        then Inl (ATarLimit ''metadata-bytes'' (metadataBytes + int bodySize) maxTarMetadataBytes)
        else if tar_sparse_type (block ! 156) then Inl (AMsg ''tar: GNU sparse metadata is not supported'')
        else if maxInt64 - 511 < bodySize then Inl (AMsg ''tar: physical entry size overflows int64'')
        else if avail < int (tar_padded bodySize) then Inl (AMsg ''tar: physical entry exceeds archive'')
        else Inr (if tar_metadata_type (block ! 156) then metadataBytes + int bodySize else metadataBytes, tar_padded bodySize))"

function preflightTar_loop ::
  "ctx \<Rightarrow> readerAt \<Rightarrow> int \<Rightarrow> int \<Rightarrow> int \<Rightarrow> int \<Rightarrow> int \<Rightarrow> moment \<Rightarrow> (aerr + int) \<times> moment" where
  "preflightTar_loop ctx reader sz maxHeaders offset metadataBytes headers t =
     (if sz \<le> offset then (Inr headers, t)
      else
        case ctx t of
          Some e \<Rightarrow> (Inl (ACtx e), t + 1)
        | None \<Rightarrow>
          if sz - offset < 512 then (Inl (AMsg ''tar: truncated physical header''), t + 1)
          else
            case reader (t + 1) offset 512 of
              (block, Some e) \<Rightarrow> (Inl (ioerr_aerr e), t + 2)
            | (block, None) \<Rightarrow>
              if list_all (\<lambda>c. c = CHR 0x00) block then (Inr headers, t + 2)
              else if maxHeaders < headers + 1 then (Inl (ATarLimit ''max-headers'' (headers + 1) maxHeaders), t + 2)
              else
                case preflight_header block metadataBytes (sz - offset - 512) of
                  Inl e \<Rightarrow> (Inl e, t + 2)
                | Inr (metadata', padded) \<Rightarrow>
                  preflightTar_loop ctx reader sz maxHeaders (offset + 512 + int padded) metadata' (headers + 1) (t + 2))"
  by pat_completeness auto
termination
  by (relation "measure (\<lambda>(ctx, reader, sz, maxHeaders, offset, metadataBytes, headers, t). nat (sz - offset))") auto

declare preflightTar_loop.simps [simp del]

definition preflightTar :: "ctx \<Rightarrow> readerAt \<Rightarrow> int \<Rightarrow> int \<Rightarrow> moment \<Rightarrow> (aerr + int) \<times> moment" where
  "preflightTar ctx reader sz maxHeaders t =
     (if sz < 0 \<or> maxHeaders < 0 then (Inl (AMsg ''tar: invalid size or header limit''), t)
      else preflightTar_loop ctx reader sz maxHeaders 0 0 0 t)"

section \<open>Zip preflight\<close>

definition maxZipDirectoryBytes :: nat where "maxZipDirectoryBytes = 16777216"

function countZipDirectory_loop ::
  "ctx \<Rightarrow> readerAt \<Rightarrow> int \<Rightarrow> int \<Rightarrow> int \<Rightarrow> int \<Rightarrow> moment \<Rightarrow> (aerr + int) \<times> moment" where
  "countZipDirectory_loop ctx reader fin maxHeaders offset count t =
     (if fin \<le> offset then (Inr count, t)
      else
        case ctx t of
          Some e \<Rightarrow> (Inl (ACtx e), t + 1)
        | None \<Rightarrow>
          if fin - offset < 46 then (Inl (AMsg ''zip: truncated central directory header''), t + 1)
          else
            case reader (t + 1) offset 46 of
              (header, Some e) \<Rightarrow> (Inl (ioerr_aerr e), t + 2)
            | (header, None) \<Rightarrow>
              if le_nat (slice 0 4 header) \<noteq> 0x02014b50 then (Inl (AMsg ''zip: invalid central directory signature''), t + 2)
              else if maxHeaders < count + 1 then (Inl (AZipLimit ''max-headers'' (count + 1) maxHeaders), t + 2)
              else
                let step = 46 + int (le_nat (slice 28 30 header)) + int (le_nat (slice 30 32 header)) + int (le_nat (slice 32 34 header)) in
                if fin - offset < step then (Inl (AMsg ''zip: central directory field exceeds declared size''), t + 2)
                else countZipDirectory_loop ctx reader fin maxHeaders (offset + step) (count + 1) (t + 2))"
  by pat_completeness auto
termination
  by (relation "measure (\<lambda>(ctx, reader, fin, maxHeaders, offset, count, t). nat (fin - offset))") auto

declare countZipDirectory_loop.simps [simp del]

text \<open>The end of the directory wraps around in 64 bits; the source rejects a sum below the offset.\<close>

definition int64_of :: "int \<Rightarrow> int" where
  "int64_of i = (i + 2 ^ 63) mod 2 ^ 64 - 2 ^ 63"

definition countZipDirectory ::
  "ctx \<Rightarrow> readerAt \<Rightarrow> int \<Rightarrow> int \<Rightarrow> int \<Rightarrow> moment \<Rightarrow> (aerr + int) \<times> moment" where
  "countZipDirectory ctx reader offset sz maxHeaders t =
     (if offset < 0 \<or> sz < 0 then (Inl (AMsg ''zip: invalid central directory bounds''), t)
      else
        let fin = int64_of (offset + sz) in
        if fin < offset then (Inl (AMsg ''zip: central directory size overflow''), t)
        else countZipDirectory_loop ctx reader fin maxHeaders offset 0 t)"

record zip_end =
  ze_recordsDisk :: nat
  ze_records :: nat
  ze_directorySize :: nat
  ze_directoryOffset :: nat
  ze_directoryEnd :: int

definition readZip64End :: "readerAt \<Rightarrow> int \<Rightarrow> moment \<Rightarrow> (aerr + zip_end) \<times> moment" where
  "readZip64End reader eocdOffset t =
     (if eocdOffset < 20 then (Inl (AMsg ''zip: ZIP64 locator missing''), t)
      else
        case reader t (eocdOffset - 20) 20 of
          (_, Some e) \<Rightarrow> (Inl (ioerr_aerr e), t + 1)
        | (locator, None) \<Rightarrow>
          if le_nat (slice 0 4 locator) \<noteq> 0x07064b50 \<or> le_nat (slice 4 8 locator) \<noteq> 0 \<or> le_nat (slice 16 20 locator) \<noteq> 1
          then (Inl (AMsg ''zip: invalid ZIP64 locator''), t + 1)
          else
            let directoryEnd = int64_of (int (le_nat (slice 8 16 locator))) in
            if directoryEnd < 0 \<or> eocdOffset - 56 < directoryEnd
            then (Inl (AMsg ''zip: ZIP64 end record is outside archive''), t + 1)
            else
              case reader (t + 1) directoryEnd 56 of
                (_, Some e) \<Rightarrow> (Inl (ioerr_aerr e), t + 2)
              | (header, None) \<Rightarrow>
                if le_nat (slice 0 4 header) \<noteq> 0x06064b50 \<or> le_nat (slice 4 12 header) < 44
                then (Inl (AMsg ''zip: invalid ZIP64 end record''), t + 2)
                else if le_nat (slice 16 20 header) \<noteq> 0 \<or> le_nat (slice 20 24 header) \<noteq> 0
                then (Inl (AMsg ''zip: multi-disk ZIP64 archives are not supported''), t + 2)
                else
                  (Inr \<lparr>ze_recordsDisk = le_nat (slice 24 32 header), ze_records = le_nat (slice 32 40 header),
                        ze_directorySize = le_nat (slice 40 48 header), ze_directoryOffset = le_nat (slice 48 56 header),
                        ze_directoryEnd = directoryEnd\<rparr>, t + 2))"

text \<open>The search for the end-of-central-directory record, from the last possible offset downwards.\<close>

definition find_eocd :: "bytes \<Rightarrow> nat option" where
  "find_eocd tail =
     find (\<lambda>offset. le_nat (slice offset (offset + 4) tail) = 0x06054b50 \<and>
             offset + 22 + le_nat (slice (offset + 20) (offset + 22) tail) \<le> length tail)
       (rev [0..<length tail - 21])"

text \<open>The record found at \<open>eocd\<close>, or the ZIP64 record when one of its fields is saturated; the first component is
  whether one of the disk numbers is non-zero.\<close>

definition zip_end_record :: "readerAt \<Rightarrow> bytes \<Rightarrow> nat \<Rightarrow> int \<Rightarrow> moment \<Rightarrow> (aerr + bool \<times> zip_end) \<times> moment" where
  "zip_end_record reader tail eocd absEOCD t =
     (let disk = le_nat (slice (eocd + 4) (eocd + 6) tail);
          dirDisk = le_nat (slice (eocd + 6) (eocd + 8) tail);
          short = \<lparr>ze_recordsDisk = le_nat (slice (eocd + 8) (eocd + 10) tail),
                   ze_records = le_nat (slice (eocd + 10) (eocd + 12) tail),
                   ze_directorySize = le_nat (slice (eocd + 12) (eocd + 16) tail),
                   ze_directoryOffset = le_nat (slice (eocd + 16) (eocd + 20) tail),
                   ze_directoryEnd = absEOCD\<rparr> in
      if ze_records short = 0xFFFF \<or> ze_directorySize short = 0xFFFFFFFF \<or> ze_directoryOffset short = 0xFFFFFFFF
      then
        (case readZip64End reader absEOCD t of
           (Inl e, t') \<Rightarrow> (Inl e, t')
         | (Inr z, t') \<Rightarrow> (Inr (False, z), t'))
      else (Inr (disk \<noteq> 0 \<or> dirDisk \<noteq> 0, short), t))"

definition zip_directory_count ::
  "ctx \<Rightarrow> readerAt \<Rightarrow> int \<Rightarrow> int \<Rightarrow> bool \<Rightarrow> zip_end \<Rightarrow> moment \<Rightarrow> (aerr + int) \<times> moment" where
  "zip_directory_count ctx reader sz maxHeaders multi z t =
     (if multi \<or> ze_recordsDisk z \<noteq> ze_records z
      then (Inl (AMsg ''zip: multi-disk archives are not supported''), t)
      else if maxZipDirectoryBytes < ze_directorySize z
      then (Inl (AZipLimit ''central-directory-bytes'' (int (ze_directorySize z)) (int maxZipDirectoryBytes)), t)
      else if ze_directoryEnd z < int (ze_directorySize z) \<or> sz < int (ze_directoryOffset z)
      then (Inl (AMsg ''zip: central directory is outside archive''), t)
      else
        case countZipDirectory ctx reader (ze_directoryEnd z - int (ze_directorySize z)) (int (ze_directorySize z)) maxHeaders t of
          (Inl e, t') \<Rightarrow> (Inl e, t')
        | (Inr count, t') \<Rightarrow>
          if count \<noteq> int (ze_records z) then (Inl (AMsg ''zip: central directory record count mismatch''), t')
          else (Inr count, t'))"

definition preflightZip :: "ctx \<Rightarrow> readerAt \<Rightarrow> int \<Rightarrow> int \<Rightarrow> moment \<Rightarrow> (aerr + int) \<times> moment" where
  "preflightZip ctx reader sz maxHeaders t =
     (if sz < 22 \<or> maxHeaders < 0 then (Inl (AMsg ''zip: invalid size or header limit''), t)
      else
        let tailSize = nat (min sz (22 + 65535));
            (got, err) = reader t (sz - int tailSize) tailSize in
        case err of
          Some (IOErr m) \<Rightarrow> (Inl (AMsg m), t + 1)
        | _ \<Rightarrow>
          let tail = got @ replicate (tailSize - length got) (CHR 0x00) in
          case find_eocd tail of
            None \<Rightarrow> (Inl (AMsg ''zip: end of central directory not found''), t + 1)
          | Some eocd \<Rightarrow>
            case zip_end_record reader tail eocd (sz - int tailSize + int eocd) (t + 1) of
              (Inl e, t') \<Rightarrow> (Inl e, t')
            | (Inr (multi, z), t') \<Rightarrow> zip_directory_count ctx reader sz maxHeaders multi z t')"

end
