(* ===== verification/Archive.thy ===== *)
theory Archive
  imports ArchiveFormat
begin

text \<open>
  The archive walker of \<^verbatim>\<open>src/pkg/archive/archive.go\<close>: spools (values kept in memory or in a temporary file), the expansion
  limits and the recursive walk over zip, tar, gzip and bzip2 data. The decompressors and parsers of the standard library are the fields
  of the environment: what their readers deliver is arbitrary, as are the moments at which the context is cancelled and at which
  calls of the operating system fail. Sizes are integers; \<^const>\<open>int64_of\<close> is written where the source's 64-bit addition can
  wrap around.
\<close>

section \<open>Environment\<close>

text \<open>A stream is what successive \<^verbatim>\<open>Read\<close> calls with a large enough buffer return, up to the end of the data.\<close>

type_synonym stream = "(bytes \<times> string option) list"

record zip_file =
  zf_Name :: string
  zf_Mode :: nat
  zf_UncompressedSize64 :: nat
  zf_Open :: "string + stream \<times> string option"

record tar_header =
  th_Typeflag :: byte
  th_Name :: string
  th_Size :: int
  th_body :: stream

record archive_env =
  ae_ctx :: ctx
  ae_os :: "moment \<Rightarrow> string option"
  ae_remove :: "moment \<Rightarrow> string option"
  ae_zip :: "bytes \<Rightarrow> string + zip_file list"
  ae_tar :: "bytes \<Rightarrow> tar_header list \<times> string option"
  ae_gzip :: "bytes \<Rightarrow> string + stream \<times> string option"
  ae_bzip2 :: "bytes \<Rightarrow> stream"

record world =
  w_clock :: moment
  w_temps :: "moment list"

definition tick :: "world \<Rightarrow> world" where
  "tick w = w\<lparr>w_clock := w_clock w + 1\<rparr>"

definition poll :: "archive_env \<Rightarrow> world \<Rightarrow> ctx_err option \<times> world" where
  "poll env w = (ae_ctx env (w_clock w), tick w)"

definition os_call :: "archive_env \<Rightarrow> world \<Rightarrow> string option \<times> world" where
  "os_call env w = (ae_os env (w_clock w), tick w)"

text \<open>\<^verbatim>\<open>errors.Join\<close> and the tests of \<^verbatim>\<open>errors.Is\<close> and \<^verbatim>\<open>errors.As\<close> that the package makes.\<close>

definition join_errs :: "aerr option list \<Rightarrow> aerr option" where
  "join_errs es = (case List.map_filter id es of [] \<Rightarrow> None | xs \<Rightarrow> Some (AJoin xs))"

fun is_ctx_err :: "aerr \<Rightarrow> bool" where
  "is_ctx_err (ACtx e) = True"
| "is_ctx_err (APartial k n e) = is_ctx_err e"
| "is_ctx_err (AJoin es) = (\<exists>e \<in> set es. is_ctx_err e)"
| "is_ctx_err e = False"

fun has_partial :: "aerr \<Rightarrow> bool" where
  "has_partial (APartial k n e) = True"
| "has_partial (AJoin es) = (\<exists>e \<in> set es. has_partial e)"
| "has_partial e = False"

fun has_spool_limit :: "aerr \<Rightarrow> bool" where
  "has_spool_limit (ASpoolLimit l) = True"
| "has_spool_limit (APartial k n e) = has_spool_limit e"
| "has_spool_limit (AJoin es) = (\<exists>e \<in> set es. has_spool_limit e)"
| "has_spool_limit e = False"

section \<open>Spools\<close>

definition SpillThreshold :: int where "SpillThreshold = 1048576"
definition archiveSpillThreshold :: int where "archiveSpillThreshold = 131072"

record spoolOptions =
  so_threshold :: int
  so_capacityHint :: int

text \<open>The temporary file of a spool: the moment of its creation is its name, together with its contents.\<close>

record spool =
  sp_threshold :: int
  sp_mem :: bytes
  sp_file :: "(moment \<times> bytes) option"
  sp_size :: int

definition sp_bytes :: "spool \<Rightarrow> bytes" where
  "sp_bytes sp = (case sp_file sp of None \<Rightarrow> sp_mem sp | Some (_, content) \<Rightarrow> content)"

definition os_Remove :: "archive_env \<Rightarrow> moment \<Rightarrow> world \<Rightarrow> string option \<times> world" where
  "os_Remove env name w =
     (case ae_remove env (w_clock w) of
        Some e \<Rightarrow> (Some e, tick w)
      | None \<Rightarrow> (None, (tick w)\<lparr>w_temps := filter (\<lambda>x. x \<noteq> name) (w_temps w)\<rparr>))"

definition spill :: "archive_env \<Rightarrow> spool \<Rightarrow> world \<Rightarrow> aerr option \<times> spool \<times> world" where
  "spill env sp w =
     (if sp_file sp \<noteq> None then (None, sp, w)
      else
        case os_call env w of
          (Some e, w1) \<Rightarrow> (Some (AMsg e), sp, w1)
        | (None, w1) \<Rightarrow>
          let name = w_clock w; w2 = w1\<lparr>w_temps := name # w_temps w1\<rparr> in
          case os_call env w2 of
            (Some e, w3) \<Rightarrow> (Some (AMsg e), sp, snd (os_Remove env name w3))
          | (None, w3) \<Rightarrow>
            if sp_mem sp \<noteq> [] then
              case os_call env w3 of
                (Some e, w4) \<Rightarrow> (Some (AMsg e), sp, snd (os_Remove env name w4))
              | (None, w4) \<Rightarrow> (None, sp\<lparr>sp_file := Some (name, sp_mem sp), sp_mem := []\<rparr>, w4)
            else (None, sp\<lparr>sp_file := Some (name, []), sp_mem := []\<rparr>, w3))"

text \<open>\<^verbatim>\<open>Write\<close>: a write that fails leaves a spool that its only caller discards.\<close>

definition spool_Write :: "archive_env \<Rightarrow> bytes \<Rightarrow> spool \<Rightarrow> world \<Rightarrow> aerr option \<times> spool \<times> world" where
  "spool_Write env data sp w =
     (case (if sp_file sp = None \<and> sp_threshold sp < sp_size sp + int (length data) then spill env sp w else (None, sp, w)) of
        (Some e, sp1, w1) \<Rightarrow> (Some e, sp1, w1)
      | (None, sp1, w1) \<Rightarrow>
        case sp_file sp1 of
          Some (name, content) \<Rightarrow>
            (case os_call env w1 of
               (Some e, w2) \<Rightarrow> (Some (AMsg e), sp1, w2)
             | (None, w2) \<Rightarrow>
               (None, sp1\<lparr>sp_file := Some (name, content @ data), sp_size := sp_size sp1 + int (length data)\<rparr>, w2))
        | None \<Rightarrow> (None, sp1\<lparr>sp_mem := sp_mem sp1 @ data, sp_size := sp_size sp1 + int (length data)\<rparr>, w1))"

definition spool_close :: "archive_env \<Rightarrow> spool \<Rightarrow> world \<Rightarrow> aerr option \<times> world" where
  "spool_close env sp w =
     (case sp_file sp of
        None \<Rightarrow> (None, w)
      | Some (name, _) \<Rightarrow>
        let (closeErr, w1) = os_call env w; (removeErr, w2) = os_Remove env name w1 in
        (join_errs [map_option AMsg closeErr, map_option AMsg removeErr], w2))"

text \<open>\<^verbatim>\<open>readerAt\<close>: reads of a temporary file may fail.\<close>

definition spool_readerAt :: "archive_env \<Rightarrow> spool \<Rightarrow> readerAt" where
  "spool_readerAt env sp t off n =
     (if sp_file sp \<noteq> None \<and> ae_os env t \<noteq> None then ([], Some (IOErr (the (ae_os env t))))
      else bytes_reader (sp_bytes sp) t off n)"

definition spool_kind :: "archive_env \<Rightarrow> spool \<Rightarrow> world \<Rightarrow> (aerr + kind) \<times> world" where
  "spool_kind env sp w =
     (let len = nat (min (sp_size sp) 512) in
      if len = 0 then (Inr (detect []), w)
      else
        case spool_readerAt env sp (w_clock w) 0 len of
          (_, Some (IOErr m)) \<Rightarrow> (Inl (AMsg m), tick w)
        | (p, _) \<Rightarrow> (Inr (detect p), tick w))"

text \<open>\<^verbatim>\<open>io.CopyBuffer\<close> of a limited, context-aware reader into a spool: \<open>n\<close> is what the limited reader may still
  deliver, \<open>written\<close> what has been copied.\<close>

fun copy_loop :: "archive_env \<Rightarrow> int \<Rightarrow> stream \<Rightarrow> int \<Rightarrow> spool \<Rightarrow> world \<Rightarrow> (aerr option \<times> int) \<times> spool \<times> world" where
  "copy_loop env n [] written sp w =
     (if n \<le> 0 then ((None, written), sp, w)
      else case poll env w of
        (Some e, w1) \<Rightarrow> ((Some (ACtx e), written), sp, w1)
      | (None, w1) \<Rightarrow>
        (case poll env w1 of (e, w2) \<Rightarrow> ((map_option ACtx e, written), sp, w2)))"
| "copy_loop env n ((chunk, err) # rest) written sp w =
     (if n \<le> 0 then ((None, written), sp, w)
      else case poll env w of
        (Some e, w1) \<Rightarrow> ((Some (ACtx e), written), sp, w1)
      | (None, w1) \<Rightarrow>
        let data = take (nat n) chunk;
            (ctxErr, w2) = poll env w1;
            readErr = (case ctxErr of Some e \<Rightarrow> Some (ACtx e)
                       | None \<Rightarrow> if n < int (length chunk) then None else map_option AMsg err);
            (writeErr, sp1, w3) = (if data = [] then (None, sp, w2) else spool_Write env data sp w2) in
        if writeErr \<noteq> None then ((writeErr, written), sp1, w3)
        else
          let written1 = written + int (length data) in
          if readErr \<noteq> None then ((readErr, written1), sp1, w3)
          else copy_loop env (n - int (length data)) rest written1 sp1 w3)"

definition fail_spool :: "archive_env \<Rightarrow> aerr \<Rightarrow> spool \<Rightarrow> world \<Rightarrow> (aerr + spool) \<times> world" where
  "fail_spool env e sp w =
     (let (closeErr, w1) = spool_close env sp w in (Inl (AJoin (e # (case closeErr of None \<Rightarrow> [] | Some c \<Rightarrow> [c]))), w1))"

definition new_spool :: "spoolOptions \<Rightarrow> spool" where
  "new_spool opts =
     \<lparr>sp_threshold = (if so_threshold opts \<le> 0 then SpillThreshold else so_threshold opts), sp_mem = [], sp_file = None, sp_size = 0\<rparr>"

text \<open>Growing the buffer in advance, which the capacity hint is for, does not change the value.\<close>

definition spoolFromReader ::
  "archive_env \<Rightarrow> stream \<Rightarrow> int \<Rightarrow> int \<Rightarrow> spoolOptions \<Rightarrow> world \<Rightarrow> (aerr + spool) \<times> world" where
  "spoolFromReader env input expected limit opts w =
     (if expected < -1 \<or> limit < 0 then (Inl (AMsg ''archive: invalid spool bounds''), w)
      else if limit < expected then (Inl (ASpoolLimit limit), w)
      else
        let value = new_spool opts;
            (spillErr, value1, w1) = (if sp_threshold value < expected then spill env value w else (None, value, w)) in
        case spillErr of
          Some e \<Rightarrow> fail_spool env e value1 w1
        | None \<Rightarrow>
          let ((copyErr, written), value2, w2) = copy_loop env (int64_of (limit + 1)) input 0 value1 w1 in
          case copyErr of
            Some e \<Rightarrow> fail_spool env e value2 w2
          | None \<Rightarrow>
            if limit < written then fail_spool env (ASpoolLimit limit) value2 w2
            else if 0 \<le> expected \<and> written \<noteq> expected
            then fail_spool env (AMsg (''archive: unexpected size '' @ itoa written @ '', want '' @ itoa expected)) value2 w2
            else (Inr value2, w2))"

definition withSpool ::
  "archive_env \<Rightarrow> stream \<Rightarrow> int \<Rightarrow> int \<Rightarrow> spoolOptions \<Rightarrow> (spool \<Rightarrow> world \<times> 's \<Rightarrow> aerr option \<times> world \<times> 's) \<Rightarrow>
   world \<times> 's \<Rightarrow> aerr option \<times> world \<times> 's" where
  "withSpool env input expected limit opts fn ws =
     (case spoolFromReader env input expected limit opts (fst ws) of
        (Inl e, w1) \<Rightarrow> (Some e, w1, snd ws)
      | (Inr value, w1) \<Rightarrow>
        let (err, w2, s2) = fn value (w1, snd ws); (closeErr, w3) = spool_close env value w2 in
        (join_errs [err, closeErr], w3, s2))"

definition WithSpoolContext ::
  "archive_env \<Rightarrow> stream \<Rightarrow> int \<Rightarrow> int \<Rightarrow> (bytes \<Rightarrow> 's \<Rightarrow> aerr option \<times> 's) \<Rightarrow> world \<times> 's \<Rightarrow> aerr option \<times> world \<times> 's" where
  "WithSpoolContext env input expected limit fn ws =
     withSpool env input expected limit \<lparr>so_threshold = SpillThreshold, so_capacityHint = 0\<rparr>
       (\<lambda>value (w, s). let (err, s') = fn (sp_bytes value) s in (err, w, s')) ws"

section \<open>Limits and the walk's state\<close>

record Limits =
  MaxDepth :: int
  MaxInputBytes :: int
  MaxEntryBytes :: int
  MaxExpandedBytes :: int
  MaxFiles :: int

definition withDefaults :: "Limits \<Rightarrow> Limits" where
  "withDefaults l =
     \<lparr>MaxDepth = (if MaxDepth l \<le> 0 then 4 else MaxDepth l),
      MaxInputBytes = (if MaxInputBytes l \<le> 0 then 50 * 1024 * 1024 else MaxInputBytes l),
      MaxEntryBytes = (if MaxEntryBytes l \<le> 0 then 50 * 1024 * 1024 else MaxEntryBytes l),
      MaxExpandedBytes = (if MaxExpandedBytes l \<le> 0 then 200 * 1024 * 1024 else MaxExpandedBytes l),
      MaxFiles = (if MaxFiles l \<le> 0 then 1000 else MaxFiles l)\<rparr>"

definition maxRetainedErrors :: nat where "maxRetainedErrors = 32"
definition maxArchiveHeaders :: int where "maxArchiveHeaders = 10000"

record 's walkState =
  ws_expanded :: int
  ws_files :: int
  ws_headers :: int
  ws_errs :: "aerr list"
  ws_terminal :: bool
  ws_rejected :: nat
  ws_world :: world
  ws_client :: 's

record StreamEntry =
  se_Path :: string
  se_Size :: int
  se_bytes :: bytes

text \<open>What a walk is given: the limits, the callback and the spool options.\<close>

record 's walker =
  wk_env :: archive_env
  wk_limits :: Limits
  wk_visit :: "StreamEntry \<Rightarrow> 's \<Rightarrow> aerr option \<times> 's"
  wk_spool :: spoolOptions

definition ws_partial :: "string \<Rightarrow> string \<Rightarrow> aerr \<Rightarrow> 's walkState \<Rightarrow> 's walkState" where
  "ws_partial knd entry err s =
     (if length (ws_errs s) < maxRetainedErrors then s\<lparr>ws_errs := ws_errs s @ [APartial knd entry err]\<rparr> else s)"

definition ws_stop :: "string \<Rightarrow> string \<Rightarrow> aerr \<Rightarrow> 's walkState \<Rightarrow> 's walkState" where
  "ws_stop knd entry err s = (if ws_terminal s then s else (ws_partial knd entry err s)\<lparr>ws_terminal := True\<rparr>)"

definition rejectBudget :: "string \<Rightarrow> string \<Rightarrow> aerr \<Rightarrow> 's walkState \<Rightarrow> 's walkState" where
  "rejectBudget knd entry err s =
     (let s1 = ws_partial knd entry err s; s2 = s1\<lparr>ws_rejected := ws_rejected s1 + 1\<rparr> in
      if maxRetainedErrors \<le> ws_rejected s2 then s2\<lparr>ws_terminal := True\<rparr> else s2)"

definition ws_poll :: "'s walker \<Rightarrow> 's walkState \<Rightarrow> ctx_err option \<times> 's walkState" where
  "ws_poll wk s = (let (e, w) = poll (wk_env wk) (ws_world s) in (e, s\<lparr>ws_world := w\<rparr>))"

definition emitEntry :: "'s walker \<Rightarrow> string \<Rightarrow> spool \<Rightarrow> 's walkState \<Rightarrow> aerr option \<times> 's walkState" where
  "emitEntry wk name data s =
     (if MaxFiles (wk_limits wk) \<le> ws_files s
      then (None, ws_stop ''max-files'' name (AMsg (''file count exceeds '' @ itoa (MaxFiles (wk_limits wk)))) s)
      else
        let s1 = s\<lparr>ws_files := ws_files s + 1\<rparr>;
            (err, c) = wk_visit wk \<lparr>se_Path = name, se_Size = sp_size data, se_bytes = sp_bytes data\<rparr> (ws_client s1) in
        (err, s1\<lparr>ws_client := c\<rparr>))"

text \<open>\<^verbatim>\<open>expandedSpoolWithOptions\<close>: an accepted value, or nothing with an optional error.\<close>

definition expandedSpoolWithOptions ::
  "'s walker \<Rightarrow> string \<Rightarrow> stream \<Rightarrow> int \<Rightarrow> spoolOptions \<Rightarrow> 's walkState \<Rightarrow> (spool option \<times> aerr option) \<times> 's walkState" where
  "expandedSpoolWithOptions wk name input declared opts s =
     (let lim = wk_limits wk in
      if MaxEntryBytes lim < declared
      then ((None, None), ws_partial ''max-entry-bytes'' name (AMsg (''declared size exceeds '' @ itoa (MaxEntryBytes lim))) s)
      else
        let remaining = MaxExpandedBytes lim - ws_expanded s in
        if 0 \<le> declared \<and> remaining < declared
        then ((None, None), rejectBudget ''max-expanded-bytes'' name (AMsg (''declared expansion exceeds '' @ itoa (MaxExpandedBytes lim))) s)
        else
          let (limit, limitKind) = (if remaining < MaxEntryBytes lim then (remaining, ''max-expanded-bytes'')
                                    else (MaxEntryBytes lim, ''max-entry-bytes''));
              (result, w) = spoolFromReader (wk_env wk) input declared limit opts (ws_world s);
              s1 = s\<lparr>ws_world := w\<rparr> in
          case result of
            Inl e \<Rightarrow>
              if is_ctx_err e then ((None, Some e), s1)
              else if has_spool_limit e
              then ((None, None), rejectBudget limitKind name (AMsg (''expanded bytes exceed '' @ itoa limit)) s1)
              else ((None, None), ws_partial ''corrupt-entry'' name e s1)
          | Inr value \<Rightarrow> ((Some value, None), s1\<lparr>ws_expanded := ws_expanded s1 + sp_size value\<rparr>))"

abbreviation expandedSpool ::
  "'s walker \<Rightarrow> string \<Rightarrow> stream \<Rightarrow> int \<Rightarrow> 's walkState \<Rightarrow> (spool option \<times> aerr option) \<times> 's walkState" where
  "expandedSpool wk name input declared s \<equiv> expandedSpoolWithOptions wk name input declared (wk_spool wk) s"

text \<open>The clean-up after a value has been used: a failing one is recorded.\<close>

definition close_value :: "'s walker \<Rightarrow> string \<Rightarrow> spool \<Rightarrow> 's walkState \<Rightarrow> 's walkState" where
  "close_value wk entryName value s =
     (let (cleanupErr, w) = spool_close (wk_env wk) value (ws_world s); s1 = s\<lparr>ws_world := w\<rparr> in
      case cleanupErr of None \<Rightarrow> s1 | Some e \<Rightarrow> ws_partial ''cleanup'' entryName e s1)"

type_synonym 's descend = "string \<Rightarrow> spool \<Rightarrow> 's walkState \<Rightarrow> aerr option \<times> 's walkState"

text \<open>Descend into an accepted value, then clean it up.\<close>

definition descend_value :: "'s walker \<Rightarrow> 's descend \<Rightarrow> string \<Rightarrow> spool \<Rightarrow> 's walkState \<Rightarrow> aerr option \<times> 's walkState" where
  "descend_value wk inner entryName value s =
     (let (walkErr, s1) = inner entryName value s in (walkErr, close_value wk entryName value s1))"

section \<open>Zip\<close>

text \<open>The mode bits of \<^verbatim>\<open>os\<close>.\<close>

definition ModeDir :: nat where "ModeDir = 2 ^ 31"
definition ModeSymlink :: nat where "ModeSymlink = 2 ^ 27"
definition ModeType :: nat where
  "ModeType = 2 ^ 31 + 2 ^ 27 + 2 ^ 25 + 2 ^ 24 + 2 ^ 26 + 2 ^ 21 + 2 ^ 19"

text \<open>One iteration of the loop over the entries, after the checks for termination and cancellation. \<open>False\<close> in
  the second component stops the loop without an error.\<close>

definition zip_entry :: "'s walker \<Rightarrow> 's descend \<Rightarrow> string \<Rightarrow> zip_file \<Rightarrow> 's walkState \<Rightarrow> (aerr option \<times> bool) \<times> 's walkState" where
  "zip_entry wk inner name file s =
     (let mode = zf_Mode file in
      if mode AND ModeDir \<noteq> 0 then ((None, True), s)
      else if mode AND ModeSymlink \<noteq> 0
      then ((None, True), ws_partial ''symlink'' (zf_Name file) (AMsg ''symlink entries are not scanned'') s)
      else if mode AND ModeType \<noteq> 0
      then ((None, True), ws_partial ''special-file'' (zf_Name file) (AMsg ''non-regular entries are not scanned'') s)
      else
        case safeEntryName (zf_Name file) of
          None \<Rightarrow> ((None, True), ws_partial ''path'' (zf_Name file) (AMsg ''unsafe archive path rejected'') s)
        | Some clean \<Rightarrow>
          if MaxFiles (wk_limits wk) \<le> ws_files s
          then ((None, False), ws_stop ''max-files'' (zf_Name file) (AMsg (''file count exceeds '' @ itoa (MaxFiles (wk_limits wk)))) s)
          else if maxInt64 < zf_UncompressedSize64 file
          then ((None, True), ws_partial ''max-entry-bytes'' (zf_Name file) (AMsg ''declared size overflows int64'') s)
          else
            case zf_Open file of
              Inl e \<Rightarrow> ((None, True), ws_partial ''corrupt-entry'' (zf_Name file) (AMsg e) s)
            | Inr (body, closeErr) \<Rightarrow>
              let ((value, copyErr), s1) = expandedSpool wk (zf_Name file) body (int (zf_UncompressedSize64 file)) s in
              case copyErr of
                Some e \<Rightarrow> ((Some e, True), s1)
              | None \<Rightarrow>
                case value of
                  None \<Rightarrow> ((None, True), s1)
                | Some v \<Rightarrow>
                  let entryName = name @ ''!'' @ clean in
                  case closeErr of
                    Some e \<Rightarrow> ((None, True), close_value wk entryName v (ws_partial ''corrupt-entry'' (zf_Name file) (AMsg e) s1))
                  | None \<Rightarrow> let (walkErr, s2) = descend_value wk inner entryName v s1 in ((walkErr, True), s2))"

fun zip_loop :: "'s walker \<Rightarrow> 's descend \<Rightarrow> string \<Rightarrow> zip_file list \<Rightarrow> 's walkState \<Rightarrow> aerr option \<times> 's walkState" where
  "zip_loop wk inner name [] s = (None, s)"
| "zip_loop wk inner name (file # files) s =
     (if ws_terminal s then (None, s)
      else
        case ws_poll wk s of
          (Some e, s1) \<Rightarrow> (Some (ACtx e), s1)
        | (None, s1) \<Rightarrow>
          case zip_entry wk inner name file s1 of
            ((Some e, _), s2) \<Rightarrow> (Some e, s2)
          | ((None, go), s2) \<Rightarrow> if go then zip_loop wk inner name files s2 else (None, s2))"

definition walkZip :: "'s walker \<Rightarrow> 's descend \<Rightarrow> string \<Rightarrow> spool \<Rightarrow> 's walkState \<Rightarrow> aerr option \<times> 's walkState" where
  "walkZip wk inner name data s =
     (let (pre, t) = preflightZip (ae_ctx (wk_env wk)) (spool_readerAt (wk_env wk) data) (sp_size data)
            (maxArchiveHeaders - ws_headers s) (w_clock (ws_world s));
          s0 = s\<lparr>ws_world := (ws_world s)\<lparr>w_clock := t\<rparr>\<rparr> in
      case pre of
        Inl (AZipLimit knd c l) \<Rightarrow> (None, ws_stop knd name (AZipLimit knd c l) s0)
      | Inl e \<Rightarrow> (Some (APartial ''corrupt-archive'' name e), s0)
      | Inr count \<Rightarrow>
        let s1 = s0\<lparr>ws_headers := ws_headers s0 + count\<rparr> in
        case ae_zip (wk_env wk) (sp_bytes data) of
          Inl e \<Rightarrow> (Some (APartial ''corrupt-archive'' name (AMsg e)), s1)
        | Inr files \<Rightarrow>
          if int (length files) \<noteq> count
          then (Some (APartial ''corrupt-archive'' name
                  (AMsg (''central directory count changed from '' @ itoa count @ '' to '' @ itoa (int (length files))))), s1)
          else zip_loop wk inner name files s1)"

section \<open>Tar\<close>

definition tar_entry :: "'s walker \<Rightarrow> 's descend \<Rightarrow> string \<Rightarrow> tar_header \<Rightarrow> 's walkState \<Rightarrow> (aerr option \<times> bool) \<times> 's walkState" where
  "tar_entry wk inner name header s =
     (if th_Typeflag header = CHR ''5'' then ((None, True), s)
      else if th_Typeflag header = CHR ''2'' \<or> th_Typeflag header = CHR ''1''
      then ((None, True), ws_partial ''symlink'' (th_Name header) (AMsg ''link entries are not scanned'') s)
      else if th_Typeflag header \<noteq> CHR ''0'' \<and> th_Typeflag header \<noteq> CHR ''7''
      then ((None, True), if 0 < th_Size header
              then ws_partial ''special-file'' (th_Name header) (AMsg ''non-regular entries are not scanned'') s else s)
      else
        case safeEntryName (th_Name header) of
          None \<Rightarrow> ((None, True), ws_partial ''path'' (th_Name header) (AMsg ''unsafe archive path rejected'') s)
        | Some clean \<Rightarrow>
          if MaxFiles (wk_limits wk) \<le> ws_files s
          then ((None, False), ws_stop ''max-files'' (th_Name header) (AMsg (''file count exceeds '' @ itoa (MaxFiles (wk_limits wk)))) s)
          else
            let ((value, copyErr), s1) = expandedSpool wk (th_Name header) (th_body header) (th_Size header) s in
            case copyErr of
              Some e \<Rightarrow> ((Some e, True), s1)
            | None \<Rightarrow>
              case value of
                None \<Rightarrow> ((None, True), s1)
              | Some v \<Rightarrow> let (walkErr, s2) = descend_value wk inner (name @ ''!'' @ clean) v s1 in ((walkErr, True), s2))"

text \<open>The reader's \<^verbatim>\<open>Next\<close> reads through a context-aware reader, so it may report the cancellation.\<close>

fun walkTarReader ::
  "'s walker \<Rightarrow> 's descend \<Rightarrow> string \<Rightarrow> tar_header list \<Rightarrow> string option \<Rightarrow> 's walkState \<Rightarrow> aerr option \<times> 's walkState" where
  "walkTarReader wk inner name headers final s =
     (if ws_terminal s then (None, s)
      else
        case ws_poll wk s of
          (Some e, s1) \<Rightarrow> (Some (ACtx e), s1)
        | (None, s1) \<Rightarrow>
          case ws_poll wk s1 of
            (Some e, s2) \<Rightarrow> (Some (APartial ''corrupt-archive'' name (ACtx e)), s2)
          | (None, s2) \<Rightarrow>
            case headers of
              [] \<Rightarrow> (map_option (\<lambda>e. APartial ''corrupt-archive'' name (AMsg e)) final, s2)
            | header # rest \<Rightarrow>
              case tar_entry wk inner name header s2 of
                ((Some e, _), s3) \<Rightarrow> (Some e, s3)
              | ((None, go), s3) \<Rightarrow> if go then walkTarReader wk inner name rest final s3 else (None, s3))"

declare walkTarReader.simps [simp del]

definition walkTar :: "'s walker \<Rightarrow> 's descend \<Rightarrow> string \<Rightarrow> spool \<Rightarrow> 's walkState \<Rightarrow> aerr option \<times> 's walkState" where
  "walkTar wk inner name data s =
     (let (pre, t) = preflightTar (ae_ctx (wk_env wk)) (spool_readerAt (wk_env wk) data) (sp_size data)
            (maxArchiveHeaders - ws_headers s) (w_clock (ws_world s));
          s0 = s\<lparr>ws_world := (ws_world s)\<lparr>w_clock := t\<rparr>\<rparr> in
      case pre of
        Inl (ATarLimit knd c l) \<Rightarrow> (None, ws_stop knd name (ATarLimit knd c l) s0)
      | Inl e \<Rightarrow> (Some (APartial ''corrupt-archive'' name e), s0)
      | Inr count \<Rightarrow>
        let (headers, final) = ae_tar (wk_env wk) (sp_bytes data) in
        walkTarReader wk inner name headers final (s0\<lparr>ws_headers := ws_headers s0 + count\<rparr>))"

section \<open>Gzip and bzip2\<close>

definition gzipSizeHint :: "archive_env \<Rightarrow> spool \<Rightarrow> int \<Rightarrow> world \<Rightarrow> int \<times> world" where
  "gzipSizeHint env data threshold w =
     (if threshold \<le> 0 \<or> sp_size data < 4 then (0, w)
      else
        let (trailer, err) = spool_readerAt env data (w_clock w) (sp_size data - 4) 4 in
        if err \<noteq> None \<and> \<not> (err = Some EOF \<and> length trailer = 4) then (0, tick w)
        else
          let hint = int (le_nat trailer) in
          if hint \<le> 0 \<or> threshold < hint then (0, tick w) else (hint, tick w))"

definition strip_suffix :: "string \<Rightarrow> string \<Rightarrow> string" where
  "strip_suffix name suf = (if has_suffix name suf then take (length name - length suf) name else name)"

definition inner_name :: "string \<Rightarrow> string \<Rightarrow> string \<Rightarrow> string" where
  "inner_name name suf mark = (let inner = strip_suffix name suf in if inner = name then name @ mark else inner)"

definition walkGzip :: "'s walker \<Rightarrow> 's descend \<Rightarrow> string \<Rightarrow> spool \<Rightarrow> 's walkState \<Rightarrow> aerr option \<times> 's walkState" where
  "walkGzip wk inner name data s =
     (case ae_gzip (wk_env wk) (sp_bytes data) of
        Inl e \<Rightarrow> (Some (APartial ''corrupt-archive'' name (AMsg e)), s)
      | Inr (body, closeErr) \<Rightarrow>
        let (hint, w) = gzipSizeHint (wk_env wk) data (so_threshold (wk_spool wk)) (ws_world s);
            ((value, copyErr), s1) = expandedSpoolWithOptions wk name body (-1) ((wk_spool wk)\<lparr>so_capacityHint := hint\<rparr>) (s\<lparr>ws_world := w\<rparr>) in
        case copyErr of
          Some e \<Rightarrow> (Some e, s1)
        | None \<Rightarrow>
          case value of
            None \<Rightarrow> (None, s1)
          | Some v \<Rightarrow>
            case closeErr of
              Some e \<Rightarrow> (Some (APartial ''corrupt-entry'' name (AMsg e)), close_value wk name v s1)
            | None \<Rightarrow> descend_value wk inner (inner_name name ''.gz'' ''!gz'') v s1)"

definition walkBzip2 :: "'s walker \<Rightarrow> 's descend \<Rightarrow> string \<Rightarrow> spool \<Rightarrow> 's walkState \<Rightarrow> aerr option \<times> 's walkState" where
  "walkBzip2 wk inner name data s =
     (let ((value, copyErr), s1) = expandedSpool wk name (ae_bzip2 (wk_env wk) (sp_bytes data)) (-1) s in
      case copyErr of
        Some e \<Rightarrow> (Some e, s1)
      | None \<Rightarrow>
        case value of
          None \<Rightarrow> (None, s1)
        | Some v \<Rightarrow> descend_value wk inner (inner_name name ''.bz2'' ''!bz2'') v s1)"

section \<open>The walk\<close>

function walk :: "'s walker \<Rightarrow> string \<Rightarrow> spool \<Rightarrow> int \<Rightarrow> 's walkState \<Rightarrow> aerr option \<times> 's walkState" where
  "walk wk name data depth s =
     (if ws_terminal s then (None, s)
      else
        case ws_poll wk s of
          (Some e, s1) \<Rightarrow> (Some (ACtx e), s1)
        | (None, s1) \<Rightarrow>
          if MaxDepth (wk_limits wk) < depth
          then (None, ws_partial ''max-depth'' name (AMsg (''depth exceeds '' @ itoa (MaxDepth (wk_limits wk)))) s1)
          else
            case spool_kind (wk_env wk) data (ws_world s1) of
              (Inl e, w) \<Rightarrow> (Some (APartial ''corrupt-entry'' name e), s1\<lparr>ws_world := w\<rparr>)
            | (Inr k, w) \<Rightarrow>
              let s2 = s1\<lparr>ws_world := w\<rparr>; inner = (\<lambda>name value s. walk wk name value (depth + 1) s) in
              case k of
                kindZip \<Rightarrow> walkZip wk inner name data s2
              | kindTar \<Rightarrow> walkTar wk inner name data s2
              | kindGzip \<Rightarrow> walkGzip wk inner name data s2
              | kindBzip2 \<Rightarrow> walkBzip2 wk inner name data s2
              | kindNone \<Rightarrow> emitEntry wk name data s2)"
  by pat_completeness auto
termination
  by (relation "measure (\<lambda>(wk, name, data, depth, s). nat (MaxDepth (wk_limits wk) + 1 - depth))") auto

declare walk.simps [simp del]

definition new_walkState :: "world \<Rightarrow> 's \<Rightarrow> 's walkState" where
  "new_walkState w c =
     \<lparr>ws_expanded = 0, ws_files = 0, ws_headers = 0, ws_errs = [], ws_terminal = False, ws_rejected = 0, ws_world = w, ws_client = c\<rparr>"

definition walkRoot :: "'s walker \<Rightarrow> string \<Rightarrow> spool \<Rightarrow> world \<times> 's \<Rightarrow> aerr option \<times> world \<times> 's" where
  "walkRoot wk rootName root ws =
     (case poll (wk_env wk) (fst ws) of
        (Some e, w1) \<Rightarrow> (Some (ACtx e), w1, snd ws)
      | (None, w1) \<Rightarrow>
        case spool_kind (wk_env wk) root w1 of
          (Inl e, w2) \<Rightarrow> (Some (APartial ''corrupt-archive'' rootName e), w2, snd ws)
        | (Inr k, w2) \<Rightarrow>
          if k = kindNone then (None, w2, snd ws)
          else
            let (err, s) = walk wk rootName root 0 (new_walkState w2 (snd ws)) in
            (join_errs (map Some (ws_errs s) @ [err]), ws_world s, ws_client s))"

definition normalizeWalkError :: "string \<Rightarrow> aerr option \<Rightarrow> aerr option" where
  "normalizeWalkError rootName err =
     (case err of
        None \<Rightarrow> None
      | Some e \<Rightarrow>
        if is_ctx_err e then Some e
        else if has_partial e then Some e
        else if has_spool_limit e then Some (APartial ''max-input-bytes'' rootName e)
        else Some (APartial ''corrupt-archive'' rootName e))"

definition archive_opts :: spoolOptions where
  "archive_opts = \<lparr>so_threshold = archiveSpillThreshold, so_capacityHint = 0\<rparr>"

definition root_name :: "string \<Rightarrow> string" where
  "root_name rootName = (if rootName = [] then ''<archive>'' else rootName)"

definition new_walker :: "archive_env \<Rightarrow> Limits \<Rightarrow> (StreamEntry \<Rightarrow> 's \<Rightarrow> aerr option \<times> 's) \<Rightarrow> 's walker" where
  "new_walker env lim visit = \<lparr>wk_env = env, wk_limits = withDefaults lim, wk_visit = visit, wk_spool = archive_opts\<rparr>"

definition WalkStreamContext ::
  "archive_env \<Rightarrow> string \<Rightarrow> stream \<Rightarrow> int \<Rightarrow> Limits \<Rightarrow> (StreamEntry \<Rightarrow> 's \<Rightarrow> aerr option \<times> 's) \<Rightarrow> world \<times> 's \<Rightarrow>
   aerr option \<times> world \<times> 's" where
  "WalkStreamContext env rootName input sz lim visit ws =
     (let wk = new_walker env lim visit; root = root_name rootName;
          (err, ws') = withSpool env input sz (MaxInputBytes (wk_limits wk)) archive_opts (walkRoot wk root) ws in
      (normalizeWalkError root err, ws'))"

definition WalkBytesContext ::
  "archive_env \<Rightarrow> string \<Rightarrow> bytes \<Rightarrow> Limits \<Rightarrow> (StreamEntry \<Rightarrow> 's \<Rightarrow> aerr option \<times> 's) \<Rightarrow> world \<times> 's \<Rightarrow> aerr option \<times> world \<times> 's" where
  "WalkBytesContext env rootName data lim visit ws =
     (let wk = new_walker env lim visit; root = root_name rootName in
      if MaxInputBytes (wk_limits wk) < int (length data)
      then (normalizeWalkError root (Some (ASpoolLimit (MaxInputBytes (wk_limits wk)))), ws)
      else
        let (err, ws') = walkRoot wk root \<lparr>sp_threshold = archiveSpillThreshold, sp_mem = data, sp_file = None, sp_size = int (length data)\<rparr> ws in
        (normalizeWalkError root err, ws'))"

text \<open>\<^verbatim>\<open>WalkContext\<close>: the callback collects the entries.\<close>

definition collect_entry :: "StreamEntry \<Rightarrow> (string \<times> bytes) list \<Rightarrow> aerr option \<times> (string \<times> bytes) list" where
  "collect_entry entry entries = (None, entries @ [(se_Path entry, se_bytes entry)])"

definition WalkContext ::
  "archive_env \<Rightarrow> string \<Rightarrow> bytes \<Rightarrow> Limits \<Rightarrow> world \<Rightarrow> (string \<times> bytes) list \<times> aerr option \<times> world" where
  "WalkContext env rootName data lim w =
     (if \<not> LooksLikeArchive data then ([], None, w)
      else let (err, w', entries) = WalkBytesContext env rootName data lim collect_entry (w, []) in (entries, err, w'))"

end
