(* ===== verification/ArchiveFormatCorrect.thy ===== *)
theory ArchiveFormatCorrect
  imports ArchiveFormat
begin

text \<open>
  Correctness of format detection, entry names, tar size fields and the preflight walks.
\<close>

section \<open>Detection\<close>

lemma slice_take: "hi \<le> n \<Longrightarrow> slice lo hi (take n xs) = slice lo hi xs"
  by (simp add: slice_def drop_take)

lemma prefix_take_le: "length p \<le> n \<Longrightarrow> prefix p (take n xs) \<longleftrightarrow> prefix p xs"
  by (metis prefix_length_prefix take_is_prefix prefix_order.trans prefix_take_iff take_take min.absorb1)

lemma detect_take: "512 \<le> n \<Longrightarrow> detect (take n data) = detect data"
  unfolding detect_def by (subst prefix_take_le | simp add: slice_take min_def)+

section \<open>Entry names\<close>

lemma clean_fold:
  "''..'' \<notin> set elems \<Longrightarrow> foldl (clean_step rooted) out elems = rev (filter (\<lambda>e. e \<noteq> [] \<and> e \<noteq> ''.'') elems) @ out"
  by (induction elems arbitrary: out) auto

lemma split_join_byte:
  "fs \<noteq> [] \<Longrightarrow> \<forall>f \<in> set fs. sep \<notin> set f \<Longrightarrow> split_byte sep (join_byte sep fs) = fs"
proof (induction sep fs rule: join_byte.induct)
  case (2 sep f)
  then show ?case by (induction f) auto
next
  case (3 sep f g fs)
  have "split_byte sep (f @ sep # rest) = f # split_byte sep rest" if "sep \<notin> set f" for f rest
    using that by (induction f) auto
  then show ?case using 3 by simp
qed simp

lemma join_byte_set: "set (join_byte sep fs) \<subseteq> insert sep (\<Union> (set ` set fs))"
  by (induction sep fs rule: join_byte.induct) auto

lemma split_byte_set: "f \<in> set (split_byte sep s) \<Longrightarrow> set f \<subseteq> set s"
proof (induction s arbitrary: f)
  case (Cons c s)
  obtain g gs where "split_byte sep s = g # gs" by (metis list.exhaust split_byte_nonempty)
  with Cons show ?case by (fastforce split: if_splits)
qed simp

lemma join_byte_hd: "fs \<noteq> [] \<Longrightarrow> hd fs \<noteq> [] \<Longrightarrow> join_byte sep fs \<noteq> [] \<and> hd (join_byte sep fs) = hd (hd fs)"
  by (induction sep fs rule: join_byte.induct) auto

definition plain_elems :: "string \<Rightarrow> string list" where
  "plain_elems name = filter (\<lambda>e. e \<noteq> [] \<and> e \<noteq> ''.'') (split_byte CHR ''/'' name)"

lemma path_Clean_plain:
  assumes "''..'' \<notin> set (split_byte CHR ''/'' name)" "\<not> has_prefix name ''/''"
  shows "path_Clean name = (if plain_elems name = [] then ''.'' else join_byte CHR ''/'' (plain_elems name))"
proof (cases "name = []")
  case False
  have "join_byte CHR ''/'' (plain_elems name) \<noteq> []" if "plain_elems name \<noteq> []"
  proof -
    have "hd (plain_elems name) \<in> set (plain_elems name)" using that by simp
    then have "hd (plain_elems name) \<noteq> []" unfolding plain_elems_def set_filter by simp
    then show ?thesis using join_byte_hd [OF that] by blast
  qed
  then show ?thesis
    using assms False by (simp add: path_Clean_def clean_fold [OF assms(1)] Let_def flip: plain_elems_def)
qed (simp add: path_Clean_def plain_elems_def)

lemma split_plain: "plain_elems name \<noteq> [] \<Longrightarrow> split_byte CHR ''/'' (join_byte CHR ''/'' (plain_elems name)) = plain_elems name"
  by (rule split_join_byte) (auto simp: plain_elems_def dest: split_byte_no_sep)


text \<open>The drive-letter check is made before cleaning, so a name that only cleans to one is accepted.\<close>

lemma safeEntryName_drive: "safeEntryName ''./C:/x'' = Some ''C:/x''"
  by code_simp


section \<open>Tar size fields\<close>

definition be_value :: "nat \<Rightarrow> bytes \<Rightarrow> nat" where
  "be_value v cs = foldl (\<lambda>v c. v * 256 + of_char c) v cs"

lemma be_value_Cons: "be_value v (c # cs) = be_value (v * 256 + of_char c) cs"
  by (simp add: be_value_def)

lemma be_value_ge: "v \<le> be_value v cs"
proof (induction cs arbitrary: v)
  case (Cons c cs)
  show ?case using Cons [of "v * 256 + of_char c"] unfolding be_value_Cons by linarith
qed (simp add: be_value_def)

lemma base256_loop_value:
  "0 < i \<Longrightarrow> v \<le> maxUint64 \<Longrightarrow>
   base256_loop i v cs = (if be_value v cs \<le> maxUint64 then Inr (be_value v cs) else Inl (AMsg ''tar: size field overflows uint64''))"
proof (induction cs arbitrary: i v)
  case (Cons c cs)
  have c: "of_char c < (256 :: nat)" by simp
  have guard: "(maxUint64 - of_char c) div 256 < v \<longleftrightarrow> maxUint64 < v * 256 + of_char c"
  proof -
    have "(maxUint64 - of_char c) div 256 < v \<longleftrightarrow> maxUint64 - of_char c < v * 256" by (simp add: div_less_iff_less_mult)
    moreover have "256 \<le> maxUint64" by (simp add: maxUint64_def)
    ultimately show ?thesis using c by linarith
  qed
  show ?case
  proof (cases "maxUint64 < v * 256 + of_char c")
    case True
    then have "maxUint64 < be_value v (c # cs)" using be_value_ge [of "v * 256 + of_char c" cs] unfolding be_value_Cons by linarith
    then show ?thesis using True guard Cons.prems(1) by simp
  next
    case False
    then show ?thesis using Cons.IH [of "Suc i" "v * 256 + of_char c"] guard Cons.prems(1) by (simp add: be_value_Cons)
  qed
qed (simp add: be_value_def)

primrec be_digits :: "nat \<Rightarrow> nat \<Rightarrow> bytes" where
  "be_digits 0 v = []"
| "be_digits (Suc k) v = be_digits k (v div 256) @ [char_of (v mod 256)]"

lemma be_value_bytes: "be_value 0 (be_digits k v) = v mod 256 ^ k"
proof (induction k arbitrary: v)
  case (Suc k)
  have "be_value 0 (be_digits (Suc k) v) = (v div 256 mod 256 ^ k) * 256 + v mod 256" using Suc by (simp add: be_value_def)
  then show ?case by (simp add: mod_mult2_eq mult.commute)
qed (simp add: be_value_def)

primrec octal_digits :: "nat \<Rightarrow> nat \<Rightarrow> bytes" where
  "octal_digits 0 v = []"
| "octal_digits (Suc k) v = octal_digits k (v div 8) @ [char_of (48 + v mod 8)]"

lemma octal_loop_append: "octal_loop v (cs @ ds) = (case octal_loop v cs of None \<Rightarrow> None | Some w \<Rightarrow> octal_loop w ds)"
  by (induction cs arbitrary: v) (simp_all add: Let_def)

lemma octal_char: "d < 8 \<Longrightarrow> CHR ''0'' \<le> char_of (48 + d :: nat) \<and> char_of (48 + d :: nat) \<le> CHR ''7''"
  by (simp add: less_eq_char_def)

lemma octal_loop_digits: "v mod 8 ^ k \<le> maxInt64 \<Longrightarrow> octal_loop 0 (octal_digits k v) = Some (v mod 8 ^ k)"
proof (induction k arbitrary: v)
  case (Suc k)
  have split: "v mod (8 * 8 ^ k) = (v div 8 mod 8 ^ k) * 8 + v mod 8" by (simp add: mod_mult2_eq)
  then have "octal_loop 0 (octal_digits k (v div 8)) = Some (v div 8 mod 8 ^ k)" using Suc by simp
  then show ?case using Suc.prems octal_char [of "v mod 8"] by (simp add: octal_loop_append split Let_def)
qed simp

lemma octal_digits_set: "c \<in> set (octal_digits k v) \<Longrightarrow> CHR ''0'' \<le> c \<and> c \<le> CHR ''7''"
  by (induction k arbitrary: v) (auto simp: octal_char)

lemma octal_loop_bound: "octal_loop v cs = Some n \<Longrightarrow> v \<le> maxInt64 \<Longrightarrow> n \<le> maxInt64"
  by (induction cs arbitrary: v) (auto simp: Let_def split: if_splits)

lemma length_octal_digits [simp]: "length (octal_digits k v) = k"
  by (induction k arbitrary: v) auto

lemma trim_digits:
  assumes "0 < k"
  shows "trim_field (octal_digits k v @ [CHR 0x00]) = octal_digits k v"
proof -
  have no: "\<not> trim_byte c" if "c \<in> set (octal_digits k v)" for c
    using octal_digits_set [OF that] by (auto simp: trim_byte_def less_eq_char_def)
  have "octal_digits k v \<noteq> []" using assms by (metis length_octal_digits length_0_conv less_irrefl)
  then have "dropWhile trim_byte (rev (octal_digits k v)) = rev (octal_digits k v)"
    "dropWhile trim_byte (octal_digits k v @ [CHR 0x00]) = octal_digits k v @ [CHR 0x00]"
    using no by (simp_all add: dropWhile_eq_self_iff hd_rev)
  then show ?thesis by (simp add: trim_field_def trim_byte_def)
qed

lemma parseTarSize_bound: "parseTarSize f = Inr n \<Longrightarrow> n \<le> maxInt64"
  by (auto simp: parseTarSize_def Let_def maxInt64_def split: list.splits if_splits sum.splits option.splits
      dest: octal_loop_bound [unfolded maxInt64_def])

lemma parse_octal:
  assumes v: "v < 8 ^ 11"
  shows "parseTarSize (octal_digits 11 v @ [CHR 0x00]) = Inr v"
proof -
  obtain d ds where ds: "octal_digits 11 v = d # ds" by (cases "octal_digits 11 v") (auto dest: arg_cong [of _ _ length])
  have "CHR ''0'' \<le> d" "d \<le> CHR ''7''" using octal_digits_set [of d 11 v] ds by simp_all
  then have "(of_char d :: nat) < 2 ^ 7" by (simp add: less_eq_char_def)
  then have "(of_char d :: nat) AND 2 ^ 7 = 0" unfolding and_exp_eq_0_iff_not_bit by (simp add: bit_iff_odd)
  then have "(of_char d :: nat) AND 0x80 = 0" by simp
  then show ?thesis
    using v octal_loop_digits [of v 11] trim_digits [of 11 v] ds by (simp add: parseTarSize_def maxInt64_def)
qed

text \<open>C34. Tar size fields: the 12-byte octal form written by tar tools and the base-256 form are both read back exactly,
  and whatever the field holds, a size that is accepted fits in a signed 64-bit integer.\<close>

theorem parseTarSize_roundtrip:
  "(v < 8 ^ 11 \<longrightarrow> parseTarSize (octal_digits 11 v @ [CHR 0x00]) = Inr v) \<and>
   (v \<le> maxInt64 \<longrightarrow> parseTarSize (CHR 0x80 # be_digits 11 v) = Inr v) \<and>
   (v > maxInt64 \<and> v < 256 ^ 11 \<longrightarrow> (\<exists>e. parseTarSize (CHR 0x80 # be_digits 11 v) = Inl e)) \<and>
   (parseTarSize f = Inr n \<longrightarrow> n \<le> maxInt64)"
proof (intro conjI impI)
  assume "v < 8 ^ 11"
  then show "parseTarSize (octal_digits 11 v @ [CHR 0x00]) = Inr v" by (rule parse_octal)
next
  have loop: "base256_loop 0 0 (CHR 0x80 # be_digits 11 v) = base256_loop 1 0 (be_digits 11 v)" by (simp add: maxUint64_def)
  have bytes: "be_value 0 (be_digits 11 v) = v mod 256 ^ 11" by (rule be_value_bytes)
  show "parseTarSize (CHR 0x80 # be_digits 11 v) = Inr v" if "v \<le> maxInt64"
    using that loop bytes base256_loop_value [of 1 0 "be_digits 11 v"] by (simp add: parseTarSize_def maxInt64_def maxUint64_def del: base256_loop.simps)
  show "\<exists>e. parseTarSize (CHR 0x80 # be_digits 11 v) = Inl e" if "v > maxInt64 \<and> v < 256 ^ 11"
    using that loop bytes base256_loop_value [of 1 0 "be_digits 11 v"] by (simp add: parseTarSize_def maxInt64_def maxUint64_def del: base256_loop.simps)
qed (rule parseTarSize_bound)

theorem parseTarSize_roundtrip_witness:
  "parseTarSize (octal_digits 11 4096 @ [CHR 0x00]) = Inr 4096 \<and> parseTarSize (CHR 0x80 # be_digits 11 (2 ^ 40)) = Inr (2 ^ 40)"
  using parseTarSize_roundtrip [of 4096] parseTarSize_roundtrip [of "2 ^ 40"] by (simp add: maxInt64_def)


section \<open>Tar preflight\<close>

lemma tar_padded_ge: "n \<le> tar_padded n"
  using div_mult_mod_eq [of "n + 511" 512] mod_less_divisor [of 512 "n + 511"] unfolding tar_padded_def by linarith

lemma tar_header_room: "preflight_header block m avail = Inr (m', padded) \<Longrightarrow> int padded \<le> avail"
  by (auto simp: preflight_header_def split: sum.splits if_splits)

lemma preflightTar_loop_bound:
  "preflightTar_loop ctx reader sz maxHeaders offset m headers t = (Inr n, t') \<Longrightarrow> offset \<le> sz \<Longrightarrow> headers \<le> maxHeaders \<Longrightarrow>
   headers \<le> n \<and> n \<le> maxHeaders \<and> 512 * (n - headers) \<le> sz - offset"
proof (induction ctx reader sz maxHeaders offset m headers t rule: preflightTar_loop.induct)
  case (1 ctx reader sz maxHeaders offset m headers t)
  show ?case
  proof (cases "sz \<le> offset")
    case True
    then show ?thesis using "1.prems" by (simp add: preflightTar_loop.simps)
  next
    case False
    then have c: "ctx t = None" and room: "\<not> sz - offset < 512"
      using "1.prems"(1) by (auto simp: preflightTar_loop.simps split: option.splits if_splits)
    obtain block where block: "reader (t + 1) offset 512 = (block, None)"
      using "1.prems"(1) False c room by (subst (asm) preflightTar_loop.simps) (auto split: prod.splits option.splits)
    show ?thesis
    proof (cases "list_all (\<lambda>c. c = CHR 0x00) block")
      case True
      then show ?thesis using "1.prems" False c room block by (subst (asm) preflightTar_loop.simps) simp
    next
      case nonzero: False
      then have max: "\<not> maxHeaders < headers + 1"
        using "1.prems"(1) False c room block by (subst (asm) preflightTar_loop.simps) (auto split: if_splits)
      obtain m' padded where h: "preflight_header block m (sz - offset - 512) = Inr (m', padded)"
        using "1.prems"(1) False c room block nonzero max
        by (subst (asm) preflightTar_loop.simps) (auto split: sum.splits)
      then have "preflightTar_loop ctx reader sz maxHeaders (offset + 512 + int padded) m' (headers + 1) (t + 2) = (Inr n, t')"
        using "1.prems"(1) False c room block nonzero max by (subst (asm) preflightTar_loop.simps) simp
      with "1.IH" [OF False c room block [symmetric] refl nonzero max h refl this] show ?thesis
        using tar_header_room [OF h] max by simp
    qed
  qed
qed

text \<open>A tar archive as a sequence of physical entries: a 512-byte header block whose size field states the body's
  length, the body, and padding to the next block.\<close>

definition tar_entry_ok :: "bytes \<times> bytes \<Rightarrow> bool" where
  "tar_entry_ok = (\<lambda>(block, body). length block = 512 \<and> \<not> list_all (\<lambda>c. c = CHR 0x00) block \<and>
     parseTarSize (slice 124 136 block) = Inr (length body) \<and> \<not> tar_sparse_type (block ! 156))"

definition tar_entry_bytes :: "bytes \<times> bytes \<Rightarrow> bytes" where
  "tar_entry_bytes = (\<lambda>(block, body). block @ body @ replicate (tar_padded (length body) - length body) (CHR 0x00))"

definition tar_metadata :: "(bytes \<times> bytes) list \<Rightarrow> int" where
  "tar_metadata es = sum_list (map (\<lambda>(block, body). if tar_metadata_type (block ! 156) then int (length body) else 0) es)"

definition tar_trailer :: "bytes \<Rightarrow> bool" where
  "tar_trailer trailer \<longleftrightarrow> trailer = [] \<or> prefix (replicate 512 (CHR 0x00)) trailer"

lemma tar_metadata_nonneg: "0 \<le> tar_metadata es"
  unfolding tar_metadata_def by (rule sum_list_nonneg) auto

lemma bytes_reader_at:
  "bytes_reader (pre @ block @ post) t (int (length pre)) (length block) = (block, None)" if "block \<noteq> []"
  using that by (cases block) (simp_all add: bytes_reader_def Let_def)

lemma length_tar_entry: "length block = 512 \<Longrightarrow> length (tar_entry_bytes (block, body)) = 512 + tar_padded (length body)"
  using tar_padded_ge [of "length body"] by (simp add: tar_entry_bytes_def)

lemma tar_header_ok:
  assumes "tar_entry_ok (block, body)" "m + tar_metadata [(block, body)] \<le> maxTarMetadataBytes" "int (tar_padded (length body)) \<le> avail"
    "length body \<le> maxInt64 - 511"
  shows "preflight_header block m avail = Inr (m + tar_metadata [(block, body)], tar_padded (length body))"
  using assms by (auto simp: preflight_header_def tar_entry_ok_def tar_metadata_def)

lemma preflightTar_loop_exact:
  assumes "\<forall>e \<in> set es. tar_entry_ok e" "tar_trailer trailer" "\<And>t. ctx t = None"
    and "m + tar_metadata es \<le> maxTarMetadataBytes" "headers + int (length es) \<le> maxHeaders"
    and "data = pre @ concat (map tar_entry_bytes es) @ trailer" "length data \<le> maxInt64 - 511"
  shows "\<exists>t'. preflightTar_loop ctx (bytes_reader data) (int (length data)) maxHeaders (int (length pre)) m headers t =
    (Inr (headers + int (length es)), t')"
  using assms(1,4-7)
proof (induction es arbitrary: pre m headers t)
  case Nil
  show ?case
  proof (cases "trailer = []")
    case True
    then show ?thesis using Nil by (simp add: preflightTar_loop.simps)
  next
    case False
    then obtain rest where "trailer = replicate 512 (CHR 0x00) @ rest" using assms(2) by (auto simp: tar_trailer_def prefix_def)
    then have data: "data = pre @ replicate 512 (CHR 0x00) @ rest" using Nil by simp
    have "bytes_reader data (t + 1) (int (length pre)) 512 = (replicate 512 (CHR 0x00), None)"
      using bytes_reader_at [of "replicate 512 (CHR 0x00)" pre rest "t + 1"] by (simp add: data)
    then show ?thesis using assms(3) by (subst preflightTar_loop.simps) (simp add: data list_all_iff)
  qed
next
  case (Cons e es)
  obtain block body where e: "e = (block, body)" by (cases e)
  have ok: "tar_entry_ok (block, body)" "length block = 512" "\<not> list_all (\<lambda>c. c = CHR 0x00) block"
    using Cons.prems(1) e by (auto simp: tar_entry_ok_def)
  let ?rest = "concat (map tar_entry_bytes es) @ trailer"
  have data: "data = pre @ block @ (body @ replicate (tar_padded (length body) - length body) (CHR 0x00) @ ?rest)"
    using Cons.prems(4) e by (simp add: tar_entry_bytes_def)
  have len: "length data = length pre + 512 + tar_padded (length body) + length ?rest"
    using Cons.prems(4) e length_tar_entry [OF ok(2), of body] by simp
  have meta: "tar_metadata (e # es) = tar_metadata [(block, body)] + tar_metadata es" by (simp add: tar_metadata_def e)
  have "m + tar_metadata [(block, body)] \<le> maxTarMetadataBytes" using Cons.prems(2) tar_metadata_nonneg [of es] unfolding meta by linarith
  moreover have "int (tar_padded (length body)) \<le> int (length data) - int (length pre) - 512" using len by simp
  moreover have "length body \<le> maxInt64 - 511" using Cons.prems(5) len tar_padded_ge [of "length body"] by linarith
  ultimately have h: "preflight_header block m (int (length data) - int (length pre) - 512) = Inr (m + tar_metadata [(block, body)], tar_padded (length body))"
    by (rule tar_header_ok [OF ok(1)])
  have "bytes_reader data (t + 1) (int (length pre)) 512 = (block, None)"
    using bytes_reader_at [of block pre _ "t + 1"] ok(2) unfolding data by (metis length_0_conv zero_neq_numeral)
  then have step: "preflightTar_loop ctx (bytes_reader data) (int (length data)) maxHeaders (int (length pre)) m headers t =
      preflightTar_loop ctx (bytes_reader data) (int (length data)) maxHeaders (int (length pre) + 512 + int (tar_padded (length body)))
        (m + tar_metadata [(block, body)]) (headers + 1) (t + 2)"
    using assms(3) ok(3) h len Cons.prems(3) by (subst preflightTar_loop.simps) simp
  have pos: "int (length pre) + 512 + int (tar_padded (length body)) = int (length (pre @ tar_entry_bytes e))"
    using length_tar_entry [OF ok(2), of body] by (simp add: e)
  show ?case unfolding step pos
    using Cons.IH [of "m + tar_metadata [(block, body)]" "headers + 1" "pre @ tar_entry_bytes e" "t + 2"] Cons.prems
    unfolding meta by (simp add: algebra_simps)
qed

lemma preflightTar_bound:
  assumes "preflightTar ctx reader sz maxHeaders t = (Inr n, t')"
  shows "0 \<le> n \<and> n \<le> maxHeaders \<and> 512 * n \<le> sz"
proof -
  have run: "preflightTar_loop ctx reader sz maxHeaders 0 0 0 t = (Inr n, t')" and "0 \<le> sz" "0 \<le> maxHeaders"
    using assms by (auto simp: preflightTar_def split: if_splits)
  with preflightTar_loop_bound [OF run] show ?thesis by auto
qed

text \<open>C31. The tar preflight is exact and bounded: on an archive of well-formed physical entries within the header and metadata
  limits it counts exactly the entries, with or without the closing zero blocks, unless the context is cancelled; and whatever the
  reader delivers, an accepted count is within the header limit and within the archive's size.\<close>

theorem preflightTar_exact:
  "(list_all tar_entry_ok es \<and> tar_trailer trailer \<and> (\<forall>t. ctx t = None) \<and> tar_metadata es \<le> maxTarMetadataBytes \<and>
      int (length es) \<le> maxHeaders \<and> length (concat (map tar_entry_bytes es) @ trailer) \<le> maxInt64 - 511 \<longrightarrow>
    fst (preflightTar ctx (bytes_reader (concat (map tar_entry_bytes es) @ trailer))
       (int (length (concat (map tar_entry_bytes es) @ trailer))) maxHeaders t) = Inr (int (length es))) \<and>
   (fst (preflightTar ctx reader sz maxHeaders t) = Inr n \<longrightarrow> 0 \<le> n \<and> n \<le> maxHeaders \<and> 512 * n \<le> sz)"
proof (intro conjI impI)
  assume *: "list_all tar_entry_ok es \<and> tar_trailer trailer \<and> (\<forall>t. ctx t = None) \<and> tar_metadata es \<le> maxTarMetadataBytes \<and>
      int (length es) \<le> maxHeaders \<and> length (concat (map tar_entry_bytes es) @ trailer) \<le> maxInt64 - 511"
  then obtain t' where "preflightTar_loop ctx (bytes_reader (concat (map tar_entry_bytes es) @ trailer))
      (int (length (concat (map tar_entry_bytes es) @ trailer))) maxHeaders (int (length [])) 0 0 t = (Inr (0 + int (length es)), t')"
    using preflightTar_loop_exact [of es trailer ctx 0 0 maxHeaders "concat (map tar_entry_bytes es) @ trailer" "[]" t]
    by (auto simp: list_all_iff)
  then show "fst (preflightTar ctx (bytes_reader (concat (map tar_entry_bytes es) @ trailer))
       (int (length (concat (map tar_entry_bytes es) @ trailer))) maxHeaders t) = Inr (int (length es))"
    using * by (auto simp: preflightTar_def)
next
  assume "fst (preflightTar ctx reader sz maxHeaders t) = Inr n"
  then obtain t' where "preflightTar ctx reader sz maxHeaders t = (Inr n, t')" by (cases "preflightTar ctx reader sz maxHeaders t") auto
  from preflightTar_bound [OF this] show "0 \<le> n" "n \<le> maxHeaders" "512 * n \<le> sz" by auto
qed

definition sample_block :: bytes where
  "sample_block = replicate 124 (CHR ''a'') @ octal_digits 11 3 @ [CHR 0x00] @ replicate 20 (CHR '' '') @ ''0'' @ replicate 355 (CHR 0x00)"

theorem preflightTar_exact_witness:
  "fst (preflightTar (\<lambda>_. None) (bytes_reader (tar_entry_bytes (sample_block, ''abc'') @ replicate 1024 (CHR 0x00))) 2048 10 0) = Inr 1"
proof -
  have "parseTarSize (octal_digits 11 3 @ [CHR 0x00]) = Inr 3" by (rule parse_octal) simp
  then have "length sample_block = 512" "\<not> list_all (\<lambda>c. c = CHR 0x00) sample_block"
    "parseTarSize (slice 124 136 sample_block) = Inr 3" "\<not> tar_sparse_type (sample_block ! 156)" "\<not> tar_metadata_type (sample_block ! 156)"
    by (simp_all add: sample_block_def slice_def nth_append tar_sparse_type_def tar_metadata_type_def del: octal_digits.simps)
  moreover from this have "length (tar_entry_bytes (sample_block, ''abc'')) = 1024" using length_tar_entry [of sample_block "''abc''"]
    by (simp add: tar_padded_def)
  moreover have "replicate 1024 (CHR 0x00) = replicate 512 (CHR 0x00) @ replicate 512 (CHR 0x00)"
    using replicate_add [of 512 512 "CHR 0x00"] by (simp only: numeral_plus_numeral add_num_simps)
  then have "tar_trailer (replicate 1024 (CHR 0x00))" unfolding tar_trailer_def by (blast intro: prefixI)
  ultimately show ?thesis
    using preflightTar_exact [of "[(sample_block, ''abc'')]" "replicate 1024 (CHR 0x00)" "\<lambda>_. None" 10 0]
    by (simp add: tar_entry_ok_def tar_metadata_def maxTarMetadataBytes_def maxInt64_def)
qed

section \<open>Zip preflight\<close>

primrec le_bytes :: "nat \<Rightarrow> nat \<Rightarrow> bytes" where
  "le_bytes 0 v = []"
| "le_bytes (Suc k) v = char_of (v mod 256) # le_bytes k (v div 256)"

lemma length_le_bytes [simp]: "length (le_bytes k v) = k"
  by (induction k arbitrary: v) auto

lemma le_nat_bytes [simp]: "le_nat (le_bytes k v) = v mod 256 ^ k"
  by (induction k arbitrary: v) (simp_all add: mod_mult2_eq)

lemma le_nat_zeros: "le_nat (replicate n (CHR 0x00)) = 0"
  by (induction n) auto

lemma countZip_bound:
  "countZipDirectory_loop ctx reader fin maxHeaders offset count t = (Inr n, t') \<Longrightarrow> offset \<le> fin \<Longrightarrow> count \<le> maxHeaders \<Longrightarrow>
   count \<le> n \<and> n \<le> maxHeaders \<and> 46 * (n - count) \<le> fin - offset"
proof (induction ctx reader fin maxHeaders offset count t rule: countZipDirectory_loop.induct)
  case (1 ctx reader fin maxHeaders offset count t)
  show ?case
  proof (cases "fin \<le> offset")
    case True
    then show ?thesis using "1.prems" by (simp add: countZipDirectory_loop.simps)
  next
    case False
    then have c: "ctx t = None" and room: "\<not> fin - offset < 46"
      using "1.prems"(1) by (auto simp: countZipDirectory_loop.simps split: option.splits if_splits)
    obtain h where h: "reader (t + 1) offset 46 = (h, None)"
      using "1.prems"(1) False c room by (subst (asm) countZipDirectory_loop.simps) (auto split: prod.splits option.splits)
    define step where "step = 46 + int (le_nat (slice 28 30 h)) + int (le_nat (slice 30 32 h)) + int (le_nat (slice 32 34 h))"
    have ok: "\<not> le_nat (slice 0 4 h) \<noteq> 0x02014b50" "\<not> maxHeaders < count + 1" "\<not> fin - offset < step"
      "countZipDirectory_loop ctx reader fin maxHeaders (offset + step) (count + 1) (t + 2) = (Inr n, t')"
      using "1.prems"(1) False c room h
      by (subst (asm) countZipDirectory_loop.simps, auto simp: step_def Let_def split: if_splits)+
    with "1.IH" [OF False c room h [symmetric] refl ok(1,2) step_def ok(3,4)] show ?thesis by (simp add: step_def)
  qed
qed

text \<open>A central directory as a sequence of records: a 46-byte header with the signature and the lengths of the
  name, the extra field and the comment, then those fields.\<close>

definition zip_record_ok :: "bytes \<times> bytes \<Rightarrow> bool" where
  "zip_record_ok = (\<lambda>(h, fields). length h = 46 \<and> le_nat (slice 0 4 h) = 0x02014b50 \<and>
     length fields = le_nat (slice 28 30 h) + le_nat (slice 30 32 h) + le_nat (slice 32 34 h))"

definition zip_directory :: "(bytes \<times> bytes) list \<Rightarrow> bytes" where
  "zip_directory rs = concat (map (\<lambda>(h, fields). h @ fields) rs)"

lemma countZip_exact:
  assumes "\<forall>r \<in> set rs. zip_record_ok r" "\<And>t. ctx t = None" "count + int (length rs) \<le> maxHeaders"
    and "data = pre @ zip_directory rs @ post" "fin = int (length pre + length (zip_directory rs))"
  shows "\<exists>t'. countZipDirectory_loop ctx (bytes_reader data) fin maxHeaders (int (length pre)) count t = (Inr (count + int (length rs)), t')"
  using assms(1,3-5)
proof (induction rs arbitrary: pre count t)
  case Nil
  then show ?case by (simp add: countZipDirectory_loop.simps zip_directory_def)
next
  case (Cons r rs)
  obtain h fields where r: "r = (h, fields)" by (cases r)
  have ok: "length h = 46" "le_nat (slice 0 4 h) = 0x02014b50"
    "length fields = le_nat (slice 28 30 h) + le_nat (slice 30 32 h) + le_nat (slice 32 34 h)"
    using Cons.prems(1) r by (auto simp: zip_record_ok_def)
  have data: "data = pre @ h @ (fields @ zip_directory rs @ post)" using Cons.prems(3) r by (simp add: zip_directory_def)
  have "h \<noteq> []" using ok(1) by auto
  then have read: "bytes_reader data (t + 1) (int (length pre)) 46 = (h, None)"
    using bytes_reader_at [of h pre _ "t + 1"] ok(1) unfolding data by metis
  have fin: "fin = int (length pre) + 46 + int (length fields) + int (length (zip_directory rs))"
    using Cons.prems(4) r ok(1) by (simp add: zip_directory_def)
  have step: "countZipDirectory_loop ctx (bytes_reader data) fin maxHeaders (int (length pre)) count t =
      countZipDirectory_loop ctx (bytes_reader data) fin maxHeaders (int (length pre) + 46 + int (length fields)) (count + 1) (t + 2)"
    using assms(2) ok read fin Cons.prems(2) by (subst countZipDirectory_loop.simps) (simp add: Let_def algebra_simps)
  have pos: "int (length pre) + 46 + int (length fields) = int (length (pre @ h @ fields))" using ok(1) by simp
  show ?case unfolding step pos
    using Cons.IH [of "count + 1" "pre @ h @ fields" "t + 2"] Cons.prems r fin ok(1) by (simp add: algebra_simps zip_directory_def)
qed

lemma int64_of_le: "0 \<le> x \<Longrightarrow> int64_of x \<le> x"
  using zmod_le_nonneg_dividend [of "x + 2 ^ 63" "2 ^ 64"] unfolding int64_of_def by simp

lemma int64_of_id: "0 \<le> x \<Longrightarrow> x < 2 ^ 63 \<Longrightarrow> int64_of x = x"
  by (simp add: int64_of_def)

lemma countZipDirectory_bound:
  assumes "countZipDirectory ctx reader offset sz maxHeaders t = (Inr n, t')" "0 \<le> maxHeaders"
  shows "0 \<le> n \<and> n \<le> maxHeaders \<and> 46 * n \<le> sz"
proof -
  have *: "0 \<le> offset" "0 \<le> sz" "offset \<le> int64_of (offset + sz)"
    "countZipDirectory_loop ctx reader (int64_of (offset + sz)) maxHeaders offset 0 t = (Inr n, t')"
    using assms(1) by (auto simp: countZipDirectory_def Let_def split: if_splits)
  then show ?thesis using countZip_bound [OF *(4,3) assms(2)] int64_of_le [of "offset + sz"] by auto
qed

lemma preflightZip_accepts:
  assumes "preflightZip ctx reader sz maxHeaders t = (Inr n, t')"
  shows "\<exists>offset dsize t0. countZipDirectory ctx reader offset (int dsize) maxHeaders t0 = (Inr n, t') \<and> dsize \<le> maxZipDirectoryBytes \<and>
    0 \<le> maxHeaders"
proof -
  obtain multi z t0 where run: "zip_directory_count ctx reader sz maxHeaders multi z t0 = (Inr n, t')"
    using assms unfolding preflightZip_def Let_def
    by (auto split: if_splits prod.splits option.splits ioerr.splits sum.splits)
  moreover have "0 \<le> maxHeaders" using assms by (auto simp: preflightZip_def split: if_splits)
  ultimately show ?thesis
    by (auto simp: zip_directory_count_def split: if_splits prod.splits sum.splits) (metis linorder_not_less)
qed

definition zip_eocd :: "nat \<Rightarrow> nat \<Rightarrow> nat \<Rightarrow> bytes" where
  "zip_eocd count dsize offset =
     le_bytes 4 0x06054b50 @ le_bytes 2 0 @ le_bytes 2 0 @ le_bytes 2 count @ le_bytes 2 count @ le_bytes 4 dsize
       @ le_bytes 4 offset @ le_bytes 2 0"

lemma slice_append_right: "slice (length xs + a) (length xs + b) (xs @ ys) = slice a b ys"
  by (simp add: slice_def)

lemma zip_eocd_fields:
  "length (zip_eocd c d off) = 22" "le_nat (slice 0 4 (zip_eocd c d off)) = 0x06054b50"
  "le_nat (slice 4 6 (zip_eocd c d off)) = 0" "le_nat (slice 6 8 (zip_eocd c d off)) = 0"
  "le_nat (slice 8 10 (zip_eocd c d off)) = c mod 65536" "le_nat (slice 10 12 (zip_eocd c d off)) = c mod 65536"
  "le_nat (slice 12 16 (zip_eocd c d off)) = d mod 4294967296" "le_nat (slice 16 20 (zip_eocd c d off)) = off mod 4294967296"
  "le_nat (slice 20 22 (zip_eocd c d off)) = 0"
  by (simp_all add: zip_eocd_def slice_def del: le_bytes.simps)

lemma find_eocd_last: "find_eocd (xs @ zip_eocd c d off) = Some (length xs)"
proof -
  let ?tail = "xs @ zip_eocd c d off"
  have "rev [0..<length ?tail - 21] = length xs # rev [0..<length xs]" by (simp add: zip_eocd_fields)
  then show ?thesis
    using slice_append_right [of xs 0 4 "zip_eocd c d off"] slice_append_right [of xs 20 22 "zip_eocd c d off"]
    by (simp add: find_eocd_def zip_eocd_fields)
qed

definition zip_archive :: "bytes \<Rightarrow> (bytes \<times> bytes) list \<Rightarrow> nat \<Rightarrow> bytes" where
  "zip_archive pre rs off = pre @ zip_directory rs @ zip_eocd (length rs) (length (zip_directory rs)) off"

lemma zip_tail_read:
  assumes "22 \<le> length data" "n = nat (min (int (length data)) 65557)"
  shows "bytes_reader data t (int (length data) - int n) n = (drop (length data - n) data, None)"
proof -
  have n: "n \<le> length data" "22 \<le> n" using assms by auto
  then have "nat (int (length data) - int n) = length data - n" by linarith
  then show ?thesis using n by (simp add: bytes_reader_def Let_def)
qed

lemma preflightZip_found:
  assumes "22 \<le> sz" "0 \<le> maxHeaders" "n = nat (min sz 65557)" "reader t (sz - int n) n = (tail, None)" "length tail = n"
    and "find_eocd tail = Some eocd" "zip_end_record reader tail eocd (sz - int n + int eocd) (t + 1) = (Inr (multi, z), t')"
  shows "preflightZip ctx reader sz maxHeaders t = zip_directory_count ctx reader sz maxHeaders multi z t'"
  using assms by (simp add: preflightZip_def Let_def)

lemma preflightZip_counts:
  assumes "\<forall>r \<in> set rs. zip_record_ok r" "\<And>t. ctx t = None" "length rs < 0xFFFF" "length (zip_directory rs) \<le> maxZipDirectoryBytes"
    "off < 0xFFFFFFFF" "off \<le> length (zip_archive pre rs off)" "int (length rs) \<le> maxHeaders" "length (zip_archive pre rs off) < 2 ^ 63"
  shows "fst (preflightZip ctx (bytes_reader (zip_archive pre rs off)) (int (length (zip_archive pre rs off))) maxHeaders t) = Inr (int (length rs))"
proof -
  let ?data = "zip_archive pre rs off" and ?dir = "zip_directory rs"
  let ?eocd = "zip_eocd (length rs) (length ?dir) off"
  define n where "n = nat (min (int (length ?data)) 65557)"
  define front where "front = drop (length ?data - n) (pre @ ?dir)"
  have len: "length ?data = length pre + length ?dir + 22" by (simp add: zip_archive_def zip_eocd_fields)
  have n: "22 \<le> n" "n \<le> length ?data" unfolding n_def len by auto
  have "drop (length ?data - n) ?data = front @ ?eocd"
    unfolding zip_archive_def front_def using n len by (simp add: zip_archive_def)
  then have read: "bytes_reader ?data t (int (length ?data) - int n) n = (front @ ?eocd, None)"
    using zip_tail_read [of ?data n t] n n_def by simp
  have front: "length front = n - 22" using n len by (simp add: front_def)
  define z where "z = \<lparr>ze_recordsDisk = length rs, ze_records = length rs, ze_directorySize = length ?dir, ze_directoryOffset = off,
    ze_directoryEnd = int (length ?data) - int n + int (length front)\<rparr>"
  have "length ?dir mod 4294967296 = length ?dir" "off mod 4294967296 = off" "length rs mod 65536 = length rs"
    using assms(3-5) by (simp_all add: maxZipDirectoryBytes_def)
  then have found: "zip_end_record (bytes_reader ?data) (front @ ?eocd) (length front) (int (length ?data) - int n + int (length front)) (t + 1) = (Inr (False, z), t + 1)"
    using assms(3-5) slice_append_right [of front _ _ ?eocd] zip_eocd_fields [of "length rs" "length ?dir" off]
    by (simp add: zip_end_record_def z_def Let_def maxZipDirectoryBytes_def)
  have e: "ze_directoryEnd z = int (length pre + length ?dir)" using n len front by (simp add: z_def)
  obtain t' where "countZipDirectory_loop ctx (bytes_reader ?data) (int (length pre + length ?dir)) maxHeaders (int (length pre)) 0 (t + 1) =
      (Inr (0 + int (length rs)), t')"
    using countZip_exact [where rs = rs and ctx = ctx and count = 0 and maxHeaders = maxHeaders and data = ?data and pre = pre and post = ?eocd
        and fin = "int (length pre + length ?dir)" and t = "t + 1"] assms(1,2,7)
    by (auto simp: zip_archive_def)
  then have "countZipDirectory ctx (bytes_reader ?data) (int (length pre)) (int (length ?dir)) maxHeaders (t + 1) = (Inr (int (length rs)), t')"
    using assms(8) len int64_of_id [of "int (length pre) + int (length ?dir)"] by (simp add: countZipDirectory_def Let_def)
  then have "fst (zip_directory_count ctx (bytes_reader ?data) (int (length ?data)) maxHeaders False z (t + 1)) = Inr (int (length rs))"
    using assms(4,6) e by (simp add: zip_directory_count_def z_def)
  moreover have "length (front @ ?eocd) = n" using front n by (simp add: zip_eocd_fields)
  ultimately show ?thesis
    using preflightZip_found [OF _ _ n_def read _ find_eocd_last found, of maxHeaders ctx] len assms(7) by simp
qed



end
