(* ===== verification/ArchiveSpool.thy ===== *)
theory ArchiveSpool
  imports Archive ArchiveFormatCorrect
begin

text \<open>
  Spools: what a copied value holds, how large it is, where it lives, and that every temporary file has one owner who removes it.
\<close>

section \<open>Temporary files\<close>

definition removes_ok :: "archive_env \<Rightarrow> bool" where
  "removes_ok env \<longleftrightarrow> (\<forall>t. ae_remove env t = None)"

definition temps_ok :: "world \<Rightarrow> bool" where
  "temps_ok w \<longleftrightarrow> (\<forall>x \<in> set (w_temps w). x < w_clock w)"

definition owned :: "spool \<Rightarrow> moment list" where
  "owned sp = (case sp_file sp of None \<Rightarrow> [] | Some (name, _) \<Rightarrow> [name])"

text \<open>\<open>holds env sp base w\<close>: the files in the world are the ones in \<open>base\<close> and the spool's own, unless a removal
  failed.\<close>

definition holds :: "archive_env \<Rightarrow> spool \<Rightarrow> moment list \<Rightarrow> world \<Rightarrow> bool" where
  "holds env sp base w \<longleftrightarrow>
     temps_ok w \<and> (removes_ok env \<longrightarrow> w_temps w = owned sp @ base \<and> set (owned sp) \<inter> set base = {})"

lemma temps_ok_tick [simp]: "temps_ok w \<Longrightarrow> temps_ok (tick w)"
  by (auto simp: temps_ok_def tick_def)

lemma tick_temps [simp]: "w_temps (tick w) = w_temps w" "w_clock (tick w) = Suc (w_clock w)"
  by (simp_all add: tick_def)

lemma holds_tick [simp]: "holds env sp base w \<Longrightarrow> holds env sp base (tick w)"
  by (auto simp: holds_def)

lemma os_call_eq: "os_call env w = (ae_os env (w_clock w), tick w)"
  by (simp add: os_call_def)

lemma poll_eq: "poll env w = (ae_ctx env (w_clock w), tick w)"
  by (simp add: poll_def)

lemma os_Remove_temps:
  assumes "os_Remove env name w = (e, w')" "temps_ok w"
  shows "temps_ok w'" "removes_ok env \<Longrightarrow> w_temps w' = filter (\<lambda>x. x \<noteq> name) (w_temps w)"
  using assms by (auto simp: os_Remove_def removes_ok_def temps_ok_def less_Suc_eq split: option.splits)

lemma filter_own: "n \<notin> set base \<Longrightarrow> filter (\<lambda>x. x \<noteq> n) (n # base) = base"
  by (induction base) auto

lemma created_removed:
  assumes "temps_ok w" "w_temps w' = w_clock w # w_temps w" "temps_ok w'" "os_Remove env (w_clock w) w' = (e, w'')"
  shows "temps_ok w''" "removes_ok env \<Longrightarrow> w_temps w'' = w_temps w"
proof -
  have "w_clock w \<notin> set (w_temps w)" using assms(1) by (auto simp: temps_ok_def)
  then show "temps_ok w''" "removes_ok env \<Longrightarrow> w_temps w'' = w_temps w"
    using os_Remove_temps [OF assms(4,3)] assms(2) filter_own by auto
qed

section \<open>Spilling, writing, closing\<close>

definition same_value :: "spool \<Rightarrow> spool \<Rightarrow> bool" where
  "same_value sp sp' \<longleftrightarrow> sp_bytes sp' = sp_bytes sp \<and> sp_size sp' = sp_size sp \<and> sp_threshold sp' = sp_threshold sp"

lemma spill_spec:
  assumes "spill env sp w = (err, sp', w')" "holds env sp base w"
  shows "holds env sp' base w' \<and> same_value sp sp' \<and> (err = None \<longrightarrow> sp_file sp' \<noteq> None)"
proof (cases "sp_file sp \<noteq> None")
  case True
  then show ?thesis using assms by (auto simp: spill_def same_value_def)
next
  case False
  then have no: "sp_file sp = None" by blast
  then have own: "owned sp = []" by (simp add: owned_def)
  have t: "temps_ok w" "removes_ok env \<Longrightarrow> w_temps w = base" using assms(2) own by (auto simp: holds_def)
  let ?w2 = "(tick w)\<lparr>w_temps := w_clock w # w_temps w\<rparr>"
  have t2: "temps_ok ?w2" "temps_ok (tick ?w2)" "temps_ok (tick (tick ?w2))"
    using t(1) by (auto simp: temps_ok_def)
  have fresh: "removes_ok env \<Longrightarrow> w_clock w \<notin> set base" using t by (auto simp: temps_ok_def)
  have gone: "holds env sp base (snd (os_Remove env (w_clock w) w'))" if "temps_ok w'" "w_temps w' = w_clock w # w_temps w" for w'
    using created_removed [OF t(1) that(2,1), of env _ "snd (os_Remove env (w_clock w) w')"] t own
    by (cases "os_Remove env (w_clock w) w'") (auto simp: holds_def)
  show ?thesis
  proof (cases "ae_os env (w_clock w)")
    case (Some e)
    then show ?thesis using assms no by (auto simp: spill_def os_call_eq same_value_def)
  next
    case None
    note created = None
    show ?thesis
    proof (cases "ae_os env (w_clock ?w2)")
      case (Some e)
      then show ?thesis using assms(1) no created gone [OF t2(2)] by (auto simp: spill_def os_call_eq Let_def same_value_def)
    next
      case None
      show ?thesis
      proof (cases "sp_mem sp = [] \<or> ae_os env (w_clock (tick ?w2)) = None")
        case True
        then have "err = None" "w' = tick ?w2 \<or> w' = tick (tick ?w2)" "sp' = sp\<lparr>sp_file := Some (w_clock w, sp_mem sp), sp_mem := []\<rparr>"
          using assms(1) no created None by (auto simp: spill_def os_call_eq Let_def split: if_splits)
        then show ?thesis using t t2 fresh no by (auto simp: holds_def owned_def same_value_def sp_bytes_def)
      next
        case False
        then show ?thesis using assms(1) no created None gone [OF t2(3)]
          by (auto simp: spill_def os_call_eq Let_def same_value_def)
      qed
    qed
  qed
qed

lemma write_spec:
  assumes "spool_Write env data sp w = (err, sp', w')" "holds env sp base w"
  shows "holds env sp' base w' \<and> (sp_file sp \<noteq> None \<longrightarrow> sp_file sp' \<noteq> None) \<and> (err = None \<longrightarrow> sp_bytes sp' = sp_bytes sp @ data \<and> sp_size sp' = sp_size sp + int (length data) \<and>
      sp_threshold sp' = sp_threshold sp \<and> (sp_file sp' = None \<longrightarrow> sp_size sp' \<le> sp_threshold sp'))"
proof -
  obtain e1 sp1 w1 where one: "(if sp_file sp = None \<and> sp_threshold sp < sp_size sp + int (length data) then spill env sp w else (None, sp, w)) = (e1, sp1, w1)"
    by (metis prod.exhaust)
  have s1: "holds env sp1 base w1" "same_value sp sp1" "e1 = None \<Longrightarrow> sp_file sp1 = None \<Longrightarrow> sp_size sp + int (length data) \<le> sp_threshold sp"
    using one spill_spec [of env sp w e1 sp1 w1 base] assms(2) by (auto simp: same_value_def split: if_splits)
  have keep: "sp_file sp \<noteq> None \<longrightarrow> sp_file sp1 \<noteq> None" using one by (auto split: if_splits)
  show ?thesis
  proof (cases e1)
    case (Some e)
    then have "err = Some e \<and> sp' = sp1 \<and> w' = w1" using assms(1) one by (simp add: spool_Write_def)
    then show ?thesis using s1 keep by simp
  next
    case None
    show ?thesis
    proof (cases "sp_file sp1")
      case (Some f)
      then show ?thesis using assms(1) one s1 keep None
        by (cases f) (auto simp: spool_Write_def os_call_eq same_value_def sp_bytes_def holds_def owned_def split: option.splits)
    next
      case f: None
      then show ?thesis using assms(1) one s1 keep None
        by (auto simp: spool_Write_def same_value_def sp_bytes_def holds_def owned_def)
    qed
  qed
qed

lemma close_spec:
  assumes "spool_close env sp w = (err, w')" "holds env sp base w"
  shows "temps_ok w' \<and> (removes_ok env \<longrightarrow> w_temps w' = base)"
proof (cases "sp_file sp")
  case None
  then show ?thesis using assms by (auto simp: spool_close_def holds_def owned_def)
next
  case (Some f)
  obtain name content where f: "f = (name, content)" by (cases f)
  obtain e2 where "os_Remove env name (tick w) = (e2, w')"
    using assms(1) Some f by (auto simp: spool_close_def os_call_eq Let_def split: prod.splits)
  from os_Remove_temps [OF this] show ?thesis
    using assms(2) Some f filter_own [of name base] by (auto simp: holds_def owned_def)
qed

section \<open>Copying\<close>

definition stream_bytes :: "stream \<Rightarrow> bytes" where
  "stream_bytes s = concat (map fst s)"

lemma copy_spec:
  assumes "copy_loop env n input written sp w = ((err, written'), sp', w')" "holds env sp base w"
  shows "holds env sp' base w' \<and> (sp_file sp \<noteq> None \<longrightarrow> sp_file sp' \<noteq> None) \<and>
    (err = None \<longrightarrow> (\<exists>cp. sp_bytes sp' = sp_bytes sp @ cp \<and> written' = written + int (length cp) \<and> int (length cp) \<le> max n 0 \<and>
       sp_size sp' = sp_size sp + int (length cp) \<and> sp_threshold sp' = sp_threshold sp \<and>
       (int (length cp) < n \<longrightarrow> cp = stream_bytes input) \<and>
       (sp_file sp' = None \<longrightarrow> sp_size sp' \<le> max (sp_size sp) (sp_threshold sp'))))"
  using assms
proof (induction env n input written sp w rule: copy_loop.induct)
  case (1 env n written sp w)
  then show ?case by (auto simp: poll_eq stream_bytes_def split: if_splits option.splits)
next
  case (2 env n chunk rerr rest written sp w)
  show ?case
  proof (cases "n \<le> 0 \<or> ae_ctx env (w_clock w) \<noteq> None")
    case True
    then have "sp' = sp \<and> (w' = w \<or> w' = tick w) \<and> (err = None \<longrightarrow> n \<le> 0 \<and> written' = written)"
      using "2.prems"(1) by (cases "n \<le> 0"; cases "ae_ctx env (w_clock w)") (auto simp: poll_eq)
    then show ?thesis using "2.prems"(2) by auto
  next
    case False
    let ?data = "take (nat n) chunk"
    let ?w2 = "tick (tick w)"
    let ?readErr = "case ae_ctx env (w_clock (tick w)) of Some e \<Rightarrow> Some (ACtx e) | None \<Rightarrow> if n < int (length chunk) then None else map_option AMsg rerr"
    obtain werr sp1 w3 where wr: "(if ?data = [] then (None, sp, ?w2) else spool_Write env ?data sp ?w2) = (werr, sp1, w3)" by (metis prod.exhaust)
    have h2: "holds env sp base ?w2" using "2.prems"(2) by simp
    have s1: "holds env sp1 base w3" "sp_file sp \<noteq> None \<Longrightarrow> sp_file sp1 \<noteq> None" "werr = None \<Longrightarrow> sp_bytes sp1 = sp_bytes sp @ ?data \<and> sp_size sp1 = sp_size sp + int (length ?data) \<and>
        sp_threshold sp1 = sp_threshold sp \<and> (sp_file sp1 = None \<longrightarrow> sp_size sp1 \<le> max (sp_size sp) (sp_threshold sp1))"
      using wr write_spec [OF _ h2, of ?data werr sp1 w3] h2 by (auto split: if_splits)
    show ?thesis
    proof (cases "werr \<noteq> None \<or> ?readErr \<noteq> None")
      case True
      then have "err \<noteq> None \<and> sp' = sp1 \<and> w' = w3"
        using "2.prems"(1) False wr by (cases werr; cases ?readErr) (auto simp: poll_eq Let_def)
      then show ?thesis using s1(1,2) by blast
    next
      case ok: False
      then have rec: "copy_loop env (n - int (length ?data)) rest (written + int (length ?data)) sp1 w3 = ((err, written'), sp', w')"
        using "2.prems"(1) False wr by (simp add: poll_eq Let_def)
      have none: "poll env w = (None, tick w)" "poll env (tick w) = (ae_ctx env (w_clock (tick w)), ?w2)" using False by (auto simp: poll_eq)
      have go: "\<not> n \<le> 0" "\<not> werr \<noteq> None" "\<not> ?readErr \<noteq> None" using False ok by blast+
      from "2.IH" [OF go(1) none(1) [symmetric] refl refl refl none(2) [symmetric] refl refl wr [symmetric] refl go(2) refl go(3) rec s1(1)]
      have IH: "holds env sp' base w'" "sp_file sp1 \<noteq> None \<longrightarrow> sp_file sp' \<noteq> None" "err = None \<longrightarrow> (\<exists>cp. sp_bytes sp' = sp_bytes sp1 @ cp \<and> written' = written + int (length ?data) + int (length cp) \<and>
          int (length cp) \<le> max (n - int (length ?data)) 0 \<and> sp_size sp' = sp_size sp1 + int (length cp) \<and> sp_threshold sp' = sp_threshold sp1 \<and>
          (int (length cp) < n - int (length ?data) \<longrightarrow> cp = stream_bytes rest) \<and>
          (sp_file sp' = None \<longrightarrow> sp_size sp' \<le> max (sp_size sp1) (sp_threshold sp')))"
        by simp_all
      show ?thesis
      proof (intro conjI impI)
        assume none: "err = None"
        obtain cp where cp: "sp_bytes sp' = sp_bytes sp1 @ cp" "written' = written + int (length ?data) + int (length cp)"
          "int (length cp) \<le> max (n - int (length ?data)) 0" "sp_size sp' = sp_size sp1 + int (length cp)" "sp_threshold sp' = sp_threshold sp1"
          "int (length cp) < n - int (length ?data) \<longrightarrow> cp = stream_bytes rest" "sp_file sp' = None \<longrightarrow> sp_size sp' \<le> max (sp_size sp1) (sp_threshold sp')"
          using IH(3) [rule_format, OF none] by (elim exE conjE) (rule that)
        have len: "int (length ?data) \<le> n" "int (length ?data) < n \<Longrightarrow> ?data = chunk" using go(1) by (cases "nat n \<le> length chunk", simp_all)+
        have w: "sp_bytes sp1 = sp_bytes sp @ ?data" "sp_size sp1 = sp_size sp + int (length ?data)" "sp_threshold sp1 = sp_threshold sp"
          "sp_file sp1 = None \<longrightarrow> sp_size sp1 \<le> max (sp_size sp) (sp_threshold sp1)" using s1(3) go(2) by blast+
        have "?data @ cp = chunk @ stream_bytes rest" if "int (length ?data) + int (length cp) < n" using that cp(6) len(2) by simp
        moreover have "sp_size sp' \<le> max (sp_size sp) (sp_threshold sp')" if nofile: "sp_file sp' = None"
        proof -
          have "sp_file sp1 = None" using nofile IH(2) by blast
          then show ?thesis using nofile cp(5,7) w(4) by linarith
        qed
        ultimately
        show "\<exists>cp. sp_bytes sp' = sp_bytes sp @ cp \<and> written' = written + int (length cp) \<and> int (length cp) \<le> max n 0 \<and>
            sp_size sp' = sp_size sp + int (length cp) \<and> sp_threshold sp' = sp_threshold sp \<and>
            (int (length cp) < n \<longrightarrow> cp = stream_bytes ((chunk, rerr) # rest)) \<and>
            (sp_file sp' = None \<longrightarrow> sp_size sp' \<le> max (sp_size sp) (sp_threshold sp'))"
          using cp(1-5) len(1) w(1-3) by (intro exI [of _ "?data @ cp"] conjI impI) (simp_all add: stream_bytes_def)
      qed (use IH(1,2) s1(2) in blast)+
    qed
  qed
qed


section \<open>A value read into a spool\<close>

definition value_ok :: "spool \<Rightarrow> bool" where
  "value_ok sp \<longleftrightarrow> sp_size sp = int (length (sp_bytes sp))"

lemma fail_spec:
  assumes "fail_spool env e sp w = (r, w')" "holds env sp base w"
  shows "(\<exists>e'. r = Inl e') \<and> temps_ok w' \<and> (removes_ok env \<longrightarrow> w_temps w' = base)"
  using assms close_spec [of env sp w _ _ base] by (auto simp: fail_spool_def split: prod.splits)

lemma spool_spec:
  assumes "spoolFromReader env input expected limit opts w = (r, w')" "temps_ok w" "limit < 2 ^ 63 - 1"
  shows "(\<forall>v. r = Inr v \<longrightarrow> holds env v (w_temps w) w' \<and> value_ok v \<and> sp_bytes v = stream_bytes input \<and> sp_size v \<le> limit \<and>
      (0 \<le> expected \<longrightarrow> sp_size v = expected) \<and> (sp_file v = None \<longrightarrow> sp_size v \<le> sp_threshold v) \<and> 0 < sp_threshold v \<and>
      (0 < so_threshold opts \<longrightarrow> sp_threshold v = so_threshold opts)) \<and>
    (\<forall>e. r = Inl e \<longrightarrow> temps_ok w' \<and> (removes_ok env \<longrightarrow> w_temps w' = w_temps w))"
proof (cases "expected < -1 \<or> limit < 0 \<or> limit < expected")
  case True
  then have "(\<exists>e. r = Inl e) \<and> w' = w" using assms(1) by (auto simp: spoolFromReader_def split: if_splits)
  then show ?thesis using assms(2) by auto
next
  case False
  let ?v = "new_spool opts"
  have thr: "0 < sp_threshold ?v" "0 < so_threshold opts \<longrightarrow> sp_threshold ?v = so_threshold opts"
    by (auto simp: new_spool_def SpillThreshold_def)
  have h0: "holds env ?v (w_temps w) w" using assms(2) by (simp add: holds_def owned_def new_spool_def)
  obtain e1 v1 w1 where one: "(if sp_threshold ?v < expected then spill env ?v w else (None, ?v, w)) = (e1, v1, w1)" by (metis prod.exhaust)
  have s1: "holds env v1 (w_temps w) w1" "same_value ?v v1"
    using one spill_spec [OF _ h0, of e1 v1 w1] h0 by (auto simp: same_value_def split: if_splits)
  obtain e2 written v2 w2 where two: "copy_loop env (int64_of (limit + 1)) input 0 v1 w1 = ((e2, written), v2, w2)" by (metis prod.exhaust)
  have n: "int64_of (limit + 1) = limit + 1" using assms(3) False by (intro int64_of_id) auto
  have s2: "holds env v2 (w_temps w) w2"
    "e2 = None \<Longrightarrow> \<exists>cp. sp_bytes v2 = sp_bytes v1 @ cp \<and> written = 0 + int (length cp) \<and> int (length cp) \<le> max (limit + 1) 0 \<and>
       sp_size v2 = sp_size v1 + int (length cp) \<and> sp_threshold v2 = sp_threshold v1 \<and>
       (int (length cp) < limit + 1 \<longrightarrow> cp = stream_bytes input) \<and> (sp_file v2 = None \<longrightarrow> sp_size v2 \<le> max (sp_size v1) (sp_threshold v2))"
    using copy_spec [OF two s1(1)] unfolding n by blast+
  have fail: "(\<exists>e'. r = Inl e') \<and> temps_ok w' \<and> (removes_ok env \<longrightarrow> w_temps w' = w_temps w)" if "fail_spool env e sp w'' = (r, w')" "holds env sp (w_temps w) w''" for e sp w''
    by (rule fail_spec [OF that])
  show ?thesis
  proof (cases e1)
    case (Some e)
    then have "fail_spool env e v1 w1 = (r, w')" using assms(1) False one
      by (simp add: spoolFromReader_def Let_def)
    then show ?thesis using fail s1(1) by blast
  next
    case None
    note ok1 = this
    have eq: "spoolFromReader env input expected limit opts w =
       (case e2 of Some e \<Rightarrow> fail_spool env e v2 w2
        | None \<Rightarrow> if limit < written then fail_spool env (ASpoolLimit limit) v2 w2
            else if 0 \<le> expected \<and> written \<noteq> expected
            then fail_spool env (AMsg (''archive: unexpected size '' @ itoa written @ '', want '' @ itoa expected)) v2 w2
            else (Inr v2, w2))"
      using False one two ok1 by (simp add: spoolFromReader_def Let_def)
    show ?thesis
    proof (cases "e2 = None \<and> written \<le> limit \<and> (0 \<le> expected \<longrightarrow> written = expected)")
      case True
      then have r: "r = Inr v2" "w' = w2" using assms(1) eq by auto
      obtain cp where cp: "sp_bytes v2 = sp_bytes v1 @ cp" "written = int (length cp)" "sp_size v2 = sp_size v1 + int (length cp)"
        "sp_threshold v2 = sp_threshold v1" "int (length cp) < limit + 1 \<longrightarrow> cp = stream_bytes input"
        "sp_file v2 = None \<longrightarrow> sp_size v2 \<le> max (sp_size v1) (sp_threshold v2)" using s2(2) True by auto
      have v1: "sp_bytes v1 = []" "sp_size v1 = 0" "sp_threshold v1 = sp_threshold ?v" using s1(2) by (auto simp: same_value_def new_spool_def sp_bytes_def)
      show ?thesis using r cp v1 True s2(1) thr by (auto simp: value_ok_def)
    next
      case False
      then have "\<exists>e. fail_spool env e v2 w2 = (r, w')" using assms(1) eq by (auto split: if_splits option.splits)
      then show ?thesis using fail s2(1) by blast
    qed
  qed
qed

end
