(* ===== verification/ArchiveWalk.thy ===== *)
theory ArchiveWalk
  imports ArchiveSpool
begin

text \<open>
  The walk as a whole. What a walk guarantees is a relation between the state before a step, the step's result and the leaves the step
  was responsible for. The locale \<open>walk_contract\<close> lists the laws such a relation must satisfy on the walker's primitive steps and
  derives it once for every walk; it is interpreted for the expansion budget and coverage, and for the temporary files.
\<close>

section \<open>The leaves of an archive\<close>

text \<open>The reference: all regular entries with safe names, expanded recursively, in archive order, as if there were no
  limits. \<open>n\<close> is how many more levels may be opened.\<close>

definition zip_leaves :: "(string \<Rightarrow> bytes \<Rightarrow> (string \<times> bytes) list) \<Rightarrow> string \<Rightarrow> zip_file \<Rightarrow> (string \<times> bytes) list" where
  "zip_leaves inner name file =
     (if zf_Mode file AND (ModeDir OR ModeSymlink OR ModeType) \<noteq> 0 then []
      else case safeEntryName (zf_Name file) of
        None \<Rightarrow> []
      | Some clean \<Rightarrow> (case zf_Open file of Inl _ \<Rightarrow> [] | Inr (body, _) \<Rightarrow> inner (name @ ''!'' @ clean) (stream_bytes body)))"

definition tar_leaves :: "(string \<Rightarrow> bytes \<Rightarrow> (string \<times> bytes) list) \<Rightarrow> string \<Rightarrow> tar_header \<Rightarrow> (string \<times> bytes) list" where
  "tar_leaves inner name header =
     (if th_Typeflag header \<noteq> CHR ''0'' \<and> th_Typeflag header \<noteq> CHR ''7'' then []
      else case safeEntryName (th_Name header) of
        None \<Rightarrow> []
      | Some clean \<Rightarrow> inner (name @ ''!'' @ clean) (stream_bytes (th_body header)))"

primrec leaves :: "archive_env \<Rightarrow> nat \<Rightarrow> string \<Rightarrow> bytes \<Rightarrow> (string \<times> bytes) list" where
  "leaves env 0 name data = []"
| "leaves env (Suc n) name data =
     (case detect data of
        kindNone \<Rightarrow> [(name, data)]
      | kindZip \<Rightarrow> (case ae_zip env data of Inl _ \<Rightarrow> [] | Inr files \<Rightarrow> concat (map (zip_leaves (leaves env n) name) files))
      | kindTar \<Rightarrow> concat (map (tar_leaves (leaves env n) name) (fst (ae_tar env data)))
      | kindGzip \<Rightarrow> (case ae_gzip env data of Inl _ \<Rightarrow> []
                   | Inr (body, _) \<Rightarrow> leaves env n (inner_name name ''.gz'' ''!gz'') (stream_bytes body))
      | kindBzip2 \<Rightarrow> leaves env n (inner_name name ''.bz2'' ''!bz2'') (stream_bytes (ae_bzip2 env data)))"

section \<open>Moments only advance\<close>

lemma preflightTar_loop_clock: "preflightTar_loop ctx reader sz mh offset m headers t = (r, t') \<Longrightarrow> t \<le> t'"
proof (induction ctx reader sz mh offset m headers t rule: preflightTar_loop.induct)
  case (1 ctx reader sz mh offset m headers t)
  show ?case
  proof (cases "sz \<le> offset \<or> ctx t \<noteq> None \<or> sz - offset < 512 \<or> snd (reader (t + 1) offset 512) \<noteq> None \<or>
      list_all (\<lambda>c. c = CHR 0x00) (fst (reader (t + 1) offset 512)) \<or> mh < headers + 1 \<or>
      (\<exists>e. preflight_header (fst (reader (t + 1) offset 512)) m (sz - offset - 512) = Inl e)")
    case True
    then show ?thesis using "1.prems"
      by (subst (asm) preflightTar_loop.simps) (auto split: if_splits option.splits prod.splits)
  next
    case False
    then obtain block m' padded where c: "\<not> sz \<le> offset" "ctx t = None" "\<not> sz - offset < 512" "reader (t + 1) offset 512 = (block, None)"
      "\<not> list_all (\<lambda>c. c = CHR 0x00) block" "\<not> mh < headers + 1" "preflight_header block m (sz - offset - 512) = Inr (m', padded)"
      by (cases "reader (t + 1) offset 512"; cases "preflight_header (fst (reader (t + 1) offset 512)) m (sz - offset - 512)") auto
    then have "preflightTar_loop ctx reader sz mh (offset + 512 + int padded) m' (headers + 1) (t + 2) = (r, t')"
      using "1.prems" by (subst (asm) preflightTar_loop.simps) simp
    from "1.IH" [OF c(1-3) c(4) [symmetric] refl c(5-7) refl this] show ?thesis by simp
  qed
qed

lemma preflightTar_clock: "preflightTar ctx reader sz mh t = (r, t') \<Longrightarrow> t \<le> t'"
  using preflightTar_loop_clock by (auto simp: preflightTar_def split: if_splits)

lemma countZip_clock: "countZipDirectory_loop ctx reader fin mh offset count t = (r, t') \<Longrightarrow> t \<le> t'"
proof (induction ctx reader fin mh offset count t rule: countZipDirectory_loop.induct)
  case (1 ctx reader fin mh offset count t)
  define step where "step h = 46 + int (le_nat (slice 28 30 h)) + int (le_nat (slice 30 32 h)) + int (le_nat (slice 32 34 h))" for h
  show ?case
  proof (cases "fin \<le> offset \<or> ctx t \<noteq> None \<or> fin - offset < 46 \<or> snd (reader (t + 1) offset 46) \<noteq> None \<or>
      le_nat (slice 0 4 (fst (reader (t + 1) offset 46))) \<noteq> 0x02014b50 \<or> mh < count + 1 \<or> fin - offset < step (fst (reader (t + 1) offset 46))")
    case True
    then show ?thesis using "1.prems"
      by (subst (asm) countZipDirectory_loop.simps) (auto simp: Let_def step_def split: if_splits option.splits prod.splits)
  next
    case False
    then obtain h where c: "\<not> fin \<le> offset" "ctx t = None" "\<not> fin - offset < 46" "reader (t + 1) offset 46 = (h, None)"
      "\<not> le_nat (slice 0 4 h) \<noteq> 0x02014b50" "\<not> mh < count + 1" "\<not> fin - offset < step h"
      by (cases "reader (t + 1) offset 46") auto
    then have "countZipDirectory_loop ctx reader fin mh (offset + step h) (count + 1) (t + 2) = (r, t')"
      using "1.prems" by (subst (asm) countZipDirectory_loop.simps) (simp add: Let_def step_def)
    from "1.IH" [OF c(1-3) c(4) [symmetric] refl c(5,6) step_def c(7) this] show ?thesis by simp
  qed
qed

lemma preflightZip_clock: "preflightZip ctx reader sz mh t = (r, t') \<Longrightarrow> t \<le> t'"
proof -
  have count: "zip_directory_count ctx reader sz mh multi z t1 = (r, t2) \<Longrightarrow> t1 \<le> t2" for multi z t1 t2 r
    using countZip_clock
    by (fastforce simp: zip_directory_count_def countZipDirectory_def Let_def split: if_splits prod.splits sum.splits)
  have z64: "readZip64End reader off t1 = (r, t2) \<Longrightarrow> t1 \<le> t2" for off t1 t2 r
    by (auto simp: readZip64End_def Let_def split: if_splits prod.splits option.splits)
  have found: "zip_end_record reader tail eocd off t1 = (r, t2) \<Longrightarrow> t1 \<le> t2" for tail eocd off t1 t2 r
    by (auto simp: zip_end_record_def Let_def split: if_splits prod.splits sum.splits dest: z64)
  assume "preflightZip ctx reader sz mh t = (r, t')"
  then show ?thesis
    by (auto simp: preflightZip_def Let_def split: if_splits prod.splits option.splits ioerr.splits sum.splits dest!: count found)
qed

section \<open>Kinds\<close>

lemma spool_kind_detect:
  assumes "spool_kind env sp w = (r, w')" "value_ok sp"
  shows "(w' = w \<or> w' = tick w) \<and> (\<forall>k. r = Inr k \<longrightarrow> k = detect (sp_bytes sp))"
proof -
  let ?len = "nat (min (sp_size sp) 512)"
  show ?thesis
  proof (cases "?len = 0")
    case True
    then have "sp_bytes sp = []" using assms(2) by (simp add: value_ok_def min_def split: if_splits)
    then show ?thesis using assms(1) True by (auto simp: spool_kind_def Let_def)
  next
    case False
    then have "sp_bytes sp \<noteq> []" "?len = min (length (sp_bytes sp)) 512" using assms(2) by (auto simp: value_ok_def)
    then have "bytes_reader (sp_bytes sp) t 0 ?len = (take 512 (sp_bytes sp), None)" for t by (simp add: bytes_reader_def Let_def min_def)
    then show ?thesis using assms(1) False detect_take [of 512 "sp_bytes sp"]
      by (auto simp: spool_kind_def Let_def spool_readerAt_def split: if_splits)
  qed
qed

section \<open>The contract of a walk\<close>

definition accepted :: "'s walker \<Rightarrow> spool \<Rightarrow> bool" where
  "accepted wk v \<longleftrightarrow> value_ok v \<and> sp_size v \<le> MaxEntryBytes (wk_limits wk)"

lemma mode_masks: "(m :: nat) AND (a OR b OR c) = 0 \<longleftrightarrow> m AND a = 0 \<and> m AND b = 0 \<and> m AND c = 0"
proof -
  have "m AND (x OR y) = (m AND x) OR (m AND y)" for x y by (rule bit_eqI) (auto simp: bit_simps)
  then show ?thesis by (simp add: or_eq_0_iff)
qed

lemma expanded_error:
  "expandedSpoolWithOptions wk name input declared opts s = ((v, Some e), s1) \<Longrightarrow> v = None"
  by (auto simp: expandedSpoolWithOptions_def Let_def split: if_splits prod.splits sum.splits)

locale walk_contract =
  fixes ok :: "'s walker \<Rightarrow> bool"
    and R :: "'s walker \<Rightarrow> (string \<times> bytes) list \<Rightarrow> 's walkState \<Rightarrow> aerr option \<times> 's walkState \<Rightarrow> bool"
    and D :: "'s walker \<Rightarrow> spool \<Rightarrow> (string \<times> bytes) list \<Rightarrow> 's walkState \<Rightarrow> aerr option \<times> 's walkState \<Rightarrow> bool"
  assumes quiet: "R wk [] s (None, s)"
    and seq: "R wk L1 s (None, s1) \<Longrightarrow> R wk L2 s1 r \<Longrightarrow> R wk (L1 @ L2) s r"
    and abort: "R wk L1 s (Some e, s1) \<Longrightarrow> R wk (L1 @ L2) s (Some e, s1)"
    and failed: "R wk [] s (Some e, s)"
    and gap: "R wk L s (None, ws_partial knd entry err s)"
    and stopped: "R wk L s (None, ws_stop knd entry err s)"
    and halted: "ws_terminal s \<Longrightarrow> R wk L s (None, s)"
    and clock: "w_clock (ws_world s) \<le> t \<Longrightarrow> R wk [] s (None, s\<lparr>ws_world := (ws_world s)\<lparr>w_clock := t\<rparr>\<rparr>)"
    and headers: "0 \<le> c \<Longrightarrow> c \<le> maxArchiveHeaders - ws_headers s \<Longrightarrow> R wk [] s (None, s\<lparr>ws_headers := ws_headers s + c\<rparr>)"
    and rejected: "ok wk \<Longrightarrow> expandedSpoolWithOptions wk name input declared opts s = ((None, ce), s1) \<Longrightarrow> R wk L s (ce, s1)"
    and bracket: "ok wk \<Longrightarrow> expandedSpoolWithOptions wk name input declared opts s = ((Some v, None), s1) \<Longrightarrow>
      (accepted wk v \<Longrightarrow> sp_bytes v = stream_bytes input \<Longrightarrow> D wk v L s1 (res, s2)) \<Longrightarrow> R wk L s (res, close_value wk n v s2)"
    and emission: "ok wk \<Longrightarrow> accepted wk v \<Longrightarrow> D wk v [(name, sp_bytes v)] s (emitEntry wk name v s)"
    and relax: "R wk L s r \<Longrightarrow> D wk v L s r"
    and prepend: "R wk [] s (None, s1) \<Longrightarrow> D wk v L s1 r \<Longrightarrow> D wk v L s r"
begin

definition descends :: "'s walker \<Rightarrow> 's descend \<Rightarrow> (string \<Rightarrow> bytes \<Rightarrow> (string \<times> bytes) list) \<Rightarrow> bool" where
  "descends wk inner leaf \<longleftrightarrow> (\<forall>name v s. accepted wk v \<longrightarrow> D wk v (leaf name (sp_bytes v)) s (inner name v s))"

lemma pre: "R wk [] s (None, s1) \<Longrightarrow> R wk L s1 r \<Longrightarrow> R wk L s r"
  using seq [of wk "[]" s s1 L r] by simp

lemma error: "R wk L s (Some e, s)"
  using abort [OF failed, where ?L2.0 = L] by simp

lemma poll: "R wk [] s (None, snd (ws_poll wk s))"
  using clock [of s "Suc (w_clock (ws_world s))" wk] by (simp add: ws_poll_def poll_eq tick_def)

lemma error_after: "R wk [] s (None, s1) \<Longrightarrow> R wk L s (Some e, s1)"
  using pre [OF _ error] by blast

lemma descend:
  assumes "ok wk" "descends wk inner leaf" "expandedSpoolWithOptions wk name input declared opts s = ((Some v, None), s1)"
  shows "R wk (leaf entryName (stream_bytes input)) s (descend_value wk inner entryName v s1)"
proof -
  obtain err s2 where inner: "inner entryName v s1 = (err, s2)" by fastforce
  have "R wk (leaf entryName (stream_bytes input)) s (err, close_value wk entryName v s2)"
  proof (rule bracket [OF assms(1,3)])
    assume "accepted wk v" "sp_bytes v = stream_bytes input"
    then show "D wk v (leaf entryName (stream_bytes input)) s1 (err, s2)" using assms(2) inner unfolding descends_def by metis
  qed
  then show ?thesis using inner by (simp add: descend_value_def)
qed

lemma discard: "ok wk \<Longrightarrow> expandedSpoolWithOptions wk name input declared opts s = ((Some v, None), s1) \<Longrightarrow>
    R wk L s1 (err, s2) \<Longrightarrow> R wk L s (err, close_value wk n v s2)"
  by (rule bracket) (auto intro: relax)

lemma zip_entry_step:
  assumes "ok wk" "descends wk inner leaf" "zip_entry wk inner name file s = ((err, go), s')"
  shows "R wk (zip_leaves leaf name file) s (err, s') \<and> (\<not> go \<longrightarrow> err = None \<and> (\<forall>L. R wk L s (None, s')))"
proof (cases "zf_Mode file AND (ModeDir OR ModeSymlink OR ModeType) \<noteq> 0")
  case True
  then have "zip_leaves leaf name file = []" by (simp add: zip_leaves_def)
  then show ?thesis
    using assms(3) True gap [of wk "[]"] quiet by (auto simp: zip_entry_def Let_def mode_masks split: if_splits)
next
  case False
  then have mode: "zf_Mode file AND ModeDir = 0" "zf_Mode file AND ModeSymlink = 0" "zf_Mode file AND ModeType = 0"
    unfolding mode_masks by blast+
  show ?thesis
  proof (cases "safeEntryName (zf_Name file)")
    case None
    then show ?thesis using assms(3) mode gap by (auto simp: zip_entry_def Let_def)
  next
    case (Some clean)
    show ?thesis
    proof (cases "MaxFiles (wk_limits wk) \<le> ws_files s \<or> maxInt64 < zf_UncompressedSize64 file")
      case True
      then show ?thesis using assms(3) mode Some gap stopped by (auto simp: zip_entry_def Let_def split: if_splits)
    next
      case in_limits: False
      show ?thesis
      proof (cases "zf_Open file")
        case (Inl e)
        then show ?thesis using assms(3) mode Some in_limits gap by (auto simp: zip_entry_def Let_def)
      next
        case (Inr p)
        obtain body closeErr where p: "p = (body, closeErr)" by (cases p)
        obtain val copyErr s1 where ex: "expandedSpool wk (zf_Name file) body (int (zf_UncompressedSize64 file)) s = ((val, copyErr), s1)"
          by (metis prod.exhaust)
        have L: "zip_leaves leaf name file = leaf (name @ ''!'' @ clean) (stream_bytes body)"
          using False Some Inr p by (simp add: zip_leaves_def)
        show ?thesis
        proof (cases val)
          case None
          then have "R wk (zip_leaves leaf name file) s (copyErr, s1)" using rejected [OF assms(1)] ex by blast
          then show ?thesis using assms(3) mode Some in_limits Inr p ex None
            by (cases copyErr) (auto simp: zip_entry_def Let_def)
        next
          case v: (Some v)
          then have none: "copyErr = None" using ex by (cases copyErr) (auto dest: expanded_error)
          have ex': "expandedSpool wk (zf_Name file) body (int (zf_UncompressedSize64 file)) s = ((Some v, None), s1)"
            using ex v none by simp
          show ?thesis
          proof (cases closeErr)
            case closed: None
            obtain e' s2 where d: "descend_value wk inner (name @ ''!'' @ clean) v s1 = (e', s2)" by fastforce
            then have "R wk (zip_leaves leaf name file) s (e', s2)"
              using descend [OF assms(1,2) ex', of "name @ ''!'' @ clean"] unfolding L by simp
            then show ?thesis using assms(3) mode Some in_limits Inr p ex' d closed by (auto simp: zip_entry_def Let_def)
          next
            case closed: (Some e)
            have "R wk (zip_leaves leaf name file) s (None, close_value wk (name @ ''!'' @ clean) v (ws_partial ''corrupt-entry'' (zf_Name file) (AMsg e) s1))"
              using discard [OF assms(1) ex' gap] .
            then show ?thesis using assms(3) mode Some in_limits Inr p ex' closed by (auto simp: zip_entry_def Let_def)
          qed
        qed
      qed
    qed
  qed
qed

lemma zip_loop_step:
  assumes "ok wk" "descends wk inner leaf"
  shows "R wk (concat (map (zip_leaves leaf name) files)) s (zip_loop wk inner name files s)"
proof (induction files arbitrary: s)
  case (Cons f files)
  let ?L = "concat (map (zip_leaves leaf name) files)"
  show ?case
  proof (cases "ws_terminal s")
    case True
    then show ?thesis using halted by simp
  next
    case False
    obtain ce s1 where p: "ws_poll wk s = (ce, s1)" by fastforce
    have s1: "R wk [] s (None, s1)" using poll [of wk s] p by simp
    show ?thesis
    proof (cases ce)
      case (Some e)
      then show ?thesis using False p error_after [OF s1] by simp
    next
      case None
      obtain err go s2 where z: "zip_entry wk inner name f s1 = ((err, go), s2)" by (metis prod.exhaust)
      note step = zip_entry_step [OF assms z]
      show ?thesis
      proof (cases err)
        case (Some e)
        then show ?thesis using False p None z step abort pre [OF s1] by simp
      next
        case noerr: None
        show ?thesis
        proof (cases go)
          case True
          have "R wk (zip_leaves leaf name f @ ?L) s1 (zip_loop wk inner name files s2)"
            using seq Cons step noerr by blast
          then show ?thesis using False p None z noerr True pre [OF s1] by simp
        next
          case stop: False
          then show ?thesis using False p None z noerr step pre [OF s1] by simp
        qed
      qed
    qed
  qed
qed (simp add: quiet)

lemma walkZip_step:
  assumes "ok wk" "descends wk inner leaf" "value_ok data"
  shows "R wk (case ae_zip (wk_env wk) (sp_bytes data) of Inl _ \<Rightarrow> [] | Inr files \<Rightarrow> concat (map (zip_leaves leaf name) files)) s
    (walkZip wk inner name data s)"
proof -
  obtain pre_r t where p: "preflightZip (ae_ctx (wk_env wk)) (spool_readerAt (wk_env wk) data) (sp_size data)
      (maxArchiveHeaders - ws_headers s) (w_clock (ws_world s)) = (pre_r, t)" by fastforce
  let ?s0 = "s\<lparr>ws_world := (ws_world s)\<lparr>w_clock := t\<rparr>\<rparr>"
  have s0: "R wk [] s (None, ?s0)" using clock preflightZip_clock [OF p] by blast
  show ?thesis
  proof (cases pre_r)
    case (Inl e)
    then show ?thesis
      using p pre [OF s0 stopped] error_after [OF s0] by (cases e) (simp_all add: walkZip_def Let_def)
  next
    case (Inr c)
    obtain offset dsize t0 where cd: "countZipDirectory (ae_ctx (wk_env wk)) (spool_readerAt (wk_env wk) data) offset (int dsize) (maxArchiveHeaders - ws_headers s) t0 = (Inr c, t)"
      "0 \<le> maxArchiveHeaders - ws_headers s" using preflightZip_accepts p Inr by blast
    let ?s1 = "?s0\<lparr>ws_headers := ws_headers ?s0 + c\<rparr>"
    have "R wk [] ?s0 (None, ?s1)" by (rule headers) (use countZipDirectory_bound [OF cd] in auto)
    then have s1: "R wk [] s (None, ?s1)" by (rule pre [OF s0])
    show ?thesis
    proof (cases "ae_zip (wk_env wk) (sp_bytes data)")
      case (Inl e)
      then show ?thesis using p Inr error_after [OF s1] by (simp add: walkZip_def Let_def)
    next
      case files: (Inr files)
      then show ?thesis
        using p Inr error_after [OF s1] pre [OF s1 zip_loop_step [OF assms(1,2)]] by (simp add: walkZip_def Let_def)
    qed
  qed
qed

lemma expand_step:
  assumes "ok wk" "descends wk inner leaf" "expandedSpoolWithOptions wk name input declared opts s = ((val, copyErr), s1)"
  shows "R wk (leaf entryName (stream_bytes input)) s
    (case copyErr of Some e \<Rightarrow> (Some e, s1)
     | None \<Rightarrow> (case val of None \<Rightarrow> (None, s1) | Some v \<Rightarrow> descend_value wk inner entryName v s1))"
proof (cases val)
  case None
  then have "R wk (leaf entryName (stream_bytes input)) s (copyErr, s1)" using rejected [OF assms(1)] assms(3) by blast
  then show ?thesis using None by (cases copyErr) simp_all
next
  case (Some v)
  then have "copyErr = None" using assms(3) by (cases copyErr) (auto dest: expanded_error)
  then show ?thesis using Some assms(3) descend [OF assms(1,2), of name input declared opts s v s1 entryName] by simp
qed

lemma tar_entry_step:
  assumes "ok wk" "descends wk inner leaf" "tar_entry wk inner name header s = ((err, go), s')"
  shows "R wk (tar_leaves leaf name header) s (err, s') \<and> (\<not> go \<longrightarrow> err = None \<and> (\<forall>L. R wk L s (None, s')))"
proof (cases "th_Typeflag header \<noteq> CHR ''0'' \<and> th_Typeflag header \<noteq> CHR ''7''")
  case True
  then have "tar_leaves leaf name header = []" by (simp add: tar_leaves_def)
  then show ?thesis using assms(3) True gap [of wk "[]"] quiet by (auto simp: tar_entry_def split: if_splits)
next
  case False
  then have regular: "th_Typeflag header = CHR ''0'' \<or> th_Typeflag header = CHR ''7''" by blast
  show ?thesis
  proof (cases "safeEntryName (th_Name header)")
    case None
    then show ?thesis using assms(3) regular gap by (auto simp: tar_entry_def)
  next
    case (Some clean)
    show ?thesis
    proof (cases "MaxFiles (wk_limits wk) \<le> ws_files s")
      case True
      then show ?thesis using assms(3) regular Some stopped by (auto simp: tar_entry_def)
    next
      case room: False
      obtain val copyErr s1 where ex: "expandedSpool wk (th_Name header) (th_body header) (th_Size header) s = ((val, copyErr), s1)"
        by (metis prod.exhaust)
      have L: "tar_leaves leaf name header = leaf (name @ ''!'' @ clean) (stream_bytes (th_body header))"
        using regular Some by (auto simp: tar_leaves_def)
      have "go \<and> (err, s') = (case copyErr of Some e \<Rightarrow> (Some e, s1)
          | None \<Rightarrow> (case val of None \<Rightarrow> (None, s1) | Some v \<Rightarrow> descend_value wk inner (name @ ''!'' @ clean) v s1))"
        using assms(3) regular Some room ex by (auto simp: tar_entry_def split: option.splits prod.splits)
      then show ?thesis using expand_step [OF assms(1,2) ex, of "name @ ''!'' @ clean"] unfolding L by metis
    qed
  qed
qed

lemma tar_loop_step:
  assumes "ok wk" "descends wk inner leaf"
  shows "R wk (concat (map (tar_leaves leaf name) hs)) s (walkTarReader wk inner name hs final s)"
proof (induction hs arbitrary: s)
  case Nil
  obtain ce s1 where p: "ws_poll wk s = (ce, s1)" by fastforce
  obtain ce2 s2 where p2: "ws_poll wk s1 = (ce2, s2)" by fastforce
  have s1: "R wk [] s (None, s1)" using poll [of wk s] p by simp
  have s2: "R wk [] s (None, s2)" using pre [OF s1] poll [of wk s1] p2 by simp
  show ?case
    using p p2 halted quiet error_after [OF s1] error_after [OF s2] s2
    by (subst walkTarReader.simps) (cases final, auto split: option.splits)
next
  case (Cons h hs)
  let ?L = "concat (map (tar_leaves leaf name) hs)"
  obtain ce s1 where p: "ws_poll wk s = (ce, s1)" by fastforce
  obtain ce2 s2 where p2: "ws_poll wk s1 = (ce2, s2)" by fastforce
  have s1: "R wk [] s (None, s1)" using poll [of wk s] p by simp
  have s2: "R wk [] s (None, s2)" using pre [OF s1] poll [of wk s1] p2 by simp
  show ?case
  proof (cases "ws_terminal s \<or> ce \<noteq> None \<or> ce2 \<noteq> None")
    case True
    then show ?thesis using p p2 halted error_after [OF s1] error_after [OF s2]
      by (subst walkTarReader.simps) (auto split: option.splits)
  next
    case False
    obtain err go s3 where t: "tar_entry wk inner name h s2 = ((err, go), s3)" by (metis prod.exhaust)
    note step = tar_entry_step [OF assms t]
    have eq: "walkTarReader wk inner name (h # hs) final s =
      (case err of Some e \<Rightarrow> (Some e, s3) | None \<Rightarrow> if go then walkTarReader wk inner name hs final s3 else (None, s3))"
      using False p p2 t by (subst walkTarReader.simps) (auto split: option.splits)
    show ?thesis
    proof (cases err)
      case (Some e)
      then show ?thesis using eq step abort pre [OF s2] by simp
    next
      case None
      have "R wk (tar_leaves leaf name h @ ?L) s2 (walkTarReader wk inner name hs final s3)" if go
        using seq Cons step None by blast
      then show ?thesis using eq None step pre [OF s2] by simp
    qed
  qed
qed

lemma walkTar_step:
  assumes "ok wk" "descends wk inner leaf"
  shows "R wk (concat (map (tar_leaves leaf name) (fst (ae_tar (wk_env wk) (sp_bytes data))))) s (walkTar wk inner name data s)"
proof -
  obtain pre_r t where p: "preflightTar (ae_ctx (wk_env wk)) (spool_readerAt (wk_env wk) data) (sp_size data)
      (maxArchiveHeaders - ws_headers s) (w_clock (ws_world s)) = (pre_r, t)" by fastforce
  let ?s0 = "s\<lparr>ws_world := (ws_world s)\<lparr>w_clock := t\<rparr>\<rparr>"
  have s0: "R wk [] s (None, ?s0)" using clock preflightTar_clock [OF p] by blast
  show ?thesis
  proof (cases pre_r)
    case (Inl e)
    then show ?thesis
      using p pre [OF s0 stopped] error_after [OF s0] by (cases e) (simp_all add: walkTar_def Let_def)
  next
    case (Inr c)
    let ?s1 = "?s0\<lparr>ws_headers := ws_headers ?s0 + c\<rparr>"
    have "0 \<le> c" "c \<le> maxArchiveHeaders - ws_headers s"
      using p Inr preflightTar_bound by blast+
    then have "R wk [] ?s0 (None, ?s1)" by (intro headers) auto
    then have s1: "R wk [] s (None, ?s1)" by (rule pre [OF s0])
    obtain hs final where tar: "ae_tar (wk_env wk) (sp_bytes data) = (hs, final)" by fastforce
    show ?thesis using p Inr tar pre [OF s1 tar_loop_step [OF assms]] by (simp add: walkTar_def Let_def)
  qed
qed

lemma hint_clock: "gzipSizeHint env data threshold w = (h, w') \<Longrightarrow> w' = w \<or> w' = tick w"
  by (auto simp: gzipSizeHint_def Let_def split: if_splits prod.splits)

lemma world_step: "w' = ws_world s \<or> w' = tick (ws_world s) \<Longrightarrow> R wk [] s (None, s\<lparr>ws_world := w'\<rparr>)"
  using clock [of s "w_clock (ws_world s)" wk] clock [of s "Suc (w_clock (ws_world s))" wk] by (auto simp: tick_def)

lemma walkGzip_step:
  assumes "ok wk" "descends wk inner leaf"
  shows "R wk (case ae_gzip (wk_env wk) (sp_bytes data) of Inl _ \<Rightarrow> []
      | Inr (body, _) \<Rightarrow> leaf (inner_name name ''.gz'' ''!gz'') (stream_bytes body)) s (walkGzip wk inner name data s)"
proof (cases "ae_gzip (wk_env wk) (sp_bytes data)")
  case (Inl e)
  then show ?thesis using error by (simp add: walkGzip_def)
next
  case (Inr p)
  obtain body closeErr where p: "p = (body, closeErr)" by (cases p)
  obtain hint w where h: "gzipSizeHint (wk_env wk) data (so_threshold (wk_spool wk)) (ws_world s) = (hint, w)" by fastforce
  have s1: "R wk [] s (None, s\<lparr>ws_world := w\<rparr>)" by (rule world_step) (rule hint_clock [OF h])
  obtain val copyErr s2 where ex: "expandedSpoolWithOptions wk name body (-1) ((wk_spool wk)\<lparr>so_capacityHint := hint\<rparr>) (s\<lparr>ws_world := w\<rparr>) = ((val, copyErr), s2)"
    by (metis prod.exhaust)
  note step = expand_step [OF assms ex, of "inner_name name ''.gz'' ''!gz''"]
  show ?thesis
  proof (cases "copyErr = None \<and> val \<noteq> None \<and> closeErr \<noteq> None")
    case True
    then obtain v e where v: "val = Some v" "closeErr = Some e" "copyErr = None" by blast
    have ex': "expandedSpoolWithOptions wk name body (-1) ((wk_spool wk)\<lparr>so_capacityHint := hint\<rparr>) (s\<lparr>ws_world := w\<rparr>) = ((Some v, None), s2)"
      using ex v by simp
    have "R wk (leaf (inner_name name ''.gz'' ''!gz'') (stream_bytes body)) (s\<lparr>ws_world := w\<rparr>)
        (Some (APartial ''corrupt-entry'' name (AMsg e)), close_value wk name v s2)"
      by (rule discard [OF assms(1) ex' error])
    then show ?thesis using pre [OF s1] Inr p h ex v by (simp add: walkGzip_def)
  next
    case False
    then have "walkGzip wk inner name data s = (case copyErr of Some e \<Rightarrow> (Some e, s2)
        | None \<Rightarrow> (case val of None \<Rightarrow> (None, s2) | Some v \<Rightarrow> descend_value wk inner (inner_name name ''.gz'' ''!gz'') v s2))"
      using Inr p h ex by (auto simp: walkGzip_def split: option.splits)
    then show ?thesis using pre [OF s1 step] Inr p by simp
  qed
qed

lemma walkBzip2_step:
  assumes "ok wk" "descends wk inner leaf"
  shows "R wk (leaf (inner_name name ''.bz2'' ''!bz2'') (stream_bytes (ae_bzip2 (wk_env wk) (sp_bytes data)))) s (walkBzip2 wk inner name data s)"
proof -
  obtain val copyErr s2 where ex: "expandedSpool wk name (ae_bzip2 (wk_env wk) (sp_bytes data)) (-1) s = ((val, copyErr), s2)"
    by (metis prod.exhaust)
  have "walkBzip2 wk inner name data s = (case copyErr of Some e \<Rightarrow> (Some e, s2)
      | None \<Rightarrow> (case val of None \<Rightarrow> (None, s2) | Some v \<Rightarrow> descend_value wk inner (inner_name name ''.bz2'' ''!bz2'') v s2))"
    using ex by (auto simp: walkBzip2_def split: option.splits)
  then show ?thesis using expand_step [OF assms ex, of "inner_name name ''.bz2'' ''!bz2''"] by simp
qed

abbreviation levels :: "'s walker \<Rightarrow> int \<Rightarrow> nat" where
  "levels wk depth \<equiv> nat (MaxDepth (wk_limits wk) + 1 - depth)"

lemma walk_step:
  "ok wk \<Longrightarrow> value_ok data \<Longrightarrow>
   (detect (sp_bytes data) \<noteq> kindNone \<longrightarrow> R wk (leaves (wk_env wk) (levels wk depth) name (sp_bytes data)) s (walk wk name data depth s)) \<and>
   (accepted wk data \<longrightarrow> D wk data (leaves (wk_env wk) (levels wk depth) name (sp_bytes data)) s (walk wk name data depth s))"
proof (induction wk name data depth s rule: walk.induct)
  case (1 wk name data depth s)
  let ?L = "leaves (wk_env wk) (levels wk depth) name (sp_bytes data)" and ?r = "walk wk name data depth s"
  have both: "?case" if "R wk ?L s ?r" using that relax by blast
  obtain ce s1 where p: "ws_poll wk s = (ce, s1)" by fastforce
  have s1: "R wk [] s (None, s1)" using poll [of wk s] p by simp
  show ?case
  proof (cases "ws_terminal s \<or> ce \<noteq> None \<or> MaxDepth (wk_limits wk) < depth")
    case True
    have "R wk ?L s ?r"
      using True p halted error_after [OF s1] pre [OF s1 gap] by (subst walk.simps) (auto split: option.splits)
    then show ?thesis by (rule both)
  next
    case False
    obtain kr w where k: "spool_kind (wk_env wk) data (ws_world s1) = (kr, w)" by fastforce
    have kd: "w = ws_world s1 \<or> w = tick (ws_world s1)" "\<And>k. kr = Inr k \<Longrightarrow> k = detect (sp_bytes data)"
      using spool_kind_detect [OF k "1.prems"(2)] by auto
    let ?s2 = "s1\<lparr>ws_world := w\<rparr>" and ?inner = "\<lambda>name value s. walk wk name value (depth + 1) s"
    have s2: "R wk [] s (None, ?s2)" using pre [OF s1 world_step [OF kd(1)]] .
    show ?thesis
    proof (cases kr)
      case (Inl e)
      have "R wk ?L s ?r" using False p k Inl error_after [OF s2] by (subst walk.simps) auto
      then show ?thesis by (rule both)
    next
      case (Inr knd)
      have kind: "knd = detect (sp_bytes data)" using kd(2) Inr .
      obtain n where n: "levels wk depth = Suc n" "n = levels wk (depth + 1)" using False by (metis (no_types, opaque_lifting)
            Suc_nat_eq_nat_zadd1 add.commute diff_add_eq diff_ge_0_iff_ge linorder_not_less add_diff_cancel_right')
      let ?leaf = "leaves (wk_env wk) n"
      have go: "\<not> ws_terminal s" "ce = None" "\<not> MaxDepth (wk_limits wk) < depth" using False by blast+
      have d: "descends wk ?inner ?leaf"
        unfolding descends_def n(2) using "1.IH" [OF go(1) p [symmetric] go(2,3) k [symmetric] Inr refl "1.prems"(1)]
        by (auto simp: accepted_def)
      have eq: "?r = (case knd of kindZip \<Rightarrow> walkZip wk ?inner name data ?s2 | kindTar \<Rightarrow> walkTar wk ?inner name data ?s2
          | kindGzip \<Rightarrow> walkGzip wk ?inner name data ?s2 | kindBzip2 \<Rightarrow> walkBzip2 wk ?inner name data ?s2
          | kindNone \<Rightarrow> emitEntry wk name data ?s2)"
        using False p k Inr by (subst walk.simps) (simp add: Let_def)
      have L: "?L = leaves (wk_env wk) (Suc n) name (sp_bytes data)" using n(1) by simp
      show ?thesis
      proof (cases knd)
        case kindNone
        then show ?thesis using prepend [OF s2 emission [OF "1.prems"(1)]] eq kind L by auto
      next
        case kindZip
        then have "R wk ?L s ?r" using pre [OF s2 walkZip_step [OF "1.prems"(1) d "1.prems"(2)]] eq kind L by simp
        then show ?thesis by (rule both)
      next
        case kindTar
        then have "R wk ?L s ?r" using pre [OF s2 walkTar_step [OF "1.prems"(1) d]] eq kind L by simp
        then show ?thesis by (rule both)
      next
        case kindGzip
        then have "R wk ?L s ?r" using pre [OF s2 walkGzip_step [OF "1.prems"(1) d]] eq kind L by simp
        then show ?thesis by (rule both)
      next
        case kindBzip2
        then have "R wk ?L s ?r" using pre [OF s2 walkBzip2_step [OF "1.prems"(1) d]] eq kind L by simp
        then show ?thesis by (rule both)
      qed
    qed
  qed
qed

end

end
