(* ===== verification/ArchiveCorrect.thy ===== *)
theory ArchiveCorrect
  imports ArchiveWalk
begin

text \<open>
  The guarantees of the archive walker, as interpretations of the walk's contract: temporary files do not outlive a walk; the
  expansion stays within its limits; every visited entry is a leaf of the archive, and a walk that reports nothing has
  visited all of them.
\<close>

section \<open>The primitive steps\<close>

lemma partial_fields [simp]:
  "ws_expanded (ws_partial k n e s) = ws_expanded s" "ws_files (ws_partial k n e s) = ws_files s"
  "ws_headers (ws_partial k n e s) = ws_headers s" "ws_terminal (ws_partial k n e s) = ws_terminal s"
  "ws_rejected (ws_partial k n e s) = ws_rejected s" "ws_world (ws_partial k n e s) = ws_world s"
  "ws_client (ws_partial k n e s) = ws_client s" "ws_errs (ws_partial k n e s) \<noteq> []"
  by (auto simp: ws_partial_def maxRetainedErrors_def)

lemma partial_errs: "length (ws_errs s) \<le> maxRetainedErrors \<Longrightarrow> length (ws_errs (ws_partial k n e s)) \<le> maxRetainedErrors"
  by (simp add: ws_partial_def)

lemma stop_fields [simp]:
  "ws_expanded (ws_stop k n e s) = ws_expanded s" "ws_files (ws_stop k n e s) = ws_files s"
  "ws_headers (ws_stop k n e s) = ws_headers s" "ws_terminal (ws_stop k n e s)"
  "ws_world (ws_stop k n e s) = ws_world s" "ws_client (ws_stop k n e s) = ws_client s"
  by (simp_all add: ws_stop_def)

lemma reject_fields [simp]:
  "ws_expanded (rejectBudget k n e s) = ws_expanded s" "ws_files (rejectBudget k n e s) = ws_files s"
  "ws_headers (rejectBudget k n e s) = ws_headers s" "ws_errs (rejectBudget k n e s) = ws_errs (ws_partial k n e s)"
  "ws_world (rejectBudget k n e s) = ws_world s" "ws_client (rejectBudget k n e s) = ws_client s"
  by (simp_all add: rejectBudget_def Let_def)

lemma close_temps_ok: "spool_close env sp w = (e, w') \<Longrightarrow> temps_ok w \<Longrightarrow> temps_ok w'"
  using os_Remove_temps(1) [of env _ "tick w"]
  by (fastforce simp: spool_close_def os_call_eq Let_def split: option.splits prod.splits)

lemma close_value_fields:
  "ws_expanded (close_value wk n v s) = ws_expanded s" "ws_files (close_value wk n v s) = ws_files s"
  "ws_headers (close_value wk n v s) = ws_headers s" "ws_terminal (close_value wk n v s) = ws_terminal s"
  "ws_client (close_value wk n v s) = ws_client s" "ws_errs s \<noteq> [] \<Longrightarrow> ws_errs (close_value wk n v s) \<noteq> []"
  "length (ws_errs s) \<le> maxRetainedErrors \<Longrightarrow> length (ws_errs (close_value wk n v s)) \<le> maxRetainedErrors"
  "ws_world (close_value wk n v s) = snd (spool_close (wk_env wk) v (ws_world s))"
  by (auto simp: close_value_def Let_def partial_errs split: prod.splits option.splits)

definition limits_ok :: "'s walker \<Rightarrow> bool" where
  "limits_ok wk \<longleftrightarrow> MaxEntryBytes (wk_limits wk) < 2 ^ 63 - 1 \<and> 0 < MaxExpandedBytes (wk_limits wk) \<and> 0 < MaxFiles (wk_limits wk)"

text \<open>The outcomes of an expansion: nothing happened to the budget and the gap is on record, or a value within the remaining budget.\<close>

lemma expanded_cases:
  assumes "expandedSpoolWithOptions wk name input declared opts s = ((val, ce), s1)" "limits_ok wk" "temps_ok (ws_world s)"
  shows "ws_files s1 = ws_files s \<and> ws_headers s1 = ws_headers s \<and> ws_client s1 = ws_client s \<and> temps_ok (ws_world s1) \<and>
    (ws_errs s \<noteq> [] \<longrightarrow> ws_errs s1 \<noteq> []) \<and> (length (ws_errs s) \<le> maxRetainedErrors \<longrightarrow> length (ws_errs s1) \<le> maxRetainedErrors) \<and>
    (case val of
       None \<Rightarrow> ws_expanded s1 = ws_expanded s \<and> (ws_terminal s1 \<longrightarrow> ws_terminal s \<or> ws_errs s1 \<noteq> []) \<and> (ce = None \<longrightarrow> ws_errs s1 \<noteq> []) \<and>
         (removes_ok (wk_env wk) \<longrightarrow> w_temps (ws_world s1) = w_temps (ws_world s))
     | Some v \<Rightarrow> ce = None \<and> accepted wk v \<and> sp_bytes v = stream_bytes input \<and> ws_terminal s1 = ws_terminal s \<and> ws_errs s1 = ws_errs s \<and>
         ws_expanded s1 = ws_expanded s + sp_size v \<and> sp_size v \<le> MaxExpandedBytes (wk_limits wk) - ws_expanded s \<and>
         holds (wk_env wk) v (w_temps (ws_world s)) (ws_world s1))"
proof -
  let ?lim = "wk_limits wk"
  let ?remaining = "MaxExpandedBytes ?lim - ws_expanded s"
  show ?thesis
  proof (cases "MaxEntryBytes ?lim < declared \<or> (0 \<le> declared \<and> ?remaining < declared)")
    case True
    then have "val = None \<and> ce = None \<and> (\<exists>k e. s1 = ws_partial k name e s \<or> s1 = rejectBudget k name e s)"
      using assms(1) by (auto simp: expandedSpoolWithOptions_def Let_def split: if_splits)
    then show ?thesis using assms(3) by (auto simp: partial_errs)
  next
    case False
    define limit where "limit = (if ?remaining < MaxEntryBytes ?lim then ?remaining else MaxEntryBytes ?lim)"
    define knd where "knd = (if ?remaining < MaxEntryBytes ?lim then ''max-expanded-bytes'' else ''max-entry-bytes'')"
    obtain r w where sp: "spoolFromReader (wk_env wk) input declared limit opts (ws_world s) = (r, w)" by fastforce
    have "limit < 2 ^ 63 - 1" using assms(2) by (auto simp: limit_def limits_ok_def)
    note spec = spool_spec [OF sp assms(3) this]
    have pair: "(if ?remaining < MaxEntryBytes ?lim then (?remaining, ''max-expanded-bytes'') else (MaxEntryBytes ?lim, ''max-entry-bytes'')) = (limit, knd)"
      by (simp add: limit_def knd_def)
    have eq: "expandedSpoolWithOptions wk name input declared opts s =
      (case r of
         Inl e \<Rightarrow> if is_ctx_err e then ((None, Some e), s\<lparr>ws_world := w\<rparr>)
                  else if has_spool_limit e then ((None, None), rejectBudget knd name (AMsg (''expanded bytes exceed '' @ itoa limit)) (s\<lparr>ws_world := w\<rparr>))
                  else ((None, None), ws_partial ''corrupt-entry'' name e (s\<lparr>ws_world := w\<rparr>))
       | Inr v \<Rightarrow> ((Some v, None), s\<lparr>ws_world := w, ws_expanded := ws_expanded s + sp_size v\<rparr>))"
      using False sp unfolding expandedSpoolWithOptions_def Let_def pair by (auto split: sum.splits)
    show ?thesis
    proof (cases r)
      case (Inl e)
      then have "val = None" "ws_world s1 = w" "ws_expanded s1 = ws_expanded s" "ws_files s1 = ws_files s" "ws_headers s1 = ws_headers s"
        "ws_client s1 = ws_client s" "ce = None \<longrightarrow> ws_errs s1 \<noteq> []" "ws_terminal s1 \<longrightarrow> ws_terminal s \<or> ws_errs s1 \<noteq> []"
        "ws_errs s \<noteq> [] \<longrightarrow> ws_errs s1 \<noteq> []" "length (ws_errs s) \<le> maxRetainedErrors \<longrightarrow> length (ws_errs s1) \<le> maxRetainedErrors"
        using assms(1) eq by (auto simp: partial_errs split: if_splits)
      then show ?thesis using Inl spec by auto
    next
      case (Inr v)
      then have s1: "val = Some v" "ce = None" "s1 = s\<lparr>ws_world := w, ws_expanded := ws_expanded s + sp_size v\<rparr>"
        using assms(1) eq by auto
      have v: "holds (wk_env wk) v (w_temps (ws_world s)) w" "value_ok v" "sp_bytes v = stream_bytes input" "sp_size v \<le> limit"
        using spec Inr by auto
      have "accepted wk v" "sp_size v \<le> ?remaining" using v(2,4) by (auto simp: accepted_def limit_def split: if_splits)
      then show ?thesis using s1 v by (simp add: holds_def)
    qed
  qed
qed

section \<open>Temporary files\<close>

definition tidy :: "'s walker \<Rightarrow> (string \<times> bytes) list \<Rightarrow> 's walkState \<Rightarrow> aerr option \<times> 's walkState \<Rightarrow> bool" where
  "tidy wk L s r \<longleftrightarrow>
     (temps_ok (ws_world s) \<longrightarrow> temps_ok (ws_world (snd r)) \<and>
        (removes_ok (wk_env wk) \<longrightarrow> w_temps (ws_world (snd r)) = w_temps (ws_world s)))"

interpretation tidy: walk_contract limits_ok tidy "\<lambda>wk v. tidy wk"
proof
  show "tidy wk L s (ce, s1)" if "limits_ok wk" "expandedSpoolWithOptions wk name input declared opts s = ((None, ce), s1)"
    for wk :: "'a walker" and L name input declared opts s ce s1
    using expanded_cases [OF that(2,1)] by (auto simp: tidy_def)
  show "tidy wk L s (res, close_value wk n v s2)"
    if "limits_ok wk" "expandedSpoolWithOptions wk name input declared opts s = ((Some v, None), s1)"
      "accepted wk v \<Longrightarrow> sp_bytes v = stream_bytes input \<Longrightarrow> tidy wk L s1 (res, s2)"
    for wk :: "'a walker" and L name input declared opts s v s1 res s2 n
    unfolding tidy_def
  proof
    assume t: "temps_ok (ws_world s)"
    have v: "accepted wk v" "sp_bytes v = stream_bytes input" "temps_ok (ws_world s1)" "holds (wk_env wk) v (w_temps (ws_world s)) (ws_world s1)"
      using expanded_cases [OF that(2,1) t] by auto
    then have s2: "temps_ok (ws_world s2)" "removes_ok (wk_env wk) \<longrightarrow> w_temps (ws_world s2) = w_temps (ws_world s1)"
      using that(3) by (auto simp: tidy_def)
    then have "holds (wk_env wk) v (w_temps (ws_world s)) (ws_world s2)" using v(4) by (simp add: holds_def)
    then show "temps_ok (ws_world (snd (res, close_value wk n v s2))) \<and> (removes_ok (wk_env wk) \<longrightarrow>
        w_temps (ws_world (snd (res, close_value wk n v s2))) = w_temps (ws_world s))"
      using close_spec [OF prod.collapse [symmetric, of "spool_close (wk_env wk) v (ws_world s2)"]] by (simp add: close_value_fields(8))
  qed
  show "tidy wk [(name, sp_bytes v)] s (emitEntry wk name v s)" for wk :: "'a walker" and name v s
    by (auto simp: tidy_def emitEntry_def Let_def split: prod.splits)
qed (auto simp: tidy_def temps_ok_def)

section \<open>Budget and coverage\<close>

fun visit_all :: "(StreamEntry \<Rightarrow> 's \<Rightarrow> aerr option \<times> 's) \<Rightarrow> StreamEntry list \<Rightarrow> 's \<Rightarrow> aerr option \<times> 's" where
  "visit_all visit [] c = (None, c)"
| "visit_all visit (x # xs) c = (case visit x c of (Some e, c') \<Rightarrow> (Some e, c') | (None, c') \<Rightarrow> visit_all visit xs c')"

lemma visit_all_append: "visit_all visit xs c = (None, c') \<Longrightarrow> visit_all visit (xs @ ys) c = visit_all visit ys c'"
  by (induction xs arbitrary: c) (auto split: prod.splits option.splits)

definition entry_key :: "StreamEntry \<Rightarrow> string \<times> bytes" where
  "entry_key e = (se_Path e, se_bytes e)"

definition total_size :: "StreamEntry list \<Rightarrow> int" where
  "total_size es = sum_list (map se_Size es)"

definition state_ok :: "'s walker \<Rightarrow> 's walkState \<Rightarrow> bool" where
  "state_ok wk s \<longleftrightarrow> ws_expanded s \<le> MaxExpandedBytes (wk_limits wk) \<and> ws_files s \<le> MaxFiles (wk_limits wk) \<and>
     ws_headers s \<le> maxArchiveHeaders \<and> length (ws_errs s) \<le> maxRetainedErrors \<and> (ws_terminal s \<longrightarrow> ws_errs s \<noteq> []) \<and>
     temps_ok (ws_world s)"

definition entry_ok :: "'s walker \<Rightarrow> StreamEntry \<Rightarrow> bool" where
  "entry_ok wk e \<longleftrightarrow> se_Size e = int (length (se_bytes e)) \<and> se_Size e \<le> MaxEntryBytes (wk_limits wk)"

text \<open>What the entries visited between two states satisfy; \<open>extra\<close> is the size of the value being walked, which was counted
  when it was expanded.\<close>

definition visited :: "'s walker \<Rightarrow> int \<Rightarrow> (string \<times> bytes) list \<Rightarrow> 's walkState \<Rightarrow> aerr option \<times> 's walkState \<Rightarrow> StreamEntry list \<Rightarrow> bool" where
  "visited wk extra L s r es \<longleftrightarrow>
     snd (visit_all (wk_visit wk) es (ws_client s)) = ws_client (snd r) \<and>
     (fst (visit_all (wk_visit wk) es (ws_client s)) \<noteq> None \<longrightarrow> fst r = fst (visit_all (wk_visit wk) es (ws_client s))) \<and>
     subseq (map entry_key es) L \<and> (\<forall>e \<in> set es. entry_ok wk e) \<and>
     ws_files (snd r) = ws_files s + int (length es) \<and>
     total_size es \<le> ws_expanded (snd r) - ws_expanded s + extra \<and>
     (fst r = None \<and> ws_errs (snd r) = [] \<longrightarrow> map entry_key es = L)"

definition covers :: "'s walker \<Rightarrow> int \<Rightarrow> (string \<times> bytes) list \<Rightarrow> 's walkState \<Rightarrow> aerr option \<times> 's walkState \<Rightarrow> bool" where
  "covers wk extra L s r \<longleftrightarrow>
     (state_ok wk s \<longrightarrow> state_ok wk (snd r) \<and> (ws_errs s \<noteq> [] \<longrightarrow> ws_errs (snd r) \<noteq> []) \<and> (\<exists>es. visited wk extra L s r es))"

lemma covers_none:
  assumes "state_ok wk s \<Longrightarrow> state_ok wk s' \<and> ws_client s' = ws_client s \<and> ws_files s' = ws_files s \<and> ws_expanded s' = ws_expanded s \<and>
    (ws_errs s \<noteq> [] \<longrightarrow> ws_errs s' \<noteq> []) \<and> (L = [] \<or> res \<noteq> None \<or> ws_errs s' \<noteq> [])" "0 \<le> extra"
  shows "covers wk extra L s (res, s')"
proof -
  have "visited wk extra L s (res, s') []" if "state_ok wk s"
    using assms(1) [OF that] assms(2) by (auto simp: visited_def total_size_def)
  then show ?thesis using assms(1) unfolding covers_def by auto
qed

lemma stop_ok: "state_ok wk s \<Longrightarrow> state_ok wk (ws_stop k n e s) \<and> ws_errs (ws_stop k n e s) \<noteq> []"
  by (auto simp: state_ok_def ws_stop_def partial_errs)

lemma covers_seq:
  assumes "covers wk 0 L1 s (None, s1)" "covers wk 0 L2 s1 r"
  shows "covers wk 0 (L1 @ L2) s r"
  unfolding covers_def
proof
  assume "state_ok wk s"
  then obtain es1 where one: "state_ok wk s1" "ws_errs s \<noteq> [] \<longrightarrow> ws_errs s1 \<noteq> []" "visited wk 0 L1 s (None, s1) es1"
    using assms(1) by (auto simp: covers_def)
  then obtain es2 where two: "state_ok wk (snd r)" "ws_errs s1 \<noteq> [] \<longrightarrow> ws_errs (snd r) \<noteq> []" "visited wk 0 L2 s1 r es2"
    using assms(2) by (auto simp: covers_def)
  have "visit_all (wk_visit wk) es1 (ws_client s) = (None, ws_client s1)"
    using one(3) by (auto simp: visited_def intro: prod_eqI)
  from visit_all_append [OF this]
  have run: "visit_all (wk_visit wk) (es1 @ es2) (ws_client s) = visit_all (wk_visit wk) es2 (ws_client s1)" .
  have "visited wk 0 (L1 @ L2) s r (es1 @ es2)"
    using one(3) two unfolding visited_def run by (auto simp: total_size_def intro: list_emb_append_mono)
  then show "state_ok wk (snd r) \<and> (ws_errs s \<noteq> [] \<longrightarrow> ws_errs (snd r) \<noteq> []) \<and> (\<exists>es. visited wk 0 (L1 @ L2) s r es)"
    using one(2) two(1,2) by blast
qed

lemma covers_pre:
  assumes "covers wk 0 [] s (None, s1)" "covers wk extra L s1 r"
  shows "covers wk extra L s r"
  unfolding covers_def
proof
  assume "state_ok wk s"
  then obtain es1 where one: "state_ok wk s1" "ws_errs s \<noteq> [] \<longrightarrow> ws_errs s1 \<noteq> []" "visited wk 0 [] s (None, s1) es1"
    using assms(1) by (auto simp: covers_def)
  then have es1: "es1 = []" by (auto simp: visited_def dest: list_emb_Nil2)
  obtain es2 where two: "state_ok wk (snd r)" "ws_errs s1 \<noteq> [] \<longrightarrow> ws_errs (snd r) \<noteq> []" "visited wk extra L s1 r es2"
    using assms(2) one(1) by (auto simp: covers_def)
  then have "visited wk extra L s r es2" using one(3) es1 by (auto simp: visited_def total_size_def)
  then show "state_ok wk (snd r) \<and> (ws_errs s \<noteq> [] \<longrightarrow> ws_errs (snd r) \<noteq> []) \<and> (\<exists>es. visited wk extra L s r es)"
    using one(2) two(1,2) by blast
qed

lemma visited_prefix: "visited wk extra L1 s (Some e, s1) es \<Longrightarrow> visited wk extra (L1 @ L2) s (Some e, s1) es"
  by (auto simp: visited_def)

lemma covers_bracket:
  assumes "limits_ok wk" "expandedSpoolWithOptions wk name input declared opts s = ((Some v, None), s1)"
    and "accepted wk v \<Longrightarrow> sp_bytes v = stream_bytes input \<Longrightarrow> covers wk (sp_size v) L s1 (res, s2)"
  shows "covers wk 0 L s (res, close_value wk n v s2)"
  unfolding covers_def
proof
  let ?s3 = "close_value wk n v s2"
  assume ok: "state_ok wk s"
  then have "temps_ok (ws_world s)" by (simp add: state_ok_def)
  from expanded_cases [OF assms(2,1) this]
  have v: "accepted wk v" "sp_bytes v = stream_bytes input" "ws_errs s1 = ws_errs s" "ws_client s1 = ws_client s" "ws_files s1 = ws_files s"
    "ws_expanded s1 = ws_expanded s + sp_size v" "sp_size v \<le> MaxExpandedBytes (wk_limits wk) - ws_expanded s"
    "ws_headers s1 = ws_headers s" "ws_terminal s1 = ws_terminal s" "temps_ok (ws_world s1)" by auto
  then have "state_ok wk s1" using ok by (simp add: state_ok_def)
  then obtain es where s2: "state_ok wk s2" "ws_errs s1 \<noteq> [] \<longrightarrow> ws_errs s2 \<noteq> []" "visited wk (sp_size v) L s1 (res, s2) es"
    using assms(3) [OF v(1,2)] by (auto simp: covers_def)
  have errs: "ws_errs s2 \<noteq> [] \<Longrightarrow> ws_errs ?s3 \<noteq> []" by (rule close_value_fields(6))
  have "temps_ok (ws_world ?s3)"
    using close_temps_ok [OF prod.collapse [symmetric]] s2(1) by (simp add: close_value_fields(8) state_ok_def)
  then have "state_ok wk ?s3" using s2(1) close_value_fields(7) [of s2] errs by (simp add: state_ok_def close_value_fields(1-4))
  moreover have "visited wk 0 L s (res, ?s3) es"
    using s2(3) v(4-6) errs unfolding visited_def by (auto simp: close_value_fields(1,2,5))
  ultimately show "state_ok wk (snd (res, ?s3)) \<and> (ws_errs s \<noteq> [] \<longrightarrow> ws_errs (snd (res, ?s3)) \<noteq> []) \<and> (\<exists>es. visited wk 0 L s (res, ?s3) es)"
    using s2(2) v(3) errs by auto
qed

lemma covers_emission:
  assumes "accepted wk v"
  shows "covers wk (sp_size v) [(name, sp_bytes v)] s (emitEntry wk name v s)"
proof (cases "MaxFiles (wk_limits wk) \<le> ws_files s")
  case True
  have "0 \<le> sp_size v" using assms by (simp add: accepted_def value_ok_def)
  then show ?thesis using True
    by (auto simp: emitEntry_def stop_ok intro!: covers_none)
next
  case False
  let ?e = "\<lparr>se_Path = name, se_Size = sp_size v, se_bytes = sp_bytes v\<rparr>"
  obtain err c where c: "wk_visit wk ?e (ws_client s) = (err, c)" by fastforce
  have r: "emitEntry wk name v s = (err, s\<lparr>ws_files := ws_files s + 1, ws_client := c\<rparr>)"
    using False c by (simp add: emitEntry_def Let_def)
  have "visit_all (wk_visit wk) [?e] (ws_client s) = (err, c)" using c by (simp split: option.split)
  then have "visited wk (sp_size v) [(name, sp_bytes v)] s (emitEntry wk name v s) [?e]"
    using assms unfolding visited_def r by (simp add: entry_key_def entry_ok_def total_size_def accepted_def value_ok_def)
  moreover have "state_ok wk s \<longrightarrow> state_ok wk (snd (emitEntry wk name v s))" using False unfolding r by (simp add: state_ok_def)
  ultimately show ?thesis unfolding covers_def r by auto
qed

lemma covers_rejected:
  assumes "limits_ok wk" "expandedSpoolWithOptions wk name input declared opts s = ((None, ce), s1)"
  shows "covers wk 0 L s (ce, s1)"
proof (rule covers_none)
  assume ok: "state_ok wk s"
  then have "temps_ok (ws_world s)" by (simp add: state_ok_def)
  from expanded_cases [OF assms(2,1) this] ok
  show "state_ok wk s1 \<and> ws_client s1 = ws_client s \<and> ws_files s1 = ws_files s \<and> ws_expanded s1 = ws_expanded s \<and>
    (ws_errs s \<noteq> [] \<longrightarrow> ws_errs s1 \<noteq> []) \<and> (L = [] \<or> ce \<noteq> None \<or> ws_errs s1 \<noteq> [])"
    by (auto simp: state_ok_def)
qed simp

interpretation coverage: walk_contract limits_ok "\<lambda>wk. covers wk 0" "\<lambda>wk v L s r. accepted wk v \<longrightarrow> covers wk (sp_size v) L s r"
proof
  show "covers wk 0 L s (ce, s1)" if "limits_ok wk" "expandedSpoolWithOptions wk name input declared opts s = ((None, ce), s1)"
    for wk :: "'a walker" and L name input declared opts s ce s1
    by (rule covers_rejected [OF that])
  show "covers wk 0 L s (res, close_value wk n v s2)"
    if "limits_ok wk" "expandedSpoolWithOptions wk name input declared opts s = ((Some v, None), s1)"
      "accepted wk v \<Longrightarrow> sp_bytes v = stream_bytes input \<Longrightarrow> accepted wk v \<longrightarrow> covers wk (sp_size v) L s1 (res, s2)"
    for wk :: "'a walker" and L name input declared opts s v s1 res s2 n
    using covers_bracket [OF that(1,2)] that(3) by blast
  show "accepted wk v \<longrightarrow> covers wk (sp_size v) [(name, sp_bytes v)] s (emitEntry wk name v s)"
    for wk :: "'a walker" and name v s using covers_emission by blast
  show "covers wk 0 (L1 @ L2) s r" if "covers wk 0 L1 s (None, s1)" "covers wk 0 L2 s1 r"
    for wk :: "'a walker" and L1 L2 s s1 r by (rule covers_seq [OF that])
  show "covers wk 0 (L1 @ L2) s (Some e, s1)" if "covers wk 0 L1 s (Some e, s1)" for wk :: "'a walker" and L1 L2 s e s1
    using that visited_prefix by (fastforce simp: covers_def)
  show "covers wk 0 L s (None, ws_partial knd entry err s)" for wk :: "'a walker" and L s knd entry err
    by (rule covers_none) (auto simp: state_ok_def partial_errs)
  show "covers wk 0 L s (None, ws_stop knd entry err s)" for wk :: "'a walker" and L s knd entry err
    by (rule covers_none) (simp_all add: stop_ok)
  show "covers wk 0 [] s (None, s\<lparr>ws_world := (ws_world s)\<lparr>w_clock := t\<rparr>\<rparr>)" if "w_clock (ws_world s) \<le> t" for wk :: "'a walker" and s t
    using that by (intro covers_none) (auto simp: state_ok_def temps_ok_def)
  show "accepted wk v \<longrightarrow> covers wk (sp_size v) L s r" if "covers wk 0 L s r" for wk :: "'a walker" and v L s r
    using that by (fastforce simp: covers_def visited_def accepted_def value_ok_def)
  show "accepted wk v \<longrightarrow> covers wk (sp_size v) L s r" if "covers wk 0 [] s (None, s1)" "accepted wk v \<longrightarrow> covers wk (sp_size v) L s1 r"
    for wk :: "'a walker" and v L s r s1
    using that covers_pre by blast
qed (auto intro!: covers_none simp: state_ok_def)

section \<open>Whole walks\<close>

lemma join_errs_none: "join_errs es = None \<longleftrightarrow> (\<forall>e \<in> set es. e = None)"
  by (induction es) (auto simp: join_errs_def map_filter_simps split: list.splits option.splits)

lemma normalize_none: "normalizeWalkError root err = None \<longleftrightarrow> err = None"
  by (auto simp: normalizeWalkError_def split: option.splits)

lemma new_state_ok: "limits_ok wk \<Longrightarrow> temps_ok w \<Longrightarrow> state_ok wk (new_walkState w c)"
  by (simp add: state_ok_def new_walkState_def limits_ok_def maxArchiveHeaders_def maxRetainedErrors_def)

lemma limits_ok_new: "MaxEntryBytes lim < 2 ^ 63 - 1 \<Longrightarrow> limits_ok (new_walker env lim visit)"
  by (auto simp: limits_ok_def new_walker_def withDefaults_def)

text \<open>What a walk of one root value delivers to its callback.\<close>

definition delivers :: "'s walker \<Rightarrow> (string \<times> bytes) list \<Rightarrow> 's \<Rightarrow> aerr option \<Rightarrow> 's \<Rightarrow> bool" where
  "delivers wk L c err c' \<longleftrightarrow> (\<exists>es. snd (visit_all (wk_visit wk) es c) = c' \<and>
     (fst (visit_all (wk_visit wk) es c) \<noteq> None \<longrightarrow> err \<noteq> None) \<and> subseq (map entry_key es) L \<and> (\<forall>e \<in> set es. entry_ok wk e) \<and>
     int (length es) \<le> MaxFiles (wk_limits wk) \<and> total_size es \<le> MaxExpandedBytes (wk_limits wk) \<and> (err = None \<longrightarrow> map entry_key es = L))"

lemma delivers_nothing: "limits_ok wk \<Longrightarrow> L = [] \<or> err \<noteq> None \<Longrightarrow> delivers wk L c err c"
  by (auto simp: delivers_def limits_ok_def total_size_def intro!: exI [of _ "[]"])

lemma walkRoot_spec:
  assumes "walkRoot wk root data (w, c) = (err, w', c')" "limits_ok wk" "value_ok data" "temps_ok w"
  shows "temps_ok w' \<and> (removes_ok (wk_env wk) \<longrightarrow> w_temps w' = w_temps w) \<and>
    delivers wk (if detect (sp_bytes data) = kindNone then [] else leaves (wk_env wk) (nat (MaxDepth (wk_limits wk) + 1)) root (sp_bytes data)) c err c'"
proof -
  obtain ce w1 where p: "poll (wk_env wk) w = (ce, w1)" by fastforce
  have w1: "temps_ok w1" "w_temps w1 = w_temps w" using p assms(4) by (auto simp: poll_eq)
  obtain kr w2 where k: "spool_kind (wk_env wk) data w1 = (kr, w2)" by fastforce
  have w2: "temps_ok w2" "w_temps w2 = w_temps w" using spool_kind_detect [OF k assms(3)] w1 by auto
  show ?thesis
  proof (cases "ce \<noteq> None \<or> (\<exists>e. kr = Inl e) \<or> kr = Inr kindNone")
    case True
    then have "c' = c" "temps_ok w'" "w_temps w' = w_temps w" "err \<noteq> None \<or> kr = Inr kindNone"
      using assms(1) p k w1 w2 by (cases ce; auto simp: walkRoot_def)+
    moreover have "kr = Inr kindNone \<Longrightarrow> detect (sp_bytes data) = kindNone" using spool_kind_detect [OF k assms(3)] by auto
    ultimately show ?thesis using delivers_nothing [OF assms(2)] by auto
  next
    case False
    then obtain knd where knd: "kr = Inr knd" "ce = None" "knd \<noteq> kindNone" by (cases kr) auto
    then have detect: "detect (sp_bytes data) \<noteq> kindNone" using spool_kind_detect [OF k assms(3)] by auto
    let ?s = "new_walkState w2 c" and ?L = "leaves (wk_env wk) (nat (MaxDepth (wk_limits wk) + 1 - 0)) root (sp_bytes data)"
    obtain err0 s where walk: "walk wk root data 0 ?s = (err0, s)" by fastforce
    have r: "err = join_errs (map Some (ws_errs s) @ [err0])" "w' = ws_world s" "c' = ws_client s"
      using assms(1) p k knd walk by (auto simp: walkRoot_def)
    have "covers wk 0 ?L ?s (err0, s)" "tidy wk ?L ?s (err0, s)"
      using coverage.walk_step [OF assms(2,3)] tidy.walk_step [OF assms(2,3)] detect walk by metis+
    then obtain es where es: "state_ok wk s" "visited wk 0 ?L ?s (err0, s) es" "removes_ok (wk_env wk) \<longrightarrow> w_temps (ws_world s) = w_temps w2"
      using new_state_ok [OF assms(2) w2(1)] w2(1) by (auto simp: covers_def tidy_def new_walkState_def)
    have "delivers wk ?L c err c'"
      using es(1,2) unfolding delivers_def r visited_def join_errs_none
      by (intro exI [of _ es]) (auto simp: new_walkState_def state_ok_def)
    then show ?thesis using es(1,3) r w2 detect by (auto simp: state_ok_def)
  qed
qed

lemma WalkBytesContext_spec:
  assumes "WalkBytesContext env rootName data lim visit (w, c) = (err, w', c')" "MaxEntryBytes lim < 2 ^ 63 - 1" "temps_ok w" "LooksLikeArchive data"
  shows "temps_ok w' \<and> (removes_ok env \<longrightarrow> w_temps w' = w_temps w) \<and>
    delivers (new_walker env lim visit) (leaves env (nat (MaxDepth (withDefaults lim) + 1)) (root_name rootName) data) c err c'"
proof -
  let ?wk = "new_walker env lim visit"
  let ?root = "\<lparr>sp_threshold = archiveSpillThreshold, sp_mem = data, sp_file = None, sp_size = int (length data)\<rparr>"
  have wk: "wk_env ?wk = env" "wk_limits ?wk = withDefaults lim" by (simp_all add: new_walker_def)
  have ok: "limits_ok ?wk" by (rule limits_ok_new [OF assms(2)])
  have d: "detect data \<noteq> kindNone" using assms(4) by (auto simp: LooksLikeArchive_def)
  show ?thesis
  proof (cases "MaxInputBytes (withDefaults lim) < int (length data)")
    case True
    then have "c' = c" "w' = w" "err \<noteq> None" using assms(1) by (auto simp: WalkBytesContext_def Let_def wk normalizeWalkError_def)
    then show ?thesis using assms(3) delivers_nothing [OF ok] by auto
  next
    case False
    obtain e1 w1 c1 where run: "walkRoot ?wk (root_name rootName) ?root (w, c) = (e1, w1, c1)" by (metis prod.exhaust)
    have r: "err = normalizeWalkError (root_name rootName) e1" "w' = w1" "c' = c1"
      using assms(1) False run by (auto simp: WalkBytesContext_def Let_def wk)
    have "value_ok ?root" "sp_bytes ?root = data" by (simp_all add: value_ok_def sp_bytes_def)
    from walkRoot_spec [OF run ok this(1) assms(3)] this(2) d
    show ?thesis unfolding r wk delivers_def normalize_none by auto
  qed
qed

lemma WalkStreamContext_spec:
  assumes "WalkStreamContext env rootName input sz lim visit (w, c) = (err, w', c')"
    and "MaxEntryBytes lim < 2 ^ 63 - 1" "MaxInputBytes lim < 2 ^ 63 - 1" "temps_ok w"
  shows "temps_ok w' \<and> (removes_ok env \<longrightarrow> w_temps w' = w_temps w) \<and>
    delivers (new_walker env lim visit) (if detect (stream_bytes input) = kindNone then []
      else leaves env (nat (MaxDepth (withDefaults lim) + 1)) (root_name rootName) (stream_bytes input)) c err c'"
proof -
  let ?wk = "new_walker env lim visit"
  let ?limit = "MaxInputBytes (withDefaults lim)"
  have wk: "wk_env ?wk = env" "wk_limits ?wk = withDefaults lim" by (simp_all add: new_walker_def)
  have ok: "limits_ok ?wk" by (rule limits_ok_new [OF assms(2)])
  let ?L = "if detect (stream_bytes input) = kindNone then []
      else leaves env (nat (MaxDepth (withDefaults lim) + 1)) (root_name rootName) (stream_bytes input)"
  have small: "?limit < 2 ^ 63 - 1" using assms(3) by (simp add: withDefaults_def)
  obtain r w1 where sp: "spoolFromReader env input sz ?limit archive_opts w = (r, w1)" by fastforce
  note spec = spool_spec [OF sp assms(4) small]
  show ?thesis
  proof (cases r)
    case (Inl e)
    then have "w' = w1" "c' = c" "err \<noteq> None"
      using assms(1) sp by (auto simp: WalkStreamContext_def withSpool_def Let_def wk normalizeWalkError_def)
    then show ?thesis using spec Inl delivers_nothing [OF ok] by auto
  next
    case (Inr v)
    obtain e2 w2 c2 where run: "walkRoot ?wk (root_name rootName) v (w1, c) = (e2, w2, c2)" by (metis prod.exhaust)
    have v: "holds env v (w_temps w) w1" "value_ok v" "sp_bytes v = stream_bytes input" using spec Inr by auto
    then have "temps_ok w1" by (simp add: holds_def)
    from walkRoot_spec [OF run ok v(2) this]
    have two: "temps_ok w2" "removes_ok env \<longrightarrow> w_temps w2 = w_temps w1"
      "delivers ?wk ?L c e2 c2"
      by (auto simp: wk v(3))
    obtain e3 w3 where close: "spool_close env v w2 = (e3, w3)" by fastforce
    have r: "err = normalizeWalkError (root_name rootName) (join_errs [e2, e3])" "w' = w3" "c' = c2"
      using assms(1) sp Inr run close by (auto simp: WalkStreamContext_def withSpool_def Let_def wk)
    have "temps_ok w3 \<and> (removes_ok env \<longrightarrow> w_temps w3 = w_temps w)"
      using close_temps_ok [OF close two(1)] close_spec [OF close] v(1) two by (auto simp: holds_def)
    moreover have "delivers ?wk ?L c err c2"
      using two(3) unfolding delivers_def r(1) normalize_none join_errs_none by auto
    ultimately show ?thesis using r(2,3) by simp
  qed
qed

lemma visit_collect: "visit_all collect_entry es c = (None, c @ map entry_key es)"
  by (induction es arbitrary: c) (simp_all add: collect_entry_def entry_key_def)

lemma WalkContext_spec:
  assumes "WalkContext env rootName data lim w = (entries, err, w')" "MaxEntryBytes lim < 2 ^ 63 - 1" "temps_ok w"
  shows "\<exists>es. entries = map entry_key es \<and> (\<forall>e \<in> set es. entry_ok (new_walker env lim collect_entry) e) \<and>
    int (length es) \<le> MaxFiles (withDefaults lim) \<and> total_size es \<le> MaxExpandedBytes (withDefaults lim) \<and>
    (LooksLikeArchive data \<longrightarrow> subseq entries (leaves env (nat (MaxDepth (withDefaults lim) + 1)) (root_name rootName) data) \<and>
      (err = None \<longrightarrow> entries = leaves env (nat (MaxDepth (withDefaults lim) + 1)) (root_name rootName) data))"
proof (cases "LooksLikeArchive data")
  case False
  then have "entries = []" using assms(1) by (simp add: WalkContext_def)
  moreover have "0 \<le> MaxFiles (withDefaults lim)" "0 \<le> MaxExpandedBytes (withDefaults lim)" by (simp_all add: withDefaults_def)
  ultimately show ?thesis using False by (intro exI [of _ "[]"]) (simp add: total_size_def)
next
  case True
  then have run: "WalkBytesContext env rootName data lim collect_entry (w, []) = (err, w', entries)"
    using assms(1) by (auto simp: WalkContext_def split: prod.splits)
  have wk: "wk_visit (new_walker env lim collect_entry) = collect_entry" "wk_limits (new_walker env lim collect_entry) = withDefaults lim"
    by (simp_all add: new_walker_def)
  from WalkBytesContext_spec [OF run assms(2,3) True] show ?thesis
    unfolding delivers_def wk visit_collect by auto
qed

text \<open>C28. Decompression bombs are bounded: whatever the decompressors deliver, however archives are nested, and whichever operating-system
  calls fail or when the context is cancelled, a walk returns at most the configured number of files, each within the
  entry limit, and all of them together within the expansion limit.\<close>

theorem WalkContext_bounded:
  assumes "WalkContext env rootName data lim w = (entries, err, w')" "MaxEntryBytes lim < 2 ^ 63 - 1" "temps_ok w"
  shows "int (length entries) \<le> MaxFiles (withDefaults lim) \<and>
    (\<forall>(path, body) \<in> set entries. int (length body) \<le> MaxEntryBytes (withDefaults lim)) \<and>
    int (length (concat (map snd entries))) \<le> MaxExpandedBytes (withDefaults lim)"
proof -
  obtain es where es: "entries = map entry_key es" "\<forall>e \<in> set es. entry_ok (new_walker env lim collect_entry) e"
    "int (length es) \<le> MaxFiles (withDefaults lim)" "total_size es \<le> MaxExpandedBytes (withDefaults lim)"
    using WalkContext_spec [OF assms] by blast
  have "\<forall>e \<in> set es. se_Size e = int (length (se_bytes e))" using es(2) by (simp add: entry_ok_def)
  then have "int (length (concat (map snd (map entry_key es)))) = total_size es"
    by (induction es) (auto simp: total_size_def entry_key_def)
  moreover have "\<forall>(path, body) \<in> set entries. int (length body) \<le> MaxEntryBytes (withDefaults lim)"
    using es(1,2) by (auto simp: entry_key_def entry_ok_def new_walker_def)
  ultimately show ?thesis using es by simp
qed

definition sample_archive_env :: archive_env where
  "sample_archive_env =
     \<lparr>ae_ctx = \<lambda>_. None, ae_os = \<lambda>_. None, ae_remove = \<lambda>_. None, ae_zip = \<lambda>_. Inl ''not a zip file'', ae_tar = \<lambda>_. ([], None),
      ae_gzip = \<lambda>_. Inr ([(''secret'', None)], None), ae_bzip2 = \<lambda>_. []\<rparr>"

definition sample_limits :: Limits where
  "sample_limits = \<lparr>MaxDepth = 3, MaxInputBytes = 0, MaxEntryBytes = 10, MaxExpandedBytes = 50, MaxFiles = 2\<rparr>"

definition sample_world :: world where "sample_world = \<lparr>w_clock = 0, w_temps = []\<rparr>"

definition sample_walk :: "(string \<times> bytes) list \<times> aerr option \<times> world" where
  "sample_walk = WalkContext sample_archive_env ''a.gz'' [CHR 0x1F, CHR 0x8B] sample_limits sample_world"

lemma sample_walk: "fst sample_walk = [(''a'', ''secret'')]" "fst (snd sample_walk) = None"
  by code_simp+

theorem WalkContext_bounded_witness:
  "fst sample_walk = [(''a'', ''secret'')] \<and> int (length (concat (map snd (fst sample_walk)))) \<le> 50"
proof -
  have "MaxEntryBytes sample_limits < 2 ^ 63 - 1" "temps_ok sample_world" "MaxExpandedBytes (withDefaults sample_limits) = 50"
    by (simp_all add: sample_limits_def withDefaults_def temps_ok_def sample_world_def)
  then show ?thesis
    using WalkContext_bounded [of sample_archive_env "''a.gz''" "[CHR 0x1F, CHR 0x8B]" sample_limits sample_world "fst sample_walk"
        "fst (snd sample_walk)" "snd (snd sample_walk)"] sample_walk by (simp add: sample_walk_def)
qed



text \<open>C30. Temporary files are removed: after a streamed walk with any callback, on every path, errors and cancellation included, the
  temporary files are the ones that existed before, provided that removing a file does not fail.\<close>

theorem WalkStreamContext_tidy:
  assumes "WalkStreamContext env rootName input sz lim visit (w, c) = (err, w', c')"
    and "MaxEntryBytes lim < 2 ^ 63 - 1" "MaxInputBytes lim < 2 ^ 63 - 1" "temps_ok w" "removes_ok env"
  shows "w_temps w' = w_temps w \<and> temps_ok w'"
  using WalkStreamContext_spec [OF assms(1-4)] assms(5) by blast

theorem WalkStreamContext_tidy_witness:
  "w_temps (fst (snd (WalkStreamContext sample_archive_env ''a.gz'' [([CHR 0x1F, CHR 0x8B], None)] 2 sample_limits collect_entry (sample_world, [])))) = []"
proof -
  obtain err w' c' where run: "WalkStreamContext sample_archive_env ''a.gz'' [([CHR 0x1F, CHR 0x8B], None)] 2 sample_limits collect_entry (sample_world, []) = (err, w', c')"
    by (metis prod.exhaust)
  have "MaxEntryBytes sample_limits < 2 ^ 63 - 1" "MaxInputBytes sample_limits < 2 ^ 63 - 1" "temps_ok sample_world" "removes_ok sample_archive_env"
    by (simp_all add: sample_limits_def temps_ok_def sample_world_def removes_ok_def sample_archive_env_def)
  from WalkStreamContext_tidy [OF run this] show ?thesis unfolding run by (simp add: sample_world_def)
qed

end
