(* ===== verification/EngineRun.thy ===== *)
theory EngineRun
  imports EngineStreamCorrect ArchiveCorrect
begin

text \<open>
  A run of the engine (\<^verbatim>\<open>src/pkg/engine/engine.go\<close>, \<^verbatim>\<open>scan_bytes.go\<close>): from the chunks a source delivers to the findings and the
  error that tells what was not covered. A chunk is scanned in memory or from its opened body; an archive is walked and each of its
  entries is scanned like a chunk of its own. The chunks are taken one after the other, as one worker does. \<^const>\<open>None\<close> is a run-time panic.
\<close>

section \<open>The outside world of a run\<close>

text \<open>What a call of the chunk's opener returns: a reader (\<^const>\<open>None\<close> for nil) with what reading it from start to end delivers, a closer
  with the error of closing it, a size and an error.\<close>

record opened =
  op_reader :: "decode_env option"
  op_input :: stream
  op_size :: int
  op_err :: "string option"
  op_close :: "string option option"

text \<open>A source delivers chunks, each with its opener if it has one, and ends with an error or not; a nil chunk is \<^const>\<open>None\<close>.\<close>

record source_run =
  sr_chunks :: "(Chunk \<times> opened option) option list"
  sr_err :: "goerr option"

text \<open>The readers of the entries of an archive, whether the timer of the expansion budget has fired, and the time spent, by a clock
  that counts the visits of a run; whether the gate of the engine was acquired, and the durations that are measured.\<close>

record run_env =
  rn_scan :: scan_env
  rn_detectors :: "nat \<Rightarrow> reader_detector option"
  rn_archive :: archive_env
  rn_entry :: "nat \<Rightarrow> StreamEntry \<Rightarrow> decode_env"
  rn_fired :: "nat \<Rightarrow> bool"
  rn_elapsed :: "nat \<Rightarrow> int"
  rn_quote :: "string \<Rightarrow> string"
  rn_gate :: bool
  rn_duration :: int
  rn_callNanos :: "int \<Rightarrow> int"

record engine_state =
  rs_scan :: scan_state
  rs_world :: world
  rs_visits :: nat

text \<open>The body behind a reader as the scan of a replayable chunk sees it, under the context of the run.\<close>

definition cancelled_at :: "scan_env \<Rightarrow> nat \<Rightarrow> bool" where
  "cancelled_at env t = (case env_cancel env of None \<Rightarrow> False | Some n \<Rightarrow> n \<le> t)"

definition body_env :: "run_env \<Rightarrow> decode_env \<Rightarrow> nat \<Rightarrow> leaf_env" where
  "body_env rn dv sz =
     \<lparr>le_scan = rn_scan rn, le_decode = dv\<lparr>dv_stream := (dv_stream dv)\<lparr>sv_size := sz, sv_cancelled := cancelled_at (rn_scan rn)\<rparr>\<rparr>,
      le_reader = rn_detectors rn\<rparr>"

text \<open>The reader itself; \<^verbatim>\<open>io.EOF\<close> with a full buffer is no error to its callers.\<close>

definition plain_reader :: "stream_env \<Rightarrow> variant_reader" where
  "plain_reader env t off n =
     (let (got, err) = sv_reader env t off n in
      ((got, case err of None \<Rightarrow> None | Some StreamMatch.EOF \<Rightarrow> if length got = n then None else Some VEOF | Some (ReadFailed m) \<Rightarrow> Some (VErr (SRead m))), t + 1))"

definition record_run_failure :: "run_env \<Rightarrow> FailureKind \<Rightarrow> Chunk \<Rightarrow> string \<Rightarrow> engine_state \<Rightarrow> engine_state option" where
  "record_run_failure rn knd c msg rs = do {
     log \<leftarrow> recordFailure (env_classifier (rn_scan rn))
             (ScanFailure knd (archiveFailureSource (env_sha_hex (rn_scan rn)) (Some c)) 0 (Some (ErrLeaf msg))) (ss_log (rs_scan rs));
     Some (rs\<lparr>rs_scan := (rs_scan rs)\<lparr>ss_log := log\<rparr>\<rparr>)
   }"

definition source_failure :: "run_env \<Rightarrow> Chunk \<Rightarrow> string \<Rightarrow> engine_state \<Rightarrow> engine_state option" where
  "source_failure rn c msg rs =
     (let (cancelled, st) = ctx_Err (rn_scan rn) (rs_scan rs); rs1 = rs\<lparr>rs_scan := st\<rparr> in
      if cancelled then Some rs1 else record_run_failure rn FailureSource c msg rs1)"

section \<open>Archives\<close>

definition archiveBufferedLeafThreshold :: int where "archiveBufferedLeafThreshold = 128 * 1024"

definition engine_limits :: Limits where
  "engine_limits = \<lparr>MaxDepth = 3, MaxInputBytes = 0, MaxEntryBytes = 10 * 1024 * 1024, MaxExpandedBytes = 50 * 1024 * 1024, MaxFiles = 1000\<rparr>"

record archive_client =
  ac_scan :: scan_state
  ac_budget :: int
  ac_visits :: nat

definition stream_aerr :: "stream_err \<Rightarrow> aerr" where
  "stream_aerr e = (case e of SCancelled \<Rightarrow> ACtx Canceled | _ \<Rightarrow> AMsg (stream_message e))"

text \<open>The scan of one entry: a small one is read and scanned as a chunk, a large one is scanned through its reader. The reader of an entry
  is always an \<^verbatim>\<open>io.ReaderAt\<close>, so the branch for other readers is never taken.\<close>

definition scan_entry :: "run_env \<Rightarrow> Engine \<Rightarrow> Chunk \<Rightarrow> StreamEntry \<Rightarrow> decode_env \<Rightarrow> scan_state \<Rightarrow> (aerr option \<times> scan_state) option" where
  "scan_entry rn e c entry dv st =
     (let env = body_env rn dv (nat (se_Size entry)) in
      if se_Size entry \<le> archiveBufferedLeafThreshold then
        let ls = \<lparr>lf_scan = st, lf_match = newStreamMatchCache\<lparr>sm_tick := ss_polls st\<rparr>, lf_batch = empty_batch\<rparr>;
            (result, ls1) = readReaderAt env (plain_reader (dv_stream dv)) (nat (se_Size entry)) ls;
            st1 = st\<lparr>ss_polls := sm_tick (lf_match ls1)\<rparr> in
        (case result of
           Inl err \<Rightarrow> Some (Some (stream_aerr err), st1)
         | Inr data \<Rightarrow> map_option (Pair None) (scanChunkLeaf (rn_scan rn) e (c\<lparr>Data := data\<rparr>) (se_Path entry) st1))
      else map_option (Pair None) (scanChunkLeafReader env e (c\<lparr>Data := []\<rparr>) (se_Path entry) st))"

definition visit_entry :: "run_env \<Rightarrow> Engine \<Rightarrow> Chunk \<Rightarrow> StreamEntry \<Rightarrow> archive_client \<Rightarrow> (aerr option \<times> archive_client) option" where
  "visit_entry rn e c entry a =
     (let t = ac_visits a; a1 = a\<lparr>ac_visits := t + 1\<rparr>; budget = ac_budget a - rn_elapsed rn t; a2 = a1\<lparr>ac_budget := budget\<rparr> in
      if se_Size entry < 0 \<or> 2 ^ 63 - 1 < se_Size entry
      then Some (Some (AMsg (''archive entry '' @ rn_quote rn (se_Path entry) @ '' has invalid size '' @ itoa (se_Size entry))), a1)
      else if rn_fired rn t then Some (Some (ACtx DeadlineExceeded), a1)
      else if budget \<le> 0 then Some (Some (ACtx DeadlineExceeded), a2)
      else do {
        (err, st) \<leftarrow> scan_entry rn e c entry (rn_entry rn t entry) (ac_scan a);
        (case err of
           Some er \<Rightarrow> Some (Some er, a2\<lparr>ac_scan := st\<rparr>)
         | None \<Rightarrow>
           (let (cancelled, st1) = ctx_Err (rn_scan rn) st in
            Some (if cancelled then Some (ACtx Canceled) else None, a2\<lparr>ac_scan := st1\<rparr>)))
      })"

text \<open>As the callback of a walk, whose state is lost when the scan of an entry panics.\<close>

definition archive_visitor :: "run_env \<Rightarrow> Engine \<Rightarrow> Chunk \<Rightarrow> StreamEntry \<Rightarrow> archive_client option \<Rightarrow> aerr option \<times> archive_client option" where
  "archive_visitor rn e c entry s =
     (case do { a \<leftarrow> s; visit_entry rn e c entry a } of None \<Rightarrow> (Some (AMsg ''panic''), None) | Some (err, a) \<Rightarrow> (err, Some a))"

type_synonym archive_walk =
  "Limits \<Rightarrow> (StreamEntry \<Rightarrow> archive_client option \<Rightarrow> aerr option \<times> archive_client option) \<Rightarrow> world \<times> archive_client option \<Rightarrow>
   aerr option \<times> world \<times> archive_client option"

definition scanArchiveWith :: "run_env \<Rightarrow> Engine \<Rightarrow> Chunk \<Rightarrow> int \<Rightarrow> archive_walk \<Rightarrow> engine_state \<Rightarrow> engine_state option" where
  "scanArchiveWith rn e c budget walker rs =
     (let (err, w, s) = walker engine_limits (archive_visitor rn e c)
            (rs_world rs, Some \<lparr>ac_scan = rs_scan rs, ac_budget = budget, ac_visits = rs_visits rs\<rparr>) in do {
        a \<leftarrow> s;
        let rs1 = \<lparr>rs_scan = ac_scan a, rs_world = w, rs_visits = ac_visits a\<rparr>;
        (if err = None then Some rs1 else record_run_failure rn FailureArchive c ''archive expansion failed'' rs1)
      })"

text \<open>Five seconds, in nanoseconds.\<close>

definition archive_budget :: int where "archive_budget = 5 * 10 ^ 9"

definition scanArchive :: "run_env \<Rightarrow> Engine \<Rightarrow> Chunk \<Rightarrow> int \<Rightarrow> engine_state \<Rightarrow> engine_state option" where
  "scanArchive rn e c budget =
     scanArchiveWith rn e c budget (\<lambda>limits visit. WalkBytesContext (rn_archive rn) (archiveRootName (Some c)) (Data c) limits visit)"

definition scanArchiveReader :: "run_env \<Rightarrow> Engine \<Rightarrow> Chunk \<Rightarrow> stream \<Rightarrow> int \<Rightarrow> int \<Rightarrow> engine_state \<Rightarrow> engine_state option" where
  "scanArchiveReader rn e c input sz budget =
     scanArchiveWith rn e c budget (\<lambda>limits visit. WalkStreamContext (rn_archive rn) (archiveRootName (Some c)) input sz limits visit)"

section \<open>Chunks\<close>

definition readerLooksLikeArchive :: "stream_env \<Rightarrow> nat \<Rightarrow> nat \<Rightarrow> string + bool" where
  "readerLooksLikeArchive env sz t =
     (if sz = 0 then Inr False
      else
        let n = min sz 512; (prefix, err) = sv_reader env t 0 n in
        (case err of
           Some (ReadFailed m) \<Rightarrow> Inl (''read archive prefix: '' @ m)
         | Some StreamMatch.EOF \<Rightarrow> if length prefix = n then Inr (LooksLikeArchive prefix) else Inl ''read archive prefix: EOF''
         | None \<Rightarrow> if length prefix = n then Inr (LooksLikeArchive prefix) else Inl ''unexpected EOF''))"

text \<open>What is done with an opened body before it is closed.\<close>

definition scan_opened :: "run_env \<Rightarrow> Engine \<Rightarrow> Chunk \<Rightarrow> opened \<Rightarrow> engine_state \<Rightarrow> engine_state option" where
  "scan_opened rn e c o1 rs =
     (case op_err o1 of
        Some m \<Rightarrow> source_failure rn c m rs
      | None \<Rightarrow>
        case op_reader o1 of
          None \<Rightarrow> Some rs
        | Some dv \<Rightarrow>
          if op_size o1 < 0 then source_failure rn c ''source returned a negative body size'' rs
          else
            let sz = nat (op_size o1); st = rs_scan rs; rs1 = rs\<lparr>rs_scan := st\<lparr>ss_polls := ss_polls st + 1\<rparr>\<rparr> in
            case readerLooksLikeArchive (dv_stream dv) sz (ss_polls st) of
              Inl m \<Rightarrow> source_failure rn c m rs1
            | Inr isArchive \<Rightarrow>
              if isArchive then scanArchiveReader rn e c (op_input o1) (op_size o1) archive_budget rs1
              else map_option (\<lambda>st. rs1\<lparr>rs_scan := st\<rparr>) (scanChunkLeafReader (body_env rn dv sz) e c [] (rs_scan rs1)))"

definition scanOpenedChunk :: "run_env \<Rightarrow> Engine \<Rightarrow> Chunk \<Rightarrow> opened \<Rightarrow> engine_state \<Rightarrow> engine_state option" where
  "scanOpenedChunk rn e c o1 rs = do {
     rs1 \<leftarrow> scan_opened rn e c o1 rs;
     (case op_close o1 of Some (Some m) \<Rightarrow> source_failure rn c m rs1 | _ \<Rightarrow> Some rs1)
   }"

definition scanChunk :: "run_env \<Rightarrow> Engine \<Rightarrow> (Chunk \<times> opened option) option \<Rightarrow> engine_state \<Rightarrow> engine_state option" where
  "scanChunk rn e item rs =
     (case item of
        None \<Rightarrow> Some rs
      | Some (c, Some o1) \<Rightarrow> scanOpenedChunk rn e c o1 rs
      | Some (c, None) \<Rightarrow>
        if LooksLikeArchive (Data c) then scanArchive rn e c archive_budget rs
        else map_option (\<lambda>st. rs\<lparr>rs_scan := st\<rparr>) (scanChunkLeaf (rn_scan rn) e c [] (rs_scan rs)))"

section \<open>Runs\<close>

record Stats =
  sts_Chunks :: int
  sts_Bytes :: int
  sts_Findings :: int
  sts_Duration :: int
  sts_cache :: cacheStats
  sts_CallDuration :: int

definition AggregateStats :: "run_env \<Rightarrow> scan_state \<Rightarrow> Stats" where
  "AggregateStats rn st =
     \<lparr>sts_Chunks = ss_chunks st, sts_Bytes = ss_bytes st, sts_Findings = ss_findings st, sts_Duration = 0, sts_cache = ss_stats st,
      sts_CallDuration = rn_callNanos rn (verifiedDetectorCalls (ss_stats st))\<rparr>"

definition cache_stats_minus :: "cacheStats \<Rightarrow> cacheStats \<Rightarrow> cacheStats" where
  "cache_stats_minus a b =
     \<lparr>verificationCacheHits = verificationCacheHits a - verificationCacheHits b,
      verificationCacheMisses = verificationCacheMisses a - verificationCacheMisses b,
      verificationCacheHitsWasted = verificationCacheHitsWasted a - verificationCacheHitsWasted b,
      verificationCacheBypasses = verificationCacheBypasses a - verificationCacheBypasses b,
      verificationCacheEvictions = verificationCacheEvictions a - verificationCacheEvictions b,
      verifiedPassesSaved = verifiedPassesSaved a - verifiedPassesSaved b,
      verifiedDetectorCalls = verifiedDetectorCalls a - verifiedDetectorCalls b\<rparr>"

definition run_stats :: "run_env \<Rightarrow> Stats \<Rightarrow> Stats \<Rightarrow> Stats" where
  "run_stats rn before after =
     \<lparr>sts_Chunks = sts_Chunks after - sts_Chunks before, sts_Bytes = sts_Bytes after - sts_Bytes before,
      sts_Findings = sts_Findings after - sts_Findings before, sts_Duration = rn_duration rn,
      sts_cache = cache_stats_minus (sts_cache after) (sts_cache before),
      sts_CallDuration = sts_CallDuration after - sts_CallDuration before\<rparr>"

definition no_stats :: Stats where
  "no_stats = \<lparr>sts_Chunks = 0, sts_Bytes = 0, sts_Findings = 0, sts_Duration = 0, sts_cache = zero_stats, sts_CallDuration = 0\<rparr>"

definition clear_cache :: "engine_state \<Rightarrow> engine_state" where
  "clear_cache rs = rs\<lparr>rs_scan := (rs_scan rs)\<lparr>ss_cache := cache_clear (ss_cache (rs_scan rs))\<rparr>\<rparr>"

definition the_errors :: "goerr option list \<Rightarrow> goerr list" where
  "the_errors es = List.map_filter id es"

definition RunWithStats :: "run_env \<Rightarrow> Engine \<Rightarrow> source_run \<Rightarrow> engine_state \<Rightarrow> ((Stats \<times> goerr option) \<times> engine_state) option" where
  "RunWithStats rn e src rs =
     (if \<not> rn_gate rn then Some ((no_stats, Some (ErrLeaf ''context canceled'')), rs)
      else do {
        let rs1 = clear_cache rs;
        let before = AggregateStats rn (rs_scan rs1);
        let rs2 = rs1\<lparr>rs_scan := (rs_scan rs1)\<lparr>ss_log := resetFailures (ss_log (rs_scan rs1))\<rparr>\<rparr>;
        rs3 \<leftarrow> foldM (scanChunk rn e) (sr_chunks src) rs2;
        let (degradedErr, log) = takeFailures (ss_log (rs_scan rs3));
        let rs4 = rs3\<lparr>rs_scan := (rs_scan rs3)\<lparr>ss_log := log\<rparr>\<rparr>;
        let after = AggregateStats rn (rs_scan rs4);
        Some ((run_stats rn before after, errors_Join (the_errors [sr_err src, map_option ErrDegraded degradedErr])), clear_cache rs4)
      })"

definition Run :: "run_env \<Rightarrow> Engine \<Rightarrow> source_run \<Rightarrow> engine_state \<Rightarrow> (goerr option \<times> engine_state) option" where
  "Run rn e src rs = map_option (\<lambda>((_, err), rs1). (err, rs1)) (RunWithStats rn e src rs)"

section \<open>Scanning a buffer\<close>

text \<open>The state of a new engine.\<close>

definition new_run_state :: "world \<Rightarrow> engine_state" where
  "new_run_state w =
     \<lparr>rs_scan = \<lparr>ss_cache = newVerificationCache defaultVerificationCacheCapacity, ss_stats = zero_stats, ss_chunks = 0, ss_bytes = 0,
        ss_findings = 0, ss_log = new_failure_log, ss_polls = 0, ss_emitted = []\<rparr>, rs_world = w, rs_visits = 0\<rparr>"

text \<open>The select between handing over the chunk and the end of the context; \<open>sent\<close> is the branch that was taken.\<close>

definition bytesSource_Chunks :: "bool \<Rightarrow> Chunk \<Rightarrow> source_run" where
  "bytesSource_Chunks sent c =
     (if sent then \<lparr>sr_chunks = [Some (c, None)], sr_err = None\<rparr> else \<lparr>sr_chunks = [], sr_err = Some (ErrLeaf ''context canceled'')\<rparr>)"

definition bytes_chunk :: "bytes \<Rightarrow> Chunk" where
  "bytes_chunk data = \<lparr>SourceID = 0, SourceType = SourceUnknown, SourceName = ''scan-bytes'', Data = data, SourceMetadata = no_metadata\<rparr>"

text \<open>The collecting sink keeps the result of every finding it gets.\<close>

definition ScanBytesWithDetectors ::
  "(rune \<Rightarrow> rune) \<Rightarrow> run_env \<Rightarrow> bool \<Rightarrow> world \<Rightarrow> Det list \<Rightarrow> bytes \<Rightarrow> verify_opts \<Rightarrow> int \<Rightarrow> (Result list \<times> goerr option) option" where
  "ScanBytesWithDetectors ul rn sent w dets data opts concurrency = do {
     e \<leftarrow> NewWithDetectors ul dets (opts\<lparr>NoVerify := True\<rparr>) concurrency;
     ((_, err), rs) \<leftarrow> RunWithStats rn e (bytesSource_Chunks sent (bytes_chunk data)) (new_run_state w);
     Some (map Result_of (ss_emitted (rs_scan rs)), err)
   }"

end
