(* ===== verification/EngineRunCorrect.thy ===== *)
theory EngineRunCorrect
  imports EngineRun
begin

text \<open>
  A run accounts for everything: a credential in any leaf of any chunk is handed to the sink, or the run ends with an error. The proof composes
  the guarantees of the parts: the scan of a chunk in memory and of a replayable one, and the coverage of archive walks.
\<close>
section \<open>The scan of a leaf\<close>

text \<open>A recorded failure is never forgotten during a scan.\<close>

definition remembers :: "Engine \<Rightarrow> scan_state \<Rightarrow> scan_state \<Rightarrow> bool" where
  "remembers e st st' \<longleftrightarrow> failureTotal (ss_log st) \<le> failureTotal (ss_log st')"

lemma recordFailure_counts: "recordFailure cl f log = Some log' \<Longrightarrow> failureTotal log' = failureTotal log + 1"
  by (auto simp: recordFailure_def Let_def split: option.splits)

lemma emits_keep_log: "foldM (emitDetectorResult e c source archivePath di) rs st = Some st' \<Longrightarrow> ss_log st' = ss_log st"
proof (induction rs arbitrary: st)
  case (Cons r rs)
  then obtain st1 where "emitDetectorResult e c source archivePath di r st = Some st1" "foldM (emitDetectorResult e c source archivePath di) rs st1 = Some st'"
    by (auto split: option.splits)
  moreover from this(1) have "ss_log st1 = ss_log st" by (auto simp: emitDetectorResult_def Let_def bind_eq_Some_conv)
  ultimately show ?case using Cons.IH by simp
qed simp

lemma run_remembers:
  assumes "runDetectorOn env e c source archivePath di data st = Some st'"
  shows "remembers e st st'"
proof -
  obtain slot results err cache stats where call: "slot_of e di = Some slot"
    "fromData (env_sha env) (eng_opts e) slot data (ss_cache st) (ss_cache st) None (ss_stats st) = Some ((results, err), cache, stats)"
    using assms by (auto simp: runDetectorOn_def bind_eq_Some_conv)
  let ?st1 = "st\<lparr>ss_cache := cache, ss_stats := stats\<rparr>"
  show ?thesis
  proof (cases err)
    case None
    then have "foldM (emitDetectorResult e c source archivePath di) results ?st1 = Some st'"
      using assms call by (simp add: runDetectorOn_def)
    from emits_keep_log [OF this] show ?thesis by (simp add: remembers_def)
  next
    case (Some msg)
    obtain cancelled st2 where poll: "ctx_Err env ?st1 = (cancelled, st2)" by fastforce
    then have log: "ss_log st2 = ss_log st" by (auto simp: ctx_Err_def)
    show ?thesis
    proof (cases cancelled)
      case True
      then show ?thesis using assms call Some poll log by (simp add: runDetectorOn_def remembers_def)
    next
      case False
      then show ?thesis using assms call Some poll log
        by (auto simp: runDetectorOn_def remembers_def bind_eq_Some_conv dest: recordFailure_counts)
    qed
  qed
qed

interpretation remembering: scan_relation remembers
proof
  show "total_step (remembers e) (runDetectorOn env e c source archivePath di data)"
    if "engine_ok ul e" "di < length (eng_dets e)" for ul e di env c source archivePath data
    unfolding total_step_def using detector_run [OF that] run_remembers by metis
qed (auto simp: remembers_def ctx_Err_def)

text \<open>Detectors that never fail leave no failure behind.\<close>

definition faultless :: "Det \<Rightarrow> bool" where
  "faultless d \<longleftrightarrow> (\<forall>w turn. snd (det_unverified d w) = None \<and> snd (det_verified d turn w) = None)"

definition spares :: "Engine \<Rightarrow> scan_state \<Rightarrow> scan_state \<Rightarrow> bool" where
  "spares e st st' \<longleftrightarrow> ((\<forall>d \<in> set (eng_dets e). faultless d) \<longrightarrow> failureTotal (ss_log st') = failureTotal (ss_log st))"

lemma flight_faultless:
  assumes "lead_flight sha d data keys us c st = Some (Some o1, c', st')" "\<forall>turn. snd (ds_verified d turn data) = None"
  shows "snd o1 = None"
  using assms
  by (auto simp: lead_flight_def callVerifiedDetector_def Let_def bind_eq_Some_conv split: prod.splits option.splits if_splits)

lemma fromData_faultless:
  assumes "snd (ds_unverified d data) = None" "\<forall>turn. snd (ds_verified d turn data) = None"
    and "fromData sha opts d data c c1 None st = Some (out, c', st')"
  shows "snd out = None"
proof (cases "wants_verify opts d \<and> ds_isVerifier d \<and> ds_cacheable d")
  case False
  then show ?thesis using assms by (auto simp: fromData_def callVerifiedDetector_def detector_FromData_def Let_def split: if_splits)
next
  case True
  obtain us where u: "ds_unverified d data = (us, None)" using assms(1) by (cases "ds_unverified d data") auto
  let ?keys = "candidateVerificationKeys sha (ds_index d) (ds_Type d) (input_digest sha d data) us"
  show ?thesis
  proof (cases ?keys)
    case None
    then show ?thesis using True u assms(2,3) by (auto simp: fromData_def callVerifiedDetector_def Let_def)
  next
    case (Some keys)
    show ?thesis
    proof (cases "applyCachedVerification c keys us True st")
      case (Pair res st1)
      show ?thesis
      proof (cases res)
        case hit: (Some rs)
        then show ?thesis using True u Some Pair assms(3) by (auto simp: fromData_def Let_def)
      next
        case None
        then obtain led c2 st2 where flight: "lead_flight sha d data keys us c1 st1 = Some (led, c2, st2)"
          using True u Some Pair assms(3) by (auto simp: fromData_def Let_def bind_eq_Some_conv)
        obtain res2 st3 where "applyCachedVerification c2 keys us True st2 = (res2, st3)" by fastforce
        then show ?thesis
          using True u Some Pair None flight assms(2,3) flight_faultless [of sha d data keys us c1 st1 _ c2 st2]
          by (cases led; cases res2) (auto simp: fromData_def callVerifiedDetector_def Let_def)
      qed
    qed
  qed
qed

lemma run_spares:
  assumes "engine_ok ul e" "di < length (eng_dets e)" "runDetectorOn env e c source archivePath di data st = Some st'"
  shows "spares e st st'"
  unfolding spares_def
proof
  assume ok: "\<forall>d \<in> set (eng_dets e). faultless d"
  obtain slot results err cache stats where call: "slot_of e di = Some slot"
    "fromData (env_sha env) (eng_opts e) slot data (ss_cache st) (ss_cache st) None (ss_stats st) = Some ((results, err), cache, stats)"
    using assms(3) by (auto simp: runDetectorOn_def bind_eq_Some_conv)
  have "faultless (eng_dets e ! di)" using ok assms(2) by simp
  moreover have "ds_unverified slot = det_unverified (eng_dets e ! di)" "ds_verified slot = det_verified (eng_dets e ! di)"
    using slot_of_ok [OF assms(1,2)] call(1) by auto
  ultimately have "err = None" using fromData_faultless [OF _ _ call(2)] by (simp add: faultless_def)
  then have "foldM (emitDetectorResult e c source archivePath di) results (st\<lparr>ss_cache := cache, ss_stats := stats\<rparr>) = Some st'"
    using assms(3) call by (simp add: runDetectorOn_def)
  from emits_keep_log [OF this] show "failureTotal (ss_log st') = failureTotal (ss_log st)" by simp
qed

interpretation sparing: scan_relation spares
proof
  show "total_step (spares e) (runDetectorOn env e c source archivePath di data)"
    if "engine_ok ul e" "di < length (eng_dets e)" for ul e di env c source archivePath data
    unfolding total_step_def using detector_run [OF that] run_spares [OF that] by metis
qed (auto simp: spares_def ctx_Err_def)

text \<open>What the steps of a run do to the state of the scan.\<close>

definition grows :: "Engine \<Rightarrow> scan_state \<Rightarrow> scan_state \<Rightarrow> bool" where
  "grows e st st' \<longleftrightarrow> (\<exists>fs. ss_emitted st' = ss_emitted st @ fs \<and> (\<forall>f \<in> set fs. scan_finding e f)) \<and> remembers e st st' \<and> offline e st st'"

lemma grows_refl: "grows e st st"
  by (simp add: grows_def remembering.refl offline.refl)

lemma grows_trans: "grows e st st' \<Longrightarrow> grows e st' st'' \<Longrightarrow> grows e st st''"
  unfolding grows_def using remembering.trans offline.trans by (fastforce)

lemma grows_polls: "grows e st (st\<lparr>ss_polls := n\<rparr>)"
  by (simp add: grows_def remembers_def offline_def)

lemma grows_poll: "grows e st (snd (ctx_Err env st))"
  by (simp add: ctx_Err_def grows_polls)

lemma emits_grows: "emits P st \<Longrightarrow> grows e st st' \<Longrightarrow> emits P st'"
  by (auto simp: emits_def grows_def)


text \<open>\<open>P\<close> holds of the findings of a credential that is in one of the variants of the body, for one of the detectors.\<close>

definition reveals :: "(rune \<Rightarrow> rune) \<Rightarrow> run_env \<Rightarrow> Engine \<Rightarrow> (Finding \<Rightarrow> bool) \<Rightarrow> string \<Rightarrow> bytes \<Rightarrow> bool" where
  "reveals ul rn e P ap body \<longleftrightarrow> eng_prefilter e \<noteq> None \<and>
     (\<exists>di s vs v before after. di < length (eng_dets e) \<and> finds (eng_dets e ! di) s \<and> reachable_by ul (eng_dets e ! di) s \<and>
        Variants (env_junk (rn_scan rn)) body = Some vs \<and> v \<in> set vs \<and> var_Data v = before @ s @ after \<and> P = found e (var_Source v) ap di s)"

lemma leaf_total:
  assumes "engine_ok ul e" "env_cancel (rn_scan rn) = None" "scan_ok st"
  shows "\<exists>st'. scanChunkLeaf (rn_scan rn) e c ap st = Some st' \<and> scan_ok st' \<and> grows e st st' \<and> spares e st st' \<and>
    (\<forall>P. reveals ul rn e P ap (Data c) \<longrightarrow> emits P st')"
proof -
  let ?st = "st\<lparr>ss_chunks := ss_chunks st + 1, ss_bytes := ss_bytes st + int (length (Data c))\<rparr>"
  obtain st' where st': "scanChunkLeaf (rn_scan rn) e c ap st = Some st'" "scan_ok st'" "adds e ?st st'"
    using adding.leaf_step [OF assms(1,3)] by blast
  have "offline e ?st st'" "remembers e ?st st'" "spares e ?st st'"
    using offline.leaf_step [OF assms(1,3), of "rn_scan rn" c ap] remembering.leaf_step [OF assms(1,3), of "rn_scan rn" c ap]
      sparing.leaf_step [OF assms(1,3), of "rn_scan rn" c ap] st'(1) by auto
  then have "grows e st st'" "spares e st st'" using st'(3) by (auto simp: grows_def adds_def offline_def remembers_def spares_def)
  moreover have "emits P st'" if "reveals ul rn e P ap (Data c)" for P
    using that st'(1) leaf_reaches [OF assms(1,2) _ _ _ _ _ _ _ assms(3), where c = c and archivePath = ap]
    unfolding reveals_def by fastforce
  ultimately show ?thesis using st'(1,2) by blast
qed

text \<open>A body whose reads are complete and whose variants can be spooled.\<close>

definition body_ok :: "run_env \<Rightarrow> decode_env \<Rightarrow> bytes \<Rightarrow> bool" where
  "body_ok rn dv data \<longleftrightarrow> decode_reliable (le_decode (body_env rn dv (length data))) data \<and> length data < 2 ^ 48"

definition detectors_agree :: "run_env \<Rightarrow> Engine \<Rightarrow> bool" where
  "detectors_agree rn e \<longleftrightarrow> (\<forall>dv n. readers_agree (body_env rn dv n) e)"

lemma streamed_found: "streamed data f g \<Longrightarrow> found e source ap di s g = found e source ap di s f"
  by (simp add: streamed_def found_def published_def)

lemma streamed_finding: "streamed data f g \<Longrightarrow> scan_finding e g = scan_finding e f"
  by (simp add: streamed_def scan_finding_def published_def)

lemma reader_total:
  assumes "NewWithDetectors ul dets opts cc = Some e" "env_cancel (rn_scan rn) = None" "scan_ok st"
    and "body_ok rn dv data" "plain_source c" "detectors_agree rn e"
  shows "\<exists>st'. scanChunkLeafReader (body_env rn dv (length data)) e c ap st = Some st' \<and> scan_ok st' \<and> grows e st st' \<and> spares e st st' \<and>
    (\<forall>P. reveals ul rn e P ap data \<longrightarrow> emits P st')"
proof -
  let ?env = "body_env rn dv (length data)"
  have e: "engine_ok ul e" using engine_ok_new [OF assms(1)] by blast
  have env: "le_scan ?env = rn_scan rn" by (simp add: body_env_def)
  obtain st1 st2 fs gs where sim: "scanChunkLeaf (rn_scan rn) e (c\<lparr>Data := data\<rparr>) ap st = Some st1"
    "scanChunkLeafReader ?env e c ap st = Some st2" "ss_emitted st1 = ss_emitted st @ fs" "ss_emitted st2 = ss_emitted st @ gs"
    "list_all2 (streamed data) fs gs" "accounts st2 = accounts st1"
    using leaf_reader_sim [OF assms(1), of ?env data c st ap] assms(2-6) env by (auto simp: body_ok_def detectors_agree_def)
  obtain st1' where leaf: "scanChunkLeaf (rn_scan rn) e (c\<lparr>Data := data\<rparr>) ap st = Some st1'" "scan_ok st1'" "grows e st st1'"
    "\<forall>P. reveals ul rn e P ap data \<longrightarrow> emits P st1'" "spares e st st1'"
    using leaf_total [OF e assms(2,3), of "c\<lparr>Data := data\<rparr>" ap] by auto
  have st1': "st1' = st1" using leaf(1) sim(1) by simp
  have mem: "\<exists>f \<in> set fs. streamed data f g" if "g \<in> set gs" for g
    using sim(5) that by (metis in_set_conv_nth list_all2_conv_all_nth)
  have mem': "\<exists>g \<in> set gs. streamed data f g" if "f \<in> set fs" for f
    using sim(5) that by (metis in_set_conv_nth list_all2_conv_all_nth)
  have acc: "ss_log st2 = ss_log st1" "ss_cache st2 = ss_cache st1" "ss_stats st2 = ss_stats st1" using sim(6) by (simp_all add: accounts_eq)
  have "\<forall>f \<in> set fs. scan_finding e f" using leaf(3) sim(3) by (auto simp: st1' grows_def)
  then have "\<forall>g \<in> set gs. scan_finding e g" using mem streamed_finding by blast
  then have "grows e st st2" using leaf(3) sim(4) acc by (auto simp: st1' grows_def remembers_def offline_def)
  moreover have "scan_ok st2" "spares e st st2" using leaf(2,5) acc by (simp_all add: st1' scan_ok_def spares_def)
  moreover have "emits P st2" if P: "reveals ul rn e P ap data" for P
  proof -
    obtain f where f: "f \<in> set (ss_emitted st) \<or> f \<in> set fs" "P f" using leaf(4) P sim(3) by (auto simp: st1' emits_def)
    obtain source di s where "P = found e source ap di s" using P unfolding reveals_def by blast
    then show ?thesis using f mem' streamed_found sim(4) by (auto simp: emits_def) blast
  qed
  ultimately show ?thesis using sim(2) by blast
qed

section \<open>The scan of an archive\<close>

lemma body_reads:
  assumes "body_ok rn dv data" "off + n \<le> length data"
  obtains err where "sv_reader (dv_stream dv) t off n = (slice off (off + n) data, err)" "err = None \<or> err = Some StreamMatch.EOF"
    "length (slice off (off + n) data) = n"
proof -
  obtain got err where r: "sv_reader (dv_stream dv) t off n = (got, err)" by fastforce
  let ?env = "le_stream (body_env rn dv (length data))"
  have "truthful ?env data" "reliable ?env data" using assms(1) by (simp_all add: body_ok_def decode_reliable_def)
  moreover have "sv_reader ?env = sv_reader (dv_stream dv)" by (simp add: body_env_def)
  ultimately have "length got = n \<and> err \<in> {None, Some StreamMatch.EOF}" "got = slice off (off + n) data"
    using r assms(2) unfolding truthful_def reliable_def by metis+
  then show ?thesis using r that by auto
qed

lemma plain_serves:
  assumes "body_ok rn dv data"
  shows "serves (plain_reader (dv_stream dv)) data"
  unfolding serves_def
proof (intro allI impI)
  fix t off n assume n: "off + n \<le> length data"
  obtain err where "sv_reader (dv_stream dv) t off n = (slice off (off + n) data, err)" "err = None \<or> err = Some StreamMatch.EOF"
    "length (slice off (off + n) data) = n" by (rule body_reads [OF assms n])
  then show "\<exists>t1. plain_reader (dv_stream dv) t off n = ((slice off (off + n) data, None), t1)"
    by (auto simp: plain_reader_def)
qed

text \<open>The bodies of the entries of an archive can be read.\<close>

definition entries_ok :: "run_env \<Rightarrow> bool" where
  "entries_ok rn \<longleftrightarrow> (\<forall>t entry. se_Size entry = int (length (se_bytes entry)) \<and> se_Size entry \<le> MaxEntryBytes engine_limits \<longrightarrow>
     body_ok rn (rn_entry rn t entry) (se_bytes entry))"

lemma not_cancelled: "env_cancel (rn_scan rn) = None \<Longrightarrow> ctx_Err (rn_scan rn) st = (False, st\<lparr>ss_polls := Suc (ss_polls st)\<rparr>)"
  by (simp add: ctx_Err_def)

lemma read_entry:
  assumes "body_ok rn dv data" "env_cancel (rn_scan rn) = None"
  shows "\<exists>ls1. readReaderAt (body_env rn dv (length data)) (plain_reader (dv_stream dv)) (length data) ls = (Inr data, ls1)"
proof -
  let ?ls = "ls\<lparr>lf_match := (lf_match ls)\<lparr>sm_tick := sm_tick (lf_match ls) + 1\<rparr>\<rparr>"
  have poll: "lf_poll (body_env rn dv (length data)) ls = (False, ?ls)"
    using assms(2) by (simp add: lf_poll_def Let_def body_env_def cancelled_at_def)
  have small: "length data < 2 ^ 63" using assms(1) by (simp add: body_ok_def)
  obtain t1 where "plain_reader (dv_stream dv) (sm_tick (lf_match ?ls)) 0 (length data) = ((data, None), t1)"
    using plain_serves [OF assms(1)] unfolding serves_def by (metis add_0 order_refl slice_def drop0 diff_zero take_all)
  then show ?thesis using poll small by (auto simp: readReaderAt_def lf_read_def)
qed

definition run_setting :: "(rune \<Rightarrow> rune) \<Rightarrow> run_env \<Rightarrow> Engine \<Rightarrow> bool" where
  "run_setting ul rn e \<longleftrightarrow> (\<exists>dets opts cc. NewWithDetectors ul dets opts cc = Some e) \<and> env_cancel (rn_scan rn) = None \<and>
     detectors_agree rn e \<and> entries_ok rn"

lemma setting_engine: "run_setting ul rn e \<Longrightarrow> engine_ok ul e"
  using engine_ok_new by (auto simp: run_setting_def)

lemma scan_entry_total:
  assumes "run_setting ul rn e" "scan_ok st" "plain_source c" "body_ok rn dv (se_bytes entry)" "se_Size entry = int (length (se_bytes entry))"
  shows "\<exists>st'. scan_entry rn e c entry dv st = Some (None, st') \<and> scan_ok st' \<and> grows e st st' \<and>
    (\<forall>P. reveals ul rn e P (se_Path entry) (se_bytes entry) \<longrightarrow> emits P st')"
proof (cases "se_Size entry \<le> archiveBufferedLeafThreshold")
  case True
  have alive: "env_cancel (rn_scan rn) = None" using assms(1) by (simp add: run_setting_def)
  let ?ls = "\<lparr>lf_scan = st, lf_match = newStreamMatchCache\<lparr>sm_tick := ss_polls st\<rparr>, lf_batch = empty_batch\<rparr>"
  obtain ls1 where r: "readReaderAt (body_env rn dv (length (se_bytes entry))) (plain_reader (dv_stream dv)) (length (se_bytes entry)) ?ls = (Inr (se_bytes entry), ls1)"
    using read_entry [OF assms(4) alive] by blast
  let ?st1 = "st\<lparr>ss_polls := sm_tick (lf_match ls1)\<rparr>"
  have ok: "scan_ok ?st1" using assms(2) by (simp add: scan_ok_def)
  obtain st' where "scanChunkLeaf (rn_scan rn) e (c\<lparr>Data := se_bytes entry\<rparr>) (se_Path entry) ?st1 = Some st'" "scan_ok st'" "grows e ?st1 st'"
    "\<forall>P. reveals ul rn e P (se_Path entry) (se_bytes entry) \<longrightarrow> emits P st'"
    using leaf_total [OF setting_engine [OF assms(1)] alive ok, of "c\<lparr>Data := se_bytes entry\<rparr>" "se_Path entry"] by auto
  moreover from this(3) have "grows e st st'" by (rule grows_trans [OF grows_polls])
  ultimately show ?thesis using True r assms(5) by (auto simp: scan_entry_def Let_def)
next
  case False
  obtain dets opts cc where new: "NewWithDetectors ul dets opts cc = Some e" using assms(1) by (auto simp: run_setting_def)
  have "plain_source (c\<lparr>Data := []\<rparr>)" using assms(3) by (simp add: plain_source_def)
  from reader_total [OF new _ assms(2,4) this, of "se_Path entry"] show ?thesis
    using False assms(1,5) by (auto simp: scan_entry_def Let_def run_setting_def)
qed

lemma visit_total:
  assumes "run_setting ul rn e" "scan_ok (ac_scan a)" "plain_source c"
    and "se_Size entry = int (length (se_bytes entry))" "se_Size entry \<le> MaxEntryBytes engine_limits"
  shows "\<exists>err a'. visit_entry rn e c entry a = Some (err, a') \<and> scan_ok (ac_scan a') \<and> grows e (ac_scan a) (ac_scan a') \<and>
    (\<forall>P. err = None \<and> reveals ul rn e P (se_Path entry) (se_bytes entry) \<longrightarrow> emits P (ac_scan a'))"
proof -
  let ?t = "ac_visits a"
  have size: "\<not> (se_Size entry < 0 \<or> 2 ^ 63 - 1 < se_Size entry)" using assms(4,5) by (simp add: engine_limits_def)
  show ?thesis
  proof (cases "rn_fired rn ?t \<or> ac_budget a - rn_elapsed rn ?t \<le> 0")
    case True
    then show ?thesis using size assms(2) grows_refl by (auto simp: visit_entry_def Let_def)
  next
    case False
    have alive: "env_cancel (rn_scan rn) = None" using assms(1) by (simp add: run_setting_def)
    have "body_ok rn (rn_entry rn ?t entry) (se_bytes entry)" using assms(1,4,5) by (simp add: run_setting_def entries_ok_def)
    from scan_entry_total [OF assms(1-3) this assms(4)] obtain st' where
      st': "scan_entry rn e c entry (rn_entry rn ?t entry) (ac_scan a) = Some (None, st')" "scan_ok st'" "grows e (ac_scan a) st'"
      "\<forall>P. reveals ul rn e P (se_Path entry) (se_bytes entry) \<longrightarrow> emits P st'" by blast
    let ?st2 = "st'\<lparr>ss_polls := Suc (ss_polls st')\<rparr>"
    have "scan_ok ?st2" "grows e (ac_scan a) ?st2" using st'(2) grows_trans [OF st'(3) grows_polls] by (simp_all add: scan_ok_def)
    moreover have "\<forall>P. emits P ?st2 = emits P st'" by (simp add: emits_def)
    ultimately show ?thesis using size False st'(1,4) not_cancelled [OF alive] by (auto simp: visit_entry_def Let_def)
  qed
qed

lemma visits_total:
  assumes "run_setting ul rn e" "plain_source c" "scan_ok (ac_scan a)"
    and "\<forall>x \<in> set es. se_Size x = int (length (se_bytes x)) \<and> se_Size x \<le> MaxEntryBytes engine_limits"
  shows "\<exists>err a'. visit_all (archive_visitor rn e c) es (Some a) = (err, Some a') \<and> scan_ok (ac_scan a') \<and> grows e (ac_scan a) (ac_scan a') \<and>
    (\<forall>(ap, body) \<in> set (map entry_key es). \<forall>P. err = None \<and> reveals ul rn e P ap body \<longrightarrow> emits P (ac_scan a'))"
  using assms(3,4)
proof (induction es arbitrary: a)
  case Nil
  then show ?case using grows_refl by auto
next
  case (Cons x es)
  obtain err1 a1 where one: "visit_entry rn e c x a = Some (err1, a1)" "scan_ok (ac_scan a1)" "grows e (ac_scan a) (ac_scan a1)"
    "\<forall>P. err1 = None \<and> reveals ul rn e P (se_Path x) (se_bytes x) \<longrightarrow> emits P (ac_scan a1)"
    using visit_total [OF assms(1) Cons.prems(1) assms(2), of x] Cons.prems(2) by auto
  have visit: "archive_visitor rn e c x (Some a) = (err1, Some a1)" using one(1) by (simp add: archive_visitor_def)
  show ?case
  proof (cases err1)
    case (Some er)
    then show ?thesis using visit one(2,3) by (intro exI [of _ err1] exI [of _ a1]) auto
  next
    case None
    have tail: "\<forall>x \<in> set es. se_Size x = int (length (se_bytes x)) \<and> se_Size x \<le> MaxEntryBytes engine_limits" using Cons.prems(2) by (meson list.set_intros(2))
    obtain err a' where rest: "visit_all (archive_visitor rn e c) es (Some a1) = (err, Some a')" "scan_ok (ac_scan a')" "grows e (ac_scan a1) (ac_scan a')"
      "\<forall>(ap, body) \<in> set (map entry_key es). \<forall>P. err = None \<and> reveals ul rn e P ap body \<longrightarrow> emits P (ac_scan a')"
      using Cons.IH [OF one(2) tail] by blast
    have "emits P (ac_scan a')" if "reveals ul rn e P (se_Path x) (se_bytes x)" for P
      using one(4) None that emits_grows [OF _ rest(3)] by blast
    then show ?thesis using visit None rest grows_trans [OF one(3) rest(3)]
      by (intro exI [of _ err] exI [of _ a']) (auto simp: entry_key_def)
  qed
qed

text \<open>What a step of a run does: it may not forget a failure, and what the bodies it is responsible for hold is found, or a failure is recorded.\<close>

definition attends :: "(rune \<Rightarrow> rune) \<Rightarrow> run_env \<Rightarrow> Engine \<Rightarrow> (string \<times> bytes) list \<Rightarrow> engine_state \<Rightarrow> engine_state \<Rightarrow> bool" where
  "attends ul rn e L rs rs' \<longleftrightarrow> scan_ok (rs_scan rs') \<and> temps_ok (rs_world rs') \<and>
     (removes_ok (rn_archive rn) \<longrightarrow> w_temps (rs_world rs') = w_temps (rs_world rs)) \<and> grows e (rs_scan rs) (rs_scan rs') \<and>
     (\<forall>(ap, body) \<in> set L. \<forall>P. reveals ul rn e P ap body \<longrightarrow>
        emits P (rs_scan rs') \<or> failureTotal (ss_log (rs_scan rs)) < failureTotal (ss_log (rs_scan rs')))"

definition run_ok :: "engine_state \<Rightarrow> bool" where
  "run_ok rs \<longleftrightarrow> scan_ok (rs_scan rs) \<and> temps_ok (rs_world rs)"

lemma record_run_total:
  assumes "scan_ok (rs_scan rs)"
  shows "\<exists>rs'. record_run_failure rn knd c msg rs = Some rs' \<and> scan_ok (rs_scan rs') \<and> rs_world rs' = rs_world rs \<and>
    grows e (rs_scan rs) (rs_scan rs') \<and> failureTotal (ss_log (rs_scan rs)) < failureTotal (ss_log (rs_scan rs'))"
proof -
  obtain log where log: "recordFailure (env_classifier (rn_scan rn)) (ScanFailure knd (archiveFailureSource (env_sha_hex (rn_scan rn)) (Some c)) 0
      (Some (ErrLeaf msg))) (ss_log (rs_scan rs)) = Some log" "failureCounts log \<noteq> None"
    using recordFailure_total assms by (metis scan_ok_def)
  then show ?thesis using assms recordFailure_counts [OF log(1)]
    by (auto simp: record_run_failure_def scan_ok_def grows_def remembers_def offline_def)
qed

lemma source_failure_total:
  assumes "run_ok rs" "env_cancel (rn_scan rn) = None"
  shows "\<exists>rs'. source_failure rn c msg rs = Some rs' \<and> attends ul rn e L rs rs'"
proof -
  let ?rs = "rs\<lparr>rs_scan := (rs_scan rs)\<lparr>ss_polls := Suc (ss_polls (rs_scan rs))\<rparr>\<rparr>"
  have "scan_ok (rs_scan ?rs)" using assms(1) by (simp add: run_ok_def scan_ok_def)
  from record_run_total [OF this, of rn FailureSource c msg e] obtain rs' where
    rs': "record_run_failure rn FailureSource c msg ?rs = Some rs'" "scan_ok (rs_scan rs')" "rs_world rs' = rs_world rs"
    "grows e (rs_scan ?rs) (rs_scan rs')" "failureTotal (ss_log (rs_scan rs)) < failureTotal (ss_log (rs_scan rs'))" by auto
  have "grows e (rs_scan rs) (rs_scan rs')" using grows_trans [OF grows_polls] rs'(4) by simp
  then show ?thesis using rs' assms(1) not_cancelled [OF assms(2)] by (auto simp: source_failure_def attends_def run_ok_def)
qed

lemma scanArchiveWith_total:
  assumes "run_setting ul rn e" "run_ok rs" "plain_source c"
    and walks: "\<And>err w' s. walker engine_limits (archive_visitor rn e c) (rs_world rs, Some a) = (err, w', s) \<Longrightarrow>
      temps_ok w' \<and> (removes_ok (rn_archive rn) \<longrightarrow> w_temps w' = w_temps (rs_world rs)) \<and>
      delivers (new_walker (rn_archive rn) engine_limits (archive_visitor rn e c)) L (Some a) err s"
    and a: "a = \<lparr>ac_scan = rs_scan rs, ac_budget = budget, ac_visits = rs_visits rs\<rparr>"
  shows "\<exists>rs'. scanArchiveWith rn e c budget walker rs = Some rs' \<and> attends ul rn e L rs rs'"
proof -
  let ?wk = "new_walker (rn_archive rn) engine_limits (archive_visitor rn e c)"
  obtain err w' s where w: "walker engine_limits (archive_visitor rn e c) (rs_world rs, Some a) = (err, w', s)" by (metis prod.exhaust)
  note walk = walks [OF w]
  have wk: "wk_visit ?wk = archive_visitor rn e c" "wk_limits ?wk = withDefaults engine_limits" by (simp_all add: new_walker_def)
  have entry: "MaxEntryBytes (withDefaults engine_limits) = MaxEntryBytes engine_limits" by (simp add: withDefaults_def engine_limits_def)
  obtain es where es: "snd (visit_all (archive_visitor rn e c) es (Some a)) = s"
    "fst (visit_all (archive_visitor rn e c) es (Some a)) \<noteq> None \<longrightarrow> err \<noteq> None" "\<forall>x \<in> set es. entry_ok ?wk x"
    "err = None \<longrightarrow> map entry_key es = L" using walk unfolding delivers_def wk by blast
  have sizes: "\<forall>x \<in> set es. se_Size x = int (length (se_bytes x)) \<and> se_Size x \<le> MaxEntryBytes engine_limits"
    using es(3) unfolding entry_ok_def wk entry .
  have scan: "scan_ok (ac_scan a)" using assms(2) a by (simp add: run_ok_def)
  obtain verr a' where v: "visit_all (archive_visitor rn e c) es (Some a) = (verr, Some a')" "scan_ok (ac_scan a')" "grows e (ac_scan a) (ac_scan a')"
    "\<forall>(ap, body) \<in> set (map entry_key es). \<forall>P. verr = None \<and> reveals ul rn e P ap body \<longrightarrow> emits P (ac_scan a')"
    using visits_total [OF assms(1,3) scan sizes] by blast
  have s: "s = Some a'" using es(1) v(1) by simp
  let ?rs = "\<lparr>rs_scan = ac_scan a', rs_world = w', rs_visits = ac_visits a'\<rparr>"
  have run: "scanArchiveWith rn e c budget walker rs =
      (if err = None then Some ?rs else record_run_failure rn FailureArchive c ''archive expansion failed'' ?rs)"
    using w s a by (simp add: scanArchiveWith_def Let_def)
  have grown: "grows e (rs_scan rs) (rs_scan ?rs)" using v(3) a by simp
  show ?thesis
  proof (cases "err = None")
    case True
    then have "verr = None" "map entry_key es = L" using es(2,4) v(1) by auto
    then show ?thesis using run True v(2,4) walk grown by (fastforce simp: attends_def)
  next
    case False
    obtain rs' where rs': "record_run_failure rn FailureArchive c ''archive expansion failed'' ?rs = Some rs'" "scan_ok (rs_scan rs')"
      "rs_world rs' = w'" "grows e (rs_scan ?rs) (rs_scan rs')" "failureTotal (ss_log (rs_scan ?rs)) < failureTotal (ss_log (rs_scan rs'))"
      using record_run_total [of ?rs rn FailureArchive c "''archive expansion failed''" e] v(2) by auto
    have "failureTotal (ss_log (rs_scan rs)) \<le> failureTotal (ss_log (rs_scan ?rs))" using grown unfolding grows_def remembers_def by blast
    then have "failureTotal (ss_log (rs_scan rs)) < failureTotal (ss_log (rs_scan rs'))" using rs'(5) by linarith
    then show ?thesis using run False rs'(1-3) walk grows_trans [OF grown rs'(4)] by (auto simp: attends_def)
  qed
qed

text \<open>The leaves of a body: of an archive those of the walk, of any other body itself.\<close>

definition body_leaves :: "run_env \<Rightarrow> Chunk \<Rightarrow> bytes \<Rightarrow> (string \<times> bytes) list" where
  "body_leaves rn c data =
     (if LooksLikeArchive data then leaves (rn_archive rn) 4 (root_name (archiveRootName (Some c))) data else [([], data)])"

lemma engine_limits_ok:
  "MaxEntryBytes engine_limits < 2 ^ 63 - 1" "MaxInputBytes engine_limits < 2 ^ 63 - 1" "nat (MaxDepth (withDefaults engine_limits) + 1) = 4"
  by (simp_all add: engine_limits_def withDefaults_def)

lemma scanArchive_total:
  assumes "run_setting ul rn e" "run_ok rs" "plain_source c" "LooksLikeArchive (Data c)"
  shows "\<exists>rs'. scanArchive rn e c budget rs = Some rs' \<and> attends ul rn e (body_leaves rn c (Data c)) rs rs'"
  unfolding scanArchive_def
proof (rule scanArchiveWith_total [OF assms(1-3) _ refl])
  fix err w' s
  assume "WalkBytesContext (rn_archive rn) (archiveRootName (Some c)) (Data c) engine_limits (archive_visitor rn e c)
      (rs_world rs, Some \<lparr>ac_scan = rs_scan rs, ac_budget = budget, ac_visits = rs_visits rs\<rparr>) = (err, w', s)"
  from WalkBytesContext_spec [OF this engine_limits_ok(1) _ assms(4)] assms(2,4)
  show "temps_ok w' \<and> (removes_ok (rn_archive rn) \<longrightarrow> w_temps w' = w_temps (rs_world rs)) \<and>
    delivers (new_walker (rn_archive rn) engine_limits (archive_visitor rn e c)) (body_leaves rn c (Data c))
      (Some \<lparr>ac_scan = rs_scan rs, ac_budget = budget, ac_visits = rs_visits rs\<rparr>) err s"
    by (simp add: run_ok_def body_leaves_def engine_limits_ok)
qed

lemma scanArchiveReader_total:
  assumes "run_setting ul rn e" "run_ok rs" "plain_source c" "LooksLikeArchive (stream_bytes input)"
  shows "\<exists>rs'. scanArchiveReader rn e c input sz budget rs = Some rs' \<and> attends ul rn e (body_leaves rn c (stream_bytes input)) rs rs'"
  unfolding scanArchiveReader_def
proof (rule scanArchiveWith_total [OF assms(1-3) _ refl])
  fix err w' s
  assume "WalkStreamContext (rn_archive rn) (archiveRootName (Some c)) input sz engine_limits (archive_visitor rn e c)
      (rs_world rs, Some \<lparr>ac_scan = rs_scan rs, ac_budget = budget, ac_visits = rs_visits rs\<rparr>) = (err, w', s)"
  moreover have "detect (stream_bytes input) \<noteq> kindNone" using assms(4) by (auto simp: LooksLikeArchive_def)
  ultimately
  show "temps_ok w' \<and> (removes_ok (rn_archive rn) \<longrightarrow> w_temps w' = w_temps (rs_world rs)) \<and>
    delivers (new_walker (rn_archive rn) engine_limits (archive_visitor rn e c)) (body_leaves rn c (stream_bytes input))
      (Some \<lparr>ac_scan = rs_scan rs, ac_budget = budget, ac_visits = rs_visits rs\<rparr>) err s"
    using WalkStreamContext_spec [OF _ engine_limits_ok(1,2)] assms(2,4) by (fastforce simp: run_ok_def body_leaves_def engine_limits_ok)
qed

section \<open>Chunks\<close>

lemma attends_seq:
  assumes "attends ul rn e L1 rs rs1" "attends ul rn e L2 rs1 rs2"
  shows "attends ul rn e (L1 @ L2) rs rs2"
proof -
  have g: "grows e (rs_scan rs) (rs_scan rs1)" "grows e (rs_scan rs1) (rs_scan rs2)" using assms by (simp_all add: attends_def)
  then have mono: "failureTotal (ss_log (rs_scan rs)) \<le> failureTotal (ss_log (rs_scan rs1))"
    "failureTotal (ss_log (rs_scan rs1)) \<le> failureTotal (ss_log (rs_scan rs2))" by (simp_all add: grows_def remembers_def)
  have "emits P (rs_scan rs2) \<or> failureTotal (ss_log (rs_scan rs)) < failureTotal (ss_log (rs_scan rs2))"
    if "(ap, body) \<in> set L1 \<union> set L2" "reveals ul rn e P ap body" for ap body P
    using that assms emits_grows [OF _ g(2)] mono unfolding attends_def by fastforce
  then show ?thesis using assms grows_trans [OF g] by (auto simp: attends_def)
qed

lemma attends_run_ok: "attends ul rn e L rs rs' \<Longrightarrow> run_ok rs'"
  by (simp add: attends_def run_ok_def)

lemma attends_refl: "run_ok rs \<Longrightarrow> attends ul rn e [] rs rs"
  by (simp add: attends_def run_ok_def grows_refl)

lemma attends_polls: "run_ok rs \<Longrightarrow> attends ul rn e [] rs (rs\<lparr>rs_scan := (rs_scan rs)\<lparr>ss_polls := n\<rparr>\<rparr>)"
  by (simp add: attends_def run_ok_def grows_polls scan_ok_def)

lemma attends_leaf:
  assumes "run_ok rs" "scan_ok st'" "grows e (rs_scan rs) st'" "\<forall>P. reveals ul rn e P [] data \<longrightarrow> emits P st'"
  shows "attends ul rn e [([], data)] rs (rs\<lparr>rs_scan := st'\<rparr>)"
  using assms by (simp add: attends_def run_ok_def)

text \<open>The leaves of a chunk, and what is asked of its opener: when it returns a reader, that the body can be read.\<close>

definition item_leaves :: "run_env \<Rightarrow> (Chunk \<times> opened option) option \<Rightarrow> (string \<times> bytes) list" where
  "item_leaves rn item =
     (case item of
        None \<Rightarrow> []
      | Some (c, None) \<Rightarrow> body_leaves rn c (Data c)
      | Some (c, Some o1) \<Rightarrow> if op_reader o1 = None \<and> op_err o1 = None then [] else body_leaves rn c (stream_bytes (op_input o1)))"

definition item_ok :: "run_env \<Rightarrow> (Chunk \<times> opened option) option \<Rightarrow> bool" where
  "item_ok rn item \<longleftrightarrow>
     (case item of
        None \<Rightarrow> True
      | Some (c, None) \<Rightarrow> plain_source c
      | Some (c, Some o1) \<Rightarrow> plain_source c \<and>
          (\<forall>dv. op_err o1 = None \<and> op_reader o1 = Some dv \<and> 0 \<le> op_size o1 \<longrightarrow>
             op_size o1 = int (length (stream_bytes (op_input o1))) \<and> body_ok rn dv (stream_bytes (op_input o1))))"

lemma prefix_looks:
  assumes "body_ok rn dv data"
  shows "readerLooksLikeArchive (dv_stream dv) (length data) t = Inr (LooksLikeArchive data)"
proof (cases "data = []")
  case True
  then show ?thesis by (simp add: readerLooksLikeArchive_def LooksLikeArchive_def detect_def)
next
  case False
  let ?n = "min (length data) 512"
  obtain err where r: "sv_reader (dv_stream dv) t 0 ?n = (slice 0 (0 + ?n) data, err)" "err = None \<or> err = Some StreamMatch.EOF"
    "length (slice 0 (0 + ?n) data) = ?n" by (rule body_reads [OF assms, of 0 ?n]) auto
  have "slice 0 (0 + ?n) data = take 512 data" by (simp add: slice_def min_def)
  moreover have "LooksLikeArchive (take 512 data) = LooksLikeArchive data" by (simp add: LooksLikeArchive_def detect_take)
  ultimately show ?thesis using r False by (auto simp: readerLooksLikeArchive_def Let_def)
qed

lemma scan_opened_total:
  assumes "run_setting ul rn e" "run_ok rs" "item_ok rn (Some (c, Some o1))"
  shows "\<exists>rs'. scan_opened rn e c o1 rs = Some rs' \<and> attends ul rn e (item_leaves rn (Some (c, Some o1))) rs rs'"
proof -
  let ?L = "item_leaves rn (Some (c, Some o1))" and ?data = "stream_bytes (op_input o1)"
  have alive: "env_cancel (rn_scan rn) = None" using assms(1) by (simp add: run_setting_def)
  note fails = source_failure_total [OF assms(2) alive, where ul = ul and e = e and L = ?L]
  show ?thesis
  proof (cases "op_err o1")
    case (Some m)
    then show ?thesis using fails [of c m] by (simp add: scan_opened_def)
  next
    case ok: None
    show ?thesis
    proof (cases "op_reader o1")
      case None
      then show ?thesis using ok attends_refl [OF assms(2)] by (simp add: scan_opened_def item_leaves_def)
    next
      case (Some dv)
      show ?thesis
      proof (cases "op_size o1 < 0")
        case True
        then show ?thesis using ok Some fails [of c "''source returned a negative body size''"] by (simp add: scan_opened_def)
      next
        case False
        have body: "op_size o1 = int (length ?data)" "body_ok rn dv ?data" "plain_source c" using assms(3) ok Some False by (auto simp: item_ok_def)
        let ?rs1 = "rs\<lparr>rs_scan := (rs_scan rs)\<lparr>ss_polls := ss_polls (rs_scan rs) + 1\<rparr>\<rparr>"
        have rs1: "attends ul rn e [] rs ?rs1" "run_ok ?rs1" using attends_polls [OF assms(2)] attends_run_ok by blast+
        have L: "?L = body_leaves rn c ?data" using Some by (simp add: item_leaves_def)
        have "\<exists>rs'. scan_opened rn e c o1 rs = Some rs' \<and> attends ul rn e (body_leaves rn c ?data) ?rs1 rs'"
        proof (cases "LooksLikeArchive ?data")
          case True
          then show ?thesis
            using ok Some False body prefix_looks [OF body(2)] scanArchiveReader_total [OF assms(1) rs1(2) body(3) True, of "op_size o1" archive_budget]
            by (simp add: scan_opened_def Let_def)
        next
          case archive: False
          obtain dets opts cc where new: "NewWithDetectors ul dets opts cc = Some e" "detectors_agree rn e" using assms(1) by (auto simp: run_setting_def)
          have ok1: "scan_ok (rs_scan ?rs1)" using rs1(2) by (simp add: run_ok_def)
          obtain st' where st': "scanChunkLeafReader (body_env rn dv (length ?data)) e c [] (rs_scan ?rs1) = Some st'" "scan_ok st'" "grows e (rs_scan ?rs1) st'"
            "\<forall>P. reveals ul rn e P [] ?data \<longrightarrow> emits P st'"
            using reader_total [OF new(1) alive ok1 body(2,3) new(2), of "[]"] by blast
          have "attends ul rn e [([], ?data)] ?rs1 (?rs1\<lparr>rs_scan := st'\<rparr>)" by (rule attends_leaf [OF rs1(2) st'(2-4)])
          then show ?thesis using ok Some False body(1) prefix_looks [OF body(2)] archive st'(1) by (simp add: scan_opened_def Let_def body_leaves_def)
        qed
        then show ?thesis using attends_seq [OF rs1(1)] L by fastforce
      qed
    qed
  qed
qed

lemma scanChunk_total:
  assumes "run_setting ul rn e" "run_ok rs" "item_ok rn item"
  shows "\<exists>rs'. scanChunk rn e item rs = Some rs' \<and> attends ul rn e (item_leaves rn item) rs rs'"
proof -
  have alive: "env_cancel (rn_scan rn) = None" using assms(1) by (simp add: run_setting_def)
  consider "item = None" | c where "item = Some (c, None)" | c o1 where "item = Some (c, Some o1)" by (metis option.exhaust prod.exhaust)
  then show ?thesis
  proof cases
    case 1
    then show ?thesis using attends_refl [OF assms(2)] by (simp add: scanChunk_def item_leaves_def)
  next
    case (2 c)
    have ok: "scan_ok (rs_scan rs)" using assms(2) by (simp add: run_ok_def)
    show ?thesis
    proof (cases "LooksLikeArchive (Data c)")
      case True
      then show ?thesis using scanArchive_total [OF assms(1,2) _ True, of archive_budget] assms(3) 2
        by (simp add: scanChunk_def item_leaves_def item_ok_def)
    next
      case False
      obtain st' where st': "scanChunkLeaf (rn_scan rn) e c [] (rs_scan rs) = Some st'" "scan_ok st'" "grows e (rs_scan rs) st'"
        "\<forall>P. reveals ul rn e P [] (Data c) \<longrightarrow> emits P st'"
        using leaf_total [OF setting_engine [OF assms(1)] alive ok] by blast
      then show ?thesis using False 2 attends_leaf [OF assms(2) st'(2-4)] by (simp add: scanChunk_def item_leaves_def body_leaves_def)
    qed
  next
    case (3 c o1)
    obtain rs1 where rs1: "scan_opened rn e c o1 rs = Some rs1" "attends ul rn e (item_leaves rn item) rs rs1"
      using scan_opened_total [OF assms(1,2)] assms(3) 3 by blast
    show ?thesis
    proof (cases "\<exists>m. op_close o1 = Some (Some m)")
      case True
      then obtain m where m: "op_close o1 = Some (Some m)" by blast
      obtain rs2 where rs2: "source_failure rn c m rs1 = Some rs2" "attends ul rn e [] rs1 rs2"
        using source_failure_total [OF attends_run_ok [OF rs1(2)] alive] by blast
      then show ?thesis using 3 rs1(1) m attends_seq [OF rs1(2) rs2(2)] by (simp add: scanChunk_def scanOpenedChunk_def)
    next
      case False
      then show ?thesis using 3 rs1 by (auto simp: scanChunk_def scanOpenedChunk_def split: option.splits)
    qed
  qed
qed

lemma scanChunks_total:
  assumes "run_setting ul rn e" "run_ok rs" "\<forall>item \<in> set items. item_ok rn item"
  shows "\<exists>rs'. foldM (scanChunk rn e) items rs = Some rs' \<and> attends ul rn e (concat (map (item_leaves rn) items)) rs rs'"
  using assms(2,3)
proof (induction items arbitrary: rs)
  case Nil
  then show ?case using attends_refl by simp
next
  case (Cons item items)
  obtain rs1 where rs1: "scanChunk rn e item rs = Some rs1" "attends ul rn e (item_leaves rn item) rs rs1"
    using scanChunk_total [OF assms(1) Cons.prems(1)] Cons.prems(2) by auto
  obtain rs2 where "foldM (scanChunk rn e) items rs1 = Some rs2" "attends ul rn e (concat (map (item_leaves rn) items)) rs1 rs2"
    using Cons.IH [OF attends_run_ok [OF rs1(2)]] Cons.prems(2) by auto
  then show ?case using rs1 attends_seq by fastforce
qed

text \<open>A chunk that gives no reason for a failure: not an archive, and opened, read and closed without an error.\<close>

definition item_clean :: "run_env \<Rightarrow> (Chunk \<times> opened option) option \<Rightarrow> bool" where
  "item_clean rn item \<longleftrightarrow> item_ok rn item \<and>
     (case item of
        None \<Rightarrow> True
      | Some (c, None) \<Rightarrow> \<not> LooksLikeArchive (Data c)
      | Some (c, Some o1) \<Rightarrow> op_err o1 = None \<and> (\<forall>m. op_close o1 \<noteq> Some (Some m)) \<and>
          (op_reader o1 \<noteq> None \<longrightarrow> 0 \<le> op_size o1 \<and> \<not> LooksLikeArchive (stream_bytes (op_input o1))))"

lemma scanChunk_spares:
  assumes "run_setting ul rn e" "run_ok rs" "item_clean rn item" "scanChunk rn e item rs = Some rs'"
  shows "spares e (rs_scan rs) (rs_scan rs')"
proof -
  have ok: "scan_ok (rs_scan rs)" and alive: "env_cancel (rn_scan rn) = None"
    using assms(1,2) by (simp_all add: run_ok_def run_setting_def)
  consider "item = None" | c where "item = Some (c, None)" | c o1 where "item = Some (c, Some o1)" by (metis option.exhaust prod.exhaust)
  then show ?thesis
  proof cases
    case 1
    then show ?thesis using assms(4) by (simp add: scanChunk_def spares_def)
  next
    case (2 c)
    then have "\<not> LooksLikeArchive (Data c)" using assms(3) by (simp add: item_clean_def)
    then show ?thesis using 2 assms(4) leaf_total [OF setting_engine [OF assms(1)] alive ok, of c "[]"] by (auto simp: scanChunk_def)
  next
    case (3 c o1)
    have close: "\<forall>m. op_close o1 \<noteq> Some (Some m)" and clean: "op_err o1 = None" using assms(3) 3 by (simp_all add: item_clean_def)
    have eq: "scan_opened rn e c o1 rs = Some rs'" using assms(4) 3 close
      by (auto simp: scanChunk_def scanOpenedChunk_def bind_eq_Some_conv split: option.splits)
    show ?thesis
    proof (cases "op_reader o1")
      case None
      then show ?thesis using eq clean by (simp add: scan_opened_def spares_def)
    next
      case (Some dv)
      let ?data = "stream_bytes (op_input o1)" and ?st = "(rs_scan rs)\<lparr>ss_polls := ss_polls (rs_scan rs) + 1\<rparr>"
      have body: "op_size o1 = int (length ?data)" "body_ok rn dv ?data" "plain_source c" "\<not> LooksLikeArchive ?data"
        using assms(3) 3 Some by (auto simp: item_clean_def item_ok_def)
      obtain dets opts cc where new: "NewWithDetectors ul dets opts cc = Some e" "detectors_agree rn e" using assms(1) by (auto simp: run_setting_def)
      have "scan_ok ?st" using ok by (simp add: scan_ok_def)
      from reader_total [OF new(1) alive this body(2,3) new(2), of "[]"] obtain st' where
        st': "scanChunkLeafReader (body_env rn dv (length ?data)) e c [] ?st = Some st'" "spares e ?st st'" by blast
      then have "rs' = rs\<lparr>rs_scan := st'\<rparr>"
        using eq Some clean body(1,4) prefix_looks [OF body(2)] by (simp add: scan_opened_def Let_def)
      then show ?thesis using st'(2) by (simp add: spares_def)
    qed
  qed
qed

lemma scanChunks_spare:
  assumes "run_setting ul rn e" "run_ok rs" "\<forall>item \<in> set items. item_clean rn item" "foldM (scanChunk rn e) items rs = Some rs'"
  shows "spares e (rs_scan rs) (rs_scan rs')"
  using assms(2-4)
proof (induction items arbitrary: rs)
  case Nil
  then show ?case by (simp add: spares_def)
next
  case (Cons item items)
  have clean: "item_clean rn item" "item_ok rn item" using Cons.prems(2) by (simp_all add: item_clean_def)
  obtain rs1 where rs1: "scanChunk rn e item rs = Some rs1" "attends ul rn e (item_leaves rn item) rs rs1"
    using scanChunk_total [OF assms(1) Cons.prems(1) clean(2)] by blast
  have "spares e (rs_scan rs) (rs_scan rs1)" by (rule scanChunk_spares [OF assms(1) Cons.prems(1) clean(1) rs1(1)])
  moreover have "spares e (rs_scan rs1) (rs_scan rs')" using Cons.IH [OF attends_run_ok [OF rs1(2)]] Cons.prems(2,3) rs1(1) by simp
  ultimately show ?case by (simp add: spares_def)
qed

section \<open>Runs\<close>

lemma cleared: "cache_inv c \<Longrightarrow> cache_inv (cache_clear c) \<and> vals (cache_clear c) = Map.empty"
  by (simp add: cache_inv_def cache_clear_def)

lemma take_total: "takeFailures log = (err, log') \<Longrightarrow> (err = None \<longleftrightarrow> failureTotal log = 0) \<and> log' = new_failure_log"
  by (auto simp: takeFailures_def new_failure_log_def split: if_splits)

lemma join_the_errors: "errors_Join (the_errors es) = None \<longleftrightarrow> (\<forall>e \<in> set es. e = None)"
  by (induction es) (auto simp: errors_Join_def the_errors_def map_filter_simps split: option.splits)

lemma run_total:
  assumes "run_setting ul rn e" "rn_gate rn" "cache_inv (ss_cache (rs_scan rs))" "temps_ok (rs_world rs)" "\<forall>item \<in> set (sr_chunks src). item_ok rn item"
  shows "\<exists>stats err rs'. RunWithStats rn e src rs = Some ((stats, err), rs') \<and> cache_inv (ss_cache (rs_scan rs')) \<and> vals (ss_cache (rs_scan rs')) = Map.empty \<and>
    ss_log (rs_scan rs') = new_failure_log \<and> temps_ok (rs_world rs') \<and> (removes_ok (rn_archive rn) \<longrightarrow> w_temps (rs_world rs') = w_temps (rs_world rs)) \<and>
    (\<exists>fs. ss_emitted (rs_scan rs') = ss_emitted (rs_scan rs) @ fs \<and> (\<forall>f \<in> set fs. scan_finding e f)) \<and>
    (NoVerify (eng_opts e) \<longrightarrow> ss_stats (rs_scan rs') = ss_stats (rs_scan rs) \<and> sts_cache stats = zero_stats) \<and>
    (sr_err src \<noteq> None \<longrightarrow> err \<noteq> None) \<and>
    (\<forall>item ap body P. item \<in> set (sr_chunks src) \<and> (ap, body) \<in> set (item_leaves rn item) \<and> reveals ul rn e P ap body \<longrightarrow>
       emits P (rs_scan rs') \<or> err \<noteq> None)"
proof -
  let ?rs1 = "clear_cache rs"
  let ?rs2 = "?rs1\<lparr>rs_scan := (rs_scan ?rs1)\<lparr>ss_log := resetFailures (ss_log (rs_scan ?rs1))\<rparr>\<rparr>"
  have "run_ok ?rs2" using assms(3,4) cleared by (simp add: run_ok_def scan_ok_def clear_cache_def resetFailures_def)
  from scanChunks_total [OF assms(1) this assms(5)] obtain rs3 where
    rs3: "foldM (scanChunk rn e) (sr_chunks src) ?rs2 = Some rs3" "attends ul rn e (concat (map (item_leaves rn) (sr_chunks src))) ?rs2 rs3" by blast
  obtain degraded log where t: "takeFailures (ss_log (rs_scan rs3)) = (degraded, log)" by fastforce
  let ?rs4 = "rs3\<lparr>rs_scan := (rs_scan rs3)\<lparr>ss_log := log\<rparr>\<rparr>"
  let ?stats = "run_stats rn (AggregateStats rn (rs_scan ?rs1)) (AggregateStats rn (rs_scan ?rs4))"
  let ?err = "errors_Join (the_errors [sr_err src, map_option ErrDegraded degraded])"
  have run: "RunWithStats rn e src rs = Some ((?stats, ?err), clear_cache ?rs4)"
    using assms(2) rs3(1) t by (simp add: RunWithStats_def Let_def)
  have err: "?err = None \<longleftrightarrow> sr_err src = None \<and> failureTotal (ss_log (rs_scan rs3)) = 0"
    using take_total [OF t] by (simp add: join_the_errors)
  have ok3: "cache_inv (ss_cache (rs_scan rs3))" "temps_ok (rs_world rs3)" using rs3(2) by (simp_all add: attends_def scan_ok_def)
  have grown: "grows e (rs_scan ?rs2) (rs_scan rs3)" using rs3(2) by (simp add: attends_def)
  then have stats: "NoVerify (eng_opts e) \<longrightarrow> ss_stats (rs_scan rs3) = ss_stats (rs_scan rs)" by (simp add: grows_def offline_def clear_cache_def)
  have miss: "emits P (rs_scan (clear_cache ?rs4)) \<or> ?err \<noteq> None"
    if "item \<in> set (sr_chunks src)" "(ap, body) \<in> set (item_leaves rn item)" "reveals ul rn e P ap body" for item ap body P
  proof -
    have "(ap, body) \<in> set (concat (map (item_leaves rn) (sr_chunks src)))" using that(1,2) by auto
    then have "emits P (rs_scan rs3) \<or> failureTotal (ss_log (rs_scan ?rs2)) < failureTotal (ss_log (rs_scan rs3))"
      using rs3(2) that(3) unfolding attends_def by blast
    then show ?thesis unfolding err by (auto simp: emits_def clear_cache_def resetFailures_def)
  qed
  have zero: "cache_stats_minus a a = zero_stats" for a by (simp add: cache_stats_minus_def zero_stats_def)
  show ?thesis
    unfolding run using ok3 cleared take_total [OF t] rs3(2) grown stats err miss
    by (fastforce simp: clear_cache_def attends_def grows_def run_stats_def AggregateStats_def zero)
qed

lemma new_run_ok: "temps_ok w \<Longrightarrow> cache_inv (ss_cache (rs_scan (new_run_state w))) \<and> temps_ok (rs_world (new_run_state w))"
  by (simp add: new_run_state_def cache_inv_def newVerificationCache_def defaultVerificationCacheCapacity_def)

lemma fresh_run:
  assumes "run_setting ul rn e" "rn_gate rn" "temps_ok w" "\<forall>item \<in> set (sr_chunks src). item_ok rn item"
    and "item \<in> set (sr_chunks src)" "(ap, body) \<in> set (item_leaves rn item)" "reveals ul rn e P ap body"
  shows "\<exists>stats err rs. RunWithStats rn e src (new_run_state w) = Some ((stats, err), rs) \<and> (err = None \<longrightarrow> emits P (rs_scan rs))"
proof -
  have new: "cache_inv (ss_cache (rs_scan (new_run_state w)))" "temps_ok (rs_world (new_run_state w))"
    using new_run_ok [OF assms(3)] by blast+
  obtain stats err rs where run: "RunWithStats rn e src (new_run_state w) = Some ((stats, err), rs)"
    "\<forall>item ap body P. item \<in> set (sr_chunks src) \<and> (ap, body) \<in> set (item_leaves rn item) \<and> reveals ul rn e P ap body \<longrightarrow>
       emits P (rs_scan rs) \<or> err \<noteq> None"
    using run_total [OF assms(1,2) new assms(4)] by (elim exE conjE) (rule that)
  then have "err = None \<longrightarrow> emits P (rs_scan rs)" using assms(5-7) by blast
  then show ?thesis using run(1) by blast
qed

lemma reveals_member:
  assumes "NewWithDetectors ul dets opts cc = Some e" "eng_prefilter e \<noteq> None" "d \<in> set dets" "finds d s" "reachable_by ul d s"
    and "Variants (env_junk (rn_scan rn)) body = Some vs" "v \<in> set vs" "var_Data v = before @ s @ after"
  obtains di where "eng_dets e ! di = d" "reveals ul rn e (found e (var_Source v) ap di s) ap body"
proof -
  obtain di where di: "di < length (eng_dets e)" "eng_dets e ! di = d"
    using assms(3) new_dets [OF assms(1)] by (metis in_set_conv_nth)
  then have "reveals ul rn e (found e (var_Source v) ap di s) ap body" using assms(2,4-8) unfolding reveals_def by blast
  then show ?thesis using that di(2) by blast
qed




text \<open>C3. No false alarm: when no detector fails and every chunk is a plain body that is opened, read and closed without an error, the run ends
  with exactly the error of its source, so with none when the source had none.\<close>

theorem RunWithStats_no_false_alarm:
  assumes "NewWithDetectors ul dets opts cc = Some e" "rn_gate rn" "env_cancel (rn_scan rn) = None" "detectors_agree rn e" "entries_ok rn"
    and "\<forall>d \<in> set dets. faultless d" "\<forall>item \<in> set (sr_chunks src). item_clean rn item"
    and "cache_inv (ss_cache (rs_scan rs))" "temps_ok (rs_world rs)"
  shows "\<exists>stats rs'. RunWithStats rn e src rs = Some ((stats, map_option (\<lambda>err. ErrJoin [err]) (sr_err src)), rs')"
proof -
  have setting: "run_setting ul rn e" using assms(1,3-5) by (auto simp: run_setting_def)
  let ?rs = "clear_cache rs"
  let ?rs2 = "?rs\<lparr>rs_scan := (rs_scan ?rs)\<lparr>ss_log := resetFailures (ss_log (rs_scan ?rs))\<rparr>\<rparr>"
  have ok: "run_ok ?rs2" using assms(8,9) cleared by (simp add: run_ok_def scan_ok_def clear_cache_def resetFailures_def)
  have "\<forall>item \<in> set (sr_chunks src). item_ok rn item" using assms(7) by (simp add: item_clean_def)
  from scanChunks_total [OF setting ok this] obtain rs3 where rs3: "foldM (scanChunk rn e) (sr_chunks src) ?rs2 = Some rs3" by blast
  have "spares e (rs_scan ?rs2) (rs_scan rs3)" by (rule scanChunks_spare [OF setting ok assms(7) rs3])
  then have "failureTotal (ss_log (rs_scan rs3)) = 0" using assms(6) new_dets [OF assms(1)] by (simp add: spares_def resetFailures_def)
  then show ?thesis using rs3 assms(2)
    by (cases "sr_err src") (simp_all add: RunWithStats_def Let_def takeFailures_def errors_Join_def the_errors_def map_filter_simps)
qed

section \<open>Samples\<close>

text \<open>A gzip body that decompresses to a line with a key.\<close>

definition sample_run_env :: run_env where
  "sample_run_env = \<lparr>rn_scan = sample_env, rn_detectors = \<lambda>_. None,
     rn_archive = sample_archive_env\<lparr>ae_gzip := \<lambda>_. Inr ([(''x AKIA1'', None)], None)\<rparr>, rn_entry = \<lambda>_ entry. memory_env (se_bytes entry),
     rn_fired = \<lambda>_. False, rn_elapsed = \<lambda>_. 1, rn_quote = id, rn_gate = True, rn_duration = 1, rn_callNanos = id\<rparr>"

definition sample_gzip :: bytes where "sample_gzip = [CHR 0x1F, CHR 0x8B]"

lemma sample_run:
  "rn_gate sample_run_env" "env_cancel (rn_scan sample_run_env) = None" "detectors_agree sample_run_env e" "entries_ok sample_run_env"
  "temps_ok sample_world" "(''scan-bytes!gz'', ''x AKIA1'') \<in> set (body_leaves sample_run_env (bytes_chunk sample_gzip) sample_gzip)"
proof -
  show "detectors_agree sample_run_env e" by (simp add: detectors_agree_def readers_agree_def body_env_def sample_run_env_def)
  have same: "le_decode (body_env sample_run_env (memory_env data) (length data)) = memory_env data" for data
    by (simp add: body_env_def memory_env_def cancelled_at_def sample_run_env_def sample_env_def fun_eq_iff)
  have "body_ok sample_run_env (memory_env data) data" if "int (length data) \<le> MaxEntryBytes engine_limits" for data
    using that memory_reliable by (simp add: body_ok_def same engine_limits_def)
  then show "entries_ok sample_run_env" by (simp add: entries_ok_def sample_run_env_def)
  have "leaves (rn_archive sample_run_env) 4 ''scan-bytes'' sample_gzip = [(''scan-bytes!gz'', ''x AKIA1'')]" "LooksLikeArchive sample_gzip"
    by code_simp+
  then show "(''scan-bytes!gz'', ''x AKIA1'') \<in> set (body_leaves sample_run_env (bytes_chunk sample_gzip) sample_gzip)"
    by (simp add: body_leaves_def archiveRootName_def bytes_chunk_def no_metadata_def root_name_def)
qed (simp_all add: sample_run_env_def sample_env_def sample_world_def temps_ok_def)

lemma sample_engine:
  obtains e vs where "NewWithDetectors id [key_det] offline_opts 0 = Some e" "eng_prefilter e \<noteq> None"
    "Variants (env_junk (rn_scan sample_run_env)) ''x AKIA1'' = Some vs" "\<lparr>var_Source = [], var_Data = ''x AKIA1''\<rparr> \<in> set vs"
proof -
  obtain e where "NewWithDetectors id [key_det] offline_opts 0 = Some e" "eng_prefilter e \<noteq> None" using sample_scan(4) by blast
  moreover obtain vs where "Variants (env_junk (rn_scan sample_run_env)) ''x AKIA1'' = Some vs" "\<lparr>var_Source = [], var_Data = ''x AKIA1''\<rparr> \<in> set vs"
    by (rule Variants_parts [of "''x AKIA1''" "env_junk (rn_scan sample_run_env)"]) auto
  ultimately show ?thesis using that by blast
qed




theorem RunWithStats_no_false_alarm_witness:
  "\<exists>e stats rs. NewWithDetectors id [key_det] offline_opts 0 = Some e \<and>
     RunWithStats sample_run_env e (bytesSource_Chunks True (bytes_chunk ''x AKIA1'')) (new_run_state sample_world) = Some ((stats, None), rs)"
proof -
  obtain e where e: "NewWithDetectors id [key_det] offline_opts 0 = Some e" using sample_scan(4) by blast
  let ?src = "bytesSource_Chunks True (bytes_chunk ''x AKIA1'')"
  have "\<not> LooksLikeArchive ''x AKIA1''" by code_simp
  then have "\<forall>item \<in> set (sr_chunks ?src). item_clean sample_run_env item" "sr_err ?src = None"
    by (simp_all add: bytesSource_Chunks_def item_clean_def item_ok_def plain_source_def bytes_chunk_def no_metadata_def)
  moreover have "\<forall>d \<in> set [key_det]. faultless d" by (simp add: faultless_def key_det_def)
  moreover have "cache_inv (ss_cache (rs_scan (new_run_state sample_world)))" "temps_ok (rs_world (new_run_state sample_world))"
    using new_run_ok [OF sample_run(5)] by blast+
  ultimately show ?thesis
    using RunWithStats_no_false_alarm [OF e sample_run(1-4), of ?src "new_run_state sample_world"] e by auto
qed

end
