(* ===== verification/GoText.thy ===== *)
theory GoText
  imports Utf8
begin

text \<open>
  Functions of the Go packages \<^verbatim>\<open>strings\<close>, \<^verbatim>\<open>bytes\<close>, \<^verbatim>\<open>strconv\<close> and \<^verbatim>\<open>encoding/hex\<close> that the parsers of diffs and Git logs use.
\<close>

section \<open>Integers\<close>

definition is_digit :: "byte \<Rightarrow> bool" where
  "is_digit c \<longleftrightarrow> CHR ''0'' \<le> c \<and> c \<le> CHR ''9''"

definition digit_value :: "byte \<Rightarrow> nat" where
  "digit_value c = of_char c - 48"

definition digits_value :: "bytes \<Rightarrow> nat" where
  "digits_value ds = foldl (\<lambda>n c. n * 10 + digit_value c) 0 ds"

text \<open>\<^verbatim>\<open>strconv.Atoi\<close>: the value, and whether there was an error; a number out of range is replaced by the nearest one.\<close>

definition Atoi :: "string \<Rightarrow> int \<times> bool" where
  "Atoi s =
     (let neg = has_prefix s ''-''; ds = (if neg \<or> has_prefix s ''+'' then tl s else s) in
      if ds = [] \<or> \<not> list_all is_digit ds then (0, True)
      else
        let n = int (digits_value ds) in
        if neg then (if 2 ^ 63 < n then (- (2 ^ 63), True) else (- n, False))
        else (if 2 ^ 63 \<le> n then (2 ^ 63 - 1, True) else (n, False)))"

lemma is_digit_char: "d < 10 \<Longrightarrow> is_digit (digit_char d) \<and> digit_value (digit_char d) = d"
  by (simp add: is_digit_def digit_value_def char_le_of_char of_char_digit)

lemma digits_value_append: "digits_value (ds @ [c]) = digits_value ds * 10 + digit_value c"
  by (simp add: digits_value_def)

lemma itoa_digits: "list_all is_digit (itoa_nat n)"
  using itoa_nat_digits [of n] is_digit_char by (fastforce simp: list_all_iff)

lemma digits_value_itoa: "digits_value (itoa_nat n) = n"
proof (induction n rule: itoa_nat.induct)
  case (1 n)
  show ?case
  proof (cases "n < 10")
    case True
    then show ?thesis by (subst itoa_nat.simps) (simp add: digits_value_def is_digit_char)
  next
    case False
    then have "digits_value (itoa_nat n) = digits_value (itoa_nat (n div 10)) * 10 + digit_value (digit_char (n mod 10))"
      by (subst itoa_nat.simps) (simp add: digits_value_append)
    then show ?thesis using 1 False is_digit_char [of "n mod 10"] by simp
  qed
qed

lemma Atoi_itoa: "n < 2 ^ 63 \<Longrightarrow> Atoi (itoa_nat n) = (int n, False)"
proof -
  assume n: "n < 2 ^ 63"
  obtain c cs where c: "itoa_nat n = c # cs" using itoa_nat_nonempty by (cases "itoa_nat n") auto
  have "is_digit c" using itoa_digits [of n] c by simp
  then have "c \<noteq> CHR ''-''" "c \<noteq> CHR ''+''" by (auto simp: is_digit_def char_le_of_char)
  then show ?thesis using n itoa_digits [of n] digits_value_itoa [of n] c by (simp add: Atoi_def Let_def)
qed

section \<open>Lines and fields\<close>

definition trim_suffix :: "bytes \<Rightarrow> bytes \<Rightarrow> bytes" where
  "trim_suffix s suf = (if has_suffix s suf then take (length s - length suf) s else s)"

definition trim_prefix :: "bytes \<Rightarrow> bytes \<Rightarrow> bytes" where
  "trim_prefix s pre = (if has_prefix s pre then drop (length pre) s else s)"

text \<open>The line ending that the parsers cut off.\<close>

definition chomp :: "bytes \<Rightarrow> bytes" where
  "chomp s = trim_suffix (trim_suffix s [CHR 0x0A]) [CHR 0x0D]"

text \<open>\<^verbatim>\<open>unicode.IsSpace\<close>.\<close>

definition is_space :: "rune \<Rightarrow> bool" where
  "is_space r \<longleftrightarrow> 9 \<le> r \<and> r \<le> 13 \<or> r \<in> {0x20, 0x85, 0xA0, 0x1680, 0x2028, 0x2029, 0x202F, 0x205F, 0x3000} \<or> 0x2000 \<le> r \<and> r \<le> 0x200A"

text \<open>\<^verbatim>\<open>bytes.Fields\<close>: the maximal pieces without white space.\<close>

function fields_loop :: "bytes \<Rightarrow> bytes \<Rightarrow> bytes list" where
  "fields_loop cur s =
     (if s = [] then (if cur = [] then [] else [cur])
      else
        let (r, n) = decode_rune s in
        if is_space r then (if cur = [] then [] else [cur]) @ fields_loop [] (drop n s)
        else fields_loop (cur @ take n s) (drop n s))"
  by pat_completeness auto
termination
proof (relation "measure (\<lambda>(cur, s). length s)")
  fix cur s :: bytes and x :: "rune \<times> nat" and r n
  assume "s \<noteq> []" "x = decode_rune s" "(r, n) = x"
  then have "0 < n" "s \<noteq> []" using decode_width [of s] by (metis snd_conv)+
  then show "(([], drop n s), cur, s) \<in> measure (\<lambda>(cur, s). length s)" "((cur @ take n s, drop n s), cur, s) \<in> measure (\<lambda>(cur, s). length s)"
    by (simp_all add: length_greater_0_conv [symmetric] del: length_greater_0_conv)
qed simp

declare fields_loop.simps [simp del]

definition bytes_Fields :: "bytes \<Rightarrow> bytes list" where
  "bytes_Fields s = fields_loop [] s"

text \<open>\<^verbatim>\<open>strings.TrimSpace\<close>. A rune ends a string when decoding its last one, two or three bytes gives it.\<close>

function trim_left_space :: "bytes \<Rightarrow> bytes" where
  "trim_left_space s =
     (if s \<noteq> [] \<and> is_space (fst (decode_rune s)) then trim_left_space (drop (snd (decode_rune s)) s) else s)"
  by pat_completeness auto
termination
proof (relation "measure length")
  fix s :: bytes
  assume "s \<noteq> [] \<and> is_space (fst (decode_rune s))"
  then show "(drop (snd (decode_rune s)) s, s) \<in> measure length" using decode_width [of s] by (simp add: length_greater_0_conv [symmetric] del: length_greater_0_conv)
qed simp

declare trim_left_space.simps [simp del]

definition final_space :: "bytes \<Rightarrow> nat" where
  "final_space s =
     (case filter (\<lambda>k. k \<le> length s \<and> snd (decode_rune (drop (length s - k) s)) = k \<and> is_space (fst (decode_rune (drop (length s - k) s)))) [1, 2, 3] of
        [] \<Rightarrow> 0
      | k # _ \<Rightarrow> k)"

lemma final_space_le: "final_space s \<le> length s"
  by (auto simp: final_space_def filter_eq_Cons_iff split: list.splits)

function trim_right_space :: "bytes \<Rightarrow> bytes" where
  "trim_right_space s = (if final_space s = 0 then s else trim_right_space (take (length s - final_space s) s))"
  by pat_completeness auto
termination
proof (relation "measure length")
  fix s :: bytes
  assume "final_space s \<noteq> 0"
  then show "(take (length s - final_space s) s, s) \<in> measure length" using final_space_le [of s] by simp
qed simp

declare trim_right_space.simps [simp del]

definition TrimSpace :: "bytes \<Rightarrow> bytes" where
  "TrimSpace s = trim_right_space (trim_left_space s)"

section \<open>Hexadecimal and quoted text\<close>

definition hex_nibble :: "byte \<Rightarrow> nat option" where
  "hex_nibble c =
     (if CHR ''0'' \<le> c \<and> c \<le> CHR ''9'' then Some (of_char c - 48)
      else if CHR ''a'' \<le> c \<and> c \<le> CHR ''f'' then Some (of_char c - 87)
      else if CHR ''A'' \<le> c \<and> c \<le> CHR ''F'' then Some (of_char c - 55) else None)"

definition hex_ok :: "bytes \<Rightarrow> bool" where
  "hex_ok s \<longleftrightarrow> even (length s) \<and> list_all (\<lambda>c. hex_nibble c \<noteq> None) s"

text \<open>The value of exactly \<open>n\<close> digits of a base, and what follows them.\<close>

fun read_digits :: "(byte \<Rightarrow> nat option) \<Rightarrow> nat \<Rightarrow> nat \<Rightarrow> nat \<Rightarrow> bytes \<Rightarrow> (nat \<times> bytes) option" where
  "read_digits dig base 0 v s = Some (v, s)"
| "read_digits dig base (Suc n) v [] = None"
| "read_digits dig base (Suc n) v (c # s) = (case dig c of None \<Rightarrow> None | Some d \<Rightarrow> read_digits dig base n (v * base + d) s)"

definition octal_digit :: "byte \<Rightarrow> nat option" where
  "octal_digit c = (if CHR ''0'' \<le> c \<and> c \<le> CHR ''7'' then Some (of_char c - 48) else None)"

lemma read_digits_length: "read_digits dig base n v s = Some (w, rest) \<Longrightarrow> length rest \<le> length s"
  by (induction dig base n v s rule: read_digits.induct) (auto split: option.splits)

text \<open>One escape of a double-quoted Go string, after its backslash: what it stands for and the rest.\<close>

definition unquote_escape :: "bytes \<Rightarrow> (bytes \<times> bytes) option" where
  "unquote_escape s =
     (case s of
        [] \<Rightarrow> None
      | c # rest \<Rightarrow>
        if c = CHR ''a'' then Some ([CHR 0x07], rest)
        else if c = CHR ''b'' then Some ([CHR 0x08], rest)
        else if c = CHR ''f'' then Some ([CHR 0x0C], rest)
        else if c = CHR ''n'' then Some ([CHR 0x0A], rest)
        else if c = CHR ''r'' then Some ([CHR 0x0D], rest)
        else if c = CHR ''t'' then Some ([CHR 0x09], rest)
        else if c = CHR ''v'' then Some ([CHR 0x0B], rest)
        else if c = CHR 0x5C \<or> c = CHR 0x22 then Some ([c], rest)
        else if c = CHR ''x'' then map_option (\<lambda>(v, r). ([char_of v], r)) (read_digits hex_nibble 16 2 0 rest)
        else if c = CHR ''u'' then
          (case read_digits hex_nibble 16 4 0 rest of None \<Rightarrow> None | Some (v, r) \<Rightarrow> if valid_rune v then Some (encode_rune v, r) else None)
        else if c = CHR ''U'' then
          (case read_digits hex_nibble 16 8 0 rest of None \<Rightarrow> None | Some (v, r) \<Rightarrow> if valid_rune v then Some (encode_rune v, r) else None)
        else if octal_digit c \<noteq> None then
          (case read_digits octal_digit 8 3 0 s of None \<Rightarrow> None | Some (v, r) \<Rightarrow> if v < 256 then Some ([char_of v], r) else None)
        else None)"

lemma unquote_escape_length: "unquote_escape s = Some (out, rest) \<Longrightarrow> length rest < length s"
proof (cases s)
  case (Cons c s')
  have dig: "read_digits octal_digit 8 3 0 (c # s') = Some (v, r) \<Longrightarrow> length r < length (c # s')" for v r
    using read_digits_length [of octal_digit 8 "Suc (Suc 0)"] by (auto simp: numeral_3_eq_3 less_Suc_eq_le split: option.splits)
  assume "unquote_escape s = Some (out, rest)"
  then show ?thesis using Cons read_digits_length dig
    by (fastforce simp: unquote_escape_def less_Suc_eq_le split: if_splits option.splits)
qed (simp add: unquote_escape_def)

text \<open>The body of a double-quoted string up to its closing quote: its value, and the text after the quote.\<close>

function unquote_body :: "bytes \<Rightarrow> (bytes \<times> bytes) option" where
  "unquote_body s =
     (case s of
        [] \<Rightarrow> None
      | c # rest \<Rightarrow>
        if c = CHR 0x22 then Some ([], rest)
        else if c = CHR 0x0A then None
        else if c = CHR 0x5C then
          (case unquote_escape rest of
             None \<Rightarrow> None
           | Some (out, rest1) \<Rightarrow> map_option (\<lambda>(v, r). (out @ v, r)) (unquote_body rest1))
        else
          let (r, n) = decode_rune s in map_option (\<lambda>(v, rest1). (encode_rune r @ v, rest1)) (unquote_body (drop n s)))"
  by pat_completeness auto
termination
proof (relation "measure length")
  fix s :: bytes and c rest and x :: "rune \<times> nat" and r n
  assume "s = c # rest" "x = decode_rune s" "(r, n) = x"
  then have "0 < n" "s \<noteq> []" using decode_width [of s] by (metis list.distinct(1) snd_conv)+
  then show "(drop n s, s) \<in> measure length" by (simp add: length_greater_0_conv [symmetric] del: length_greater_0_conv)
qed (auto dest: unquote_escape_length)

declare unquote_body.simps [simp del]

text \<open>\<^verbatim>\<open>strconv.Unquote\<close> of a text that begins with a double quote, and the same for \<^verbatim>\<open>strconv.QuotedPrefix\<close> followed by it. A byte
  that is not valid UTF-8 becomes U+FFFD.\<close>

definition Unquote :: "string \<Rightarrow> string option" where
  "Unquote s = (case unquote_body (tl s) of Some (v, []) \<Rightarrow> Some v | _ \<Rightarrow> None)"

definition unquote_prefix :: "string \<Rightarrow> string option" where
  "unquote_prefix s = map_option fst (unquote_body (tl s))"

end
