(* ===== verification/StdinSource.thy ===== *)
theory StdinSource
  imports GoText Engine ArchiveFormat
begin

text \<open>
  Standard input as a source (\<^verbatim>\<open>src/pkg/sources/stdin/stdin.go\<close>, \<^verbatim>\<open>diff.go\<close>): the input is read once, a unified diff is reduced to the
  text it adds with the file and line of every added line, and an input that was scanned before is skipped. SHA-256 and the JSON
  codec are parameters: an operation gets what they return. The result of an operation that may fail is a sum.
\<close>

section \<open>Diffs\<close>

text \<open>The header of a hunk: \<^verbatim>\<open>^@@ -\d+(?:,\d+)? \+(\d+)(?:,\d+)? @@\<close>.\<close>

definition skip_count :: "string \<Rightarrow> string" where
  "skip_count s =
     (case s of
        [] \<Rightarrow> s
      | c # r \<Rightarrow> if c = CHR '','' \<and> takeWhile is_digit r \<noteq> [] then dropWhile is_digit r else s)"

definition hunkNewStart :: "string \<Rightarrow> string option" where
  "hunkNewStart line =
     (let s = drop 4 line; s1 = skip_count (dropWhile is_digit s); t = drop 2 s1; t1 = skip_count (dropWhile is_digit t) in
      if has_prefix line ''@@ -'' \<and> takeWhile is_digit s \<noteq> [] \<and> has_prefix s1 '' +'' \<and> takeWhile is_digit t \<noteq> [] \<and> has_prefix t1 '' @@''
      then Some (takeWhile is_digit t) else None)"

definition trim_right_cr :: "string \<Rightarrow> string" where
  "trim_right_cr s = rev (dropWhile (\<lambda>c. c = CHR 0x0D) (rev s))"

definition diffFilePath :: "string \<Rightarrow> string" where
  "diffFilePath header =
     (let path0 = trim_right_cr header;
          path1 = (if \<not> has_prefix path0 [CHR 0x22] then takeWhile (\<lambda>c. c \<noteq> CHR 0x09) path0
                   else case unquote_prefix path0 of None \<Rightarrow> path0 | Some p \<Rightarrow> p)
      in if path1 = ''/dev/null'' then [] else trim_prefix path1 ''b/'')"

record diff_state =
  df_out :: bytes
  df_locs :: "LineLocation list"
  df_path :: string
  df_newLine :: int
  df_inHunk :: bool

definition diff_emit :: "string \<Rightarrow> LineLocation \<Rightarrow> diff_state \<Rightarrow> diff_state" where
  "diff_emit text loc st = st\<lparr>df_out := df_out st @ text @ [CHR 0x0A], df_locs := df_locs st @ [loc]\<rparr>"

definition diff_line :: "string \<Rightarrow> diff_state \<Rightarrow> diff_state" where
  "diff_line line st =
     (if has_prefix line ''diff --git '' then st\<lparr>df_inHunk := False\<rparr>
      else if has_prefix line ''@@'' then
        (case hunkNewStart line of
           None \<Rightarrow> st
         | Some n \<Rightarrow> st\<lparr>df_newLine := fst (Atoi n), df_inHunk := True\<rparr>)
      else if df_inHunk st \<and> has_prefix line ''+'' then
        (diff_emit (tl line) \<lparr>loc_Path = df_path st, loc_Line = df_newLine st\<rparr> st)\<lparr>df_newLine := int64_of (df_newLine st + 1)\<rparr>
      else if df_inHunk st \<and> has_prefix line '' '' then st\<lparr>df_newLine := int64_of (df_newLine st + 1)\<rparr>
      else if df_inHunk st then st
      else if has_prefix line ''+++ '' then
        let p = diffFilePath (trim_prefix line ''+++ '') in diff_emit line \<lparr>loc_Path = p, loc_Line = 0\<rparr> (st\<lparr>df_path := p\<rparr>)
      else st)"

definition diff_start :: diff_state where
  "diff_start = \<lparr>df_out = [], df_locs = [], df_path = [], df_newLine = 0, df_inHunk = False\<rparr>"

definition ParseDiff :: "bytes \<Rightarrow> bytes \<times> LineLocation list" where
  "ParseDiff diff =
     (let st = fold diff_line (split_byte (CHR 0x0A) diff) diff_start in
      if \<exists>l \<in> set (df_locs st). 0 < loc_Line l then (df_out st, df_locs st) else ([], []))"

definition LocationMap :: "LineLocation list \<Rightarrow> int \<rightharpoonup> LineLocation" where
  "LocationMap locs i =
     (if 1 \<le> i \<and> i \<le> int (length locs) \<and> loc_Path (locs ! nat (i - 1)) \<noteq> [] then Some (locs ! nat (i - 1)) else None)"

section \<open>The source\<close>

record stdin_config =
  sc_Label :: string
  sc_MaxBytes :: int
  sc_Diff :: bool
  sc_Locations :: "int \<rightharpoonup> LineLocation"

record incrementalState =
  is_ConfigHash :: string
  is_Version :: int
  is_Hash :: string
  is_Label :: string
  is_Diff :: bool

record stdin_source =
  si_name :: string
  si_jobID :: int
  si_sourceID :: int
  si_cfg :: stdin_config
  si_configHash :: string
  si_cached :: "(bytes \<times> bool) option"
  si_previous :: "incrementalState option"
  si_next :: "incrementalState option"

text \<open>The process's standard input: what it delivers, and the error it ends with, if it does not end with \<^verbatim>\<open>io.EOF\<close>. \<open>se_sha\<close> is the
  hexadecimal SHA-256, \<open>se_config\<close> the JSON of a configuration, \<open>se_cancelled\<close> the answers of the context to the two questions of a run.\<close>

record stdin_env =
  se_input :: bytes
  se_error :: "string option"
  se_sha :: "bytes \<Rightarrow> string"
  se_config :: "stdin_config \<Rightarrow> bytes"
  se_cancelled :: "bool \<times> bool"

definition defaultMaxBytes :: int where "defaultMaxBytes = 64 * 1024 * 1024"
definition defaultLabel :: string where "defaultLabel = ''<stdin>''"

definition stdin_Init :: "stdin_env \<Rightarrow> string \<Rightarrow> int \<Rightarrow> int \<Rightarrow> string + stdin_config \<Rightarrow> stdin_source \<Rightarrow> (string + unit) \<times> stdin_source" where
  "stdin_Init env name jobID sourceID config s =
     (case config of
        Inl e \<Rightarrow> (Inl (''stdin: invalid config json: '' @ e), s)
      | Inr cfg0 \<Rightarrow>
        let cfg1 = (if sc_Label cfg0 = [] then cfg0\<lparr>sc_Label := defaultLabel\<rparr> else cfg0);
            cfg = (if sc_MaxBytes cfg1 \<le> 0 then cfg1\<lparr>sc_MaxBytes := defaultMaxBytes\<rparr> else cfg1)
        in (Inr (), s\<lparr>si_name := name, si_jobID := jobID, si_sourceID := sourceID, si_configHash := se_sha env (se_config env cfg),
                      si_cfg := cfg, si_cached := None, si_previous := None, si_next := None\<rparr>))"

definition readInput :: "stdin_env \<Rightarrow> stdin_source \<Rightarrow> (string + bytes \<times> bool) \<times> stdin_source" where
  "readInput env s =
     (case si_cached s of
        Some r \<Rightarrow> (Inr r, s)
      | None \<Rightarrow>
        let n = nat (sc_MaxBytes (si_cfg s)) in
        if length (se_input env) < n \<and> se_error env \<noteq> None then (Inl (''stdin: read: '' @ the (se_error env)), s)
        else let r = (take n (se_input env), n < length (se_input env)) in (Inr r, s\<lparr>si_cached := Some r\<rparr>))"

definition current_state :: "stdin_env \<Rightarrow> bytes \<Rightarrow> stdin_source \<Rightarrow> incrementalState" where
  "current_state env data s =
     \<lparr>is_ConfigHash = si_configHash s, is_Version = 2, is_Hash = se_sha env data, is_Label = sc_Label (si_cfg s), is_Diff = sc_Diff (si_cfg s)\<rparr>"

definition truncation_error :: string where
  "truncation_error = ''stdin: input exceeded max_bytes; trailing data was discarded''"

definition stdin_chunk :: "bytes \<Rightarrow> (int \<rightharpoonup> LineLocation) \<Rightarrow> stdin_source \<Rightarrow> Chunk" where
  "stdin_chunk data locations s =
     \<lparr>SourceID = si_sourceID s, SourceType = SourceStdin, SourceName = si_name s, Data = data,
      SourceMetadata = no_metadata\<lparr>md_Stdin := Some \<lparr>stdin_Label = sc_Label (si_cfg s), stdin_Locations = locations\<rparr>\<rparr>\<rparr>"

text \<open>The chunks that were delivered, and the error.\<close>

definition stdin_Chunks :: "stdin_env \<Rightarrow> stdin_source \<Rightarrow> (Chunk list \<times> string option) \<times> stdin_source" where
  "stdin_Chunks env s =
     (if fst (se_cancelled env) then (([], Some ''context canceled''), s)
      else
        case readInput env s of
          (Inl e, s1) \<Rightarrow> (([], Some e), s1)
        | (Inr (raw, truncated), s1) \<Rightarrow>
          let current = current_state env raw s1; s2 = s1\<lparr>si_next := Some current\<rparr>;
              (data, locations) = (if sc_Diff (si_cfg s2) then (let (d, locs) = ParseDiff raw in (d, LocationMap locs)) else (raw, sc_Locations (si_cfg s2)));
              cut = (if truncated then Some truncation_error else None)
          in if si_previous s2 = Some current then (([], cut), s2)
             else if snd (se_cancelled env) then (([], Some ''context canceled''), s2)
             else (([stdin_chunk data locations s2], cut), s2))"

definition ResourceFingerprint :: "stdin_env \<Rightarrow> stdin_source \<Rightarrow> (string + string) \<times> stdin_source" where
  "ResourceFingerprint env s =
     (case readInput env s of
        (Inl e, s1) \<Rightarrow> (Inl e, s1)
      | (Inr (data, truncated), s1) \<Rightarrow>
        let state = current_state env data s1; h = se_sha env (is_Hash state @ is_ConfigHash state) in
        (Inr (if truncated then h @ '':truncated'' else h), s1\<lparr>si_next := Some state\<rparr>))"

text \<open>\<open>saved\<close> is \<^const>\<open>None\<close> when there is no previous state, and otherwise what decoding it gives.\<close>

definition SetIncrementalState :: "(string + incrementalState) option \<Rightarrow> stdin_source \<Rightarrow> string option \<times> stdin_source" where
  "SetIncrementalState saved s =
     (case saved of
        None \<Rightarrow> (None, s\<lparr>si_previous := None\<rparr>)
      | Some (Inl e) \<Rightarrow> (Some (''stdin: invalid incremental state: '' @ e), s\<lparr>si_previous := None\<rparr>)
      | Some (Inr state) \<Rightarrow> (None, s\<lparr>si_previous := Some state\<rparr>))"

definition SetReader :: "stdin_source \<Rightarrow> stdin_source" where
  "SetReader s = s\<lparr>si_cached := None\<rparr>"

definition IncrementalState :: "stdin_source \<Rightarrow> incrementalState option" where
  "IncrementalState s = si_next s"

end
