(* ===== verification/StdinCorrect.thy ===== *)
theory StdinCorrect
  imports StdinSource EngineStreamCorrect
begin

text \<open>
  A reduced diff keeps its provenance. The reference is a structured patch; what \<^const>\<open>ParseDiff\<close> makes of its text are the added lines with
  the file and the line each of them gets, and with them the engine attributes every finding to the line it begins in.
\<close>

section \<open>Patches\<close>

datatype patch_line = Context string | Added string | Removed string | NoNewline

record patch_hunk =
  ph_old :: nat
  ph_new :: nat
  ph_rest :: string
  ph_lines :: "patch_line list"

record file_patch =
  fp_headers :: "string list"
  fp_path :: string
  fp_hunks :: "patch_hunk list"

fun show_line :: "patch_line \<Rightarrow> string" where
  "show_line (Context s) = CHR '' '' # s"
| "show_line (Added s) = CHR ''+'' # s"
| "show_line (Removed s) = CHR ''-'' # s"
| "show_line NoNewline = CHR 0x5C # '' No newline at end of file''"

definition show_hunk :: "patch_hunk \<Rightarrow> string list" where
  "show_hunk h = (''@@ -'' @ itoa_nat (ph_old h) @ '' +'' @ itoa_nat (ph_new h) @ '' @@'' @ ph_rest h) # map show_line (ph_lines h)"

definition show_file :: "file_patch \<Rightarrow> string list" where
  "show_file f = (''diff --git a/'' @ fp_path f @ '' b/'' @ fp_path f) # fp_headers f @ (''+++ b/'' @ fp_path f) # concat (map show_hunk (fp_hunks f))"

definition show_patch :: "file_patch list \<Rightarrow> bytes" where
  "show_patch fs = concat (map (\<lambda>l. l @ [CHR 0x0A]) (concat (map show_file fs)))"

text \<open>The added lines of a hunk with their line numbers.\<close>

fun added_lines :: "string \<Rightarrow> nat \<Rightarrow> patch_line list \<Rightarrow> (string \<times> LineLocation) list" where
  "added_lines p n [] = []"
| "added_lines p n (Context s # ls) = added_lines p (Suc n) ls"
| "added_lines p n (Added s # ls) = (s, \<lparr>loc_Path = p, loc_Line = int n\<rparr>) # added_lines p (Suc n) ls"
| "added_lines p n (Removed s # ls) = added_lines p n ls"
| "added_lines p n (NoNewline # ls) = added_lines p n ls"

definition file_text :: "file_patch \<Rightarrow> (string \<times> LineLocation) list" where
  "file_text f = (''+++ b/'' @ fp_path f, \<lparr>loc_Path = fp_path f, loc_Line = 0\<rparr>) #
     concat (map (\<lambda>h. added_lines (fp_path f) (ph_new h) (ph_lines h)) (fp_hunks f))"

definition patch_text :: "file_patch list \<Rightarrow> (string \<times> LineLocation) list" where
  "patch_text fs = concat (map file_text fs)"

fun line_ok :: "patch_line \<Rightarrow> bool" where
  "line_ok (Context s) = (CHR 0x0A \<notin> set s)"
| "line_ok (Added s) = (CHR 0x0A \<notin> set s)"
| "line_ok (Removed s) = (CHR 0x0A \<notin> set s)"
| "line_ok NoNewline = True"

definition hunk_ok :: "patch_hunk \<Rightarrow> bool" where
  "hunk_ok h \<longleftrightarrow> ph_new h + length (ph_lines h) < 2 ^ 63 - 1 \<and> CHR 0x0A \<notin> set (ph_rest h) \<and> list_all line_ok (ph_lines h)"

text \<open>Other header lines neither open a hunk nor name a file; the path is one that is not quoted.\<close>

definition file_ok :: "file_patch \<Rightarrow> bool" where
  "file_ok f \<longleftrightarrow>
     list_all (\<lambda>l. CHR 0x0A \<notin> set l \<and> \<not> has_prefix l ''@@'' \<and> \<not> has_prefix l ''+++ '') (fp_headers f) \<and>
     CHR 0x0A \<notin> set (fp_path f) \<and> CHR 0x09 \<notin> set (fp_path f) \<and> CHR 0x0D \<notin> set (fp_path f) \<and> fp_path f \<noteq> [] \<and> list_all hunk_ok (fp_hunks f)"

section \<open>Parsing\<close>

definition emitted_by :: "(string \<times> LineLocation) list \<Rightarrow> diff_state \<Rightarrow> diff_state \<Rightarrow> bool" where
  "emitted_by ts st st' \<longleftrightarrow> df_out st' = df_out st @ concat (map (\<lambda>(t, _). t @ [CHR 0x0A]) ts) \<and> df_locs st' = df_locs st @ map snd ts"

lemma emitted_by_Nil: "emitted_by [] st st' \<longleftrightarrow> df_out st' = df_out st \<and> df_locs st' = df_locs st"
  by (simp add: emitted_by_def)

lemma emitted_by_trans: "emitted_by ts st st1 \<Longrightarrow> emitted_by us st1 st2 \<Longrightarrow> emitted_by (ts @ us) st st2"
  by (simp add: emitted_by_def)

lemma emitted_by_Cons: "emitted_by [t] st st1 \<Longrightarrow> emitted_by us st1 st2 \<Longrightarrow> emitted_by (t # us) st st2"
  using emitted_by_trans [of "[t]"] by simp

lemma int64_next: "0 \<le> n \<Longrightarrow> n < 2 ^ 63 - 1 \<Longrightarrow> int64_of (n + 1) = n + 1"
  by (simp add: int64_of_def)

lemma parse_lines:
  assumes "df_inHunk st" "df_newLine st = int n" "n + length ls < 2 ^ 63 - 1"
  shows "\<exists>st'. fold diff_line (map show_line ls) st = st' \<and> emitted_by (added_lines (df_path st) n ls) st st' \<and> df_inHunk st' \<and> df_path st' = df_path st"
  using assms
proof (induction ls arbitrary: n st)
  case Nil
  then show ?case by (simp add: emitted_by_Nil)
next
  case (Cons l ls)
  have step: "int64_of (df_newLine st + 1) = int (Suc n)" using Cons.prems(2,3) int64_next [of "int n"] by simp
  show ?case
  proof (cases l)
    case (Added s)
    let ?st = "diff_line (show_line l) st"
    have "?st = (diff_emit s \<lparr>loc_Path = df_path st, loc_Line = int n\<rparr> st)\<lparr>df_newLine := int (Suc n)\<rparr>"
      using Added Cons.prems step by (simp add: diff_line_def)
    then have st: "df_inHunk ?st" "df_newLine ?st = int (Suc n)" "df_path ?st = df_path st" "emitted_by [(s, \<lparr>loc_Path = df_path st, loc_Line = int n\<rparr>)] st ?st"
      using Cons.prems(1) by (simp_all add: diff_emit_def emitted_by_def)
    from Cons.IH [OF st(1,2)] Cons.prems(3) show ?thesis using Added st emitted_by_Cons [OF st(4)] by auto
  next
    case (Context s)
    let ?st = "diff_line (show_line l) st"
    have "?st = st\<lparr>df_newLine := int (Suc n)\<rparr>" using Context Cons.prems step by (simp add: diff_line_def)
    then show ?thesis using Cons.IH [of ?st "Suc n"] Cons.prems Context by (simp add: emitted_by_def)
  next
    case (Removed s)
    then have "diff_line (show_line l) st = st" using Cons.prems(1) by (simp add: diff_line_def)
    then show ?thesis using Cons.IH [of st n] Cons.prems Removed by simp
  next
    case NoNewline
    then have "diff_line (show_line l) st = st" using Cons.prems(1) by (simp add: diff_line_def)
    then show ?thesis using Cons.IH [of st n] Cons.prems NoNewline by simp
  qed
qed

lemma take_digits: "\<not> is_digit c \<Longrightarrow> takeWhile is_digit (itoa_nat n @ c # s) = itoa_nat n \<and> dropWhile is_digit (itoa_nat n @ c # s) = c # s"
  using itoa_digits [of n] by (simp add: list_all_iff takeWhile_append dropWhile_append)

lemma hunk_header: "hunkNewStart (''@@ -'' @ itoa_nat m @ '' +'' @ itoa_nat n @ '' @@'' @ r) = Some (itoa_nat n)"
proof -
  have "\<not> is_digit (CHR '' '')" by (simp add: is_digit_def)
  then show ?thesis using take_digits [of "CHR '' ''" m] take_digits [of "CHR '' ''" n]
    by (simp add: hunkNewStart_def Let_def skip_count_def)
qed

lemma parse_hunk:
  assumes "hunk_ok h"
  shows "\<exists>st'. fold diff_line (show_hunk h) st = st' \<and> emitted_by (added_lines (df_path st) (ph_new h) (ph_lines h)) st st' \<and> df_path st' = df_path st"
proof -
  let ?st = "st\<lparr>df_newLine := int (ph_new h), df_inHunk := True\<rparr>"
  have n: "ph_new h + length (ph_lines h) < 2 ^ 63 - 1" using assms by (simp add: hunk_ok_def)
  then have "diff_line (''@@ -'' @ itoa_nat (ph_old h) @ '' +'' @ itoa_nat (ph_new h) @ '' @@'' @ ph_rest h) st = ?st"
    using Atoi_itoa [of "ph_new h"] hunk_header [of "ph_old h" "ph_new h" "ph_rest h"] by (simp add: diff_line_def)
  then show ?thesis using parse_lines [of ?st "ph_new h" "ph_lines h"] n by (auto simp: show_hunk_def emitted_by_def)
qed

lemma parse_hunks:
  assumes "list_all hunk_ok hs"
  shows "\<exists>st'. fold diff_line (concat (map show_hunk hs)) st = st' \<and> df_path st' = df_path st \<and>
    emitted_by (concat (map (\<lambda>h. added_lines (df_path st) (ph_new h) (ph_lines h)) hs)) st st'"
  using assms
proof (induction hs arbitrary: st)
  case (Cons h hs)
  let ?st1 = "fold diff_line (show_hunk h) st"
  have "emitted_by (added_lines (df_path st) (ph_new h) (ph_lines h)) st ?st1" "df_path ?st1 = df_path st"
    using parse_hunk Cons.prems by auto
  then show ?case using Cons.IH [of ?st1] Cons.prems emitted_by_trans by fastforce
qed (simp add: emitted_by_Nil)

lemma parse_headers:
  assumes "\<not> df_inHunk st" "list_all (\<lambda>l. CHR 0x0A \<notin> set l \<and> \<not> has_prefix l ''@@'' \<and> \<not> has_prefix l ''+++ '') ls"
  shows "fold diff_line ls st = st"
proof -
  have eq: "st\<lparr>df_inHunk := False\<rparr> = st" using assms(1) by (cases st) simp
  show ?thesis using assms(2,1) by (induction ls) (simp_all add: diff_line_def eq)
qed

lemma no_last: "c \<notin> set s \<Longrightarrow> rev (dropWhile (\<lambda>d. d = c) (rev s)) = s"
  by (cases "rev s") (auto simp: rev_eq_Cons_iff)

lemma plain_path:
  assumes "CHR 0x09 \<notin> set p" "CHR 0x0D \<notin> set p"
  shows "diffFilePath (''b/'' @ p) = p"
proof -
  have "trim_right_cr (''b/'' @ p) = ''b/'' @ p" using assms(2) no_last [of "CHR 0x0D" "''b/'' @ p"] by (simp add: trim_right_cr_def)
  moreover have "takeWhile (\<lambda>c. c \<noteq> CHR 0x09) (''b/'' @ p) = ''b/'' @ p" using assms(1) by (intro takeWhile_eq_all_conv [THEN iffD2]) auto
  ultimately show ?thesis by (simp add: diffFilePath_def Let_def trim_prefix_def)
qed

lemma parse_file:
  assumes "file_ok f"
  shows "emitted_by (file_text f) st (fold diff_line (show_file f) st)"
proof -
  let ?st1 = "st\<lparr>df_inHunk := False\<rparr>" and ?plus = "''+++ b/'' @ fp_path f"
  let ?st2 = "diff_emit ?plus \<lparr>loc_Path = fp_path f, loc_Line = 0\<rparr> (?st1\<lparr>df_path := fp_path f\<rparr>)"
  have "diff_line (''diff --git a/'' @ fp_path f @ '' b/'' @ fp_path f) st = ?st1" by (simp add: diff_line_def)
  moreover have "fold diff_line (fp_headers f) ?st1 = ?st1" using assms by (intro parse_headers) (simp_all add: file_ok_def)
  moreover have "diff_line ?plus ?st1 = ?st2"
    using plain_path [of "fp_path f"] assms by (simp add: diff_line_def file_ok_def trim_prefix_def Let_def)
  moreover have "emitted_by [(?plus, \<lparr>loc_Path = fp_path f, loc_Line = 0\<rparr>)] st ?st2" "df_path ?st2 = fp_path f"
    by (simp_all add: emitted_by_def diff_emit_def)
  moreover have "list_all hunk_ok (fp_hunks f)" using assms by (simp add: file_ok_def)
  ultimately show ?thesis
    using parse_hunks [of "fp_hunks f" ?st2] emitted_by_Cons unfolding show_file_def file_text_def by fastforce
qed

lemma parse_files: "list_all file_ok fs \<Longrightarrow> emitted_by (patch_text fs) st (fold diff_line (concat (map show_file fs)) st)"
proof (induction fs arbitrary: st)
  case (Cons f fs)
  then show ?case using emitted_by_trans [OF parse_file] by (simp add: patch_text_def)
qed (simp add: patch_text_def emitted_by_Nil)

lemma split_lines: "list_all (\<lambda>l. c \<notin> set l) ls \<Longrightarrow> split_byte c (concat (map (\<lambda>l. l @ [c]) ls)) = ls @ [[]]"
proof (induction ls)
  case (Cons l ls)
  have "split_byte c (l @ c # t) = l # split_byte c t" if "c \<notin> set l" for l t
    using that by (induction l) auto
  then show ?case using Cons by simp
qed simp

lemma itoa_no_newline: "CHR 0x0A \<notin> set (itoa_nat n)"
  using itoa_digits [of n] by (auto simp: list_all_iff is_digit_def)

lemma show_line_ok: "line_ok l \<Longrightarrow> CHR 0x0A \<notin> set (show_line l)"
  by (cases l) simp_all

lemma show_file_lines: "file_ok f \<Longrightarrow> l \<in> set (show_file f) \<Longrightarrow> CHR 0x0A \<notin> set l"
  by (fastforce simp: show_file_def show_hunk_def file_ok_def hunk_ok_def list_all_iff itoa_no_newline dest: show_line_ok)

lemma parse_patch:
  assumes "list_all file_ok fs"
  shows "emitted_by (patch_text fs) diff_start (fold diff_line (split_byte (CHR 0x0A) (show_patch fs)) diff_start)"
proof -
  have lines: "list_all (\<lambda>l. CHR 0x0A \<notin> set l) (concat (map show_file fs))"
    using assms show_file_lines by (fastforce simp: list_all_iff)
  have empty: "diff_line [] st = st" for st by (simp add: diff_line_def)
  show ?thesis using parse_files [OF assms, of diff_start] by (simp add: show_patch_def split_lines [OF lines] empty)
qed

lemma ParseDiff_patch:
  assumes "list_all file_ok fs"
  shows "ParseDiff (show_patch fs) =
    (if \<exists>(t, loc) \<in> set (patch_text fs). 0 < loc_Line loc
     then (concat (map (\<lambda>(t, _). t @ [CHR 0x0A]) (patch_text fs)), map snd (patch_text fs)) else ([], []))"
  using parse_patch [OF assms] by (auto simp: ParseDiff_def Let_def emitted_by_def diff_start_def)


definition sample_patch :: "file_patch list" where
  "sample_patch = [\<lparr>fp_headers = [''index 1..2 100644'', ''--- a/k.env''], fp_path = ''k.env'',
     fp_hunks = [\<lparr>ph_old = 3, ph_new = 3, ph_rest = [], ph_lines = [Context ''x'', Removed ''old'', Added ''++ AKIA1'', Context ''y'', Added ''z'']\<rparr>]\<rparr>]"

lemma sample_patch_ok: "list_all file_ok sample_patch"
  by (simp add: sample_patch_def file_ok_def hunk_ok_def)


section \<open>Attribution\<close>

lemma located_stop: "raw = [] \<or> length data \<le> offset \<or> bytes_index (drop offset data) raw = None \<Longrightarrow> located_loop data raw locs offset line = []"
  by (auto simp: located_loop.simps [of data raw locs offset line])

lemma located_sound:
  assumes "(start, loc) \<in> set (located_loop data raw locs offset (1 + int (bytes_count_newlines (take offset data))))" "offset \<le> length data"
  shows "occurs_at data raw start \<and> locs (1 + int (bytes_count_newlines (take start data))) = Some loc \<and> 0 < loc_Line loc \<and> loc_Path loc \<noteq> [] \<and> raw \<noteq> []"
  using assms
proof (induction "length data - offset" arbitrary: offset rule: less_induct)
  case less
  have "\<not> (raw = [] \<or> length data \<le> offset \<or> bytes_index (drop offset data) raw = None)"
  proof
    assume "raw = [] \<or> length data \<le> offset \<or> bytes_index (drop offset data) raw = None"
    from located_stop [OF this] show False using less.prems(1) by simp
  qed
  then have raw: "raw \<noteq> [] \<and> offset < length data" and "bytes_index (drop offset data) raw \<noteq> None" by auto
  then obtain index where index: "bytes_index (drop offset data) raw = Some index" by blast
  let ?start = "offset + index"
  have occ: "occurs_at data raw ?start" using index raw by (auto simp: bytes_index_Some occurs_at_def add.commute)
  then have le: "?start + length raw \<le> length data" by (simp add: occurs_at_def)
  have line: "1 + int (bytes_count_newlines (take offset data)) + int (bytes_count_newlines (slice offset ?start data)) =
      1 + int (bytes_count_newlines (take ?start data))"
    by (simp add: slice_def take_add)
  have "take (?start + length raw) data = take ?start data @ raw"
    using occ by (simp add: take_add occurs_at_def)
  then have next_line: "1 + int (bytes_count_newlines (take ?start data)) + int (bytes_count_newlines raw) =
      1 + int (bytes_count_newlines (take (?start + length raw) data))" by simp
  let ?rest = "located_loop data raw locs (?start + length raw) (1 + int (bytes_count_newlines (take (?start + length raw) data)))"
  have eq: "located_loop data raw locs offset (1 + int (bytes_count_newlines (take offset data))) =
      (case locs (1 + int (bytes_count_newlines (take ?start data))) of
         Some loc \<Rightarrow> if loc_Path loc \<noteq> [] \<and> 0 < loc_Line loc then [(?start, loc)] else [] | None \<Rightarrow> []) @ ?rest"
    using raw index by (subst located_loop.simps) (simp add: Let_def line next_line)
  consider "(start, loc) \<in> set ?rest" | "start = ?start" "locs (1 + int (bytes_count_newlines (take ?start data))) = Some loc" "0 < loc_Line loc" "loc_Path loc \<noteq> []"
    using less.prems(1) unfolding eq by (auto split: option.splits if_splits)
  then show ?case
  proof cases
    case 1
    have "0 < length raw" using raw by simp
    then have "length data - (?start + length raw) < length data - offset" using raw by linarith
    from less.hyps [OF this 1 le] show ?thesis .
  next
    case 2
    then show ?thesis using occ raw by simp
  qed
qed

text \<open>The line of a text in which a position lies.\<close>

lemma line_at:
  assumes "list_all (\<lambda>l. CHR 0x0A \<notin> set l) ls" "p < length (concat (map (\<lambda>l. l @ [CHR 0x0A]) ls))"
  defines "k \<equiv> bytes_count_newlines (take p (concat (map (\<lambda>l. l @ [CHR 0x0A]) ls)))"
  shows "k < length ls \<and> (\<exists>q \<le> length (ls ! k). p = length (concat (map (\<lambda>l. l @ [CHR 0x0A]) (take k ls))) + q)"
  using assms(1,2) unfolding k_def
proof (induction ls arbitrary: p)
  case (Cons l ls)
  have none: "bytes_count_newlines (take n l) = 0" for n
    using Cons.prems(1) by (auto simp: bytes_count_newlines_def filter_empty_conv dest: in_set_takeD)
  show ?case
  proof (cases "p \<le> length l")
    case True
    then show ?thesis using none [of p] by (auto intro!: exI [of _ p])
  next
    case False
    then obtain p' where p': "p = Suc (length l) + p'" by (metis add_Suc le_Suc_ex not_less_eq_eq)
    have "bytes_count_newlines (take p (concat (map (\<lambda>l. l @ [CHR 0x0A]) (l # ls)))) =
        Suc (bytes_count_newlines (take p' (concat (map (\<lambda>l. l @ [CHR 0x0A]) ls))))"
      using none [of "length l"] by (simp add: p' bytes_count_newlines_def)
    moreover have "p' < length (concat (map (\<lambda>l. l @ [CHR 0x0A]) ls))" using Cons.prems(2) p' by simp
    ultimately show ?thesis using Cons.IH [of p'] Cons.prems(1) p' by auto
  qed
qed simp

lemma located_findings_sound:
  assumes "(start, loc) \<in> set (located_findings c r)" "md_Stdin (SourceMetadata c) = Some m"
  shows "occurs_at (Data c) (Raw r) start \<and> stdin_Locations m (1 + int (bytes_count_newlines (take start (Data c)))) = Some loc \<and>
    0 < loc_Line loc \<and> Raw r \<noteq> []"
proof -
  have "(start, loc) \<in> set (located_loop (Data c) (Raw r) (stdin_Locations m) 0 (1 + int (bytes_count_newlines (take 0 (Data c)))))"
    using assms by (auto simp: located_findings_def bytes_count_newlines_def split: if_splits)
  from located_sound [OF this] show ?thesis by simp
qed

text \<open>The position and the line of the text \<open>k\<close>-th line of a reduced patch.\<close>

definition in_patch_line :: "(string \<times> LineLocation) list \<Rightarrow> nat \<Rightarrow> nat \<Rightarrow> bool" where
  "in_patch_line ts k p \<longleftrightarrow> k < length ts \<and>
     (\<exists>q \<le> length (fst (ts ! k)). p = length (concat (map (\<lambda>(t, _). t @ [CHR 0x0A]) (take k ts))) + q)"

lemma added_lines_text: "list_all line_ok ls \<Longrightarrow> (t, loc) \<in> set (added_lines p n ls) \<Longrightarrow> CHR 0x0A \<notin> set t"
  by (induction p n ls rule: added_lines.induct) auto

lemma patch_text_lines: "list_all file_ok fs \<Longrightarrow> (t, loc) \<in> set (patch_text fs) \<Longrightarrow> CHR 0x0A \<notin> set t"
  by (fastforce simp: patch_text_def file_text_def file_ok_def hunk_ok_def list_all_iff dest: added_lines_text [unfolded list_all_iff])

lemma parsed:
  assumes "list_all file_ok fs" "(data, locs) = ParseDiff (show_patch fs)" "data \<noteq> []"
  shows "data = concat (map (\<lambda>(t, _). t @ [CHR 0x0A]) (patch_text fs))" "locs = map snd (patch_text fs)"
  using assms(2,3) unfolding ParseDiff_patch [OF assms(1)] by (simp_all split: if_splits)

lemma patch_line_at:
  assumes "list_all file_ok fs" "p < length (concat (map (\<lambda>(t, _). t @ [CHR 0x0A]) (patch_text fs)))"
  shows "in_patch_line (patch_text fs) (bytes_count_newlines (take p (concat (map (\<lambda>(t, _). t @ [CHR 0x0A]) (patch_text fs))))) p"
proof -
  have eq: "map (\<lambda>(t, _). t @ [CHR 0x0A]) ts = map (\<lambda>l. l @ [CHR 0x0A]) (map fst ts)" for ts :: "(string \<times> LineLocation) list"
    by (induction ts) auto
  have "list_all (\<lambda>l. CHR 0x0A \<notin> set l) (map fst (patch_text fs))"
    using patch_text_lines [OF assms(1)] by (fastforce simp: list_all_iff)
  from line_at [OF this, of p] assms(2) show ?thesis by (auto simp: in_patch_line_def eq take_map)
qed

lemma stdin_chunk_of_diff:
  assumes "sc_Diff (si_cfg s)" "si_cached s = None" "se_error env = None" "int (length (se_input env)) \<le> sc_MaxBytes (si_cfg s)"
    "c \<in> set (fst (fst (stdin_Chunks env s)))"
  shows "Data c = fst (ParseDiff (se_input env)) \<and>
    (\<exists>l. md_Stdin (SourceMetadata c) = Some \<lparr>stdin_Label = l, stdin_Locations = LocationMap (snd (ParseDiff (se_input env)))\<rparr>)"
proof -
  have "take (nat (sc_MaxBytes (si_cfg s))) (se_input env) = se_input env" using assms(4) by simp
  then show ?thesis using assms(1,2,3,5)
    by (auto simp: stdin_Chunks_def readInput_def stdin_chunk_def Let_def no_metadata_def split: if_splits prod.splits)
qed


definition diff_env :: stdin_env where
  "diff_env = \<lparr>se_input = show_patch sample_patch, se_error = None, se_sha = id, se_config = \<lambda>_. [], se_cancelled = (False, False)\<rparr>"

definition diff_source :: stdin_source where
  "diff_source = \<lparr>si_name = ''protect'', si_jobID = 1, si_sourceID = 2,
     si_cfg = \<lparr>sc_Label = defaultLabel, sc_MaxBytes = defaultMaxBytes, sc_Diff = True, sc_Locations = Map.empty\<rparr>,
     si_configHash = [], si_cached = None, si_previous = None, si_next = None\<rparr>"

lemma sample_parse: "ParseDiff (show_patch sample_patch) =
    (''+++ b/k.env'' @ [CHR 0x0A] @ ''++ AKIA1'' @ [CHR 0x0A] @ ''z'' @ [CHR 0x0A], map (\<lambda>n. \<lparr>loc_Path = ''k.env'', loc_Line = n\<rparr>) [0, 4, 6])"
  unfolding ParseDiff_patch [OF sample_patch_ok] by (simp add: sample_patch_def patch_text_def file_text_def)

definition sample_diff_chunk :: Chunk where
  "sample_diff_chunk = stdin_chunk (fst (ParseDiff (show_patch sample_patch))) (LocationMap (snd (ParseDiff (show_patch sample_patch)))) diff_source"

lemma sample_patch_length: "int (length (show_patch sample_patch)) \<le> sc_MaxBytes (si_cfg diff_source)"
  by (simp add: sample_patch_def show_patch_def show_file_def show_hunk_def itoa_nat.simps diff_source_def defaultMaxBytes_def)

lemma diff_delivered:
  assumes "readInput env s = (Inr (raw, tr), s1)" "se_cancelled env = (False, False)" "sc_Diff (si_cfg s1)" "si_previous s1 = None"
  shows "stdin_chunk (fst (ParseDiff raw)) (LocationMap (snd (ParseDiff raw))) s1 \<in> set (fst (fst (stdin_Chunks env s)))"
  using assms by (simp add: stdin_Chunks_def Let_def stdin_chunk_def split: prod.splits)

lemma diff_source_chunk: "sample_diff_chunk \<in> set (fst (fst (stdin_Chunks diff_env diff_source)))"
proof -
  have "take (nat (sc_MaxBytes (si_cfg diff_source))) (show_patch sample_patch) = show_patch sample_patch" using sample_patch_length by simp
  moreover have "\<not> nat (sc_MaxBytes (si_cfg diff_source)) < length (show_patch sample_patch)" using sample_patch_length by simp
  moreover have "si_cached diff_source = None" by (simp add: diff_source_def)
  ultimately have r: "readInput diff_env diff_source =
      (Inr (show_patch sample_patch, False), diff_source\<lparr>si_cached := Some (show_patch sample_patch, False)\<rparr>)"
    by (simp add: readInput_def diff_env_def Let_def)
  have "stdin_chunk (fst (ParseDiff (show_patch sample_patch))) (LocationMap (snd (ParseDiff (show_patch sample_patch))))
      (diff_source\<lparr>si_cached := Some (show_patch sample_patch, False)\<rparr>) = sample_diff_chunk"
    by (simp add: sample_diff_chunk_def stdin_chunk_def)
  then show ?thesis using diff_delivered [OF r] by (simp add: diff_source_def diff_env_def)
qed

lemma sample_located: "(15, \<lparr>loc_Path = ''k.env'', loc_Line = 4\<rparr>) \<in> set (located_findings sample_diff_chunk key_result)"
proof -
  let ?d = "''+++ b/k.env'' @ [CHR 0x0A] @ ''++ AKIA1'' @ [CHR 0x0A] @ ''z'' @ [CHR 0x0A]"
  let ?m = "LocationMap (map (\<lambda>n. \<lparr>loc_Path = ''k.env'', loc_Line = n\<rparr>) [0, 4, 6])"
  have "(15, \<lparr>loc_Path = ''k.env'', loc_Line = 4\<rparr>) \<in> set (located_loop ?d ''AKIA1'' ?m 0 1)" by code_simp
  moreover have "?m 1 \<noteq> None" by (simp add: LocationMap_def)
  then have "?m \<noteq> Map.empty" by auto
  ultimately show ?thesis
    by (simp add: located_findings_def sample_diff_chunk_def stdin_chunk_def sample_parse key_result_def no_metadata_def del: list.map)
qed


text \<open>A second run with the state that a run leaves behind delivers nothing.\<close>

lemma readInput_again: "readInput env s = (r, s1) \<Longrightarrow> si_cached s2 = si_cached s1 \<Longrightarrow> si_cfg s2 = si_cfg s1 \<Longrightarrow> readInput env s2 = (r, s2)"
  by (auto simp: readInput_def Let_def split: option.splits if_splits)

lemma readInput_keeps: "readInput env s = (r, s1) \<Longrightarrow> si_cfg s1 = si_cfg s \<and> si_configHash s1 = si_configHash s \<and> si_next s1 = si_next s"
  by (auto simp: readInput_def Let_def split: option.splits if_splits)

lemma unchanged_input_skipped:
  assumes "stdin_Chunks env s = (r, s')" "IncrementalState s' = Some st" "SetIncrementalState (Some (Inr st)) s' = (None, s2)"
  shows "fst (fst (stdin_Chunks env s2)) = []"
proof (cases "fst (se_cancelled env)")
  case False
  obtain q s1 where q: "readInput env s = (q, s1)" by (metis surj_pair)
  have s2: "s2 = s'\<lparr>si_previous := Some st\<rparr>" "si_next s' = Some st" using assms(2,3) by (simp_all add: SetIncrementalState_def IncrementalState_def)
  show ?thesis
  proof (cases q)
    case (Inl e)
    then have "s' = s1" using assms(1) False q by (simp add: stdin_Chunks_def)
    then have "readInput env s2 = (Inl e, s2)" using readInput_again [OF q] s2(1) Inl by simp
    then show ?thesis using False by (simp add: stdin_Chunks_def)
  next
    case (Inr p)
    obtain raw tr where p: "p = (raw, tr)" by (metis surj_pair)
    have s': "s' = s1\<lparr>si_next := Some (current_state env raw s1)\<rparr>"
      using assms(1) False q Inr p by (auto simp: stdin_Chunks_def Let_def split: if_splits prod.splits)
    then have "readInput env s2 = (Inr (raw, tr), s2)" using readInput_again [OF q] s2(1) Inr p by simp
    moreover have "si_previous s2 = Some (current_state env raw s2)" using s' s2 by (simp add: current_state_def)
    ultimately show ?thesis using False by (simp add: stdin_Chunks_def Let_def current_state_def split: prod.splits)
  qed
qed (simp add: stdin_Chunks_def)

end
