(* ===== verification/Spec2Isabelle.thy ===== *)
theory Spec2Isabelle
  imports AhoCorasickCorrect SinksCorrect Allowlist VerificationCacheCorrect
    EngineDispatchCorrect Degradation DecoderEscapes EngineRunCorrect
    StdinCorrect
begin

text \<open>
  Verification of the scanning core of pleno-dlp, a scanner that reads chunks of data from sources, looks for leaked
  credentials with a registry of detectors, optionally asks the provider whether a credential is live, and hands findings to a
  chain of sinks.

  \<^bold>\<open>The program and its parts.\<close> A source produces chunks (\<^verbatim>\<open>src/pkg/sources/sources.go\<close>). The engine
  (\<^verbatim>\<open>src/pkg/engine/engine.go\<close>) opens archives (\<^verbatim>\<open>src/pkg/archive\<close>), scans every leaf, raw and in five decoded forms
  (\<^verbatim>\<open>src/pkg/decoder\<close>), cuts each form into overlapping windows, selects the detectors whose keywords the Aho-Corasick
  automaton (\<^verbatim>\<open>src/pkg/ahocorasick\<close>) finds in a window, hands each one the window or only the vicinity of its keywords,
  through the verification cache when it verifies, and finalises and locates every result. The sinks
  (\<^verbatim>\<open>placeholder.go\<close>, \<^verbatim>\<open>dedup.go\<close>, \<^verbatim>\<open>allowlist.go\<close>, \<^verbatim>\<open>chain.go\<close>) filter what is emitted. Large inputs take a second
  route: they are read in blocks, the decoded forms are spooled, and the stream match cache of \<^verbatim>\<open>engine.go\<close> finds the
  position and line of a secret without holding the input.

  \<^bold>\<open>Theories.\<close>
  \<^item> \<open>Prelude\<close>, \<open>Utf8\<close>: byte strings, the functions of \<^verbatim>\<open>bytes\<close>, \<^verbatim>\<open>strings\<close>, \<^verbatim>\<open>strconv\<close> and \<^verbatim>\<open>unicode/utf8\<close> the sources
    use, index expressions that panic (\<^const>\<open>geti\<close>, \<^const>\<open>seti\<close>), loops that may panic (\<^const>\<open>foldM\<close>).
  \<^item> \<open>AhoCorasick\<close>: the builder and the queries of \<^verbatim>\<open>direct.go\<close> and \<^verbatim>\<open>ahocorasick.go\<close>, with 16-bit edge counters, the dense
    transition table and Go's panics. \<open>AhoCorasickSpec\<close> is the mathematics of longest suffixes, \<open>AhoCorasickTrie\<close> and
    \<open>AhoCorasickTable\<close> show that the arrays implement it, \<open>AhoCorasickCorrect\<close> that the queries are naive search.
  \<^item> \<open>Detectors\<close>, \<open>DetectorNames\<close>: results, severities, verdicts, redaction, the word-boundary and keyword-proximity
    prefilters and the classification of HTTP answers of \<^verbatim>\<open>src/pkg/detectors\<close>.
  \<^item> \<open>Sources\<close>: chunks, their provenance, and the registry of sources.
  \<^item> \<open>Decoder\<close>, \<open>DecoderCorrect\<close>, \<open>DecoderEscapes\<close>, \<open>DecoderSize\<close>: \<^verbatim>\<open>decoder.go\<close>, with the reused scratch buffer written out and the
    \<^verbatim>\<open>float64\<close> arithmetic of the printable test as rounding to 53 bits.
  \<^item> \<open>DecoderStream\<close>, \<open>DecoderStreamRuns\<close>, \<open>DecoderStreamCorrect\<close>: \<^verbatim>\<open>decoder/stream.go\<close>, the same variants read in blocks.
  \<^item> \<open>ArchiveFormat\<close>, \<open>ArchiveFormatCorrect\<close>: format detection, entry names, the tar and zip preflights of \<^verbatim>\<open>archive.go\<close>.
    \<open>Archive\<close>, \<open>ArchiveSpool\<close>, \<open>ArchiveWalk\<close>, \<open>ArchiveCorrect\<close>: spools, the expansion budget and the recursive walk.
  \<^item> \<open>VerificationCache\<close>, \<open>VerificationCacheCorrect\<close>: \<^verbatim>\<open>verification_cache.go\<close>.
  \<^item> \<open>EngineLines\<close> (finalisation and lines of a finding), \<open>EngineDispatch\<close> and \<open>EngineDispatchCorrect\<close> (construction,
    prefilter, windows, spans), \<open>Engine\<close> and \<open>EngineCorrect\<close> (the scan of a buffered chunk), \<open>Degradation\<close> (coverage
    accounting): \<^verbatim>\<open>engine.go\<close>, \<^verbatim>\<open>scan_bytes.go\<close>, \<^verbatim>\<open>degradation.go\<close>.
  \<^item> \<open>StreamMatch\<close> to \<open>StreamCache\<close>: the stream match cache of \<^verbatim>\<open>engine.go\<close>. \<open>StreamMatch\<close> holds its state and operations,
    \<open>StreamResolve\<close> resolution, \<open>StreamObserve\<close> the observation of windows, the others what each of them keeps and finds.
  \<^item> \<open>EngineStream\<close>, \<open>EngineStreamCorrect\<close>: the scan of a replayable chunk, with the batch of findings that wait for their lines, and
    its equivalence with the scan of the same chunk in memory.
  \<^item> \<open>EngineRun\<close>, \<open>EngineRunCorrect\<close>: the run around the scans (\<^verbatim>\<open>RunWithStats\<close>, \<^verbatim>\<open>scanChunk\<close>, \<^verbatim>\<open>scanOpenedChunk\<close>,
    \<^verbatim>\<open>scanArchiveWith\<close>): archives, opened bodies, the failure log, the statistics, and \<^verbatim>\<open>ScanBytes\<close>.
  \<^item> \<open>GoText\<close>, \<open>StdinSource\<close>, \<open>StdinCorrect\<close>: numbers and quoted strings in text, and standard input as a source with its reduction
    of diffs (\<^verbatim>\<open>src/pkg/sources/stdin\<close>).
  \<^item> \<open>Sinks\<close>, \<open>SinksCorrect\<close>, \<open>Allowlist\<close>: the sinks and the lifecycle of a chain.

  \<^bold>\<open>Interfaces.\<close> \<open>filter_sink\<close> is the contract of a sink that forwards a finding or nothing; the placeholder filter, the two
  deduplicating sinks and the allowlist are interpretations. \<open>verdict_store\<close> is what the cache-aware detector call needs of a
  store, provided by the ring buffer of the verification cache. \<open>walk_contract\<close> states the laws of a relation that the steps of
  an archive walk respect; the lifetime of temporary files and the coverage of the leaves are its interpretations.
  \<open>scan_relation\<close> does the same for the steps of a chunk scan, interpreted for the findings that are added, for what an
  offline scan may claim, and for what a run keeps in its failure log and cache. \<open>labelled_trie\<close> and \<open>indexed_trie\<close> separate the breadth-first construction of the automaton from the
  trie it runs on; they are interpreted on the trie that the builder builds.

  \<^bold>\<open>State, errors and effects.\<close> Every operation returns its new state explicitly. A Go error is a value of a sum, a panic is
  \<^const>\<open>None\<close>. Code that this repository does not contain is a parameter: detectors, regular expressions, SHA-256,
  decompressors and their failures, \<^verbatim>\<open>filepath.Match\<close>, Unicode case tables, what a read delivers and how often it is
  split, and when a context is cancelled. Where an
  outcome depends on time or on the order of a Go map, the operations carry a clock and the parameter answers by its value, so
  every schedule is an instance. Reads that fail, deliver less or end early are modelled; the theorems that need a source
  whose reads are complete say so (\<open>reliable\<close>).

  \<^bold>\<open>Bounds and fuel.\<close> Lengths are natural numbers; where the code's width matters (edge counters, header fields, limits near
  the largest \<^verbatim>\<open>int64\<close>, the archive budget) wrap-around is written out. The printable test is proved for buffers below
  \<^verbatim>\<open>2^48\<close> bytes, where \<^verbatim>\<open>float64\<close> rounding cannot change its outcome. Loops are structural or terminate by a measure; the
  queries of the automaton follow dictionary links with the number of states as fuel, and the theorems show that it is never
  used up. The recursion into nested archives is bounded by \<^verbatim>\<open>MaxDepth\<close>, as in the code.

  \<^bold>\<open>What the theorems show.\<close> The automaton is naive search. No short credential is kept from its detector by the prefilter,
  the windows or the spans, and what a scan emits is finalised, located and redacted. Text hidden behind base64, hexadecimal,
  UTF-16, percent or Unicode escapes reappears as a variant, streamed or buffered. A walk of an archive stays within its limits,
  leaves no temporary file behind and, when it reports no error, has visited every leaf. A verdict from the cache is the verdict
  the verifier gave. The stream match cache only ever records first occurrences and resolves every secret of a batch; on top of
  it the streamed scan hands out exactly the findings of the buffered one. A whole run hands out every credential of every leaf or ends
  with an error, and raises no false alarm. A finding in a diff is attributed to the line that adds it. The sinks drop exactly what
  they document.

  \<^bold>\<open>Not modelled.\<close> The provider detectors below \<^verbatim>\<open>src/pkg/detectors\<close> are regular expressions and HTTP requests over the shared
  layer; the engine is proved for every list of detectors. The connectors, the Git, S3, GCS, container and database sources
  are clients of services and of third-party libraries. The command line, the output writers, auditing, telemetry and the
  PII engines are input and output around the core. Concurrency is modelled where its outcome is visible, as the
  order in which atomic steps happen; goroutines, channels and contexts themselves are not.
\<close>

end
